(* ===== verification/Prelude.thy ===== *)
theory Prelude
  imports Main "HOL-Library.Word" "HOL-Library.Sublist"
begin

unbundle bit_operations_syntax

text \<open>
  Shared vocabulary of the development: the machine types, byte-order conversions, slices and
  chunks of byte strings, the checked and saturating arithmetic of Rust's integer types, and the
  interfaces (locales) that several components implement. Rust integers that only travel over
  the wire are words; counters on which the code computes with explicit overflow checks are
  natural numbers together with the bound of their type.
\<close>

section \<open>Collections of facts\<close>

named_theorems wire_defs \<open>definitions of the byte-level encoders and decoders\<close>
named_theorems step_defs \<open>definitions of the operations of the state machines\<close>
named_theorems inv_defs \<open>definitions of the invariants\<close>

section \<open>Machine types\<close>

type_synonym u8 = "8 word"
type_synonym u16 = "16 word"
type_synonym u32 = "32 word"
type_synonym u64 = "64 word"
type_synonym bytes = "8 word list"
type_synonym usize = nat
type_synonym nat64 = nat

definition u64_max :: nat where
  "u64_max = 18446744073709551615"

definition checked_add64 :: "nat \<Rightarrow> nat \<Rightarrow> nat option" where
  "checked_add64 a b = (if a + b \<le> u64_max then Some (a + b) else None)"

definition checked_mul64 :: "nat \<Rightarrow> nat \<Rightarrow> nat option" where
  "checked_mul64 a b = (if a * b \<le> u64_max then Some (a * b) else None)"

definition checked_sub64 :: "nat \<Rightarrow> nat \<Rightarrow> nat option" where
  "checked_sub64 a b = (if b \<le> a then Some (a - b) else None)"

definition saturating_add64 :: "nat \<Rightarrow> nat \<Rightarrow> nat" where
  "saturating_add64 a b = min (a + b) u64_max"

definition div_ceil :: "nat \<Rightarrow> nat \<Rightarrow> nat" where
  "div_ceil a b = (a + b - 1) div b"

lemma checked_add64_Some [simp]:
  "checked_add64 a b = Some c \<longleftrightarrow> c = a + b \<and> a + b \<le> u64_max"
  by (auto simp: checked_add64_def)

lemma checked_mul64_Some [simp]:
  "checked_mul64 a b = Some c \<longleftrightarrow> c = a * b \<and> a * b \<le> u64_max"
  by (auto simp: checked_mul64_def)

lemma checked_sub64_Some [simp]:
  "checked_sub64 a b = Some c \<longleftrightarrow> c = a - b \<and> b \<le> a"
  by (auto simp: checked_sub64_def)

lemma checked_sub64_None [simp]: "checked_sub64 a b = None \<longleftrightarrow> a < b"
  by (auto simp: checked_sub64_def)

lemma checked_add64_None [simp]: "checked_add64 a b = None \<longleftrightarrow> u64_max < a + b"
  by (auto simp: checked_add64_def)

section \<open>Byte order\<close>

definition le_bytes :: "nat \<Rightarrow> 'a::len word \<Rightarrow> bytes" where
  "le_bytes n w = map (\<lambda>i. ucast (drop_bit (8 * i) w)) [0..<n]"

fun of_le :: "bytes \<Rightarrow> 'a::len word" where
  "of_le [] = 0"
| "of_le (b # bs) = ucast b OR push_bit 8 (of_le bs)"

definition be_bytes :: "nat \<Rightarrow> 'a::len word \<Rightarrow> bytes" where
  "be_bytes n w = rev (le_bytes n w)"

definition of_be :: "bytes \<Rightarrow> 'a::len word" where
  "of_be bs = of_le (rev bs)"

lemma length_le_bytes [simp]: "length (le_bytes n w) = n"
  by (simp add: le_bytes_def)

lemma length_be_bytes [simp]: "length (be_bytes n w) = n"
  by (simp add: be_bytes_def)

lemma bit_of_le:
  "bit (of_le bs :: 'a::len word) i \<longleftrightarrow>
     i < LENGTH('a) \<and> i div 8 < length bs \<and> bit (bs ! (i div 8)) (i mod 8)"
proof (induction bs arbitrary: i)
  case Nil
  then show ?case by simp
next
  case (Cons b bs)
  show ?case
  proof (cases "i < 8")
    case True
    then show ?thesis
      by (auto simp: bit_simps)
  next
    case False
    then have eqs: "i div 8 = Suc ((i - 8) div 8)" "i mod 8 = (i - 8) mod 8"
      by (simp_all add: le_div_geq le_mod_geq)
    from False have "\<not> bit b i"
      by (auto dest: bit_imp_le_length)
    with False show ?thesis
      by (auto simp: bit_simps Cons.IH eqs)
  qed
qed

lemma of_le_le_bytes:
  assumes "LENGTH('a::len) \<le> 8 * n"
  shows "of_le (le_bytes n (w :: 'a word)) = w"
proof (rule bit_word_eqI)
  fix i assume "i < LENGTH('a)"
  moreover from this assms have "i div 8 < n" by linarith
  ultimately show "bit (of_le (le_bytes n w) :: 'a word) i = bit w i"
    by (auto simp: bit_of_le le_bytes_def bit_simps algebra_simps)
qed

lemma le_bytes_of_le:
  assumes "8 * length bs \<le> LENGTH('a::len)" and "n = length bs"
  shows "le_bytes n (of_le bs :: 'a word) = bs"
proof (rule nth_equalityI)
  show "length (le_bytes n (of_le bs :: 'a word)) = length bs" by (simp add: assms)
next
  fix i assume i: "i < length (le_bytes n (of_le bs :: 'a word))"
  then have i': "i < length bs" by (simp add: assms)
  show "le_bytes n (of_le bs :: 'a word) ! i = bs ! i"
  proof (rule bit_word_eqI)
    fix j assume "j < LENGTH(8)"
    then have j: "j < 8" by simp
    with i' assms have "8 * i + j < LENGTH('a)" by linarith
    with i' j assms show "bit (le_bytes n (of_le bs :: 'a word) ! i) j = bit (bs ! i) j"
      by (auto simp: le_bytes_def bit_simps bit_of_le)
  qed
qed

lemma of_be_be_bytes:
  assumes "LENGTH('a::len) \<le> 8 * n"
  shows "of_be (be_bytes n (w :: 'a word)) = w"
  using assms by (simp add: of_be_def be_bytes_def of_le_le_bytes)

lemma be_bytes_of_be:
  assumes "8 * length bs \<le> LENGTH('a::len)" and "n = length bs"
  shows "be_bytes n (of_be bs :: 'a word) = bs"
  using assms by (simp add: of_be_def be_bytes_def le_bytes_of_le)

text \<open>Two bytes are equal if their eight bits are.\<close>

lemma eight_bits: "(n::nat) < 8 \<Longrightarrow> n = 0 \<or> n = 1 \<or> n = 2 \<or> n = 3 \<or> n = 4 \<or> n = 5 \<or> n = 6 \<or> n = 7"
  by arith

lemma byte_bitsI:
  fixes v w :: "8 word"
  assumes "bit v 0 = bit w 0" "bit v 1 = bit w 1" "bit v 2 = bit w 2" "bit v 3 = bit w 3"
    "bit v 4 = bit w 4" "bit v 5 = bit w 5" "bit v 6 = bit w 6" "bit v 7 = bit w 7"
  shows "v = w"
proof (rule bit_word_eqI)
  fix n assume "n < LENGTH(8)"
  then have "n < 8" by simp
  from eight_bits [OF this] show "bit v n = bit w n"
    by (elim disjE) (simp_all only: assms)
qed

text \<open>The instances the wire formats use.\<close>

lemma le_roundtrip [simp]:
  "of_le (le_bytes 4 (w :: u32)) = w"
  "of_le (le_bytes 8 (v :: u64)) = v"
  "of_be (be_bytes 2 (x :: u16)) = x"
  "of_be (be_bytes 4 (w :: u32)) = w"
  "of_be (be_bytes 8 (v :: u64)) = v"
  by (simp_all add: of_le_le_bytes of_be_be_bytes)

section \<open>Slices and chunks\<close>

definition byte_slice :: "nat \<Rightarrow> nat \<Rightarrow> 'a list \<Rightarrow> 'a list" where
  "byte_slice a b xs = take (b - a) (drop a xs)"

lemma length_byte_slice [simp]: "length (byte_slice a b xs) = min (b - a) (length xs - a)"
  by (simp add: byte_slice_def)

lemma byte_slice_append_right: "length xs \<le> a \<Longrightarrow> byte_slice a b (xs @ ys) = byte_slice (a - length xs) (b - length xs) ys"
  by (simp add: byte_slice_def)

lemma byte_slice_Cons: "0 < a \<Longrightarrow> byte_slice a b (x # xs) = byte_slice (a - 1) (b - 1) xs"
  by (cases a) (simp_all add: byte_slice_def)

lemma byte_slice_Cons0: "0 < b \<Longrightarrow> byte_slice 0 b (x # xs) = x # byte_slice 0 (b - 1) xs"
  by (cases b) (simp_all add: byte_slice_def)

lemma byte_slice_append_left: "b \<le> length xs \<Longrightarrow> byte_slice a b (xs @ ys) = byte_slice a b xs"
  by (cases "a \<le> b") (simp_all add: byte_slice_def)

lemma byte_slice_all [simp]: "length xs \<le> b \<Longrightarrow> byte_slice 0 b xs = xs"
  by (simp add: byte_slice_def)

lemma byte_slice_join: "a \<le> b \<Longrightarrow> b \<le> c \<Longrightarrow> byte_slice a b xs @ byte_slice b c xs = byte_slice a c xs"
proof -
  assume ab: "a \<le> b" and bc: "b \<le> c"
  have "take (c - a) (drop a xs) = take ((b - a) + (c - b)) (drop a xs)"
    using ab bc by simp
  also have "\<dots> = take (b - a) (drop a xs) @ take (c - b) (drop (b - a) (drop a xs))"
    by (simp only: take_add)
  finally show ?thesis using ab by (simp add: byte_slice_def)
qed

lemma byte_slice_to_end: "a \<le> length xs \<Longrightarrow> take a xs @ byte_slice a (length xs) xs = xs"
  by (simp add: byte_slice_def)

lemma byte_slice_zero [simp]: "byte_slice 0 0 xs = []"
  by (simp add: byte_slice_def)

lemma byte_slice_prefix: "length xs = n \<Longrightarrow> byte_slice 0 n (xs @ ys) = xs"
  by (simp add: byte_slice_def)

text \<open>Reading a field back from the layout that wrote it.\<close>

lemmas layout_simps = byte_slice_Cons byte_slice_Cons0 byte_slice_append_right byte_slice_append_left byte_slice_prefix

lemma two_bytes: "length xs = 2 \<Longrightarrow> [(xs @ ys) ! 0, (xs @ ys) ! Suc 0] = xs"
  by (cases xs; cases "tl xs") auto

lemma of_be_two [simp]:
  "of_be [(be_bytes 2 (w :: u16) @ ys) ! 0, (be_bytes 2 w @ ys) ! Suc 0] = w"
  by (simp only: two_bytes length_be_bytes le_roundtrip)

lemma split_four: "4 \<le> length d \<Longrightarrow> d = [d ! 0, d ! 1] @ [d ! 2, d ! 3] @ drop 4 d"
  by (cases d; cases "tl d"; cases "tl (tl d)"; cases "tl (tl (tl d))") (auto simp: numeral_eq_Suc)

lemma drop_slice: "a \<le> b \<Longrightarrow> drop a d = byte_slice a b d @ drop b d"
proof -
  assume "a \<le> b"
  then have "drop b d = drop (b - a) (drop a d)" by simp
  then show ?thesis by (simp only: byte_slice_def append_take_drop_id)
qed

function chunks :: "nat \<Rightarrow> 'a list \<Rightarrow> 'a list list" where
  "chunks n xs = (if xs = [] \<or> n = 0 then [] else take n xs # chunks n (drop n xs))"
  by pat_completeness auto
termination
  by (relation "measure (\<lambda>(n, xs). length xs)") auto

declare chunks.simps [simp del]

lemma chunks_Nil [simp]: "chunks n [] = []"
  by (simp add: chunks.simps)

lemma chunks_Cons: "xs \<noteq> [] \<Longrightarrow> 0 < n \<Longrightarrow> chunks n xs = take n xs # chunks n (drop n xs)"
  by (subst chunks.simps) simp

lemma concat_chunks: "0 < n \<Longrightarrow> concat (chunks n xs) = xs"
proof (induction n xs rule: chunks.induct)
  case (1 n xs)
  then show ?case by (cases "xs = []") (simp_all add: chunks_Cons)
qed

lemma chunks_bound: "c \<in> set (chunks n xs) \<Longrightarrow> 0 < length c \<and> length c \<le> n"
proof (induction n xs rule: chunks.induct)
  case (1 n xs)
  then show ?case
    by (cases "xs = [] \<or> n = 0") (auto simp: chunks.simps [of n xs])
qed

lemma div_ceil_step:
  assumes "0 < L" and "0 < n"
  shows "Suc (div_ceil (L - n) n) = div_ceil L n"
proof (cases "n \<le> L")
  case True
  then have "L - n + n - 1 = L - 1" and "L + n - 1 = (L - 1) + n"
    using assms by simp_all
  with assms show ?thesis unfolding div_ceil_def by (simp only: div_add_self2)
next
  case False
  then have "(L + n - 1) div n = 1" and "L - n + n - 1 = n - 1"
    using assms by (simp_all add: div_nat_eqI)
  with assms show ?thesis unfolding div_ceil_def by (simp del: div_eq_0_iff)
qed

lemma length_chunks: "0 < n \<Longrightarrow> length (chunks n xs) = div_ceil (length xs) n"
proof (induction n xs rule: chunks.induct)
  case (1 n xs)
  show ?case
  proof (cases "xs = []")
    case True
    with 1 show ?thesis by (simp add: div_ceil_def)
  next
    case False
    with 1 have "length (chunks n xs) = Suc (div_ceil (length xs - n) n)"
      by (simp add: chunks_Cons)
    moreover from False 1 have "Suc (div_ceil (length xs - n) n) = div_ceil (length xs) n"
      by (simp add: div_ceil_step)
    ultimately show ?thesis by simp
  qed
qed

section \<open>The first position of an element\<close>

fun position :: "('a \<Rightarrow> bool) \<Rightarrow> 'a list \<Rightarrow> nat option" where
  "position P [] = None"
| "position P (x # xs) = (if P x then Some 0 else map_option Suc (position P xs))"

lemma position_unique:
  "distinct xs \<Longrightarrow> position (\<lambda>x. x = a) xs = Some r \<longleftrightarrow> r < length xs \<and> xs ! r = a"
proof (induction xs arbitrary: r)
  case Nil
  then show ?case by simp
next
  case (Cons x xs)
  show ?case
  proof (cases r)
    case 0
    then show ?thesis by simp
  next
    case (Suc r')
    have "x \<noteq> a" if "r' < length xs" "xs ! r' = a"
      using Cons.prems that nth_mem [of r' xs] by force
    with Suc Cons.IH [of r'] Cons.prems show ?thesis by auto
  qed
qed

lemma position_Some:
  "position P xs = Some i \<longleftrightarrow> i < length xs \<and> P (xs ! i) \<and> list_all (\<lambda>x. \<not> P x) (take i xs)"
proof (induction xs arbitrary: i)
  case Nil
  then show ?case by simp
next
  case (Cons x xs)
  then show ?case by (cases i) auto
qed

lemma position_None: "position P xs = None \<longleftrightarrow> list_all (\<lambda>x. \<not> P x) xs"
  by (induction xs) auto

lemma position_append:
  "list_all (\<lambda>x. \<not> P x) xs \<Longrightarrow> position P (xs @ ys) = map_option (\<lambda>i. length xs + i) (position P ys)"
  by (induction xs; cases "position P ys") simp_all

lemma position_map: "position P (map f xs) = position (\<lambda>x. P (f x)) xs"
  by (induction xs) simp_all

section \<open>Prefixes of a concatenation\<close>

text \<open>A prefix of a stream of words is some whole words and a proper prefix of the next.\<close>

lemma split_words:
  "prefix x (concat ws) \<Longrightarrow> \<forall>w \<in> set ws. w \<noteq> [] \<Longrightarrow>
     \<exists>ws1 ws2 q. ws = ws1 @ ws2 \<and> x = concat ws1 @ q \<and> (q = [] \<or> ws2 \<noteq> [] \<and> strict_prefix q (hd ws2))"
proof (induction ws arbitrary: x)
  case Nil
  then show ?case by simp
next
  case (Cons w ws)
  show ?case
  proof (cases "prefix w x")
    case True
    then obtain y where y: "x = w @ y" by (auto simp: prefix_def)
    with Cons.prems have "prefix y (concat ws)" by simp
    with Cons obtain ws1 ws2 q where "ws = ws1 @ ws2" "y = concat ws1 @ q" "q = [] \<or> ws2 \<noteq> [] \<and> strict_prefix q (hd ws2)"
      by (metis list.set_intros(2))
    with y show ?thesis by (intro exI [of _ "w # ws1"] exI [of _ ws2] exI [of _ q]) auto
  next
    case False
    with Cons.prems have "strict_prefix x w"
      by (metis concat.simps(2) prefix_same_cases prefixI strict_prefix_def)
    then show ?thesis by (intro exI [of _ "[]"] exI [of _ "w # ws"] exI [of _ x]) simp
  qed
qed

text \<open>A strictly ordered selection from a strictly ordered list is a subsequence of it.\<close>

lemma sorted_subset_subseq:
  assumes "sorted_wrt (\<lambda>x y. f x < (f y :: 'b::linorder)) xs" and "sorted_wrt (\<lambda>x y. f x < f y) ys" and "set xs \<subseteq> set ys"
  shows "subseq xs ys"
  using assms
proof (induction ys arbitrary: xs)
  case Nil
  then show ?case by simp
next
  case (Cons y ys)
  show ?case
  proof (cases xs)
    case Nil
    then show ?thesis by simp
  next
    case (Cons x xs')
    have below: "f y < f z" if "z \<in> set ys" for z using Cons.prems(2) that by simp
    show ?thesis
    proof (cases "x = y")
      case True
      have "z \<in> set ys" if "z \<in> set xs'" for z
        using Cons.prems(1,3) that True unfolding Cons by auto
      then have "subseq xs' ys" using Cons.prems(1,2) by (intro Cons.IH) (auto simp: Cons)
      with True Cons show ?thesis by simp
    next
      case False
      have "y \<notin> set xs"
      proof
        assume "y \<in> set xs"
        with False Cons have "f x < f y" using Cons.prems(1) by auto
        moreover have "x \<in> set ys" using False Cons Cons.prems(3) by auto
        ultimately show False using below by force
      qed
      then have "subseq xs ys" using Cons.prems by (intro Cons.IH) auto
      then show ?thesis by (rule list_emb_Cons)
    qed
  qed
qed

end
