(* ===== verification/RustStr.thy ===== *)
theory RustStr
  imports Prelude "HOL-Library.Sublist"
begin

text \<open>
  The operations of Rust's string type that the configuration and address code uses. A Rust
  string is its UTF-8 encoding, a list of 8-bit characters; trimming removes the encodings of
  the Unicode white space characters, the other operations only look at ASCII characters and
  therefore work byte by byte.
\<close>

section \<open>Trimming and case\<close>

text \<open>The UTF-8 encodings of the characters that Rust's trim removes (Unicode White\_Space).\<close>

definition WHITE_SPACE :: "string list" where
  "WHITE_SPACE =
     [[CHR 0x09], [CHR 0x0A], [CHR 0x0B], [CHR 0x0C], [CHR 0x0D], [CHR 0x20],
      [CHR 0xC2, CHR 0x85], [CHR 0xC2, CHR 0xA0], [CHR 0xE1, CHR 0x9A, CHR 0x80],
      [CHR 0xE2, CHR 0x80, CHR 0x80], [CHR 0xE2, CHR 0x80, CHR 0x81], [CHR 0xE2, CHR 0x80, CHR 0x82],
      [CHR 0xE2, CHR 0x80, CHR 0x83], [CHR 0xE2, CHR 0x80, CHR 0x84], [CHR 0xE2, CHR 0x80, CHR 0x85],
      [CHR 0xE2, CHR 0x80, CHR 0x86], [CHR 0xE2, CHR 0x80, CHR 0x87], [CHR 0xE2, CHR 0x80, CHR 0x88],
      [CHR 0xE2, CHR 0x80, CHR 0x89], [CHR 0xE2, CHR 0x80, CHR 0x8A], [CHR 0xE2, CHR 0x80, CHR 0xA8],
      [CHR 0xE2, CHR 0x80, CHR 0xA9], [CHR 0xE2, CHR 0x80, CHR 0xAF], [CHR 0xE2, CHR 0x81, CHR 0x9F],
      [CHR 0xE3, CHR 0x80, CHR 0x80]]"

function strip_all :: "string list \<Rightarrow> string \<Rightarrow> string" where
  "strip_all ws s =
     (case find (\<lambda>w. w \<noteq> [] \<and> prefix w s) ws of
        None \<Rightarrow> s
      | Some w \<Rightarrow> strip_all ws (drop (length w) s))"
  by pat_completeness auto
termination
  by (relation "measure (\<lambda>(ws, s). length s)") (auto simp: find_Some_iff prefix_def)

declare strip_all.simps [simp del]

definition trim_start :: "string \<Rightarrow> string" where
  "trim_start s = strip_all WHITE_SPACE s"

definition trim_end :: "string \<Rightarrow> string" where
  "trim_end s = rev (strip_all (map rev WHITE_SPACE) (rev s))"

definition trim :: "string \<Rightarrow> string" where
  "trim s = trim_end (trim_start s)"

definition ascii_lower :: "char \<Rightarrow> char" where
  "ascii_lower c = (let n = of_char c :: nat in if 65 \<le> n \<and> n \<le> 90 then char_of (n + 32) else c)"

definition to_ascii_lowercase :: "string \<Rightarrow> string" where
  "to_ascii_lowercase s = map ascii_lower s"

lemma length_lowercase [simp]: "length (to_ascii_lowercase s) = length s"
  by (simp add: to_ascii_lowercase_def)

section \<open>Splitting\<close>

definition strip_prefix :: "string \<Rightarrow> string \<Rightarrow> string option" where
  "strip_prefix p s = (if prefix p s then Some (drop (length p) s) else None)"

definition rsplit_once :: "char \<Rightarrow> string \<Rightarrow> (string \<times> string) option" where
  "rsplit_once c s =
     map_option (\<lambda>i. (take (length s - i - 1) s, drop (length s - i) s)) (position (\<lambda>x. x = c) (rev s))"

lemma rsplit_once_None: "rsplit_once c s = None \<longleftrightarrow> c \<notin> set s"
  by (auto simp: rsplit_once_def position_None list_all_iff)

lemma rsplit_once_last:
  assumes "c \<notin> set t"
  shows "rsplit_once c (h @ c # t) = Some (h, t)"
proof -
  have "position (\<lambda>x. x = c) (rev t @ c # rev h) = Some (length t)"
    using assms by (subst position_append) (auto simp: list_all_iff)
  then show ?thesis by (simp add: rsplit_once_def)
qed

lemma rsplit_once_Some:
  assumes "rsplit_once c s = Some (h, t)"
  shows "s = h @ c # t \<and> c \<notin> set t"
proof -
  from assms have "c \<in> set s" using rsplit_once_None [of c s] by fastforce
  then obtain h' t' where s: "s = h' @ c # t'" "c \<notin> set t'" by (auto dest: split_list_last)
  with rsplit_once_last [of c t' h'] assms show ?thesis by simp
qed

section \<open>Decimal numbers\<close>

definition is_digit :: "char \<Rightarrow> bool" where
  "is_digit c = (let n = of_char c :: nat in 48 \<le> n \<and> n \<le> 57)"

definition digit_val :: "char \<Rightarrow> nat" where
  "digit_val c = of_char c - 48"

fun digits_val :: "nat \<Rightarrow> string \<Rightarrow> nat option" where
  "digits_val acc [] = Some acc"
| "digits_val acc (c # cs) = (if is_digit c then digits_val (acc * 10 + digit_val c) cs else None)"

text \<open>Parsing an unsigned 16-bit number: one leading plus sign is accepted, as are leading zeros.\<close>

definition parse_u16 :: "string \<Rightarrow> nat option" where
  "parse_u16 s =
     (let t = (if s \<noteq> [] \<and> hd s = CHR ''+'' then tl s else s) in
      if t = [] then None
      else case digits_val 0 t of
             None \<Rightarrow> None
           | Some n \<Rightarrow> if n \<le> 65535 then Some n else None)"

text \<open>The wider types differ in their bound only.\<close>

definition parse_uint :: "nat \<Rightarrow> string \<Rightarrow> nat option" where
  "parse_uint hi s =
     (let t = (if s \<noteq> [] \<and> hd s = CHR ''+'' then tl s else s) in
      if t = [] then None
      else case digits_val 0 t of
             None \<Rightarrow> None
           | Some n \<Rightarrow> if n \<le> hi then Some n else None)"

lemma parse_u16_uint: "parse_u16 s = parse_uint 65535 s"
  by (simp add: parse_u16_def parse_uint_def)

lemma parse_uint_range: "parse_uint hi s = Some n \<Longrightarrow> n \<le> hi"
  by (auto simp: parse_uint_def Let_def split: if_splits option.splits)

fun show_nat :: "nat \<Rightarrow> string" where
  "show_nat n = (if n < 10 then [char_of (48 + n)] else show_nat (n div 10) @ [char_of (48 + n mod 10)])"

declare show_nat.simps [simp del]

lemma digit_chars [simp]:
  "char_of (48 :: nat) = CHR ''0''" "char_of (49 :: nat) = CHR ''1''" "char_of (50 :: nat) = CHR ''2''"
  "char_of (51 :: nat) = CHR ''3''" "char_of (52 :: nat) = CHR ''4''" "char_of (53 :: nat) = CHR ''5''"
  "char_of (54 :: nat) = CHR ''6''" "char_of (55 :: nat) = CHR ''7''" "char_of (56 :: nat) = CHR ''8''"
  "char_of (57 :: nat) = CHR ''9''"
  by (simp_all add: char_of_def bit_iff_odd)

lemma digit_char: "n < 10 \<Longrightarrow> is_digit (char_of (48 + n)) \<and> digit_val (char_of (48 + n)) = n"
  by (simp add: is_digit_def digit_val_def Let_def)

lemma digits_val_append:
  "digits_val acc (xs @ ys) = (case digits_val acc xs of None \<Rightarrow> None | Some a \<Rightarrow> digits_val a ys)"
  by (induction xs arbitrary: acc) simp_all

lemma digits_val_show: "digits_val 0 (show_nat n) = Some n"
proof (induction n rule: show_nat.induct)
  case (1 n)
  show ?case
  proof (cases "n < 10")
    case True
    then show ?thesis using digit_char [of n] by (simp add: show_nat.simps)
  next
    case False
    then show ?thesis
      using 1 [OF False] digit_char [of "n mod 10"] by (subst show_nat.simps) (simp add: digits_val_append)
  qed
qed

lemma digits_val_all: "digits_val acc xs = Some n \<Longrightarrow> list_all is_digit xs"
  by (induction xs arbitrary: acc) (auto split: if_splits)

lemma show_nat_digits: "list_all is_digit (show_nat n)"
  by (rule digits_val_all [OF digits_val_show])

lemma show_nat_nonempty [simp]: "show_nat n \<noteq> []"
  by (subst show_nat.simps) simp

lemma not_digit [simp]:
  "\<not> is_digit CHR '':''" "\<not> is_digit CHR ''+''" "\<not> is_digit CHR ''/''" "\<not> is_digit CHR ''?''"
  "\<not> is_digit CHR ''#''" "\<not> is_digit CHR ''@''" "\<not> is_digit CHR ''a''" "\<not> is_digit CHR ''m''" "\<not> is_digit CHR '']''"
  by (simp_all add: is_digit_def)

lemma parse_show_u16: "n \<le> 65535 \<Longrightarrow> parse_u16 (show_nat n) = Some n"
proof -
  assume n: "n \<le> 65535"
  have "hd (show_nat n) \<noteq> CHR ''+''"
    using show_nat_digits [of n] not_digit(2) by (cases "show_nat n") auto
  with n show ?thesis by (simp add: parse_u16_def digits_val_show)
qed

lemma show_nat_inj: "show_nat m = show_nat n \<Longrightarrow> m = n"
  by (metis digits_val_show option.inject)

lemma parse_u16_range: "parse_u16 s = Some n \<Longrightarrow> n \<le> 65535"
  by (auto simp: parse_u16_def Let_def split: if_splits option.splits)

end
