(* ===== verification/Utf8.thy ===== *)
theory Utf8
  imports RustStr
begin

text \<open>
  The scalar values of a Rust string. A string is its UTF-8 encoding; the functions here are the
  parts of the standard library that look at whole characters: the iterator over characters, the
  test for a character boundary and the test for control characters.
\<close>

section \<open>One encoded character\<close>

definition byte_val :: "char \<Rightarrow> nat" where
  "byte_val c = of_char c"

definition utf8_cont :: "char \<Rightarrow> bool" where
  "utf8_cont c \<longleftrightarrow> 0x80 \<le> byte_val c \<and> byte_val c < 0xC0"

definition utf8_width :: "char \<Rightarrow> nat" where
  "utf8_width c =
     (let b = byte_val c in
      if b < 0x80 then 1 else if b < 0xC2 then 0 else if b < 0xE0 then 2
      else if b < 0xF0 then 3 else if b < 0xF5 then 4 else 0)"

text \<open>Overlong forms, surrogates and values above 10FFFF are excluded by the second byte.\<close>

definition utf8_second_ok :: "char \<Rightarrow> char \<Rightarrow> bool" where
  "utf8_second_ok c d =
     (let b = byte_val c; e = byte_val d in
      if b = 0xE0 then 0xA0 \<le> e else if b = 0xED then e < 0xA0
      else if b = 0xF0 then 0x90 \<le> e else if b = 0xF4 then e < 0x90 else True)"

fun utf8_char :: "string \<Rightarrow> bool" where
  "utf8_char [] = False"
| "utf8_char (c # cs) \<longleftrightarrow> utf8_width c = Suc (length cs) \<and> list_all utf8_cont cs \<and>
     (cs \<noteq> [] \<longrightarrow> utf8_second_ok c (hd cs))"

function utf8_split :: "string \<Rightarrow> string list option" where
  "utf8_split [] = Some []"
| "utf8_split (c # cs) =
     (let n = utf8_width c - 1 in
      if utf8_char (c # take n cs) then map_option ((#) (c # take n cs)) (utf8_split (drop n cs)) else None)"
  by pat_completeness auto
termination by (relation "measure length") auto

declare utf8_split.simps(2) [simp del]

definition is_utf8 :: "string \<Rightarrow> bool" where
  "is_utf8 s \<longleftrightarrow> utf8_split s \<noteq> None"

definition str_chars :: "string \<Rightarrow> string list" where
  "str_chars s = (case utf8_split s of None \<Rightarrow> [] | Some cs \<Rightarrow> cs)"

definition is_char_boundary :: "string \<Rightarrow> nat \<Rightarrow> bool" where
  "is_char_boundary s i \<longleftrightarrow> i = 0 \<or> i = length s \<or> (i < length s \<and> \<not> utf8_cont (s ! i))"

fun is_control :: "string \<Rightarrow> bool" where
  "is_control [b] \<longleftrightarrow> byte_val b < 0x20 \<or> byte_val b = 0x7F"
| "is_control [a, b] \<longleftrightarrow> byte_val a = 0xC2 \<and> byte_val b < 0xA0"
| "is_control _ \<longleftrightarrow> False"

section \<open>Unique decoding\<close>

lemma utf8_char_nonempty: "utf8_char c \<Longrightarrow> c \<noteq> []"
  by (cases c) auto

lemma utf8_char_head: "utf8_char c \<Longrightarrow> \<not> utf8_cont (hd c)"
  by (cases c) (auto simp: utf8_cont_def utf8_width_def Let_def split: if_splits)

lemma utf8_char_tail: "utf8_char c \<Longrightarrow> 0 < i \<Longrightarrow> i < length c \<Longrightarrow> utf8_cont (c ! i)"
  by (cases c) (auto simp: list_all_length nth_Cons')

lemma utf8_split_char: "utf8_char c \<Longrightarrow> utf8_split (c @ s) = map_option ((#) c) (utf8_split s)"
  by (cases c) (simp_all add: utf8_split.simps(2) Let_def)

lemma utf8_split_concat: "list_all utf8_char cs \<Longrightarrow> utf8_split (concat cs) = Some cs"
  by (induction cs) (simp_all add: utf8_split_char)

lemma utf8_split_Some: "utf8_split s = Some cs \<Longrightarrow> list_all utf8_char cs \<and> concat cs = s"
  by (induction s arbitrary: cs rule: utf8_split.induct)
    (auto simp: utf8_split.simps(2) Let_def split: if_splits)

lemma is_utf8_iff: "is_utf8 s \<longleftrightarrow> (\<exists>cs. list_all utf8_char cs \<and> s = concat cs)"
  by (auto simp: is_utf8_def utf8_split_concat dest: utf8_split_Some)

lemma is_utf8E:
  assumes "is_utf8 s"
  obtains cs where "list_all utf8_char cs" and "s = concat cs"
  using assms by (auto simp: is_utf8_iff)

lemma is_utf8_concat [intro]: "list_all utf8_char cs \<Longrightarrow> is_utf8 (concat cs)"
  by (auto simp: is_utf8_iff)

lemma str_chars_concat [simp]: "list_all utf8_char cs \<Longrightarrow> str_chars (concat cs) = cs"
  by (simp add: str_chars_def utf8_split_concat)

lemma concat_str_chars: "is_utf8 s \<Longrightarrow> concat (str_chars s) = s"
  by (auto elim!: is_utf8E)

lemma str_chars_ok: "list_all utf8_char (str_chars s)"
  by (auto simp: str_chars_def dest: utf8_split_Some split: option.splits)

lemma str_chars_subset: "list_all utf8_char (filter P (str_chars s))" "list_all utf8_char (take n (str_chars s))"
  using str_chars_ok [of s] by (auto simp: list_all_iff dest: in_set_takeD)

lemma is_utf8_append: "is_utf8 s \<Longrightarrow> is_utf8 t \<Longrightarrow> is_utf8 (s @ t)"
  by (auto simp: is_utf8_iff) (metis concat_append list_all_append)

section \<open>Cutting at a boundary\<close>

lemma boundary_cut:
  assumes "list_all utf8_char cs" and "is_char_boundary (concat cs) i" and "i \<le> length (concat cs)"
  shows "is_utf8 (take i (concat cs)) \<and> is_utf8 (drop i (concat cs))"
  using assms
proof (induction cs arbitrary: i)
  case Nil
  then show ?case by (simp add: is_utf8_def)
next
  case (Cons c cs)
  then have c: "utf8_char c" and cs: "list_all utf8_char cs" by auto
  consider "i = 0" | "0 < i" "i < length c" | "length c \<le> i" by linarith
  then show ?case
  proof cases
    case 1
    have "is_utf8 (concat (c # cs))" by (rule is_utf8_concat) (use Cons.prems in simp)
    with 1 show ?thesis by (simp add: is_utf8_def)
  next
    case 2
    with utf8_char_tail [OF c] Cons.prems show ?thesis by (auto simp: is_char_boundary_def nth_append)
  next
    case 3
    then have "is_char_boundary (concat cs) (i - length c)"
      using Cons.prems(2) by (auto simp: is_char_boundary_def nth_append)
    with Cons.IH [OF cs this] Cons.prems 3 have "is_utf8 (take (i - length c) (concat cs))" "is_utf8 (drop (i - length c) (concat cs))"
      by auto
    with 3 c show ?thesis by (auto simp: is_utf8_def utf8_split_char)
  qed
qed

lemma is_utf8_cut: "is_utf8 s \<Longrightarrow> is_char_boundary s i \<Longrightarrow> i \<le> length s \<Longrightarrow> is_utf8 (take i s) \<and> is_utf8 (drop i s)"
  by (metis boundary_cut is_utf8E)

lemma is_utf8_drop_char: "utf8_char c \<Longrightarrow> is_utf8 (c @ s) \<longleftrightarrow> is_utf8 s"
  by (simp add: is_utf8_def utf8_split_char)

lemma is_utf8_butlast_char:
  assumes "utf8_char c" and "is_utf8 (s @ c)"
  shows "is_utf8 s"
proof -
  have "is_char_boundary (s @ c) (length s)"
    using utf8_char_head [OF assms(1)] utf8_char_nonempty [OF assms(1)]
    by (cases c) (auto simp: is_char_boundary_def nth_append)
  with is_utf8_cut [OF assms(2), of "length s"] show ?thesis by auto
qed

section \<open>Trimming keeps the encoding\<close>

lemma white_space_chars: "list_all utf8_char WHITE_SPACE"
  by (simp add: WHITE_SPACE_def utf8_width_def byte_val_def utf8_cont_def utf8_second_ok_def)

lemma strip_front_utf8: "list_all utf8_char ws \<Longrightarrow> is_utf8 s \<Longrightarrow> is_utf8 (strip_all ws s)"
proof (induction ws s rule: strip_all.induct)
  case (1 ws s)
  show ?case
  proof (cases "find (\<lambda>w. w \<noteq> [] \<and> prefix w s) ws")
    case (Some w)
    then have "w \<in> set ws" "prefix w s" by (auto simp: find_Some_iff)
    with "1.prems" have "utf8_char w" "is_utf8 (drop (length w) s)"
      by (auto simp: list_all_iff prefix_def is_utf8_drop_char)
    with 1 Some show ?thesis by (subst strip_all.simps) simp
  qed (use 1 in \<open>simp add: strip_all.simps [of ws s]\<close>)
qed

lemma strip_back_utf8: "list_all utf8_char ws \<Longrightarrow> is_utf8 (rev s) \<Longrightarrow> is_utf8 (rev (strip_all (map rev ws) s))"
proof (induction "map rev ws" s rule: strip_all.induct)
  case (1 s)
  show ?case
  proof (cases "find (\<lambda>w. w \<noteq> [] \<and> prefix w s) (map rev ws)")
    case (Some w)
    then have "w \<in> set (map rev ws)" "prefix w s" by (auto simp: find_Some_iff)
    then obtain t where "utf8_char (rev w)" "s = w @ t" using "1.prems"(1) by (auto simp: list_all_iff prefix_def)
    with "1.prems"(2) have "is_utf8 (rev (drop (length w) s))" by (auto intro: is_utf8_butlast_char)
    with 1 Some show ?thesis by (subst strip_all.simps) simp
  qed (use 1 in \<open>simp add: strip_all.simps [of "map rev ws" s]\<close>)
qed

lemma trim_utf8: "is_utf8 s \<Longrightarrow> is_utf8 (trim s)"
  by (simp add: trim_def trim_end_def trim_start_def strip_back_utf8 strip_front_utf8 white_space_chars)

text \<open>What trimming removes is white space; the rest is a contiguous part of the string.\<close>

lemma strip_front_suffix: "suffix (strip_all ws s) s"
proof (induction ws s rule: strip_all.induct)
  case (1 ws s)
  then show ?case
    by (subst strip_all.simps) (auto split: option.splits simp: suffix_drop intro: suffix_order.trans)
qed

lemma trim_sublist: "sublist (trim s) s"
proof -
  have "prefix (trim s) (trim_start s)"
    using strip_front_suffix [of "map rev WHITE_SPACE" "rev (trim_start s)"]
    by (simp add: trim_def trim_end_def suffix_to_prefix)
  moreover have "suffix (trim_start s) s" by (simp add: trim_start_def strip_front_suffix)
  ultimately show ?thesis by (meson prefix_imp_sublist sublist_order.order.trans suffix_imp_sublist)
qed

lemma trim_length: "length (trim s) \<le> length s"
  using trim_sublist sublist_length_le by blast

section \<open>Characters of a part\<close>

lemma is_utf8_append_iff: "is_utf8 s \<Longrightarrow> is_utf8 (s @ t) \<longleftrightarrow> is_utf8 t"
proof (elim is_utf8E)
  fix cs
  assume "list_all utf8_char cs" "s = concat cs"
  then show "is_utf8 (s @ t) \<longleftrightarrow> is_utf8 t"
    by (induction cs arbitrary: s) (auto simp: is_utf8_drop_char)
qed

lemma str_chars_append: "is_utf8 s \<Longrightarrow> is_utf8 t \<Longrightarrow> str_chars (s @ t) = str_chars s @ str_chars t"
  by (elim is_utf8E) (metis concat_append list_all_append str_chars_concat)

lemma is_utf8_before:
  assumes "is_utf8 (a @ t @ b)" and "is_utf8 t" and "t \<noteq> []"
  shows "is_utf8 a"
proof -
  from assms(2) obtain cs where cs: "list_all utf8_char cs" "t = concat cs" by (rule is_utf8E)
  with assms(3) obtain c ds where "cs = c # ds" by (cases cs) auto
  with cs have "\<not> utf8_cont (hd t)" using utf8_char_head [of c] utf8_char_nonempty [of c] by (auto simp: hd_append)
  with assms(3) have "is_char_boundary (a @ t @ b) (length a)" by (auto simp: is_char_boundary_def nth_append hd_conv_nth)
  with is_utf8_cut [OF assms(1), of "length a"] show ?thesis by simp
qed

lemma part_chars:
  assumes "is_utf8 (a @ t @ b)" and "is_utf8 t"
  shows "set (str_chars t) \<subseteq> set (str_chars (a @ t @ b))"
proof (cases "t = []")
  case True
  then show ?thesis by (simp add: str_chars_def)
next
  case False
  with is_utf8_before [OF assms] assms have "is_utf8 a" "is_utf8 b" by (simp_all add: is_utf8_append_iff)
  with assms(2) show ?thesis by (auto simp: str_chars_append is_utf8_append_iff)
qed

lemma trim_chars: "is_utf8 s \<Longrightarrow> set (str_chars (trim s)) \<subseteq> set (str_chars s)"
  using trim_sublist [of s] part_chars trim_utf8 by (auto simp: sublist_def) (metis subsetD)

end
