(* ===== verification/Interfaces.thy ===== *)
theory Interfaces
  imports Prelude
begin

text \<open>
  The contracts that several components share, as locales. A component that provides one of
  them interprets it on its own definitions, in its own theory; the lemmas proved here are then
  available for that component under the qualifier of the interpretation.
\<close>

section \<open>A closed enumeration with a wire spelling\<close>

text \<open>
  An encoder that every value has and a decoder that rejects what it does not know: the packet
  kinds and codecs of the media header, the operating modes, the transport tiers and the dial
  policies of the configuration file.
\<close>

locale wire_enum =
  fixes enc :: "'a \<Rightarrow> 'w" and dec :: "'w \<Rightarrow> 'a option"
  assumes dec_enc: "dec (enc x) = Some x"
    and enc_of_dec: "dec w = Some x \<Longrightarrow> enc x = w"
begin

lemma dec_eq_Some: "dec w = Some x \<longleftrightarrow> w = enc x"
  using dec_enc enc_of_dec by blast

lemma enc_eq_iff: "enc x = enc y \<longleftrightarrow> x = y"
  by (metis dec_enc option.inject)

lemma dec_eq_None: "dec w = None \<longleftrightarrow> w \<notin> range enc"
  by (metis dec_enc enc_of_dec not_Some_eq option.distinct(1) rangeE rangeI)

lemma dec_default: "w \<notin> range enc \<Longrightarrow> (case dec w of Some x \<Rightarrow> x | None \<Rightarrow> d) = d"
  by (simp add: dec_eq_None [symmetric])

end

section \<open>A state machine with an invariant\<close>

locale state_machine =
  fixes step :: "'e \<Rightarrow> 's \<Rightarrow> 's" and inv :: "'s \<Rightarrow> bool"
  assumes step_inv: "inv s \<Longrightarrow> inv (step e s)"
begin

lemma run_inv: "inv s \<Longrightarrow> inv (fold step es s)"
  by (induction es arbitrary: s) (auto intro: step_inv)

lemma run_induct:
  assumes "P s" and "inv s" and "\<And>e t. inv t \<Longrightarrow> P t \<Longrightarrow> P (step e t)"
  shows "P (fold step es s)"
  using assms(1,2)
proof (induction es arbitrary: s)
  case Nil
  then show ?case by simp
next
  case (Cons e es)
  then show ?case using assms(3) step_inv by simp
qed

end

text \<open>A machine with a level that no step lowers.\<close>

locale monotone_machine = state_machine step inv
  for step :: "'e \<Rightarrow> 's \<Rightarrow> 's" and inv :: "'s \<Rightarrow> bool" +
  fixes level :: "'s \<Rightarrow> 'l::preorder"
  assumes step_level: "inv s \<Longrightarrow> level s \<le> level (step e s)"
begin

lemma run_level: "inv s \<Longrightarrow> level s \<le> level (fold step es s)"
proof (induction es arbitrary: s)
  case Nil
  then show ?case by simp
next
  case (Cons e es)
  have "level s \<le> level (step e s)" by (rule step_level [OF Cons.prems])
  also have "\<dots> \<le> level (fold step es (step e s))"
    by (rule Cons.IH) (rule step_inv [OF Cons.prems])
  finally show ?case by simp
qed

end

section \<open>A bounded queue that drops its oldest element\<close>

locale drop_oldest =
  fixes cap :: nat and push :: "'a list \<Rightarrow> 'a \<Rightarrow> 'a list"
  assumes cap_pos: "0 < cap"
    and push_law: "length q \<le> cap \<Longrightarrow>
      push q x = (if length q = cap then tl q else q) @ [x]"
begin

lemma push_bounded: "length q \<le> cap \<Longrightarrow> length (push q x) \<le> cap"
  using cap_pos by (auto simp: push_law)

lemma push_newest: "length q \<le> cap \<Longrightarrow> last (push q x) = x"
  by (simp add: push_law)

lemma push_member: "length q \<le> cap \<Longrightarrow> x \<in> set (push q x)"
  by (simp add: push_law)

lemma push_subset: "length q \<le> cap \<Longrightarrow> set (push q x) \<subseteq> insert x (set q)"
  by (cases q) (auto simp: push_law)

lemma push_drop: "length q \<le> cap \<Longrightarrow> push q x = drop (length q + 1 - cap) (q @ [x])"
  using cap_pos by (auto simp: push_law drop_Suc Suc_diff_le)

lemma push_all: "length q \<le> cap \<Longrightarrow>
    foldl push q xs = drop (length q + length xs - cap) (q @ xs)"
proof (induction xs rule: rev_induct)
  case Nil
  then show ?case by simp
next
  case (snoc x xs)
  let ?k = "length q + length xs - cap"
  let ?r = "drop ?k (q @ xs)"
  have r: "foldl push q xs = ?r" using snoc by simp
  have len: "length ?r \<le> cap" and sum: "length ?r + 1 - cap + ?k = length q + length (xs @ [x]) - cap"
    by auto
  have "push ?r x = drop (length ?r + 1 - cap) (?r @ [x])"
    by (rule push_drop [OF len])
  also have "?r @ [x] = drop ?k (q @ xs @ [x])" by simp
  also have "drop (length ?r + 1 - cap) (drop ?k (q @ xs @ [x])) =
      drop (length q + length (xs @ [x]) - cap) (q @ xs @ [x])"
    by (simp only: drop_drop sum)
  finally show ?case by (simp add: r)
qed

end

sublocale drop_oldest \<subseteq> bounded: state_machine "\<lambda>x q. push q x" "\<lambda>q. length q \<le> cap"
  by unfold_locales (rule push_bounded)

section \<open>A bounded queue that rejects its newest element\<close>

text \<open>
  The queue is filled in place: \<open>put f\<close> lets \<open>f\<close> rewrite whatever the free slot held and say
  whether the entry counts; \<open>get d\<close> lets \<open>d\<close> read the oldest entry.
\<close>

locale reject_newest =
  fixes holds :: "'q \<Rightarrow> 'a list \<Rightarrow> bool" and cap :: nat
    and put :: "('a \<Rightarrow> bool \<times> 'a) \<Rightarrow> 'q \<Rightarrow> bool \<times> 'q" and get :: "('a \<Rightarrow> 'b \<times> 'a) \<Rightarrow> 'q \<Rightarrow> 'b option \<times> 'q"
  assumes holds_bound: "holds q xs \<Longrightarrow> length xs \<le> cap"
    and put_accepted: "holds q xs \<Longrightarrow> put f q = (True, q') \<Longrightarrow>
      length xs < cap \<and> (\<exists>x. fst (f x) \<and> holds q' (xs @ [snd (f x)]))"
    and put_refused: "holds q xs \<Longrightarrow> put f q = (False, q') \<Longrightarrow> holds q' xs \<and> (length xs = cap \<or> (\<exists>x. \<not> fst (f x)))"
    and get_empty: "holds q [] \<Longrightarrow> get d q = (None, q)"
    and get_oldest: "holds q (x # xs) \<Longrightarrow> \<exists>q'. get d q = (Some (fst (d x)), q') \<and> holds q' xs"
begin

lemma get_cases:
  assumes "holds q xs"
  obtains (empty) "xs = []" and "get d q = (None, q)"
    | (oldest) x ys q' where "xs = x # ys" and "get d q = (Some (fst (d x)), q')" and "holds q' ys"
proof (cases xs)
  case Nil
  then show ?thesis using assms get_empty empty by blast
next
  case (Cons x ys)
  then obtain q' where "get d q = (Some (fst (d x)), q')" "holds q' ys" using assms get_oldest by blast
  with Cons show ?thesis by (rule oldest)
qed

lemma put_accepts: "holds q xs \<Longrightarrow> length xs < cap \<Longrightarrow> (\<And>x. fst (f x)) \<Longrightarrow> fst (put f q)"
  using put_refused [of q xs f] by (metis (full_types) nat_neq_iff prod.collapse)

lemma put_holds:
  assumes "holds q xs" and "put f q = (ok, q')" and "\<And>x. snd (f x) = e"
  shows "holds q' (xs @ (if ok then [e] else []))"
  using assms put_accepted put_refused by (cases ok) fastforce+

end

end
