(* ===== verification/Identity.thy ===== *)
theory Identity
  imports Utf8 Interfaces
begin

text \<open>
  The machine's identity and the store of paired peers (core/audiohub-net/src/identity.rs, and
  \<open>adopt_name\<close> of pairing.rs): the key and its fingerprint, the rule that chooses the machine's name,
  the operations on identity.json, and the peer store with its merging insertion. SHA-256, Ed25519
  and base64 are libraries the code calls: they are the record \<open>id_prims\<close>. Reading and writing a file
  is the work of the standard library; what a read gives is an argument, what a write stores is part
  of the result.
\<close>

section \<open>Keys and fingerprints\<close>

text \<open>
  \<open>ed_verify\<close> is the strict verification of a 64-byte signature under a 32-byte key, false where the
  bytes are no key.
\<close>

record id_prims =
  ip_sha256 :: "bytes \<Rightarrow> bytes"
  ip_ed_pub :: "bytes \<Rightarrow> bytes"
  ip_ed_sign :: "bytes \<Rightarrow> bytes \<Rightarrow> bytes"
  ip_ed_verify :: "bytes \<Rightarrow> bytes \<Rightarrow> bytes \<Rightarrow> bool"
  ip_b64_enc :: "bytes \<Rightarrow> string"
  ip_b64_dec :: "string \<Rightarrow> bytes option"

definition id_lawful :: "'a id_prims_scheme \<Rightarrow> bool" where
  "id_lawful p \<longleftrightarrow>
     (\<forall>m. length (ip_sha256 p m) = 32) \<and>
     (\<forall>k. length (ip_ed_pub p k) = 32) \<and>
     (\<forall>k m. length (ip_ed_sign p k m) = 64) \<and>
     (\<forall>k m. ip_ed_verify p (ip_ed_pub p k) m (ip_ed_sign p k m)) \<and>
     (\<forall>b. ip_b64_dec p (ip_b64_enc p b) = Some b) \<and>
     (\<forall>b. b \<noteq> [] \<longrightarrow> ip_b64_enc p b \<noteq> [])"

lemma id_lawfulD:
  assumes "id_lawful p"
  shows "length (ip_sha256 p m) = 32" and "length (ip_ed_pub p k) = 32" and "length (ip_ed_sign p k m) = 64"
    and "ip_ed_verify p (ip_ed_pub p k) m (ip_ed_sign p k m)" and "ip_b64_dec p (ip_b64_enc p b) = Some b"
    and "b \<noteq> [] \<Longrightarrow> ip_b64_enc p b \<noteq> []"
  using assms by (simp_all add: id_lawful_def)

definition hex_digit :: "nat \<Rightarrow> char" where
  "hex_digit n = (if n < 10 then char_of (48 + n) else char_of (87 + n))"

definition hex_byte :: "u8 \<Rightarrow> string" where
  "hex_byte b = [hex_digit (unat b div 16), hex_digit (unat b mod 16)]"

definition fingerprint_of :: "'a id_prims_scheme \<Rightarrow> bytes \<Rightarrow> string" where
  "fingerprint_of p pk = concat (map hex_byte (take 8 (ip_sha256 p pk)))"

definition verify_sig :: "'a id_prims_scheme \<Rightarrow> string \<Rightarrow> bytes \<Rightarrow> bytes \<Rightarrow> bool" where
  "verify_sig p public_key_b64 msg sg =
     (case ip_b64_dec p public_key_b64 of
        None \<Rightarrow> False
      | Some pk \<Rightarrow> length pk = 32 \<and> length sg = 64 \<and> ip_ed_verify p pk msg sg)"

record local_identity =
  li_name :: string
  li_fingerprint :: string
  li_signing_key :: bytes

definition id_from_key :: "'a id_prims_scheme \<Rightarrow> string \<Rightarrow> bytes \<Rightarrow> local_identity" where
  "id_from_key p name k = \<lparr>li_name = name, li_fingerprint = fingerprint_of p (ip_ed_pub p k), li_signing_key = k\<rparr>"

definition id_from_parts :: "'a id_prims_scheme \<Rightarrow> string \<Rightarrow> string \<Rightarrow> local_identity option" where
  "id_from_parts p name secret_b64 =
     (case ip_b64_dec p secret_b64 of
        None \<Rightarrow> None
      | Some seed \<Rightarrow> if length seed = 32 then Some (id_from_key p name seed) else None)"

definition id_public_key_bytes :: "'a id_prims_scheme \<Rightarrow> local_identity \<Rightarrow> bytes" where
  "id_public_key_bytes p i = ip_ed_pub p (li_signing_key i)"

definition id_public_key_b64 :: "'a id_prims_scheme \<Rightarrow> local_identity \<Rightarrow> string" where
  "id_public_key_b64 p i = ip_b64_enc p (id_public_key_bytes p i)"

definition id_sign :: "'a id_prims_scheme \<Rightarrow> local_identity \<Rightarrow> bytes \<Rightarrow> bytes" where
  "id_sign p i msg = ip_ed_sign p (li_signing_key i) msg"

definition random_pin :: "bytes \<Rightarrow> string" where
  "random_pin b =
     (let n = unat (of_le b :: u32) mod 1000000; s = show_nat n in replicate (6 - length s) CHR ''0'' @ s)"

section \<open>Names\<close>

definition NAME_CHARS :: nat where
  "NAME_CHARS = 48"

definition sanitize_name :: "string \<Rightarrow> string option" where
  "sanitize_name raw =
     (let cleaned = concat (filter (\<lambda>c. \<not> is_control c) (str_chars raw)); trimmed = trim cleaned in
      if trimmed = [] then None else Some (concat (take NAME_CHARS (str_chars trimmed))))"

definition resolve_name :: "string \<Rightarrow> string option \<Rightarrow> string \<Rightarrow> string \<Rightarrow> string" where
  "resolve_name env stored hostname file_name =
     (case filter (\<lambda>c. c \<noteq> None)
         [sanitize_name env, Option.bind stored sanitize_name, sanitize_name hostname, sanitize_name file_name] of
        Some n # _ \<Rightarrow> n
      | _ \<Rightarrow> [])"

datatype name_source = SrcEnv | SrcCustom | SrcHostname

fun name_source_as_str :: "name_source \<Rightarrow> string" where
  "name_source_as_str SrcEnv = ''env''"
| "name_source_as_str SrcCustom = ''custom''"
| "name_source_as_str SrcHostname = ''hostname''"

section \<open>The identity file\<close>

record identity_file =
  if_version :: u32
  if_name :: string
  if_secret_b64 :: string
  if_name_override :: "string option"

text \<open>What securing, reading and parsing identity.json gives.\<close>

datatype file_state = FileMissing | FileBroken | FileParsed identity_file

datatype identity_error = UnreadableIdentity | UnsupportedVersion u32 | BadSecret | NoUsableIdentity

definition read_identity_file :: "file_state \<Rightarrow> identity_file option" where
  "read_identity_file st =
     (case st of FileParsed f \<Rightarrow> (if if_version f = 1 then Some f else None) | _ \<Rightarrow> None)"

text \<open>\<open>seed\<close> is the fresh key; the second component is the file that is written, if one is.\<close>

definition load_or_create :: "'a id_prims_scheme \<Rightarrow> string \<Rightarrow> string \<Rightarrow> bytes \<Rightarrow> file_state \<Rightarrow>
    (identity_error + local_identity) \<times> identity_file option" where
  "load_or_create p env hostname seed st =
     (case st of
        FileBroken \<Rightarrow> (Inl UnreadableIdentity, None)
      | FileParsed f \<Rightarrow>
          if if_version f \<noteq> 1 then (Inl (UnsupportedVersion (if_version f)), None)
          else
            (case id_from_parts p (resolve_name env (if_name_override f) hostname (if_name f)) (if_secret_b64 f) of
               None \<Rightarrow> (Inl BadSecret, None)
             | Some i \<Rightarrow> (Inr i, None))
      | FileMissing \<Rightarrow>
          let name = resolve_name env None hostname []; name = (if name = [] then ''audiohub'' else name) in
          (Inr (id_from_key p name seed),
           Some \<lparr>if_version = 1, if_name = name, if_secret_b64 = ip_b64_enc p seed, if_name_override = None\<rparr>))"

definition name_source_at :: "string \<Rightarrow> file_state \<Rightarrow> name_source" where
  "name_source_at env st =
     (if trim env \<noteq> [] then SrcEnv
      else case Option.bind (Option.bind (read_identity_file st) if_name_override) sanitize_name of
             Some _ \<Rightarrow> SrcCustom
           | None \<Rightarrow> SrcHostname)"

definition name_override_at :: "file_state \<Rightarrow> string option" where
  "name_override_at st = Option.bind (Option.bind (read_identity_file st) if_name_override) sanitize_name"

text \<open>The file after the new name is written, and the name that is then in force.\<close>

definition set_name_file :: "string option \<Rightarrow> identity_file \<Rightarrow> identity_file" where
  "set_name_file name f = f\<lparr>if_name_override := Option.bind name sanitize_name\<rparr>"

definition set_name_at :: "'a id_prims_scheme \<Rightarrow> string \<Rightarrow> string \<Rightarrow> bytes \<Rightarrow> file_state \<Rightarrow> string option \<Rightarrow>
    (identity_error + string) \<times> identity_file option" where
  "set_name_at p env hostname seed st name =
     (case read_identity_file st of
        None \<Rightarrow> (Inl NoUsableIdentity, None)
      | Some f \<Rightarrow>
          let f = set_name_file name f in
          (case fst (load_or_create p env hostname seed (FileParsed f)) of
             Inl e \<Rightarrow> (Inl e, Some f)
           | Inr i \<Rightarrow> (Inr (li_name i), Some f)))"

definition reset_key_at :: "'a id_prims_scheme \<Rightarrow> string \<Rightarrow> bytes \<Rightarrow> file_state \<Rightarrow> string \<times> identity_file" where
  "reset_key_at p hostname seed st =
     (let previous = read_identity_file st;
          f = \<lparr>if_version = 1, if_name = (case previous of Some g \<Rightarrow> if_name g | None \<Rightarrow> hostname),
               if_secret_b64 = ip_b64_enc p seed, if_name_override = Option.bind previous if_name_override\<rparr>
      in (fingerprint_of p (ip_ed_pub p seed), f))"

section \<open>The peer store\<close>

record paired_peer =
  pp_name :: string
  pp_fingerprint :: string
  pp_public_key_b64 :: string
  pp_last_addr :: "string option"
  pp_port :: u16
  pp_added_unix :: u64
  pp_alias :: "string option"

type_synonym peer_store = "paired_peer list"

definition ps_find :: "string \<Rightarrow> peer_store \<Rightarrow> paired_peer option" where
  "ps_find fp ps = find (\<lambda>q. pp_fingerprint q = fp) ps"

text \<open>The first record with the fingerprint is changed in place.\<close>

fun ps_modify :: "string \<Rightarrow> (paired_peer \<Rightarrow> paired_peer) \<Rightarrow> peer_store \<Rightarrow> peer_store" where
  "ps_modify fp f [] = []"
| "ps_modify fp f (q # ps) = (if pp_fingerprint q = fp then f q # ps else q # ps_modify fp f ps)"

definition merge_peer :: "paired_peer \<Rightarrow> paired_peer \<Rightarrow> paired_peer" where
  "merge_peer peer existing =
     (let peer = (if pp_alias peer = None then peer\<lparr>pp_alias := pp_alias existing\<rparr> else peer);
          peer = (if pp_added_unix peer = 0 \<or> pp_added_unix existing \<noteq> 0
                  then peer\<lparr>pp_added_unix := pp_added_unix existing\<rparr> else peer)
      in if trim (pp_name peer) = [] then peer\<lparr>pp_name := pp_name existing\<rparr> else peer)"

definition ps_upsert :: "paired_peer \<Rightarrow> peer_store \<Rightarrow> peer_store" where
  "ps_upsert peer ps =
     (case ps_find (pp_fingerprint peer) ps of
        Some _ \<Rightarrow> ps_modify (pp_fingerprint peer) (merge_peer peer) ps
      | None \<Rightarrow> ps @ [peer])"

definition ps_set_alias :: "string \<Rightarrow> string option \<Rightarrow> peer_store \<Rightarrow> bool \<times> peer_store" where
  "ps_set_alias fp al ps =
     (case ps_find fp ps of
        Some _ \<Rightarrow>
          (True, ps_modify fp (\<lambda>q. q\<lparr>pp_alias := (case al of Some a \<Rightarrow> if trim a = [] then None else Some a | None \<Rightarrow> None)\<rparr>) ps)
      | None \<Rightarrow> (False, ps))"

definition ps_remove :: "string \<Rightarrow> peer_store \<Rightarrow> bool \<times> peer_store" where
  "ps_remove fp ps = (let rest = filter (\<lambda>q. pp_fingerprint q \<noteq> fp) ps in (length rest \<noteq> length ps, rest))"

text \<open>A store that is loaded, changed and saved; None where loading fails.\<close>

definition persist_peer :: "paired_peer \<Rightarrow> peer_store option \<Rightarrow> peer_store option" where
  "persist_peer peer file = map_option (ps_upsert peer) file"

definition forget_record :: "string \<Rightarrow> peer_store option \<Rightarrow> peer_store option" where
  "forget_record fp file =
     map_option (\<lambda>ps. case ps_remove fp ps of (removed, rest) \<Rightarrow> if removed then rest else ps) file"

section \<open>A peer's own name\<close>

text \<open>The longest cut of at most \<open>n\<close> bytes that does not split a character.\<close>

fun floor_boundary :: "string \<Rightarrow> nat \<Rightarrow> nat" where
  "floor_boundary s 0 = 0"
| "floor_boundary s (Suc n) = (if is_char_boundary s (Suc n) then Suc n else floor_boundary s n)"

definition ADOPT_BYTES :: nat where
  "ADOPT_BYTES = 96"

definition adopt_name :: "paired_peer \<Rightarrow> string \<Rightarrow> paired_peer" where
  "adopt_name peer name =
     (let name = trim name in
      if name = [] then peer
      else peer\<lparr>pp_name := take (floor_boundary name (min (length name) ADOPT_BYTES)) name\<rparr>)"

section \<open>Names are well formed\<close>

lemma floor_boundary_le: "floor_boundary s n \<le> n"
  by (induction n) auto

lemma floor_boundary_ok: "is_char_boundary s (floor_boundary s n)"
  by (induction n) (auto simp: is_char_boundary_def)

lemma floor_boundary_greatest: "is_char_boundary s i \<Longrightarrow> i \<le> n \<Longrightarrow> i \<le> floor_boundary s n"
  by (induction n) (auto simp: le_Suc_eq)

lemma utf8_char_length: "utf8_char c \<Longrightarrow> length c \<le> 4"
  by (cases c) (auto simp: utf8_width_def Let_def split: if_splits)

lemma is_utf8_head:
  assumes "is_utf8 s" and "s \<noteq> []"
  obtains c t where "s = c @ t" and "utf8_char c" and "is_utf8 t" and "\<not> utf8_cont (hd s)"
proof -
  from assms(1) obtain cs where cs: "list_all utf8_char cs" "s = concat cs" by (rule is_utf8E)
  with assms(2) obtain c ds where c: "cs = c # ds" by (cases cs) auto
  show thesis
    by (rule that [of c "concat ds"]) (use cs c utf8_char_head [of c] utf8_char_nonempty [of c] in auto)
qed

lemma first_boundary:
  assumes "is_utf8 s" and "s \<noteq> []"
  obtains i where "is_char_boundary s i" and "0 < i" and "i \<le> 4" and "i \<le> length s"
proof -
  obtain c t where s: "s = c @ t" "utf8_char c" "is_utf8 t" by (rule is_utf8_head [OF assms])
  have "is_char_boundary s (length c)"
  proof (cases "t = []")
    case False
    then have "\<not> utf8_cont (hd t)" using is_utf8_head [OF s(3)] by blast
    with False show ?thesis by (simp add: s(1) is_char_boundary_def nth_append hd_conv_nth)
  qed (simp add: s(1) is_char_boundary_def)
  with that s utf8_char_length utf8_char_nonempty [OF s(2)] show thesis by auto
qed

lemma sanitize_chars:
  assumes "is_utf8 raw" and "sanitize_name raw = Some n"
  shows "is_utf8 n" and "n \<noteq> []" and "length (str_chars n) \<le> NAME_CHARS" and "\<forall>c \<in> set (str_chars n). \<not> is_control c"
proof -
  define cleaned where "cleaned = concat (filter (\<lambda>c. \<not> is_control c) (str_chars raw))"
  have cl: "is_utf8 cleaned" "\<forall>c \<in> set (str_chars cleaned). \<not> is_control c"
    using str_chars_subset(1) [of "\<lambda>c. \<not> is_control c" raw] by (auto simp: cleaned_def)
  have n: "n = concat (take NAME_CHARS (str_chars (trim cleaned)))" "trim cleaned \<noteq> []"
    using assms(2) by (auto simp: sanitize_name_def cleaned_def Let_def split: if_splits)
  note cs = str_chars_subset(2) [of NAME_CHARS "trim cleaned"]
  show "is_utf8 n" "length (str_chars n) \<le> NAME_CHARS" using cs by (auto simp: n)
  show "\<forall>c \<in> set (str_chars n). \<not> is_control c"
    using cs trim_chars [OF cl(1)] cl(2) by (auto simp: n dest: in_set_takeD)
  obtain c t where "trim cleaned = c @ t" "utf8_char c" "is_utf8 t"
    by (rule is_utf8_head [OF trim_utf8 [OF cl(1)] n(2)])
  then have "str_chars (trim cleaned) = c # str_chars t" by (auto elim!: is_utf8E simp: str_chars_def utf8_split_char utf8_split_concat)
  with \<open>utf8_char c\<close> show "n \<noteq> []" by (simp add: n NAME_CHARS_def utf8_char_nonempty)
qed

lemma adopt_name_cases:
  assumes "is_utf8 name" and "trim name \<noteq> []"
  obtains m where "adopt_name q name = q\<lparr>pp_name := m\<rparr>" and "is_utf8 m" and "m \<noteq> []" and "length m \<le> ADOPT_BYTES"
    and "prefix m (trim name)" and "length (trim name) \<le> ADOPT_BYTES \<longrightarrow> m = trim name"
proof -
  let ?t = "trim name" and ?m = "take (floor_boundary (trim name) (min (length (trim name)) ADOPT_BYTES)) (trim name)"
  let ?k = "floor_boundary ?t (min (length ?t) ADOPT_BYTES)"
  have t: "is_utf8 ?t" using assms(1) by (rule trim_utf8)
  have k: "?k \<le> length ?t" "?k \<le> ADOPT_BYTES" using floor_boundary_le [of ?t "min (length ?t) ADOPT_BYTES"] by auto
  obtain i where "is_char_boundary ?t i" "0 < i" "i \<le> 4" "i \<le> length ?t" by (rule first_boundary [OF t assms(2)])
  then have "0 < ?k" using floor_boundary_greatest [of ?t i "min (length ?t) ADOPT_BYTES"] by (auto simp: ADOPT_BYTES_def)
  moreover have "?k = length ?t" if "length ?t \<le> ADOPT_BYTES"
    using floor_boundary_greatest [of ?t "length ?t" "min (length ?t) ADOPT_BYTES"] k(1) that by (simp add: is_char_boundary_def)
  ultimately show thesis using is_utf8_cut [OF t floor_boundary_ok k(1)] k assms(2)
    by (intro that [of ?m]) (auto simp: adopt_name_def Let_def take_is_prefix)
qed



section \<open>The name in force and the key\<close>

lemma trim_Nil [simp]: "trim [] = []"
  using trim_length [of "[]"] by simp

lemma sanitize_Nil [simp]: "sanitize_name [] = None"
  by (simp add: sanitize_name_def str_chars_def)

lemma resolve_name_cases:
  "resolve_name env stored hostname file_name =
     (case sanitize_name env of Some n \<Rightarrow> n
      | None \<Rightarrow> (case Option.bind stored sanitize_name of Some n \<Rightarrow> n
      | None \<Rightarrow> (case sanitize_name hostname of Some n \<Rightarrow> n
      | None \<Rightarrow> (case sanitize_name file_name of Some n \<Rightarrow> n | None \<Rightarrow> []))))"
  by (simp add: resolve_name_def split: option.splits)

text \<open>
  The name source that is reported to the interface is the level whose name is in force, provided
  the environment variable is blank or has a usable name. The proviso is needed: the report looks at
  the variable after trimming only, the rule also drops control characters.
\<close>

definition load_name :: "string \<Rightarrow> string \<Rightarrow> identity_file \<Rightarrow> string" where
  "load_name env hostname f = resolve_name env (if_name_override f) hostname (if_name f)"

text \<open>
  Whoever reads the name in force and its reported source sees the same level of the rule
  (environment, then the stored choice, then the computer name), as long as the variable is blank or
  usable; a stored choice is exactly what the settings field shows.
\<close>

theorem name_source_is_the_level_in_force:
  assumes "if_version f = 1" and "trim env = [] \<longleftrightarrow> sanitize_name env = None"
  shows "case name_source_at env (FileParsed f) of
       SrcEnv \<Rightarrow> sanitize_name env = Some (load_name env hostname f)
     | SrcCustom \<Rightarrow> name_override_at (FileParsed f) = Some (load_name env hostname f) \<and> trim env = []
     | SrcHostname \<Rightarrow> load_name env hostname f = load_name [] hostname (f\<lparr>if_name_override := None\<rparr>)"
  using assms
  by (cases "sanitize_name env"; cases "Option.bind (if_name_override f) sanitize_name")
    (simp_all add: name_source_at_def name_override_at_def load_name_def resolve_name_cases read_identity_file_def)

theorem name_source_witness:
  "name_source_at [] (FileParsed \<lparr>if_version = 1, if_name = ''f'', if_secret_b64 = [], if_name_override = Some ''n''\<rparr>) = SrcCustom \<and>
     load_name [] ''h'' \<lparr>if_version = 1, if_name = ''f'', if_secret_b64 = [], if_name_override = Some ''n''\<rparr> = ''n''"
proof -
  let ?f = "\<lparr>if_version = 1, if_name = ''f'', if_secret_b64 = [], if_name_override = Some ''n''\<rparr>"
  have t: "trim ''n'' = ''n''"
    by (simp add: trim_def trim_start_def trim_end_def WHITE_SPACE_def strip_all.simps)
  have "utf8_split ''n'' = Some [''n'']" by (simp add: utf8_split.simps(2) utf8_width_def byte_val_def)
  then have s: "sanitize_name ''n'' = Some ''n''"
    by (simp add: sanitize_name_def str_chars_def byte_val_def t NAME_CHARS_def)
  have src: "name_source_at [] (FileParsed ?f) = SrcCustom"
    by (simp add: name_source_at_def read_identity_file_def t s)
  have "name_override_at (FileParsed ?f) = Some (load_name [] ''h'' ?f)"
    using name_source_is_the_level_in_force [of ?f "[]" "''h''"] src t by simp
  then show ?thesis using src by (simp add: name_override_at_def read_identity_file_def s)
qed

text \<open>A variable that holds nothing but a control character is reported as the source, yet the stored name is used.\<close>

theorem control_only_variable_is_misreported:
  "let f = \<lparr>if_version = 1, if_name = [], if_secret_b64 = [], if_name_override = Some ''n''\<rparr> in
     name_source_at [CHR 0x01] (FileParsed f) = SrcEnv \<and> load_name [CHR 0x01] ''h'' f = load_name [] ''h'' f"
proof -
  have t: "trim [CHR 0x01] = [CHR 0x01]"
    by (simp add: trim_def trim_start_def trim_end_def WHITE_SPACE_def strip_all.simps)
  have "utf8_split [CHR 0x01] = Some [[CHR 0x01]]" by (simp add: utf8_split.simps(2) utf8_width_def byte_val_def)
  then have "sanitize_name [CHR 0x01] = None"
    by (simp add: sanitize_name_def str_chars_def byte_val_def t)
  then show ?thesis by (simp add: name_source_at_def t load_name_def resolve_name_cases)
qed

text \<open>
  Renaming keeps the identity and resetting the key keeps the name: after \<open>set_name\<close> the machine
  loads with the same key and fingerprint and under the name that was reported; after \<open>reset_key\<close> it
  loads with the new key, the fingerprint that was reported, and the name it had.
\<close>

theorem rename_and_rekey_are_independent:
  assumes "id_lawful p" and "load_or_create p env hostname s0 (FileParsed f) = (Inr i, None)" and "length seed = 32"
  shows "(\<exists>g j. set_name_at p env hostname s0 (FileParsed f) name = (Inr (li_name j), Some g) \<and>
        load_or_create p env hostname s1 (FileParsed g) = (Inr j, None) \<and>
        li_fingerprint j = li_fingerprint i \<and> li_signing_key j = li_signing_key i \<and>
        name_override_at (FileParsed g) = Option.bind (Option.bind name sanitize_name) sanitize_name) \<and>
    (case reset_key_at p hostname seed (FileParsed f) of (fp, g) \<Rightarrow>
        \<exists>j. load_or_create p env hostname s1 (FileParsed g) = (Inr j, None) \<and>
          li_fingerprint j = fp \<and> li_signing_key j = seed \<and> li_name j = li_name i)"
proof -
  from assms(2) have v: "if_version f = 1"
    and parts: "id_from_parts p (resolve_name env (if_name_override f) hostname (if_name f)) (if_secret_b64 f) = Some i"
    by (auto simp: load_or_create_def split: if_splits option.splits)
  from parts obtain key where key: "ip_b64_dec p (if_secret_b64 f) = Some key" "length key = 32"
      "i = id_from_key p (resolve_name env (if_name_override f) hostname (if_name f)) key"
    by (auto simp: id_from_parts_def split: option.splits if_splits)
  show ?thesis
    using v key assms(3) id_lawfulD(5) [OF assms(1)]
    by (auto simp: set_name_at_def read_identity_file_def set_name_file_def load_or_create_def id_from_parts_def
        id_from_key_def name_override_at_def reset_key_at_def Let_def)
qed

section \<open>The peer store\<close>

definition ps_ok :: "peer_store \<Rightarrow> bool" where
  "ps_ok ps \<longleftrightarrow> distinct (map pp_fingerprint ps)"

lemma find_map_same: "(\<And>x. P (f x) \<longleftrightarrow> P x) \<Longrightarrow> find P (map f xs) = map_option f (find P xs)"
  by (induction xs) auto

lemma merge_peer_fp [simp]: "pp_fingerprint (merge_peer p q) = pp_fingerprint p"
  by (simp add: merge_peer_def Let_def)

lemma ps_modify_fps: "(\<And>q. pp_fingerprint q = fp \<Longrightarrow> pp_fingerprint (f q) = fp) \<Longrightarrow>
    map pp_fingerprint (ps_modify fp f ps) = map pp_fingerprint ps"
  by (induction ps) auto

lemma ps_find_modify:
  assumes "\<And>q. pp_fingerprint q = fp \<Longrightarrow> pp_fingerprint (f q) = fp"
  shows "ps_find g (ps_modify fp f ps) = (if g = fp then map_option f (ps_find fp ps) else ps_find g ps)"
  using assms by (induction ps) (auto simp: ps_find_def)

lemma ps_find_None: "ps_find fp ps = None \<longleftrightarrow> fp \<notin> pp_fingerprint ` set ps"
  by (auto simp: ps_find_def find_None_iff)

lemma ps_find_Some: "ps_find fp ps = Some q \<Longrightarrow> q \<in> set ps \<and> pp_fingerprint q = fp"
  by (auto simp: ps_find_def find_Some_iff)

lemma ps_find_append: "ps_find fp (ps @ qs) = (case ps_find fp ps of Some q \<Rightarrow> Some q | None \<Rightarrow> ps_find fp qs)"
  by (induction ps) (auto simp: ps_find_def)

lemma ps_find_upsert:
  "ps_find fp (ps_upsert p ps) =
     (if fp = pp_fingerprint p
      then Some (case ps_find fp ps of Some q \<Rightarrow> merge_peer p q | None \<Rightarrow> p) else ps_find fp ps)"
proof (cases "ps_find (pp_fingerprint p) ps")
  case None
  then show ?thesis by (auto simp: ps_upsert_def ps_find_append) (auto simp: ps_find_def split: option.splits)
next
  case (Some q)
  then show ?thesis by (auto simp: ps_upsert_def ps_find_modify)
qed

lemma ps_ok_upsert: "ps_ok ps \<Longrightarrow> ps_ok (ps_upsert p ps)"
  by (auto simp: ps_upsert_def ps_ok_def ps_modify_fps ps_find_None split: option.splits)

lemma ps_find_remove: "ps_find g (snd (ps_remove fp ps)) = (if g = fp then None else ps_find g ps)"
  by (induction ps) (auto simp: ps_find_def ps_remove_def Let_def)

lemma ps_ok_remove: "ps_ok ps \<Longrightarrow> ps_ok (snd (ps_remove fp ps))"
  by (simp add: ps_ok_def ps_remove_def distinct_map_filter Let_def)

lemma ps_find_set_alias:
  "ps_find g (snd (ps_set_alias fp al ps)) =
     (if g = fp
      then map_option (\<lambda>q. q\<lparr>pp_alias := (case al of Some a \<Rightarrow> if trim a = [] then None else Some a | None \<Rightarrow> None)\<rparr>) (ps_find fp ps)
      else ps_find g ps)"
  by (auto simp: ps_set_alias_def ps_find_modify split: option.splits)

lemma ps_ok_set_alias: "ps_ok ps \<Longrightarrow> ps_ok (snd (ps_set_alias fp al ps))"
  by (auto simp: ps_set_alias_def ps_ok_def ps_modify_fps split: option.splits)

text \<open>The operations of a session with the store: what arrives from the wire, and what the user does.\<close>

datatype store_op = Connected paired_peer | Renamed string "string option" | Unpair string

fun store_step :: "store_op \<Rightarrow> peer_store \<Rightarrow> peer_store" where
  "store_step (Connected p) ps = ps_upsert p ps"
| "store_step (Renamed fp al) ps = snd (ps_set_alias fp al ps)"
| "store_step (Unpair fp) ps = snd (ps_remove fp ps)"

interpretation store: state_machine store_step ps_ok
proof
  show "ps_ok s \<Longrightarrow> ps_ok (store_step e s)" for e s
    by (cases e) (simp_all add: ps_ok_upsert ps_ok_set_alias ps_ok_remove)
qed

text \<open>What a sequence of operations leaves of the user's own name for a peer.\<close>

fun last_alias :: "string \<Rightarrow> string option \<Rightarrow> store_op list \<Rightarrow> string option" where
  "last_alias fp al [] = al"
| "last_alias fp al (Renamed g b # es) =
     last_alias fp (if g = fp then (case b of Some a \<Rightarrow> if trim a = [] then None else Some a | None \<Rightarrow> None) else al) es"
| "last_alias fp al (_ # es) = last_alias fp al es"

fun from_wire :: "store_op \<Rightarrow> bool" where
  "from_wire (Connected p) \<longleftrightarrow> pp_alias p = None"
| "from_wire _ \<longleftrightarrow> True"

lemma merge_peer_keeps:
  "pp_alias p = None \<Longrightarrow> pp_added_unix q \<noteq> 0 \<Longrightarrow>
     pp_alias (merge_peer p q) = pp_alias q \<and> pp_added_unix (merge_peer p q) = pp_added_unix q \<and>
     pp_public_key_b64 (merge_peer p q) = pp_public_key_b64 p \<and>
     (trim (pp_name (merge_peer p q)) = [] \<longrightarrow> trim (pp_name q) = [])"
  by (auto simp: merge_peer_def Let_def)

text \<open>
  What the user chose for a peer and when it was paired survive every reconnection: from a store
  without duplicates, any sequence of connections (whose records come from the wire and carry no
  alias), renamings and removals of other peers keeps one record per fingerprint, keeps the pairing
  time, and leaves exactly the alias the user set last; the name never becomes blank.
\<close>

theorem reconnection_keeps_user_choices:
  assumes "ps_ok ps" and "ps_find fp ps = Some q" and "pp_added_unix q \<noteq> 0"
    and "list_all from_wire es" and "Unpair fp \<notin> set es"
  shows "\<exists>r. ps_find fp (fold store_step es ps) = Some r \<and> pp_added_unix r = pp_added_unix q \<and>
    pp_alias r = last_alias fp (pp_alias q) es \<and> (trim (pp_name q) \<noteq> [] \<longrightarrow> trim (pp_name r) \<noteq> []) \<and>
    ps_ok (fold store_step es ps)"
  using assms
proof (induction es arbitrary: ps q)
  case Nil
  then show ?case by simp
next
  case (Cons e es)
  have ok: "ps_ok (store_step e ps)" by (rule store.step_inv [OF Cons.prems(1)])
  have rest: "list_all from_wire es" "Unpair fp \<notin> set es" using Cons.prems by auto
  have "\<exists>q'. ps_find fp (store_step e ps) = Some q' \<and> pp_added_unix q' = pp_added_unix q \<and>
      last_alias fp (pp_alias q) (e # es) = last_alias fp (pp_alias q') es \<and> (trim (pp_name q') = [] \<longrightarrow> trim (pp_name q) = [])"
  proof (cases e)
    case (Connected p)
    with Cons.prems have "pp_alias p = None" by simp
    with Connected Cons.prems(2,3) merge_peer_keeps [of p q] show ?thesis
      by (cases "fp = pp_fingerprint p") (simp_all add: ps_find_upsert)
  next
    case (Renamed g al)
    with Cons.prems(2) show ?thesis by (cases "fp = g") (simp_all add: ps_find_set_alias)
  next
    case (Unpair g)
    with Cons.prems(2,5) show ?thesis by (auto simp: ps_find_remove)
  qed
  then obtain q' where q': "ps_find fp (store_step e ps) = Some q'" "pp_added_unix q' = pp_added_unix q"
      "last_alias fp (pp_alias q) (e # es) = last_alias fp (pp_alias q') es" "trim (pp_name q') = [] \<longrightarrow> trim (pp_name q) = []"
    by blast
  from Cons.IH [OF ok q'(1) _ rest] Cons.prems(3) q' show ?case by fastforce
qed

theorem reconnection_witness:
  "let q = \<lparr>pp_name = ''a'', pp_fingerprint = ''f'', pp_public_key_b64 = ''k'', pp_last_addr = None, pp_port = 1,
        pp_added_unix = 7, pp_alias = None\<rparr> in
   \<exists>r. ps_find ''f'' (fold store_step [Renamed ''f'' (Some ''x''), Connected (q\<lparr>pp_added_unix := 9\<rparr>)] [q]) = Some r \<and>
     pp_added_unix r = 7 \<and> pp_alias r = Some ''x''"
proof -
  let ?q = "\<lparr>pp_name = ''a'', pp_fingerprint = ''f'', pp_public_key_b64 = ''k'', pp_last_addr = None, pp_port = 1,
        pp_added_unix = 7, pp_alias = None\<rparr>"
  have "trim ''x'' = ''x''" by (simp add: trim_def trim_start_def trim_end_def WHITE_SPACE_def strip_all.simps)
  then show ?thesis
    using reconnection_keeps_user_choices [of "[?q]" "''f''" ?q "[Renamed ''f'' (Some ''x''), Connected (?q\<lparr>pp_added_unix := 9\<rparr>)]"]
    by (auto simp: ps_ok_def ps_find_def)
qed

end
