(* ===== verification/WirePacket.thy ===== *)
theory WirePacket
  imports Interfaces
begin

text \<open>
  The packet header shared by all transports (core/audiohub-net/src/packet.rs): 40 bytes of
  little-endian fields behind a magic, a version and two validated enumerations. The theory
  models the encoder and the parser field by field and shows that the parser accepts exactly
  the encodings whose declared length matches.
\<close>

section \<open>Enumerations\<close>

definition MAGIC :: bytes where
  "MAGIC = [0x41, 0x55, 0x48, 0x42]"

definition VERSION :: u8 where
  "VERSION = 1"

definition HEADER_LEN :: nat where
  "HEADER_LEN = 40"

datatype kind = Media | EchoReq | EchoResp | PullReq | Bye | Control | MuxKeepalive

fun kind_u8 :: "kind \<Rightarrow> u8" where
  "kind_u8 Media = 0"
| "kind_u8 EchoReq = 1"
| "kind_u8 EchoResp = 2"
| "kind_u8 PullReq = 3"
| "kind_u8 Bye = 4"
| "kind_u8 Control = 5"
| "kind_u8 MuxKeepalive = 6"

definition kind_from_u8 :: "u8 \<Rightarrow> kind option" where
  "kind_from_u8 v =
     (if v = 0 then Some Media
      else if v = 1 then Some EchoReq
      else if v = 2 then Some EchoResp
      else if v = 3 then Some PullReq
      else if v = 4 then Some Bye
      else if v = 5 then Some Control
      else if v = 6 then Some MuxKeepalive
      else None)"

datatype codec = PcmS16le | PcmF32le | Opus | PcmS24le | Passthrough

fun codec_u8 :: "codec \<Rightarrow> u8" where
  "codec_u8 PcmS16le = 0"
| "codec_u8 PcmF32le = 1"
| "codec_u8 Opus = 2"
| "codec_u8 PcmS24le = 3"
| "codec_u8 Passthrough = 255"

definition codec_from_u8 :: "u8 \<Rightarrow> codec option" where
  "codec_from_u8 v =
     (if v = 0 then Some PcmS16le
      else if v = 1 then Some PcmF32le
      else if v = 2 then Some Opus
      else if v = 3 then Some PcmS24le
      else if v = 255 then Some Passthrough
      else None)"

datatype wire_depth = S16 | S24 | F32

fun codec_wire_depth :: "codec \<Rightarrow> wire_depth option" where
  "codec_wire_depth PcmS16le = Some S16"
| "codec_wire_depth PcmS24le = Some S24"
| "codec_wire_depth PcmF32le = Some F32"
| "codec_wire_depth Opus = None"
| "codec_wire_depth Passthrough = None"

fun codec_for_depth :: "wire_depth \<Rightarrow> codec" where
  "codec_for_depth S16 = PcmS16le"
| "codec_for_depth S24 = PcmS24le"
| "codec_for_depth F32 = PcmF32le"

interpretation kind_wire: wire_enum kind_u8 kind_from_u8
proof
  show "kind_from_u8 (kind_u8 k) = Some k" for k by (cases k) (simp_all add: kind_from_u8_def)
  show "kind_from_u8 w = Some k \<Longrightarrow> kind_u8 k = w" for w k
    by (auto simp: kind_from_u8_def split: if_splits)
qed

interpretation codec_wire: wire_enum codec_u8 codec_from_u8
proof
  show "codec_from_u8 (codec_u8 k) = Some k" for k by (cases k) (simp_all add: codec_from_u8_def)
  show "codec_from_u8 w = Some k \<Longrightarrow> codec_u8 k = w" for w k
    by (auto simp: codec_from_u8_def split: if_splits)
qed

text \<open>The codec carries the bit depth: depths and linear codecs are in bijection.\<close>

interpretation depth_wire: wire_enum codec_for_depth codec_wire_depth
proof
  show "codec_wire_depth (codec_for_depth d) = Some d" for d by (cases d) simp_all
  show "codec_wire_depth c = Some d \<Longrightarrow> codec_for_depth d = c" for c d by (cases c) auto
qed

section \<open>The header\<close>

record header =
  h_kind :: kind
  h_codec :: codec
  h_channels :: u8
  h_sample_rate :: u32
  h_session_id :: u64
  h_stream_id :: u32
  h_seq :: u32
  h_timestamp_us :: u64
  h_payload_len :: u32

datatype packet_error = TooShort | BadMagic | BadVersion | BadKind | BadCodec | LengthMismatch

definition encode_append :: "header \<Rightarrow> bytes \<Rightarrow> bytes \<Rightarrow> bytes" where
  "encode_append h payload out =
     out @ MAGIC @ [VERSION] @ [kind_u8 (h_kind h)] @ [codec_u8 (h_codec h)] @ [h_channels h] @
     le_bytes 4 (h_sample_rate h) @ le_bytes 8 (h_session_id h) @ le_bytes 4 (h_stream_id h) @
     le_bytes 4 (h_seq h) @ le_bytes 8 (h_timestamp_us h) @ le_bytes 4 (h_payload_len h) @ payload"

definition encode_into :: "header \<Rightarrow> bytes \<Rightarrow> bytes \<Rightarrow> bytes" where
  "encode_into h payload out = encode_append h payload []"

definition header_encode :: "header \<Rightarrow> bytes \<Rightarrow> bytes" where
  "header_encode h payload = encode_into h payload []"

definition header_parse :: "bytes \<Rightarrow> packet_error + (header \<times> bytes)" where
  "header_parse d =
     (if length d < HEADER_LEN then Inl TooShort
      else if byte_slice 0 4 d \<noteq> MAGIC then Inl BadMagic
      else if d ! 4 \<noteq> VERSION then Inl BadVersion
      else case kind_from_u8 (d ! 5) of
        None \<Rightarrow> Inl BadKind
      | Some k \<Rightarrow>
        (case codec_from_u8 (d ! 6) of
           None \<Rightarrow> Inl BadCodec
         | Some c \<Rightarrow>
             let le_u32 = (\<lambda>at. of_le (byte_slice at (at + 4) d) :: u32);
                 le_u64 = (\<lambda>at. of_le (byte_slice at (at + 8) d) :: u64);
                 payload_len = le_u32 36
             in if unat payload_len \<noteq> length d - HEADER_LEN then Inl LengthMismatch
                else Inr (\<lparr>h_kind = k, h_codec = c, h_channels = d ! 7, h_sample_rate = le_u32 8,
                           h_session_id = le_u64 12, h_stream_id = le_u32 20, h_seq = le_u32 24,
                           h_timestamp_us = le_u64 28, h_payload_len = payload_len\<rparr>,
                          drop HEADER_LEN d)))"

section \<open>The parser inverts the encoder\<close>

lemma encode_append_eq: "encode_append h payload out = out @ header_encode h payload"
  by (simp add: encode_append_def header_encode_def encode_into_def)

lemma header_encode_split: "header_encode h payload = header_encode h [] @ payload"
  by (simp add: encode_append_def header_encode_def encode_into_def)

lemma length_header_encode [simp]: "length (header_encode h payload) = HEADER_LEN + length payload"
  by (simp add: encode_append_def header_encode_def encode_into_def MAGIC_def HEADER_LEN_def)

lemma header_encode_len_field:
  "of_le (byte_slice 36 40 (header_encode h payload @ rest)) = h_payload_len h"
  by (simp add: encode_append_def header_encode_def encode_into_def MAGIC_def layout_simps)

lemma header_encode_bytes:
  "byte_slice 0 4 (header_encode h payload) = MAGIC"
  "header_encode h payload ! 4 = VERSION"
  "header_encode h payload ! 5 = kind_u8 (h_kind h)"
  "header_encode h payload ! 6 = codec_u8 (h_codec h)"
  "header_encode h payload ! 7 = h_channels h"
  "drop 40 (header_encode h payload) = payload"
  by (simp_all add: header_encode_def encode_into_def encode_append_def MAGIC_def layout_simps)

lemma header_encode_words:
  "of_le (byte_slice 8 12 (header_encode h payload)) = h_sample_rate h"
  "of_le (byte_slice 12 20 (header_encode h payload)) = h_session_id h"
  "of_le (byte_slice 20 24 (header_encode h payload)) = h_stream_id h"
  "of_le (byte_slice 24 28 (header_encode h payload)) = h_seq h"
  "of_le (byte_slice 28 36 (header_encode h payload)) = h_timestamp_us h"
  "of_le (byte_slice 36 40 (header_encode h payload)) = h_payload_len h"
  by (simp_all add: header_encode_def encode_into_def encode_append_def MAGIC_def layout_simps)

lemma header_parse_encode:
  assumes "unat (h_payload_len h) = length payload"
  shows "header_parse (header_encode h payload) = Inr (h, payload)"
proof -
  have "length (header_encode h payload) = 40 + length payload" by (simp add: HEADER_LEN_def)
  with assms show ?thesis
    by (simp add: header_parse_def Let_def HEADER_LEN_def header_encode_bytes header_encode_words
        kind_wire.dec_enc codec_wire.dec_enc del: length_header_encode)
qed

lemma list_of_four:
  assumes "8 \<le> length d"
  shows "byte_slice 4 8 d = [d ! 4, d ! 5, d ! 6, d ! 7]"
proof -
  have "drop 4 d = [d ! 4, d ! 5, d ! 6, d ! 7] @ drop 4 (drop 4 d)"
    using split_four [of "drop 4 d"] assms by simp
  then have "take 4 (drop 4 d) = take 4 ([d ! 4, d ! 5, d ! 6, d ! 7] @ drop 4 (drop 4 d))"
    by (rule arg_cong)
  then show ?thesis by (simp add: byte_slice_def)
qed

lemma header_parse_inv:
  assumes "header_parse d = Inr (h, p)"
  shows "d = header_encode h p \<and> unat (h_payload_len h) = length p"
proof -
  from assms have len: "40 \<le> length d" and magic: "byte_slice 0 4 d = MAGIC" and v: "d ! 4 = VERSION"
      and k: "kind_from_u8 (d ! 5) = Some (h_kind h)" and c: "codec_from_u8 (d ! 6) = Some (h_codec h)"
      and h: "h_channels h = d ! 7" "h_sample_rate h = of_le (byte_slice 8 12 d)"
        "h_session_id h = of_le (byte_slice 12 20 d)" "h_stream_id h = of_le (byte_slice 20 24 d)"
        "h_seq h = of_le (byte_slice 24 28 d)" "h_timestamp_us h = of_le (byte_slice 28 36 d)"
        "h_payload_len h = of_le (byte_slice 36 40 d)"
      and p: "p = drop 40 d" "unat (h_payload_len h) = length p"
    by (auto simp: header_parse_def HEADER_LEN_def Let_def split: if_splits option.splits)
  have "d = byte_slice 0 4 d @ byte_slice 4 8 d @ byte_slice 8 12 d @ byte_slice 12 20 d @
      byte_slice 20 24 d @ byte_slice 24 28 d @ byte_slice 28 36 d @ byte_slice 36 40 d @ drop 40 d"
    using drop_slice [of 0 4 d] drop_slice [of 4 8 d] drop_slice [of 8 12 d] drop_slice [of 12 20 d]
      drop_slice [of 20 24 d] drop_slice [of 24 28 d] drop_slice [of 28 36 d] drop_slice [of 36 40 d]
    by simp
  also have "byte_slice 4 8 d = [VERSION, kind_u8 (h_kind h), codec_u8 (h_codec h), h_channels h]"
    using list_of_four [of d] len v k c h(1)
    by (simp add: kind_wire.dec_eq_Some codec_wire.dec_eq_Some)
  finally have "d = header_encode h p"
    using len by (simp add: header_encode_def encode_into_def encode_append_def magic h p(1) le_bytes_of_le)
  with p(2) show ?thesis by blast
qed

lemma header_parse_exact:
  "header_parse d = Inr (h, p) \<longleftrightarrow> d = header_encode h p \<and> unat (h_payload_len h) = length p"
  using header_parse_inv [of d h p] header_parse_encode [of h p] by blast

section \<open>Properties\<close>

text \<open>
  The wire format is unambiguous: the parser accepts exactly the encodings of headers whose
  declared length is the length of the payload that follows, and returns that header and payload.
\<close>

theorem header_parse_iff:
  "header_parse d = Inr (h, p) \<longleftrightarrow> d = header_encode h p \<and> unat (h_payload_len h) = length p"
  by (rule header_parse_exact)

end
