(* ===== verification/Secure.thy ===== *)
theory Secure
  imports WirePacket "HOL-Library.Sublist"
begin

text \<open>
  The encrypted control channel and the media encryption (core/audiohub-net/src/secure.rs,
  control.rs and the MediaCrypto part of media.rs): length-prefixed control frames, the key
  schedule, both sides of the handshake, sending and receiving with explicit counters, and sealed
  media datagrams. The cryptographic primitives, base64 and JSON are libraries the code calls:
  they are the record \<open>prims\<close>, an argument of the definitions; what is documented of them is the
  predicate \<open>lawful\<close>.
\<close>

section \<open>Control messages and the primitives\<close>

datatype control_msg =
    Hello u32 string string
  | PairInit string string u16
  | PairResp string string
  | PairConfirmA string string
  | PairConfirmB string string
  | VerifyHello string string u32
  | VerifyChallenge string u32
  | VerifyResponse string string string
  | SecInit string string string
  | SecResp string string string
  | Enc u64 string
  | MediaAttach string
  | OkMsg
  | Unpaired string string
  | ErrorMsg string

definition CONTROL_MAX_FRAME :: nat where
  "CONTROL_MAX_FRAME = 65536"

definition MEDIA_SALT_LEN :: nat where
  "MEDIA_SALT_LEN = 16"

definition AEAD_TAG_LEN :: nat where
  "AEAD_TAG_LEN = 16"

text \<open>
  Keys, nonces and associated data are byte strings. \<open>aead_dec key nonce aad ct\<close> is None if the tag
  does not verify. \<open>dh\<close> is None for a degenerate shared secret.
\<close>

record prims =
  aead_enc :: "bytes \<Rightarrow> bytes \<Rightarrow> bytes \<Rightarrow> bytes \<Rightarrow> bytes"
  aead_dec :: "bytes \<Rightarrow> bytes \<Rightarrow> bytes \<Rightarrow> bytes \<Rightarrow> bytes option"
  hkdf :: "bytes \<Rightarrow> bytes \<Rightarrow> bytes \<Rightarrow> bytes"
  dh_pub :: "bytes \<Rightarrow> bytes"
  dh :: "bytes \<Rightarrow> bytes \<Rightarrow> bytes option"
  sign :: "bytes \<Rightarrow> bytes \<Rightarrow> bytes"
  verify :: "string \<Rightarrow> bytes \<Rightarrow> bytes \<Rightarrow> bool"
  pub_of :: "bytes \<Rightarrow> string"
  b64_enc :: "bytes \<Rightarrow> string"
  b64_dec :: "string \<Rightarrow> bytes option"
  msg_enc :: "control_msg \<Rightarrow> bytes"
  msg_dec :: "bytes \<Rightarrow> control_msg option"

definition lawful :: "prims \<Rightarrow> bool" where
  "lawful c \<longleftrightarrow>
     (\<forall>k n a p q. aead_dec c k n a p = Some q \<longleftrightarrow> p = aead_enc c k n a q) \<and>
     (\<forall>k n a p. length (aead_enc c k n a p) = length p + AEAD_TAG_LEN) \<and>
     (\<forall>x y. dh c x (dh_pub c y) = dh c y (dh_pub c x)) \<and>
     (\<forall>x. length (dh_pub c x) = 32) \<and>
     (\<forall>k m. verify c (pub_of c k) m (sign c k m)) \<and>
     (\<forall>b. b64_dec c (b64_enc c b) = Some b) \<and>
     (\<forall>n d. msg_dec c (msg_enc c (Enc n d)) = Some (Enc n d)) \<and>
     (\<forall>e n s. msg_dec c (msg_enc c (SecInit e n s)) = Some (SecInit e n s)) \<and>
     (\<forall>e n s. msg_dec c (msg_enc c (SecResp e n s)) = Some (SecResp e n s))"

lemma lawfulD:
  assumes "lawful c"
  shows "aead_dec c k n a x = Some q \<longleftrightarrow> x = aead_enc c k n a q" and "length (aead_enc c k n a p) = length p + AEAD_TAG_LEN"
    and "dh c sk (dh_pub c sl) = dh c sl (dh_pub c sk)" and "length (dh_pub c sk) = 32" and "verify c (pub_of c k) m (sign c k m)"
    and "b64_dec c (b64_enc c b) = Some b" and "msg_dec c (msg_enc c (Enc m64 str)) = Some (Enc m64 str)"
  using assms by (simp_all add: lawful_def)

section \<open>Frames\<close>

datatype frame_error = FrameTooLarge | FrameIo

text \<open>The bytes a frame puts on the stream; None if the body exceeds the limit.\<close>

definition frame_bytes :: "prims \<Rightarrow> control_msg \<Rightarrow> bytes option" where
  "frame_bytes c m =
     (let body = msg_enc c m in
      if CONTROL_MAX_FRAME < length body then None
      else Some (le_bytes 4 (of_nat (length body) :: u32) @ body))"

datatype read_error = EofInFrame | ReadTooLarge | ParseFailed

definition read_frame :: "prims \<Rightarrow> bytes \<Rightarrow> read_error + control_msg \<times> bytes" where
  "read_frame c s =
     (if length s < 4 then Inl EofInFrame
      else
        let len = unat (of_le (take 4 s) :: u32) in
        if CONTROL_MAX_FRAME < len then Inl ReadTooLarge
        else if length s < 4 + len then Inl EofInFrame
        else case msg_dec c (byte_slice 4 (4 + len) s) of
               None \<Rightarrow> Inl ParseFailed
             | Some m \<Rightarrow> Inr (m, drop (4 + len) s))"

section \<open>Keys\<close>

definition SEC_LABEL_I :: bytes where
  "SEC_LABEL_I = map of_char ''audiohub-sec-i''"

definition SEC_LABEL_R :: bytes where
  "SEC_LABEL_R = map of_char ''audiohub-sec-r''"

definition sig_preimage_i :: "bytes \<Rightarrow> bytes \<Rightarrow> bytes" where
  "sig_preimage_i eph_i nonce_i = SEC_LABEL_I @ eph_i @ nonce_i"

definition sig_preimage_r :: "bytes \<Rightarrow> bytes \<Rightarrow> bytes \<Rightarrow> bytes" where
  "sig_preimage_r eph_r nonce_r eph_i = SEC_LABEL_R @ eph_r @ nonce_r @ eph_i"

record media_keys =
  mk_tx :: bytes
  mk_rx :: bytes

record derived_keys =
  dk_c_tx :: bytes
  dk_c_rx :: bytes
  dk_media :: media_keys

definition derive_keys :: "prims \<Rightarrow> bytes \<Rightarrow> bytes \<Rightarrow> bytes \<Rightarrow> bool \<Rightarrow> derived_keys" where
  "derive_keys c ss nonce_i nonce_r initiator =
     (let expand = (\<lambda>label. hkdf c (nonce_i @ nonce_r) ss (map of_char label));
          c_i2r = expand ''c-i2r''; c_r2i = expand ''c-r2i''; m_i2r = expand ''m-i2r''; m_r2i = expand ''m-r2i'' in
      if initiator then \<lparr>dk_c_tx = c_i2r, dk_c_rx = c_r2i, dk_media = \<lparr>mk_tx = m_i2r, mk_rx = m_r2i\<rparr>\<rparr>
      else \<lparr>dk_c_tx = c_r2i, dk_c_rx = c_i2r, dk_media = \<lparr>mk_tx = m_r2i, mk_rx = m_i2r\<rparr>\<rparr>)"

definition ctr_nonce :: "u64 \<Rightarrow> bytes" where
  "ctr_nonce n = le_bytes 8 n @ replicate 4 0"

section \<open>The channel\<close>

record secure_channel =
  sc_tx_key :: bytes
  sc_rx_key :: bytes
  sc_tx_n :: u64
  sc_rx_seen :: "u64 option"
  sc_poisoned :: bool
  sc_bad_msgs :: nat
  sc_media :: media_keys
  sc_rd_buf :: bytes

definition from_parts :: "derived_keys \<Rightarrow> secure_channel" where
  "from_parts k =
     \<lparr>sc_tx_key = dk_c_tx k, sc_rx_key = dk_c_rx k, sc_tx_n = 0, sc_rx_seen = None, sc_poisoned = False,
      sc_bad_msgs = 0, sc_media = dk_media k, sc_rd_buf = []\<rparr>"

datatype handshake_error = ReadFailed | Refused string | Unexpected | BadField | BadSignature | Degenerate

text \<open>The result of a side, and the frames it has written until then.\<close>

definition arr32 :: "bytes \<Rightarrow> bytes option" where
  "arr32 v = (if length v = 32 then Some v else None)"

definition sec_fields :: "prims \<Rightarrow> string \<Rightarrow> string \<Rightarrow> string \<Rightarrow> (bytes \<times> bytes \<times> bytes) option" where
  "sec_fields c e n s =
     (case Option.bind (b64_dec c e) arr32 of
        None \<Rightarrow> None
      | Some eph \<Rightarrow>
          (case b64_dec c n of
             None \<Rightarrow> None
           | Some nonce \<Rightarrow> (case b64_dec c s of None \<Rightarrow> None | Some sg \<Rightarrow> Some (eph, nonce, sg))))"

definition sec_init :: "prims \<Rightarrow> bytes \<Rightarrow> bytes \<Rightarrow> bytes \<Rightarrow> control_msg" where
  "sec_init c id_key eph_secret nonce_i =
     SecInit (b64_enc c (dh_pub c eph_secret)) (b64_enc c nonce_i)
       (b64_enc c (sign c id_key (sig_preimage_i (dh_pub c eph_secret) nonce_i)))"

definition establish_initiator :: "prims \<Rightarrow> bytes \<Rightarrow> string \<Rightarrow> bytes \<Rightarrow> bytes \<Rightarrow> control_msg option \<Rightarrow>
    (handshake_error + secure_channel) \<times> control_msg list" where
  "establish_initiator c id_key peer_pub eph_secret nonce_i reply =
     (let m = sec_init c id_key eph_secret nonce_i in
      case reply of
        None \<Rightarrow> (Inl ReadFailed, [m])
      | Some (SecResp e n s) \<Rightarrow>
          (case sec_fields c e n s of
             None \<Rightarrow> (Inl BadField, [m])
           | Some (eph_r, nonce_r, sig_r) \<Rightarrow>
               if \<not> verify c peer_pub (sig_preimage_r eph_r nonce_r (dh_pub c eph_secret)) sig_r
               then (Inl BadSignature, [m, ErrorMsg ''secure handshake signature invalid''])
               else case dh c eph_secret eph_r of
                      None \<Rightarrow> (Inl Degenerate, [m])
                    | Some ss \<Rightarrow> (Inr (from_parts (derive_keys c ss nonce_i nonce_r True)), [m]))
      | Some (ErrorMsg t) \<Rightarrow> (Inl (Refused t), [m])
      | Some _ \<Rightarrow> (Inl Unexpected, [m]))"

definition establish_responder :: "prims \<Rightarrow> bytes \<Rightarrow> string \<Rightarrow> bytes \<Rightarrow> bytes \<Rightarrow> control_msg option \<Rightarrow>
    (handshake_error + secure_channel) \<times> control_msg list" where
  "establish_responder c id_key peer_pub eph_secret nonce_r first =
     (case first of
        None \<Rightarrow> (Inl ReadFailed, [])
      | Some (SecInit e n s) \<Rightarrow>
          (case sec_fields c e n s of
             None \<Rightarrow> (Inl BadField, [])
           | Some (eph_i, nonce_i, sig_i) \<Rightarrow>
               if \<not> verify c peer_pub (sig_preimage_i eph_i nonce_i) sig_i
               then (Inl BadSignature, [ErrorMsg ''secure handshake signature invalid''])
               else
                 let eph_pub = dh_pub c eph_secret;
                     m = SecResp (b64_enc c eph_pub) (b64_enc c nonce_r)
                           (b64_enc c (sign c id_key (sig_preimage_r eph_pub nonce_r eph_i)))
                 in (case dh c eph_secret eph_i of
                       None \<Rightarrow> (Inl Degenerate, [m])
                     | Some ss \<Rightarrow> (Inr (from_parts (derive_keys c ss nonce_i nonce_r False)), [m])))
      | Some (ErrorMsg t) \<Rightarrow> (Inl (Refused t), [])
      | Some _ \<Rightarrow> (Inl Unexpected, []))"

section \<open>Sending\<close>

datatype send_result = SendOk bytes | Unusable | EncryptFailed | WriteFailed

text \<open>
  \<open>enc_ok\<close> and \<open>write_ok\<close> are the outcomes of the cipher and of the stream. The last component is the
  counter that was given to the cipher, if it was called.
\<close>

definition send_raw_payload :: "prims \<Rightarrow> bytes \<Rightarrow> bool \<Rightarrow> bool \<Rightarrow> secure_channel \<Rightarrow>
    send_result \<times> secure_channel \<times> u64 option" where
  "send_raw_payload c plain enc_ok write_ok ch =
     (if sc_poisoned ch then (Unusable, ch, None)
      else
        let n = sc_tx_n ch; ch = ch\<lparr>sc_tx_n := n + 1\<rparr> in
        if \<not> enc_ok then (EncryptFailed, ch, Some n)
        else
          let ct = aead_enc c (sc_tx_key ch) (ctr_nonce n) [] plain in
          (case frame_bytes c (Enc n (b64_enc c ct)) of
             Some bs \<Rightarrow> if write_ok then (SendOk bs, ch, Some n) else (WriteFailed, ch\<lparr>sc_poisoned := True\<rparr>, Some n)
           | None \<Rightarrow> (WriteFailed, ch\<lparr>sc_poisoned := True\<rparr>, Some n)))"

section \<open>Receiving\<close>

datatype recv_error = ChannelUnusable | TooLarge | Malformed | BadBase64 | DecryptFailed | Plaintext | ClosedByPeer | ReadBroken

text \<open>One length-prefixed frame from the buffer, if it is complete.\<close>

definition take_frame :: "secure_channel \<Rightarrow> recv_error + (bytes \<times> secure_channel) option" where
  "take_frame ch =
     (let buf = sc_rd_buf ch in
      if length buf < 4 then Inr None
      else
        let len = unat (of_le (take 4 buf) :: u32) in
        if CONTROL_MAX_FRAME < len then Inl TooLarge
        else if length buf < 4 + len then Inr None
        else Inr (Some (byte_slice 4 (4 + len) buf, ch\<lparr>sc_rd_buf := drop (4 + len) buf\<rparr>)))"

text \<open>What one frame does: skipped, refused, or a payload under its counter.\<close>

datatype frame_result = Skip | Fail recv_error | Payload u64 bytes

definition open_frame :: "prims \<Rightarrow> secure_channel \<Rightarrow> bytes \<Rightarrow> frame_result" where
  "open_frame c ch body =
     (case msg_dec c body of
        None \<Rightarrow> Fail Malformed
      | Some (Enc n data) \<Rightarrow>
          if (case sc_rx_seen ch of Some seen \<Rightarrow> n \<le> seen | None \<Rightarrow> False) then Skip
          else (case b64_dec c data of
                  None \<Rightarrow> Fail BadBase64
                | Some ct \<Rightarrow>
                    (case aead_dec c (sc_rx_key ch) (ctr_nonce n) [] ct of
                       None \<Rightarrow> Fail DecryptFailed
                     | Some pt \<Rightarrow> Payload n pt))
      | Some _ \<Rightarrow> Fail Plaintext)"

lemma take_frame_shorter: "take_frame ch = Inr (Some (body, ch')) \<Longrightarrow> length (sc_rd_buf ch') < length (sc_rd_buf ch)"
  by (auto simp: take_frame_def Let_def split: if_splits)

text \<open>
  The inner loop of the receiver over the buffered frames: a message, an error, or nothing more.
  \<open>parse\<close> decodes a session message; \<open>log\<close> collects the counters and payloads that were accepted.
\<close>

function recv_buffered :: "prims \<Rightarrow> (bytes \<Rightarrow> 'm option) \<Rightarrow> secure_channel \<Rightarrow> (u64 \<times> bytes) list \<Rightarrow>
    (recv_error + 'm option) \<times> secure_channel \<times> (u64 \<times> bytes) list" where
  "recv_buffered c parse ch log =
     (case take_frame ch of
        Inl e \<Rightarrow> (Inl e, ch, log)
      | Inr None \<Rightarrow> (Inr None, ch, log)
      | Inr (Some (body, ch')) \<Rightarrow>
          (case open_frame c ch' body of
             Skip \<Rightarrow> recv_buffered c parse ch' log
           | Fail e \<Rightarrow> (Inl e, ch', log)
           | Payload n pt \<Rightarrow>
               let ch'' = ch'\<lparr>sc_rx_seen := Some n\<rparr> in
               (case parse pt of
                  Some m \<Rightarrow> (Inr (Some m), ch'', log @ [(n, pt)])
                | None \<Rightarrow> recv_buffered c parse (ch''\<lparr>sc_bad_msgs := sc_bad_msgs ch'' + 1\<rparr>) (log @ [(n, pt)]))))"
  by pat_completeness auto
termination
  by (relation "measure (\<lambda>(c, parse, ch, log). length (sc_rd_buf ch))") (auto dest: take_frame_shorter)

declare recv_buffered.simps [simp del]

text \<open>What the next read of the stream yields; an empty script means that the deadline has passed.\<close>

datatype read_outcome = Data bytes | Closed | TimedOut | Broken

fun recv_timeout :: "prims \<Rightarrow> (bytes \<Rightarrow> 'm option) \<Rightarrow> read_outcome list \<Rightarrow> secure_channel \<Rightarrow> (u64 \<times> bytes) list \<Rightarrow>
    (recv_error + 'm option) \<times> secure_channel \<times> (u64 \<times> bytes) list \<times> read_outcome list" where
  "recv_timeout c parse [] ch log =
     (if sc_poisoned ch then (Inl ChannelUnusable, ch, log, [])
      else case recv_buffered c parse ch log of (r, ch, log) \<Rightarrow> (r, ch, log, []))"
| "recv_timeout c parse (x # xs) ch log =
     (if sc_poisoned ch then (Inl ChannelUnusable, ch, log, x # xs)
      else case recv_buffered c parse ch log of
             (Inr None, ch, log) \<Rightarrow>
               (case x of
                  Data bs \<Rightarrow>
                    if bs = [] then (Inl ClosedByPeer, ch, log, xs)
                    else recv_timeout c parse xs (ch\<lparr>sc_rd_buf := sc_rd_buf ch @ bs\<rparr>) log
                | Closed \<Rightarrow> (Inl ClosedByPeer, ch, log, xs)
                | TimedOut \<Rightarrow> (Inr None, ch, log, xs)
                | Broken \<Rightarrow> (Inl ReadBroken, ch, log, xs))
           | (r, ch, log) \<Rightarrow> (r, ch, log, x # xs))"

section \<open>Media datagrams\<close>

definition media_nonce :: "u32 \<Rightarrow> u32 \<Rightarrow> bytes" where
  "media_nonce sid sq = le_bytes 4 sid @ le_bytes 4 sq @ replicate 4 0"

definition STREAM_KEY_INFO :: bytes where
  "STREAM_KEY_INFO = map of_char ''audiohub-stream-v1''"

definition stream_key :: "prims \<Rightarrow> bytes \<Rightarrow> u32 \<Rightarrow> bytes \<Rightarrow> bytes" where
  "stream_key c media_key sid salt = hkdf c salt media_key (STREAM_KEY_INFO @ le_bytes 4 sid)"

definition seal :: "prims \<Rightarrow> bytes \<Rightarrow> header \<Rightarrow> bytes \<Rightarrow> bytes" where
  "seal c key h plain =
     (let h = h\<lparr>h_payload_len := of_nat (length plain + AEAD_TAG_LEN)\<rparr>;
          out = header_encode h plain;
          nonce = media_nonce (h_stream_id h) (h_seq h);
          aad = take HEADER_LEN out; msg = drop HEADER_LEN out
      in aad @ aead_enc c key nonce aad msg)"

datatype media_error = BadPacket packet_error | MediaDecryptFailed

definition open_datagram :: "prims \<Rightarrow> bytes \<Rightarrow> bytes \<Rightarrow> media_error + header \<times> bytes" where
  "open_datagram c key d =
     (case header_parse d of
        Inl e \<Rightarrow> Inl (BadPacket e)
      | Inr (h, ct) \<Rightarrow>
          (case aead_dec c key (media_nonce (h_stream_id h) (h_seq h)) (take HEADER_LEN d) ct of
             None \<Rightarrow> Inl MediaDecryptFailed
           | Some pt \<Rightarrow> Inr (h, pt)))"

section \<open>Counters and preimages\<close>

lemma le_bytes_inj: "LENGTH('a::len) \<le> 8 * n \<Longrightarrow> le_bytes n (v :: 'a word) = le_bytes n w \<longleftrightarrow> v = w"
  by (metis of_le_le_bytes)

lemma ctr_nonce_inj [simp]: "ctr_nonce m = ctr_nonce n \<longleftrightarrow> m = n"
  by (simp add: ctr_nonce_def le_bytes_inj)

lemma media_nonce_inj [simp]: "media_nonce a b = media_nonce a' b' \<longleftrightarrow> a = a' \<and> b = b'"
  by (simp add: media_nonce_def le_bytes_inj)

lemma labels: "length SEC_LABEL_I = 14" "length SEC_LABEL_R = 14" "SEC_LABEL_I \<noteq> SEC_LABEL_R"
  by (simp_all add: SEC_LABEL_I_def SEC_LABEL_R_def)

section \<open>A sequence of sends\<close>

text \<open>Each request is a payload with the outcomes of cipher and stream; the results and the counters used.\<close>

fun send_all :: "prims \<Rightarrow> (bytes \<times> bool \<times> bool) list \<Rightarrow> secure_channel \<Rightarrow>
    send_result list \<times> (u64 \<times> bytes) list \<times> secure_channel" where
  "send_all c [] ch = ([], [], ch)"
| "send_all c ((p, e, w) # reqs) ch =
     (case send_raw_payload c p e w ch of
        (r, ch, used) \<Rightarrow>
          (case send_all c reqs ch of
             (rs, us, ch) \<Rightarrow> (r # rs, (case used of None \<Rightarrow> us | Some n \<Rightarrow> (n, p) # us), ch)))"

lemma send_poisoned: "sc_poisoned ch \<Longrightarrow> send_all c reqs ch = (map (\<lambda>_. Unusable) reqs, [], ch)"
  by (induction reqs) (auto simp: send_raw_payload_def)

lemma send_cases:
  assumes "\<not> sc_poisoned ch"
  obtains r ch' where "send_raw_payload c p e w ch = (r, ch', Some (sc_tx_n ch))" and "sc_tx_n ch' = sc_tx_n ch + 1"
    and "sc_poisoned ch' \<longleftrightarrow> r = WriteFailed" and "r \<noteq> Unusable"
    and "\<And>bs. r = SendOk bs \<Longrightarrow> frame_bytes c (Enc (sc_tx_n ch) (b64_enc c (aead_enc c (sc_tx_key ch) (ctr_nonce (sc_tx_n ch)) [] p))) = Some bs"
    and "sc_tx_key ch' = sc_tx_key ch"
proof -
  define f where "f = frame_bytes c (Enc (sc_tx_n ch) (b64_enc c (aead_enc c (sc_tx_key ch) (ctr_nonce (sc_tx_n ch)) [] p)))"
  define ch1 where "ch1 = ch\<lparr>sc_tx_n := sc_tx_n ch + 1\<rparr>"
  define r where "r = (if \<not> e then EncryptFailed else case f of Some bs \<Rightarrow> if w then SendOk bs else WriteFailed | None \<Rightarrow> WriteFailed)"
  show thesis
    by (rule that [of r "if r = WriteFailed then ch1\<lparr>sc_poisoned := True\<rparr> else ch1"])
      (use assms in \<open>auto simp: r_def ch1_def f_def send_raw_payload_def Let_def split: option.splits if_splits\<close>)
qed

text \<open>Where the counters start; a sequence of sends uses an unbroken run of them.\<close>

lemma send_all_counters:
  "send_all c reqs ch = (rs, us, ch') \<Longrightarrow>
     (\<exists>k \<le> length reqs. map fst us = map (\<lambda>i. sc_tx_n ch + of_nat i) [0..<k]) \<and>
     (\<exists>m. dropWhile (\<lambda>r. r \<noteq> WriteFailed) rs \<in> {[], WriteFailed # replicate m Unusable}) \<or> sc_poisoned ch"
proof (induction reqs arbitrary: ch rs us ch')
  case Nil
  then show ?case by simp
next
  case (Cons req reqs)
  obtain p e w where req: "req = (p, e, w)" by (cases req)
  show ?case
  proof (cases "sc_poisoned ch")
    case False
    obtain r ch1 where s: "send_raw_payload c p e w ch = (r, ch1, Some (sc_tx_n ch))" "sc_tx_n ch1 = sc_tx_n ch + 1"
        "sc_poisoned ch1 \<longleftrightarrow> r = WriteFailed" "r \<noteq> Unusable"
      by (rule send_cases [OF False])
    obtain rs1 us1 ch2 where t: "send_all c reqs ch1 = (rs1, us1, ch2)" by (cases "send_all c reqs ch1") auto
    with Cons.prems s req have rs: "rs = r # rs1" "us = (sc_tx_n ch, p) # us1" by auto
    show ?thesis
    proof (cases "r = WriteFailed")
      case True
      then have "rs1 = map (\<lambda>_. Unusable) reqs \<and> us1 = []" using send_poisoned [of ch1 c reqs] s t by simp
      with rs True have "map fst us = map (\<lambda>i. sc_tx_n ch + of_nat i) [0..<1]"
          "dropWhile (\<lambda>r. r \<noteq> WriteFailed) rs = WriteFailed # replicate (length reqs) Unusable"
        by (simp_all add: map_replicate_const)
      then show ?thesis by (intro disjI1 conjI exI [of _ 1] exI [of _ "length reqs"]) simp_all
    next
      case False
      with Cons.IH [OF t] s obtain k m where k: "k \<le> length reqs" "map fst us1 = map (\<lambda>i. sc_tx_n ch1 + of_nat i) [0..<k]"
          "dropWhile (\<lambda>r. r \<noteq> WriteFailed) rs1 \<in> {[], WriteFailed # replicate m Unusable}" by auto
      have "map fst us = map (\<lambda>i. sc_tx_n ch + of_nat i) [0..<Suc k]"
        unfolding rs using k(2) s(2) by (simp add: upt_conv_Cons map_Suc_upt [symmetric] comp_def add.assoc del: upt_Suc)
      moreover have "dropWhile (\<lambda>r. r \<noteq> WriteFailed) rs \<in> {[], WriteFailed # replicate m Unusable}"
        using k(3) False by (simp add: rs)
      ultimately show ?thesis using k(1) by (intro disjI1 conjI exI [of _ "Suc k"] exI [of _ m]) simp_all
    qed
  qed simp
qed

section \<open>Two parties\<close>

text \<open>A run of the receiver: calls of \<open>recv_timeout\<close> until the script of reads is used up or a call fails.\<close>

fun recv_run :: "nat \<Rightarrow> prims \<Rightarrow> (bytes \<Rightarrow> 'm option) \<Rightarrow> read_outcome list \<Rightarrow> secure_channel \<Rightarrow> (u64 \<times> bytes) list \<Rightarrow>
    'm list \<times> recv_error option \<times> secure_channel \<times> (u64 \<times> bytes) list" where
  "recv_run 0 c parse xs ch log = ([], None, ch, log)"
| "recv_run (Suc k) c parse xs ch log =
     (case recv_timeout c parse xs ch log of
        (Inl e, ch, log, xs) \<Rightarrow> ([], Some e, ch, log)
      | (Inr None, ch, log, xs) \<Rightarrow> if xs = [] then ([], None, ch, log) else recv_run k c parse xs ch log
      | (Inr (Some m), ch, log, xs) \<Rightarrow>
          (case recv_run k c parse xs ch log of (ms, e, ch, log) \<Rightarrow> (m # ms, e, ch, log)))"

text \<open>What holds of the log of accepted payloads, whatever arrives.\<close>

definition decoded :: "(bytes \<Rightarrow> 'm option) \<Rightarrow> (u64 \<times> bytes) list \<Rightarrow> 'm list" where
  "decoded parse log = List.map_filter (\<lambda>(n, p). parse p) log"

lemma decoded_simps [simp]:
  "decoded parse [] = []" "decoded parse (xs @ ys) = decoded parse xs @ decoded parse ys"
  "decoded parse ((n, p) # xs) = (case parse p of None \<Rightarrow> decoded parse xs | Some m \<Rightarrow> m # decoded parse xs)"
  by (simp_all add: decoded_def List.map_filter_simps List.map_filter_def split: option.splits)

definition log_ok :: "prims \<Rightarrow> bytes \<Rightarrow> secure_channel \<Rightarrow> (u64 \<times> bytes) list \<Rightarrow> bool" where
  "log_ok c key ch log \<longleftrightarrow>
     sc_rx_key ch = key \<and> sorted_wrt (\<lambda>x y. fst x < fst y) log \<and>
     list_all (\<lambda>(n, p). \<exists>ct. aead_dec c key (ctr_nonce n) [] ct = Some p) log \<and>
     (case sc_rx_seen ch of None \<Rightarrow> log = [] | Some s \<Rightarrow> list_all (\<lambda>(n, p). n \<le> s) log)"

lemma log_ok_accept:
  assumes "log_ok c key ch log" and "open_frame c ch body = Payload n pt"
  shows "log_ok c key (ch\<lparr>sc_rx_seen := Some n\<rparr>) (log @ [(n, pt)])"
proof -
  from assms(2) obtain ct where ct: "aead_dec c (sc_rx_key ch) (ctr_nonce n) [] ct = Some pt"
    and fresh: "case sc_rx_seen ch of Some seen \<Rightarrow> seen < n | None \<Rightarrow> True"
    by (auto simp: open_frame_def not_le split: option.splits control_msg.splits if_splits)
  from assms(1) fresh have "list_all (\<lambda>(m, p). m < n) log"
    by (auto simp: log_ok_def list_all_iff split: option.splits)
  with assms(1) ct show ?thesis
    by (auto simp: log_ok_def sorted_wrt_append list_all_iff intro: less_imp_le)
qed

lemma log_ok_buffer [simp]:
  "log_ok c key (ch\<lparr>sc_rd_buf := b\<rparr>) log \<longleftrightarrow> log_ok c key ch log"
  "log_ok c key (ch\<lparr>sc_bad_msgs := k\<rparr>) log \<longleftrightarrow> log_ok c key ch log"
  by (simp_all add: log_ok_def)

lemma take_frame_log_ok: "take_frame ch = Inr (Some (body, ch')) \<Longrightarrow> log_ok c key ch' log \<longleftrightarrow> log_ok c key ch log"
  by (auto simp: take_frame_def Let_def split: if_splits)

lemma recv_buffered_log:
  "recv_buffered c parse ch log = (r, ch', log') \<Longrightarrow> log_ok c key ch log \<Longrightarrow>
     log_ok c key ch' log' \<and> (\<exists>new. log' = log @ new \<and> decoded parse new = (case r of Inr (Some m) \<Rightarrow> [m] | _ \<Rightarrow> []))"
proof (induction c parse ch log arbitrary: r ch' log' rule: recv_buffered.induct)
  case (1 c parse ch log)
  show ?case
  proof (cases "take_frame ch")
    case (Inl e)
    with 1(3,4) show ?thesis by (auto simp: recv_buffered.simps [of c parse ch])
  next
    case (Inr x)
    show ?thesis
    proof (cases x)
      case None
      with Inr 1(3,4) show ?thesis by (auto simp: recv_buffered.simps [of c parse ch])
    next
      case (Some bc)
      obtain body ch1 where bc: "bc = (body, ch1)" by (cases bc)
      note tf = Inr [unfolded Some bc]
      have ok: "log_ok c key ch1 log" using take_frame_log_ok [OF tf] 1(4) by simp
      show ?thesis
      proof (cases "open_frame c ch1 body")
        case Skip
        with tf 1(3) have "recv_buffered c parse ch1 log = (r, ch', log')" by (simp add: recv_buffered.simps [of c parse ch])
        from 1(1) [OF Inr Some bc [symmetric] Skip this ok] show ?thesis .
      next
        case (Fail e)
        with tf 1(3) ok show ?thesis by (auto simp: recv_buffered.simps [of c parse ch])
      next
        case (Payload n pt)
        let ?ch2 = "ch1\<lparr>sc_rx_seen := Some n\<rparr>"
        have ok2: "log_ok c key ?ch2 (log @ [(n, pt)])" by (rule log_ok_accept [OF ok Payload])
        show ?thesis
        proof (cases "parse pt")
          case None
          with tf Payload 1(3) have rec: "recv_buffered c parse (?ch2\<lparr>sc_bad_msgs := sc_bad_msgs ?ch2 + 1\<rparr>) (log @ [(n, pt)]) = (r, ch', log')"
            by (simp add: recv_buffered.simps [of c parse ch] Let_def)
          have "log_ok c key (?ch2\<lparr>sc_bad_msgs := sc_bad_msgs ?ch2 + 1\<rparr>) (log @ [(n, pt)])" using ok2 by simp
          from 1(2) [OF Inr Some bc [symmetric] Payload refl None rec this] None show ?thesis by force
        next
          case (Some m)
          with tf Payload 1(3) ok2 show ?thesis by (auto simp: recv_buffered.simps [of c parse ch] Let_def)
        qed
      qed
    qed
  qed
qed

lemma recv_timeout_log:
  "recv_timeout c parse xs ch log = (r, ch', log', xs') \<Longrightarrow> log_ok c key ch log \<Longrightarrow>
     log_ok c key ch' log' \<and> (\<exists>new. log' = log @ new \<and> decoded parse new = (case r of Inr (Some m) \<Rightarrow> [m] | _ \<Rightarrow> []))"
proof (induction xs arbitrary: ch log)
  case Nil
  then show ?case
    using recv_buffered_log [of c parse ch log] by (auto split: if_splits prod.splits)
next
  case (Cons x xs)
  obtain r1 ch1 log1 where b: "recv_buffered c parse ch log = (r1, ch1, log1)" by (cases "recv_buffered c parse ch log") auto
  from recv_buffered_log [OF b Cons.prems(2)]
  obtain new1 where ok: "log_ok c key ch1 log1" and new1: "log1 = log @ new1"
      "decoded parse new1 = (case r1 of Inr (Some m) \<Rightarrow> [m] | _ \<Rightarrow> [])" by blast
  show ?case
  proof (cases "\<not> sc_poisoned ch \<and> r1 = Inr None \<and> (\<exists>bs. x = Data bs \<and> bs \<noteq> [])")
    case True
    then obtain bs where x: "x = Data bs" "bs \<noteq> []" by blast
    with True b Cons.prems(1) have "recv_timeout c parse xs (ch1\<lparr>sc_rd_buf := sc_rd_buf ch1 @ bs\<rparr>) log1 = (r, ch', log', xs')"
      by simp
    from Cons.IH [OF this] ok new1 True show ?thesis by auto
  next
    case False
    with b Cons.prems ok new1 show ?thesis
      by (cases x; cases r1; cases "sc_poisoned ch") (auto split: option.splits if_splits)
  qed
qed

lemma recv_run_log:
  "recv_run k c parse xs ch log = (ms, e, ch', log') \<Longrightarrow> log_ok c key ch log \<Longrightarrow>
     log_ok c key ch' log' \<and> (\<exists>new. log' = log @ new \<and> ms = decoded parse new)"
proof (induction k arbitrary: xs ch log ms e ch' log')
  case 0
  then show ?case by auto
next
  case (Suc k)
  obtain r ch1 log1 xs1 where t: "recv_timeout c parse xs ch log = (r, ch1, log1, xs1)"
    by (cases "recv_timeout c parse xs ch log") auto
  from recv_timeout_log [OF t Suc.prems(2)]
  obtain new1 where ok: "log_ok c key ch1 log1" and new1: "log1 = log @ new1"
      "decoded parse new1 = (case r of Inr (Some m) \<Rightarrow> [m] | _ \<Rightarrow> [])" by blast
  show ?case
  proof (cases r)
    case (Inl err)
    with t Suc.prems(1) ok new1 show ?thesis by auto
  next
    case (Inr o')
    show ?thesis
    proof (cases o')
      case None
      with Inr t Suc.prems(1) Suc.IH [of xs1 ch1 log1 ms] ok new1 show ?thesis by (auto split: if_splits)
    next
      case (Some m)
      obtain ms1 e1 ch2 log2 where rest: "recv_run k c parse xs1 ch1 log1 = (ms1, e1, ch2, log2)"
        by (cases "recv_run k c parse xs1 ch1 log1") auto
      with Inr Some t Suc.prems(1) have eqs: "ms = m # ms1" "e1 = e" "ch2 = ch'" "log2 = log'" by auto
      from Suc.IH [OF rest ok] obtain new2 where "log_ok c key ch2 log2" "log2 = log1 @ new2" "ms1 = decoded parse new2" by blast
      with eqs new1 Inr Some show ?thesis by auto
    qed
  qed
qed

section \<open>An undisturbed stream\<close>

text \<open>The bytes that carry a payload under its counter.\<close>

definition enc_frame :: "prims \<Rightarrow> bytes \<Rightarrow> u64 \<times> bytes \<Rightarrow> bytes option" where
  "enc_frame c key np =
     frame_bytes c (Enc (fst np) (b64_enc c (aead_enc c key (ctr_nonce (fst np)) [] (snd np))))"

lemma frame_bytesE:
  assumes "frame_bytes c m = Some f"
  shows "f = le_bytes 4 (of_nat (length (msg_enc c m)) :: u32) @ msg_enc c m" and "length (msg_enc c m) \<le> CONTROL_MAX_FRAME"
    and "unat (of_nat (length (msg_enc c m)) :: u32) = length (msg_enc c m)"
  using assms by (auto simp: frame_bytes_def Let_def CONTROL_MAX_FRAME_def unat_of_nat split: if_splits)

lemma take_frame_whole:
  assumes "frame_bytes c m = Some f" and "sc_rd_buf ch = f @ rest"
  shows "take_frame ch = Inr (Some (msg_enc c m, ch\<lparr>sc_rd_buf := rest\<rparr>))"
  using frame_bytesE [OF assms(1)] assms(2)
  by (simp add: take_frame_def byte_slice_append_right byte_slice_prefix)

lemma take_frame_part:
  assumes "frame_bytes c m = Some f" and "strict_prefix (sc_rd_buf ch) f"
  shows "take_frame ch = Inr None"
proof (cases "length (sc_rd_buf ch) < 4")
  case True
  then show ?thesis by (simp add: take_frame_def)
next
  case False
  note f = frame_bytesE [OF assms(1)]
  from assms(2) obtain t where t: "f = sc_rd_buf ch @ t" "t \<noteq> []" by (auto simp: strict_prefix_def prefix_def)
  then have "take 4 (sc_rd_buf ch) = take 4 f" using False by simp
  also have "\<dots> = le_bytes 4 (of_nat (length (msg_enc c m)) :: u32)" using f(1) by simp
  finally have "unat (of_le (take 4 (sc_rd_buf ch)) :: u32) = length (msg_enc c m)" using f(3) by simp
  moreover have "length (sc_rd_buf ch) < 4 + length (msg_enc c m)"
    using arg_cong [OF f(1), of length] arg_cong [OF t(1), of length] t(2) by (cases t) simp_all
  ultimately show ?thesis using f(2) False by (simp add: take_frame_def Let_def)
qed

lemma open_frame_enc:
  assumes "lawful c" and "sc_rx_key ch = key" and "case sc_rx_seen ch of None \<Rightarrow> True | Some s \<Rightarrow> s < n"
  shows "open_frame c ch (msg_enc c (Enc n (b64_enc c (aead_enc c key (ctr_nonce n) [] p)))) = Payload n p"
proof -
  have "aead_dec c key (ctr_nonce n) [] (aead_enc c key (ctr_nonce n) [] p) = Some p"
    by (simp add: lawfulD(1) [OF assms(1)])
  with assms show ?thesis by (auto simp: open_frame_def lawfulD(6,7) not_le split: option.splits)
qed

text \<open>The receiver is waiting for the payloads \<open>todo\<close>, and \<open>buf\<close> is what it has buffered.\<close>

definition awaits :: "bytes \<Rightarrow> (u64 \<times> bytes) list \<Rightarrow> bytes \<Rightarrow> secure_channel \<Rightarrow> bool" where
  "awaits key todo buf ch \<longleftrightarrow>
     sc_rx_key ch = key \<and> \<not> sc_poisoned ch \<and> sc_rd_buf ch = buf \<and> sorted_wrt (\<lambda>x y. fst x < fst y) todo \<and>
     (case sc_rx_seen ch of None \<Rightarrow> True | Some s \<Rightarrow> list_all (\<lambda>x. s < fst x) todo)"

lemma awaits_step:
  "awaits key ((n, p) # todo) (f @ rest) ch \<Longrightarrow> awaits key todo rest (ch\<lparr>sc_rd_buf := rest, sc_rx_seen := Some n, sc_bad_msgs := k\<rparr>)"
  by (auto simp: awaits_def list_all_iff)

definition partial_frame :: "prims \<Rightarrow> bytes \<Rightarrow> bytes \<Rightarrow> bool" where
  "partial_frame c key q \<longleftrightarrow> q = [] \<or> (\<exists>np f. enc_frame c key np = Some f \<and> strict_prefix q f)"

lemma recv_buffered_stream:
  assumes "lawful c" and "list_all2 (\<lambda>np f. enc_frame c key np = Some f) todo fs"
    and "awaits key (todo @ later) (concat fs @ q) ch" and "partial_frame c key q"
  shows "\<exists>got rest fs' ch' r. recv_buffered c parse ch log = (r, ch', log @ got) \<and> todo = got @ rest \<and>
    list_all2 (\<lambda>np f. enc_frame c key np = Some f) rest fs' \<and> awaits key (rest @ later) (concat fs' @ q) ch' \<and>
    (r = Inr None \<and> rest = [] \<and> decoded parse got = [] \<or> (\<exists>m. r = Inr (Some m) \<and> decoded parse got = [m]))"
  using assms(2,3)
proof (induction todo arbitrary: fs ch log)
  case Nil
  then have fs: "fs = []" and buf: "sc_rd_buf ch = q" by (auto simp: awaits_def)
  have "take_frame ch = Inr None"
  proof (cases "q = []")
    case True
    with buf show ?thesis by (simp add: take_frame_def)
  next
    case False
    with assms(4) buf show ?thesis by (auto simp: partial_frame_def enc_frame_def intro: take_frame_part)
  qed
  with Nil fs show ?case by (intro exI [of _ "[]"]) (auto simp: recv_buffered.simps)
next
  case (Cons np todo)
  obtain n p where np: "np = (n, p)" by (cases np)
  from Cons.prems(1) obtain f fs1 where fs: "fs = f # fs1" and f: "enc_frame c key (n, p) = Some f"
    and rest: "list_all2 (\<lambda>np f. enc_frame c key np = Some f) todo fs1"
    by (auto simp: list_all2_Cons1 np)
  let ?m = "Enc n (b64_enc c (aead_enc c key (ctr_nonce n) [] p))"
  let ?ch1 = "ch\<lparr>sc_rd_buf := concat fs1 @ q\<rparr>"
  have fr: "frame_bytes c ?m = Some f" using f by (simp add: enc_frame_def)
  have buf: "sc_rd_buf ch = f @ (concat fs1 @ q)" using Cons.prems(2) by (simp add: awaits_def fs)
  have tf: "take_frame ch = Inr (Some (msg_enc c ?m, ?ch1))" by (rule take_frame_whole [OF fr buf])
  have op: "open_frame c ?ch1 (msg_enc c ?m) = Payload n p"
    by (rule open_frame_enc [OF assms(1)]) (use Cons.prems(2) in \<open>auto simp: awaits_def np split: option.splits\<close>)
  have aw: "awaits key (todo @ later) (concat fs1 @ q) (ch\<lparr>sc_rd_buf := concat fs1 @ q, sc_rx_seen := Some n, sc_bad_msgs := k\<rparr>)" for k
    using awaits_step [of key n p "todo @ later" f "concat fs1 @ q" ch k] Cons.prems(2) by (simp add: np fs)
  show ?case
  proof (cases "parse p")
    case (Some m)
    let ?ch2 = "?ch1\<lparr>sc_rx_seen := Some n\<rparr>"
    have "recv_buffered c parse ch log = (Inr (Some m), ?ch2, log @ [(n, p)])"
      using tf op Some by (simp add: recv_buffered.simps [of c parse ch])
    moreover have "awaits key (todo @ later) (concat fs1 @ q) ?ch2" using aw [of "sc_bad_msgs ch"] by simp
    ultimately show ?thesis using rest Some
      by (intro exI [of _ "[(n, p)]"] exI [of _ todo] exI [of _ fs1] exI [of _ ?ch2] exI [of _ "Inr (Some m)"]) (simp add: np)
  next
    case None
    let ?ch2 = "ch\<lparr>sc_rd_buf := concat fs1 @ q, sc_rx_seen := Some n, sc_bad_msgs := sc_bad_msgs ch + 1\<rparr>"
    have step: "recv_buffered c parse ch log = recv_buffered c parse ?ch2 (log @ [(n, p)])"
      using tf op None by (simp add: recv_buffered.simps [of c parse ch] Let_def)
    from Cons.IH [OF rest aw [of "sc_bad_msgs ch + 1"], of "log @ [(n, p)]"]
    obtain got more fs' ch' r where r: "recv_buffered c parse ?ch2 (log @ [(n, p)]) = (r, ch', (log @ [(n, p)]) @ got)"
        "todo = got @ more" "list_all2 (\<lambda>np f. enc_frame c key np = Some f) more fs'" "awaits key (more @ later) (concat fs' @ q) ch'"
        "r = Inr None \<and> more = [] \<and> decoded parse got = [] \<or> (\<exists>m. r = Inr (Some m) \<and> decoded parse got = [m])"
      by blast
    with step None show ?thesis
      by (intro exI [of _ "(n, p) # got"] exI [of _ more] exI [of _ fs'] exI [of _ ch'] exI [of _ r]) (simp add: np)
  qed
qed

lemma enc_frame_nonempty: "list_all2 (\<lambda>np f. enc_frame c key np = Some f) todo fs \<Longrightarrow> \<forall>f \<in> set fs. f \<noteq> []"
proof (induction rule: list_all2_induct)
  case (Cons np todo f fs)
  then have "frame_bytes c (Enc (fst np) (b64_enc c (aead_enc c key (ctr_nonce (fst np)) [] (snd np)))) = Some f"
    by (simp add: enc_frame_def)
  from arg_cong [OF frame_bytesE(1) [OF this], of length] have "f \<noteq> []" by auto
  with Cons show ?case by simp
qed simp

lemma stream_position:
  assumes "list_all2 (\<lambda>np f. enc_frame c key np = Some f) todo fs" and "prefix buf (concat fs)"
  obtains todo1 todo2 fs1 fs2 q where "todo = todo1 @ todo2" and "fs = fs1 @ fs2" and "buf = concat fs1 @ q"
    and "list_all2 (\<lambda>np f. enc_frame c key np = Some f) todo1 fs1" and "list_all2 (\<lambda>np f. enc_frame c key np = Some f) todo2 fs2"
    and "partial_frame c key q" and "q = concat fs2 \<longrightarrow> fs2 = []"
proof -
  from split_words [OF assms(2) enc_frame_nonempty [OF assms(1)]]
  obtain fs1 fs2 q where fs: "fs = fs1 @ fs2" "buf = concat fs1 @ q" "q = [] \<or> fs2 \<noteq> [] \<and> strict_prefix q (hd fs2)" by blast
  from assms(1) fs(1) obtain todo1 todo2 where todo: "todo = todo1 @ todo2"
      "list_all2 (\<lambda>np f. enc_frame c key np = Some f) todo1 fs1" "list_all2 (\<lambda>np f. enc_frame c key np = Some f) todo2 fs2"
    by (auto simp: list_all2_append2)
  have part: "partial_frame c key q"
  proof (cases "q = []")
    case False
    with fs(3) obtain f fs2' where "fs2 = f # fs2'" "strict_prefix q f" by (cases fs2) auto
    with todo(3) show ?thesis by (auto simp: partial_frame_def list_all2_Cons2)
  qed (simp add: partial_frame_def)
  have "fs2 = []" if "q = concat fs2"
  proof (rule ccontr)
    assume "fs2 \<noteq> []"
    then obtain f fs2' where f: "fs2 = f # fs2'" by (cases fs2) auto
    with enc_frame_nonempty [OF todo(3)] have "f \<noteq> []" by simp
    with fs(3) f that have "strict_prefix q f" by auto
    with that f show False by (auto dest: prefix_length_less)
  qed
  then have "q = concat fs2 \<longrightarrow> fs2 = []" by blast
  with todo fs part show thesis by (intro that)
qed

lemma recv_timeout_stream:
  assumes "lawful c" and "list_all2 (\<lambda>np f. enc_frame c key np = Some f) todo fs" and "awaits key todo buf ch"
    and "buf @ concat cs = concat fs" and "list_all (\<lambda>b. b \<noteq> []) cs"
  shows "\<exists>got rest fs' cs' buf' ch' r. recv_timeout c parse (map Data cs) ch log = (r, ch', log @ got, map Data cs') \<and>
    todo = got @ rest \<and> list_all2 (\<lambda>np f. enc_frame c key np = Some f) rest fs' \<and> awaits key rest buf' ch' \<and>
    buf' @ concat cs' = concat fs' \<and> list_all (\<lambda>b. b \<noteq> []) cs' \<and>
    (r = Inr None \<and> rest = [] \<and> cs' = [] \<and> decoded parse got = [] \<or> (\<exists>m. r = Inr (Some m) \<and> decoded parse got = [m]))"
  using assms(2-5)
proof (induction cs arbitrary: todo fs buf ch log)
  case Nil
  then have pre: "prefix buf (concat fs)" by simp
  obtain todo1 todo2 fs1 fs2 q where p: "todo = todo1 @ todo2" "fs = fs1 @ fs2" "buf = concat fs1 @ q"
      "list_all2 (\<lambda>np f. enc_frame c key np = Some f) todo1 fs1" "list_all2 (\<lambda>np f. enc_frame c key np = Some f) todo2 fs2"
      "partial_frame c key q" "q = concat fs2 \<longrightarrow> fs2 = []"
    by (rule stream_position [OF Nil(1) pre])
  have "q = concat fs2" using Nil(3) p(2,3) by simp
  with p have e: "fs2 = []" "todo2 = []" "q = []" by auto
  from recv_buffered_stream [OF assms(1) p(4) _ p(6), of "[]" ch parse log] Nil(2) p e
  obtain got rest fs' ch' r where r: "recv_buffered c parse ch log = (r, ch', log @ got)" "todo1 = got @ rest"
      "list_all2 (\<lambda>np f. enc_frame c key np = Some f) rest fs'" "awaits key rest (concat fs') ch'"
      "r = Inr None \<and> rest = [] \<and> decoded parse got = [] \<or> (\<exists>m. r = Inr (Some m) \<and> decoded parse got = [m])"
    by auto
  have "\<not> sc_poisoned ch" using Nil(2) by (simp add: awaits_def)
  with r p e show ?case
    by (intro exI [of _ got] exI [of _ rest] exI [of _ fs'] exI [of _ "[]"] exI [of _ "concat fs'"] exI [of _ ch'] exI [of _ r]) simp
next
  case (Cons b cs)
  then have pre: "prefix buf (concat fs)" by (metis prefixI)
  obtain todo1 todo2 fs1 fs2 q where p: "todo = todo1 @ todo2" "fs = fs1 @ fs2" "buf = concat fs1 @ q"
      "list_all2 (\<lambda>np f. enc_frame c key np = Some f) todo1 fs1" "list_all2 (\<lambda>np f. enc_frame c key np = Some f) todo2 fs2"
      "partial_frame c key q" "q = concat fs2 \<longrightarrow> fs2 = []"
    by (rule stream_position [OF Cons.prems(1) pre])
  have rest: "q @ concat (b # cs) = concat fs2" using Cons.prems(3) p(2,3) by simp
  have aw: "awaits key (todo1 @ todo2) (concat fs1 @ q) ch" using Cons.prems(2) p by simp
  from recv_buffered_stream [OF assms(1) p(4) aw p(6), of parse log]
  obtain got more fs' ch1 r where r: "recv_buffered c parse ch log = (r, ch1, log @ got)" "todo1 = got @ more"
      "list_all2 (\<lambda>np f. enc_frame c key np = Some f) more fs'" "awaits key (more @ todo2) (concat fs' @ q) ch1"
      "r = Inr None \<and> more = [] \<and> decoded parse got = [] \<or> (\<exists>m. r = Inr (Some m) \<and> decoded parse got = [m])"
    by blast
  have poison: "\<not> sc_poisoned ch" using Cons.prems(2) by (simp add: awaits_def)
  from r(5) show ?case
  proof
    assume "\<exists>m. r = Inr (Some m) \<and> decoded parse got = [m]"
    then obtain m where m: "r = Inr (Some m)" "decoded parse got = [m]" by blast
    then have "recv_timeout c parse (map Data (b # cs)) ch log = (Inr (Some m), ch1, log @ got, map Data (b # cs))"
      using r(1) poison by simp
    moreover have "list_all2 (\<lambda>np f. enc_frame c key np = Some f) (more @ todo2) (fs' @ fs2)"
      using r(3) p(5) by (rule list_all2_appendI)
    ultimately show ?thesis using r(2,4) p(1) m rest Cons.prems(4)
      by (intro exI [of _ got] exI [of _ "more @ todo2"] exI [of _ "fs' @ fs2"] exI [of _ "b # cs"]
          exI [of _ "concat fs' @ q"] exI [of _ ch1] exI [of _ "Inr (Some m)"]) simp
  next
    assume n: "r = Inr None \<and> more = [] \<and> decoded parse got = []"
    let ?ch2 = "ch1\<lparr>sc_rd_buf := sc_rd_buf ch1 @ b\<rparr>"
    have fs': "fs' = []" using r(3) n by simp
    have "awaits key todo2 (q @ b) ?ch2" using r(4) n fs' by (auto simp: awaits_def)
    moreover have "(q @ b) @ concat cs = concat fs2" using rest by simp
    moreover have "list_all (\<lambda>b. b \<noteq> []) cs" using Cons.prems(4) by simp
    ultimately obtain got2 rest2 fs'' cs' buf' ch' r' where s:
        "recv_timeout c parse (map Data cs) ?ch2 (log @ got) = (r', ch', (log @ got) @ got2, map Data cs')"
        "todo2 = got2 @ rest2" "list_all2 (\<lambda>np f. enc_frame c key np = Some f) rest2 fs''" "awaits key rest2 buf' ch'"
        "buf' @ concat cs' = concat fs''" "list_all (\<lambda>b. b \<noteq> []) cs'"
        "r' = Inr None \<and> rest2 = [] \<and> cs' = [] \<and> decoded parse got2 = [] \<or> (\<exists>m. r' = Inr (Some m) \<and> decoded parse got2 = [m])"
      using Cons.IH [OF p(5), of "q @ b" ?ch2 "log @ got"] by blast
    have "recv_timeout c parse (map Data (b # cs)) ch log = (r', ch', log @ got @ got2, map Data cs')"
      using r(1) n s(1) poison Cons.prems(4) by simp
    with s n r(2) p(1) show ?thesis
      by (intro exI [of _ "got @ got2"] exI [of _ rest2] exI [of _ fs''] exI [of _ cs'] exI [of _ buf'] exI [of _ ch'] exI [of _ r'])
        simp
  qed
qed

lemma recv_run_stream:
  assumes "lawful c"
  shows "list_all2 (\<lambda>np f. enc_frame c key np = Some f) todo fs \<Longrightarrow> awaits key todo buf ch \<Longrightarrow>
    buf @ concat cs = concat fs \<Longrightarrow> list_all (\<lambda>b. b \<noteq> []) cs \<Longrightarrow> length todo < k \<Longrightarrow>
    \<exists>ch'. recv_run k c parse (map Data cs) ch log = (decoded parse todo, None, ch', log @ todo)"
proof (induction k arbitrary: todo fs buf ch cs log)
  case 0
  then show ?case by simp
next
  case (Suc k)
  from recv_timeout_stream [OF assms Suc.prems(1-4), of parse log]
  obtain got rest fs' cs' buf' ch' r where s:
      "recv_timeout c parse (map Data cs) ch log = (r, ch', log @ got, map Data cs')"
      "todo = got @ rest" "list_all2 (\<lambda>np f. enc_frame c key np = Some f) rest fs'" "awaits key rest buf' ch'"
      "buf' @ concat cs' = concat fs'" "list_all (\<lambda>b. b \<noteq> []) cs'"
      "r = Inr None \<and> rest = [] \<and> cs' = [] \<and> decoded parse got = [] \<or> (\<exists>m. r = Inr (Some m) \<and> decoded parse got = [m])"
    by blast
  from s(7) show ?case
  proof
    assume "r = Inr None \<and> rest = [] \<and> cs' = [] \<and> decoded parse got = []"
    with s(1,2) show ?thesis by simp
  next
    assume "\<exists>m. r = Inr (Some m) \<and> decoded parse got = [m]"
    then obtain m where m: "r = Inr (Some m)" "decoded parse got = [m]" by blast
    then have "got \<noteq> []" by auto
    then have "length rest < k" using s(2) Suc.prems(5) by (cases got) simp_all
    from Suc.IH [OF s(3-6) this, of "log @ got"] obtain ch'' where
        "recv_run k c parse (map Data cs') ch' (log @ got) = (decoded parse rest, None, ch'', (log @ got) @ rest)" by blast
    with s(1,2) m show ?thesis by simp
  qed
qed

section \<open>Sends that succeed\<close>

lemma send_all_ok:
  "send_all c (map (\<lambda>p. (p, True, True)) ps) ch = (map SendOk fs, us, ch') \<Longrightarrow> \<not> sc_poisoned ch \<Longrightarrow>
     list_all2 (\<lambda>np f. enc_frame c (sc_tx_key ch) np = Some f) us fs \<and> map snd us = ps"
proof (induction ps arbitrary: ch fs us)
  case Nil
  then show ?case by simp
next
  case (Cons p ps)
  obtain r ch1 where s: "send_raw_payload c p True True ch = (r, ch1, Some (sc_tx_n ch))" "sc_tx_n ch1 = sc_tx_n ch + 1"
      "sc_poisoned ch1 \<longleftrightarrow> r = WriteFailed" "r \<noteq> Unusable"
      "\<And>bs. r = SendOk bs \<Longrightarrow> frame_bytes c (Enc (sc_tx_n ch) (b64_enc c (aead_enc c (sc_tx_key ch) (ctr_nonce (sc_tx_n ch)) [] p))) = Some bs"
      "sc_tx_key ch1 = sc_tx_key ch"
    using Cons.prems(2) by (rule send_cases) blast
  obtain rs us1 ch2 where t: "send_all c (map (\<lambda>p. (p, True, True)) ps) ch1 = (rs, us1, ch2)"
    by (cases "send_all c (map (\<lambda>p. (p, True, True)) ps) ch1") auto
  with Cons.prems s obtain f fs1 where fs: "fs = f # fs1" "r = SendOk f" "rs = map SendOk fs1" "us = (sc_tx_n ch, p) # us1" "ch2 = ch'"
    by (cases fs) auto
  from Cons.IH [of ch1 fs1 us1] t fs s(3,6)
  have "list_all2 (\<lambda>np f. enc_frame c (sc_tx_key ch) np = Some f) us1 fs1 \<and> map snd us1 = ps" by simp
  with s(5) [OF fs(2)] fs(4,1) show ?case by (simp add: enc_frame_def)
qed

lemma counters_sorted:
  assumes "map fst us = map (\<lambda>i. of_nat i :: u64) [0..<k]" and "k \<le> 2 ^ 64"
  shows "sorted_wrt (\<lambda>x y. fst x < fst y) us"
proof -
  have len: "length us = k" using assms(1) by (metis diff_zero length_map length_upt)
  have "fst (us ! i) = of_nat i" if "i < k" for i
    using arg_cong [OF assms(1), of "\<lambda>l. l ! i"] that len by simp
  then show ?thesis
    using assms(2) len by (simp add: sorted_wrt_iff_nth_less word_less_nat_alt unat_of_nat)
qed

lemma send_all_from_start:
  assumes "send_all c reqs (from_parts k) = (rs, us, ch)" and "length reqs \<le> 2 ^ 64"
  shows "\<exists>n. map fst us = map of_nat [0..<n]" and "sorted_wrt (\<lambda>x y. fst x < fst y) us"
    and "\<exists>m. dropWhile (\<lambda>r. r \<noteq> WriteFailed) rs \<in> {[], WriteFailed # replicate m Unusable}"
proof -
  have new: "\<not> sc_poisoned (from_parts k)" "sc_tx_n (from_parts k) = 0" by (simp_all add: from_parts_def)
  from send_all_counters [OF assms(1)] new obtain n m where n: "n \<le> length reqs" "map fst us = map of_nat [0..<n]"
      "dropWhile (\<lambda>r. r \<noteq> WriteFailed) rs \<in> {[], WriteFailed # replicate m Unusable}"
    by auto
  then show "\<exists>n. map fst us = map of_nat [0..<n]" and
      "\<exists>m. dropWhile (\<lambda>r. r \<noteq> WriteFailed) rs \<in> {[], WriteFailed # replicate m Unusable}" by blast+
  show "sorted_wrt (\<lambda>x y. fst x < fst y) us" by (rule counters_sorted [OF n(2)]) (use n(1) assms(2) in linarith)
qed

lemma decoded_map_filter: "decoded parse us = List.map_filter parse (map snd us)"
  by (induction us) (auto simp: List.map_filter_simps split: option.splits)

section \<open>The preimages\<close>

lemma preimage_r_inj:
  assumes "sig_preimage_r e n i = sig_preimage_r e' n' i'" and "length e = 32" "length e' = 32" "length i = 32" "length i' = 32"
  shows "e = e' \<and> n = n' \<and> i = i'"
proof -
  have "e = e' \<and> n @ i = n' @ i'" using assms by (simp add: sig_preimage_r_def)
  moreover from this assms(4,5) have "n = n' \<and> i = i'" by (metis append_eq_append_conv)
  ultimately show ?thesis by simp
qed

lemma preimage_i_inj:
  "sig_preimage_i e n = sig_preimage_i e' n' \<Longrightarrow> length e = 32 \<Longrightarrow> length e' = 32 \<Longrightarrow> e = e' \<and> n = n'"
  by (simp add: sig_preimage_i_def)

lemma preimage_roles: "sig_preimage_r e n i \<noteq> sig_preimage_i e' n'"
  using labels by (simp add: sig_preimage_r_def sig_preimage_i_def append_eq_append_conv)

lemma sec_fields_Some: "sec_fields c e n s = Some (eph, nonce, sg) \<Longrightarrow> length eph = 32"
  by (auto simp: sec_fields_def arr32_def split: option.splits if_splits bind_splits)

lemma initiator_accepts:
  assumes "fst (establish_initiator c k peer a ni (Some m)) = Inr ch"
  obtains e n s eph_r nonce_r sig_r ss where "m = SecResp e n s" and "sec_fields c e n s = Some (eph_r, nonce_r, sig_r)"
    and "verify c peer (sig_preimage_r eph_r nonce_r (dh_pub c a)) sig_r" and "dh c a eph_r = Some ss"
    and "ch = from_parts (derive_keys c ss ni nonce_r True)"
  using assms that by (cases m) (auto simp: establish_initiator_def Let_def split: option.splits if_splits)

lemma responder_accepts:
  assumes "fst (establish_responder c k peer b nr (Some m)) = Inr ch"
  obtains e n s eph_i nonce_i sig_i ss where "m = SecInit e n s" and "sec_fields c e n s = Some (eph_i, nonce_i, sig_i)"
    and "verify c peer (sig_preimage_i eph_i nonce_i) sig_i" and "dh c b eph_i = Some ss"
    and "ch = from_parts (derive_keys c ss nonce_i nr False)"
  using assms that by (cases m) (auto simp: establish_responder_def Let_def split: option.splits if_splits)

section \<open>A set of primitives to compute with\<close>

text \<open>Not secure, but lawful: the tag is sixteen zeros, a string field is closed by a zero byte.\<close>

fun toy_str :: "string \<Rightarrow> bytes" where
  "toy_str [] = [0]"
| "toy_str (x # xs) = 1 # of_char x # toy_str xs"

fun toy_unstr :: "bytes \<Rightarrow> (string \<times> bytes) option" where
  "toy_unstr (b # x # bs) = (if b = 0 then Some ([], x # bs)
     else case toy_unstr bs of None \<Rightarrow> None | Some (s, r) \<Rightarrow> Some (char_of (unat x) # s, r))"
| "toy_unstr [b] = Some ([], [])"
| "toy_unstr [] = None"

definition toy_three :: "(string \<Rightarrow> string \<Rightarrow> string \<Rightarrow> control_msg) \<Rightarrow> bytes \<Rightarrow> control_msg option" where
  "toy_three f bs =
     (case toy_unstr bs of None \<Rightarrow> None | Some (x, bs) \<Rightarrow>
       (case toy_unstr bs of None \<Rightarrow> None | Some (y, bs) \<Rightarrow>
         (case toy_unstr bs of None \<Rightarrow> None | Some (z, bs) \<Rightarrow> Some (f x y z))))"

fun toy_msg :: "control_msg \<Rightarrow> bytes" where
  "toy_msg (Enc n d) = 0 # le_bytes 8 n @ toy_str d"
| "toy_msg (SecInit x y z) = 1 # toy_str x @ toy_str y @ toy_str z"
| "toy_msg (SecResp x y z) = 2 # toy_str x @ toy_str y @ toy_str z"
| "toy_msg _ = [3]"

fun toy_unmsg :: "bytes \<Rightarrow> control_msg option" where
  "toy_unmsg [] = None"
| "toy_unmsg (b # bs) =
     (if b = 0 then map_option (\<lambda>(d, _). Enc (of_le (take 8 bs)) d) (toy_unstr (drop 8 bs))
      else if b = 1 then toy_three SecInit bs
      else if b = 2 then toy_three SecResp bs
      else Some (OkMsg))"

definition toy :: prims where
  "toy = \<lparr>aead_enc = \<lambda>k n a p. p @ replicate 16 0,
     aead_dec = \<lambda>k n a x. if 16 \<le> length x \<and> drop (length x - 16) x = replicate 16 0 then Some (take (length x - 16) x) else None,
     hkdf = \<lambda>salt ikm info. info @ ikm, dh_pub = \<lambda>x. take 32 (x @ replicate 32 0), dh = \<lambda>x y. Some [],
     sign = \<lambda>k m. [], verify = \<lambda>p m s. True, pub_of = \<lambda>k. [],
     b64_enc = map (\<lambda>b. char_of (unat b)), b64_dec = \<lambda>s. Some (map of_char s), msg_enc = toy_msg, msg_dec = toy_unmsg\<rparr>"

lemma of_char_word: "(of_char c :: u8) = of_nat (of_char c)"
  by (cases c) (simp add: of_char_def)

lemma byte_char [simp]: "of_char (char_of (unat (b :: u8))) = b"
proof -
  have "unat b < 256" using unsigned_less [of b] by simp
  then show ?thesis by (simp add: of_char_word)
qed

lemma char_byte [simp]: "char_of (unat (of_char x :: u8)) = (x :: char)"
proof -
  have "(of_char x :: nat) < 256" by (cases x) (simp add: of_char_def)
  then show ?thesis by (simp add: of_char_word unat_of_nat)
qed

lemma toy_unstr_str [simp]: "toy_unstr (toy_str s @ r) = Some (s, r)"
proof (induction s)
  case Nil
  then show ?case by (cases r) simp_all
qed simp

lemma toy_unstr_str0 [simp]: "toy_unstr (toy_str s) = Some (s, [])"
  using toy_unstr_str [of s "[]"] by simp

lemma toy_lawful: "lawful toy"
proof -
  have "(if 16 \<le> length x \<and> drop (length x - 16) x = replicate 16 (0 :: u8) then Some (take (length x - 16) x) else None) = Some q
      \<longleftrightarrow> x = q @ replicate 16 0" for x q :: bytes
  proof
    assume "(if 16 \<le> length x \<and> drop (length x - 16) x = replicate 16 (0 :: u8) then Some (take (length x - 16) x) else None) = Some q"
    then have "drop (length x - 16) x = replicate 16 0" "take (length x - 16) x = q" by (simp_all split: if_splits)
    then show "x = q @ replicate 16 0" by (metis append_take_drop_id)
  qed simp
  then show ?thesis
    by (auto simp: lawful_def toy_def AEAD_TAG_LEN_def toy_three_def comp_def)
qed

lemma length_toy_str [simp]: "length (toy_str s) = 2 * length s + 1"
  by (induction s) simp_all

lemma toy_frame: "frame_bytes toy (Enc n (b64_enc toy (aead_enc toy k a [] p))) =
    (if length p \<le> 32000 then Some (le_bytes 4 (of_nat (42 + 2 * length p) :: u32) @
       toy_msg (Enc n (map (\<lambda>b. char_of (unat b)) (p @ replicate 16 0)))) else
     frame_bytes toy (Enc n (b64_enc toy (aead_enc toy k a [] p))))"
  by (simp add: frame_bytes_def toy_def CONTROL_MAX_FRAME_def)

lemma toy_frame_Some: "length p \<le> 32000 \<Longrightarrow> \<exists>f. frame_bytes toy (Enc n (b64_enc toy (aead_enc toy k a [] p))) = Some f"
  by (subst toy_frame) simp

section \<open>Properties\<close>

text \<open>
  C28. No nonce is used twice under a channel key: whatever is sent and however encryption and writing
  fail, the counters given to the cipher are 0, 1, 2 and so on without repetition, their nonces
  differ, and after the first failed write nothing is encrypted any more. Holds for the 2^64
  messages for which the counter does not wrap.
\<close>

theorem nonces_never_repeat:
  assumes "send_all c reqs (from_parts k) = (rs, us, ch)" and "length reqs \<le> 2 ^ 64"
  shows "map fst us = map of_nat [0..<length us] \<and> distinct (map (\<lambda>(n, p). ctr_nonce n) us) \<and>
    (\<exists>m. dropWhile (\<lambda>r. r \<noteq> WriteFailed) rs \<in> {[], WriteFailed # replicate m Unusable})"
proof -
  obtain n where n: "map fst us = map of_nat [0..<n]" using send_all_from_start(1) [OF assms] by blast
  then have "length us = n" by (metis diff_zero length_map length_upt)
  with n have counters: "map fst us = map of_nat [0..<length us]" by simp
  have "sorted_wrt (<) (map fst us)" using send_all_from_start(2) [OF assms] by (simp add: sorted_wrt_map)
  then have "distinct (map fst us)" by (simp add: strict_sorted_iff)
  then have "distinct (map (\<lambda>(n, p). ctr_nonce n) us)"
    by (simp add: distinct_map inj_on_def split_beta)
  with counters send_all_from_start(3) [OF assms] show ?thesis by blast
qed

theorem nonces_never_repeat_witness:
  "map fst (fst (snd (send_all toy [([1], True, True), ([2], False, True), ([3], True, False), ([4], True, True)]
     (from_parts \<lparr>dk_c_tx = [], dk_c_rx = [], dk_media = \<lparr>mk_tx = [], mk_rx = []\<rparr>\<rparr>)))) = [0, 1, 2]"
proof -
  let ?k = "\<lparr>dk_c_tx = [], dk_c_rx = [], dk_media = \<lparr>mk_tx = [], mk_rx = []\<rparr>\<rparr>"
  let ?reqs = "[([1], True, True), ([2], False, True), ([3], True, False), ([4], True, True)] :: (bytes \<times> bool \<times> bool) list"
  obtain f g where f: "frame_bytes toy (Enc 0 (b64_enc toy (aead_enc toy [] (ctr_nonce 0) [] [1]))) = Some f"
      "frame_bytes toy (Enc 2 (b64_enc toy (aead_enc toy [] (ctr_nonce 2) [] [3]))) = Some g"
    using toy_frame_Some [of "[1]"] toy_frame_Some [of "[3]"] by fastforce
  then have s: "send_all toy ?reqs (from_parts ?k) =
      ([SendOk f, EncryptFailed, WriteFailed, Unusable], [(0, [1]), (1, [2]), (2, [3])],
       (from_parts ?k)\<lparr>sc_tx_n := 3, sc_poisoned := True\<rparr>)"
    by (simp add: send_raw_payload_def from_parts_def Let_def)
  from nonces_never_repeat [OF s] show ?thesis unfolding s by simp
qed



text \<open>
  On an undisturbed connection everything arrives: if every payload was sent successfully, then
  however the stream of frames is cut into reads, the receiver with the matching key accepts all
  of them in order, hands up exactly the decodable ones, and reports no error.
\<close>

theorem channel_delivers_in_order:
  assumes "lawful c" and "send_all c (map (\<lambda>p. (p, True, True)) ps) (from_parts kS) = (map SendOk fs, us, chS)"
    and "length ps \<le> 2 ^ 64" and "dk_c_rx kR = dk_c_tx kS"
    and "concat cs = concat fs" and "list_all (\<lambda>b. b \<noteq> []) cs"
  shows "\<exists>ch. recv_run (length ps + 1) c parse (map Data cs) (from_parts kR) [] =
    (List.map_filter parse ps, None, ch, us)"
proof -
  have new: "\<not> sc_poisoned (from_parts kS)" "sc_tx_key (from_parts kS) = dk_c_tx kS" by (simp_all add: from_parts_def)
  from send_all_ok [OF assms(2) new(1)] new(2)
  have frames: "list_all2 (\<lambda>np f. enc_frame c (dk_c_tx kS) np = Some f) us fs" and ps: "map snd us = ps" by simp_all
  have "sorted_wrt (\<lambda>x y. fst x < fst y) us" by (rule send_all_from_start(2) [OF assms(2)]) (use assms(3) in simp)
  then have "awaits (dk_c_tx kS) us [] (from_parts kR)" by (simp add: awaits_def from_parts_def assms(4))
  moreover have "length us < length ps + 1" using ps by auto
  ultimately obtain ch where "recv_run (length ps + 1) c parse (map Data cs) (from_parts kR) [] = (decoded parse us, None, ch, [] @ us)"
    using recv_run_stream [OF assms(1) frames, of "[]" "from_parts kR" cs "length ps + 1" parse "[]"] assms(5,6) by auto
  then show ?thesis using decoded_map_filter [of parse us] ps by simp
qed

theorem channel_delivers_in_order_witness:
  "\<exists>fs ch. length fs = 2 \<and> recv_run 3 toy (\<lambda>p. if p = [5] then Some p else None) [Data (concat fs)]
     (from_parts \<lparr>dk_c_tx = [], dk_c_rx = [], dk_media = \<lparr>mk_tx = [], mk_rx = []\<rparr>\<rparr>) [] = ([[5]], None, ch, [(0, [5]), (1, [6])])"
proof -
  let ?k = "\<lparr>dk_c_tx = [], dk_c_rx = [], dk_media = \<lparr>mk_tx = [], mk_rx = []\<rparr>\<rparr>"
  obtain f g where fb: "frame_bytes toy (Enc 0 (b64_enc toy (aead_enc toy [] (ctr_nonce 0) [] [5]))) = Some f"
      "frame_bytes toy (Enc 1 (b64_enc toy (aead_enc toy [] (ctr_nonce 1) [] [6]))) = Some g"
    using toy_frame_Some [of "[5]"] toy_frame_Some [of "[6]"] by fastforce
  have ne: "f @ g \<noteq> []" using frame_bytesE(1) [OF fb(1)] by (auto dest: arg_cong [of _ _ length])
  have "send_all toy (map (\<lambda>p. (p, True, True)) [[5], [6]]) (from_parts ?k) =
      (map SendOk [f, g], [(0, [5]), (1, [6])], (from_parts ?k)\<lparr>sc_tx_n := 2\<rparr>)"
    using fb by (simp add: send_raw_payload_def from_parts_def Let_def)
  note delivered = channel_delivers_in_order [OF toy_lawful this, where kR = ?k and cs = "[f @ g]"
      and parse = "\<lambda>p. if p = [5] then Some p else None"]
  have three: "length [[5], [6] :: bytes] + 1 = 3" by simp
  from delivered obtain ch where "recv_run (length [[5], [6] :: bytes] + 1) toy (\<lambda>p. if p = [5] then Some p else None) (map Data [f @ g]) (from_parts ?k) [] =
      (List.map_filter (\<lambda>p. if p = [5] then Some p else None) [[5], [6]], None, ch, [(0, [5]), (1, [6])])"
    using ne by auto
  then have "recv_run 3 toy (\<lambda>p. if p = [5] then Some p else None) [Data (concat [f, g])] (from_parts ?k) [] =
      ([[5]], None, ch, [(0, [5]), (1, [6])])"
    unfolding three by (simp del: recv_run.simps recv_timeout.simps add: List.map_filter_simps)
  then show ?thesis by (intro exI [of _ "[f, g]"] exI [of _ ch]) simp
qed

text \<open>
  The handshake gives both sides the same keys: when the two ends exchange their messages
  unchanged and the shared secret is not degenerate, both succeed; what one encrypts with the
  other decrypts with, on the control channel and for media, in both directions.
\<close>

theorem handshake_agrees:
  assumes "lawful c" and "dh c x (dh_pub c y) = Some ss"
  shows "\<exists>reply chR chI.
    establish_responder c key_r (pub_of c key_i) y nonce_r (Some (sec_init c key_i x nonce_i)) = (Inr chR, [reply]) \<and>
    establish_initiator c key_i (pub_of c key_r) x nonce_i (Some reply) = (Inr chI, [sec_init c key_i x nonce_i]) \<and>
    sc_tx_key chI = sc_rx_key chR \<and> sc_rx_key chI = sc_tx_key chR \<and>
    mk_tx (sc_media chI) = mk_rx (sc_media chR) \<and> mk_rx (sc_media chI) = mk_tx (sc_media chR) \<and>
    sc_tx_n chI = 0 \<and> sc_rx_seen chI = None \<and> sc_tx_n chR = 0 \<and> sc_rx_seen chR = None"
proof -
  note l = lawfulD [OF assms(1)]
  have fields: "sec_fields c (b64_enc c (dh_pub c z)) (b64_enc c n) (b64_enc c s) = Some (dh_pub c z, n, s)" for z n s
    by (simp add: sec_fields_def arr32_def l(4,6))
  have ss: "dh c y (dh_pub c x) = Some ss" using assms(2) l(3) [of x y] by simp
  let ?reply = "SecResp (b64_enc c (dh_pub c y)) (b64_enc c nonce_r)
      (b64_enc c (sign c key_r (sig_preimage_r (dh_pub c y) nonce_r (dh_pub c x))))"
  have r: "establish_responder c key_r (pub_of c key_i) y nonce_r (Some (sec_init c key_i x nonce_i)) =
      (Inr (from_parts (derive_keys c ss nonce_i nonce_r False)), [?reply])"
    by (simp add: establish_responder_def sec_init_def fields l(5) ss Let_def)
  have i: "establish_initiator c key_i (pub_of c key_r) x nonce_i (Some ?reply) =
      (Inr (from_parts (derive_keys c ss nonce_i nonce_r True)), [sec_init c key_i x nonce_i])"
    by (simp add: establish_initiator_def fields l(5) assms(2) Let_def)
  show ?thesis
    by (rule exI [of _ ?reply], rule exI [of _ "from_parts (derive_keys c ss nonce_i nonce_r False)"],
        rule exI [of _ "from_parts (derive_keys c ss nonce_i nonce_r True)"])
      (use r i in \<open>simp add: from_parts_def derive_keys_def Let_def\<close>)
qed

theorem handshake_agrees_witness:
  "\<exists>chR reply. establish_responder toy [1] [] [2] [3] (Some (sec_init toy [4] [5] [6])) = (Inr chR, [reply])"
proof -
  have d: "dh toy [5] (dh_pub toy [2]) = Some []" and p: "pub_of toy [4] = []" by (simp_all add: toy_def)
  from handshake_agrees [OF toy_lawful d, of "[1]" "[4]" "[3]" "[6]"] p show ?thesis by metis
qed



definition sample_header :: header where
  "sample_header = \<lparr>h_kind = Media, h_codec = PcmS16le, h_channels = 1, h_sample_rate = 48000, h_session_id = 1,
     h_stream_id = 2, h_seq = 3, h_timestamp_us = 4, h_payload_len = 17\<rparr>"

text \<open>
  A media datagram opens exactly if it was sealed: the receiver returns a header and payload if and
  only if the datagram is the sealing of that payload under that header, with the length field
  that sealing writes; every bit of the header is authenticated, and two datagrams of one stream
  key share a nonce only if they have the same stream and sequence number.
\<close>

theorem datagram_opens_iff_sealed:
  assumes "lawful c" and "length d < 2 ^ 32"
  shows "(open_datagram c key d = Inr (h, p) \<longleftrightarrow>
      d = seal c key h p \<and> h_payload_len h = of_nat (length p + AEAD_TAG_LEN)) \<and>
    (media_nonce (h_stream_id h) (h_seq h) = media_nonce sid sq \<longleftrightarrow> h_stream_id h = sid \<and> h_seq h = sq)"
proof -
  note l = lawfulD [OF assms(1)]
  let ?n = "media_nonce (h_stream_id h) (h_seq h)" and ?aad = "header_encode h []"
  have aad: "take HEADER_LEN (header_encode h ct) = ?aad" and msg: "drop HEADER_LEN (header_encode h ct) = ct" for ct
    by (simp_all add: header_encode_split [of h ct])
  have seal_eq: "seal c key h p = ?aad @ aead_enc c key ?n ?aad p" if "h_payload_len h = of_nat (length p + AEAD_TAG_LEN)"
  proof -
    have "h\<lparr>h_payload_len := of_nat (length p + AEAD_TAG_LEN)\<rparr> = h" using that by simp
    then show ?thesis by (simp add: seal_def Let_def aad msg)
  qed
  have "open_datagram c key d = Inr (h, p) \<longleftrightarrow>
      (\<exists>ct. header_parse d = Inr (h, ct) \<and> aead_dec c key ?n (take HEADER_LEN d) ct = Some p)"
    by (auto simp: open_datagram_def split: sum.splits option.splits)
  also have "\<dots> \<longleftrightarrow> (\<exists>ct. d = header_encode h ct \<and> unat (h_payload_len h) = length ct \<and> ct = aead_enc c key ?n ?aad p)"
    unfolding header_parse_exact l(1) using aad by metis
  also have "\<dots> \<longleftrightarrow> d = ?aad @ aead_enc c key ?n ?aad p \<and> unat (h_payload_len h) = length p + AEAD_TAG_LEN"
    using header_encode_split [of h "aead_enc c key ?n ?aad p"] by (auto simp: l(2))
  also have "\<dots> \<longleftrightarrow> d = seal c key h p \<and> h_payload_len h = of_nat (length p + AEAD_TAG_LEN)"
  proof (cases "d = ?aad @ aead_enc c key ?n ?aad p")
    case True
    then have "length p + AEAD_TAG_LEN < 2 ^ 32" using assms(2) by (simp add: l(2))
    then have "unat (of_nat (length p + AEAD_TAG_LEN) :: u32) = length p + AEAD_TAG_LEN" by (simp add: unat_of_nat del: of_nat_add)
    then have "unat (h_payload_len h) = length p + AEAD_TAG_LEN \<longleftrightarrow> h_payload_len h = of_nat (length p + AEAD_TAG_LEN)"
      by (metis word_unat_eq_iff)
    with True seal_eq show ?thesis by auto
  next
    case False
    with seal_eq show ?thesis by auto
  qed
  finally show ?thesis by simp
qed

theorem datagram_opens_iff_sealed_witness:
  "open_datagram toy [] (seal toy [] sample_header [9]) = Inr (sample_header, [9])"
proof -
  have "length (seal toy [] sample_header [9]) < 2 ^ 32"
    by (simp add: seal_def lawfulD(2) [OF toy_lawful] AEAD_TAG_LEN_def HEADER_LEN_def Let_def)
  from datagram_opens_iff_sealed [OF toy_lawful this] show ?thesis
    by (simp add: sample_header_def AEAD_TAG_LEN_def)
qed

section \<open>Frames of the handshake\<close>

lemma read_frame_written:
  assumes "frame_bytes c m = Some f" and "msg_dec c (msg_enc c m) = Some m"
  shows "read_frame c (f @ rest) = Inr (m, rest)"
  using frame_bytesE [OF assms(1)] assms(2)
  by (simp add: read_frame_def byte_slice_append_right byte_slice_prefix Let_def)

text \<open>A media salt that a peer supplies has exactly the length the key schedule expects.\<close>

definition decode_media_salt :: "prims \<Rightarrow> string \<Rightarrow> bytes option" where
  "decode_media_salt c s = Option.bind (b64_dec c s) (\<lambda>raw. if length raw = MEDIA_SALT_LEN then Some raw else None)"

lemma decode_media_salt_length: "decode_media_salt c s = Some salt \<Longrightarrow> length salt = MEDIA_SALT_LEN"
  by (auto simp: decode_media_salt_def split: bind_splits if_splits)

end
