(* ===== verification/Pairing.thy ===== *)
theory Pairing
  imports Secure Identity
begin

text \<open>
  Pairing by PIN and the verification of a paired peer (core/audiohub-net/src/pairing.rs), the
  pairing window, the first-bytes dispatch and the reaction to a refusal of the connection code
  (core/audiohubd/src/conn.rs). A side of a handshake is a function of the frames that reach it; what
  it writes, what it signs and whether it armed a deadline before reading are part of its state.
  SPAKE2 and HMAC are libraries: they are fields of the record \<open>pair_prims\<close>. The random scalar, the
  nonces and the time are arguments.
\<close>

section \<open>The transport of one handshake\<close>

record pair_prims = id_prims +
  pr_hmac :: "bytes \<Rightarrow> bytes \<Rightarrow> bytes"
  pr_spake_msg :: "bool \<Rightarrow> bytes \<Rightarrow> bytes \<Rightarrow> bytes"
  pr_spake_finish :: "bool \<Rightarrow> bytes \<Rightarrow> bytes \<Rightarrow> bytes \<Rightarrow> bytes option"

datatype hs_error =
    Hung
  | HsRead
  | HsWrite
  | HsArm
  | HsBase64
  | HsKeyLength
  | HsRefused string
  | HsUnexpected
  | HsSpake
  | PinMismatch
  | SignatureFailed
  | UnknownPeer
  | UnsignedRefusal
  | StrangerRefusal string
  | ForgedRefusal string
  | UnpairedByPeer string
  | SelfConnection string
  | ProtocolMismatch u32
  | StoreFailed
  | WrongPeer string

text \<open>
  \<open>hs_inbox\<close> holds the frames that will arrive, None for one that cannot be read or parsed;
  \<open>hs_writes\<close> the outcomes of the next writes, all later ones succeed. With nothing left to arrive a
  read fails at its deadline; without one it does not return.
\<close>

record hs =
  hs_inbox :: "control_msg option list"
  hs_writes :: "bool list"
  hs_arm_ok :: bool
  hs_deadline :: bool
  hs_out :: "control_msg list"
  hs_signed :: "bytes list"

definition hs_new :: "bool \<Rightarrow> control_msg list \<Rightarrow> hs" where
  "hs_new armed ms = \<lparr>hs_inbox = map Some ms, hs_writes = [], hs_arm_ok = True, hs_deadline = armed, hs_out = [], hs_signed = []\<rparr>"

type_synonym 'a hsm = "hs \<Rightarrow> (hs_error + 'a) \<times> hs"

definition hs_return :: "'a \<Rightarrow> 'a hsm" where
  "hs_return x s = (Inr x, s)"

definition hs_fail :: "hs_error \<Rightarrow> 'a hsm" where
  "hs_fail e s = (Inl e, s)"

definition hs_bind :: "'a hsm \<Rightarrow> ('a \<Rightarrow> 'b hsm) \<Rightarrow> 'b hsm" where
  "hs_bind m f s = (case m s of (Inl e, t) \<Rightarrow> (Inl e, t) | (Inr x, t) \<Rightarrow> f x t)"

definition hs_seq :: "'a hsm \<Rightarrow> 'b hsm \<Rightarrow> 'b hsm" where
  "hs_seq m n = hs_bind m (\<lambda>_. n)"

definition hs_lift :: "hs_error + 'a \<Rightarrow> 'a hsm" where
  "hs_lift r s = (r, s)"

definition hs_recv :: "control_msg hsm" where
  "hs_recv s =
     (case hs_inbox s of
        [] \<Rightarrow> (Inl (if hs_deadline s then HsRead else Hung), s)
      | None # xs \<Rightarrow> (Inl HsRead, s\<lparr>hs_inbox := xs\<rparr>)
      | Some m # xs \<Rightarrow> (Inr m, s\<lparr>hs_inbox := xs\<rparr>))"

definition hs_send :: "control_msg \<Rightarrow> unit hsm" where
  "hs_send m s =
     (case hs_writes s of
        False # ws \<Rightarrow> (Inl HsWrite, s\<lparr>hs_writes := ws\<rparr>)
      | ws \<Rightarrow> (Inr (), s\<lparr>hs_writes := tl ws, hs_out := hs_out s @ [m]\<rparr>))"

definition hs_send_ignored :: "control_msg \<Rightarrow> unit hsm" where
  "hs_send_ignored m s = (Inr (), snd (hs_send m s))"

definition hs_arm :: "unit hsm" where
  "hs_arm s = (if hs_arm_ok s then (Inr (), s\<lparr>hs_deadline := True\<rparr>) else (Inl HsArm, s))"

definition hs_sign :: "'a id_prims_scheme \<Rightarrow> local_identity \<Rightarrow> bytes \<Rightarrow> bytes hsm" where
  "hs_sign p i m s = (Inr (id_sign p i m), s\<lparr>hs_signed := hs_signed s @ [m]\<rparr>)"

definition b64d :: "'a id_prims_scheme \<Rightarrow> string \<Rightarrow> hs_error + bytes" where
  "b64d p s = (case ip_b64_dec p s of None \<Rightarrow> Inl HsBase64 | Some b \<Rightarrow> Inr b)"

definition pub_arr :: "'a id_prims_scheme \<Rightarrow> string \<Rightarrow> hs_error + bytes" where
  "pub_arr p s = (case b64d p s of Inl e \<Rightarrow> Inl e | Inr b \<Rightarrow> if length b = 32 then Inr b else Inl HsKeyLength)"

definition str_bytes :: "string \<Rightarrow> bytes" where
  "str_bytes s = map of_char s"

section \<open>Pairing\<close>

definition CONFIRM_LABEL_A :: bytes where
  "CONFIRM_LABEL_A = str_bytes ''audiohub-confirm-A''"

definition CONFIRM_LABEL_B :: bytes where
  "CONFIRM_LABEL_B = str_bytes ''audiohub-confirm-B''"

definition confirm_mac :: "'a pair_prims_scheme \<Rightarrow> bytes \<Rightarrow> bytes \<Rightarrow> bytes \<Rightarrow> bytes \<Rightarrow> bytes \<Rightarrow> bytes" where
  "confirm_mac p k label spake_a spake_b pub_sender =
     pr_hmac p k (label @ ip_sha256 p (spake_a @ spake_b @ pub_sender))"

definition confirm_mac_ok :: "'a pair_prims_scheme \<Rightarrow> bytes \<Rightarrow> bytes \<Rightarrow> bytes \<Rightarrow> bytes \<Rightarrow> bytes \<Rightarrow> bytes \<Rightarrow> bool" where
  "confirm_mac_ok p k label spake_a spake_b pub_sender mac \<longleftrightarrow>
     mac = confirm_mac p k label spake_a spake_b pub_sender"

definition new_peer :: "'a id_prims_scheme \<Rightarrow> string \<Rightarrow> bytes \<Rightarrow> string \<Rightarrow> u16 \<Rightarrow> u64 \<Rightarrow> paired_peer" where
  "new_peer p name pub pub_b64 port now =
     \<lparr>pp_name = name, pp_fingerprint = fingerprint_of p pub, pp_public_key_b64 = pub_b64, pp_last_addr = None,
      pp_port = port, pp_added_unix = now, pp_alias = None\<rparr>"

fun expect_pair_resp :: "'a id_prims_scheme \<Rightarrow> control_msg \<Rightarrow> hs_error + bytes \<times> string" where
  "expect_pair_resp p (PairResp sp name) = map_sum id (\<lambda>b. (b, name)) (b64d p sp)"
| "expect_pair_resp p (ErrorMsg t) = Inl (HsRefused t)"
| "expect_pair_resp p _ = Inl HsUnexpected"

fun expect_confirm_b :: "'a id_prims_scheme \<Rightarrow> control_msg \<Rightarrow> hs_error + bytes \<times> string" where
  "expect_confirm_b p (PairConfirmB mac pub) = map_sum id (\<lambda>m. (m, pub)) (b64d p mac)"
| "expect_confirm_b p (ErrorMsg t) = Inl (HsRefused t)"
| "expect_confirm_b p _ = Inl HsUnexpected"

fun expect_ok :: "control_msg \<Rightarrow> hs_error + unit" where
  "expect_ok OkMsg = Inr ()"
| "expect_ok (ErrorMsg t) = Inl (HsRefused t)"
| "expect_ok _ = Inl HsUnexpected"

definition pair_initiator :: "'a pair_prims_scheme \<Rightarrow> string \<Rightarrow> local_identity \<Rightarrow> u16 \<Rightarrow> u16 \<Rightarrow> bytes \<Rightarrow> u64 \<Rightarrow> paired_peer hsm" where
  "pair_initiator p pin i my_listen_port target_port scalar now =
     (let msg_a = pr_spake_msg p True (str_bytes pin) scalar in
      hs_seq (hs_send (PairInit (ip_b64_enc p msg_a) (li_name i) my_listen_port))
     (hs_bind hs_recv (\<lambda>r1.
      hs_bind (hs_lift (expect_pair_resp p r1)) (\<lambda>(msg_b, peer_name).
      case pr_spake_finish p True (str_bytes pin) scalar msg_b of
        None \<Rightarrow> hs_fail HsSpake
      | Some k \<Rightarrow>
          let mac_a = confirm_mac p k CONFIRM_LABEL_A msg_a msg_b (id_public_key_bytes p i) in
          hs_seq (hs_send (PairConfirmA (ip_b64_enc p mac_a) (id_public_key_b64 p i)))
         (hs_bind hs_recv (\<lambda>r2.
          hs_bind (hs_lift (expect_confirm_b p r2)) (\<lambda>(mac_b, pub_b_b64).
          hs_bind (hs_lift (pub_arr p pub_b_b64)) (\<lambda>pub_b.
          if \<not> confirm_mac_ok p k CONFIRM_LABEL_B msg_a msg_b pub_b mac_b
          then hs_seq (hs_send_ignored (ErrorMsg ''pin mismatch'')) (hs_fail PinMismatch)
          else
            hs_bind hs_recv (\<lambda>r3.
            hs_seq (hs_lift (expect_ok r3))
              (hs_return (new_peer p peer_name pub_b pub_b_b64 target_port now)))))))))))"

fun expect_pair_init :: "'a id_prims_scheme \<Rightarrow> control_msg \<Rightarrow> hs_error + bytes \<times> string \<times> u16" where
  "expect_pair_init p (PairInit sp name port) = map_sum id (\<lambda>b. (b, name, port)) (b64d p sp)"
| "expect_pair_init p (ErrorMsg t) = Inl (HsRefused t)"
| "expect_pair_init p _ = Inl HsUnexpected"

fun expect_confirm_a :: "'a id_prims_scheme \<Rightarrow> control_msg \<Rightarrow> hs_error + bytes \<times> string" where
  "expect_confirm_a p (PairConfirmA mac pub) = map_sum id (\<lambda>m. (m, pub)) (b64d p mac)"
| "expect_confirm_a p (ErrorMsg t) = Inl (HsRefused t)"
| "expect_confirm_a p _ = Inl HsUnexpected"

definition pair_responder :: "'a pair_prims_scheme \<Rightarrow> string \<Rightarrow> local_identity \<Rightarrow> bytes \<Rightarrow> u64 \<Rightarrow> paired_peer hsm" where
  "pair_responder p pin i scalar now =
     hs_bind hs_recv (\<lambda>r1.
     hs_bind (hs_lift (expect_pair_init p r1)) (\<lambda>(msg_a, peer_name, listen_port).
     let msg_b = pr_spake_msg p False (str_bytes pin) scalar in
     hs_seq (hs_send (PairResp (ip_b64_enc p msg_b) (li_name i)))
    (case pr_spake_finish p False (str_bytes pin) scalar msg_a of
       None \<Rightarrow> hs_fail HsSpake
     | Some k \<Rightarrow>
         hs_bind hs_recv (\<lambda>r2.
         hs_bind (hs_lift (expect_confirm_a p r2)) (\<lambda>(mac_a, pub_a_b64).
         hs_bind (hs_lift (pub_arr p pub_a_b64)) (\<lambda>pub_a.
         if \<not> confirm_mac_ok p k CONFIRM_LABEL_A msg_a msg_b pub_a mac_a
         then hs_seq (hs_send_ignored (ErrorMsg ''pin mismatch'')) (hs_fail PinMismatch)
         else
           let mac_b = confirm_mac p k CONFIRM_LABEL_B msg_a msg_b (id_public_key_bytes p i) in
           hs_seq (hs_send (PairConfirmB (ip_b64_enc p mac_b) (id_public_key_b64 p i)))
             (hs_return (new_peer p peer_name pub_a pub_a_b64 listen_port now))))))))"

section \<open>Verification of a paired peer\<close>

definition VERIFY_LABEL :: bytes where
  "VERIFY_LABEL = str_bytes ''audiohub-verify''"

definition UNPAIRED_LABEL :: bytes where
  "UNPAIRED_LABEL = str_bytes ''audiohub-unpaired''"

definition PROTOCOL_VERSION :: u32 where
  "PROTOCOL_VERSION = 5"

definition VERSION_ABSENT :: u32 where
  "VERSION_ABSENT = 0"

definition verify_preimage :: "bytes \<Rightarrow> string \<Rightarrow> string \<Rightarrow> bytes" where
  "verify_preimage nonce fp_first fp_second = VERIFY_LABEL @ nonce @ str_bytes fp_first @ str_bytes fp_second"

definition unpaired_preimage :: "bytes \<Rightarrow> string \<Rightarrow> string \<Rightarrow> bytes" where
  "unpaired_preimage nonce_i fp_responder fp_initiator =
     UNPAIRED_LABEL @ nonce_i @ str_bytes fp_responder @ str_bytes fp_initiator"

definition check_protocol :: "u32 \<Rightarrow> hs_error + unit" where
  "check_protocol theirs = (if theirs = PROTOCOL_VERSION then Inr () else Inl (ProtocolMismatch theirs))"

definition mismatch_text :: "u32 \<Rightarrow> string" where
  "mismatch_text theirs =
     (let ours = show_nat (unat PROTOCOL_VERSION) in
      if theirs = VERSION_ABSENT
      then ''the peer speaks a control protocol from before mode advertisement existed (we speak v'' @ ours @
           ''); both machines have to run this build''
      else ''control protocol mismatch: we speak v'' @ ours @ '', the peer speaks v'' @ show_nat (unat theirs) @
           ''; both machines have to run the same build'')"

definition authenticate_unpaired :: "'a id_prims_scheme \<Rightarrow> string \<Rightarrow> string \<Rightarrow> bytes \<Rightarrow> local_identity \<Rightarrow> peer_store \<Rightarrow> hs_error + string" where
  "authenticate_unpaired p sig_b64 public_key_b64 nonce_i i store =
     (if sig_b64 = [] \<or> public_key_b64 = [] then Inl UnsignedRefusal
      else case pub_arr p public_key_b64 of
        Inl e \<Rightarrow> Inl e
      | Inr pk \<Rightarrow>
          let fp_r = fingerprint_of p pk in
          if fp_r = li_fingerprint i then Inl (SelfConnection fp_r)
          else case ps_find fp_r store of
            None \<Rightarrow> Inl (StrangerRefusal fp_r)
          | Some peer \<Rightarrow>
              (case b64d p sig_b64 of
                 Inl e \<Rightarrow> Inl e
               | Inr sg \<Rightarrow>
                   if \<not> verify_sig p (pp_public_key_b64 peer) (unpaired_preimage nonce_i fp_r (li_fingerprint i)) sg
                   then Inl (ForgedRefusal fp_r) else Inr fp_r))"

fun expect_challenge :: "'a id_prims_scheme \<Rightarrow> local_identity \<Rightarrow> peer_store \<Rightarrow> bytes \<Rightarrow> control_msg \<Rightarrow> hs_error + bytes" where
  "expect_challenge p i store nonce_i (VerifyChallenge n v) =
     (case check_protocol v of Inl e \<Rightarrow> Inl e | Inr _ \<Rightarrow> b64d p n)"
| "expect_challenge p i store nonce_i (Unpaired sg pk) =
     (case authenticate_unpaired p sg pk nonce_i i store of Inl e \<Rightarrow> Inl e | Inr fp \<Rightarrow> Inl (UnpairedByPeer fp))"
| "expect_challenge p i store nonce_i (ErrorMsg t) = Inl (HsRefused t)"
| "expect_challenge p i store nonce_i _ = Inl HsUnexpected"

fun expect_response :: "'a id_prims_scheme \<Rightarrow> control_msg \<Rightarrow> hs_error + bytes \<times> string \<times> string" where
  "expect_response p (VerifyResponse sg pk name) = map_sum id (\<lambda>b. (b, pk, name)) (b64d p sg)"
| "expect_response p (ErrorMsg t) = Inl (HsRefused t)"
| "expect_response p _ = Inl HsUnexpected"

text \<open>The rest of the dialling side once the challenge is there.\<close>

definition finish_verify :: "'a id_prims_scheme \<Rightarrow> local_identity \<Rightarrow> peer_store \<Rightarrow> bytes \<Rightarrow> bytes \<Rightarrow> paired_peer hsm" where
  "finish_verify p i store nonce_i nonce_r =
     hs_bind hs_recv (\<lambda>r2.
     hs_bind (hs_lift (expect_response p r2)) (\<lambda>(sig_r, pub_r_b64, name_r).
     hs_bind (hs_lift (pub_arr p pub_r_b64)) (\<lambda>pub_r.
     let fp_r = fingerprint_of p pub_r in
     if fp_r = li_fingerprint i then hs_fail (SelfConnection fp_r)
     else case ps_find fp_r store of
       None \<Rightarrow> hs_fail UnknownPeer
     | Some peer \<Rightarrow>
         if \<not> verify_sig p (pp_public_key_b64 peer) (verify_preimage nonce_i fp_r (li_fingerprint i)) sig_r
         then hs_seq (hs_send_ignored (ErrorMsg ''signature verification failed'')) (hs_fail SignatureFailed)
         else
           hs_bind (hs_sign p i (verify_preimage nonce_r (li_fingerprint i) fp_r)) (\<lambda>sg.
           hs_seq (hs_send (VerifyResponse (ip_b64_enc p sg) (id_public_key_b64 p i) (li_name i)))
          (hs_bind hs_recv (\<lambda>r3.
           hs_seq (hs_lift (expect_ok r3))
             (hs_return (adopt_name peer name_r))))))))"

definition verify_initiator :: "'a id_prims_scheme \<Rightarrow> local_identity \<Rightarrow> peer_store \<Rightarrow> bytes \<Rightarrow> paired_peer hsm" where
  "verify_initiator p i store nonce_i =
     hs_seq hs_arm
    (hs_seq (hs_send (VerifyHello (li_fingerprint i) (ip_b64_enc p nonce_i) PROTOCOL_VERSION))
    (hs_bind hs_recv (\<lambda>r1.
     hs_bind (hs_lift (expect_challenge p i store nonce_i r1)) (\<lambda>nonce_r.
     finish_verify p i store nonce_i nonce_r))))"

fun expect_hello :: "control_msg \<Rightarrow> (string \<times> string \<times> u32) hsm" where
  "expect_hello (VerifyHello fp n v) = hs_return (fp, n, v)"
| "expect_hello (ErrorMsg t) = hs_fail (HsRefused t)"
| "expect_hello _ = hs_fail HsUnexpected"

text \<open>The rest of the listening side once the opening frame is there.\<close>

definition answer_hello :: "'a id_prims_scheme \<Rightarrow> local_identity \<Rightarrow> peer_store \<Rightarrow> bytes \<Rightarrow> string \<Rightarrow> string \<Rightarrow> u32 \<Rightarrow> paired_peer hsm" where
  "answer_hello p i store nonce_r fp_i nonce_b64 version =
     (case check_protocol version of
        Inl e \<Rightarrow> hs_seq (hs_send_ignored (ErrorMsg (mismatch_text version))) (hs_fail e)
      | Inr _ \<Rightarrow>
      hs_bind (hs_lift (b64d p nonce_b64)) (\<lambda>nonce_i.
      case ps_find fp_i store of
        None \<Rightarrow>
          hs_bind (hs_sign p i (unpaired_preimage nonce_i (li_fingerprint i) fp_i)) (\<lambda>sg.
          hs_seq (hs_send_ignored (Unpaired (ip_b64_enc p sg) (id_public_key_b64 p i)))
            (hs_fail UnknownPeer))
      | Some peer \<Rightarrow>
          hs_seq (hs_send (VerifyChallenge (ip_b64_enc p nonce_r) PROTOCOL_VERSION))
         (hs_bind (hs_sign p i (verify_preimage nonce_i (li_fingerprint i) fp_i)) (\<lambda>sg.
          hs_seq (hs_send (VerifyResponse (ip_b64_enc p sg) (id_public_key_b64 p i) (li_name i)))
         (hs_bind hs_recv (\<lambda>r2.
          hs_bind (hs_lift (expect_response p r2)) (\<lambda>(sig_i, _, name_i).
          if \<not> verify_sig p (pp_public_key_b64 peer) (verify_preimage nonce_r fp_i (li_fingerprint i)) sig_i
          then hs_seq (hs_send_ignored (ErrorMsg ''signature verification failed'')) (hs_fail SignatureFailed)
          else hs_seq (hs_send OkMsg) (hs_return (adopt_name peer name_i)))))))))"

definition verify_responder :: "'a id_prims_scheme \<Rightarrow> local_identity \<Rightarrow> peer_store \<Rightarrow> bytes \<Rightarrow> paired_peer hsm" where
  "verify_responder p i store nonce_r =
     hs_seq hs_arm
    (hs_bind hs_recv (\<lambda>r1.
     hs_bind (expect_hello r1) (\<lambda>(fp_i, nonce_b64, version).
     answer_hello p i store nonce_r fp_i nonce_b64 version)))"

section \<open>The daemon's two ends of a pairing\<close>

text \<open>
  The listening side (\<open>handle_inbound\<close>): the record is stored before the final frame, and an
  advertised port that is the daemon's own endpoint is not believed.
\<close>

definition pair_inbound :: "'a pair_prims_scheme \<Rightarrow> string \<Rightarrow> local_identity \<Rightarrow> bytes \<Rightarrow> u64 \<Rightarrow> string \<Rightarrow> (u16 \<Rightarrow> bool) \<Rightarrow>
    peer_store option \<Rightarrow> hs \<Rightarrow> (hs_error + unit) \<times> peer_store option \<times> hs" where
  "pair_inbound p pin i scalar now ip self_endpoint file s =
     (case pair_responder p pin i scalar now s of
        (Inl e, t) \<Rightarrow> (Inl e, file, t)
      | (Inr peer, t) \<Rightarrow>
          let peer = peer\<lparr>pp_last_addr := Some ip\<rparr>;
              peer = (if self_endpoint (pp_port peer) then peer\<lparr>pp_port := 0\<rparr> else peer)
          in (case persist_peer peer file of
                None \<Rightarrow> (Inl StoreFailed, file, t)
              | Some ps \<Rightarrow> (case hs_send OkMsg t of (r, u) \<Rightarrow> (r, Some ps, u))))"

text \<open>The dialling side (\<open>pair_with\<close>), after the connection is made.\<close>

definition pair_outbound :: "'a pair_prims_scheme \<Rightarrow> string \<Rightarrow> local_identity \<Rightarrow> u16 \<Rightarrow> bytes \<Rightarrow> u64 \<Rightarrow> string \<Rightarrow> u16 \<Rightarrow>
    peer_store option \<Rightarrow> hs \<Rightarrow> (hs_error + string) \<times> peer_store option \<times> hs" where
  "pair_outbound p pin i control_port scalar now ip port file s =
     (case pair_initiator p pin i control_port port scalar now s of
        (Inl e, t) \<Rightarrow> (Inl e, file, t)
      | (Inr peer, t) \<Rightarrow>
          (case persist_peer (peer\<lparr>pp_last_addr := Some ip, pp_port := port\<rparr>) file of
             None \<Rightarrow> (Inl StoreFailed, file, t)
           | Some ps \<Rightarrow> (Inr (pp_fingerprint peer), Some ps, t)))"

section \<open>A failed verification\<close>

text \<open>
  What the dialling side does to the pairing with the peer it dialled (\<open>connect_peer\<close>): it is dropped
  for a refusal that this very peer has signed, and kept in every other case.
\<close>

definition drops_pairing :: "string \<Rightarrow> hs_error \<Rightarrow> bool" where
  "drops_pairing dialled e = (case e of UnpairedByPeer fp \<Rightarrow> fp = dialled | _ \<Rightarrow> False)"

definition after_dial :: "string \<Rightarrow> hs_error + paired_peer \<Rightarrow> peer_store option \<Rightarrow> (hs_error + paired_peer) \<times> peer_store option" where
  "after_dial dialled r file =
     (case r of
        Inl e \<Rightarrow> (Inl e, if drops_pairing dialled e then forget_record dialled file else file)
      | Inr v \<Rightarrow> (if pp_fingerprint v \<noteq> dialled then Inl (WrongPeer (pp_fingerprint v)) else Inr v, file))"

section \<open>The pairing window\<close>

definition MAX_PAIR_FAILURES :: nat where
  "MAX_PAIR_FAILURES = 5"

definition MAX_PAIRING_TTL_S :: nat where
  "MAX_PAIRING_TTL_S = 300"

record pairing_mode =
  pm_pin :: string
  pm_until :: nat
  pm_fails :: nat
  pm_in_flight :: bool

definition pairing_enable :: "nat \<Rightarrow> string \<Rightarrow> nat \<Rightarrow> pairing_mode option" where
  "pairing_enable now pin ttl_s =
     Some \<lparr>pm_pin = pin, pm_until = now + max 1 (min ttl_s MAX_PAIRING_TTL_S), pm_fails = 0, pm_in_flight = False\<rparr>"

definition claim_pairing_pin :: "nat \<Rightarrow> pairing_mode option \<Rightarrow> string option \<times> pairing_mode option" where
  "claim_pairing_pin now st =
     (case st of
        None \<Rightarrow> (None, None)
      | Some m \<Rightarrow>
          if pm_until m \<le> now then (None, None)
          else if pm_in_flight m then (None, Some m)
          else (Some (pm_pin m), Some (m\<lparr>pm_in_flight := True\<rparr>)))"

definition release_pairing_pin :: "string \<Rightarrow> bool \<Rightarrow> pairing_mode option \<Rightarrow> pairing_mode option" where
  "release_pairing_pin pin ok st =
     (case st of
        None \<Rightarrow> None
      | Some m \<Rightarrow>
          let m = m\<lparr>pm_in_flight := False\<rparr> in
          if pm_pin m \<noteq> pin then Some m
          else if ok then None
          else let m = m\<lparr>pm_fails := pm_fails m + 1\<rparr> in
            if MAX_PAIR_FAILURES \<le> pm_fails m then None else Some m)"

definition pairing_tick :: "nat \<Rightarrow> pairing_mode option \<Rightarrow> pairing_mode option" where
  "pairing_tick now st = (case st of Some m \<Rightarrow> (if pm_until m \<le> now then None else Some m) | None \<Rightarrow> None)"

section \<open>Which kind of connection\<close>

datatype opening_kind = OpenControl | OpenFramed | OpenWebSocket

definition peek_opening :: "bytes \<Rightarrow> opening_kind option" where
  "peek_opening first =
     (if length first < 4 then None
      else if take 4 first = MAGIC then Some OpenFramed
      else if take 4 first = str_bytes ''GET '' then Some OpenWebSocket
      else Some OpenControl)"

section \<open>Evaluation and inversion of a side\<close>

lemma hs_bind_Inl [simp]: "m s = (Inl e, t) \<Longrightarrow> hs_bind m f s = (Inl e, t)"
  by (simp add: hs_bind_def)

lemma hs_bind_Inr [simp]: "m s = (Inr x, t) \<Longrightarrow> hs_bind m f s = f x t"
  by (simp add: hs_bind_def)

lemma hs_bind_Inr_iff:
  "hs_bind m f s = (Inr y, t) \<longleftrightarrow> (\<exists>x u. m s = (Inr x, u) \<and> f x u = (Inr y, t))"
  by (auto simp: hs_bind_def split: prod.splits sum.splits)

lemma hs_seq_Inr_iff: "hs_seq m n s = (Inr y, t) \<longleftrightarrow> (\<exists>x u. m s = (Inr x, u) \<and> n u = (Inr y, t))"
  by (simp add: hs_seq_def hs_bind_Inr_iff)

lemma hs_basic [simp]:
  "hs_return x s = (Inr x, s)" "hs_fail e s = (Inl e, s)" "hs_lift r s = (r, s)"
  "hs_send_ignored msg s = (Inr (), snd (hs_send msg s))"
  "hs_sign p i m s = (Inr (id_sign p i m), s\<lparr>hs_signed := hs_signed s @ [m]\<rparr>)"
  by (simp_all add: hs_return_def hs_fail_def hs_lift_def hs_send_ignored_def hs_sign_def)

lemma hs_lift_bind [simp]: "hs_bind (hs_lift (Inr x)) f s = f x s" "hs_bind (hs_lift (Inl e)) f s = (Inl e, s)"
  by (simp_all add: hs_bind_def)

lemma hs_new_simps [simp]:
  "hs_inbox (hs_new armed ms) = map Some ms" "hs_out (hs_new armed ms) = []" "hs_signed (hs_new armed ms) = []"
  "hs_writes (hs_new armed ms) = []" "hs_deadline (hs_new armed ms) = armed" "hs_arm_ok (hs_new armed ms)"
  by (simp_all add: hs_new_def)

text \<open>The effects of the primitive operations, for evaluating a side on given frames.\<close>

lemmas hs_eval = hs_seq_def hs_bind_def hs_recv_def hs_send_def hs_arm_def Let_def

lemma b64d_enc [simp]: "id_lawful p \<Longrightarrow> b64d p (ip_b64_enc p b) = Inr b"
  by (simp add: b64d_def id_lawfulD)

lemma pub_arr_own [simp]: "id_lawful p \<Longrightarrow> pub_arr p (id_public_key_b64 p i) = Inr (id_public_key_bytes p i)"
  by (simp add: pub_arr_def b64d_def id_public_key_b64_def id_public_key_bytes_def id_lawfulD)

lemma verify_own [simp]: "id_lawful p \<Longrightarrow> verify_sig p (id_public_key_b64 p i) m (id_sign p i m)"
  by (simp add: verify_sig_def id_public_key_b64_def id_public_key_bytes_def id_sign_def id_lawfulD)

lemma inj_of_char_byte: "inj (of_char :: char \<Rightarrow> u8)"
  by (rule injI) (metis char_byte)

lemma str_bytes_inj [simp]: "str_bytes s = str_bytes t \<longleftrightarrow> s = t"
  by (simp add: str_bytes_def inj_map_eq_map [OF inj_of_char_byte])

lemma length_str_bytes [simp]: "length (str_bytes s) = length s"
  by (simp add: str_bytes_def)

section \<open>A verification always returns\<close>

definition returns :: "'a hsm \<Rightarrow> bool" where
  "returns m \<longleftrightarrow> (\<forall>s. hs_deadline s \<longrightarrow> fst (m s) \<noteq> Inl Hung \<and> hs_deadline (snd (m s)))"

named_theorems returns_intros \<open>rules that show that a handshake returns once its deadline is armed\<close>

lemma returns_bind [returns_intros]: "returns m \<Longrightarrow> (\<And>x. returns (f x)) \<Longrightarrow> returns (hs_bind m f)"
  unfolding returns_def hs_bind_def by (fastforce split: prod.splits sum.splits)

lemma returns_seq [returns_intros]: "returns m \<Longrightarrow> returns n \<Longrightarrow> returns (hs_seq m n)"
  unfolding hs_seq_def by (rule returns_bind)

lemma returns_basic [returns_intros]:
  "returns (hs_return x)" "e \<noteq> Hung \<Longrightarrow> returns (hs_fail e)" "r \<noteq> Inl Hung \<Longrightarrow> returns (hs_lift r)"
  "returns (hs_send msg)" "returns (hs_send_ignored msg)" "returns (hs_sign p i m)" "returns hs_recv" "returns hs_arm"
  by (auto simp: returns_def hs_send_def hs_recv_def hs_arm_def split: list.splits option.splits bool.splits)

lemma returns_if [returns_intros]: "(b \<Longrightarrow> returns m) \<Longrightarrow> (\<not> b \<Longrightarrow> returns n) \<Longrightarrow> returns (if b then m else n)"
  by simp

lemma returns_option [returns_intros]:
  "returns m \<Longrightarrow> (\<And>x. returns (f x)) \<Longrightarrow> returns (case r of None \<Rightarrow> m | Some x \<Rightarrow> f x)"
  by (cases r) auto

lemma returns_sum [returns_intros]:
  "(\<And>e. r = Inl e \<Longrightarrow> returns (f e)) \<Longrightarrow> (\<And>x. returns (g x)) \<Longrightarrow> returns (case r of Inl e \<Rightarrow> f e | Inr x \<Rightarrow> g x)"
  by (cases r) auto

lemma returns_prod [returns_intros]: "(\<And>a b. returns (f a b)) \<Longrightarrow> returns (case r of (a, b) \<Rightarrow> f a b)"
  by (cases r) auto

lemma not_hung [simp]:
  "b64d p s \<noteq> Inl Hung" "pub_arr p s \<noteq> Inl Hung" "expect_pair_resp p m \<noteq> Inl Hung" "expect_confirm_b p m \<noteq> Inl Hung"
  "expect_confirm_a p m \<noteq> Inl Hung" "expect_pair_init p m \<noteq> Inl Hung" "expect_ok m \<noteq> Inl Hung"
  "expect_response p m \<noteq> Inl Hung" "check_protocol v \<noteq> Inl Hung" "authenticate_unpaired p sg pk nonce i store \<noteq> Inl Hung"
proof -
  show b: "b64d p s \<noteq> Inl Hung" for s by (simp add: b64d_def split: option.splits)
  then show "pub_arr p s \<noteq> Inl Hung" for s by (auto simp: pub_arr_def split: sum.splits)
  then show "authenticate_unpaired p sg pk nonce i store \<noteq> Inl Hung"
    using b by (auto simp: authenticate_unpaired_def Let_def split: sum.splits option.splits)
  show "expect_ok m \<noteq> Inl Hung" by (cases m) auto
  show "check_protocol v \<noteq> Inl Hung" by (simp add: check_protocol_def)
  have m: "map_sum id f (b64d p s) \<noteq> Inl Hung" for f :: "bytes \<Rightarrow> 'x" and s
    using b [of s] by (cases "b64d p s") auto
  show "expect_pair_resp p m \<noteq> Inl Hung" "expect_confirm_b p m \<noteq> Inl Hung" "expect_confirm_a p m \<noteq> Inl Hung"
    "expect_pair_init p m \<noteq> Inl Hung" "expect_response p m \<noteq> Inl Hung"
    by (cases m; simp add: m)+
qed

lemma challenge_not_hung [simp]: "expect_challenge p i store nonce m \<noteq> Inl Hung"
  by (cases m) (auto split: sum.splits simp: not_hung [THEN not_sym])

lemma returns_hello [returns_intros]: "returns (expect_hello m)"
  by (cases m) (auto intro: returns_intros)

lemma check_protocol_Inl: "check_protocol v = Inl e \<Longrightarrow> e \<noteq> Hung"
  by (auto simp: check_protocol_def split: if_splits)

lemma pair_initiator_returns: "returns (pair_initiator p pin i lport tport scalar now)"
  unfolding pair_initiator_def Let_def by (intro returns_intros) auto

lemma pair_responder_returns: "returns (pair_responder p pin i scalar now)"
  unfolding pair_responder_def Let_def by (intro returns_intros) auto

lemma returns_armed:
  assumes "returns m"
  shows "fst (hs_seq hs_arm m s) \<noteq> Inl Hung"
  using assms by (auto simp: returns_def hs_seq_def hs_bind_def hs_arm_def)

text \<open>
  C30. A verification always returns, on every transport: whatever arrives or does not arrive, whatever
  the writes do and whether or not the caller has set a deadline, neither side waits for ever, because
  each arms its own deadline before its first read. The two sides of a pairing rely on the deadline the
  caller has set; without one an initiator that is not answered never returns.
\<close>

theorem handshakes_return:
  "fst (verify_initiator p i store nonce s) \<noteq> Inl Hung \<and> fst (verify_responder p i store nonce s) \<noteq> Inl Hung \<and>
   fst (pair_initiator q pin i lport tport scalar now (s\<lparr>hs_deadline := True\<rparr>)) \<noteq> Inl Hung \<and>
   fst (pair_responder q pin i scalar now (s\<lparr>hs_deadline := True\<rparr>)) \<noteq> Inl Hung \<and>
   fst (pair_initiator q pin i lport tport scalar now (hs_new False [])) = Inl Hung"
proof (intro conjI)
  show "fst (verify_initiator p i store nonce s) \<noteq> Inl Hung"
    unfolding verify_initiator_def finish_verify_def Let_def
    by (rule returns_armed, intro returns_intros) auto
  show "fst (verify_responder p i store nonce s) \<noteq> Inl Hung"
    unfolding verify_responder_def answer_hello_def Let_def
    by (rule returns_armed, intro returns_intros) (auto dest: check_protocol_Inl)
  show "fst (pair_initiator q pin i lport tport scalar now (s\<lparr>hs_deadline := True\<rparr>)) \<noteq> Inl Hung"
    using pair_initiator_returns [of q pin i lport tport scalar now, unfolded returns_def, rule_format, of "s\<lparr>hs_deadline := True\<rparr>"] by simp
  show "fst (pair_responder q pin i scalar now (s\<lparr>hs_deadline := True\<rparr>)) \<noteq> Inl Hung"
    using pair_responder_returns [of q pin i scalar now, unfolded returns_def, rule_format, of "s\<lparr>hs_deadline := True\<rparr>"] by simp
  show "fst (pair_initiator q pin i lport tport scalar now (hs_new False [])) = Inl Hung"
    by (simp add: pair_initiator_def hs_eval)
qed

section \<open>The pairing window bounds the guesses\<close>

text \<open>
  The window, the PINs held by the attempts in flight, and how many attempts were admitted since the
  window was opened. An attempt ends with its index in the list and whether the handshake succeeded.
\<close>

record window =
  w_mode :: "pairing_mode option"
  w_running :: "string list"
  w_guesses :: nat

datatype window_event = WEnable nat string nat | WDisable | WClaim nat | WRelease nat bool | WTick nat

fun window_step :: "window_event \<Rightarrow> window \<Rightarrow> window" where
  "window_step (WEnable now pin ttl) w = w\<lparr>w_mode := pairing_enable now pin ttl, w_guesses := 0\<rparr>"
| "window_step WDisable w = w\<lparr>w_mode := None\<rparr>"
| "window_step (WClaim now) w =
     (case claim_pairing_pin now (w_mode w) of
        (Some pin, m) \<Rightarrow> w\<lparr>w_mode := m, w_running := w_running w @ [pin], w_guesses := w_guesses w + 1\<rparr>
      | (None, m) \<Rightarrow> w\<lparr>w_mode := m\<rparr>)"
| "window_step (WRelease j ok) w =
     (if j < length (w_running w)
      then w\<lparr>w_mode := release_pairing_pin (w_running w ! j) ok (w_mode w),
             w_running := take j (w_running w) @ drop (Suc j) (w_running w)\<rparr>
      else w)"
| "window_step (WTick now) w = w\<lparr>w_mode := pairing_tick now (w_mode w)\<rparr>"

definition window_new :: window where
  "window_new = \<lparr>w_mode = None, w_running = [], w_guesses = 0\<rparr>"

text \<open>No window is opened while an attempt of an earlier one is still in flight.\<close>

fun quiet_openings :: "window_event list \<Rightarrow> window \<Rightarrow> bool" where
  "quiet_openings [] w \<longleftrightarrow> True"
| "quiet_openings (e # es) w \<longleftrightarrow>
     (case e of WEnable _ _ _ \<Rightarrow> w_running w = [] | _ \<Rightarrow> True) \<and> quiet_openings es (window_step e w)"

definition window_inv :: "window \<Rightarrow> bool" where
  "window_inv w \<longleftrightarrow>
     length (w_running w) \<le> 1 \<and> w_guesses w \<le> MAX_PAIR_FAILURES \<and>
     (case w_mode w of
        None \<Rightarrow> True
      | Some m \<Rightarrow>
          pm_fails m < MAX_PAIR_FAILURES \<and> w_running w = (if pm_in_flight m then [pm_pin m] else []) \<and>
          w_guesses w = pm_fails m + length (w_running w))"

lemma window_step_inv:
  assumes "window_inv w" and "case e of WEnable _ _ _ \<Rightarrow> w_running w = [] | _ \<Rightarrow> True"
  shows "window_inv (window_step e w)"
proof (cases e)
  case (WRelease j ok)
  with assms(1) show ?thesis
    by (cases "w_running w"; cases "w_mode w")
      (auto simp: window_inv_def release_pairing_pin_def Let_def nth_Cons' split: if_splits)
qed (use assms in \<open>auto simp: window_inv_def pairing_enable_def claim_pairing_pin_def pairing_tick_def MAX_PAIR_FAILURES_def
    split: option.splits if_splits\<close>)

lemma window_run_inv: "window_inv w \<Longrightarrow> quiet_openings es w \<Longrightarrow> window_inv (fold window_step es w)"
  by (induction es arbitrary: w) (auto simp: window_step_inv)

text \<open>
  C17. The pairing window bounds what can be guessed: if no window is opened while an attempt from an
  earlier one is in flight, at most one attempt runs at a time, at most five attempts are admitted per
  window, and a window that has admitted five and let none succeed is closed once the last has ended.
\<close>

theorem pairing_guesses_are_bounded:
  assumes "quiet_openings es window_new"
  shows "let w = fold window_step es window_new in
    length (w_running w) \<le> 1 \<and> w_guesses w \<le> MAX_PAIR_FAILURES \<and>
    (w_guesses w = MAX_PAIR_FAILURES \<and> w_running w = [] \<longrightarrow> w_mode w = None)"
proof -
  have "window_inv window_new" by (simp add: window_inv_def window_new_def)
  then have "window_inv (fold window_step es window_new)" by (rule window_run_inv [OF _ assms])
  then show ?thesis by (auto simp: window_inv_def Let_def split: option.splits if_splits)
qed

theorem pairing_guesses_witness:
  "let w = fold window_step (WEnable 0 ''123456'' 60 # concat (replicate 5 [WClaim 1, WRelease 0 False])) window_new in
     w_guesses w = MAX_PAIR_FAILURES \<and> w_mode w = None"
proof -
  let ?es = "WEnable 0 ''123456'' 60 # concat (replicate 5 [WClaim 1, WRelease 0 False])"
  note ev = numeral_eq_Suc window_new_def pairing_enable_def claim_pairing_pin_def release_pairing_pin_def Let_def
      MAX_PAIR_FAILURES_def MAX_PAIRING_TTL_S_def
  have q: "quiet_openings ?es window_new" by (simp add: ev)
  have "w_guesses (fold window_step ?es window_new) = MAX_PAIR_FAILURES"
      "w_running (fold window_step ?es window_new) = []" by (simp_all add: ev)
  with pairing_guesses_are_bounded [OF q] show ?thesis by (simp add: Let_def)
qed

text \<open>
  The proviso is necessary, and the window does not check it: an attempt that outlives its window
  clears the marker of the next one when it ends, and a second attempt is admitted against the same PIN
  while the first is still running, which the marker exists to prevent.
\<close>

theorem stale_attempt_breaks_exclusion:
  "let w = fold window_step
       [WEnable 0 ''111111'' 60, WClaim 1, WEnable 2 ''222222'' 60, WClaim 3, WRelease 0 False, WClaim 4] window_new in
     w_running w = [''222222'', ''222222''] \<and> w_guesses w = 2"
  by (simp add: window_new_def pairing_enable_def claim_pairing_pin_def release_pairing_pin_def MAX_PAIRING_TTL_S_def)

section \<open>The first four bytes decide\<close>

lemma header_encode_magic: "take 4 (header_encode h plain) = MAGIC"
  by (simp add: encode_append_def header_encode_def encode_into_def MAGIC_def)

lemma as_numbers:
  "unat (of_le MAGIC :: u32) = 1112036673" "unat (of_le (str_bytes ''GET '') :: u32) = 542393671"
  by (simp_all add: MAGIC_def str_bytes_def)

text \<open>
  The three kinds of connection cannot be confused: the bytes of any control frame the code can
  write are taken as a control connection, whatever follows; those of any media or control packet as a
  multiplexed one, and those of an upgrade request as a WebSocket.
\<close>

theorem openings_are_disjoint:
  assumes "frame_bytes c m = Some bs"
  shows "peek_opening (bs @ rest) = Some OpenControl \<and> peek_opening (header_encode h plain @ rest) = Some OpenFramed \<and>
    peek_opening (str_bytes ''GET '' @ rest) = Some OpenWebSocket"
proof -
  let ?n = "length (msg_enc c m)"
  from assms have n: "?n \<le> CONTROL_MAX_FRAME" and bs: "bs = le_bytes 4 (of_nat ?n :: u32) @ msg_enc c m"
    by (auto simp: frame_bytes_def Let_def split: if_splits)
  have u: "unat (of_nat ?n :: u32) = ?n" using n by (simp add: unat_of_nat CONTROL_MAX_FRAME_def)
  have four: "take 4 (bs @ rest) = le_bytes 4 (of_nat ?n :: u32)" by (simp add: bs)
  have "(of_le (take 4 (bs @ rest)) :: u32) = of_nat ?n" unfolding four by (simp add: of_le_le_bytes)
  then have small: "unat (of_le (take 4 (bs @ rest)) :: u32) \<le> CONTROL_MAX_FRAME" using u n by simp
  have "take 4 (bs @ rest) \<noteq> MAGIC" "take 4 (bs @ rest) \<noteq> str_bytes ''GET ''"
    using small as_numbers by (auto simp: CONTROL_MAX_FRAME_def)
  moreover have "4 \<le> length (bs @ rest)" by (simp add: bs)
  moreover have "4 \<le> length (header_encode h plain)"
    using arg_cong [OF header_encode_magic [of h plain], of length] by (simp add: MAGIC_def min_def split: if_splits)
  moreover have "take 4 (header_encode h plain @ rest) = MAGIC"
    using calculation(4) header_encode_magic by simp
  ultimately show ?thesis by (simp add: peek_opening_def) (simp add: MAGIC_def str_bytes_def)
qed

theorem openings_witness:
  "peek_opening (le_bytes 4 (2 :: u32) @ [0x7B, 0x7D]) = Some OpenControl"
proof -
  let ?c = "\<lparr>aead_enc = \<lambda>k n a p. p, aead_dec = \<lambda>k n a p. Some p, hkdf = \<lambda>s k i. [], dh_pub = \<lambda>x. [], dh = \<lambda>x y. None,
     sign = \<lambda>k m. [], verify = \<lambda>p m s. True, pub_of = \<lambda>k. [], b64_enc = \<lambda>b. [], b64_dec = \<lambda>s. None,
     msg_enc = \<lambda>m. [0x7B, 0x7D], msg_dec = \<lambda>b. None\<rparr>"
  have "frame_bytes ?c OkMsg = Some (le_bytes 4 (2 :: u32) @ [0x7B, 0x7D])"
    by (simp add: frame_bytes_def CONTROL_MAX_FRAME_def)
  from openings_are_disjoint [OF this, of "[]"] show ?thesis by simp
qed

section \<open>What a side signs\<close>

definition signs :: "(bytes \<Rightarrow> bool) \<Rightarrow> 'a hsm \<Rightarrow> bool" where
  "signs P m \<longleftrightarrow> (\<forall>s. \<forall>x \<in> set (hs_signed (snd (m s))). x \<in> set (hs_signed s) \<or> P x)"

named_theorems signs_intros \<open>rules for the messages that a handshake signs\<close>

lemma signs_bind [signs_intros]: "signs P m \<Longrightarrow> (\<And>x. signs P (f x)) \<Longrightarrow> signs P (hs_bind m f)"
  unfolding signs_def hs_bind_def by (fastforce split: prod.splits sum.splits)

lemma signs_seq [signs_intros]: "signs P m \<Longrightarrow> signs P n \<Longrightarrow> signs P (hs_seq m n)"
  unfolding hs_seq_def by (rule signs_bind)

lemma signs_basic [signs_intros]:
  "signs P (hs_return x)" "signs P (hs_fail e)" "signs P (hs_lift r)" "signs P (hs_send msg)" "signs P (hs_send_ignored msg)"
  "signs P hs_recv" "signs P hs_arm" "P m \<Longrightarrow> signs P (hs_sign p i m)"
  by (auto simp: signs_def hs_send_def hs_recv_def hs_arm_def split: list.splits option.splits bool.splits)

lemma signs_if [signs_intros]: "(b \<Longrightarrow> signs P m) \<Longrightarrow> (\<not> b \<Longrightarrow> signs P n) \<Longrightarrow> signs P (if b then m else n)"
  by simp

lemma signs_option [signs_intros]:
  "(r = None \<Longrightarrow> signs P m) \<Longrightarrow> (\<And>x. r = Some x \<Longrightarrow> signs P (f x)) \<Longrightarrow> signs P (case r of None \<Rightarrow> m | Some x \<Rightarrow> f x)"
  by (cases r) auto

lemma signs_prod [signs_intros]: "(\<And>a b. signs P (f a b)) \<Longrightarrow> signs P (case r of (a, b) \<Rightarrow> f a b)"
  by (cases r) auto

lemma signsD: "signs P m \<Longrightarrow> hs_signed s = [] \<Longrightarrow> x \<in> set (hs_signed (snd (m s))) \<Longrightarrow> P x"
  unfolding signs_def by (metis empty_iff list.set(1))

lemma signs_lift: "(\<And>x. r = Inr x \<Longrightarrow> signs P (f x)) \<Longrightarrow> signs P (hs_bind (hs_lift r) f)"
  by (cases r) (auto simp: signs_def)

text \<open>The dialling side signs challenges only, and only for a peer it has on file.\<close>

lemma initiator_signs:
  "signs (\<lambda>m. \<exists>nonce_r q. q \<in> set store \<and> m = verify_preimage nonce_r (li_fingerprint i) (pp_fingerprint q))
     (verify_initiator p i store nonce_i)"
  unfolding verify_initiator_def finish_verify_def Let_def
  by (intro signs_intros) (metis ps_find_Some)

text \<open>The listening side signs for the opening frame it has read, a refusal if it does not know the sender.\<close>

definition answer_preimage :: "local_identity \<Rightarrow> peer_store \<Rightarrow> bytes \<Rightarrow> string \<Rightarrow> bytes" where
  "answer_preimage i store nonce_i fp_i =
     (if ps_find fp_i store = None then unpaired_preimage nonce_i (li_fingerprint i) fp_i
      else verify_preimage nonce_i (li_fingerprint i) fp_i)"

lemma answer_signs:
  assumes "b64d p nonce_b64 = Inr nonce_i"
  shows "signs (\<lambda>m. m = answer_preimage i store nonce_i fp_i) (answer_hello p i store nonce_r fp_i nonce_b64 version)"
proof (cases "check_protocol version")
  case (Inl e)
  then show ?thesis by (simp add: answer_hello_def) (intro signs_intros)
next
  case (Inr u)
  show ?thesis
    unfolding answer_hello_def Inr sum.case
  proof (rule signs_lift)
    fix n
    assume "b64d p nonce_b64 = Inr n"
    with assms have n: "n = nonce_i" by simp
    show "signs (\<lambda>m. m = answer_preimage i store nonce_i fp_i)
       (case ps_find fp_i store of
          None \<Rightarrow> hs_bind (hs_sign p i (unpaired_preimage n (li_fingerprint i) fp_i))
            (\<lambda>sg. hs_seq (hs_send_ignored (Unpaired (ip_b64_enc p sg) (id_public_key_b64 p i))) (hs_fail UnknownPeer))
        | Some peer \<Rightarrow> hs_seq (hs_send (VerifyChallenge (ip_b64_enc p nonce_r) PROTOCOL_VERSION))
            (hs_bind (hs_sign p i (verify_preimage n (li_fingerprint i) fp_i)) (\<lambda>sg.
             hs_seq (hs_send (VerifyResponse (ip_b64_enc p sg) (id_public_key_b64 p i) (li_name i)))
            (hs_bind hs_recv (\<lambda>r2.
             hs_bind (hs_lift (expect_response p r2)) (\<lambda>(sig_i, _, name_i).
             if \<not> verify_sig p (pp_public_key_b64 peer) (verify_preimage nonce_r fp_i (li_fingerprint i)) sig_i
             then hs_seq (hs_send_ignored (ErrorMsg ''signature verification failed'')) (hs_fail SignatureFailed)
             else hs_seq (hs_send OkMsg) (hs_return (adopt_name peer name_i))))))))"
      unfolding n by (intro signs_intros) (simp_all add: answer_preimage_def)
  qed
qed

lemma recv_cases:
  obtains "hs_recv s = (Inl HsRead, s\<lparr>hs_inbox := tl (hs_inbox s)\<rparr>)" | "hs_recv s = (Inl Hung, s)" | "hs_recv s = (Inl HsRead, s)"
    | m rest where "hs_inbox s = Some m # rest" and "hs_recv s = (Inr m, s\<lparr>hs_inbox := rest\<rparr>)"
  by (cases "hs_inbox s"; cases "hd (hs_inbox s)"; cases "hs_deadline s") (auto simp: hs_recv_def)

lemma responder_signs:
  assumes "hs_signed s = []" and "x \<in> set (hs_signed (snd (verify_responder p i store nonce_r s)))"
  shows "\<exists>fp_i nonce_b64 nonce_i rest. hs_inbox s = Some (VerifyHello fp_i nonce_b64 PROTOCOL_VERSION) # rest \<and>
     ip_b64_dec p nonce_b64 = Some nonce_i \<and> x = answer_preimage i store nonce_i fp_i"
proof -
  let ?s = "s\<lparr>hs_deadline := True\<rparr>"
  have ok: "hs_arm_ok s" using assms by (auto simp: verify_responder_def hs_seq_def hs_bind_def hs_arm_def split: if_splits)
  show ?thesis
  proof (cases rule: recv_cases [of ?s])
    case (4 m rest)
    then show ?thesis
    proof (cases m)
      case (VerifyHello fp_i n64 v)
      then have x: "x \<in> set (hs_signed (snd (answer_hello p i store nonce_r fp_i n64 v (?s\<lparr>hs_inbox := rest\<rparr>))))"
        using assms ok 4 by (simp add: verify_responder_def hs_seq_def hs_bind_def hs_arm_def)
      have v: "v = PROTOCOL_VERSION"
        using x assms(1) by (rule_tac ccontr) (simp add: answer_hello_def check_protocol_def hs_seq_def hs_bind_def hs_send_def split: list.splits bool.splits)
      obtain nonce_i where n: "ip_b64_dec p n64 = Some nonce_i" "b64d p n64 = Inr nonce_i"
        using x v assms(1) by (auto simp: answer_hello_def check_protocol_def hs_bind_def b64d_def split: option.splits)
      have "x = answer_preimage i store nonce_i fp_i"
        by (rule signsD [OF answer_signs [OF n(2)] _ x]) (simp add: assms(1))
      with n v 4 VerifyHello show ?thesis by auto
    qed (use assms ok 4 in \<open>auto simp: verify_responder_def hs_seq_def hs_bind_def hs_arm_def\<close>)
  qed (use assms ok in \<open>auto simp: verify_responder_def hs_seq_def hs_bind_def hs_arm_def\<close>)
qed

section \<open>The signed messages are told apart\<close>

lemma labels_apart:
  "VERIFY_LABEL @ x \<noteq> UNPAIRED_LABEL @ y" "SEC_LABEL_I @ x \<noteq> UNPAIRED_LABEL @ y" "SEC_LABEL_R @ x \<noteq> UNPAIRED_LABEL @ y"
  "SEC_LABEL_I @ x \<noteq> VERIFY_LABEL @ y" "SEC_LABEL_R @ x \<noteq> VERIFY_LABEL @ y"
  by (simp_all add: VERIFY_LABEL_def UNPAIRED_LABEL_def SEC_LABEL_I_def SEC_LABEL_R_def str_bytes_def)

lemma preimages_apart:
  "verify_preimage n a b \<noteq> unpaired_preimage n' a' b'" "sig_preimage_i e n \<noteq> unpaired_preimage n' a' b'"
  "sig_preimage_r e n e' \<noteq> unpaired_preimage n' a' b'" "sig_preimage_i e n \<noteq> verify_preimage n' a' b'"
  "sig_preimage_r e n e' \<noteq> verify_preimage n' a' b'"
  by (simp_all add: verify_preimage_def unpaired_preimage_def sig_preimage_i_def sig_preimage_r_def labels_apart)

lemma verify_preimage_eq:
  "length a = length a' \<Longrightarrow> length b = length b' \<Longrightarrow> verify_preimage n a b = verify_preimage n' a' b' \<longleftrightarrow> n = n' \<and> a = a' \<and> b = b'"
  by (auto simp: verify_preimage_def append_eq_append_conv)

lemma unpaired_preimage_eq:
  "unpaired_preimage n a b = unpaired_preimage n' a' b' \<longleftrightarrow> n @ str_bytes a @ str_bytes b = n' @ str_bytes a' @ str_bytes b'"
  by (simp add: unpaired_preimage_def)

lemma same_tail: "length a = length a' \<Longrightarrow> length b = length b' \<Longrightarrow>
    n @ str_bytes a @ str_bytes b = n' @ str_bytes a' @ str_bytes b' \<longleftrightarrow> n = n' \<and> a = a' \<and> b = b'"
  by (auto simp: append_eq_append_conv)

lemma length_fingerprint [simp]: "id_lawful p \<Longrightarrow> length (fingerprint_of p pk) = 16"
  by (simp add: fingerprint_of_def length_concat hex_byte_def id_lawfulD comp_def sum_list_triv)

section \<open>How a side can end\<close>

definition fails_only :: "(hs_error \<Rightarrow> bool) \<Rightarrow> 'a hsm \<Rightarrow> bool" where
  "fails_only P m \<longleftrightarrow> (\<forall>s e. fst (m s) = Inl e \<longrightarrow> P e)"

named_theorems fails_intros \<open>rules for the errors a handshake can end with\<close>

lemma fails_bind [fails_intros]: "fails_only P m \<Longrightarrow> (\<And>x. fails_only P (f x)) \<Longrightarrow> fails_only P (hs_bind m f)"
  unfolding fails_only_def hs_bind_def by (auto split: prod.splits sum.splits) (metis fst_conv)+

lemma fails_seq [fails_intros]: "fails_only P m \<Longrightarrow> fails_only P n \<Longrightarrow> fails_only P (hs_seq m n)"
  unfolding hs_seq_def by (rule fails_bind)

lemma fails_basic [fails_intros]:
  "fails_only P (hs_return x)" "P e \<Longrightarrow> fails_only P (hs_fail e)" "(\<And>e. r = Inl e \<Longrightarrow> P e) \<Longrightarrow> fails_only P (hs_lift r)"
  "P HsWrite \<Longrightarrow> fails_only P (hs_send msg)" "fails_only P (hs_send_ignored msg)" "fails_only P (hs_sign p i m)"
  "P HsRead \<Longrightarrow> P Hung \<Longrightarrow> fails_only P hs_recv"
  by (auto simp: fails_only_def hs_send_def hs_recv_def split: list.splits option.splits bool.splits if_splits)

lemma fails_if [fails_intros]: "fails_only P m \<Longrightarrow> fails_only P n \<Longrightarrow> fails_only P (if b then m else n)"
  by simp

lemma fails_option [fails_intros]:
  "fails_only P m \<Longrightarrow> (\<And>x. fails_only P (f x)) \<Longrightarrow> fails_only P (case r of None \<Rightarrow> m | Some x \<Rightarrow> f x)"
  by (cases r) auto

lemma fails_prod [fails_intros]: "(\<And>a b. fails_only P (f a b)) \<Longrightarrow> fails_only P (case r of (a, b) \<Rightarrow> f a b)"
  by (cases r) auto

lemma never_unpaired [simp]:
  "b64d p s \<noteq> Inl (UnpairedByPeer fp)" "pub_arr p s \<noteq> Inl (UnpairedByPeer fp)" "expect_ok m \<noteq> Inl (UnpairedByPeer fp)"
  "expect_response p m \<noteq> Inl (UnpairedByPeer fp)" "check_protocol v \<noteq> Inl (UnpairedByPeer fp)"
  "authenticate_unpaired p sg pk nonce i store \<noteq> Inl (UnpairedByPeer fp)"
proof -
  show b: "b64d p s \<noteq> Inl (UnpairedByPeer fp)" for s by (simp add: b64d_def split: option.splits)
  then show "pub_arr p s \<noteq> Inl (UnpairedByPeer fp)" for s by (auto simp: pub_arr_def split: sum.splits)
  then show "authenticate_unpaired p sg pk nonce i store \<noteq> Inl (UnpairedByPeer fp)"
    using b by (auto simp: authenticate_unpaired_def Let_def split: sum.splits option.splits)
  show "expect_ok m \<noteq> Inl (UnpairedByPeer fp)" by (cases m) auto
  show "check_protocol v \<noteq> Inl (UnpairedByPeer fp)" by (simp add: check_protocol_def)
  show "expect_response p m \<noteq> Inl (UnpairedByPeer fp)" for m
  proof (cases m)
    case (VerifyResponse a b c)
    then show ?thesis using b [of a] by (cases "b64d p a") auto
  qed auto
qed

lemma finish_never_unpaired: "fst (finish_verify p i store nonce_i nonce_r s) \<noteq> Inl (UnpairedByPeer fp)"
proof -
  have "fails_only (\<lambda>e. e \<noteq> UnpairedByPeer fp) (finish_verify p i store nonce_i nonce_r)"
    unfolding finish_verify_def Let_def by (intro fails_intros) auto
  then show ?thesis by (auto simp: fails_only_def)
qed

lemma authenticate_unpaired_Inr:
  assumes "authenticate_unpaired p sig_b64 pk nonce_i i store = Inr fp"
  obtains q sg where "ps_find fp store = Some q" and "fp \<noteq> li_fingerprint i" and "ip_b64_dec p sig_b64 = Some sg"
    and "verify_sig p (pp_public_key_b64 q) (unpaired_preimage nonce_i fp (li_fingerprint i)) sg"
  using assms that
  by (auto simp: authenticate_unpaired_def b64d_def Let_def split: if_splits sum.splits option.splits)

text \<open>A refusal is reported only for a frame that passed the check.\<close>

lemma unpaired_cases:
  assumes "fst (verify_initiator p i store nonce_i s) = Inl (UnpairedByPeer fp)"
  obtains sig_b64 pk rest where "hs_inbox s = Some (Unpaired sig_b64 pk) # rest"
    and "authenticate_unpaired p sig_b64 pk nonce_i i store = Inr fp"
proof -
  let ?hello = "VerifyHello (li_fingerprint i) (ip_b64_enc p nonce_i) PROTOCOL_VERSION"
  have arm: "hs_arm_ok s" using assms by (auto simp: verify_initiator_def hs_seq_def hs_bind_def hs_arm_def split: if_splits)
  obtain t where t: "hs_send ?hello (s\<lparr>hs_deadline := True\<rparr>) = (Inr (), t)" "hs_inbox t = hs_inbox s"
    using assms arm by (auto simp: verify_initiator_def hs_seq_def hs_bind_def hs_arm_def hs_send_def split: list.splits bool.splits if_splits)
  have v: "verify_initiator p i store nonce_i s =
      hs_bind hs_recv (\<lambda>r1. hs_bind (hs_lift (expect_challenge p i store nonce_i r1)) (finish_verify p i store nonce_i)) t"
    using arm t(1) by (simp add: verify_initiator_def hs_seq_def hs_bind_def hs_arm_def)
  show thesis
  proof (cases rule: recv_cases [of t])
    case (4 m rest)
    then have e: "fst (hs_bind (hs_lift (expect_challenge p i store nonce_i m)) (finish_verify p i store nonce_i) (t\<lparr>hs_inbox := rest\<rparr>)) =
        Inl (UnpairedByPeer fp)" using assms v by simp
    then have "expect_challenge p i store nonce_i m = Inl (UnpairedByPeer fp)"
      by (cases "expect_challenge p i store nonce_i m") (simp_all add: finish_never_unpaired)
    with 4 t(2) that show thesis by (cases m) (auto split: sum.splits)
  qed (use assms v in \<open>auto simp: hs_bind_def\<close>)
qed

text \<open>A peer is accepted only after its signature over the fresh nonce has been checked with the stored key.\<close>

lemma accepted_cases:
  assumes "verify_initiator p i store nonce_i s = (Inr peer, t)"
  obtains n64 sig_b64 pk name rest fp q sg
  where "hs_inbox s = Some (VerifyChallenge n64 PROTOCOL_VERSION) # Some (VerifyResponse sig_b64 pk name) # Some OkMsg # rest"
    and "ps_find fp store = Some q" and "fp \<noteq> li_fingerprint i" and "peer = adopt_name q name"
    and "ip_b64_dec p sig_b64 = Some sg" and "verify_sig p (pp_public_key_b64 q) (verify_preimage nonce_i fp (li_fingerprint i)) sg"
proof -
  have recv: "hs_recv u = (Inr m, w) \<longleftrightarrow> (\<exists>rest. hs_inbox u = Some m # rest \<and> w = u\<lparr>hs_inbox := rest\<rparr>)" for u m w
    by (auto simp: hs_recv_def split: list.splits option.splits)
  have send: "hs_send msg u = (Inr (), w) \<Longrightarrow> hs_inbox w = hs_inbox u" for msg u w
    by (auto simp: hs_send_def split: list.splits bool.splits)
  have arm: "hs_arm u = (Inr x, w) \<Longrightarrow> hs_inbox w = hs_inbox u" for u x w
    by (auto simp: hs_arm_def split: if_splits)
  have chal: "expect_challenge p i store nonce_i m = Inr n \<Longrightarrow> \<exists>n64. m = VerifyChallenge n64 PROTOCOL_VERSION" for m n
    by (cases m) (auto simp: check_protocol_def split: sum.splits if_splits)
  have resp: "expect_response p m = Inr (sg, pk, nm) \<Longrightarrow> \<exists>s64. m = VerifyResponse s64 pk nm \<and> ip_b64_dec p s64 = Some sg" for m sg pk nm
    by (cases m) (auto simp: b64d_def split: option.splits)
  have okm: "expect_ok m = Inr x \<Longrightarrow> m = OkMsg" for m x by (cases m) auto
  from assms obtain s1 s2 s3 m1 nonce_r where 1: "hs_arm s = (Inr (), s1)"
      "hs_send (VerifyHello (li_fingerprint i) (ip_b64_enc p nonce_i) PROTOCOL_VERSION) s1 = (Inr (), s2)"
      "hs_recv s2 = (Inr m1, s3)" "expect_challenge p i store nonce_i m1 = Inr nonce_r"
      "finish_verify p i store nonce_i nonce_r s3 = (Inr peer, t)"
    by (auto simp: verify_initiator_def hs_seq_Inr_iff hs_bind_Inr_iff)
  from 1(5) obtain m2 s4 sg pk nm where 2: "hs_recv s3 = (Inr m2, s4)" "expect_response p m2 = Inr (sg, pk, nm)"
      "hs_bind (hs_lift (pub_arr p pk)) (\<lambda>pub_r.
         let fp_r = fingerprint_of p pub_r in
         if fp_r = li_fingerprint i then hs_fail (SelfConnection fp_r)
         else case ps_find fp_r store of None \<Rightarrow> hs_fail UnknownPeer
         | Some peer \<Rightarrow>
             if \<not> verify_sig p (pp_public_key_b64 peer) (verify_preimage nonce_i fp_r (li_fingerprint i)) sg
             then hs_seq (hs_send_ignored (ErrorMsg ''signature verification failed'')) (hs_fail SignatureFailed)
             else
               hs_bind (hs_sign p i (verify_preimage nonce_r (li_fingerprint i) fp_r)) (\<lambda>sg.
               hs_seq (hs_send (VerifyResponse (ip_b64_enc p sg) (id_public_key_b64 p i) (li_name i)))
              (hs_bind hs_recv (\<lambda>r3. hs_seq (hs_lift (expect_ok r3)) (hs_return (adopt_name peer nm)))))) s4 = (Inr peer, t)"
    by (auto simp: finish_verify_def hs_bind_Inr_iff)
  from 2(3) obtain fp q msg s5 s6 s7 m3 where 3: "ps_find fp store = Some q" "fp \<noteq> li_fingerprint i"
      "verify_sig p (pp_public_key_b64 q) (verify_preimage nonce_i fp (li_fingerprint i)) sg"
      "hs_send msg s5 = (Inr (), s6)" "hs_inbox s5 = hs_inbox s4" "hs_recv s6 = (Inr m3, s7)" "expect_ok m3 = Inr ()" "peer = adopt_name q nm"
    by (cases "pub_arr p pk") (force simp: Let_def hs_bind_Inr_iff hs_seq_Inr_iff split: if_splits option.splits)+
  have "hs_inbox s = Some m1 # hs_inbox s3" using 1(1-3) arm send recv by auto
  moreover have "hs_inbox s3 = Some m2 # hs_inbox s4" using 2(1) recv by auto
  moreover have "hs_inbox s4 = Some m3 # hs_inbox s7" using 3(4-6) send recv by auto
  moreover obtain n64 where "m1 = VerifyChallenge n64 PROTOCOL_VERSION" using chal [OF 1(4)] by blast
  moreover obtain s64 where "m2 = VerifyResponse s64 pk nm" "ip_b64_dec p s64 = Some sg" using resp [OF 2(2)] by blast
  moreover have "m3 = OkMsg" by (rule okm [OF 3(7)])
  ultimately show thesis using that 3 by auto
qed

section \<open>Authenticity of refusals and acceptances\<close>

text \<open>
  What the key of one machine is used for: the two sides of the verification, with the store, the
  nonce and the frames of that run, and the two sides of the channel handshake, which sign under
  labels of their own.
\<close>

datatype id_run =
    AsInitiator peer_store bytes hs
  | AsResponder peer_store bytes hs
  | AsSecInitiator bytes bytes
  | AsSecResponder bytes bytes bytes

fun signed_in :: "'a id_prims_scheme \<Rightarrow> local_identity \<Rightarrow> id_run \<Rightarrow> bytes list" where
  "signed_in p r (AsInitiator st n s) = hs_signed (snd (verify_initiator p r st n (s\<lparr>hs_signed := []\<rparr>)))"
| "signed_in p r (AsResponder st n s) = hs_signed (snd (verify_responder p r st n (s\<lparr>hs_signed := []\<rparr>)))"
| "signed_in p r (AsSecInitiator eph n) = [sig_preimage_i eph n]"
| "signed_in p r (AsSecResponder eph n eph_i) = [sig_preimage_r eph n eph_i]"

fun run_store :: "id_run \<Rightarrow> peer_store" where
  "run_store (AsInitiator st _ _) = st"
| "run_store (AsResponder st _ _) = st"
| "run_store _ = []"

fun msg_sigs :: "control_msg \<Rightarrow> string list" where
  "msg_sigs (Unpaired sg _) = [sg]"
| "msg_sigs (VerifyResponse sg _ _) = [sg]"
| "msg_sigs _ = []"

definition inbox_sigs :: "hs \<Rightarrow> string list" where
  "inbox_sigs s = concat (map (\<lambda>m. case m of None \<Rightarrow> [] | Some m \<Rightarrow> msg_sigs m) (hs_inbox s))"

text \<open>
  No forged signature reaches the run: if one of the signatures that arrive verifies under the key of
  \<open>r\<close> for the message \<open>m\<close>, then \<open>r\<close> has signed \<open>m\<close> in one of its runs.
\<close>

definition not_forged :: "'a id_prims_scheme \<Rightarrow> local_identity \<Rightarrow> id_run list \<Rightarrow> hs \<Rightarrow> bytes \<Rightarrow> bool" where
  "not_forged p r runs s m \<longleftrightarrow>
     (list_ex (\<lambda>s64. case ip_b64_dec p s64 of None \<Rightarrow> False | Some sg \<Rightarrow> verify_sig p (id_public_key_b64 p r) m sg) (inbox_sigs s) \<longrightarrow>
      list_ex (\<lambda>run. m \<in> set (signed_in p r run)) runs)"

lemma inbox_sigsI: "Some m \<in> set (hs_inbox s) \<Longrightarrow> sg \<in> set (msg_sigs m) \<Longrightarrow> sg \<in> set (inbox_sigs s)"
  by (force simp: inbox_sigs_def)

lemma not_forgedD:
  assumes "not_forged p r runs s m" and "Some msg \<in> set (hs_inbox s)" and "s64 \<in> set (msg_sigs msg)"
    and "ip_b64_dec p s64 = Some sg" and "verify_sig p (id_public_key_b64 p r) m sg"
  obtains run where "run \<in> set runs" and "m \<in> set (signed_in p r run)"
  using assms(1,4,5) inbox_sigsI [OF assms(2,3)] unfolding not_forged_def list_ex_iff by (metis option.simps(5))

lemma initiator_signedD:
  assumes "m \<in> set (signed_in p r (AsInitiator st n t))"
  obtains nonce_r w where "w \<in> set st" and "m = verify_preimage nonce_r (li_fingerprint r) (pp_fingerprint w)"
  using signsD [OF initiator_signs, of "t\<lparr>hs_signed := []\<rparr>" m p r st n] assms by auto

lemma responder_signedD:
  assumes "m \<in> set (signed_in p r (AsResponder st n t))"
  obtains fp_x n64 nonce rest where "hs_inbox t = Some (VerifyHello fp_x n64 PROTOCOL_VERSION) # rest"
    and "ip_b64_dec p n64 = Some nonce" and "m = answer_preimage r st nonce fp_x"
  using responder_signs [of "t\<lparr>hs_signed := []\<rparr>" m p r st n] assms by auto

lemma id_fp: "li_fingerprint (id_from_key p nm k) = fingerprint_of p (ip_ed_pub p k)"
  by (simp add: id_from_key_def)

text \<open>
  A pairing is dropped only for a refusal its peer has made. If the dialling side reports that the
  peer with the stored key of \<open>r\<close> has unpaired, and no forged signature has arrived, then \<open>r\<close> has
  answered, as the listening side of some run, an opening frame naming a machine that was not in its
  store; what it signed spells the same bytes as our nonce, its fingerprint and ours, and if the name
  in that frame had the length of a fingerprint it was ours, with our nonce. No signature made for a
  verification or for a channel can be passed off as a refusal, whoever collected it.
\<close>

theorem refusal_is_authentic:
  assumes "id_lawful p" and "i = id_from_key p nm_i key_i" and "r = id_from_key p nm_r key_r"
    and "fst (verify_initiator p i store nonce_i s) = Inl (UnpairedByPeer fp)"
    and "map_option pp_public_key_b64 (ps_find fp store) = Some (id_public_key_b64 p r)" and "fp = li_fingerprint r"
    and "not_forged p r runs s (unpaired_preimage nonce_i fp (li_fingerprint i))"
  shows "\<exists>st nr t fp_x n64 nonce rest. AsResponder st nr t \<in> set runs \<and>
    hs_inbox t = Some (VerifyHello fp_x n64 PROTOCOL_VERSION) # rest \<and> ip_b64_dec p n64 = Some nonce \<and> ps_find fp_x st = None \<and>
    nonce @ str_bytes fp @ str_bytes fp_x = nonce_i @ str_bytes fp @ str_bytes (li_fingerprint i) \<and>
    (length fp_x = 16 \<longrightarrow> fp_x = li_fingerprint i \<and> nonce = nonce_i)"
proof -
  let ?m = "unpaired_preimage nonce_i fp (li_fingerprint i)"
  obtain s64 pk rest where in_s: "hs_inbox s = Some (Unpaired s64 pk) # rest"
    and auth: "authenticate_unpaired p s64 pk nonce_i i store = Inr fp"
    by (rule unpaired_cases [OF assms(4)])
  from auth obtain q sg where q: "ps_find fp store = Some q" "ip_b64_dec p s64 = Some sg" "verify_sig p (pp_public_key_b64 q) ?m sg"
    by (rule authenticate_unpaired_Inr)
  with assms(5) have ver: "verify_sig p (id_public_key_b64 p r) ?m sg" by simp
  have mem: "Some (Unpaired s64 pk) \<in> set (hs_inbox s)" "s64 \<in> set (msg_sigs (Unpaired s64 pk))" using in_s by simp_all
  obtain run where run: "run \<in> set runs" "?m \<in> set (signed_in p r run)"
    by (rule not_forgedD [OF assms(7) mem q(2) ver])
  show ?thesis
  proof (cases run)
    case (AsInitiator st n t)
    from run(2) [unfolded this] show ?thesis by (rule initiator_signedD) (simp add: preimages_apart [THEN not_sym])
  next
    case (AsResponder st n t)
    obtain fp_x n64 nonce rest' where x: "hs_inbox t = Some (VerifyHello fp_x n64 PROTOCOL_VERSION) # rest'"
        "ip_b64_dec p n64 = Some nonce" "?m = answer_preimage r st nonce fp_x"
      by (rule responder_signedD [OF run(2) [unfolded AsResponder]])
    then have none: "ps_find fp_x st = None" and eq: "?m = unpaired_preimage nonce fp fp_x"
      using assms(6) by (auto simp: answer_preimage_def preimages_apart [THEN not_sym] split: if_splits)
    have len: "length (li_fingerprint i) = 16" by (simp add: assms(1,2) id_fp)
    from eq have e: "nonce @ str_bytes fp @ str_bytes fp_x = nonce_i @ str_bytes fp @ str_bytes (li_fingerprint i)"
      by (simp add: unpaired_preimage_eq)
    with len have "length fp_x = 16 \<longrightarrow> fp_x = li_fingerprint i \<and> nonce = nonce_i" by (auto simp: same_tail)
    with AsResponder run(1) x none e show ?thesis by metis
  qed (use run(2) in \<open>simp_all add: preimages_apart [THEN not_sym]\<close>)
qed

text \<open>
  C16. A dialled peer is accepted only if it took part: if the dialling side accepts the record with the
  stored key of \<open>r\<close>, no forged signature has arrived, and every fingerprint in the stores of \<open>r\<close> has
  the length of one, then \<open>r\<close> has a run in which it knows this machine and in which it signed this
  machine's fresh nonce, either answering our opening frame or dialling us itself. The accepted record
  is the stored one with at most its name changed.
\<close>

theorem acceptance_is_authentic:
  assumes "id_lawful p" and "i = id_from_key p nm_i key_i" and "r = id_from_key p nm_r key_r"
    and "verify_initiator p i store nonce_i s = (Inr peer, s')"
    and "map_option pp_public_key_b64 (ps_find (pp_fingerprint peer) store) = Some (id_public_key_b64 p r)"
    and "pp_fingerprint peer = li_fingerprint r"
    and "\<forall>run \<in> set runs. \<forall>q \<in> set (run_store run). length (pp_fingerprint q) = 16"
    and "not_forged p r runs s (verify_preimage nonce_i (li_fingerprint r) (li_fingerprint i))"
  shows "(\<exists>run \<in> set runs. ps_find (li_fingerprint i) (run_store run) \<noteq> None \<and>
      verify_preimage nonce_i (li_fingerprint r) (li_fingerprint i) \<in> set (signed_in p r run) \<and>
      (case run of
         AsResponder st nr t \<Rightarrow> \<exists>n64 rest. hs_inbox t = Some (VerifyHello (li_fingerprint i) n64 PROTOCOL_VERSION) # rest \<and>
           ip_b64_dec p n64 = Some nonce_i
       | AsInitiator st nr t \<Rightarrow> True
       | _ \<Rightarrow> False)) \<and>
    (\<exists>q name. ps_find (pp_fingerprint peer) store = Some q \<and> peer = adopt_name q name)"
proof -
  let ?m = "verify_preimage nonce_i (li_fingerprint r) (li_fingerprint i)"
  obtain n64 s64 pk name rest fp q sg where in_s:
      "hs_inbox s = Some (VerifyChallenge n64 PROTOCOL_VERSION) # Some (VerifyResponse s64 pk name) # Some OkMsg # rest"
      and q: "ps_find fp store = Some q" "peer = adopt_name q name" "ip_b64_dec p s64 = Some sg"
        "verify_sig p (pp_public_key_b64 q) (verify_preimage nonce_i fp (li_fingerprint i)) sg"
    by (rule accepted_cases [OF assms(4)])
  have fp: "fp = li_fingerprint r" using q(1,2) ps_find_Some [OF q(1)] assms(6) by (auto simp: adopt_name_def Let_def split: if_splits)
  have ver: "verify_sig p (id_public_key_b64 p r) ?m sg" using q fp assms(5,6) by simp
  have mem: "Some (VerifyResponse s64 pk name) \<in> set (hs_inbox s)" "s64 \<in> set (msg_sigs (VerifyResponse s64 pk name))"
    using in_s by simp_all
  obtain run where run: "run \<in> set runs" "?m \<in> set (signed_in p r run)"
    by (rule not_forgedD [OF assms(8) mem q(3) ver])
  have len: "length (li_fingerprint i) = 16" by (simp add: assms(1,2) id_fp)
  have "ps_find (li_fingerprint i) (run_store run) \<noteq> None \<and> (case run of
         AsResponder st nr t \<Rightarrow> \<exists>n64 rest. hs_inbox t = Some (VerifyHello (li_fingerprint i) n64 PROTOCOL_VERSION) # rest \<and>
           ip_b64_dec p n64 = Some nonce_i
       | AsInitiator st nr t \<Rightarrow> True | _ \<Rightarrow> False)"
  proof (cases run)
    case (AsInitiator st n t)
    obtain nonce_r w where "w \<in> set st" "?m = verify_preimage nonce_r (li_fingerprint r) (pp_fingerprint w)"
      by (rule initiator_signedD [OF run(2) [unfolded AsInitiator]])
    moreover from this have "pp_fingerprint w = li_fingerprint i"
      using assms(7) run(1) AsInitiator len by (subst (asm) verify_preimage_eq) auto
    ultimately show ?thesis using AsInitiator by (simp add: ps_find_None) (metis imageI)
  next
    case (AsResponder st n t)
    obtain fp_x n64 nonce rest' where x: "hs_inbox t = Some (VerifyHello fp_x n64 PROTOCOL_VERSION) # rest'"
        "ip_b64_dec p n64 = Some nonce" "?m = answer_preimage r st nonce fp_x"
      by (rule responder_signedD [OF run(2) [unfolded AsResponder]])
    then have some: "ps_find fp_x st \<noteq> None" and eq: "?m = verify_preimage nonce (li_fingerprint r) fp_x"
      by (auto simp: answer_preimage_def preimages_apart split: if_splits)
    from some assms(7) run(1) AsResponder have "length fp_x = 16" by (fastforce dest: ps_find_Some)
    with eq len have "fp_x = li_fingerprint i" "nonce = nonce_i" by (subst (asm) verify_preimage_eq; simp)+
    with AsResponder x some show ?thesis by auto
  qed (use run(2) in \<open>simp_all add: preimages_apart [THEN not_sym]\<close>)
  with run q fp assms(6) show ?thesis by auto
qed

section \<open>Two sides joined\<close>

text \<open>
  Each side writes what it can with the frames it has been given; what one has written is what the
  other has been given in the next round.
\<close>

fun exchange :: "nat \<Rightarrow> (control_msg list \<Rightarrow> control_msg list) \<Rightarrow> (control_msg list \<Rightarrow> control_msg list) \<Rightarrow>
    control_msg list \<times> control_msg list" where
  "exchange 0 f g = ([], [])"
| "exchange (Suc n) f g = (case exchange n f g of (a, b) \<Rightarrow> (g b, f a))"

lemma exchange_fixed: "exchange k f g = (a, b) \<Longrightarrow> g b = a \<Longrightarrow> f a = b \<Longrightarrow> exchange (n + k) f g = (a, b)"
  by (induction n) auto

definition verify_out_i :: "'a id_prims_scheme \<Rightarrow> local_identity \<Rightarrow> peer_store \<Rightarrow> bytes \<Rightarrow> control_msg list \<Rightarrow> control_msg list" where
  "verify_out_i p i st n a = hs_out (snd (verify_initiator p i st n (hs_new False a)))"

definition verify_out_r :: "'a id_prims_scheme \<Rightarrow> local_identity \<Rightarrow> peer_store \<Rightarrow> bytes \<Rightarrow> control_msg list \<Rightarrow> control_msg list" where
  "verify_out_r p r st n b = hs_out (snd (verify_responder p r st n (hs_new False b)))"

definition hello_msg :: "'a id_prims_scheme \<Rightarrow> local_identity \<Rightarrow> bytes \<Rightarrow> control_msg" where
  "hello_msg p i n = VerifyHello (li_fingerprint i) (ip_b64_enc p n) PROTOCOL_VERSION"

definition response_msg :: "'a id_prims_scheme \<Rightarrow> local_identity \<Rightarrow> bytes \<Rightarrow> string \<Rightarrow> control_msg" where
  "response_msg p i n fp = VerifyResponse (ip_b64_enc p (id_sign p i (verify_preimage n (li_fingerprint i) fp)))
     (id_public_key_b64 p i) (li_name i)"

definition refusal_msg :: "'a id_prims_scheme \<Rightarrow> local_identity \<Rightarrow> bytes \<Rightarrow> string \<Rightarrow> control_msg" where
  "refusal_msg p r n fp = Unpaired (ip_b64_enc p (id_sign p r (unpaired_preimage n (li_fingerprint r) fp))) (id_public_key_b64 p r)"

definition knows :: "'a id_prims_scheme \<Rightarrow> peer_store \<Rightarrow> local_identity \<Rightarrow> paired_peer \<Rightarrow> bool" where
  "knows p st r q \<longleftrightarrow> ps_find (li_fingerprint r) st = Some q \<and> pp_public_key_b64 q = id_public_key_b64 p r"

lemma fp_of_own: "i = id_from_key p nm k \<Longrightarrow> fingerprint_of p (id_public_key_bytes p i) = li_fingerprint i"
  by (simp add: id_from_key_def id_public_key_bytes_def)

lemma nonempty_b64:
  assumes "id_lawful p"
  shows "ip_b64_enc p (id_sign p r m) \<noteq> []" and "id_public_key_b64 p r \<noteq> []"
proof -
  have "id_sign p r m \<noteq> []" "id_public_key_bytes p r \<noteq> []"
    using id_lawfulD(2,3) [OF assms] by (auto simp: id_sign_def id_public_key_bytes_def simp flip: length_greater_0_conv)
  with id_lawfulD(6) [OF assms] show "ip_b64_enc p (id_sign p r m) \<noteq> []" "id_public_key_b64 p r \<noteq> []"
    by (simp_all add: id_public_key_b64_def)
qed

lemmas verify_eval = verify_out_i_def verify_out_r_def verify_initiator_def finish_verify_def verify_responder_def
  answer_hello_def hs_eval hello_msg_def response_msg_def check_protocol_def

lemma initiator_run:
  fixes nr ni :: bytes
  assumes "id_lawful p" and "r = id_from_key p nm k" and "knows p st r q" and "li_fingerprint i \<noteq> li_fingerprint r"
  defines "c \<equiv> VerifyChallenge (ip_b64_enc p nr) PROTOCOL_VERSION"
  defines "resp \<equiv> response_msg p r ni (li_fingerprint i)"
  shows "verify_out_i p i st ni [] = [hello_msg p i ni]"
    and "verify_out_i p i st ni [c, resp] = [hello_msg p i ni, response_msg p i nr (li_fingerprint r)]"
    and "verify_out_i p i st ni [c, resp, OkMsg] = [hello_msg p i ni, response_msg p i nr (li_fingerprint r)]"
    and "fst (verify_initiator p i st ni (hs_new False [c, resp, OkMsg])) = Inr (adopt_name q (li_name r))"
  using assms fp_of_own [OF assms(2)] by (simp_all add: verify_eval knows_def)

lemma responder_run:
  fixes nr ni :: bytes and r :: local_identity
  assumes "id_lawful p" and "knows p st i q"
  defines "c \<equiv> VerifyChallenge (ip_b64_enc p nr) PROTOCOL_VERSION"
  defines "resp \<equiv> response_msg p r ni (li_fingerprint i)"
  shows "verify_out_r p r st nr [] = []"
    and "verify_out_r p r st nr [hello_msg p i ni] = [c, resp]"
    and "verify_out_r p r st nr [hello_msg p i ni, response_msg p i nr (li_fingerprint r)] = [c, resp, OkMsg]"
    and "fst (verify_responder p r st nr (hs_new False [hello_msg p i ni, response_msg p i nr (li_fingerprint r)])) =
      Inr (adopt_name q (li_name i))"
  using assms by (simp_all add: verify_eval knows_def)

lemma refusal_run:
  assumes "id_lawful p" and "r = id_from_key p nm k" and "knows p st r q" and "li_fingerprint i \<noteq> li_fingerprint r"
    and "ps_find (li_fingerprint i) st_r = None"
  shows "verify_out_r p r st_r nr [hello_msg p i ni] = [refusal_msg p r ni (li_fingerprint i)]"
    and "fst (verify_responder p r st_r nr (hs_new False [hello_msg p i ni])) = Inl UnknownPeer"
    and "verify_out_i p i st ni [refusal_msg p r ni (li_fingerprint i)] = [hello_msg p i ni]"
    and "fst (verify_initiator p i st ni (hs_new False [refusal_msg p r ni (li_fingerprint i)])) = Inl (UnpairedByPeer (li_fingerprint r))"
  using assms fp_of_own [OF assms(2)] nonempty_b64 [OF assms(1)]
  by (simp_all add: verify_eval knows_def refusal_msg_def authenticate_unpaired_def)

text \<open>
  The two sides of the verification fit together. Between honest machines, of which the dialling
  one has the other on file, four rounds settle it: if the other has it on file too, both accept, each
  with the other's stored record under the name the other just gave; if not, the listening side refuses
  and the dialling side learns, with proof, that exactly this peer has unpaired.
\<close>

theorem verification_outcome:
  assumes "id_lawful p" and "i = id_from_key p nm_i key_i" and "r = id_from_key p nm_r key_r"
    and "li_fingerprint i \<noteq> li_fingerprint r" and "knows p st_i r q_r"
    and "ps_find (li_fingerprint i) st_r = None \<or> knows p st_r i q_i"
  shows "case exchange (n + 4) (verify_out_i p i st_i ni) (verify_out_r p r st_r nr) of (a, b) \<Rightarrow>
    fst (verify_initiator p i st_i ni (hs_new False a)) =
      (if ps_find (li_fingerprint i) st_r = None then Inl (UnpairedByPeer (li_fingerprint r)) else Inr (adopt_name q_r nm_r)) \<and>
    fst (verify_responder p r st_r nr (hs_new False b)) =
      (if ps_find (li_fingerprint i) st_r = None then Inl UnknownPeer else Inr (adopt_name q_i nm_i))"
proof (cases "ps_find (li_fingerprint i) st_r = None")
  case True
  note I = initiator_run(1) [OF assms(1,3,5,4)] and R = refusal_run [OF assms(1,3,5,4) True]
  have r0: "verify_out_r p r st_r nr [] = []" by (simp add: verify_eval)
  have "exchange 4 (verify_out_i p i st_i ni) (verify_out_r p r st_r nr) =
      ([refusal_msg p r ni (li_fingerprint i)], [hello_msg p i ni])"
    by (simp add: numeral_eq_Suc I R r0)
  from exchange_fixed [OF this R(1) R(3)] show ?thesis using True R by simp
next
  case False
  with assms(6) have k: "knows p st_r i q_i" by simp
  note I = initiator_run [OF assms(1,3,5,4)] and R = responder_run [OF assms(1) k]
  let ?a = "[VerifyChallenge (ip_b64_enc p nr) PROTOCOL_VERSION, response_msg p r ni (li_fingerprint i), OkMsg]"
    and ?b = "[hello_msg p i ni, response_msg p i nr (li_fingerprint r)]"
  have "exchange 4 (verify_out_i p i st_i ni) (verify_out_r p r st_r nr) = (?a, ?b)"
    by (simp add: numeral_eq_Suc I R)
  from exchange_fixed [OF this R(3) I(3)] show ?thesis
    using False I R by (simp add: assms(2,3)) (simp add: id_from_key_def)
qed

section \<open>The outcome of a pairing\<close>

text \<open>
  What is documented of SPAKE2 and HMAC: the two ends of a run derive the same key from the same
  password and different keys from different passwords; tags of one message under different keys differ.
\<close>

definition pake_lawful :: "'a pair_prims_scheme \<Rightarrow> bool" where
  "pake_lawful p \<longleftrightarrow>
     (\<forall>w v x y. \<exists>k l. pr_spake_finish p True w x (pr_spake_msg p False v y) = Some k \<and>
        pr_spake_finish p False v y (pr_spake_msg p True w x) = Some l \<and> (k = l \<longleftrightarrow> w = v)) \<and>
     (\<forall>k l m. pr_hmac p k m = pr_hmac p l m \<longleftrightarrow> k = l)"

definition pair_out_i :: "'a pair_prims_scheme \<Rightarrow> string \<Rightarrow> local_identity \<Rightarrow> u16 \<Rightarrow> bytes \<Rightarrow> u64 \<Rightarrow> string \<Rightarrow> u16 \<Rightarrow> peer_store \<Rightarrow>
    control_msg list \<Rightarrow> control_msg list" where
  "pair_out_i p pin i lport x now ip port st a = hs_out (snd (snd (pair_outbound p pin i lport x now ip port (Some st) (hs_new True a))))"

definition pair_out_r :: "'a pair_prims_scheme \<Rightarrow> string \<Rightarrow> local_identity \<Rightarrow> bytes \<Rightarrow> u64 \<Rightarrow> string \<Rightarrow> (u16 \<Rightarrow> bool) \<Rightarrow> peer_store \<Rightarrow>
    control_msg list \<Rightarrow> control_msg list" where
  "pair_out_r p pin r y now ip own st b = hs_out (snd (snd (pair_inbound p pin r y now ip own (Some st) (hs_new True b))))"

lemmas pair_eval = pair_out_i_def pair_out_r_def pair_outbound_def pair_inbound_def pair_initiator_def pair_responder_def
  hs_eval confirm_mac_ok_def persist_peer_def new_peer_def

text \<open>
  Pairing succeeds exactly with the right PIN. Between honest machines four rounds settle it: with
  the same PIN both store a record holding the other's key, fingerprint, name and the address it came
  from, the listening side before it sends the last frame and without an advertised port that is its
  own; with different PINs neither store changes and the listening side reports the mismatch.
\<close>

theorem pairing_outcome:
  assumes "id_lawful p" and "pake_lawful p" and "i = id_from_key p nm_i key_i" and "r = id_from_key p nm_r key_r"
  shows "case exchange (n + 4) (pair_out_i p pin_i i lport x now_i ip_i port st_i) (pair_out_r p pin_r r y now_r ip_r own st_r) of
    (a, b) \<Rightarrow>
      case (pair_outbound p pin_i i lport x now_i ip_i port (Some st_i) (hs_new True a),
            pair_inbound p pin_r r y now_r ip_r own (Some st_r) (hs_new True b)) of
        ((res_i, file_i, _), (res_r, file_r, _)) \<Rightarrow>
          if pin_i = pin_r
          then res_i = Inr (li_fingerprint r) \<and> res_r = Inr () \<and>
            file_i = Some (ps_upsert \<lparr>pp_name = nm_r, pp_fingerprint = li_fingerprint r, pp_public_key_b64 = id_public_key_b64 p r,
              pp_last_addr = Some ip_i, pp_port = port, pp_added_unix = now_i, pp_alias = None\<rparr> st_i) \<and>
            file_r = Some (ps_upsert \<lparr>pp_name = nm_i, pp_fingerprint = li_fingerprint i, pp_public_key_b64 = id_public_key_b64 p i,
              pp_last_addr = Some ip_r, pp_port = (if own lport then 0 else lport), pp_added_unix = now_r, pp_alias = None\<rparr> st_r)
          else res_i = Inl (HsRefused ''pin mismatch'') \<and> res_r = Inl PinMismatch \<and> file_i = Some st_i \<and> file_r = Some st_r"
proof -
  let ?f = "pair_out_i p pin_i i lport x now_i ip_i port st_i" and ?g = "pair_out_r p pin_r r y now_r ip_r own st_r"
  let ?ma = "pr_spake_msg p True (str_bytes pin_i) x" and ?mb = "pr_spake_msg p False (str_bytes pin_r) y"
  from assms(2) obtain k l where kl: "pr_spake_finish p True (str_bytes pin_i) x ?mb = Some k"
      "pr_spake_finish p False (str_bytes pin_r) y ?ma = Some l" "k = l \<longleftrightarrow> str_bytes pin_i = str_bytes pin_r"
    unfolding pake_lawful_def by blast
  have mac: "pr_hmac p k m = pr_hmac p l m \<longleftrightarrow> pin_i = pin_r" for m
    using assms(2) kl(3) by (simp add: pake_lawful_def)
  have macs: "confirm_mac p k lab a b pub = confirm_mac p l lab a b pub \<longleftrightarrow> pin_i = pin_r" for lab a b pub
    by (simp add: confirm_mac_def mac)
  then have macs2: "confirm_mac p l lab a b pub = confirm_mac p k lab a b pub \<longleftrightarrow> pin_i = pin_r" for lab a b pub
    by metis
  let ?init = "PairInit (ip_b64_enc p ?ma) nm_i lport" and ?resp = "PairResp (ip_b64_enc p ?mb) nm_r"
  let ?ca = "PairConfirmA (ip_b64_enc p (confirm_mac p k CONFIRM_LABEL_A ?ma ?mb (id_public_key_bytes p i))) (id_public_key_b64 p i)"
  let ?cb = "PairConfirmB (ip_b64_enc p (confirm_mac p l CONFIRM_LABEL_B ?ma ?mb (id_public_key_bytes p r))) (id_public_key_b64 p r)"
  let ?tail = "if pin_i = pin_r then [?cb, OkMsg] else [ErrorMsg ''pin mismatch'']"
  have names: "li_name i = nm_i" "li_name r = nm_r" by (simp_all add: assms(3,4) id_from_key_def)
  have fps: "fingerprint_of p (id_public_key_bytes p i) = li_fingerprint i" "fingerprint_of p (id_public_key_bytes p r) = li_fingerprint r"
    using fp_of_own assms(3,4) by blast+
  have f: "?f [] = [?init]" "?f [?resp] = [?init, ?ca]" "?f (?resp # ?tail) = [?init, ?ca]"
    using kl assms(1) macs macs2 by (simp_all add: pair_eval names)
  have g: "?g [] = []" "?g [?init] = [?resp]" "?g [?init, ?ca] = ?resp # ?tail"
    using kl assms(1) macs macs2 by (simp_all add: pair_eval names)
  have "exchange 4 ?f ?g = (?resp # ?tail, [?init, ?ca])"
    by (simp only: numeral_eq_Suc BitM.simps pred_numeral_simps exchange.simps prod.case f g)
  note rounds = exchange_fixed [OF this g(3) f(3), of n]
  show ?thesis
    unfolding rounds prod.case using kl assms(1) macs macs2 by (simp add: pair_eval names fps)
qed

section \<open>What a dial does to the store\<close>

lemma after_dial_changes:
  assumes "snd (after_dial dialled res (Some ps)) \<noteq> Some ps"
  shows "res = Inl (UnpairedByPeer dialled)"
  using assms
  by (auto simp: after_dial_def drops_pairing_def split: sum.splits if_splits hs_error.splits)


section \<open>A concrete instance\<close>

definition toy_pair :: pair_prims where
  "toy_pair =
     \<lparr>ip_sha256 = \<lambda>m. take 32 (m @ replicate 32 0), ip_ed_pub = \<lambda>k. take 32 (k @ replicate 32 0),
      ip_ed_sign = \<lambda>k m. take 64 (m @ replicate 64 0), ip_ed_verify = \<lambda>pk m sg. sg = take 64 (m @ replicate 64 0),
      ip_b64_enc = map (\<lambda>b. char_of (unat b)), ip_b64_dec = \<lambda>s. Some (str_bytes s),
      pr_hmac = \<lambda>k m. k @ m, pr_spake_msg = \<lambda>a w x. [if a then 1 else 2], pr_spake_finish = \<lambda>a w x m. Some w\<rparr>"

lemma toy_id_lawful: "id_lawful toy_pair" and toy_pake: "pake_lawful toy_pair"
  by (auto simp: id_lawful_def pake_lawful_def toy_pair_def str_bytes_def comp_def)

definition toy_i :: local_identity where
  "toy_i = id_from_key toy_pair ''i'' [1]"

definition toy_r :: local_identity where
  "toy_r = id_from_key toy_pair ''r'' [2]"

definition toy_record :: "local_identity \<Rightarrow> paired_peer" where
  "toy_record r = \<lparr>pp_name = ''x'', pp_fingerprint = li_fingerprint r, pp_public_key_b64 = id_public_key_b64 toy_pair r,
     pp_last_addr = None, pp_port = 1, pp_added_unix = 1, pp_alias = None\<rparr>"

lemma toy_fps: "li_fingerprint toy_i = ''0100000000000000''" "li_fingerprint toy_r = ''0200000000000000''"
  by code_simp+

lemma toy_knows: "knows toy_pair [toy_record r] r (toy_record r)"
  by (simp add: knows_def toy_record_def ps_find_def)


theorem acceptance_witness:
  "let n = replicate 16 7; r = toy_r; i = toy_i; t = hs_new False [hello_msg toy_pair i n];
       s = hs_new False [VerifyChallenge (ip_b64_enc toy_pair [9]) PROTOCOL_VERSION, response_msg toy_pair r n (li_fingerprint i), OkMsg] in
     fst (verify_initiator toy_pair i [toy_record r] n s) = Inr (adopt_name (toy_record r) ''r'') \<and>
     (\<exists>run \<in> set [AsResponder [toy_record i] [9] t]. ps_find (li_fingerprint i) (run_store run) \<noteq> None)"
proof -
  let ?n = "replicate 16 7 :: bytes"
  let ?s = "hs_new False [VerifyChallenge (ip_b64_enc toy_pair [9]) PROTOCOL_VERSION, response_msg toy_pair toy_r ?n (li_fingerprint toy_i), OkMsg]"
  let ?run = "AsResponder [toy_record toy_i] [9] (hs_new False [hello_msg toy_pair toy_i ?n])"
  have ne: "li_fingerprint toy_i \<noteq> li_fingerprint toy_r" by (simp add: toy_fps)
  have acc: "fst (verify_initiator toy_pair toy_i [toy_record toy_r] ?n ?s) = Inr (adopt_name (toy_record toy_r) (li_name toy_r))"
    by (rule initiator_run(4) [OF toy_id_lawful toy_r_def toy_knows ne])
  then obtain s' where vi: "verify_initiator toy_pair toy_i [toy_record toy_r] ?n ?s = (Inr (adopt_name (toy_record toy_r) (li_name toy_r)), s')"
    by (metis prod.collapse)
  have fp: "pp_fingerprint (adopt_name (toy_record toy_r) (li_name toy_r)) = li_fingerprint toy_r"
    by (simp add: adopt_name_def toy_record_def Let_def)
  have key: "map_option pp_public_key_b64 (ps_find (pp_fingerprint (adopt_name (toy_record toy_r) (li_name toy_r))) [toy_record toy_r]) =
      Some (id_public_key_b64 toy_pair toy_r)"
    unfolding fp by (simp add: ps_find_def toy_record_def)
  have len: "\<forall>run \<in> set [?run]. \<forall>q \<in> set (run_store run). length (pp_fingerprint q) = 16"
    by (simp add: toy_record_def toy_fps)
  have "verify_preimage ?n (li_fingerprint toy_r) (li_fingerprint toy_i) \<in> set (signed_in toy_pair toy_r ?run)"
    using toy_knows [of toy_i, unfolded knows_def]
    by (simp add: verify_responder_def answer_hello_def hs_eval hello_msg_def check_protocol_def toy_id_lawful hs_new_def)
  then have nf: "not_forged toy_pair toy_r [?run] ?s (verify_preimage ?n (li_fingerprint toy_r) (li_fingerprint toy_i))"
    by (simp add: not_forged_def)
  have "li_name toy_r = ''r''" by (simp add: toy_r_def id_from_key_def)
  with acceptance_is_authentic [OF toy_id_lawful toy_i_def toy_r_def vi key fp len nf] acc show ?thesis by (auto simp: Let_def)
qed

theorem verification_outcome_witness:
  "fst (verify_initiator toy_pair toy_i [toy_record toy_r] [5] (hs_new False
      (fst (exchange (0 + 4) (verify_out_i toy_pair toy_i [toy_record toy_r] [5]) (verify_out_r toy_pair toy_r [] [6]))))) =
     Inl (UnpairedByPeer (li_fingerprint toy_r))"
proof -
  have ne: "li_fingerprint toy_i \<noteq> li_fingerprint toy_r" by (simp add: toy_fps)
  have none: "ps_find (li_fingerprint toy_i) [] = None" by (simp add: ps_find_def)
  from verification_outcome [OF toy_id_lawful toy_i_def toy_r_def ne toy_knows, where st_r = "[]" and n = 0 and ni = "[5]" and nr = "[6]"] none
  show ?thesis by (auto split: prod.splits)
qed

theorem pairing_outcome_witness:
  "case exchange (0 + 4) (pair_out_i toy_pair ''123456'' toy_i 1 [] 0 ''a'' 2 []) (pair_out_r toy_pair ''654321'' toy_r [] 0 ''b'' (\<lambda>_. False) []) of
     (a, b) \<Rightarrow> fst (pair_inbound toy_pair ''654321'' toy_r [] 0 ''b'' (\<lambda>_. False) (Some []) (hs_new True b)) = Inl PinMismatch"
  using pairing_outcome [OF toy_id_lawful toy_pake toy_i_def toy_r_def, where n = 0 and pin_i = "''123456''" and lport = 1 and x = "[]"
    and now_i = 0 and ip_i = "''a''" and port = 2 and st_i = "[]" and pin_r = "''654321''" and y = "[]" and now_r = 0 and ip_r = "''b''"
    and own = "\<lambda>_. False" and st_r = "[]"]
  by (auto split: prod.splits)

text \<open>
  The second alternative of the acceptance theorem is real: the signed bytes name the signer first on
  both sides, so a machine that relays can let two dialling sides accept each other. It asks the
  listening side of the first for a signature over the second's nonce, hands it to the second as the
  response, and hands the second's response to the first; neither ran the listening side for the other's
  connection. (Both then wait for the channel handshake, whose labels do name the role.)
\<close>

theorem two_dialling_sides_accept_each_other:
  assumes "id_lawful p" and "i = id_from_key p nm_i key_i" and "r = id_from_key p nm_r key_r"
    and "li_fingerprint i \<noteq> li_fingerprint r" and "knows p st_i r q_r" and "knows p st_r i q_i"
  shows "response_msg p i nr (li_fingerprint r) \<in> set (verify_out_r p i st_i nx [hello_msg p r nr]) \<and>
    response_msg p r ni (li_fingerprint i) \<in>
      set (verify_out_i p r st_r nr [VerifyChallenge (ip_b64_enc p ni) PROTOCOL_VERSION, response_msg p i nr (li_fingerprint r)]) \<and>
    fst (verify_initiator p i st_i ni (hs_new False
      [VerifyChallenge (ip_b64_enc p nx) PROTOCOL_VERSION, response_msg p r ni (li_fingerprint i), OkMsg])) = Inr (adopt_name q_r nm_r) \<and>
    fst (verify_initiator p r st_r nr (hs_new False
      [VerifyChallenge (ip_b64_enc p ni) PROTOCOL_VERSION, response_msg p i nr (li_fingerprint r), OkMsg])) = Inr (adopt_name q_i nm_i)"
  using responder_run(2) [OF assms(1,5), where r = i and nr = nx and ni = nr] initiator_run(2,4) [OF assms(1,2,6), where nr = ni and ni = nr] initiator_run(4) [OF assms(1,3,5,4), where nr = nx and ni = ni] assms(4)
  by (simp add: assms(2,3)) (simp add: id_from_key_def)

end
