(* ===== verification/Tlv8.thy ===== *)
theory Tlv8
  imports Interfaces
begin

text \<open>
  The bounded TLV8 framing of the AirPlay pairing messages
  (core/audiohub-airplay/src/protocol/tlv8.rs). A message is a list of logical fields; a value
  longer than 255 bytes travels as several adjacent records of one tag. The theory models the
  limits, the error values, validation, the encoder and the decoder, and shows that the decoder
  undoes the encoder and never exceeds its limits.
\<close>

section \<open>Data\<close>

definition STATE_TAG :: u8 where
  "STATE_TAG = 0x06"

record tlv8_limits =
  max_message_bytes :: usize
  max_fields :: usize
  max_value_bytes :: usize

definition default_limits :: tlv8_limits where
  "default_limits =
     \<lparr>max_message_bytes = 64 * 1024, max_fields = 128, max_value_bytes = 32 * 1024\<rparr>"

record tlv8_field =
  tlv_tag :: u8
  tlv_value :: bytes

definition tlv8_field_new :: "u8 \<Rightarrow> bytes \<Rightarrow> tlv8_field" where
  "tlv8_field_new t v = \<lparr>tlv_tag = t, tlv_value = v\<rparr>"

record tlv8_message =
  msg_fields :: "tlv8_field list"

datatype tlv8_error =
    MessageTooLarge usize usize
  | TooManyFields usize
  | ValueTooLarge u8 usize usize
  | TruncatedRecordHeader usize
  | TruncatedRecordValue u8 usize usize
  | DuplicateStateField
  | InvalidStateLength usize
  | DuplicateField u8
  | MissingRequiredField u8
  | AmbiguousAdjacentFields u8
  | LengthOverflow

section \<open>Validation\<close>

fun encoded_len_from :: "usize \<Rightarrow> tlv8_field list \<Rightarrow> tlv8_error + usize" where
  "encoded_len_from tot [] = Inr tot"
| "encoded_len_from tot (f # fs) =
     (let n = length (tlv_value f);
          records = (if tlv_value f = [] then 1 else div_ceil n 255)
      in case Option.bind (checked_add64 tot n)
                (\<lambda>value. Option.bind (checked_mul64 records 2) (\<lambda>r. checked_add64 value r)) of
           None \<Rightarrow> Inl LengthOverflow
         | Some tot' \<Rightarrow> encoded_len_from tot' fs)"

definition encoded_len :: "tlv8_field list \<Rightarrow> tlv8_error + usize" where
  "encoded_len fs = encoded_len_from 0 fs"

definition validate_state :: "tlv8_field list \<Rightarrow> tlv8_error + unit" where
  "validate_state fs =
     (case find (\<lambda>f. tlv_tag f = STATE_TAG) fs of
        Some state \<Rightarrow>
          if length (tlv_value state) \<noteq> 1
          then Inl (InvalidStateLength (length (tlv_value state)))
          else Inr ()
      | None \<Rightarrow> Inr ())"

fun validate_loop :: "tlv8_limits \<Rightarrow> bool \<Rightarrow> tlv8_field list \<Rightarrow> tlv8_error + unit" where
  "validate_loop lim state_seen [] = Inr ()"
| "validate_loop lim state_seen (f # fs) =
     (if max_value_bytes lim < length (tlv_value f)
      then Inl (ValueTooLarge (tlv_tag f) (length (tlv_value f)) (max_value_bytes lim))
      else if tlv_tag f = STATE_TAG \<and> state_seen then Inl DuplicateStateField
      else if tlv_value f \<noteq> [] \<and> length (tlv_value f) mod 255 = 0 \<and>
              fs \<noteq> [] \<and> tlv_tag (hd fs) = tlv_tag f
      then Inl (AmbiguousAdjacentFields (tlv_tag f))
      else validate_loop lim (state_seen \<or> tlv_tag f = STATE_TAG) fs)"

definition validate_fields :: "tlv8_field list \<Rightarrow> tlv8_limits \<Rightarrow> tlv8_error + unit" where
  "validate_fields fs lim =
     (if max_fields lim < length fs then Inl (TooManyFields (max_fields lim))
      else case validate_loop lim False fs of
        Inl e \<Rightarrow> Inl e
      | Inr _ \<Rightarrow>
        (case validate_state fs of
           Inl e \<Rightarrow> Inl e
         | Inr _ \<Rightarrow>
           (case encoded_len fs of
              Inl e \<Rightarrow> Inl e
            | Inr len \<Rightarrow>
                if max_message_bytes lim < len
                then Inl (MessageTooLarge len (max_message_bytes lim))
                else Inr ())))"

definition from_fields :: "tlv8_field list \<Rightarrow> tlv8_limits \<Rightarrow> tlv8_error + tlv8_message" where
  "from_fields fs lim =
     (case validate_fields fs lim of Inl e \<Rightarrow> Inl e | Inr _ \<Rightarrow> Inr \<lparr>msg_fields = fs\<rparr>)"

section \<open>Access to fields\<close>

definition tlv_values :: "tlv8_message \<Rightarrow> u8 \<Rightarrow> bytes list" where
  "tlv_values m t = map tlv_value (filter (\<lambda>f. tlv_tag f = t) (msg_fields m))"

definition get_unique :: "tlv8_message \<Rightarrow> u8 \<Rightarrow> tlv8_error + bytes option" where
  "get_unique m t =
     (case tlv_values m t of
        [] \<Rightarrow> Inr None
      | [v] \<Rightarrow> Inr (Some v)
      | _ \<Rightarrow> Inl (DuplicateField t))"

definition require_unique :: "tlv8_message \<Rightarrow> u8 \<Rightarrow> tlv8_error + bytes" where
  "require_unique m t =
     (case get_unique m t of
        Inl e \<Rightarrow> Inl e
      | Inr None \<Rightarrow> Inl (MissingRequiredField t)
      | Inr (Some v) \<Rightarrow> Inr v)"

text \<open>
  The accessor for the pairing state indexes byte 0 of the value. The outer option makes the
  panic of that index visible: \<open>None\<close> is a panic.
\<close>

definition tlv_state :: "tlv8_message \<Rightarrow> (tlv8_error + u8 option) option" where
  "tlv_state m =
     (case get_unique m STATE_TAG of
        Inl e \<Rightarrow> Some (Inl e)
      | Inr None \<Rightarrow> Some (Inr None)
      | Inr (Some []) \<Rightarrow> None
      | Inr (Some (b # _)) \<Rightarrow> Some (Inr (Some b)))"

section \<open>Encoding and decoding\<close>

definition encode_record :: "u8 \<Rightarrow> bytes \<Rightarrow> bytes" where
  "encode_record t c = t # of_nat (length c) # c"

definition encode_field :: "tlv8_field \<Rightarrow> bytes" where
  "encode_field f =
     (if tlv_value f = [] then [tlv_tag f, 0]
      else concat (map (encode_record (tlv_tag f)) (chunks 255 (tlv_value f))))"

definition encode_message :: "tlv8_message \<Rightarrow> tlv8_limits \<Rightarrow> tlv8_error + bytes" where
  "encode_message m lim =
     (case validate_fields (msg_fields m) lim of
        Inl e \<Rightarrow> Inl e
      | Inr _ \<Rightarrow>
        (case encoded_len (msg_fields m) of
           Inl e \<Rightarrow> Inl e
         | Inr n \<Rightarrow>
             if max_message_bytes lim < n
             then Inl (MessageTooLarge n (max_message_bytes lim))
             else Inr (concat (map encode_field (msg_fields m)))))"

definition tlv8_encode :: "tlv8_field list \<Rightarrow> tlv8_limits \<Rightarrow> tlv8_error + bytes" where
  "tlv8_encode fs lim =
     (case from_fields fs lim of Inl e \<Rightarrow> Inl e | Inr m \<Rightarrow> encode_message m lim)"

text \<open>
  The decoder's loop. Its last argument is the input from \<open>offset\<close> on; the offset itself is
  kept because the errors report it.
\<close>

function decode_loop ::
  "tlv8_limits \<Rightarrow> tlv8_field list \<Rightarrow> usize \<Rightarrow> usize \<Rightarrow> bool \<Rightarrow> bytes \<Rightarrow>
     tlv8_error + tlv8_field list" where
  "decode_loop lim flds offset prev state_seen [] = Inr flds"
| "decode_loop lim flds offset prev state_seen [b] = Inl (TruncatedRecordHeader offset)"
| "decode_loop lim flds offset prev state_seen (tag # len # rest) =
     (let value_len = unat len; value = take value_len rest in
      if length rest < value_len
      then Inl (TruncatedRecordValue tag value_len (length rest))
      else if prev = 255 \<and> flds \<noteq> [] \<and> tlv_tag (last flds) = tag then
        (let f = last flds in
         case checked_add64 (length (tlv_value f)) value_len of
           None \<Rightarrow> Inl LengthOverflow
         | Some reassembled \<Rightarrow>
             if max_value_bytes lim < reassembled
             then Inl (ValueTooLarge tag reassembled (max_value_bytes lim))
             else decode_loop lim
                    (butlast flds @ [f\<lparr>tlv_value := tlv_value f @ value\<rparr>])
                    (offset + 2 + value_len) value_len state_seen (drop value_len rest))
      else if length flds = max_fields lim then Inl (TooManyFields (max_fields lim))
      else if max_value_bytes lim < value_len
      then Inl (ValueTooLarge tag value_len (max_value_bytes lim))
      else if tag = STATE_TAG \<and> state_seen then Inl DuplicateStateField
      else decode_loop lim (flds @ [tlv8_field_new tag value])
             (offset + 2 + value_len) value_len (state_seen \<or> tag = STATE_TAG)
             (drop value_len rest))"
  by pat_completeness auto
termination
  by (relation "measure (\<lambda>(_, _, _, _, _, rest). length rest)") auto

definition tlv8_decode :: "bytes \<Rightarrow> tlv8_limits \<Rightarrow> tlv8_error + tlv8_message" where
  "tlv8_decode input lim =
     (if max_message_bytes lim < length input
      then Inl (MessageTooLarge (length input) (max_message_bytes lim))
      else case decode_loop lim [] 0 0 False input of
        Inl e \<Rightarrow> Inl e
      | Inr flds \<Rightarrow>
        (case validate_state flds of
           Inl e \<Rightarrow> Inl e
         | Inr _ \<Rightarrow> Inr \<lparr>msg_fields = flds\<rparr>))"

declare decode_loop.simps(3) [simp del]

section \<open>The wire length is what the validator computed\<close>

definition record_count :: "tlv8_field \<Rightarrow> nat" where
  "record_count f = (if tlv_value f = [] then 1 else div_ceil (length (tlv_value f)) 255)"

lemma length_concat_records:
  "length (concat (map (encode_record t) cs)) = length (concat cs) + 2 * length cs"
  by (induction cs) (simp_all add: encode_record_def)

lemma length_encode_field:
  "length (encode_field f) = length (tlv_value f) + 2 * record_count f"
  by (simp add: encode_field_def record_count_def length_concat_records concat_chunks length_chunks)

lemma encoded_len_from_Inr:
  "encoded_len_from k fs = Inr n \<Longrightarrow> n = k + length (concat (map encode_field fs))"
proof (induction fs arbitrary: k)
  case Nil
  then show ?case by simp
next
  case (Cons f fs)
  from Cons.prems have "encoded_len_from (k + length (encode_field f)) fs = Inr n"
    by (auto simp: Let_def length_encode_field record_count_def bind_eq_Some_conv algebra_simps
        split: option.splits if_splits)
  from Cons.IH [OF this] show ?case by simp
qed

lemma validate_fieldsD:
  assumes "validate_fields fs lim = Inr u"
  shows "length fs \<le> max_fields lim" and "validate_loop lim False fs = Inr ()"
    and "validate_state fs = Inr ()"
    and "\<exists>n. encoded_len fs = Inr n \<and> n \<le> max_message_bytes lim"
  using assms by (auto simp: validate_fields_def split: if_splits sum.splits)

lemma tlv8_encodeD:
  assumes "tlv8_encode fs lim = Inr bs"
  shows "validate_fields fs lim = Inr ()" and "bs = concat (map encode_field fs)"
    and "length bs \<le> max_message_bytes lim"
proof -
  from assms show v: "validate_fields fs lim = Inr ()" and b: "bs = concat (map encode_field fs)"
    by (auto simp: tlv8_encode_def from_fields_def encode_message_def split: sum.splits if_splits)
  from validate_fieldsD(4) [OF v] show "length bs \<le> max_message_bytes lim"
    by (auto simp: encoded_len_def b dest: encoded_len_from_Inr)
qed

section \<open>Decoding what was encoded\<close>

lemma unat_byte_len: "n \<le> 255 \<Longrightarrow> unat (of_nat n :: u8) = n"
  by (simp add: unat_of_nat)

text \<open>One record is consumed in one pass of the loop.\<close>

lemma decode_record_new:
  assumes "length c \<le> 255" and "prev \<noteq> 255 \<or> flds = [] \<or> tlv_tag (last flds) \<noteq> t"
    and "length flds < max_fields lim" and "length c \<le> max_value_bytes lim"
    and "t = STATE_TAG \<longrightarrow> \<not> seen"
  shows "decode_loop lim flds off prev seen (encode_record t c @ rest) =
         decode_loop lim (flds @ [\<lparr>tlv_tag = t, tlv_value = c\<rparr>]) (off + 2 + length c) (length c)
           (seen \<or> t = STATE_TAG) rest"
  using assms
  by (auto simp: encode_record_def decode_loop.simps(3) Let_def unat_byte_len tlv8_field_new_def)

lemma decode_record_cont:
  assumes "length c \<le> 255" and "length v + length c \<le> max_value_bytes lim"
    and "length v + length c \<le> u64_max"
  shows "decode_loop lim (flds @ [\<lparr>tlv_tag = t, tlv_value = v\<rparr>]) off 255 seen
           (encode_record t c @ rest) =
         decode_loop lim (flds @ [\<lparr>tlv_tag = t, tlv_value = v @ c\<rparr>]) (off + 2 + length c)
           (length c) seen rest"
  using assms
  by (auto simp: encode_record_def decode_loop.simps(3) Let_def unat_byte_len split: option.splits)

definition last_record_len :: "bytes \<Rightarrow> nat" where
  "last_record_len v =
     (if v = [] then 0 else if length v mod 255 = 0 then 255 else length v mod 255)"

lemma last_record_len_drop:
  "255 < length v \<Longrightarrow> last_record_len (drop 255 v) = last_record_len v"
  by (auto simp: last_record_len_def le_mod_geq)

lemma decode_chunks_cont:
  assumes "w \<noteq> []" and "length v + length w \<le> max_value_bytes lim"
    and "length v + length w \<le> u64_max"
  shows "\<exists>off'. decode_loop lim (flds @ [\<lparr>tlv_tag = t, tlv_value = v\<rparr>]) off 255 seen
           (concat (map (encode_record t) (chunks 255 w)) @ rest) =
         decode_loop lim (flds @ [\<lparr>tlv_tag = t, tlv_value = v @ w\<rparr>]) off'
           (last_record_len w) seen rest"
  using assms
proof (induction w arbitrary: v off rule: length_induct)
  case (1 w)
  let ?c = "take 255 w"
  have step: "decode_loop lim (flds @ [\<lparr>tlv_tag = t, tlv_value = v\<rparr>]) off 255 seen
        (concat (map (encode_record t) (chunks 255 w)) @ rest) =
      decode_loop lim (flds @ [\<lparr>tlv_tag = t, tlv_value = v @ ?c\<rparr>]) (off + 2 + length ?c)
        (length ?c) seen (concat (map (encode_record t) (chunks 255 (drop 255 w))) @ rest)"
    using "1.prems" by (simp add: chunks_Cons decode_record_cont)
  show ?case
  proof (cases "length w \<le> 255")
    case True
    then have "last_record_len w = length ?c"
      using "1.prems"(1) by (auto simp: last_record_len_def le_less dest: mod_less)
    with True step show ?thesis by auto
  next
    case False
    then have "drop 255 w \<noteq> []" "length (drop 255 w) < length w"
        "length (v @ ?c) + length (drop 255 w) = length v + length w"
      by simp_all
    then obtain off' where "decode_loop lim (flds @ [\<lparr>tlv_tag = t, tlv_value = v @ ?c\<rparr>])
        (off + 2 + length ?c) 255 seen
        (concat (map (encode_record t) (chunks 255 (drop 255 w))) @ rest) =
      decode_loop lim (flds @ [\<lparr>tlv_tag = t, tlv_value = (v @ ?c) @ drop 255 w\<rparr>]) off'
        (last_record_len (drop 255 w)) seen rest"
      using "1.IH" "1.prems" by metis
    with False step show ?thesis by (auto simp: last_record_len_drop)
  qed
qed

lemma decode_field:
  assumes "prev \<noteq> 255 \<or> flds = [] \<or> tlv_tag (last flds) \<noteq> tlv_tag f"
    and "length flds < max_fields lim" and "length (tlv_value f) \<le> max_value_bytes lim"
    and "tlv_tag f = STATE_TAG \<longrightarrow> \<not> seen" and "length (tlv_value f) \<le> u64_max"
  shows "\<exists>off'. decode_loop lim flds off prev seen (encode_field f @ rest) =
         decode_loop lim (flds @ [f]) off' (last_record_len (tlv_value f))
           (seen \<or> tlv_tag f = STATE_TAG) rest"
proof -
  let ?v = "tlv_value f" and ?t = "tlv_tag f"
  let ?c = "take 255 ?v"
  have f: "f = \<lparr>tlv_tag = ?t, tlv_value = ?v\<rparr>" by simp
  have enc: "encode_field f = encode_record ?t ?c @
      concat (map (encode_record ?t) (chunks 255 (drop 255 ?v)))"
    by (cases "?v = []") (simp_all add: encode_field_def encode_record_def chunks_Cons)
  have step: "decode_loop lim flds off prev seen (encode_field f @ rest) =
      decode_loop lim (flds @ [\<lparr>tlv_tag = ?t, tlv_value = ?c\<rparr>]) (off + 2 + length ?c) (length ?c)
        (seen \<or> ?t = STATE_TAG) (concat (map (encode_record ?t) (chunks 255 (drop 255 ?v))) @ rest)"
    using assms by (simp add: enc decode_record_new)
  show ?thesis
  proof (cases "length ?v \<le> 255")
    case True
    then have "last_record_len ?v = length ?c"
      by (cases "length ?v = 255") (auto simp: last_record_len_def)
    with True step f show ?thesis by auto
  next
    case False
    then have "drop 255 ?v \<noteq> []" "length ?c = 255" by simp_all
    with decode_chunks_cont [of "drop 255 ?v" ?c lim flds ?t "off + 2 + length ?c"
        "seen \<or> ?t = STATE_TAG" rest] False assms step f
    show ?thesis by (auto simp: last_record_len_drop)
  qed
qed

lemma decode_fields:
  assumes "validate_loop lim seen fs = Inr ()"
    and "flds \<noteq> [] \<longrightarrow> fs \<noteq> [] \<longrightarrow> prev = 255 \<longrightarrow> tlv_tag (last flds) \<noteq> tlv_tag (hd fs)"
    and "length flds + length fs \<le> max_fields lim"
    and "\<forall>f \<in> set fs. length (tlv_value f) \<le> u64_max"
  shows "decode_loop lim flds off prev seen (concat (map encode_field fs)) = Inr (flds @ fs)"
  using assms
proof (induction fs arbitrary: flds off prev seen)
  case Nil
  then show ?case by simp
next
  case (Cons f fs)
  from Cons.prems(1) have v: "length (tlv_value f) \<le> max_value_bytes lim"
      "tlv_tag f = STATE_TAG \<longrightarrow> \<not> seen"
      "validate_loop lim (seen \<or> tlv_tag f = STATE_TAG) fs = Inr ()"
      "tlv_value f \<noteq> [] \<and> length (tlv_value f) mod 255 = 0 \<longrightarrow>
         fs \<noteq> [] \<longrightarrow> tlv_tag (hd fs) \<noteq> tlv_tag f"
    by (auto split: if_splits)
  obtain off' where step: "decode_loop lim flds off prev seen
        (encode_field f @ concat (map encode_field fs)) =
      decode_loop lim (flds @ [f]) off' (last_record_len (tlv_value f))
        (seen \<or> tlv_tag f = STATE_TAG) (concat (map encode_field fs))"
    using decode_field [of prev flds f lim seen off] Cons.prems v by fastforce
  have "decode_loop lim (flds @ [f]) off' (last_record_len (tlv_value f))
      (seen \<or> tlv_tag f = STATE_TAG) (concat (map encode_field fs)) = Inr ((flds @ [f]) @ fs)"
    using Cons.prems v
    by (intro Cons.IH) (auto simp: last_record_len_def split: if_splits)
  with step show ?case by simp
qed

lemma encoded_len_value_bound:
  "encoded_len_from k fs = Inr n \<Longrightarrow> \<forall>f \<in> set fs. length (tlv_value f) \<le> u64_max"
proof (induction fs arbitrary: k)
  case Nil
  then show ?case by simp
next
  case (Cons f fs)
  from Cons.prems obtain k' where "encoded_len_from k' fs = Inr n"
      and "k + length (tlv_value f) \<le> u64_max"
    by (auto simp: Let_def bind_eq_Some_conv split: option.splits)
  with Cons.IH show ?case by fastforce
qed

lemmas tlv8_encode_eval = tlv8_encode_def from_fields_def encode_message_def validate_fields_def
  validate_state_def encoded_len_def encode_field_def encode_record_def chunks_Cons div_ceil_def
  default_limits_def STATE_TAG_def checked_add64_def checked_mul64_def u64_max_def

section \<open>What the decoder can return\<close>

definition within_limits :: "tlv8_limits \<Rightarrow> tlv8_field list \<Rightarrow> bool" where
  "within_limits lim fs \<longleftrightarrow>
     length fs \<le> max_fields lim \<and>
     list_all (\<lambda>f. length (tlv_value f) \<le> max_value_bytes lim) fs \<and>
     length (filter (\<lambda>f. tlv_tag f = STATE_TAG) fs) \<le> 1"

definition wire_weight :: "tlv8_field list \<Rightarrow> nat" where
  "wire_weight fs = sum_list (map (\<lambda>f. 2 + length (tlv_value f)) fs)"

definition state_marked :: "bool \<Rightarrow> tlv8_field list \<Rightarrow> bool" where
  "state_marked seen fs \<longleftrightarrow> seen = (\<exists>f \<in> set fs. tlv_tag f = STATE_TAG)"

lemma within_limits_snoc:
  assumes "within_limits lim fs" and "length fs \<noteq> max_fields lim"
    and "length v \<le> max_value_bytes lim" and "state_marked seen fs"
    and "\<not> (t = STATE_TAG \<and> seen)"
  shows "within_limits lim (fs @ [tlv8_field_new t v])"
    and "state_marked (seen \<or> t = STATE_TAG) (fs @ [tlv8_field_new t v])"
  using assms
  by (auto simp: within_limits_def state_marked_def tlv8_field_new_def filter_empty_conv)

lemma within_limits_extend:
  assumes "within_limits lim fs" and "fs \<noteq> []" and "f = last fs"
    and "length (tlv_value f @ v) \<le> max_value_bytes lim" and "state_marked seen fs"
  shows "within_limits lim (butlast fs @ [f\<lparr>tlv_value := tlv_value f @ v\<rparr>])"
    and "state_marked seen (butlast fs @ [f\<lparr>tlv_value := tlv_value f @ v\<rparr>])"
    and "wire_weight (butlast fs @ [f\<lparr>tlv_value := tlv_value f @ v\<rparr>]) = wire_weight fs + length v"
proof -
  obtain gs where fs: "fs = gs @ [f]"
    using assms(2,3) by (metis append_butlast_last_id)
  then have bl: "butlast fs = gs" by simp
  from assms(1,4,5) show "within_limits lim (butlast fs @ [f\<lparr>tlv_value := tlv_value f @ v\<rparr>])"
      and "state_marked seen (butlast fs @ [f\<lparr>tlv_value := tlv_value f @ v\<rparr>])"
      and "wire_weight (butlast fs @ [f\<lparr>tlv_value := tlv_value f @ v\<rparr>]) = wire_weight fs + length v"
    unfolding bl unfolding fs
    by (simp_all add: within_limits_def state_marked_def wire_weight_def split: if_splits)
qed

lemma decode_loop_within:
  assumes "decode_loop lim flds off prev seen rest = Inr out"
    and "within_limits lim flds" and "state_marked seen flds"
  shows "within_limits lim out \<and> wire_weight out \<le> wire_weight flds + length rest"
  using assms
proof (induction lim flds off prev seen rest rule: decode_loop.induct)
  case (3 lim flds off prev seen tag len rest)
  let ?n = "unat len" and ?v = "take (unat len) rest"
  show ?case
  proof (cases "prev = 255 \<and> flds \<noteq> [] \<and> tlv_tag (last flds) = tag")
    case True
    let ?flds = "butlast flds @ [last flds\<lparr>tlv_value := tlv_value (last flds) @ ?v\<rparr>]"
    from "3.prems"(1) True have ok: "\<not> length rest < ?n"
        "length (tlv_value (last flds)) + ?n \<le> u64_max"
        "\<not> max_value_bytes lim < length (tlv_value (last flds)) + ?n"
        "decode_loop lim ?flds (off + 2 + ?n) ?n seen (drop ?n rest) = Inr out"
      by (auto simp: decode_loop.simps(3) Let_def split: if_splits option.splits)
    have ext: "within_limits lim ?flds" "state_marked seen ?flds"
        "wire_weight ?flds = wire_weight flds + length ?v"
      by (rule within_limits_extend [OF "3.prems"(2) _ refl _ "3.prems"(3)]; use True ok in simp)+
    have "within_limits lim out \<and> wire_weight out \<le> wire_weight ?flds + length (drop ?n rest)"
      by (rule "3.IH"(1) [OF refl refl _ True refl _ _ ok(4) ext(1,2), of "length (tlv_value (last flds)) + ?n"])
        (use ok in simp_all)
    with ext(3) ok(1) show ?thesis by simp
  next
    case False
    let ?flds = "flds @ [tlv8_field_new tag ?v]"
    from "3.prems"(1) False have ok: "\<not> length rest < ?n"
        "length flds \<noteq> max_fields lim" "\<not> max_value_bytes lim < ?n"
        "\<not> (tag = STATE_TAG \<and> seen)"
        "decode_loop lim ?flds (off + 2 + ?n) ?n (seen \<or> tag = STATE_TAG) (drop ?n rest) = Inr out"
      by (auto simp: decode_loop.simps(3) Let_def split: if_splits)
    have ext: "within_limits lim ?flds" "state_marked (seen \<or> tag = STATE_TAG) ?flds"
      by (rule within_limits_snoc [OF "3.prems"(2) ok(2) _ "3.prems"(3) ok(4)]; use ok in simp)+
    have "within_limits lim out \<and> wire_weight out \<le> wire_weight ?flds + length (drop ?n rest)"
      by (rule "3.IH"(2) [OF refl refl ok(1) False ok(2,3,4) ok(5) ext])
    with ok(1) show ?thesis by (simp add: wire_weight_def tlv8_field_new_def)
  qed
qed simp_all

lemma validate_state_length:
  "validate_state fs = Inr u \<Longrightarrow> length (filter (\<lambda>f. tlv_tag f = STATE_TAG) fs) \<le> 1 \<Longrightarrow>
   f \<in> set fs \<Longrightarrow> tlv_tag f = STATE_TAG \<Longrightarrow> length (tlv_value f) = 1"
  by (induction fs) (auto simp: validate_state_def filter_empty_conv split: if_splits option.splits)

lemma decode_within_limits_aux:
  assumes "tlv8_decode input lim = Inr m"
  shows "within_limits lim (msg_fields m) \<and> wire_weight (msg_fields m) \<le> length input"
    and "length (tlv_values m STATE_TAG) \<le> 1 \<and> list_all (\<lambda>v. length v = 1) (tlv_values m STATE_TAG)"
proof -
  from assms have loop: "decode_loop lim [] 0 0 False input = Inr (msg_fields m)"
      and state: "validate_state (msg_fields m) = Inr ()"
    by (auto simp: tlv8_decode_def split: if_splits sum.splits)
  show *: "within_limits lim (msg_fields m) \<and> wire_weight (msg_fields m) \<le> length input"
    using decode_loop_within [OF loop] by (simp add: within_limits_def state_marked_def wire_weight_def)
  then show "length (tlv_values m STATE_TAG) \<le> 1 \<and> list_all (\<lambda>v. length v = 1) (tlv_values m STATE_TAG)"
    using validate_state_length [OF state]
    by (auto simp: tlv_values_def list_all_iff within_limits_def)
qed

lemma validate_loop_one_state:
  "validate_loop lim seen fs = Inr u \<Longrightarrow>
   length (filter (\<lambda>f. tlv_tag f = STATE_TAG) fs) + (if seen then 1 else 0) \<le> 1"
  by (induction fs arbitrary: seen) (fastforce split: if_splits)+

section \<open>Properties\<close>

text \<open>
  C20. Round trip: whatever the encoder accepts, the decoder returns as the same list of fields,
  in the same order, repeated tags and values of any length included.
\<close>

theorem tlv8_roundtrip:
  assumes "tlv8_encode fs lim = Inr bs"
  shows "tlv8_decode bs lim = Inr \<lparr>msg_fields = fs\<rparr>"
proof -
  note enc = tlv8_encodeD [OF assms]
  note val = validate_fieldsD [OF enc(1)]
  have bound: "\<forall>f \<in> set fs. length (tlv_value f) \<le> u64_max"
    using val(4) by (auto simp: encoded_len_def dest: encoded_len_value_bound)
  have "decode_loop lim [] 0 0 False (concat (map encode_field fs)) = Inr ([] @ fs)"
    by (rule decode_fields) (use val bound in simp_all)
  with enc val(3) show ?thesis by (simp add: tlv8_decode_def)
qed

theorem tlv8_roundtrip_witness:
  "tlv8_decode [6, 1, 3, 9, 0, 9, 2, 7, 8] default_limits =
     Inr \<lparr>msg_fields = [\<lparr>tlv_tag = 6, tlv_value = [3]\<rparr>, \<lparr>tlv_tag = 9, tlv_value = []\<rparr>,
       \<lparr>tlv_tag = 9, tlv_value = [7, 8]\<rparr>]\<rparr>"
  by (rule tlv8_roundtrip) (simp add: tlv8_encode_eval)


text \<open>
  Resource limits: a message that the decoder returns has at most the configured number of
  fields, no value longer than the configured bound after reassembly, at most one state field,
  whose value is a single byte, and all values together were really present in the input.
\<close>

theorem decode_within_limits:
  assumes "tlv8_decode input lim = Inr m"
  shows "within_limits lim (msg_fields m) \<and>
    wire_weight (msg_fields m) \<le> length input \<and> length input \<le> max_message_bytes lim \<and>
    list_all (\<lambda>v. length v = 1) (tlv_values m STATE_TAG)"
  using decode_within_limits_aux [OF assms] assms
  by (simp add: tlv8_decode_def split: if_splits)

theorem decode_within_limits_witness:
  "wire_weight (msg_fields \<lparr>msg_fields = [\<lparr>tlv_tag = 6, tlv_value = [3]\<rparr>]\<rparr>) \<le> length [6::u8, 1, 3]"
proof -
  have "tlv8_decode [6, 1, 3] default_limits =
      Inr \<lparr>msg_fields = [\<lparr>tlv_tag = 6, tlv_value = [3]\<rparr>]\<rparr>"
    by (simp add: tlv8_decode_def decode_loop.simps default_limits_def validate_state_def
        STATE_TAG_def tlv8_field_new_def)
  from decode_within_limits [OF this] show ?thesis by simp
qed

text \<open>
  The state accessor indexes byte 0 of a value. On every message that came out of the
  decoder or out of the validating constructor it neither panics nor reports an error.
\<close>

theorem tlv_state_total:
  assumes "tlv8_decode input lim = Inr m \<or> from_fields fs lim = Inr m"
  shows "\<exists>s. tlv_state m = Some (Inr s)"
proof -
  have one: "length (tlv_values m STATE_TAG) \<le> 1 \<and> list_all (\<lambda>v. length v = 1) (tlv_values m STATE_TAG)"
    using assms
  proof
    assume "tlv8_decode input lim = Inr m"
    from decode_within_limits_aux [OF this] show ?thesis by simp
  next
    assume "from_fields fs lim = Inr m"
    then have v: "validate_fields fs lim = Inr ()" and m: "msg_fields m = fs"
      by (auto simp: from_fields_def split: sum.splits)
    from validate_loop_one_state [OF validate_fieldsD(2) [OF v]]
    have "length (filter (\<lambda>f. tlv_tag f = STATE_TAG) fs) \<le> 1" by simp
    with validate_state_length [OF validate_fieldsD(3) [OF v]] m show ?thesis
      by (auto simp: tlv_values_def list_all_iff)
  qed
  show ?thesis
  proof (cases "tlv_values m STATE_TAG")
    case Nil
    then show ?thesis by (simp add: tlv_state_def get_unique_def)
  next
    case (Cons v vs)
    with one obtain b where "vs = []" "v = [b]" by (auto simp: length_Suc_conv)
    with Cons show ?thesis by (simp add: tlv_state_def get_unique_def)
  qed
qed

theorem tlv_state_total_witness:
  "\<exists>s. tlv_state \<lparr>msg_fields = [\<lparr>tlv_tag = 6, tlv_value = [3]\<rparr>]\<rparr> = Some (Inr s)"
proof (rule tlv_state_total)
  show "tlv8_decode [] default_limits = Inr \<lparr>msg_fields = [\<lparr>tlv_tag = 6, tlv_value = [3]\<rparr>]\<rparr> \<or>
    from_fields [\<lparr>tlv_tag = 6, tlv_value = [3]\<rparr>] default_limits =
      Inr \<lparr>msg_fields = [\<lparr>tlv_tag = 6, tlv_value = [3]\<rparr>]\<rparr>"
    by (simp add: tlv8_encode_eval)
qed

text \<open>
  The decoder's rules are weaker than those of the in-memory constructor: a value of exactly
  255 bytes that a sender closes with an empty record, followed by another field of the same
  tag, decodes, while the constructor (and so the encoder) refuses the same list of fields as
  ambiguous.
\<close>

theorem decode_accepts_unencodable:
  "\<exists>input m. tlv8_decode input default_limits = Inr m \<and>
     from_fields (msg_fields m) default_limits = Inl (AmbiguousAdjacentFields 1)"
proof -
  let ?v = "replicate 255 (0 :: u8)"
  let ?fs = "[\<lparr>tlv_tag = 1, tlv_value = ?v\<rparr>, \<lparr>tlv_tag = 1, tlv_value = [7]\<rparr>]"
  let ?in = "encode_record 1 ?v @ encode_record 1 [] @ encode_record 1 [7] @ []"
  have len: "length ?in = 262" by (simp add: encode_record_def)
  have "decode_loop default_limits [] 0 0 False ?in =
      decode_loop default_limits ([] @ [\<lparr>tlv_tag = 1, tlv_value = ?v\<rparr>]) 257 255 False
        (encode_record 1 [] @ encode_record 1 [7] @ [])"
    by (subst decode_record_new) (simp_all add: default_limits_def STATE_TAG_def)
  also have "\<dots> = decode_loop default_limits ([] @ [\<lparr>tlv_tag = 1, tlv_value = ?v @ []\<rparr>]) 259 0 False
        (encode_record 1 [7] @ [])"
    by (subst decode_record_cont) (simp_all add: default_limits_def u64_max_def)
  also have "\<dots> = Inr ?fs"
    by (subst decode_record_new) (simp_all add: default_limits_def STATE_TAG_def)
  finally have "tlv8_decode ?in default_limits = Inr \<lparr>msg_fields = ?fs\<rparr>"
    using len by (simp add: tlv8_decode_def validate_state_def STATE_TAG_def default_limits_def)
  moreover have "from_fields ?fs default_limits = Inl (AmbiguousAdjacentFields 1)"
    by (simp add: tlv8_encode_eval)
  ultimately show ?thesis by (metis tlv8_message.select_convs(1))
qed

end
