(* ===== verification/RtpSequence.thy ===== *)
theory RtpSequence
  imports Interfaces
begin

text \<open>
  Strict parsing and wrap-aware numbering of the UDP media path
  (core/audiohub-airplay/src/protocol/media/packet.rs): the 12-byte RTP header, and the extension
  of wrapping 16-bit sequence numbers and 32-bit timestamps to 64-bit counters in two phases, a
  preview without effect and a commit. The theory shows that the parser inverts the wire layout
  and that the extension recovers the true counters of any stream whose reordering stays within
  half the wrapping range.
\<close>

section \<open>The RTP packet\<close>

definition RTP_HEADER_LEN :: nat where
  "RTP_HEADER_LEN = 12"

definition RECENT_OBSERVATIONS :: nat where
  "RECENT_OBSERVATIONS = 1024"

datatype packet_error =
    TooShort
  | UnsupportedVersion u8
  | PaddingUnsupported
  | ExtensionUnsupported
  | CsrcUnsupported u8
  | EmptyPayload

record rtp_packet =
  marker :: bool
  payload_type :: u8
  rtp_sequence :: u16
  rtp_timestamp :: u32
  ssrc :: u32
  rtp_payload :: bytes

definition rtp_parse :: "bytes \<Rightarrow> packet_error + rtp_packet" where
  "rtp_parse d =
     (if length d < RTP_HEADER_LEN then Inl TooShort
      else
        let first = d ! 0; version = drop_bit 6 first; csrc_count = first AND 0x0F;
            payload = drop RTP_HEADER_LEN d
        in if version \<noteq> 2 then Inl (UnsupportedVersion version)
           else if first AND 0x20 \<noteq> 0 then Inl PaddingUnsupported
           else if first AND 0x10 \<noteq> 0 then Inl ExtensionUnsupported
           else if csrc_count \<noteq> 0 then Inl (CsrcUnsupported csrc_count)
           else if payload = [] then Inl EmptyPayload
           else Inr \<lparr>marker = (d ! 1 AND 0x80 \<noteq> 0),
                     payload_type = d ! 1 AND 0x7F,
                     rtp_sequence = of_be [d ! 2, d ! 3],
                     rtp_timestamp = of_be (byte_slice 4 8 d),
                     ssrc = of_be (byte_slice 8 12 d),
                     rtp_payload = payload\<rparr>)"

section \<open>Extending a wrapping counter\<close>

datatype ring_disposition =
    First
  | Advanced nat64
  | Reordered nat64
  | Duplicate

record extended_ring_value =
  ev_value :: nat64
  ev_disposition :: ring_disposition

datatype ring_error = BeforeStart | Exhausted | StalePreview

record ring_extender =
  modulus :: nat64
  half_range :: nat64
  highest :: "nat64 option"
  recent :: "nat64 list"

definition ring_new :: "nat \<Rightarrow> ring_extender" where
  "ring_new bits =
     \<lparr>modulus = 2 ^ bits, half_range = 2 ^ bits div 2, highest = None, recent = []\<rparr>"

definition ring_disposition_of :: "ring_extender \<Rightarrow> nat64 \<Rightarrow> nat64 \<Rightarrow> ring_disposition" where
  "ring_disposition_of r h c =
     (if h < c then Advanced (c - h)
      else if c \<in> set (recent r) then Duplicate
      else Reordered (h - c))"

definition ring_peek :: "ring_extender \<Rightarrow> nat64 \<Rightarrow> ring_error + extended_ring_value" where
  "ring_peek r raw =
     (case highest r of
        None \<Rightarrow>
          (case checked_add64 (modulus r) raw of
             None \<Rightarrow> Inl Exhausted
           | Some v \<Rightarrow> Inr \<lparr>ev_value = v, ev_disposition = First\<rparr>)
      | Some h \<Rightarrow>
          let epoch = h div modulus r;
              candidate = epoch * modulus r + raw;
              chosen =
                (if candidate + half_range r \<le> h then Inr (candidate + modulus r)
                 else if h + half_range r < candidate then
                   if candidate < modulus r then Inl BeforeStart
                   else Inr (candidate - modulus r)
                 else Inr candidate)
          in case chosen of
               Inl e \<Rightarrow> Inl e
             | Inr c \<Rightarrow>
                 if u64_max < c then Inl Exhausted
                 else Inr \<lparr>ev_value = c, ev_disposition = ring_disposition_of r h c\<rparr>)"

definition remember_value :: "nat64 list \<Rightarrow> nat64 \<Rightarrow> nat64 list" where
  "remember_value q v = (if length q = RECENT_OBSERVATIONS then tl q else q) @ [v]"

definition ring_remember :: "ring_extender \<Rightarrow> nat64 \<Rightarrow> ring_extender" where
  "ring_remember r v = r\<lparr>recent := remember_value (recent r) v\<rparr>"

definition ring_commit ::
  "ring_extender \<Rightarrow> nat64 \<Rightarrow> extended_ring_value \<Rightarrow>
     (ring_error + extended_ring_value) \<times> ring_extender" where
  "ring_commit r raw preview =
     (case ring_peek r raw of
        Inl e \<Rightarrow> (Inl e, r)
      | Inr current \<Rightarrow>
          if current \<noteq> preview then (Inl StalePreview, r)
          else (Inr current,
            case ev_disposition current of
              First \<Rightarrow> ring_remember (r\<lparr>highest := Some (ev_value current)\<rparr>) (ev_value current)
            | Advanced _ \<Rightarrow> ring_remember (r\<lparr>highest := Some (ev_value current)\<rparr>) (ev_value current)
            | Reordered _ \<Rightarrow> ring_remember r (ev_value current)
            | Duplicate \<Rightarrow> r))"

definition ring_observe ::
  "ring_extender \<Rightarrow> nat64 \<Rightarrow> (ring_error + extended_ring_value) \<times> ring_extender" where
  "ring_observe r raw =
     (case ring_peek r raw of
        Inl e \<Rightarrow> (Inl e, r)
      | Inr preview \<Rightarrow> ring_commit r raw preview)"

datatype sequence_extender16 = SequenceExtender16 ring_extender
datatype timestamp_extender32 = TimestampExtender32 ring_extender

definition seq16_new :: sequence_extender16 where
  "seq16_new = SequenceExtender16 (ring_new 16)"

fun seq16_peek :: "sequence_extender16 \<Rightarrow> u16 \<Rightarrow> ring_error + extended_ring_value" where
  "seq16_peek (SequenceExtender16 r) v = ring_peek r (unat v)"

fun seq16_commit ::
  "sequence_extender16 \<Rightarrow> u16 \<Rightarrow> extended_ring_value \<Rightarrow>
     (ring_error + extended_ring_value) \<times> sequence_extender16" where
  "seq16_commit (SequenceExtender16 r) v p =
     (case ring_commit r (unat v) p of (res, r') \<Rightarrow> (res, SequenceExtender16 r'))"

definition ts32_new :: timestamp_extender32 where
  "ts32_new = TimestampExtender32 (ring_new 32)"

fun ts32_peek :: "timestamp_extender32 \<Rightarrow> u32 \<Rightarrow> ring_error + extended_ring_value" where
  "ts32_peek (TimestampExtender32 r) v = ring_peek r (unat v)"

fun ts32_commit ::
  "timestamp_extender32 \<Rightarrow> u32 \<Rightarrow> extended_ring_value \<Rightarrow>
     (ring_error + extended_ring_value) \<times> timestamp_extender32" where
  "ts32_commit (TimestampExtender32 r) v p =
     (case ring_commit r (unat v) p of (res, r') \<Rightarrow> (res, TimestampExtender32 r'))"

section \<open>The duplicate history is a bounded queue\<close>

interpretation recent_queue: drop_oldest RECENT_OBSERVATIONS remember_value
  by unfold_locales (simp_all add: RECENT_OBSERVATIONS_def remember_value_def)

section \<open>The invariant of an extender\<close>

definition ring_inv :: "ring_extender \<Rightarrow> bool" where
  "ring_inv r \<longleftrightarrow>
     0 < half_range r \<and> modulus r = 2 * half_range r \<and> modulus r \<le> 2 ^ 32 \<and>
     length (recent r) \<le> RECENT_OBSERVATIONS \<and>
     (case highest r of
        None \<Rightarrow> recent r = []
      | Some h \<Rightarrow> h \<le> u64_max \<and> list_all (\<lambda>v. v \<le> h) (recent r))"

lemma ring_new_inv: "ring_inv (ring_new 16)" "ring_inv (ring_new 32)"
  by (simp_all add: ring_inv_def ring_new_def)

lemma list_all_remember:
  "list_all P q \<Longrightarrow> P v \<Longrightarrow> length q \<le> RECENT_OBSERVATIONS \<Longrightarrow> list_all P (remember_value q v)"
  using recent_queue.push_subset [of q v] by (auto simp: list_all_iff)

text \<open>
  The heart of the numbering: among the counters congruent to the raw value, the preview picks
  the one in the half-open window of one modulus around the high-water mark, the future one at
  the exact half-range ambiguity.
\<close>

lemma div_mod_split:
  fixes h m :: nat
  assumes "0 < m"
  shows "h = (h div m) * m + h mod m" and "h mod m < m"
  by (simp only: div_mult_mod_eq) (simp add: assms)

lemma congruent_in_window:
  fixes t h m :: nat
  assumes "m = 2 * k" and "0 < k" and "h < t + k" and "t \<le> h + k"
  shows "t = (h div m) * m + t mod m \<or>
         t = (h div m) * m + t mod m + m \<or>
         t + m = (h div m) * m + t mod m"
proof -
  let ?p = "h div m" and ?q = "t div m"
  have "0 < m" using assms(1,2) by simp
  note h = div_mod_split [OF this, of h] and t = div_mod_split [OF this, of t]
  have "?q \<le> ?p + 1"
  proof (rule ccontr)
    assume "\<not> ?thesis"
    then have "(?p + 2) * m \<le> ?q * m" by (intro mult_le_mono1) simp
    then have "?p * m + 2 * m \<le> ?q * m" by (simp only: add_mult_distrib)
    with h t assms show False by linarith
  qed
  moreover have "?p \<le> ?q + 1"
  proof (rule ccontr)
    assume "\<not> ?thesis"
    then have "(?q + 2) * m \<le> ?p * m" by (intro mult_le_mono1) simp
    then have "?q * m + 2 * m \<le> ?p * m" by (simp only: add_mult_distrib)
    with h t assms show False by linarith
  qed
  ultimately consider "?q = ?p" | "?q = ?p + 1" | "?p = ?q + 1" by linarith
  then show ?thesis
  proof cases
    case 1 with t show ?thesis by simp
  next
    case 2 with t show ?thesis by (simp add: algebra_simps)
  next
    case 3 with t show ?thesis by (simp add: algebra_simps)
  qed
qed

lemma ring_peek_window:
  assumes "ring_inv r" and "highest r = Some h" and "raw < modulus r"
    and "ring_peek r raw = Inr v"
  shows "ev_value v mod modulus r = raw" and "h < ev_value v + half_range r"
    and "ev_value v \<le> h + half_range r" and "ev_value v \<le> u64_max"
    and "ev_disposition v = ring_disposition_of r h (ev_value v)"
proof -
  let ?m = "modulus r" and ?k = "half_range r" and ?c = "(h div modulus r) * modulus r + raw"
  have m: "?m = 2 * ?k" "0 < ?k" using assms(1) by (simp_all add: ring_inv_def)
  have "0 < ?m" using m by simp
  note h = div_mod_split [OF this, of h]
  from assms(2,4) have cases: "ev_value v =
      (if ?c + ?k \<le> h then ?c + ?m else if h + ?k < ?c then ?c - ?m else ?c)"
      "h + ?k < ?c \<longrightarrow> ?m \<le> ?c \<or> ?c + ?k \<le> h"
      "ev_value v \<le> u64_max" "ev_disposition v = ring_disposition_of r h (ev_value v)"
    by (auto simp: ring_peek_def Let_def not_less split: if_splits)
  from cases(1,2) consider
      (up) "?c + ?k \<le> h" "ev_value v = ?c + ?m"
    | (down) "h + ?k < ?c" "ev_value v + ?m = ?c"
    | (same) "\<not> ?c + ?k \<le> h" "\<not> h + ?k < ?c" "ev_value v = ?c"
    by (auto split: if_splits)
  then have "h < ev_value v + ?k \<and> ev_value v \<le> h + ?k \<and> ev_value v mod ?m = raw"
  proof cases
    case up
    with h m assms(3) have "h < ev_value v + ?k \<and> ev_value v \<le> h + ?k" by linarith
    with up assms(3) show ?thesis by simp
  next
    case down
    with h m assms(3) have "h < ev_value v + ?k \<and> ev_value v \<le> h + ?k" by linarith
    moreover have "(ev_value v + ?m) mod ?m = raw" using down assms(3) by simp
    ultimately show ?thesis by simp
  next
    case same
    with h m assms(3) have "h < ev_value v + ?k \<and> ev_value v \<le> h + ?k" by linarith
    with same assms(3) show ?thesis by simp
  qed
  then show "h < ev_value v + ?k" "ev_value v \<le> h + ?k" "ev_value v mod ?m = raw"
    by simp_all
  show "ev_value v \<le> u64_max" "ev_disposition v = ring_disposition_of r h (ev_value v)"
    by (fact cases)+
qed

lemma ring_peek_complete:
  assumes "ring_inv r" and "highest r = Some h"
    and "h < t + half_range r" and "t \<le> h + half_range r" and "t \<le> u64_max"
  shows "ring_peek r (t mod modulus r) =
    Inr \<lparr>ev_value = t, ev_disposition = ring_disposition_of r h t\<rparr>"
proof -
  let ?m = "modulus r" and ?k = "half_range r"
  let ?c = "(h div ?m) * ?m + t mod ?m"
  have m: "?m = 2 * ?k" "0 < ?k" using assms(1) by (simp_all add: ring_inv_def)
  have "0 < ?m" using m by simp
  note h = div_mod_split [OF this, of h]
  from congruent_in_window [OF m assms(3,4)]
  consider "t = ?c" | "t = ?c + ?m" | "t + ?m = ?c" by blast
  then show ?thesis
  proof cases
    case 1
    with assms show ?thesis by (auto simp: ring_peek_def Let_def)
  next
    case 2
    with assms m have "?c + ?k \<le> h" by linarith
    with 2 assms show ?thesis by (auto simp: ring_peek_def Let_def)
  next
    case 3
    with assms m have "\<not> ?c + ?k \<le> h" "h + ?k < ?c" "\<not> ?c < ?m" "?c - ?m = t" by linarith+
    with assms show ?thesis by (auto simp: ring_peek_def Let_def)
  qed
qed

section \<open>Preview and commit as an interface\<close>

text \<open>
  The media engine previews a number, authenticates and buffers the packet, and only then
  commits. The contract it relies on: a commit of the current preview succeeds with that
  preview, every other commit leaves the extender untouched, and a committed number is a
  duplicate afterwards.
\<close>

locale extender =
  fixes peek :: "'s \<Rightarrow> 'w \<Rightarrow> ring_error + extended_ring_value"
    and commit :: "'s \<Rightarrow> 'w \<Rightarrow> extended_ring_value \<Rightarrow> (ring_error + extended_ring_value) \<times> 's"
    and good :: "'s \<Rightarrow> bool"
  assumes commit_error: "peek s w = Inl e \<Longrightarrow> commit s w p = (Inl e, s)"
    and commit_stale: "peek s w = Inr q \<Longrightarrow> q \<noteq> p \<Longrightarrow> commit s w p = (Inl StalePreview, s)"
    and commit_preview: "good s \<Longrightarrow> peek s w = Inr p \<Longrightarrow>
      \<exists>s'. commit s w p = (Inr p, s') \<and> good s' \<and>
           peek s' w = Inr (p\<lparr>ev_disposition := Duplicate\<rparr>)"
    and commit_duplicate: "peek s w = Inr p \<Longrightarrow> ev_disposition p = Duplicate \<Longrightarrow>
      commit s w p = (Inr p, s)"
begin

lemma commit_good: "good s \<Longrightarrow> commit s w p = (res, s') \<Longrightarrow> good s'"
  by (cases "peek s w")
    (metis Pair_inject commit_error, metis Pair_inject commit_preview commit_stale)

lemma failed_commit: "good s \<Longrightarrow> commit s w p = (Inl e, s') \<Longrightarrow> s' = s"
  by (cases "peek s w")
    (metis Pair_inject commit_error, metis Inl_Inr_False Pair_inject commit_preview commit_stale)

lemma commit_once:
  assumes "good s" and "commit s w p = (Inr v, s')"
  shows "peek s w = Inr p \<and> v = p \<and> peek s' w = Inr (p\<lparr>ev_disposition := Duplicate\<rparr>) \<and>
    commit s' w (p\<lparr>ev_disposition := Duplicate\<rparr>) = (Inr (p\<lparr>ev_disposition := Duplicate\<rparr>), s')"
proof -
  have "peek s w = Inr p"
    using assms by (cases "peek s w")
      (metis Inl_Inr_False Pair_inject commit_error, metis Inl_Inr_False Pair_inject commit_stale)
  with assms commit_preview [of s w p] show ?thesis
    using commit_duplicate [of s' w "p\<lparr>ev_disposition := Duplicate\<rparr>"] by auto
qed

end

lemma ring_commit_error: "ring_peek r raw = Inl e \<Longrightarrow> ring_commit r raw p = (Inl e, r)"
  by (simp add: ring_commit_def)

lemma ring_commit_stale:
  "ring_peek r raw = Inr q \<Longrightarrow> q \<noteq> p \<Longrightarrow> ring_commit r raw p = (Inl StalePreview, r)"
  by (simp add: ring_commit_def)

lemma ring_commit_duplicate:
  "ring_peek r raw = Inr p \<Longrightarrow> ev_disposition p = Duplicate \<Longrightarrow> ring_commit r raw p = (Inr p, r)"
  by (simp add: ring_commit_def)

lemma ring_peek_first:
  assumes "ring_inv r" and "highest r = None" and "raw < modulus r"
  shows "ring_peek r raw = Inr \<lparr>ev_value = modulus r + raw, ev_disposition = First\<rparr>"
  using assms by (auto simp: ring_peek_def ring_inv_def checked_add64_def u64_max_def)

lemma remember_inv:
  assumes "ring_inv r" and "v \<le> h" and "h \<le> u64_max"
    and "\<And>g. highest r = Some g \<Longrightarrow> g \<le> h"
  shows "ring_inv (ring_remember (r\<lparr>highest := Some h\<rparr>) v)"
proof -
  have "list_all (\<lambda>v. v \<le> h) (recent r)"
    using assms(1,4) by (cases "highest r") (fastforce simp: ring_inv_def list_all_iff)+
  with assms show ?thesis
    by (auto simp: ring_inv_def ring_remember_def intro: list_all_remember recent_queue.push_bounded)
qed

text \<open>
  The effect of committing the current preview, in one lemma: the high-water mark is the larger
  of the old mark and the value, the value is in the history, and the same raw number previews
  as a duplicate of the same value.
\<close>

lemma ring_commit_preview:
  assumes inv: "ring_inv r" and raw: "raw < modulus r" and peek: "ring_peek r raw = Inr p"
  shows "\<exists>r'. ring_commit r raw p = (Inr p, r') \<and> ring_inv r' \<and> modulus r' = modulus r \<and>
    half_range r' = half_range r \<and>
    highest r' = Some (case highest r of None \<Rightarrow> ev_value p | Some h \<Rightarrow> max h (ev_value p)) \<and>
    ring_peek r' raw = Inr (p\<lparr>ev_disposition := Duplicate\<rparr>)"
proof -
  let ?v = "ev_value p"
  have rep: "ring_peek r' raw = Inr (p\<lparr>ev_disposition := Duplicate\<rparr>)"
    if "ring_inv r'" "highest r' = Some h" "?v \<in> set (recent r')" "modulus r' = modulus r"
      "half_range r' = half_range r" "?v \<le> h" "h < ?v + half_range r" "?v mod modulus r = raw"
      "?v \<le> u64_max" for r' h
    using ring_peek_complete [OF that(1,2), of ?v] that by (simp add: ring_disposition_of_def)
  have half: "0 < half_range r" "modulus r = 2 * half_range r" "modulus r \<le> 2 ^ 32"
    using inv by (simp_all add: ring_inv_def)
  have mem: "?v \<in> set (remember_value (recent r) ?v)"
    using inv by (intro recent_queue.push_member) (simp add: ring_inv_def)
  show ?thesis
  proof (cases "highest r")
    case None
    with inv raw peek have p: "p = \<lparr>ev_value = modulus r + raw, ev_disposition = First\<rparr>"
      by (simp add: ring_peek_first)
    let ?r = "ring_remember (r\<lparr>highest := Some ?v\<rparr>) ?v"
    have "?v \<le> u64_max" using p raw half by (simp add: u64_max_def)
    with inv None have "ring_inv ?r" by (intro remember_inv) simp_all
    moreover from this have "ring_peek ?r raw = Inr (p\<lparr>ev_disposition := Duplicate\<rparr>)"
      using p raw half mem \<open>?v \<le> u64_max\<close>
      by (intro rep [where h = ?v]) (simp_all add: ring_remember_def)
    ultimately show ?thesis
      using peek p None by (simp add: ring_commit_def ring_remember_def)
  next
    case (Some h)
    note win = ring_peek_window [OF inv Some raw peek]
    consider (adv) "h < ?v" | (dup) "?v \<le> h" "?v \<in> set (recent r)"
      | (reord) "?v \<le> h" "?v \<notin> set (recent r)" by fastforce
    then show ?thesis
    proof cases
      case adv
      let ?r = "ring_remember (r\<lparr>highest := Some ?v\<rparr>) ?v"
      from inv Some adv win(4) have "ring_inv ?r" by (intro remember_inv) simp_all
      moreover from this have "ring_peek ?r raw = Inr (p\<lparr>ev_disposition := Duplicate\<rparr>)"
        using win half mem by (intro rep [where h = ?v]) (simp_all add: ring_remember_def)
      ultimately show ?thesis
        using peek win(5) adv Some
        by (simp add: ring_commit_def ring_remember_def ring_disposition_of_def)
    next
      case dup
      with win(5) have d: "ev_disposition p = Duplicate" by (simp add: ring_disposition_of_def)
      then have "p\<lparr>ev_disposition := Duplicate\<rparr> = p" by (cases p) simp
      with d dup inv Some peek show ?thesis by (simp add: ring_commit_duplicate max_absorb1)
    next
      case reord
      let ?r = "ring_remember r ?v"
      have "r\<lparr>highest := Some h\<rparr> = r" using Some by (cases r) simp
      then have "ring_inv ?r"
        using remember_inv [OF inv reord(1)] inv Some by (simp add: ring_inv_def ring_remember_def)
      moreover from this have "ring_peek ?r raw = Inr (p\<lparr>ev_disposition := Duplicate\<rparr>)"
        using win half mem reord Some
        by (intro rep [where h = h]) (simp_all add: ring_remember_def)
      ultimately show ?thesis
        using peek win(5) reord Some
        by (simp add: ring_commit_def ring_remember_def ring_disposition_of_def max_absorb1)
    qed
  qed
qed

fun seq16_good :: "sequence_extender16 \<Rightarrow> bool" where
  "seq16_good (SequenceExtender16 r) \<longleftrightarrow> ring_inv r \<and> modulus r = 2 ^ 16"

fun ts32_good :: "timestamp_extender32 \<Rightarrow> bool" where
  "ts32_good (TimestampExtender32 r) \<longleftrightarrow> ring_inv r \<and> modulus r = 2 ^ 32"

lemma unat_lt_modulus: "unat (v :: u16) < 2 ^ 16" "unat (w :: u32) < 2 ^ 32"
  using unsigned_less [of v] unsigned_less [of w] by simp_all

interpretation seq16: extender seq16_peek seq16_commit seq16_good
proof (unfold_locales, goal_cases)
  case (1 s w e p)
  then show ?case by (cases s) (simp add: ring_commit_error)
next
  case (2 s w q p)
  then show ?case by (cases s) (simp add: ring_commit_stale)
next
  case (3 s w p)
  then show ?case
    by (cases s) (use ring_commit_preview unat_lt_modulus in \<open>fastforce\<close>)
next
  case (4 s w p)
  then show ?case by (cases s) (simp add: ring_commit_duplicate)
qed

interpretation ts32: extender ts32_peek ts32_commit ts32_good
proof (unfold_locales, goal_cases)
  case (1 s w e p)
  then show ?case by (cases s) (simp add: ring_commit_error)
next
  case (2 s w q p)
  then show ?case by (cases s) (simp add: ring_commit_stale)
next
  case (3 s w p)
  then show ?case
    by (cases s) (use ring_commit_preview unat_lt_modulus in \<open>fastforce\<close>)
next
  case (4 s w p)
  then show ?case by (cases s) (simp add: ring_commit_duplicate)
qed

section \<open>A stream of packets\<close>

text \<open>
  \<open>in_window half hi ts\<close>: the true counters \<open>ts\<close> arrive so that each one is
  within half the wrapping range of the largest one seen before it.
\<close>

fun in_window :: "nat \<Rightarrow> nat \<Rightarrow> nat list \<Rightarrow> bool" where
  "in_window half hi [] \<longleftrightarrow> True"
| "in_window half hi (t # ts) \<longleftrightarrow>
     hi < t + half \<and> t \<le> hi + half \<and> t \<le> u64_max \<and> in_window half (max hi t) ts"

fun observe_all :: "ring_extender \<Rightarrow> nat list \<Rightarrow> (ring_error + nat) list" where
  "observe_all r [] = []"
| "observe_all r (raw # raws) =
     (case ring_observe r raw of
        (Inl e, r') \<Rightarrow> Inl e # observe_all r' raws
      | (Inr v, r') \<Rightarrow> Inr (ev_value v) # observe_all r' raws)"

lemma observe_all_window:
  assumes "ring_inv r" and "highest r = Some h" and "in_window (half_range r) h ts"
  shows "observe_all r (map (\<lambda>t. t mod modulus r) ts) = map Inr ts"
  using assms
proof (induction ts arbitrary: r h)
  case Nil
  then show ?case by simp
next
  case (Cons t ts)
  let ?raw = "t mod modulus r"
  have raw: "?raw < modulus r" using Cons.prems(1) by (simp add: ring_inv_def)
  have peek: "ring_peek r ?raw = Inr \<lparr>ev_value = t, ev_disposition = ring_disposition_of r h t\<rparr>"
    using Cons.prems by (intro ring_peek_complete) simp_all
  from ring_commit_preview [OF Cons.prems(1) raw peek] Cons.prems(2) obtain r' where r':
    "ring_commit r ?raw \<lparr>ev_value = t, ev_disposition = ring_disposition_of r h t\<rparr> =
       (Inr \<lparr>ev_value = t, ev_disposition = ring_disposition_of r h t\<rparr>, r')"
    "ring_inv r'" "modulus r' = modulus r" "half_range r' = half_range r"
    "highest r' = Some (max h t)" by auto
  have "observe_all r' (map (\<lambda>t. t mod modulus r') ts) = map Inr ts"
    using Cons.prems r' by (intro Cons.IH [where h = "max h t"]) simp_all
  with peek r' show ?case by (simp add: ring_observe_def)
qed

section \<open>The wire layout of an RTP packet\<close>

definition rtp_wire :: "rtp_packet \<Rightarrow> bytes" where
  "rtp_wire p =
     [0x80, (if marker p then 0x80 else 0) OR payload_type p] @ be_bytes 2 (rtp_sequence p) @
     be_bytes 4 (rtp_timestamp p) @ be_bytes 4 (ssrc p) @ rtp_payload p"

lemma rtp_first_byte:
  fixes w :: u8
  assumes "drop_bit 6 w = 2" and "w AND 0x20 = 0" and "w AND 0x10 = 0" and "w AND 0x0F = 0"
  shows "w = 0x80"
proof -
  have "bit (drop_bit 6 w) 0 = bit (2::u8) 0" "bit (drop_bit 6 w) 1 = bit (2::u8) 1"
    by (simp_all only: assms)
  moreover have "bit (w AND 0x20) 5 = bit (0::u8) 5" "bit (w AND 0x10) 4 = bit (0::u8) 4"
    by (simp_all only: assms)
  moreover have "bit (w AND 0x0F) n = bit (0::u8) n" for n by (simp only: assms)
  from this[of 0] this[of 1] this[of 2] this[of 3]
  have "\<not> bit w 0 \<and> \<not> bit w 1 \<and> \<not> bit w 2 \<and> \<not> bit w 3" by (simp add: bit_simps)
  ultimately show ?thesis by (intro byte_bitsI) (simp_all add: bit_simps)
qed

lemma rtp_second_byte: "(b :: u8) = (if b AND 0x80 \<noteq> 0 then 0x80 else 0) OR (b AND 0x7F)"
proof -
  have "b AND 0x80 = 0 \<longleftrightarrow> \<not> bit b 7"
  proof
    assume "b AND 0x80 = 0"
    then have "bit (b AND 0x80) 7 = bit (0::u8) 7" by simp
    then show "\<not> bit b 7" by (simp add: bit_simps)
  next
    assume "\<not> bit b 7" then show "b AND 0x80 = 0"
    by (intro byte_bitsI) (simp_all add: bit_simps)
  qed
  then show ?thesis by (intro byte_bitsI) (simp_all add: bit_simps)
qed

lemma rtp_type_bits: "(p :: u8) < 128 \<Longrightarrow> p AND 0x7F = p \<and> p AND 0x80 = 0 \<and> (0x80 OR p) AND 0x7F = p \<and> (0x80 OR p) AND 0x80 \<noteq> 0"
proof -
  assume "p < 128"
  then have "unat p div 128 = 0" by (simp add: word_less_nat_alt)
  then have n: "\<not> bit p 7" by (simp add: bit_iff_odd word_arith_nat_div flip: bit_unsigned_iff)
  have "bit ((0x80 OR p) AND 0x80) 7" by (simp add: bit_simps)
  then have "(0x80 OR p) AND 0x80 \<noteq> 0" by (metis bit_0_eq bot_apply bot_bool_def)
  with n show ?thesis
    by (auto intro!: byte_bitsI simp: bit_simps)
qed

lemma rtp_type_bound: "(p :: u8) AND 0x7F < 128"
  by (rule le_less_trans [OF word_and_le1]) simp

section \<open>Properties\<close>

text \<open>
  The RTP parser accepts exactly the version-2 datagrams without padding, extension and CSRC
  list that carry a payload, and reads every field where the RTP layout puts it: it is the
  inverse of the layout.
\<close>

theorem rtp_parse_iff:
  "rtp_parse d = Inr p \<longleftrightarrow> payload_type p < 128 \<and> rtp_payload p \<noteq> [] \<and> d = rtp_wire p"
proof
  assume parse: "rtp_parse d = Inr p"
  then have len: "12 \<le> length d" by (simp add: rtp_parse_def RTP_HEADER_LEN_def split: if_splits)
  from parse len have first: "drop_bit 6 (d ! 0) = 2" "d ! 0 AND 0x20 = 0" "d ! 0 AND 0x10 = 0"
      "d ! 0 AND 0x0F = 0" and ne: "drop 12 d \<noteq> []"
      and p: "p = \<lparr>marker = (d ! 1 AND 0x80 \<noteq> 0), payload_type = d ! 1 AND 0x7F,
        rtp_sequence = of_be [d ! 2, d ! 3], rtp_timestamp = of_be (byte_slice 4 8 d),
        ssrc = of_be (byte_slice 8 12 d), rtp_payload = drop 12 d\<rparr>"
    by (auto simp: rtp_parse_def RTP_HEADER_LEN_def Let_def simp del: drop_eq_Nil split: if_splits)
  have "d = take 4 d @ byte_slice 4 8 d @ byte_slice 8 12 d @ drop 12 d"
    using len byte_slice_join [of 4 8 12 d]
    by (simp add: byte_slice_def flip: append_assoc take_add)
  also have "take 4 d = [d ! 0, d ! 1, d ! 2, d ! 3]"
    using len by (auto simp: list_eq_iff_nth_eq less_Suc_eq numeral_eq_Suc)
  finally have d: "d = [d ! 0, d ! 1] @ [d ! 2, d ! 3] @ byte_slice 4 8 d @ byte_slice 8 12 d @ drop 12 d"
    by simp
  have "rtp_wire p = [0x80, (if d ! 1 AND 0x80 \<noteq> 0 then 0x80 else 0) OR (d ! 1 AND 0x7F)] @
      [d ! 2, d ! 3] @ byte_slice 4 8 d @ byte_slice 8 12 d @ drop 12 d"
    using len by (simp add: p rtp_wire_def be_bytes_of_be)
  also have "\<dots> = d"
    using d by (simp only: rtp_first_byte [OF first] rtp_second_byte [symmetric] append_Cons append_Nil)
  finally have "rtp_wire p = d" .
  with p ne show "payload_type p < 128 \<and> rtp_payload p \<noteq> [] \<and> d = rtp_wire p"
    by (simp add: rtp_type_bound)
next
  assume "payload_type p < 128 \<and> rtp_payload p \<noteq> [] \<and> d = rtp_wire p"
  then show "rtp_parse d = Inr p"
    using rtp_type_bits [of "payload_type p"]
    by (cases p) (auto simp: rtp_parse_def rtp_wire_def RTP_HEADER_LEN_def Let_def layout_simps)
qed

text \<open>
  C21. Unwrapping: let a stream of true counters arrive, losses, duplicates and reordering
  included, where each one lies within half the wrapping range of the largest one before it. The
  extender, fed only with the counters modulo the wrapping range, returns every one of them
  exactly, offset by the epoch it reserves below the first observation.
\<close>

theorem extender_recovers_stream:
  assumes "bits = 16 \<or> bits = 32" and "t < 2 ^ bits"
    and "in_window (2 ^ bits div 2) (2 ^ bits + t) ts"
  shows "observe_all (ring_new bits) (map (\<lambda>s. s mod 2 ^ bits) ((2 ^ bits + t) # ts)) =
    map Inr ((2 ^ bits + t) # ts)"
proof -
  let ?r = "ring_new bits"
  have inv: "ring_inv ?r" and new: "highest ?r = None" "modulus ?r = 2 ^ bits"
      "half_range ?r = 2 ^ bits div 2"
    using assms(1) ring_new_inv by (auto simp: ring_new_def)
  have peek: "ring_peek ?r t = Inr \<lparr>ev_value = 2 ^ bits + t, ev_disposition = First\<rparr>"
    using ring_peek_first [OF inv new(1)] assms(2) new(2) by simp
  from ring_commit_preview [OF inv _ peek] assms(2) new obtain r' where r':
    "ring_commit ?r t \<lparr>ev_value = 2 ^ bits + t, ev_disposition = First\<rparr> =
       (Inr \<lparr>ev_value = 2 ^ bits + t, ev_disposition = First\<rparr>, r')"
    "ring_inv r'" "modulus r' = 2 ^ bits" "half_range r' = 2 ^ bits div 2"
    "highest r' = Some (2 ^ bits + t)" by auto
  have "observe_all r' (map (\<lambda>s. s mod 2 ^ bits) ts) = map Inr ts"
    using observe_all_window [OF r'(2,5)] assms(3) r' by simp
  with assms(2) peek r' show ?thesis by (simp add: ring_observe_def)
qed

theorem extender_recovers_stream_witness:
  "observe_all (ring_new 16) (map (\<lambda>s. s mod 2 ^ 16) [131071, 131073, 131072]) =
    map Inr [131071, 131073, 131072]"
  using extender_recovers_stream [of 16 65535 "[131073, 131072]"] by (simp add: u64_max_def)

text \<open>
  Preview and commit of the 16-bit extender: a commit that fails leaves the extender as it
  was, a commit that succeeds returns the preview it was given, and the same sequence number is
  a duplicate of the same value from then on, whose commit changes nothing.
\<close>

theorem seq16_commit_contract:
  assumes "seq16_good s" and "seq16_commit s w p = (res, s')"
  shows "seq16_good s' \<and>
    (case res of
       Inl e \<Rightarrow> s' = s
     | Inr v \<Rightarrow> v = p \<and> seq16_peek s w = Inr p \<and>
         seq16_peek s' w = Inr (p\<lparr>ev_disposition := Duplicate\<rparr>) \<and>
         seq16_commit s' w (p\<lparr>ev_disposition := Duplicate\<rparr>) =
           (Inr (p\<lparr>ev_disposition := Duplicate\<rparr>), s'))"
  using assms seq16.commit_good seq16.failed_commit seq16.commit_once
  by (cases res) (fastforce+)

theorem seq16_commit_contract_witness:
  "\<exists>s' res. seq16_commit seq16_new 7 \<lparr>ev_value = 65543, ev_disposition = First\<rparr> = (res, s') \<and> seq16_good s'"
proof -
  obtain res s' where c: "seq16_commit seq16_new 7 \<lparr>ev_value = 65543, ev_disposition = First\<rparr> = (res, s')"
    by (cases "seq16_commit seq16_new 7 \<lparr>ev_value = 65543, ev_disposition = First\<rparr>")
  have "seq16_good seq16_new" by (simp add: seq16_new_def ring_new_inv) (simp add: ring_new_def)
  from seq16_commit_contract [OF this c] c show ?thesis by blast
qed

end
