(* ===== verification/OrderedMap.thy ===== *)
theory OrderedMap
  imports Prelude
begin

text \<open>
  The standard library's ordered map with integer keys, as far as the packet buffer and the
  media engine use it: insertion, removal, lookup, the last key, an inclusive range of keys and
  the split at a key. A map is the list of its entries in ascending order of their keys. The
  laws the clients rely on are the locale \<open>ordered_map\<close>, interpreted on the list model.
\<close>

section \<open>The operations\<close>

type_synonym 'v btree = "(nat \<times> 'v) list"

fun bt_insert :: "nat \<Rightarrow> 'v \<Rightarrow> 'v btree \<Rightarrow> 'v btree" where
  "bt_insert k v [] = [(k, v)]"
| "bt_insert k v ((j, w) # xs) =
     (if k < j then (k, v) # (j, w) # xs
      else if k = j then (k, v) # xs
      else (j, w) # bt_insert k v xs)"

definition bt_remove :: "nat \<Rightarrow> 'v btree \<Rightarrow> 'v btree" where
  "bt_remove k xs = filter (\<lambda>e. fst e \<noteq> k) xs"

definition bt_lookup :: "'v btree \<Rightarrow> nat \<Rightarrow> 'v option" where
  "bt_lookup xs k = map_of xs k"

definition bt_keys :: "'v btree \<Rightarrow> nat list" where
  "bt_keys xs = map fst xs"

definition bt_last_key :: "'v btree \<Rightarrow> nat option" where
  "bt_last_key xs = (if xs = [] then None else Some (fst (last xs)))"

definition bt_split_off :: "nat \<Rightarrow> 'v btree \<Rightarrow> 'v btree" where
  "bt_split_off k xs = filter (\<lambda>e. k \<le> fst e) xs"

definition bt_range_keys :: "nat \<Rightarrow> nat \<Rightarrow> 'v btree \<Rightarrow> nat list" where
  "bt_range_keys lo hi xs = filter (\<lambda>k. lo \<le> k \<and> k \<le> hi) (bt_keys xs)"

definition bt_ok :: "'v btree \<Rightarrow> bool" where
  "bt_ok xs \<longleftrightarrow> sorted_wrt (<) (bt_keys xs)"

section \<open>The laws of the list model\<close>

lemma bt_keys_simps [simp]:
  "bt_keys [] = []" "bt_keys (e # xs) = fst e # bt_keys xs"
  "bt_keys (xs @ ys) = bt_keys xs @ bt_keys ys" "length (bt_keys xs) = length xs"
  "bt_keys xs = [] \<longleftrightarrow> xs = []"
  by (simp_all add: bt_keys_def)

lemma set_bt_keys: "set (bt_keys xs) = fst ` set xs"
  by (simp add: bt_keys_def)

lemma bt_ok_simps [simp]:
  "bt_ok []" "bt_ok (e # xs) \<longleftrightarrow> (\<forall>k \<in> set (bt_keys xs). fst e < k) \<and> bt_ok xs"
  by (simp_all add: bt_ok_def)

lemma bt_ok_distinct: "bt_ok xs \<Longrightarrow> distinct (bt_keys xs)"
  by (induction xs) auto

lemma bt_keys_insert [simp]: "set (bt_keys (bt_insert k v xs)) = insert k (set (bt_keys xs))"
  by (induction k v xs rule: bt_insert.induct) auto

lemma bt_ok_insert [simp]: "bt_ok xs \<Longrightarrow> bt_ok (bt_insert k v xs)"
  by (induction k v xs rule: bt_insert.induct) fastforce+

lemma bt_ok_filter [simp]: "bt_ok xs \<Longrightarrow> bt_ok (filter P xs)"
  by (induction xs) (auto simp: set_bt_keys)

lemma bt_keys_filter [simp]: "bt_keys (filter (\<lambda>e. P (fst e)) xs) = filter P (bt_keys xs)"
  by (induction xs) auto

lemma bt_ok_remove [simp]: "bt_ok xs \<Longrightarrow> bt_ok (bt_remove k xs)"
  by (simp add: bt_remove_def)

lemma bt_ok_split_off [simp]: "bt_ok xs \<Longrightarrow> bt_ok (bt_split_off k xs)"
  by (simp add: bt_split_off_def)

lemma bt_keys_remove [simp]: "bt_keys (bt_remove k xs) = filter (\<lambda>j. j \<noteq> k) (bt_keys xs)"
  unfolding bt_remove_def by (rule bt_keys_filter)

lemma bt_keys_split_off [simp]: "bt_keys (bt_split_off k xs) = filter (\<lambda>j. k \<le> j) (bt_keys xs)"
  unfolding bt_split_off_def by (rule bt_keys_filter)

lemma bt_lookup_insert [simp]: "bt_lookup (bt_insert k v xs) = (bt_lookup xs)(k \<mapsto> v)"
  by (induction k v xs rule: bt_insert.induct) (auto simp: bt_lookup_def fun_eq_iff)

lemma bt_lookup_remove [simp]: "bt_lookup (bt_remove k xs) = (bt_lookup xs)(k := None)"
  by (induction xs) (auto simp: bt_lookup_def bt_remove_def fun_eq_iff)

lemma bt_lookup_split_off [simp]:
  "bt_lookup (bt_split_off k xs) j = (if k \<le> j then bt_lookup xs j else None)"
  by (induction xs) (auto simp: bt_lookup_def bt_split_off_def)

lemma bt_lookup_dom: "dom (bt_lookup xs) = set (bt_keys xs)"
  by (simp add: bt_lookup_def [abs_def] dom_map_of_conv_image_fst set_bt_keys)

lemma bt_lookup_None: "bt_lookup xs k = None \<longleftrightarrow> k \<notin> set (bt_keys xs)"
  using bt_lookup_dom [of xs] by (auto simp: domIff)

lemma bt_lookup_mem: "bt_lookup xs k = Some v \<Longrightarrow> (k, v) \<in> set xs"
  by (simp add: bt_lookup_def map_of_SomeD)

lemma bt_set_insert: "set (bt_insert k v xs) \<subseteq> insert (k, v) (set xs)"
  by (induction k v xs rule: bt_insert.induct) auto

lemma bt_set_sub: "set (bt_remove k xs) \<subseteq> set xs" "set (bt_split_off k xs) \<subseteq> set xs"
  by (auto simp: bt_remove_def bt_split_off_def)

lemma bt_length_insert [simp]:
  "k \<notin> set (bt_keys xs) \<Longrightarrow> length (bt_insert k v xs) = Suc (length xs)"
  by (induction k v xs rule: bt_insert.induct) auto

lemma bt_length_sub: "length (bt_remove k xs) \<le> length xs" "length (bt_split_off k xs) \<le> length xs"
  by (simp_all add: bt_remove_def bt_split_off_def)

lemma bt_last_max: "bt_ok xs \<Longrightarrow> bt_last_key xs = Some k \<Longrightarrow> j \<in> set (bt_keys xs) \<Longrightarrow> j \<le> k"
proof (induction xs)
  case (Cons e xs)
  then show ?case
    using last_in_set [of xs]
    by (cases "xs = []") (auto simp: bt_last_key_def set_bt_keys intro: less_imp_le)
qed simp

lemma bt_last_mem: "bt_last_key xs = Some k \<Longrightarrow> k \<in> set (bt_keys xs)"
  by (auto simp: bt_last_key_def set_bt_keys split: if_splits)

lemma bt_remove_last:
  assumes "bt_ok xs" and "bt_last_key xs = Some k"
  shows "bt_remove k xs = butlast xs"
proof -
  from assms(2) obtain ys v where xs: "xs = ys @ [(k, v)]"
    by (cases xs rule: rev_cases) (auto simp: bt_last_key_def)
  with assms(1) have "\<forall>e \<in> set ys. fst e \<noteq> k"
    using bt_ok_distinct [OF assms(1)] by (auto simp: set_bt_keys)
  with xs show ?thesis by (auto simp: bt_remove_def filter_id_conv)
qed

lemma bt_insert_butlast:
  assumes "bt_last_key xs = Some k" and "j < k"
  shows "bt_insert j v (butlast xs) = butlast (bt_insert j v xs)"
  using assms
proof (induction j v xs rule: bt_insert.induct)
  case (2 j v i w xs)
  show ?case
  proof (cases "xs = []")
    case True
    with 2 show ?thesis by (auto simp: bt_last_key_def)
  next
    case False
    then have "bt_insert j v xs \<noteq> []" by (metis insert_not_empty list.set(1) bt_keys_insert bt_keys_simps(1))
    with 2 False show ?thesis by (auto simp: bt_last_key_def)
  qed
qed (simp add: bt_last_key_def)

lemma bt_insert_end:
  assumes "bt_ok xs" and "\<forall>k \<in> set (bt_keys xs). k < j"
  shows "bt_insert j v xs = xs @ [(j, v)]"
  using assms by (induction j v xs rule: bt_insert.induct) auto

section \<open>The interface\<close>

text \<open>What a client of the ordered map may assume, and what follows from it alone.\<close>

locale ordered_map =
  fixes lookup :: "'m \<Rightarrow> nat \<Rightarrow> 'v option" and insert_op :: "nat \<Rightarrow> 'v \<Rightarrow> 'm \<Rightarrow> 'm"
    and remove_op :: "nat \<Rightarrow> 'm \<Rightarrow> 'm" and split_off :: "nat \<Rightarrow> 'm \<Rightarrow> 'm"
    and last_key :: "'m \<Rightarrow> nat option" and ok :: "'m \<Rightarrow> bool"
  assumes lookup_insert: "lookup (insert_op k v m) = (lookup m)(k \<mapsto> v)"
    and lookup_remove: "lookup (remove_op k m) = (lookup m)(k := None)"
    and lookup_split: "lookup (split_off k m) j = (if k \<le> j then lookup m j else None)"
    and last_law: "ok m \<Longrightarrow> last_key m = Some k \<Longrightarrow> lookup m k \<noteq> None \<and> (\<forall>j. lookup m j \<noteq> None \<longrightarrow> j \<le> k)"
    and ok_laws: "ok m \<Longrightarrow> ok (insert_op k v m)" "ok m \<Longrightarrow> ok (remove_op k m)"
      "ok m \<Longrightarrow> ok (split_off k m)"
begin

definition evict_far :: "nat \<Rightarrow> nat \<Rightarrow> 'v \<Rightarrow> 'm \<Rightarrow> 'm" where
  "evict_far far k v m = insert_op k v (remove_op far m)"

lemma evict_far_ok: "ok m \<Longrightarrow> ok (evict_far far k v m)"
  by (simp add: evict_far_def ok_laws)

lemma evict_far_lookup:
  "k \<noteq> far \<Longrightarrow> lookup (evict_far far k v m) = (lookup m)(far := None, k \<mapsto> v)"
  by (simp add: evict_far_def lookup_insert lookup_remove)

text \<open>Replacing the farthest entry by a nearer one lowers every key bound.\<close>

lemma evict_far_below:
  assumes "ok m" and "last_key m = Some far" and "k < far" and "lookup (evict_far far k v m) j \<noteq> None"
  shows "j < far"
proof -
  from assms(3,4) have "j \<noteq> far" and "j = k \<or> lookup m j \<noteq> None"
    by (auto simp: evict_far_lookup split: if_splits)
  with last_law [OF assms(1,2)] assms(3) show ?thesis by fastforce
qed

lemma split_then_remove:
  "lookup (remove_op k (split_off k m)) j = (if k < j then lookup m j else None)"
  by (auto simp: lookup_remove lookup_split)

end

interpretation bt: ordered_map bt_lookup bt_insert bt_remove bt_split_off bt_last_key bt_ok
  by unfold_locales (auto simp: bt_lookup_None bt_last_mem dest: bt_last_max)

end
