(* ===== verification/Jitter.thy ===== *)
theory Jitter
  imports Interfaces OrderedMap
begin

text \<open>
  The bounded, ordering-only packet buffer of the AirPlay UDP media path
  (core/audiohub-airplay/src/protocol/media/jitter.rs): packets are inserted under their extended
  sequence number, delivered strictly in order, and a gap is skipped only through an explicit
  advance of the dequeue point. The theory models every operation of the buffer and proves its
  invariant, the order of delivery, the eviction policy, the exactness of the reported gaps and
  that a gap can always be skipped.
\<close>

section \<open>Data\<close>

definition DEFAULT_PACKET_CAPACITY :: usize where
  "DEFAULT_PACKET_CAPACITY = 128"

definition DEFAULT_REORDER_WINDOW :: nat64 where
  "DEFAULT_REORDER_WINDOW = 512"

definition PTP_PACKET_CAPACITY :: usize where
  "PTP_PACKET_CAPACITY = 512"

definition MAX_PACKET_CAPACITY :: usize where
  "MAX_PACKET_CAPACITY = 1024"

definition MAX_REORDER_WINDOW :: nat64 where
  "MAX_REORDER_WINDOW = 65535"

definition MAX_COMPRESSED_PACKET_BYTES :: usize where
  "MAX_COMPRESSED_PACKET_BYTES = 4096"

lemmas jitter_limits = DEFAULT_PACKET_CAPACITY_def DEFAULT_REORDER_WINDOW_def
  PTP_PACKET_CAPACITY_def MAX_PACKET_CAPACITY_def MAX_REORDER_WINDOW_def
  MAX_COMPRESSED_PACKET_BYTES_def

record operation_token =
  token_generation :: nat64

record buffered_packet =
  bp_sequence :: nat64
  bp_timestamp :: nat64
  bp_token :: operation_token
  bp_payload :: bytes

record missing_range =
  mr_first :: nat64
  mr_last :: nat64

definition packet_count :: "missing_range \<Rightarrow> nat64" where
  "packet_count r = mr_last r - mr_first r + 1"

datatype insert_outcome =
    Inserted
  | ReplacedFarFuture nat64

datatype jitter_error =
    InvalidLimits
  | EmptyPayload
  | PayloadTooLarge usize usize
  | DuplicateSequence nat64
  | TooOld nat64 nat64
  | OutsideWindow nat64 nat64
  | InvalidAdvance nat64 nat64 nat64
  | Full usize
  | SequenceExhausted

fun telemetry_reason :: "jitter_error \<Rightarrow> string" where
  "telemetry_reason InvalidLimits = ''invalid_limits''"
| "telemetry_reason EmptyPayload = ''empty_payload''"
| "telemetry_reason (PayloadTooLarge _ _) = ''payload_too_large''"
| "telemetry_reason (DuplicateSequence _) = ''duplicate''"
| "telemetry_reason (TooOld _ _) = ''too_old''"
| "telemetry_reason (OutsideWindow _ _) = ''outside_window''"
| "telemetry_reason (InvalidAdvance _ _ _) = ''invalid_advance''"
| "telemetry_reason (Full _) = ''full''"
| "telemetry_reason SequenceExhausted = ''sequence_exhausted''"

record jitter_buffer =
  jb_capacity :: usize
  jb_window :: nat64
  jb_next :: "nat64 option"
  jb_highest :: "nat64 option"
  jb_priming :: bool
  jb_exhausted :: bool
  jb_packets :: "buffered_packet btree"

section \<open>Operations\<close>

definition with_limits :: "usize \<Rightarrow> nat64 \<Rightarrow> jitter_error + jitter_buffer" where
  "with_limits capacity window =
     (if capacity = 0 \<or> MAX_PACKET_CAPACITY < capacity \<or> window = 0 \<or> MAX_REORDER_WINDOW < window
      then Inl InvalidLimits
      else Inr \<lparr>jb_capacity = capacity, jb_window = window, jb_next = None, jb_highest = None,
                jb_priming = True, jb_exhausted = False, jb_packets = []\<rparr>)"

text \<open>The two constructors unwrap the result; \<open>None\<close> is the panic of \<open>expect\<close>.\<close>

definition type96 :: "jitter_buffer option" where
  "type96 = (case with_limits DEFAULT_PACKET_CAPACITY DEFAULT_REORDER_WINDOW of
     Inl _ \<Rightarrow> None | Inr b \<Rightarrow> Some b)"

definition ptp_type96 :: "jitter_buffer option" where
  "ptp_type96 = (case with_limits PTP_PACKET_CAPACITY DEFAULT_REORDER_WINDOW of
     Inl _ \<Rightarrow> None | Inr b \<Rightarrow> Some b)"

definition jb_insert ::
  "nat64 \<Rightarrow> nat64 \<Rightarrow> bytes \<Rightarrow> operation_token \<Rightarrow> jitter_buffer \<Rightarrow>
     (jitter_error + insert_outcome) \<times> jitter_buffer" where
  "jb_insert s ts payload tok b =
     (if jb_exhausted b then (Inl SequenceExhausted, b)
      else if payload = [] then (Inl EmptyPayload, b)
      else if MAX_COMPRESSED_PACKET_BYTES < length payload
      then (Inl (PayloadTooLarge (length payload) MAX_COMPRESSED_PACKET_BYTES), b)
      else
        let expected0 = (case jb_next b of None \<Rightarrow> s | Some n \<Rightarrow> n);
            b1 = b\<lparr>jb_next := Some expected0\<rparr>
        in if s < expected0 \<and> (\<not> jb_priming b1 \<or> jb_window b1 < expected0 - s)
           then (Inl (TooOld s expected0), b1)
           else
             let expected = (if s < expected0 then s else expected0);
                 b2 = (if s < expected0 then b1\<lparr>jb_next := Some s\<rparr> else b1)
             in if jb_window b2 < s - expected
                then (Inl (OutsideWindow s (saturating_add64 expected (jb_window b2))), b2)
                else if bt_lookup (jb_packets b2) s \<noteq> None
                then (Inl (DuplicateSequence s), b2)
                else
                  let packet = \<lparr>bp_sequence = s, bp_timestamp = ts, bp_token = tok,
                                bp_payload = payload\<rparr>;
                      highest' = Some (case jb_highest b2 of None \<Rightarrow> s | Some h \<Rightarrow> max h s)
                  in if length (jb_packets b2) = jb_capacity b2
                     then
                       let farthest = the (bt_last_key (jb_packets b2))
                       in if farthest \<le> s then (Inl (Full (jb_capacity b2)), b2)
                          else (Inr (ReplacedFarFuture farthest),
                                b2\<lparr>jb_packets :=
                                      bt_insert s packet (bt_remove farthest (jb_packets b2)),
                                   jb_highest := highest'\<rparr>)
                     else (Inr Inserted,
                           b2\<lparr>jb_packets := bt_insert s packet (jb_packets b2),
                              jb_highest := highest'\<rparr>))"

definition pop_ready :: "jitter_buffer \<Rightarrow> buffered_packet option \<times> jitter_buffer" where
  "pop_ready b =
     (if jb_priming b \<and> length (jb_packets b) < min (jb_capacity b) 2 then (None, b)
      else
        let b1 = b\<lparr>jb_priming := False\<rparr>
        in case jb_next b1 of
             None \<Rightarrow> (None, b1)
           | Some expected \<Rightarrow>
               (case bt_lookup (jb_packets b1) expected of
                  None \<Rightarrow> (None, b1)
                | Some packet \<Rightarrow>
                    let b2 = b1\<lparr>jb_packets := bt_remove expected (jb_packets b1)\<rparr>
                    in (Some packet,
                        if expected = u64_max
                        then b2\<lparr>jb_next := None, jb_exhausted := True\<rparr>
                        else b2\<lparr>jb_next := Some (expected + 1)\<rparr>)))"

definition advance_to :: "nat64 \<Rightarrow> jitter_buffer \<Rightarrow> (jitter_error + unit) \<times> jitter_buffer" where
  "advance_to new_next b =
     (if jb_exhausted b then (Inl SequenceExhausted, b)
      else case jb_next b of
        None \<Rightarrow> (Inl (InvalidAdvance new_next 0 0), b)
      | Some current \<Rightarrow>
        (case checked_add64 current 1 of
           None \<Rightarrow> (Inl SequenceExhausted, b)
         | Some minimum \<Rightarrow>
             let highest' = (case jb_highest b of None \<Rightarrow> current | Some h \<Rightarrow> h);
                 maximum = min (saturating_add64 highest' 1) (saturating_add64 current (jb_window b))
             in if new_next < minimum \<or> maximum < new_next
                then (Inl (InvalidAdvance new_next minimum maximum), b)
                else
                  let b1 = b\<lparr>jb_priming := False, jb_packets := bt_split_off new_next (jb_packets b)\<rparr>
                  in (Inr (),
                      if new_next = u64_max \<and> highest' < new_next
                      then b1\<lparr>jb_next := None, jb_exhausted := True\<rparr>
                      else b1\<lparr>jb_next := Some new_next\<rparr>)))"

fun missing_loop :: "nat64 \<Rightarrow> nat64 \<Rightarrow> nat64 list \<Rightarrow> missing_range list" where
  "missing_loop cursor hi [] =
     (if cursor \<le> hi then [\<lparr>mr_first = cursor, mr_last = hi\<rparr>] else [])"
| "missing_loop cursor hi (s # ss) =
     (let gap = (if cursor < s then [\<lparr>mr_first = cursor, mr_last = s - 1\<rparr>] else [])
      in if s = u64_max then gap else gap @ missing_loop (s + 1) hi ss)"

definition missing_ranges :: "jitter_buffer \<Rightarrow> missing_range list" where
  "missing_ranges b =
     (case (jb_next b, jb_highest b) of
        (Some cursor, Some hi) \<Rightarrow>
          if hi < cursor then []
          else missing_loop cursor hi (bt_range_keys cursor hi (jb_packets b))
      | _ \<Rightarrow> [])"

definition jb_len :: "jitter_buffer \<Rightarrow> usize" where
  "jb_len b = length (jb_packets b)"

definition jb_is_empty :: "jitter_buffer \<Rightarrow> bool" where
  "jb_is_empty b \<longleftrightarrow> jb_packets b = []"

definition finish_priming :: "jitter_buffer \<Rightarrow> jitter_buffer" where
  "finish_priming b = b\<lparr>jb_priming := False\<rparr>"

section \<open>The invariant\<close>

definition packet_ok :: "nat64 \<times> buffered_packet \<Rightarrow> bool" where
  "packet_ok e \<longleftrightarrow> bp_sequence (snd e) = fst e \<and> bp_payload (snd e) \<noteq> [] \<and>
     length (bp_payload (snd e)) \<le> MAX_COMPRESSED_PACKET_BYTES"

text \<open>
  Keys are unique and ascending, none lies before the dequeue point or beyond the highest number
  accepted, the dequeue point is at most one past that number, and an exhausted buffer is empty.
\<close>

definition jb_inv :: "jitter_buffer \<Rightarrow> bool" where
  "jb_inv b \<longleftrightarrow>
     0 < jb_capacity b \<and> jb_capacity b \<le> MAX_PACKET_CAPACITY \<and>
     0 < jb_window b \<and> jb_window b \<le> MAX_REORDER_WINDOW \<and>
     bt_ok (jb_packets b) \<and> length (jb_packets b) \<le> jb_capacity b \<and>
     (\<forall>e \<in> set (jb_packets b). packet_ok e) \<and>
     (case jb_next b of
        None \<Rightarrow> jb_packets b = [] \<and> (jb_exhausted b \<or> jb_highest b = None)
      | Some n \<Rightarrow> \<not> jb_exhausted b \<and> n \<le> u64_max \<and>
          (case jb_highest b of
             None \<Rightarrow> False
           | Some h \<Rightarrow> h \<le> u64_max \<and> n \<le> h + 1 \<and>
               (\<forall>k \<in> set (bt_keys (jb_packets b)). n \<le> k \<and> k \<le> h)))"

lemma with_limits_inv: "with_limits c w = Inr b \<Longrightarrow> jb_inv b"
  by (auto simp: with_limits_def jb_inv_def split: if_splits)

text \<open>
  Two ways to read an insertion: what an error leaves behind (nothing changes), and what an
  accepted packet does to the buffer, whatever the outcome.
\<close>

definition provisional_next :: "nat64 \<Rightarrow> jitter_buffer \<Rightarrow> nat64" where
  "provisional_next s b = (case jb_next b of None \<Rightarrow> s | Some n \<Rightarrow> min s n)"

lemma jb_same_next: "jb_next b = Some n \<Longrightarrow> b\<lparr>jb_next := Some n\<rparr> = b"
  by (cases b) simp

lemma jb_insert_error:
  assumes "jb_inv b" and "jb_insert s ts payload tok b = (Inl e, b')"
  shows "b' = b"
proof (cases "jb_next b")
  case None
  with assms show ?thesis
    by (auto simp: jb_insert_def jb_inv_def bt_lookup_def Let_def split: if_splits)
next
  case (Some n)
  note same = jb_same_next [OF Some]
  from assms(1) Some have below: "k \<in> set (bt_keys (jb_packets b)) \<Longrightarrow> n \<le> k" for k
    by (auto simp: jb_inv_def split: option.splits)
  have far: "n \<le> the (bt_last_key (jb_packets b))" if "length (jb_packets b) = jb_capacity b"
  proof -
    from that assms(1) have "jb_packets b \<noteq> []" by (auto simp: jb_inv_def)
    then show ?thesis using below by (auto simp: bt_last_key_def set_bt_keys)
  qed
  show ?thesis
  proof (cases "s < n")
    case True
    then have "bt_lookup (jb_packets b) s = None" using below by (fastforce simp: bt_lookup_None)
    with True assms(2) Some far show ?thesis
      by (auto simp: jb_insert_def Let_def same split: if_splits)
  next
    case False
    with assms(2) Some show ?thesis
      by (auto simp: jb_insert_def Let_def same split: if_splits)
  qed
qed

lemma jb_insert_accepted:
  assumes "jb_inv b" and "jb_insert s ts payload tok b = (Inr out, b')"
  defines "p \<equiv> \<lparr>bp_sequence = s, bp_timestamp = ts, bp_token = tok, bp_payload = payload\<rparr>"
  shows "\<not> jb_exhausted b" and "payload \<noteq> []" and "length payload \<le> MAX_COMPRESSED_PACKET_BYTES"
    and "s \<notin> set (bt_keys (jb_packets b))"
    and "s \<le> provisional_next s b + jb_window b"
    and "jb_next b = Some n \<Longrightarrow> s < n \<Longrightarrow> jb_priming b \<and> n - s \<le> jb_window b"
    and "b' = b\<lparr>jb_next := Some (provisional_next s b),
               jb_highest := Some (case jb_highest b of None \<Rightarrow> s | Some h \<Rightarrow> max h s),
               jb_packets := take (jb_capacity b) (bt_insert s p (jb_packets b))\<rparr>"
    and "out = (if length (jb_packets b) = jb_capacity b
                then ReplacedFarFuture (the (bt_last_key (jb_packets b))) else Inserted)"
proof -
  show facts: "\<not> jb_exhausted b" "payload \<noteq> []" "length payload \<le> MAX_COMPRESSED_PACKET_BYTES"
      "s \<notin> set (bt_keys (jb_packets b))" "s \<le> provisional_next s b + jb_window b"
      "jb_next b = Some n \<Longrightarrow> s < n \<Longrightarrow> jb_priming b \<and> n - s \<le> jb_window b"
    using assms(2)
    by (auto simp: jb_insert_def provisional_next_def Let_def bt_lookup_None min_def
        split: if_splits option.splits)
  from assms(1) have len: "length (jb_packets b) \<le> jb_capacity b" and ok: "bt_ok (jb_packets b)"
      and pos: "0 < jb_capacity b"
    by (simp_all add: jb_inv_def)
  show "b' = b\<lparr>jb_next := Some (provisional_next s b),
               jb_highest := Some (case jb_highest b of None \<Rightarrow> s | Some h \<Rightarrow> max h s),
               jb_packets := take (jb_capacity b) (bt_insert s p (jb_packets b))\<rparr>"
  proof (cases "length (jb_packets b) = jb_capacity b")
    case True
    with pos obtain far where far: "bt_last_key (jb_packets b) = Some far"
      by (cases "bt_last_key (jb_packets b)") (auto simp: bt_last_key_def split: if_splits)
    have lt: "s < far"
      using assms(2) True far by (auto simp: jb_insert_def Let_def split: if_splits)
    have "bt_insert s p (bt_remove far (jb_packets b)) = butlast (bt_insert s p (jb_packets b))"
      by (simp add: bt_remove_last [OF ok far] bt_insert_butlast [OF far lt])
    also have "\<dots> = take (jb_capacity b) (bt_insert s p (jb_packets b))"
      using facts(4) True by (simp add: butlast_conv_take)
    finally show ?thesis
      using assms(2) True far lt
      by (auto simp: jb_insert_def p_def provisional_next_def Let_def min_def
          split: if_splits option.splits)
  next
    case False
    with len facts(4) have "take (jb_capacity b) (bt_insert s p (jb_packets b)) = bt_insert s p (jb_packets b)"
      by simp
    with assms(2) False show ?thesis
      by (auto simp: jb_insert_def p_def provisional_next_def Let_def min_def
          split: if_splits option.splits)
  qed
  show "out = (if length (jb_packets b) = jb_capacity b
                then ReplacedFarFuture (the (bt_last_key (jb_packets b))) else Inserted)"
    using assms(2) by (auto simp: jb_insert_def Let_def split: if_splits option.splits)
qed

lemma bt_ok_take: "bt_ok xs \<Longrightarrow> bt_ok (take n xs)"
  by (simp add: bt_ok_def bt_keys_def sorted_wrt_take flip: take_map)

lemma jb_insert_inv:
  assumes "jb_inv b" and "s \<le> u64_max"
  shows "jb_inv (snd (jb_insert s ts payload tok b))"
proof (cases "jb_insert s ts payload tok b")
  case (Pair res b')
  show ?thesis
  proof (cases res)
    case (Inl e)
    with Pair assms(1) show ?thesis using jb_insert_error by fastforce
  next
    case (Inr out)
    note acc = jb_insert_accepted [OF assms(1) Pair [unfolded Inr]]
    let ?p = "\<lparr>bp_sequence = s, bp_timestamp = ts, bp_token = tok, bp_payload = payload\<rparr>"
    let ?ps = "take (jb_capacity b) (bt_insert s ?p (jb_packets b))"
    have sub: "set ?ps \<subseteq> insert (s, ?p) (set (jb_packets b))"
      using bt_set_insert set_take_subset by (metis subset_trans)
    then have keys: "set (bt_keys ?ps) \<subseteq> insert s (set (bt_keys (jb_packets b)))"
      by (auto simp: set_bt_keys)
    have pk: "\<forall>e \<in> set ?ps. packet_ok e"
      using sub assms(1) acc(2,3) by (auto simp: jb_inv_def packet_ok_def)
    have ok: "bt_ok ?ps" using assms(1) by (simp add: jb_inv_def bt_ok_take)
    show ?thesis
    proof (cases "jb_next b")
      case None
      with assms(1) acc(1) have "jb_highest b = None" "jb_packets b = []"
        by (auto simp: jb_inv_def)
      with None assms acc(1) pk ok keys Pair acc(7) show ?thesis
        by (auto simp: jb_inv_def provisional_next_def)
    next
      case (Some n)
      with assms(1) obtain h where "jb_highest b = Some h" "h \<le> u64_max" "n \<le> h + 1"
          "\<forall>k \<in> set (bt_keys (jb_packets b)). n \<le> k \<and> k \<le> h"
        by (auto simp: jb_inv_def split: option.splits)
      with Some assms acc(1) pk ok keys Pair acc(7) show ?thesis
        by (fastforce simp: jb_inv_def provisional_next_def)
    qed
  qed
qed

lemma bt_key_of_mem: "e \<in> set xs \<Longrightarrow> fst e \<in> set (bt_keys xs)"
  by (simp add: set_bt_keys)

lemma pop_ready_None: "pop_ready b = (None, b') \<Longrightarrow> b' = b \<or> b' = b\<lparr>jb_priming := False\<rparr>"
  by (auto simp: pop_ready_def Let_def split: if_splits option.splits)

definition popped :: "nat64 \<Rightarrow> jitter_buffer \<Rightarrow> jitter_buffer" where
  "popped n b =
     (if n = u64_max
      then b\<lparr>jb_priming := False, jb_packets := bt_remove n (jb_packets b),
             jb_next := None, jb_exhausted := True\<rparr>
      else b\<lparr>jb_priming := False, jb_packets := bt_remove n (jb_packets b),
             jb_next := Some (n + 1)\<rparr>)"

definition advanced :: "nat64 \<Rightarrow> nat64 \<Rightarrow> jitter_buffer \<Rightarrow> jitter_buffer" where
  "advanced m h b =
     (if m = u64_max \<and> h < m
      then b\<lparr>jb_priming := False, jb_packets := bt_split_off m (jb_packets b),
             jb_next := None, jb_exhausted := True\<rparr>
      else b\<lparr>jb_priming := False, jb_packets := bt_split_off m (jb_packets b),
             jb_next := Some m\<rparr>)"

lemma pop_ready_Some:
  "pop_ready b = (Some p, b') \<longleftrightarrow>
     (\<exists>n. jb_next b = Some n \<and> bt_lookup (jb_packets b) n = Some p \<and>
        (jb_priming b \<longrightarrow> min (jb_capacity b) 2 \<le> length (jb_packets b)) \<and> b' = popped n b)"
proof (cases "jb_next b")
  case None
  then show ?thesis by (simp add: pop_ready_def)
next
  case (Some n)
  then show ?thesis
    by (cases "bt_lookup (jb_packets b) n") (auto simp: pop_ready_def popped_def Let_def)
qed

lemma jb_inv_unprime: "jb_inv b \<Longrightarrow> jb_inv (b\<lparr>jb_priming := False\<rparr>)"
  by (simp add: jb_inv_def cong: option.case_cong)

text \<open>The clause of the invariant that relates the dequeue point to the packets.\<close>

lemma jb_inv_next:
  assumes "jb_inv b" and "jb_next b = Some n"
  obtains h where "\<not> jb_exhausted b" "n \<le> u64_max" "jb_highest b = Some h" "h \<le> u64_max"
    "n \<le> h + 1" "\<And>k. k \<in> set (bt_keys (jb_packets b)) \<Longrightarrow> n \<le> k \<and> k \<le> h"
  using assms by (auto simp: jb_inv_def split: option.splits)

lemma pop_ready_inv:
  assumes "jb_inv b"
  shows "jb_inv (snd (pop_ready b))"
proof (cases "pop_ready b")
  case (Pair res b')
  show ?thesis
  proof (cases res)
    case None
    with Pair pop_ready_None [of b b'] assms jb_inv_unprime show ?thesis by auto
  next
    case (Some p)
    with Pair obtain n where n: "jb_next b = Some n" "bt_lookup (jb_packets b) n = Some p"
      and b': "b' = popped n b"
      using pop_ready_Some by blast
    from jb_inv_next [OF assms n(1)] obtain h where h: "\<not> jb_exhausted b" "n \<le> u64_max"
        "jb_highest b = Some h" "h \<le> u64_max" "n \<le> h + 1"
        "\<And>k. k \<in> set (bt_keys (jb_packets b)) \<Longrightarrow> n \<le> k \<and> k \<le> h" by metis
    have "n \<in> set (bt_keys (jb_packets b))" using n(2) by (metis bt_lookup_None option.distinct(1))
    then have "n \<le> h" using h(6) by simp
    have empty: "bt_keys (bt_remove n (jb_packets b)) = []" if "n = u64_max"
      using h(4,6) that by (fastforce simp: filter_empty_conv)
    have keys: "n + 1 \<le> k \<and> k \<le> h" if "k \<in> set (bt_keys (bt_remove n (jb_packets b)))" for k
      using h(6) [of k] that by auto
    have pk: "\<forall>e \<in> set (bt_remove n (jb_packets b)). packet_ok e"
      and len: "length (bt_remove n (jb_packets b)) \<le> jb_capacity b"
      using assms bt_set_sub(1) [of n] bt_length_sub(1) [of n "jb_packets b"] by (auto simp: jb_inv_def)
    show ?thesis
      using assms Pair b' n h \<open>n \<le> h\<close> keys empty pk len by (auto simp: jb_inv_def popped_def simp del: bt_keys_remove)
  qed
qed

lemma advance_to_error: "advance_to m b = (Inl e, b') \<Longrightarrow> b' = b"
  by (auto simp: advance_to_def Let_def split: if_splits option.splits)

lemma advance_to_ok:
  assumes "jb_inv b"
  shows "advance_to m b = (Inr u, b') \<longleftrightarrow>
     (\<exists>n h. jb_next b = Some n \<and> jb_highest b = Some h \<and> n < m \<and> m \<le> h + 1 \<and> m \<le> n + jb_window b \<and>
        m \<le> u64_max \<and> b' = advanced m h b)"
proof (cases "jb_next b")
  case None
  then show ?thesis by (auto simp: advance_to_def)
next
  case (Some n)
  from jb_inv_next [OF assms Some] obtain h where "\<not> jb_exhausted b" "n \<le> u64_max"
      "jb_highest b = Some h" "h \<le> u64_max" by metis
  with Some show ?thesis
    by (auto simp: advance_to_def advanced_def Let_def checked_add64_def saturating_add64_def not_less)
qed

lemma advance_to_inv:
  assumes "jb_inv b"
  shows "jb_inv (snd (advance_to m b))"
proof (cases "advance_to m b")
  case (Pair res b')
  show ?thesis
  proof (cases res)
    case (Inl e)
    with Pair assms advance_to_error show ?thesis by fastforce
  next
    case (Inr u)
    with Pair obtain n h where n: "jb_next b = Some n" "jb_highest b = Some h" "n < m" "m \<le> h + 1"
        "m \<le> u64_max"
      and b': "b' = advanced m h b"
      using advance_to_ok [OF assms] by blast
    from jb_inv_next [OF assms n(1)] n(2) have h: "\<not> jb_exhausted b" "h \<le> u64_max"
        "\<And>k. k \<in> set (bt_keys (jb_packets b)) \<Longrightarrow> k \<le> h" by auto
    have empty: "bt_keys (bt_split_off m (jb_packets b)) = []" if "h < m"
      using h(3) that by (fastforce simp: filter_empty_conv)
    have keys: "m \<le> k \<and> k \<le> h" if "k \<in> set (bt_keys (bt_split_off m (jb_packets b)))" for k
      using h(3) [of k] that by auto
    have pk: "\<forall>e \<in> set (bt_split_off m (jb_packets b)). packet_ok e"
      and len: "length (bt_split_off m (jb_packets b)) \<le> jb_capacity b"
      using assms bt_set_sub(2) [of m] bt_length_sub(2) [of m "jb_packets b"] by (auto simp: jb_inv_def)
    show ?thesis
      using assms Pair b' n h keys empty pk len by (auto simp: jb_inv_def advanced_def simp del: bt_keys_split_off)
  qed
qed

lemma finish_priming_inv: "jb_inv b \<Longrightarrow> jb_inv (finish_priming b)"
  by (simp add: finish_priming_def jb_inv_unprime)

section \<open>Runs of the buffer\<close>

datatype jitter_event =
    Insert u64 u64 bytes operation_token
  | Pop
  | AdvanceTo u64
  | FinishPriming

fun jb_step :: "jitter_event \<Rightarrow> jitter_buffer \<Rightarrow> jitter_buffer" where
  "jb_step (Insert s ts p tok) b = snd (jb_insert (unat s) (unat ts) p tok b)"
| "jb_step Pop b = snd (pop_ready b)"
| "jb_step (AdvanceTo n) b = snd (advance_to (unat n) b)"
| "jb_step FinishPriming b = finish_priming b"

lemma unat_u64: "unat (w :: u64) \<le> u64_max"
proof -
  have "unat w < 2 ^ 64" using unsigned_less [of w] by simp
  then show ?thesis by (simp add: u64_max_def)
qed

lemma jb_step_inv: "jb_inv b \<Longrightarrow> jb_inv (jb_step e b)"
  by (cases e) (simp_all add: jb_insert_inv pop_ready_inv advance_to_inv finish_priming_inv unat_u64)

interpretation jitter: state_machine jb_step jb_inv
  by unfold_locales (rule jb_step_inv)

text \<open>What a run delivers, and what it was given.\<close>

fun jb_run :: "jitter_event list \<Rightarrow> jitter_buffer \<Rightarrow> buffered_packet list" where
  "jb_run [] b = []"
| "jb_run (Pop # es) b =
     (case pop_ready b of (None, b') \<Rightarrow> jb_run es b' | (Some p, b') \<Rightarrow> p # jb_run es b')"
| "jb_run (e # es) b = jb_run es (jb_step e b)"

fun offered :: "jitter_event \<Rightarrow> buffered_packet set" where
  "offered (Insert s ts p tok) =
     {\<lparr>bp_sequence = unat s, bp_timestamp = unat ts, bp_token = tok, bp_payload = p\<rparr>}"
| "offered _ = {}"

definition jb_values :: "jitter_buffer \<Rightarrow> buffered_packet set" where
  "jb_values b = snd ` set (jb_packets b)"

text \<open>Once playback has started, the dequeue point never falls below \<open>f\<close> again.\<close>

definition past :: "nat64 \<Rightarrow> jitter_buffer \<Rightarrow> bool" where
  "past f b \<longleftrightarrow> jb_inv b \<and> \<not> jb_priming b \<and>
     (case jb_next b of None \<Rightarrow> jb_exhausted b | Some n \<Rightarrow> f \<le> n)"

lemma past_insert:
  assumes "past f b"
  shows "past f (jb_step (Insert s ts p tok) b)"
proof (cases "jb_insert (unat s) (unat ts) p tok b")
  case (Pair res b')
  from assms have inv: "jb_inv b" by (simp add: past_def)
  have inv': "jb_inv b'" using jb_step_inv [OF inv, of "Insert s ts p tok"] Pair by simp
  show ?thesis
  proof (cases res)
    case (Inl e)
    with Pair jb_insert_error [OF inv] assms show ?thesis by fastforce
  next
    case (Inr out)
    note acc = jb_insert_accepted [OF inv Pair [unfolded Inr]]
    from assms acc(1) obtain n where n: "jb_next b = Some n" "f \<le> n" "\<not> jb_priming b"
      by (auto simp: past_def split: option.splits)
    with acc(6) [OF n(1)] have "\<not> unat s < n" by blast
    with n(1) have "provisional_next (unat s) b = n" by (simp add: provisional_next_def)
    with Pair inv' n acc(7) show ?thesis by (simp add: past_def)
  qed
qed

lemma past_advance:
  assumes "past f b"
  shows "past f (jb_step (AdvanceTo m) b)"
proof (cases "advance_to (unat m) b")
  case (Pair res b')
  from assms have inv: "jb_inv b" by (simp add: past_def)
  have inv': "jb_inv b'" using jb_step_inv [OF inv, of "AdvanceTo m"] Pair by simp
  show ?thesis
  proof (cases res)
    case (Inl e)
    with Pair advance_to_error assms show ?thesis by fastforce
  next
    case (Inr u)
    with Pair obtain n h where "jb_next b = Some n" "n < unat m" "b' = advanced (unat m) h b"
      using advance_to_ok [OF inv] by blast
    with assms inv' Pair show ?thesis by (auto simp: past_def advanced_def)
  qed
qed

lemma past_pop:
  assumes "jb_inv b" and "pop_ready b = (Some p, b')"
  shows "past (bp_sequence p + 1) b'" and "jb_next b = Some (bp_sequence p)"
    and "p \<in> jb_values b"
proof -
  from assms(2) obtain n where n: "jb_next b = Some n" "bt_lookup (jb_packets b) n = Some p"
      "b' = popped n b"
    using pop_ready_Some by blast
  then have mem: "(n, p) \<in> set (jb_packets b)" by (simp add: bt_lookup_mem)
  with assms(1) have "packet_ok (n, p)" by (simp add: jb_inv_def)
  then have "bp_sequence p = n" by (simp add: packet_ok_def)
  with n mem show "jb_next b = Some (bp_sequence p)" "p \<in> jb_values b"
    by (auto simp: jb_values_def intro: rev_image_eqI)
  have "jb_inv b'" using pop_ready_inv [OF assms(1)] assms(2) by simp
  with n \<open>bp_sequence p = n\<close> show "past (bp_sequence p + 1) b'" by (simp add: past_def popped_def)
qed

lemma past_pop_None: "past f b \<Longrightarrow> pop_ready b = (None, b') \<Longrightarrow> past f b'"
  using pop_ready_None [of b b'] jb_inv_unprime [of b]
  by (auto simp: past_def cong: option.case_cong)

lemma past_finish: "past f b \<Longrightarrow> past f (jb_step FinishPriming b)"
  by (simp add: past_def finish_priming_def jb_inv_unprime cong: option.case_cong)

lemma past_weaken: "past g b \<Longrightarrow> f \<le> g \<Longrightarrow> past f b"
  by (auto simp: past_def split: option.splits)

lemma past_bounds:
  "past f b \<Longrightarrow> p \<in> set (jb_run es b) \<Longrightarrow> f \<le> bp_sequence p"
proof (induction es b arbitrary: f rule: jb_run.induct)
  case (2 es b)
  show ?case
  proof (cases "pop_ready b")
    case (Pair res b')
    show ?thesis
    proof (cases res)
      case None
      with 2 Pair past_pop_None show ?thesis by fastforce
    next
      case (Some q)
      from "2.prems"(1) have inv: "jb_inv b" by (simp add: past_def)
      note pop = past_pop [OF inv Pair [unfolded Some]]
      from pop(2) "2.prems"(1) have "f \<le> bp_sequence q" by (simp add: past_def)
      moreover from this pop(1) have "past f b'" by (elim past_weaken) simp
      ultimately show ?thesis using 2 Pair Some by auto
    qed
  qed
qed (use past_insert past_advance past_finish in \<open>simp_all del: jb_step.simps\<close>)

lemma jb_run_sorted: "jb_inv b \<Longrightarrow> sorted_wrt (<) (map bp_sequence (jb_run es b))"
proof (induction es b rule: jb_run.induct)
  case (2 es b)
  show ?case
  proof (cases "pop_ready b")
    case (Pair res b')
    have inv': "jb_inv b'" using pop_ready_inv [OF "2.prems"] Pair by simp
    show ?thesis
    proof (cases res)
      case None
      with 2 Pair inv' show ?thesis by simp
    next
      case (Some q)
      note pop = past_pop [OF "2.prems" Pair [unfolded Some]]
      have "bp_sequence q < bp_sequence p" if "p \<in> set (jb_run es b')" for p
        using past_bounds [OF pop(1) that] by simp
      with 2 Pair Some inv' show ?thesis by simp
    qed
  qed
qed (use jb_step_inv in \<open>simp_all del: jb_step.simps\<close>)

lemma jb_step_values: "jb_inv b \<Longrightarrow> jb_values (jb_step e b) \<subseteq> jb_values b \<union> offered e"
proof (cases e)
  case (Insert s ts p tok)
  assume inv: "jb_inv b"
  obtain res b' where pair: "jb_insert (unat s) (unat ts) p tok b = (res, b')" by fastforce
  show ?thesis
  proof (cases res)
    case (Inl x)
    with pair Insert jb_insert_error [OF inv] show ?thesis by fastforce
  next
    case (Inr out)
    note acc = jb_insert_accepted(7) [OF inv pair [unfolded Inr]]
    have "set (jb_packets b') \<subseteq> insert (unat s, \<lparr>bp_sequence = unat s, bp_timestamp = unat ts,
        bp_token = tok, bp_payload = p\<rparr>) (set (jb_packets b))"
      using acc subset_trans [OF set_take_subset bt_set_insert] by simp
    with Insert pair show ?thesis by (auto simp: jb_values_def)
  qed
next
  case Pop
  obtain res b' where pair: "pop_ready b = (res, b')" by fastforce
  show ?thesis
  proof (cases res)
    case None
    with pair Pop pop_ready_None [of b b'] show ?thesis by (auto simp: jb_values_def)
  next
    case (Some p)
    with pair pop_ready_Some obtain n where "b' = popped n b" by blast
    with pair Pop bt_set_sub(1) [of n "jb_packets b"] show ?thesis
      by (auto simp: jb_values_def popped_def)
  qed
next
  case (AdvanceTo m)
  assume inv: "jb_inv b"
  obtain res b' where pair: "advance_to (unat m) b = (res, b')" by fastforce
  show ?thesis
  proof (cases res)
    case (Inl x)
    with pair AdvanceTo advance_to_error show ?thesis by fastforce
  next
    case (Inr u)
    with pair advance_to_ok [OF inv] obtain h where "b' = advanced (unat m) h b" by blast
    with pair AdvanceTo bt_set_sub(2) [of "unat m" "jb_packets b"] show ?thesis
      by (auto simp: jb_values_def advanced_def)
  qed
next
  case FinishPriming
  then show ?thesis by (simp add: finish_priming_def jb_values_def)
qed

lemma run_values_step:
  assumes "jb_inv b" and "jb_inv (jb_step e b) \<Longrightarrow> X \<subseteq> jb_values (jb_step e b) \<union> Y"
  shows "X \<subseteq> jb_values b \<union> (offered e \<union> Y)"
  using assms(2) [OF jb_step_inv [OF assms(1)]] jb_step_values [OF assms(1), of e] by blast

lemma jb_run_values:
  "jb_inv b \<Longrightarrow> set (jb_run es b) \<subseteq> jb_values b \<union> (\<Union>e \<in> set es. offered e)"
proof (induction es b rule: jb_run.induct)
  case (2 es b)
  obtain res b' where pair: "pop_ready b = (res, b')" by fastforce
  have inv': "jb_inv b'" using pop_ready_inv [OF "2.prems"] pair by simp
  have sub: "jb_values b' \<subseteq> jb_values b" using jb_step_values [OF "2.prems", of Pop] pair by simp
  show ?case
  proof (cases res)
    case None
    with 2(1) [OF pair [symmetric]] inv' sub pair show ?thesis by auto
  next
    case (Some p)
    with 2(2) [OF pair [symmetric]] inv' sub pair past_pop(3) [OF "2.prems" pair [unfolded Some]]
    show ?thesis by auto
  qed
qed (simp, unfold jb_run.simps list.set UN_insert, (rule run_values_step, assumption, blast)+)

section \<open>Gaps\<close>

definition range_set :: "missing_range \<Rightarrow> nat64 set" where
  "range_set r = {mr_first r..mr_last r}"

lemma missing_loop_spec:
  assumes "sorted_wrt (<) ks" and "\<forall>k \<in> set ks. cursor \<le> k \<and> k \<le> hi" and "hi \<le> u64_max"
  shows "(\<Union>r \<in> set (missing_loop cursor hi ks). range_set r) = {cursor..hi} - set ks \<and>
    (\<forall>r \<in> set (missing_loop cursor hi ks). cursor \<le> mr_first r \<and> mr_first r \<le> mr_last r) \<and>
    sorted_wrt (\<lambda>r q. mr_last r + 1 < mr_first q) (missing_loop cursor hi ks)"
  using assms
proof (induction cursor hi ks rule: missing_loop.induct)
  case (1 cursor hi)
  then show ?case by (auto simp: range_set_def)
next
  case (2 cursor hi s ss)
  show ?case
  proof (cases "s = u64_max")
    case True
    with "2.prems" have "ss = []" "s = hi"
      by (cases ss; fastforce)+
    with True show ?thesis by (auto simp: range_set_def)
  next
    case False
    let ?rest = "missing_loop (s + 1) hi ss"
    have IH: "(\<Union>r \<in> set ?rest. range_set r) = {s + 1..hi} - set ss \<and>
        (\<forall>r \<in> set ?rest. s + 1 \<le> mr_first r \<and> mr_first r \<le> mr_last r) \<and>
        sorted_wrt (\<lambda>r q. mr_last r + 1 < mr_first q) ?rest"
      by (rule "2.IH") (use False "2.prems" in \<open>auto simp: Suc_le_eq\<close>)
    have split: "{cursor..hi} - insert s (set ss) = {cursor..<s} \<union> ({s + 1..hi} - set ss)"
      using "2.prems" by (auto simp: not_le)
    have gap: "{cursor..s - 1} = {cursor..<s}" if "cursor < s" using that by auto
    show ?thesis
      using IH False split gap "2.prems"(2) by (auto simp: Let_def range_set_def)
  qed
qed

section \<open>When a packet is accepted\<close>

definition acceptable :: "nat64 \<Rightarrow> bytes \<Rightarrow> jitter_buffer \<Rightarrow> bool" where
  "acceptable s payload b \<longleftrightarrow>
     \<not> jb_exhausted b \<and> payload \<noteq> [] \<and> length payload \<le> MAX_COMPRESSED_PACKET_BYTES \<and>
     s \<notin> set (bt_keys (jb_packets b)) \<and>
     (case jb_next b of
        None \<Rightarrow> True
      | Some n \<Rightarrow> if s < n then jb_priming b \<and> n \<le> s + jb_window b else s \<le> n + jb_window b) \<and>
     (length (jb_packets b) = jb_capacity b \<longrightarrow> s < the (bt_last_key (jb_packets b)))"

lemma jb_insert_acceptable:
  "(\<exists>out. fst (jb_insert s ts payload tok b) = Inr out) \<longleftrightarrow> acceptable s payload b"
proof (cases "jb_next b")
  case None
  then show ?thesis by (auto simp: jb_insert_def acceptable_def Let_def bt_lookup_None)
next
  case (Some n)
  show ?thesis
  proof (cases "s < n")
    case True
    with Some show ?thesis
      by (auto simp: jb_insert_def acceptable_def Let_def bt_lookup_None)
  next
    case False
    with Some show ?thesis
      by (auto simp: jb_insert_def acceptable_def Let_def bt_lookup_None)
  qed
qed

section \<open>Skipping a gap\<close>

fun advance_all :: "nat64 list \<Rightarrow> jitter_buffer \<Rightarrow> jitter_buffer" where
  "advance_all [] b = b"
| "advance_all (m # ms) b = advance_all ms (snd (advance_to m b))"

lemma bt_split_off_id: "\<forall>k \<in> set (bt_keys xs). m \<le> k \<Longrightarrow> bt_split_off m xs = xs"
  by (auto simp: bt_split_off_def set_bt_keys filter_id_conv)

lemma advance_reaches:
  assumes "jb_inv b" and "jb_packets b = (k, p) # rest"
  shows "\<exists>ms. jb_next (advance_all ms b) = Some k \<and> jb_packets (advance_all ms b) = jb_packets b \<and>
    jb_inv (advance_all ms b)"
  using assms
proof (induction "k - the (jb_next b)" arbitrary: b rule: less_induct)
  case less
  then obtain n where n: "jb_next b = Some n"
    by (cases "jb_next b") (auto simp: jb_inv_def)
  from jb_inv_next [OF less.prems(1) n] obtain h where h: "jb_highest b = Some h" "h \<le> u64_max"
      "\<And>k. k \<in> set (bt_keys (jb_packets b)) \<Longrightarrow> n \<le> k \<and> k \<le> h" by metis
  from h(3) [of k] less.prems(2) have k: "n \<le> k" "k \<le> h" by auto
  show ?case
  proof (cases "n = k")
    case True
    with n less.prems show ?thesis by (intro exI [of _ "[]"]) simp
  next
    case False
    let ?m = "min k (n + jb_window b)" and ?b = "snd (advance_to (min k (n + jb_window b)) b)"
    from less.prems(1) have w: "0 < jb_window b" "bt_ok (jb_packets b)" by (simp_all add: jb_inv_def)
    have "advance_to ?m b = (Inr (), advanced ?m h b)"
      using advance_to_ok [OF less.prems(1), of ?m "()"] n h(1,2) k False w by auto
    then have b: "?b = advanced ?m h b" by simp
    have all: "\<forall>j \<in> set (bt_keys (jb_packets b)). ?m \<le> j"
      using w(2) less.prems(2) by (auto intro: min.coboundedI1 less_imp_le)
    with b k h have after: "jb_next ?b = Some ?m" "jb_packets ?b = (k, p) # rest" "jb_packets ?b = jb_packets b"
      using less.prems(2) by (auto simp: advanced_def bt_split_off_id)
    have "k - the (jb_next ?b) < k - the (jb_next b)" using after n k False w by auto
    from less.hyps [OF this advance_to_inv [OF less.prems(1)] after(2)] obtain ms where
      "jb_next (advance_all ms ?b) = Some k" "jb_packets (advance_all ms ?b) = jb_packets ?b"
      "jb_inv (advance_all ms ?b)" by blast
    with after show ?thesis by (intro exI [of _ "?m # ms"]) simp
  qed
qed

section \<open>Properties\<close>

text \<open>
  C22. Order: whatever sequence of insertions, pops, advances and priming timeouts a fresh buffer
  sees, the packets it delivers have strictly increasing sequence numbers (none twice, none out
  of order), and each one is a packet that was inserted, unchanged.
\<close>

theorem jitter_delivers_in_order:
  assumes "with_limits c w = Inr b"
  shows "sorted_wrt (<) (map bp_sequence (jb_run es b)) \<and>
    set (jb_run es b) \<subseteq> (\<Union>e \<in> set es. offered e)"
proof -
  have "jb_values b = {}" using assms by (auto simp: with_limits_def jb_values_def split: if_splits)
  with jb_run_values [OF with_limits_inv [OF assms], of es]
    jb_run_sorted [OF with_limits_inv [OF assms], of es] show ?thesis by simp
qed

lemmas jb_eval = with_limits_def jitter_limits jb_insert_def pop_ready_def advance_to_def
  finish_priming_def Let_def bt_lookup_def bt_remove_def bt_split_off_def bt_last_key_def
  checked_add64_def saturating_add64_def u64_max_def

theorem jitter_delivers_in_order_witness:
  "set (jb_run [Insert 8 0 [1] \<lparr>token_generation = 0\<rparr>, Insert 7 0 [2] \<lparr>token_generation = 0\<rparr>, Pop]
     \<lparr>jb_capacity = 4, jb_window = 2, jb_next = None, jb_highest = None, jb_priming = True,
      jb_exhausted = False, jb_packets = []\<rparr>) \<subseteq>
   offered (Insert 8 0 [1] \<lparr>token_generation = 0\<rparr>) \<union> offered (Insert 7 0 [2] \<lparr>token_generation = 0\<rparr>)"
proof -
  have "with_limits 4 2 = Inr \<lparr>jb_capacity = 4, jb_window = 2, jb_next = None, jb_highest = None,
      jb_priming = True, jb_exhausted = False, jb_packets = []\<rparr>"
    by (simp add: jb_eval)
  from jitter_delivers_in_order [OF this, of "[Insert 8 0 [1] \<lparr>token_generation = 0\<rparr>,
      Insert 7 0 [2] \<lparr>token_generation = 0\<rparr>, Pop]"]
  show ?thesis by simp
qed

text \<open>
  Bounds: every state the buffer can reach keeps at most \<open>capacity\<close> packets, under
  distinct ascending keys between the dequeue point and the highest number accepted, each with a
  payload of 1 to 4096 bytes.
\<close>

theorem jitter_reachable_inv:
  assumes "with_limits c w = Inr b"
  shows "jb_inv (fold jb_step es b) \<and> length (jb_packets (fold jb_step es b)) \<le> MAX_PACKET_CAPACITY"
proof -
  have "jb_inv (fold jb_step es b)" by (rule jitter.run_inv [OF with_limits_inv [OF assms]])
  then show ?thesis by (auto simp: jb_inv_def)
qed

theorem jitter_reachable_inv_witness:
  "jb_inv (fold jb_step [Pop, FinishPriming] (the type96))"
proof -
  have "with_limits 128 512 = Inr (the type96)" by (simp add: type96_def jb_eval)
  from jitter_reachable_inv [OF this] show ?thesis by blast
qed

text \<open>
  Insertion: a packet is accepted exactly when it is \<open>acceptable\<close>; a refused one
  leaves the buffer as it was, the dequeue point included; an accepted one leaves the nearest
  \<open>capacity\<close> packets of the old ones and the new one, so that only the farthest is ever
  evicted.
\<close>

theorem jb_insert_contract:
  assumes "jb_inv b" and "jb_insert s ts payload tok b = (res, b')"
  shows "((\<exists>out. res = Inr out) \<longleftrightarrow> acceptable s payload b) \<and>
    (case res of
       Inl e \<Rightarrow> b' = b
     | Inr out \<Rightarrow>
         jb_packets b' = take (jb_capacity b) (bt_insert s \<lparr>bp_sequence = s, bp_timestamp = ts,
            bp_token = tok, bp_payload = payload\<rparr> (jb_packets b)) \<and>
         jb_next b' = Some (provisional_next s b) \<and>
         jb_highest b' = Some (case jb_highest b of None \<Rightarrow> s | Some h \<Rightarrow> max h s))"
proof (cases res)
  case (Inl e)
  with assms jb_insert_error [OF assms(1)] jb_insert_acceptable [of s ts payload tok b]
  show ?thesis by auto
next
  case (Inr out)
  with assms(2) have ins: "jb_insert s ts payload tok b = (Inr out, b')" by simp
  from jb_insert_acceptable [of s ts payload tok b] ins have "acceptable s payload b" by simp
  with Inr show ?thesis by (simp add: jb_insert_accepted(7) [OF assms(1) ins])
qed

theorem jb_insert_contract_witness:
  "\<exists>res b'. jb_insert 5 0 [1] \<lparr>token_generation = 0\<rparr> (the type96) = (res, b') \<and>
     ((\<exists>out. res = Inr out) \<longleftrightarrow> acceptable 5 [1] (the type96))"
proof -
  obtain res b' where r: "jb_insert 5 0 [1] \<lparr>token_generation = 0\<rparr> (the type96) = (res, b')" by fastforce
  have "with_limits 128 512 = Inr (the type96)" by (simp add: type96_def jb_eval)
  from jb_insert_contract [OF with_limits_inv [OF this] r] r show ?thesis by blast
qed

text \<open>
  Gaps: the ranges reported for retransmission are exactly the sequence numbers between
  the dequeue point and the highest number accepted that are not buffered, as non-empty,
  ascending, non-adjacent ranges.
\<close>

theorem missing_ranges_exact:
  assumes "jb_inv b"
  shows "(\<Union>r \<in> set (missing_ranges b). range_set r) =
      (case (jb_next b, jb_highest b) of
         (Some n, Some h) \<Rightarrow> {n..h} - dom (bt_lookup (jb_packets b))
       | _ \<Rightarrow> {}) \<and>
    (\<forall>r \<in> set (missing_ranges b). mr_first r \<le> mr_last r) \<and>
    sorted_wrt (\<lambda>r q. mr_last r + 1 < mr_first q) (missing_ranges b)"
proof (cases "jb_next b")
  case None
  then show ?thesis by (simp add: missing_ranges_def)
next
  case (Some n)
  from jb_inv_next [OF assms Some] obtain h where h: "jb_highest b = Some h" "h \<le> u64_max"
      "\<And>k. k \<in> set (bt_keys (jb_packets b)) \<Longrightarrow> n \<le> k \<and> k \<le> h" by metis
  then have keys: "bt_range_keys n h (jb_packets b) = bt_keys (jb_packets b)"
    by (auto simp: bt_range_keys_def filter_id_conv)
  have "sorted_wrt (<) (bt_keys (jb_packets b))" using assms by (simp add: jb_inv_def bt_ok_def)
  from missing_loop_spec [OF this _ h(2), of n] h Some keys show ?thesis
    by (auto simp: missing_ranges_def bt_lookup_dom)
qed

theorem missing_ranges_exact_witness:
  "(\<Union>r \<in> set (missing_ranges
      \<lparr>jb_capacity = 4, jb_window = 2, jb_next = Some 5, jb_highest = Some 10, jb_priming = False,
       jb_exhausted = False, jb_packets = [(10, \<lparr>bp_sequence = 10, bp_timestamp = 0,
         bp_token = \<lparr>token_generation = 0\<rparr>, bp_payload = [1]\<rparr>)]\<rparr>). range_set r) = {5..10} - {10}"
proof -
  let ?b = "\<lparr>jb_capacity = 4, jb_window = 2, jb_next = Some 5, jb_highest = Some 10, jb_priming = False,
       jb_exhausted = False, jb_packets = [(10, \<lparr>bp_sequence = 10, bp_timestamp = 0,
         bp_token = \<lparr>token_generation = 0\<rparr>, bp_payload = [1]\<rparr>)]\<rparr>"
  have "jb_inv ?b" by (simp add: jb_inv_def packet_ok_def jitter_limits u64_max_def)
  from missing_ranges_exact [OF this] show ?thesis by (simp add: bt_lookup_dom)
qed

text \<open>
  Progress: no gap blocks the buffer. From any state with a buffered packet, some sequence of
  window-bounded advances discards nothing and brings the dequeue point to the first packet,
  which the next pop delivers once priming is over.
\<close>

theorem jitter_gap_can_be_skipped:
  assumes "jb_inv b" and "jb_packets b = (k, p) # rest"
  shows "\<exists>ms b'. pop_ready (finish_priming (advance_all ms b)) = (Some p, b') \<and>
    jb_packets b' = rest \<and> jb_inv b'"
proof -
  from advance_reaches [OF assms] obtain ms where ms: "jb_next (advance_all ms b) = Some k"
      "jb_packets (advance_all ms b) = jb_packets b" "jb_inv (advance_all ms b)" by blast
  let ?b = "finish_priming (advance_all ms b)"
  have "pop_ready ?b = (Some p, popped k ?b)"
    using ms assms(2) by (simp add: pop_ready_Some finish_priming_def bt_lookup_def)
  moreover have "jb_packets (popped k ?b) = rest"
    using ms assms by (auto simp: popped_def finish_priming_def bt_remove_def jb_inv_def filter_id_conv set_bt_keys)
  moreover have "jb_inv (popped k ?b)"
    using pop_ready_inv [OF finish_priming_inv [OF ms(3)]] calculation(1) by simp
  ultimately show ?thesis by blast
qed

theorem jitter_gap_can_be_skipped_witness:
  "\<exists>ms b'. pop_ready (finish_priming (advance_all ms
      \<lparr>jb_capacity = 4, jb_window = 2, jb_next = Some 5, jb_highest = Some 10, jb_priming = False,
       jb_exhausted = False, jb_packets = [(10, \<lparr>bp_sequence = 10, bp_timestamp = 0,
         bp_token = \<lparr>token_generation = 0\<rparr>, bp_payload = [1]\<rparr>)]\<rparr>)) =
     (Some \<lparr>bp_sequence = 10, bp_timestamp = 0, bp_token = \<lparr>token_generation = 0\<rparr>, bp_payload = [1]\<rparr>, b')"
  by (rule exE [OF jitter_gap_can_be_skipped [where k = 10 and rest = "[]"]])
    (auto simp: jb_inv_def packet_ok_def jitter_limits u64_max_def)

text \<open>
  The distance of the buffered packets from the dequeue point is bounded by the reorder
  window only at the moment each one is inserted: while the buffer primes, every older arrival
  moves the dequeue point back by up to a whole window, and the packets ahead of it stay.
\<close>

theorem priming_stretches_window:
  "\<exists>b0 es k n. with_limits 4 2 = Inr b0 \<and>
     jb_next (fold jb_step es b0) = Some n \<and>
     k \<in> dom (bt_lookup (jb_packets (fold jb_step es b0))) \<and>
     n + 2 * jb_window (fold jb_step es b0) \<le> k"
proof -
  let ?t = "\<lparr>token_generation = 0\<rparr>"
  let ?p = "\<lambda>s. (s, \<lparr>bp_sequence = s, bp_timestamp = 0, bp_token = ?t, bp_payload = [1]\<rparr>)"
  let ?b = "\<lambda>n h ps. \<lparr>jb_capacity = 4, jb_window = 2, jb_next = n, jb_highest = h,
    jb_priming = True, jb_exhausted = False, jb_packets = ps\<rparr>"
  have b0: "with_limits 4 2 = Inr (?b None None [])" by (simp add: jb_eval)
  have "jb_step (Insert 10 0 [1] ?t) (?b None None []) = ?b (Some 10) (Some 10) [?p 10]"
    and "jb_step (Insert 8 0 [1] ?t) (?b (Some 10) (Some 10) [?p 10]) =
      ?b (Some 8) (Some 10) [?p 8, ?p 10]"
    and "jb_step (Insert 6 0 [1] ?t) (?b (Some 8) (Some 10) [?p 8, ?p 10]) =
      ?b (Some 6) (Some 10) [?p 6, ?p 8, ?p 10]"
    by (simp_all add: jb_eval)
  then have run: "fold jb_step [Insert 10 0 [1] ?t, Insert 8 0 [1] ?t, Insert 6 0 [1] ?t]
      (?b None None []) = ?b (Some 6) (Some 10) [?p 6, ?p 8, ?p 10]"
    by (simp only: fold_simps)
  show ?thesis
    by (rule exI,
        rule exI [of _ "[Insert 10 0 [1] ?t, Insert 8 0 [1] ?t, Insert 6 0 [1] ?t]"], rule exI [of _ 10], rule exI [of _ 6], rule conjI [OF b0])
      (simp only: run, simp add: bt_lookup_def dom_def)
qed

end
