(* ===== verification/TimingClock.thy ===== *)
theory TimingClock
  imports Jitter "HOL-Library.Signed_Division"
begin

text \<open>
  The clock primitives of the AirPlay media path: NTP timestamps, the timing probe, its response
  and the four-timestamp estimate, the bounded window of samples and the sync anchor
  (core/audiohub-airplay/src/protocol/media/clock.rs), and the timestamp arithmetic of buffered
  audio (buffered_clock.rs). The theory shows the error bounds of the conversions and of the
  estimate, that the parsers invert the wire layouts, and which sample the window exposes.
\<close>

section \<open>Constants and errors\<close>

definition TIMING_REQUEST_LEN :: nat where
  "TIMING_REQUEST_LEN = 32"

definition TIMING_RESPONSE_LEN :: nat where
  "TIMING_RESPONSE_LEN = 32"

definition SYNC_ANCHOR_LEN :: nat where
  "SYNC_ANCHOR_LEN = 20"

definition RTP_V2_FIXED :: u8 where
  "RTP_V2_FIXED = 0x80"

definition TIMING_REQUEST_TYPE :: u8 where
  "TIMING_REQUEST_TYPE = 0xd2"

definition TIMING_RESPONSE_TYPE :: u8 where
  "TIMING_RESPONSE_TYPE = 0xd3"

definition SYNC_ANCHOR_TYPE :: u8 where
  "SYNC_ANCHOR_TYPE = 0xd4"

definition MAX_TIMING_WINDOW_CAPACITY :: usize where
  "MAX_TIMING_WINDOW_CAPACITY = 64"

definition NTP_UNIX_EPOCH_OFFSET_SECONDS :: nat64 where
  "NTP_UNIX_EPOCH_OFFSET_SECONDS = 2208988800"

lemmas clock_consts = TIMING_REQUEST_LEN_def TIMING_RESPONSE_LEN_def SYNC_ANCHOR_LEN_def
  RTP_V2_FIXED_def TIMING_REQUEST_TYPE_def TIMING_RESPONSE_TYPE_def SYNC_ANCHOR_TYPE_def
  MAX_TIMING_WINDOW_CAPACITY_def NTP_UNIX_EPOCH_OFFSET_SECONDS_def

datatype clock_error =
    WrongLength usize usize
  | InvalidHeader
  | UnexpectedSequence u16 u16
  | OriginMismatch
  | ResponseExpired
  | MissingTimestamp
  | RemoteClockWentBackwards
  | LocalClockWentBackwards
  | RemoteProcessingExceedsLocalRoundTrip
  | ClockInvalidLimits
  | RttTooLarge nat64 nat64
  | NonMonotonicObservation

section \<open>NTP timestamps\<close>

datatype ntp_timestamp = NtpTimestamp (ntp_raw: u64)

instantiation ntp_timestamp :: linorder
begin

definition less_eq_ntp_timestamp :: "ntp_timestamp \<Rightarrow> ntp_timestamp \<Rightarrow> bool" where
  "less_eq_ntp_timestamp s t \<longleftrightarrow> ntp_raw s \<le> ntp_raw t"

definition less_ntp_timestamp :: "ntp_timestamp \<Rightarrow> ntp_timestamp \<Rightarrow> bool" where
  "less_ntp_timestamp s t \<longleftrightarrow> ntp_raw s < ntp_raw t"

instance
  by standard (auto simp: less_eq_ntp_timestamp_def less_ntp_timestamp_def intro: ntp_timestamp.expand)

end

definition NTP_ZERO :: ntp_timestamp where
  "NTP_ZERO = NtpTimestamp 0"

definition ntp_from_parts :: "u32 \<Rightarrow> u32 \<Rightarrow> ntp_timestamp" where
  "ntp_from_parts seconds fraction = NtpTimestamp (push_bit 32 (ucast seconds) OR ucast fraction)"

definition ntp_from_nanos :: "nat64 \<Rightarrow> ntp_timestamp option" where
  "ntp_from_nanos nanos =
     (let seconds = nanos div 1000000000; fraction_nanos = nanos mod 1000000000
      in if 4294967295 < seconds then None
         else
           let fraction = (fraction_nanos * 2 ^ 32) div 1000000000
           in Some (ntp_from_parts (of_nat seconds) (of_nat fraction)))"

definition ntp_from_unix_nanos :: "nat64 \<Rightarrow> ntp_timestamp option" where
  "ntp_from_unix_nanos nanos =
     Option.bind (checked_mul64 NTP_UNIX_EPOCH_OFFSET_SECONDS 1000000000)
       (\<lambda>offset. Option.bind (checked_add64 nanos offset) ntp_from_nanos)"

definition ntp_seconds :: "ntp_timestamp \<Rightarrow> u32" where
  "ntp_seconds t = ucast (drop_bit 32 (ntp_raw t))"

definition ntp_fraction :: "ntp_timestamp \<Rightarrow> u32" where
  "ntp_fraction t = ucast (ntp_raw t)"

definition ntp_to_nanos :: "ntp_timestamp \<Rightarrow> nat64" where
  "ntp_to_nanos t =
     unat (ntp_seconds t) * 1000000000 + (unat (ntp_fraction t) * 1000000000) div 2 ^ 32"

definition ntp_decode :: "bytes \<Rightarrow> ntp_timestamp" where
  "ntp_decode b = NtpTimestamp (of_be b)"

section \<open>The timing probe and its response\<close>

record timing_feedback =
  remote_reference :: ntp_timestamp
  local_receive :: ntp_timestamp

definition build_timing_request :: "u16 \<Rightarrow> ntp_timestamp \<Rightarrow> timing_feedback option \<Rightarrow> bytes" where
  "build_timing_request sequence transmit feedback =
     [RTP_V2_FIXED, TIMING_REQUEST_TYPE] @ be_bytes 2 sequence @ replicate 4 0 @
     (case feedback of
        Some f \<Rightarrow> be_bytes 8 (ntp_raw (remote_reference f)) @ be_bytes 8 (ntp_raw (local_receive f))
      | None \<Rightarrow> replicate 16 0) @
     be_bytes 8 (ntp_raw transmit)"

record timing_response =
  tr_sequence :: u16
  tr_origin :: ntp_timestamp
  tr_remote_receive :: ntp_timestamp
  tr_remote_transmit :: ntp_timestamp

definition timing_response_parse :: "bytes \<Rightarrow> u16 option \<Rightarrow> clock_error + timing_response" where
  "timing_response_parse packet expected_sequence =
     (if length packet \<noteq> TIMING_RESPONSE_LEN
      then Inl (WrongLength TIMING_RESPONSE_LEN (length packet))
      else if packet ! 0 \<noteq> RTP_V2_FIXED \<or> packet ! 1 \<noteq> TIMING_RESPONSE_TYPE \<or>
              byte_slice 4 8 packet \<noteq> [0, 0, 0, 0]
      then Inl InvalidHeader
      else
        let sequence = of_be [packet ! 2, packet ! 3]
        in if (case expected_sequence of Some expected \<Rightarrow> sequence \<noteq> expected | None \<Rightarrow> False)
           then Inl (UnexpectedSequence (the expected_sequence) sequence)
           else
             let origin = ntp_decode (byte_slice 8 16 packet);
                 remote_receive = ntp_decode (byte_slice 16 24 packet);
                 remote_transmit = ntp_decode (byte_slice 24 32 packet)
             in if remote_receive = NTP_ZERO \<or> remote_transmit = NTP_ZERO then Inl MissingTimestamp
                else if remote_transmit < remote_receive then Inl RemoteClockWentBackwards
                else Inr \<lparr>tr_sequence = sequence, tr_origin = origin,
                          tr_remote_receive = remote_receive, tr_remote_transmit = remote_transmit\<rparr>)"

record timing_sample =
  offset_ns :: int
  rtt_ns :: nat64

text \<open>The offset is computed in 128-bit signed integers, whose division truncates towards zero.\<close>

definition from_exchange ::
  "nat64 \<Rightarrow> timing_response \<Rightarrow> nat64 \<Rightarrow> clock_error + timing_sample" where
  "from_exchange departure response arrival =
     (case checked_sub64 arrival departure of
        None \<Rightarrow> Inl LocalClockWentBackwards
      | Some local_elapsed \<Rightarrow>
        let receive_ns = ntp_to_nanos (tr_remote_receive response);
            transmit_ns = ntp_to_nanos (tr_remote_transmit response)
        in case checked_sub64 transmit_ns receive_ns of
             None \<Rightarrow> Inl RemoteClockWentBackwards
           | Some remote_processing \<Rightarrow>
             (case checked_sub64 local_elapsed remote_processing of
                None \<Rightarrow> Inl RemoteProcessingExceedsLocalRoundTrip
              | Some rtt \<Rightarrow>
                  let t1 = int departure; t2 = int receive_ns; t3 = int transmit_ns; t4 = int arrival
                  in Inr \<lparr>offset_ns = ((t2 - t1) + (t3 - t4)) sdiv 2, rtt_ns = rtt\<rparr>))"

record pending_timing_request =
  pt_sequence :: u16
  pt_origin :: ntp_timestamp
  pt_departure_ns :: nat64
  pt_expires_ns :: nat64

definition validate_response ::
  "pending_timing_request \<Rightarrow> timing_response \<Rightarrow> nat64 \<Rightarrow> nat64 \<Rightarrow> clock_error + timing_sample" where
  "validate_response p response arrival_ns arrival_monotonic_ns =
     (if tr_sequence response \<noteq> pt_sequence p
      then Inl (UnexpectedSequence (pt_sequence p) (tr_sequence response))
      else if pt_expires_ns p < arrival_monotonic_ns then Inl ResponseExpired
      else if tr_origin response \<noteq> pt_origin p then Inl OriginMismatch
      else from_exchange (pt_departure_ns p) response arrival_ns)"

section \<open>The window of samples\<close>

record stamped_sample =
  st_sample :: timing_sample
  observed_at_ns :: nat64

record timing_window =
  tw_capacity :: usize
  tw_max_age_ns :: nat64
  tw_max_rtt_ns :: nat64
  tw_last :: "nat64 option"
  tw_samples :: "stamped_sample list"

definition timing_window_new :: "usize \<Rightarrow> nat64 \<Rightarrow> nat64 \<Rightarrow> clock_error + timing_window" where
  "timing_window_new capacity max_age max_rtt =
     (if capacity = 0 \<or> MAX_TIMING_WINDOW_CAPACITY < capacity \<or> max_age = 0 \<or> max_rtt = 0
      then Inl ClockInvalidLimits
      else Inr \<lparr>tw_capacity = capacity, tw_max_age_ns = max_age, tw_max_rtt_ns = max_rtt,
                tw_last = None, tw_samples = []\<rparr>)"

definition window_push :: "usize \<Rightarrow> 'a list \<Rightarrow> 'a \<Rightarrow> 'a list" where
  "window_push capacity q x = (if length q = capacity then tl q else q) @ [x]"

definition timing_window_insert ::
  "timing_sample \<Rightarrow> nat64 \<Rightarrow> timing_window \<Rightarrow> (clock_error + unit) \<times> timing_window" where
  "timing_window_insert s at w =
     (if tw_max_rtt_ns w < rtt_ns s then (Inl (RttTooLarge (rtt_ns s) (tw_max_rtt_ns w)), w)
      else if (case tw_last w of Some l \<Rightarrow> at < l | None \<Rightarrow> False)
      then (Inl NonMonotonicObservation, w)
      else (Inr (),
            w\<lparr>tw_samples := window_push (tw_capacity w) (tw_samples w)
                 \<lparr>st_sample = s, observed_at_ns = at\<rparr>,
              tw_last := Some at\<rparr>))"

definition min_by_key :: "('a \<Rightarrow> nat) \<Rightarrow> 'a list \<Rightarrow> 'a option" where
  "min_by_key f xs =
     (case xs of [] \<Rightarrow> None | x # ys \<Rightarrow> Some (foldl (\<lambda>m y. if f y < f m then y else m) x ys))"

definition fresh_at :: "nat64 \<Rightarrow> nat64 \<Rightarrow> stamped_sample \<Rightarrow> bool" where
  "fresh_at max_age now e \<longleftrightarrow>
     (case checked_sub64 now (observed_at_ns e) of Some age \<Rightarrow> age \<le> max_age | None \<Rightarrow> False)"

definition timing_window_best :: "nat64 \<Rightarrow> timing_window \<Rightarrow> timing_sample option" where
  "timing_window_best now w =
     map_option st_sample
       (min_by_key (\<lambda>e. rtt_ns (st_sample e)) (filter (fresh_at (tw_max_age_ns w) now) (tw_samples w)))"

section \<open>The sync anchor\<close>

record sync_anchor =
  sa_initial :: bool
  sa_flags_or_sequence :: u16
  sa_rtp_at_dac :: u32
  sa_remote_time :: ntp_timestamp
  sa_rtp_current :: u32

definition sync_anchor_parse :: "bytes \<Rightarrow> clock_error + sync_anchor" where
  "sync_anchor_parse packet =
     (if length packet \<noteq> SYNC_ANCHOR_LEN then Inl (WrongLength SYNC_ANCHOR_LEN (length packet))
      else if packet ! 0 \<noteq> 0x80 \<and> packet ! 0 \<noteq> 0x90 then Inl InvalidHeader
      else if packet ! 1 \<noteq> SYNC_ANCHOR_TYPE then Inl InvalidHeader
      else
        let remote_time = ntp_decode (byte_slice 8 16 packet)
        in if remote_time = NTP_ZERO then Inl MissingTimestamp
           else Inr \<lparr>sa_initial = (packet ! 0 = 0x90),
                     sa_flags_or_sequence = of_be [packet ! 2, packet ! 3],
                     sa_rtp_at_dac = of_be (byte_slice 4 8 packet),
                     sa_remote_time = remote_time,
                     sa_rtp_current = of_be (byte_slice 16 20 packet)\<rparr>)"

definition latency_frames :: "sync_anchor \<Rightarrow> u32" where
  "latency_frames a = sa_rtp_current a - sa_rtp_at_dac a"

definition local_anchor_ns :: "sync_anchor \<Rightarrow> timing_sample \<Rightarrow> nat64 option" where
  "local_anchor_ns a s =
     (let l = int (ntp_to_nanos (sa_remote_time a)) - offset_ns s
      in if 0 \<le> l \<and> l \<le> int u64_max then Some (nat l) else None)"

section \<open>Buffered audio\<close>

datatype network_time_error = Overflow
datatype rtp_delta_error = AmbiguousHalfRange

definition u128_max :: nat where
  "u128_max = 2 ^ 128 - 1"

definition network_time_nanos :: "nat64 \<Rightarrow> nat64 \<Rightarrow> network_time_error + nat64" where
  "network_time_nanos seconds fraction =
     (let fractional_ns = (fraction * 1000000000) div 2 ^ 64
      in if u128_max < seconds * 1000000000 \<or> u128_max < seconds * 1000000000 + fractional_ns
         then Inl Overflow
         else if u64_max < seconds * 1000000000 + fractional_ns then Inl Overflow
         else Inr (seconds * 1000000000 + fractional_ns))"

definition rtp_delta :: "u32 \<Rightarrow> u32 \<Rightarrow> rtp_delta_error + int" where
  "rtp_delta timestamp anchor =
     (let raw = timestamp - anchor
      in if raw = 0x80000000 then Inl AmbiguousHalfRange else Inr (sint raw))"

record playback_anchor =
  timeline_id :: nat64
  pa_remote_time_ns :: nat64
  pa_rtp_time :: u32
  pa_token :: operation_token

section \<open>Conversions\<close>

lemma no_high_bit: "\<not> bit (f :: u32) (32 + n)"
  by (auto dest: bit_imp_le_length)

lemma ntp_parts [simp]:
  "ntp_seconds (ntp_from_parts s f) = s" "ntp_fraction (ntp_from_parts s f) = f"
  by (auto intro!: bit_word_eqI
      simp: ntp_seconds_def ntp_fraction_def ntp_from_parts_def bit_simps no_high_bit)

text \<open>Scaling nanoseconds to the binary fraction and back loses at most one nanosecond.\<close>

lemma scaled_back:
  fixes r :: nat
  defines "f \<equiv> r * 2 ^ 32 div 1000000000"
  shows "f * 1000000000 div 2 ^ 32 \<le> r \<and> r \<le> f * 1000000000 div 2 ^ 32 + 1"
proof -
  let ?g = "f * 1000000000 div 2 ^ 32"
  have f: "f * 1000000000 + (r * 2 ^ 32) mod 1000000000 = r * 2 ^ 32"
    unfolding f_def by (rule div_mult_mod_eq)
  have fm: "(r * 2 ^ 32) mod 1000000000 < 1000000000" by simp
  have g: "?g * 2 ^ 32 + (f * 1000000000) mod 2 ^ 32 = f * 1000000000"
    by (rule div_mult_mod_eq)
  have gm: "(f * 1000000000) mod 2 ^ 32 < (2 ^ 32 :: nat)" by simp
  show ?thesis using f fm g gm by simp
qed

lemma ntp_from_nanos_error:
  assumes "ntp_from_nanos n = Some t"
  shows "ntp_to_nanos t \<le> n \<and> n \<le> ntp_to_nanos t + 1"
proof -
  let ?s = "n div 1000000000" and ?r = "n mod 1000000000"
  let ?f = "?r * 2 ^ 32 div 1000000000"
  from assms have s: "?s \<le> 4294967295" and t: "t = ntp_from_parts (of_nat ?s) (of_nat ?f)"
    by (auto simp: ntp_from_nanos_def Let_def split: if_splits)
  have f: "?f < 2 ^ 32" by (simp add: div_less_iff_less_mult)
  have "unat (of_nat ?s :: u32) = ?s" "unat (of_nat ?f :: u32) = ?f"
    using s f by (simp_all add: unat_of_nat)
  then have "ntp_to_nanos t = ?s * 1000000000 + ?f * 1000000000 div 2 ^ 32"
    by (simp add: ntp_to_nanos_def t)
  moreover have "?f * 1000000000 div 2 ^ 32 \<le> ?r \<and> ?r \<le> ?f * 1000000000 div 2 ^ 32 + 1"
    by (rule scaled_back)
  moreover have "n = ?s * 1000000000 + ?r" by simp
  ultimately show ?thesis by linarith
qed

lemma ntp_from_nanos_defined: "(\<exists>t. ntp_from_nanos n = Some t) \<longleftrightarrow> n < 2 ^ 32 * 1000000000"
  by (auto simp: ntp_from_nanos_def Let_def)

lemma ntp_compose: "ntp_from_parts (ntp_seconds t) (ntp_fraction t) = t"
proof (rule ntp_timestamp.expand)
  have "bit (ntp_raw t) n" if "n < 64" "bit (ntp_raw t) (32 + (n - 32))" "32 \<le> n" for n
    using that by simp
  then show "ntp_raw (ntp_from_parts (ntp_seconds t) (ntp_fraction t)) = ntp_raw t"
    by (auto intro!: bit_word_eqI
        simp: ntp_seconds_def ntp_fraction_def ntp_from_parts_def bit_simps not_less)
qed

section \<open>The estimate\<close>

lemma halved:
  fixes a :: int
  shows "2 * (a sdiv 2) \<le> a + 1" and "a \<le> 2 * (a sdiv 2) + 1"
  by (cases "0 \<le> a"; simp add: signed_divide_int_def sgn_if; linarith)+

lemma halved_distance:
  fixes a b c e f x :: int
  assumes "a = 2 * b + c - e" and "2 * x \<le> a + 1" and "a \<le> 2 * x + 1" and "0 \<le> c" and "0 \<le> e"
  shows "2 * \<bar>x - b\<bar> \<le> c + e + 1"
  using assms by arith

lemma from_exchange_cases:
  "from_exchange dep r arr = Inr s \<longleftrightarrow>
     dep \<le> arr \<and> ntp_to_nanos (tr_remote_receive r) \<le> ntp_to_nanos (tr_remote_transmit r) \<and>
     ntp_to_nanos (tr_remote_transmit r) - ntp_to_nanos (tr_remote_receive r) \<le> arr - dep \<and>
     s = \<lparr>offset_ns = ((int (ntp_to_nanos (tr_remote_receive r)) - int dep) +
              (int (ntp_to_nanos (tr_remote_transmit r)) - int arr)) sdiv 2,
          rtt_ns = (arr - dep) -
              (ntp_to_nanos (tr_remote_transmit r) - ntp_to_nanos (tr_remote_receive r))\<rparr>"
  by (auto simp: from_exchange_def Let_def split: option.splits)

section \<open>The window\<close>

interpretation window_queue: drop_oldest "Suc c" "window_push (Suc c)" for c
  by unfold_locales (simp_all add: window_push_def)

definition tw_inv :: "timing_window \<Rightarrow> bool" where
  "tw_inv w \<longleftrightarrow>
     0 < tw_capacity w \<and> tw_capacity w \<le> MAX_TIMING_WINDOW_CAPACITY \<and>
     length (tw_samples w) \<le> tw_capacity w \<and>
     list_all (\<lambda>e. rtt_ns (st_sample e) \<le> tw_max_rtt_ns w) (tw_samples w) \<and>
     sorted (map observed_at_ns (tw_samples w)) \<and>
     (case tw_last w of
        None \<Rightarrow> tw_samples w = []
      | Some l \<Rightarrow> list_all (\<lambda>e. observed_at_ns e \<le> l) (tw_samples w))"

lemma timing_window_new_inv: "timing_window_new c a r = Inr w \<Longrightarrow> tw_inv w"
  by (auto simp: timing_window_new_def tw_inv_def split: if_splits)

definition tw_step :: "timing_sample \<times> nat64 \<Rightarrow> timing_window \<Rightarrow> timing_window" where
  "tw_step e w = snd (timing_window_insert (fst e) (snd e) w)"

definition tw_accepts :: "timing_window \<Rightarrow> timing_sample \<Rightarrow> nat64 \<Rightarrow> bool" where
  "tw_accepts w s at \<longleftrightarrow> rtt_ns s \<le> tw_max_rtt_ns w \<and>
     (case tw_last w of Some l \<Rightarrow> l \<le> at | None \<Rightarrow> True)"

lemma timing_window_insert_alt:
  "timing_window_insert s at w =
     (if tw_accepts w s at
      then (Inr (), w\<lparr>tw_samples := window_push (tw_capacity w) (tw_samples w)
              \<lparr>st_sample = s, observed_at_ns = at\<rparr>, tw_last := Some at\<rparr>)
      else (Inl (if tw_max_rtt_ns w < rtt_ns s then RttTooLarge (rtt_ns s) (tw_max_rtt_ns w)
                 else NonMonotonicObservation), w))"
  by (auto simp: timing_window_insert_def tw_accepts_def split: option.splits)

lemma sorted_tl_map: "sorted (map f xs) \<Longrightarrow> sorted (map f (tl xs))"
  by (cases xs) auto

lemma in_set_tlD: "x \<in> set (tl xs) \<Longrightarrow> x \<in> set xs"
  by (cases xs) auto

lemma tw_step_inv: "tw_inv w \<Longrightarrow> tw_inv (tw_step e w)"
proof (cases "tw_accepts w (fst e) (snd e)")
  case True
  assume inv: "tw_inv w"
  then obtain c where c: "tw_capacity w = Suc c" by (cases "tw_capacity w") (auto simp: tw_inv_def)
  let ?x = "\<lparr>st_sample = fst e, observed_at_ns = snd e\<rparr>"
  let ?q = "window_push (Suc c) (tw_samples w) ?x"
  have len: "length (tw_samples w) \<le> Suc c" using inv c by (simp add: tw_inv_def)
  have sub: "set ?q \<subseteq> insert ?x (set (tw_samples w))" by (rule window_queue.push_subset [OF len])
  have low: "observed_at_ns x \<le> snd e" if "x \<in> set (tw_samples w)" for x
    using inv True that by (fastforce simp: tw_inv_def tw_accepts_def list_all_iff split: option.splits)
  have "sorted (map observed_at_ns (tw_samples w))" using inv by (simp add: tw_inv_def)
  then have "sorted (map observed_at_ns ?q)"
    using low by (auto simp: window_push_def sorted_append sorted_tl_map intro!: low dest: in_set_tlD)
  moreover have "length ?q \<le> Suc c" by (rule window_queue.push_bounded [OF len])
  moreover have "rtt_ns (st_sample x) \<le> tw_max_rtt_ns w" "observed_at_ns x \<le> snd e" if "x \<in> set ?q" for x
    using that sub low inv True by (auto simp: tw_inv_def tw_accepts_def list_all_iff)
  ultimately show ?thesis
    using inv True c by (auto simp: tw_step_def timing_window_insert_alt tw_inv_def list_all_iff)
next
  case False
  then show "tw_inv w \<Longrightarrow> ?thesis" by (simp add: tw_step_def timing_window_insert_alt)
qed

interpretation timing: state_machine tw_step tw_inv
  by unfold_locales (rule tw_step_inv)

text \<open>The samples a run accepts, in order.\<close>

fun accepted_samples :: "(timing_sample \<times> nat64) list \<Rightarrow> timing_window \<Rightarrow> stamped_sample list" where
  "accepted_samples [] w = []"
| "accepted_samples (e # es) w =
     (if tw_accepts w (fst e) (snd e)
      then \<lparr>st_sample = fst e, observed_at_ns = snd e\<rparr> # accepted_samples es (tw_step e w)
      else accepted_samples es (tw_step e w))"

lemma tw_step_capacity [simp]: "tw_capacity (tw_step e w) = tw_capacity w"
  "tw_max_age_ns (tw_step e w) = tw_max_age_ns w"
  by (simp_all add: tw_step_def timing_window_insert_alt)

lemma tw_run_capacity [simp]: "tw_capacity (fold tw_step es w) = tw_capacity w"
  "tw_max_age_ns (fold tw_step es w) = tw_max_age_ns w"
  by (induction es arbitrary: w) simp_all

lemma tw_run_samples:
  "tw_samples (fold tw_step es w) =
     foldl (window_push (tw_capacity w)) (tw_samples w) (accepted_samples es w)"
  by (induction es arbitrary: w) (simp_all add: tw_step_def timing_window_insert_alt)

lemma foldl_min:
  "foldl (\<lambda>m y. if f y < f m then y else m) x ys \<in> insert x (set ys) \<and>
   (\<forall>y \<in> insert x (set ys). (f (foldl (\<lambda>m y. if f y < f m then y else m) x ys) :: nat) \<le> f y)"
proof (induction ys arbitrary: x)
  case (Cons z zs)
  from Cons [of "if f z < f x then z else x"] show ?case by (auto split: if_splits)
qed simp

lemma min_by_key_spec:
  "min_by_key f xs = Some m \<Longrightarrow> m \<in> set xs \<and> (\<forall>y \<in> set xs. f m \<le> f y)"
  "min_by_key f xs = None \<longleftrightarrow> xs = []"
  using foldl_min [of f "hd xs" "tl xs"] by (cases xs; simp add: min_by_key_def; blast)+

section \<open>Wire layouts\<close>

definition timing_response_wire :: "timing_response \<Rightarrow> bytes" where
  "timing_response_wire r =
     [0x80, 0xd3] @ be_bytes 2 (tr_sequence r) @ [0, 0, 0, 0] @ be_bytes 8 (ntp_raw (tr_origin r)) @
     be_bytes 8 (ntp_raw (tr_remote_receive r)) @ be_bytes 8 (ntp_raw (tr_remote_transmit r))"

definition sync_anchor_wire :: "sync_anchor \<Rightarrow> bytes" where
  "sync_anchor_wire a =
     [if sa_initial a then 0x90 else 0x80, 0xd4] @ be_bytes 2 (sa_flags_or_sequence a) @
     be_bytes 4 (sa_rtp_at_dac a) @ be_bytes 8 (ntp_raw (sa_remote_time a)) @
     be_bytes 4 (sa_rtp_current a)"

text \<open>A response on the wire is well formed if its clock readings are present and ordered.\<close>

definition response_ok :: "timing_response \<Rightarrow> bool" where
  "response_ok r \<longleftrightarrow> tr_remote_receive r \<noteq> NTP_ZERO \<and> tr_remote_transmit r \<noteq> NTP_ZERO \<and>
     tr_remote_receive r \<le> tr_remote_transmit r"

lemma ntp_decode_raw [simp]:
  "ntp_decode (be_bytes 8 (ntp_raw t)) = t"
  "length b = 8 \<Longrightarrow> be_bytes 8 (ntp_raw (ntp_decode b)) = b"
  by (simp_all add: ntp_decode_def be_bytes_of_be)

lemma timing_response_parse_wire:
  "response_ok r \<Longrightarrow> e = None \<or> e = Some (tr_sequence r) \<Longrightarrow>
   timing_response_parse (timing_response_wire r) e = Inr r"
  by (cases r)
    (auto simp: timing_response_parse_def timing_response_wire_def response_ok_def clock_consts
      Let_def layout_simps)

lemma timing_response_parse_inv:
  assumes "timing_response_parse d e = Inr r"
  shows "d = timing_response_wire r \<and> response_ok r \<and> (e = None \<or> e = Some (tr_sequence r))"
proof -
  from assms have len: "length d = 32" and head: "d ! 0 = 0x80" "d ! 1 = 0xd3"
      and zero: "byte_slice 4 8 d = [0, 0, 0, 0]"
      and r: "r = \<lparr>tr_sequence = of_be [d ! 2, d ! 3], tr_origin = ntp_decode (byte_slice 8 16 d),
        tr_remote_receive = ntp_decode (byte_slice 16 24 d),
        tr_remote_transmit = ntp_decode (byte_slice 24 32 d)\<rparr>"
      and ok: "response_ok r" "e = None \<or> e = Some (tr_sequence r)"
    by (auto simp: timing_response_parse_def clock_consts Let_def response_ok_def
        split: if_splits option.splits)
  have "d = [d ! 0, d ! 1] @ [d ! 2, d ! 3] @ byte_slice 4 8 d @ byte_slice 8 16 d @
      byte_slice 16 24 d @ byte_slice 24 32 d"
    using split_four [of d] drop_slice [of 4 8 d] drop_slice [of 8 16 d] drop_slice [of 16 24 d]
      drop_slice [of 24 32 d] len by simp
  also have "\<dots> = timing_response_wire r"
    using len by (simp add: timing_response_wire_def r head [simplified] zero be_bytes_of_be)
  finally show ?thesis using ok by blast
qed

section \<open>Properties\<close>

text \<open>
  NTP conversion: nanoseconds convert exactly when their seconds fit in 32 bits, and
  converting back loses at most one nanosecond and never gains any.
\<close>

theorem ntp_conversion:
  "case ntp_from_nanos n of
     Some t \<Rightarrow> ntp_to_nanos t \<le> n \<and> n \<le> ntp_to_nanos t + 1
   | None \<Rightarrow> 2 ^ 32 * 1000000000 \<le> n"
proof (cases "ntp_from_nanos n")
  case None
  with ntp_from_nanos_defined [of n] show ?thesis by simp
next
  case (Some t)
  with ntp_from_nanos_error [OF Some] show ?thesis by simp
qed

text \<open>
  C23. The estimate: let the remote clock run \<open>\<theta>\<close> ahead of the local one, and let the probe
  take \<open>d1\<close> to arrive and the response \<open>d2\<close> to return. The round trip measured is
  their sum, and the estimated offset is off by at most half of it, rounding included.
\<close>

theorem offset_error_bounded:
  assumes "from_exchange departure r arrival = Inr s" and "0 \<le> d1" and "0 \<le> d2"
    and "int (ntp_to_nanos (tr_remote_receive r)) = int departure + d1 + \<theta>"
    and "int arrival = int (ntp_to_nanos (tr_remote_transmit r)) - \<theta> + d2"
  shows "int (rtt_ns s) = d1 + d2 \<and> 2 * \<bar>offset_ns s - \<theta>\<bar> \<le> int (rtt_ns s) + 1"
proof -
  let ?R = "ntp_to_nanos (tr_remote_receive r)" and ?T = "ntp_to_nanos (tr_remote_transmit r)"
  let ?a = "(int ?R - int departure) + (int ?T - int arrival)"
  from assms(1) have s: "departure \<le> arrival" "?R \<le> ?T" "?T - ?R \<le> arrival - departure"
      "offset_ns s = ?a sdiv 2" "rtt_ns s = (arrival - departure) - (?T - ?R)"
    by (simp_all add: from_exchange_cases)
  then have rtt: "int (rtt_ns s) = d1 + d2" using assms(4,5) by linarith
  have "?a = 2 * \<theta> + d1 - d2" using assms(4,5) by linarith
  moreover have "2 * offset_ns s \<le> ?a + 1" "?a \<le> 2 * offset_ns s + 1"
    unfolding s(4) by (rule halved)+
  ultimately have "2 * \<bar>offset_ns s - \<theta>\<bar> \<le> d1 + d2 + 1"
    by (rule halved_distance [OF _ _ _ assms(2,3)])
  with rtt show ?thesis by simp
qed

theorem offset_error_bounded_witness:
  "from_exchange 0 \<lparr>tr_sequence = 1, tr_origin = NTP_ZERO, tr_remote_receive = ntp_from_parts 1 0,
      tr_remote_transmit = ntp_from_parts 2 0\<rparr> 1000017000 =
     Inr \<lparr>offset_ns = 999991500, rtt_ns = 17000\<rparr> \<and>
   2 * \<bar>999991500 - 999995000 :: int\<bar> \<le> 17000 + 1"
proof -
  let ?r = "\<lparr>tr_sequence = 1, tr_origin = NTP_ZERO, tr_remote_receive = ntp_from_parts 1 0,
    tr_remote_transmit = ntp_from_parts 2 0\<rparr>"
  have e: "from_exchange 0 ?r 1000017000 = Inr \<lparr>offset_ns = 999991500, rtt_ns = 17000\<rparr>"
    by (simp add: from_exchange_cases ntp_to_nanos_def signed_divide_int_def)
  from offset_error_bounded [OF e, of 5000 12000 999995000] e show ?thesis
    by (simp add: ntp_to_nanos_def)
qed

text \<open>
  Timing responses: the parser accepts exactly the 32-byte layout of a well-formed response
  with the expected sequence number, and reads back every field.
\<close>

theorem timing_response_parse_iff:
  "timing_response_parse d e = Inr r \<longleftrightarrow>
     d = timing_response_wire r \<and> response_ok r \<and> e \<in> {None, Some (tr_sequence r)}"
  using timing_response_parse_inv [of d e r] timing_response_parse_wire [of r e] by blast

text \<open>
  Correlation: a peer that copies the sequence number and the transmit time of our probe into
  its response passes the parser and the correlation checks until the deadline, whatever it
  reports as its own clock, and only the arithmetic of the exchange decides from there.
\<close>

theorem timing_exchange_correlates:
  fixes sequence :: u16 and transmit :: ntp_timestamp and feedback :: "timing_feedback option"
  defines "probe \<equiv> build_timing_request sequence transmit feedback"
  assumes "receive \<noteq> NTP_ZERO" and "send \<noteq> NTP_ZERO" and "receive \<le> send" and "now \<le> deadline"
  shows "\<exists>r. timing_response_parse
      ([0x80, 0xd3] @ byte_slice 2 4 probe @ [0, 0, 0, 0] @ byte_slice 24 32 probe @
       be_bytes 8 (ntp_raw receive) @ be_bytes 8 (ntp_raw send)) (Some sequence) = Inr r \<and>
    validate_response \<lparr>pt_sequence = sequence, pt_origin = transmit, pt_departure_ns = departure,
        pt_expires_ns = deadline\<rparr> r arrival now = from_exchange departure r arrival"
proof -
  let ?r = "\<lparr>tr_sequence = sequence, tr_origin = transmit, tr_remote_receive = receive,
    tr_remote_transmit = send\<rparr>"
  have probe: "byte_slice 2 4 probe = be_bytes 2 sequence"
      "byte_slice 24 32 probe = be_bytes 8 (ntp_raw transmit)"
    by (simp_all add: probe_def build_timing_request_def layout_simps split: option.splits)
  have "timing_response_parse (timing_response_wire ?r) (Some sequence) = Inr ?r"
    using assms by (intro timing_response_parse_wire) (simp_all add: response_ok_def)
  then show ?thesis
    using assms(5) unfolding probe
    by (intro exI [of _ ?r]) (simp add: timing_response_wire_def validate_response_def)
qed

theorem timing_exchange_correlates_witness:
  "\<exists>r. timing_response_parse
      ([0x80, 0xd3] @ byte_slice 2 4 (build_timing_request 7 (NtpTimestamp 9) None) @ [0, 0, 0, 0] @
       byte_slice 24 32 (build_timing_request 7 (NtpTimestamp 9) None) @
       be_bytes 8 (1 :: u64) @ be_bytes 8 (2 :: u64)) (Some 7) = Inr r"
  using timing_exchange_correlates [of "NtpTimestamp 1" "NtpTimestamp 2" 0 0 7 "NtpTimestamp 9" None]
  by (auto simp: NTP_ZERO_def less_eq_ntp_timestamp_def)

text \<open>
  Sync anchors: the parser accepts exactly the 20-byte layout with a non-zero remote time.
\<close>

theorem sync_anchor_parse_iff:
  "sync_anchor_parse d = Inr a \<longleftrightarrow> d = sync_anchor_wire a \<and> sa_remote_time a \<noteq> NTP_ZERO"
proof
  assume parse: "sync_anchor_parse d = Inr a"
  then have len: "length d = 20" and head: "d ! 0 = (if sa_initial a then 0x90 else 0x80)" "d ! 1 = 0xd4"
      and a: "sa_flags_or_sequence a = of_be [d ! 2, d ! 3]" "sa_rtp_at_dac a = of_be (byte_slice 4 8 d)"
        "sa_remote_time a = ntp_decode (byte_slice 8 16 d)" "sa_rtp_current a = of_be (byte_slice 16 20 d)"
      and ok: "sa_remote_time a \<noteq> NTP_ZERO"
    by (auto simp: sync_anchor_parse_def clock_consts Let_def split: if_splits)
  have "d = [d ! 0, d ! 1] @ [d ! 2, d ! 3] @ byte_slice 4 8 d @ byte_slice 8 16 d @ byte_slice 16 20 d"
    using split_four [of d] drop_slice [of 4 8 d] drop_slice [of 8 16 d] drop_slice [of 16 20 d] len
    by simp
  also have "\<dots> = sync_anchor_wire a"
    using len by (simp add: sync_anchor_wire_def a head [simplified] be_bytes_of_be)
  finally show "d = sync_anchor_wire a \<and> sa_remote_time a \<noteq> NTP_ZERO" using ok by simp
next
  assume "d = sync_anchor_wire a \<and> sa_remote_time a \<noteq> NTP_ZERO"
  then show "sync_anchor_parse d = Inr a"
    by (cases a)
      (auto simp: sync_anchor_parse_def sync_anchor_wire_def clock_consts Let_def layout_simps)
qed

text \<open>
  The window holds exactly the last \<open>capacity\<close> samples it accepted, and exposes one of
  the fresh ones among them with the smallest round trip, or none when none is fresh.
\<close>

theorem timing_window_best_of_last:
  assumes "timing_window_new c max_age max_rtt = Inr w"
  shows "let recent = drop (length (accepted_samples es w) - c) (accepted_samples es w);
             fresh = {e \<in> set recent. observed_at_ns e \<le> now \<and> now - observed_at_ns e \<le> max_age}
         in tw_samples (fold tw_step es w) = recent \<and>
            (case timing_window_best now (fold tw_step es w) of
               None \<Rightarrow> fresh = {}
             | Some s \<Rightarrow> (\<exists>e \<in> fresh. st_sample e = s) \<and> (\<forall>e \<in> fresh. rtt_ns s \<le> rtt_ns (st_sample e)))"
proof -
  from assms obtain k where c: "c = Suc k" and w: "tw_capacity w = c" "tw_samples w = []" "tw_max_age_ns w = max_age"
    by (cases c) (auto simp: timing_window_new_def split: if_splits)
  let ?recent = "drop (length (accepted_samples es w) - c) (accepted_samples es w)"
  let ?w = "fold tw_step es w"
  have samples: "tw_samples ?w = ?recent"
    using window_queue.push_all [of "[]" k "accepted_samples es w"] by (simp add: tw_run_samples w c)
  have fresh: "set (filter (fresh_at max_age now) (tw_samples ?w)) =
      {e \<in> set ?recent. observed_at_ns e \<le> now \<and> now - observed_at_ns e \<le> max_age}"
    by (auto simp: samples fresh_at_def split: option.splits)
  let ?f = "filter (fresh_at max_age now) (tw_samples ?w)"
  let ?m = "min_by_key (\<lambda>e. rtt_ns (st_sample e)) ?f"
  show ?thesis
  proof (cases ?m)
    case None
    then have "?f = []" by (simp only: min_by_key_spec)
    then have empty: "{e \<in> set ?recent. observed_at_ns e \<le> now \<and> now - observed_at_ns e \<le> max_age} = {}"
      by (simp only: fresh [symmetric] list.set)
    from None w have "timing_window_best now ?w = None" by (simp add: timing_window_best_def)
    then show ?thesis by (simp only: Let_def samples empty option.case simp_thms)
  next
    case (Some m)
    note m = min_by_key_spec(1) [OF Some]
    from Some w have "timing_window_best now ?w = Some (st_sample m)"
      by (simp add: timing_window_best_def)
    with m samples show ?thesis unfolding fresh by (auto simp: Let_def)
  qed
qed

theorem timing_window_best_of_last_witness:
  "timing_window_best 10 (fold tw_step [] \<lparr>tw_capacity = 2, tw_max_age_ns = 5, tw_max_rtt_ns = 9,
      tw_last = None, tw_samples = []\<rparr>) = None"
proof -
  have new: "timing_window_new 2 5 9 = Inr \<lparr>tw_capacity = 2, tw_max_age_ns = 5, tw_max_rtt_ns = 9,
      tw_last = None, tw_samples = []\<rparr>"
    by (simp add: timing_window_new_def clock_consts)
  from timing_window_best_of_last [OF new, of "[]" 10] show ?thesis
    by (auto simp: Let_def split: option.splits)
qed

text \<open>
  RTP distance: the result is the unique signed distance below half the wrapping range that
  leads from the anchor to the timestamp.
\<close>

theorem rtp_delta_iff:
  "rtp_delta timestamp anchor = Inr d \<longleftrightarrow>
     timestamp = anchor + of_int d \<and> - (2 ^ 31) < d \<and> d < 2 ^ 31"
proof -
  let ?raw = "timestamp - anchor"
  have range: "- (2 ^ 31) \<le> sint ?raw" "sint ?raw < 2 ^ 31"
    using sint_ge [of ?raw] sint_lt [of ?raw] by simp_all
  have half: "?raw = 0x80000000 \<longleftrightarrow> sint ?raw = - (2 ^ 31)"
  proof
    assume eq: "sint ?raw = - (2 ^ 31)"
    have "of_int (sint ?raw) = (of_int (- (2 ^ 31)) :: u32)" unfolding eq ..
    then show "?raw = 0x80000000" by simp
  qed simp
  have signed: "sint (of_int d :: u32) = d" if "- (2 ^ 31) < d" "d < 2 ^ 31"
    using that by (simp add: signed_of_int signed_take_bit_int_eq_self)
  show ?thesis
  proof
    assume "rtp_delta timestamp anchor = Inr d"
    then have d: "d = sint ?raw" and "?raw \<noteq> 0x80000000"
      by (auto simp: rtp_delta_def Let_def split: if_splits)
    with range half have "- (2 ^ 31) < d \<and> d < 2 ^ 31" by auto
    moreover have "timestamp = anchor + of_int d" by (simp add: d)
    ultimately show "timestamp = anchor + of_int d \<and> - (2 ^ 31) < d \<and> d < 2 ^ 31" by blast
  next
    assume a: "timestamp = anchor + of_int d \<and> - (2 ^ 31) < d \<and> d < 2 ^ 31"
    then have "?raw = of_int d" by simp
    with a signed half show "rtp_delta timestamp anchor = Inr d" by (simp add: rtp_delta_def Let_def)
  qed
qed

lemma network_time_exact:
  "network_time_nanos s f =
     (let n = (s * 2 ^ 64 + f) * 1000000000 div 2 ^ 64 in if n \<le> u64_max then Inr n else Inl Overflow)"
proof -
  have "(s * 2 ^ 64 + f) * 1000000000 = f * 1000000000 + (s * 1000000000) * 2 ^ 64"
    by (simp add: algebra_simps)
  then have "(s * 2 ^ 64 + f) * 1000000000 div 2 ^ 64 = s * 1000000000 + f * 1000000000 div 2 ^ 64"
    by (simp only: div_mult_self1) simp
  then show ?thesis by (simp add: network_time_nanos_def Let_def u128_max_def u64_max_def)
qed

end
