(* ===== verification/Framed.thy ===== *)
theory Framed
  imports WirePacket
begin

text \<open>
  Frames over a byte stream (core/audiohub-net/src/framed.rs): the frame encoder and the decoder
  with its fixed buffer, deferred consumption and terminal errors. The abstract side is a byte
  string: \<open>split_frame\<close> says what its first frame is, \<open>stream_frames\<close> splits
  all of it. The decoder refines this specification, whatever the chunks in which the stream
  arrives; the locale \<open>frame_source\<close> is the contract its clients rely on.
\<close>

section \<open>Frames\<close>

definition MUX_MAX_PAYLOAD :: nat where
  "MUX_MAX_PAYLOAD = 4096"

definition MUX_MAX_FRAME :: nat where
  "MUX_MAX_FRAME = HEADER_LEN + MUX_MAX_PAYLOAD"

definition PAYLOAD_LEN_OFFSET :: nat where
  "PAYLOAD_LEN_OFFSET = 36"

lemmas frame_consts = MUX_MAX_PAYLOAD_def MUX_MAX_FRAME_def PAYLOAD_LEN_OFFSET_def HEADER_LEN_def

datatype framed_error =
    PayloadTooLarge nat
  | HeaderError packet_error
  | Poisoned

definition encode_frame :: "header \<Rightarrow> bytes \<Rightarrow> bytes \<Rightarrow> framed_error + bytes" where
  "encode_frame h payload out =
     (if MUX_MAX_PAYLOAD < length payload then Inl (PayloadTooLarge (length payload))
      else Inr (encode_append (h\<lparr>h_payload_len := of_nat (length payload)\<rparr>) payload out))"

definition control_header :: header where
  "control_header =
     \<lparr>h_kind = Control, h_codec = Passthrough, h_channels = 0, h_sample_rate = 0, h_session_id = 0,
      h_stream_id = 0, h_seq = 0, h_timestamp_us = 0, h_payload_len = 0\<rparr>"

definition keepalive_header :: header where
  "keepalive_header = control_header\<lparr>h_kind := MuxKeepalive\<rparr>"

record frame =
  fr_header :: header
  fr_frame :: bytes

definition frame_bytes :: "frame \<Rightarrow> bytes" where
  "frame_bytes f = fr_frame f"

definition frame_payload :: "frame \<Rightarrow> bytes" where
  "frame_payload f = drop HEADER_LEN (fr_frame f)"

section \<open>The decoder\<close>

record frame_decoder =
  fd_buf :: bytes
  fd_len :: nat
  fd_consumed :: nat
  fd_poisoned :: bool

definition frame_decoder_new :: frame_decoder where
  "frame_decoder_new =
     \<lparr>fd_buf = replicate MUX_MAX_FRAME 0, fd_len = 0, fd_consumed = 0, fd_poisoned = False\<rparr>"

definition drop_consumed :: "frame_decoder \<Rightarrow> frame_decoder" where
  "drop_consumed d =
     (if 0 < fd_consumed d
      then d\<lparr>fd_buf := byte_slice (fd_consumed d) (fd_len d) (fd_buf d) @
                       drop (fd_len d - fd_consumed d) (fd_buf d),
             fd_len := fd_len d - fd_consumed d, fd_consumed := 0\<rparr>
      else d)"

definition fd_push :: "bytes \<Rightarrow> frame_decoder \<Rightarrow> nat \<times> frame_decoder" where
  "fd_push input d =
     (if fd_poisoned d then (0, d)
      else
        let d1 = drop_consumed d;
            n = min (MUX_MAX_FRAME - fd_len d1) (length input)
        in (n, d1\<lparr>fd_buf := take (fd_len d1) (fd_buf d1) @ take n input @
                             drop (fd_len d1 + n) (fd_buf d1),
                  fd_len := fd_len d1 + n\<rparr>))"

definition next_frame :: "frame_decoder \<Rightarrow> (framed_error + frame option) \<times> frame_decoder" where
  "next_frame d =
     (if fd_poisoned d then (Inl Poisoned, d)
      else
        let d1 = drop_consumed d
        in if fd_len d1 < HEADER_LEN then (Inr None, d1)
           else
             let declared = unat (of_le (byte_slice PAYLOAD_LEN_OFFSET (PAYLOAD_LEN_OFFSET + 4)
                                    (fd_buf d1)) :: u32);
                 total_len = HEADER_LEN + declared
             in if MUX_MAX_PAYLOAD < declared
                then (Inl (PayloadTooLarge declared), d1\<lparr>fd_poisoned := True\<rparr>)
                else if fd_len d1 < total_len then (Inr None, d1)
                else case header_parse (take total_len (fd_buf d1)) of
                  Inl e \<Rightarrow> (Inl (HeaderError e), d1\<lparr>fd_poisoned := True\<rparr>)
                | Inr (h, _) \<Rightarrow>
                    (Inr (Some \<lparr>fr_header = h, fr_frame = take total_len (fd_buf d1)\<rparr>),
                     d1\<lparr>fd_consumed := total_len\<rparr>))"

definition fd_buffered :: "frame_decoder \<Rightarrow> nat" where
  "fd_buffered d = fd_len d - fd_consumed d"

section \<open>The specification: splitting a byte string\<close>

text \<open>\<open>None\<close>: more bytes are needed.\<close>

definition split_frame :: "bytes \<Rightarrow> (framed_error + (frame \<times> bytes)) option" where
  "split_frame bs =
     (if length bs < HEADER_LEN then None
      else
        let declared = unat (of_le (byte_slice 36 40 bs) :: u32)
        in if MUX_MAX_PAYLOAD < declared then Some (Inl (PayloadTooLarge declared))
           else if length bs < HEADER_LEN + declared then None
           else case header_parse (take (HEADER_LEN + declared) bs) of
             Inl e \<Rightarrow> Some (Inl (HeaderError e))
           | Inr (h, _) \<Rightarrow> Some (Inr (\<lparr>fr_header = h, fr_frame = take (HEADER_LEN + declared) bs\<rparr>,
                                     drop (HEADER_LEN + declared) bs)))"

lemma split_frame_append:
  "split_frame bs = Some (Inl e) \<Longrightarrow> split_frame (bs @ cs) = Some (Inl e)"
  "split_frame bs = Some (Inr (f, r)) \<Longrightarrow> split_frame (bs @ cs) = Some (Inr (f, r @ cs))"
  by (auto simp: split_frame_def Let_def byte_slice_append_left HEADER_LEN_def
      split: if_splits sum.splits)

lemma split_frame_Some:
  assumes "split_frame bs = Some (Inr (f, r))"
  shows "bs = fr_frame f @ r" and "length r + HEADER_LEN \<le> length bs"
    and "HEADER_LEN \<le> length (fr_frame f)" and "length (fr_frame f) \<le> MUX_MAX_FRAME"
    and "header_parse (fr_frame f) = Inr (fr_header f, frame_payload f)"
proof -
  let ?n = "unat (of_le (byte_slice 36 40 bs) :: u32)"
  from assms obtain p where n: "HEADER_LEN + ?n \<le> length bs" "?n \<le> MUX_MAX_PAYLOAD"
      and f: "fr_frame f = take (HEADER_LEN + ?n) bs" "r = drop (HEADER_LEN + ?n) bs"
      and p: "header_parse (fr_frame f) = Inr (fr_header f, p)"
    by (auto simp: split_frame_def Let_def split: if_splits sum.splits)
  then show "bs = fr_frame f @ r" "length r + HEADER_LEN \<le> length bs"
      "HEADER_LEN \<le> length (fr_frame f)" "length (fr_frame f) \<le> MUX_MAX_FRAME"
    by (simp_all add: MUX_MAX_FRAME_def)
  from header_parse_inv [OF p] have "fr_frame f = header_encode (fr_header f) p" by blast
  then have "p = frame_payload f"
    by (simp add: frame_payload_def header_encode_bytes HEADER_LEN_def)
  with p show "header_parse (fr_frame f) = Inr (fr_header f, frame_payload f)" by simp
qed

lemma split_frame_None: "split_frame bs = None \<Longrightarrow> length bs < MUX_MAX_FRAME"
  by (auto simp: split_frame_def Let_def frame_consts split: if_splits sum.splits)

function stream_frames :: "bytes \<Rightarrow> frame list \<times> framed_error option \<times> bytes" where
  "stream_frames bs =
     (case split_frame bs of
        None \<Rightarrow> ([], None, bs)
      | Some (Inl e) \<Rightarrow> ([], Some e, bs)
      | Some (Inr (f, r)) \<Rightarrow> (case stream_frames r of (fs, e, rest) \<Rightarrow> (f # fs, e, rest)))"
  by pat_completeness auto
termination
  by (relation "measure length") (auto dest: split_frame_Some(2) simp: HEADER_LEN_def)

declare stream_frames.simps [simp del]

lemma stream_frames_None: "split_frame bs = None \<Longrightarrow> stream_frames bs = ([], None, bs)"
  by (subst stream_frames.simps) simp

lemma stream_frames_error: "split_frame bs = Some (Inl e) \<Longrightarrow> stream_frames bs = ([], Some e, bs)"
  by (subst stream_frames.simps) simp

lemma stream_frames_Cons: "split_frame bs = Some (Inr (f, r)) \<Longrightarrow>
  stream_frames bs = (case stream_frames r of (fs, e, rest) \<Rightarrow> (f # fs, e, rest))"
  by (subst stream_frames.simps) simp

lemma stream_frames_rest: "stream_frames bs = (fs, None, r) \<Longrightarrow> split_frame r = None"
proof (induction bs arbitrary: fs rule: stream_frames.induct)
  case (1 bs)
  show ?case
  proof (cases "split_frame bs")
    case None
    with 1 show ?thesis by (simp add: stream_frames_None)
  next
    case (Some x)
    show ?thesis
    proof (cases x)
      case (Inl e)
      with Some 1 show ?thesis by (simp add: stream_frames_error)
    next
      case (Inr y)
      then obtain f q where y: "x = Inr (f, q)" by (cases y) simp
      with 1 Some show ?thesis by (auto simp: stream_frames_Cons split: prod.splits)
    qed
  qed
qed

text \<open>Splitting is incremental: what the first part of a stream yields, the whole stream yields.\<close>

lemma stream_frames_append:
  "stream_frames (bs @ cs) =
     (case stream_frames bs of
        (fs, Some e, r) \<Rightarrow> (fs, Some e, r @ cs)
      | (fs, None, r) \<Rightarrow> (case stream_frames (r @ cs) of (gs, e, q) \<Rightarrow> (fs @ gs, e, q)))"
proof (induction bs rule: stream_frames.induct)
  case (1 bs)
  show ?case
  proof (cases "split_frame bs")
    case None
    then show ?thesis by (simp add: stream_frames_None split: prod.splits)
  next
    case (Some x)
    show ?thesis
    proof (cases x)
      case (Inl e)
      with Some show ?thesis by (simp add: stream_frames_error split_frame_append(1))
    next
      case (Inr y)
      then obtain f q where y: "x = Inr (f, q)" by (cases y) simp
      with 1 [OF Some y refl] Some show ?thesis
        by (auto simp: stream_frames_Cons split_frame_append(2) split: prod.splits option.splits)
    qed
  qed
qed

section \<open>The contract of a frame source\<close>

text \<open>
  What the demultiplexing reader relies on: pushed bytes are queued behind the unread ones, the
  next frame is the first frame of the unread bytes, and a source without a complete frame can
  always take more input.
\<close>

locale frame_source =
  fixes push :: "bytes \<Rightarrow> 'd \<Rightarrow> nat \<times> 'd" and "next" :: "'d \<Rightarrow> (framed_error + frame option) \<times> 'd"
    and unread :: "'d \<Rightarrow> bytes" and ok :: "'d \<Rightarrow> bool"
  assumes push_law: "ok d \<Longrightarrow> push i d = (n, d') \<Longrightarrow>
      ok d' \<and> n \<le> length i \<and> unread d' = unread d @ take n i"
    and push_progress: "ok d \<Longrightarrow> split_frame (unread d) = None \<Longrightarrow> i \<noteq> [] \<Longrightarrow> 0 < fst (push i d)"
    and next_law: "ok d \<Longrightarrow>
      (case split_frame (unread d) of
         None \<Rightarrow> \<exists>d'. next d = (Inr None, d') \<and> ok d' \<and> unread d' = unread d
       | Some (Inl e) \<Rightarrow> \<exists>d'. next d = (Inl e, d')
       | Some (Inr (f, r)) \<Rightarrow> \<exists>d'. next d = (Inr (Some f), d') \<and> ok d' \<and> unread d' = r)"
begin

lemma next_none: "ok d \<Longrightarrow> split_frame (unread d) = None \<Longrightarrow>
    \<exists>d'. next d = (Inr None, d') \<and> ok d' \<and> unread d' = unread d"
  using next_law [of d] by simp

lemma next_error: "ok d \<Longrightarrow> split_frame (unread d) = Some (Inl e) \<Longrightarrow> \<exists>d'. next d = (Inl e, d')"
  using next_law [of d] by simp

lemma next_some: "ok d \<Longrightarrow> split_frame (unread d) = Some (Inr (f, r)) \<Longrightarrow>
    \<exists>d'. next d = (Inr (Some f), d') \<and> ok d' \<and> unread d' = r"
  using next_law [of d] by simp

text \<open>Pushing a non-empty input into a drained source shortens what is left to push.\<close>

lemma push_shortens:
  assumes "ok d" and "split_frame (unread d) = None" and "i \<noteq> []" and "push i d = (n, d')"
  shows "length (drop n i) < length i" and "unread d' @ drop n i = unread d @ i" and "ok d'"
  using push_law [OF assms(1,4)] push_progress [OF assms(1-3)] assms(3,4) by auto

end

section \<open>The decoder provides it\<close>

definition fd_unread :: "frame_decoder \<Rightarrow> bytes" where
  "fd_unread d = byte_slice (fd_consumed d) (fd_len d) (fd_buf d)"

definition fd_ok :: "frame_decoder \<Rightarrow> bool" where
  "fd_ok d \<longleftrightarrow> length (fd_buf d) = MUX_MAX_FRAME \<and> fd_consumed d \<le> fd_len d \<and>
     fd_len d \<le> MUX_MAX_FRAME \<and> \<not> fd_poisoned d"

lemma fd_new_ok: "fd_ok frame_decoder_new" "fd_unread frame_decoder_new = []"
  by (simp_all add: fd_ok_def fd_unread_def frame_decoder_new_def byte_slice_def)

lemma drop_consumed_ok:
  assumes "fd_ok d"
  shows "fd_ok (drop_consumed d)" and "fd_unread (drop_consumed d) = fd_unread d"
    and "fd_consumed (drop_consumed d) = 0" and "fd_len (drop_consumed d) = fd_len d - fd_consumed d"
    and "fd_unread d = take (fd_len (drop_consumed d)) (fd_buf (drop_consumed d))"
proof -
  show ok: "fd_ok (drop_consumed d)" and same: "fd_unread (drop_consumed d) = fd_unread d"
    and c: "fd_consumed (drop_consumed d) = 0" and "fd_len (drop_consumed d) = fd_len d - fd_consumed d"
    using assms by (auto simp: fd_ok_def fd_unread_def drop_consumed_def byte_slice_def min_def)
  show "fd_unread d = take (fd_len (drop_consumed d)) (fd_buf (drop_consumed d))"
    using same c by (simp add: fd_unread_def byte_slice_def)
qed

lemma fd_push_law:
  assumes "fd_ok d" and "fd_push i d = (n, d')"
  shows "fd_ok d' \<and> n \<le> length i \<and> fd_unread d' = fd_unread d @ take n i"
proof -
  let ?d = "drop_consumed d"
  note dc = drop_consumed_ok [OF assms(1)]
  from assms have n: "n = min (MUX_MAX_FRAME - fd_len ?d) (length i)"
      and d': "d' = ?d\<lparr>fd_buf := take (fd_len ?d) (fd_buf ?d) @ take n i @ drop (fd_len ?d + n) (fd_buf ?d),
                  fd_len := fd_len ?d + n\<rparr>"
    by (auto simp: fd_push_def fd_ok_def Let_def)
  from dc(1) have len: "length (fd_buf ?d) = MUX_MAX_FRAME" "fd_len ?d \<le> MUX_MAX_FRAME"
      "\<not> fd_poisoned ?d" by (simp_all add: fd_ok_def)
  from n len have "length (take n i) = n" "fd_len ?d + n \<le> MUX_MAX_FRAME" by auto
  with len dc(3) d' have "fd_ok d'" "fd_unread d' = take (fd_len ?d) (fd_buf ?d) @ take n i"
    by (auto simp: fd_ok_def fd_unread_def byte_slice_def)
  with dc(5) n show ?thesis by simp
qed

lemma fd_push_progress:
  assumes "fd_ok d" and "split_frame (fd_unread d) = None" and "i \<noteq> []"
  shows "0 < fst (fd_push i d)"
proof -
  note dc = drop_consumed_ok [OF assms(1)]
  have "length (fd_unread d) = fd_len (drop_consumed d)"
    using dc(1) by (subst dc(5)) (simp add: fd_ok_def)
  with split_frame_None [OF assms(2)] assms show ?thesis
    by (simp add: fd_push_def fd_ok_def Let_def)
qed

lemma next_frame_law:
  assumes "fd_ok d"
  shows "case split_frame (fd_unread d) of
      None \<Rightarrow> \<exists>d'. next_frame d = (Inr None, d') \<and> fd_ok d' \<and> fd_unread d' = fd_unread d
    | Some (Inl e) \<Rightarrow> \<exists>d'. next_frame d = (Inl e, d')
    | Some (Inr (f, r)) \<Rightarrow> \<exists>d'. next_frame d = (Inr (Some f), d') \<and> fd_ok d' \<and> fd_unread d' = r"
proof -
  let ?d = "drop_consumed d" and ?u = "fd_unread d"
  note dc = drop_consumed_ok [OF assms]
  have len: "length ?u = fd_len ?d" using dc(1) by (subst dc(5)) (simp add: fd_ok_def)
  have np: "\<not> fd_poisoned d" using assms by (simp add: fd_ok_def)
  show ?thesis
  proof (cases "fd_len ?d < HEADER_LEN")
    case True
    then show ?thesis using dc np len by (simp add: split_frame_def next_frame_def Let_def)
  next
    case False
    let ?n = "unat (of_le (byte_slice 36 40 ?u) :: u32)"
    obtain x where buf: "fd_buf ?d = ?u @ x" using dc(5) by (metis append_take_drop_id)
    have "byte_slice 36 40 (?u @ x) = byte_slice 36 40 ?u"
      using False len by (intro byte_slice_append_left) (simp add: HEADER_LEN_def)
    then have field: "byte_slice PAYLOAD_LEN_OFFSET (PAYLOAD_LEN_OFFSET + 4) (fd_buf ?d) = byte_slice 36 40 ?u"
      by (simp add: buf PAYLOAD_LEN_OFFSET_def)
    have pre: "take (HEADER_LEN + ?n) (fd_buf ?d) = take (HEADER_LEN + ?n) ?u"
      if "\<not> fd_len ?d < HEADER_LEN + ?n"
      using that len by (simp add: buf)
    have adv: "fd_ok (?d\<lparr>fd_consumed := HEADER_LEN + ?n\<rparr>)"
        "fd_unread (?d\<lparr>fd_consumed := HEADER_LEN + ?n\<rparr>) = drop (HEADER_LEN + ?n) ?u"
      if "\<not> fd_len ?d < HEADER_LEN + ?n"
      using that len dc(1) by (simp_all add: fd_ok_def) (simp add: fd_unread_def byte_slice_def buf)
    show ?thesis
      using False np len field pre adv dc(1,2)
      by (cases "header_parse (take (HEADER_LEN + ?n) ?u)")
        (auto simp: split_frame_def next_frame_def Let_def)
  qed
qed

interpretation fd: frame_source fd_push next_frame fd_unread fd_ok
  by unfold_locales (fact fd_push_law fd_push_progress next_frame_law)+

section \<open>The read loop\<close>

text \<open>
  The loop every reader of a framed transport runs on a chunk it has received: push as much as
  fits, then take frames until none is complete. A consumer \<open>k\<close> handles each frame and says
  whether to go on. The inner loop terminates because every frame it takes shortens the buffer;
  the outer loop has fuel, and \<open>feed_spec\<close> shows that one unit per byte, plus one, is enough.
\<close>

datatype loop_end = Drained | Framing framed_error | Refused

lemma next_frame_shortens:
  "next_frame d = (Inr (Some f), d') \<Longrightarrow> fd_len d' - fd_consumed d' < fd_len d - fd_consumed d"
  by (auto simp: next_frame_def drop_consumed_def Let_def HEADER_LEN_def split: if_splits sum.splits)

function drain ::
  "(frame \<Rightarrow> 's \<Rightarrow> 's \<times> bool) \<Rightarrow> frame_decoder \<Rightarrow> 's \<Rightarrow> frame_decoder \<times> 's \<times> loop_end" where
  "drain k d s =
     (case next_frame d of
        (Inl e, d') \<Rightarrow> (d', s, Framing e)
      | (Inr None, d') \<Rightarrow> (d', s, Drained)
      | (Inr (Some f), d') \<Rightarrow>
          (case k f s of
             (s', True) \<Rightarrow> drain k d' s'
           | (s', False) \<Rightarrow> (d', s', Refused)))"
  by pat_completeness auto

termination
  by (relation "measure (\<lambda>(k, d, s). fd_len d - fd_consumed d)") (auto dest: next_frame_shortens [OF sym])

declare drain.simps [simp del]

fun feed ::
  "nat \<Rightarrow> (frame \<Rightarrow> 's \<Rightarrow> 's \<times> bool) \<Rightarrow> frame_decoder \<Rightarrow> 's \<Rightarrow> bytes \<Rightarrow>
     (frame_decoder \<times> 's \<times> loop_end) option" where
  "feed 0 k d s input = None"
| "feed (Suc fuel) k d s input =
     (if input = [] then Some (d, s, Drained)
      else case fd_push input d of
        (n, d1) \<Rightarrow>
          (case drain k d1 s of
             (d2, s2, Drained) \<Rightarrow> feed fuel k d2 s2 (drop n input)
           | (d2, s2, stop) \<Rightarrow> Some (d2, s2, stop)))"

fun feed_chunks ::
  "(frame \<Rightarrow> 's \<Rightarrow> 's \<times> bool) \<Rightarrow> frame_decoder \<Rightarrow> 's \<Rightarrow> bytes list \<Rightarrow>
     (frame_decoder \<times> 's \<times> loop_end) option" where
  "feed_chunks k d s [] = Some (d, s, Drained)"
| "feed_chunks k d s (c # cs) =
     (case feed (Suc (length c)) k d s c of
        None \<Rightarrow> None
      | Some (d', s', Drained) \<Rightarrow> feed_chunks k d' s' cs
      | Some (d', s', stop) \<Rightarrow> Some (d', s', stop))"

text \<open>The same on the specification: split the whole string, then hand over the frames.\<close>

fun consume :: "(frame \<Rightarrow> 's \<Rightarrow> 's \<times> bool) \<Rightarrow> frame list \<Rightarrow> 's \<Rightarrow> 's \<times> bool" where
  "consume k [] s = (s, True)"
| "consume k (f # fs) s = (case k f s of (s', True) \<Rightarrow> consume k fs s' | (s', False) \<Rightarrow> (s', False))"

definition process :: "(frame \<Rightarrow> 's \<Rightarrow> 's \<times> bool) \<Rightarrow> bytes \<Rightarrow> 's \<Rightarrow> 's \<times> loop_end" where
  "process k bs s =
     (case stream_frames bs of
        (fs, e, r) \<Rightarrow>
          (case consume k fs s of
             (s', False) \<Rightarrow> (s', Refused)
           | (s', True) \<Rightarrow> (s', case e of None \<Rightarrow> Drained | Some e \<Rightarrow> Framing e)))"

definition leftover :: "bytes \<Rightarrow> bytes" where
  "leftover bs = snd (snd (stream_frames bs))"

lemma consume_append:
  "consume k (fs @ gs) s = (case consume k fs s of (s', True) \<Rightarrow> consume k gs s' | r \<Rightarrow> r)"
  by (induction fs arbitrary: s) (auto split: prod.splits bool.splits)

lemma process_append:
  "process k (bs @ cs) s =
     (case process k bs s of
        (s', Drained) \<Rightarrow> process k (leftover bs @ cs) s'
      | (s', stop) \<Rightarrow> (s', stop))"
proof -
  obtain fs e r where bs: "stream_frames bs = (fs, e, r)" by (cases "stream_frames bs")
  obtain gs e' q where rest: "stream_frames (r @ cs) = (gs, e', q)" by (cases "stream_frames (r @ cs)")
  obtain s' go where run: "consume k fs s = (s', go)" by (cases "consume k fs s")
  have app: "stream_frames (bs @ cs) =
      (case e of Some x \<Rightarrow> (fs, Some x, r @ cs) | None \<Rightarrow> (fs @ gs, e', q))"
    by (subst stream_frames_append) (simp add: bs rest split: option.split)
  show ?thesis
    by (cases e; cases go) (simp_all add: process_def leftover_def app bs rest run consume_append)
qed

lemma process_none:
  assumes "split_frame bs = None"
  shows "process k bs s = (s, Drained)" and "leftover bs = bs"
  using assms by (simp_all add: process_def leftover_def stream_frames_None)

lemma leftover_append:
  assumes "process k bs s = (s', Drained)"
  shows "leftover (bs @ cs) = leftover (leftover bs @ cs)"
proof -
  obtain fs e r where bs: "stream_frames bs = (fs, e, r)" by (cases "stream_frames bs")
  with assms have "e = None" by (auto simp: process_def split: prod.splits bool.splits option.splits)
  then have "stream_frames (bs @ cs) = (case stream_frames (r @ cs) of (gs, x, q) \<Rightarrow> (fs @ gs, x, q))"
    by (subst stream_frames_append) (simp add: bs)
  then show ?thesis by (simp add: leftover_def bs split: prod.split)
qed

lemma process_drained: "process k bs s = (s', Drained) \<Longrightarrow> split_frame (leftover bs) = None"
  by (auto simp: process_def leftover_def stream_frames_rest split: prod.splits bool.splits option.splits)

lemma process_some:
  assumes "split_frame bs = Some (Inr (f, r))"
  shows "process k bs s = (case k f s of (s', True) \<Rightarrow> process k r s' | (s', False) \<Rightarrow> (s', Refused))"
    and "leftover bs = leftover r"
  using assms
  by (auto simp: process_def leftover_def stream_frames_Cons split: prod.splits bool.splits)

lemma drain_spec:
  "fd_ok d \<Longrightarrow> \<exists>d'. drain k d s = (d', process k (fd_unread d) s) \<and>
     (snd (process k (fd_unread d) s) = Drained \<longrightarrow> fd_ok d' \<and> fd_unread d' = leftover (fd_unread d))"
proof (induction k d s rule: drain.induct)
  case (1 k d s)
  show ?case
  proof (cases "split_frame (fd_unread d)")
    case None
    with fd.next_none [OF "1.prems"] process_none(1) [OF None, of k s] process_none(2) [OF None] show ?thesis
      by (auto simp: drain.simps [of k d s])
  next
    case (Some x)
    show ?thesis
    proof (cases x)
      case (Inl e)
      with fd.next_error [OF "1.prems"] Some show ?thesis
        by (fastforce simp: drain.simps [of k d s] process_def stream_frames_error)
    next
      case (Inr y)
      then obtain f r where x: "x = Inr (f, r)" by (cases y) simp
      with fd.next_some [OF "1.prems"] Some obtain d' where d': "next_frame d = (Inr (Some f), d')"
          "fd_ok d'" "fd_unread d' = r" by blast
      note ps = process_some(1) [OF Some [unfolded x], of k s] process_some(2) [OF Some [unfolded x]]
      show ?thesis
      proof (cases "k f s")
        case (Pair s' go)
        show ?thesis
        proof (cases go)
          case True
          with "1.IH" [OF d'(1) [symmetric] refl refl Pair [symmetric, unfolded True]] d' Pair ps show ?thesis
            by (simp add: drain.simps [of k d s])
        next
          case False
          with d' Pair ps show ?thesis by (simp add: drain.simps [of k d s])
        qed
      qed
    qed
  qed
qed

lemma feed_spec:
  assumes "fd_ok d" and "split_frame (fd_unread d) = None" and "length i < fuel"
  shows "\<exists>d'. feed fuel k d s i = Some (d', process k (fd_unread d @ i) s) \<and>
    (snd (process k (fd_unread d @ i) s) = Drained \<longrightarrow>
       fd_ok d' \<and> fd_unread d' = leftover (fd_unread d @ i))"
  using assms
proof (induction fuel arbitrary: d s i)
  case 0
  then show ?case by simp
next
  case (Suc fuel)
  show ?case
  proof (cases "i = []")
    case True
    with Suc.prems process_none(1) [OF Suc.prems(2), of k s] process_none(2) [OF Suc.prems(2)] show ?thesis by simp
  next
    case False
    obtain n d1 where push: "fd_push i d = (n, d1)" by fastforce
    note sh = fd.push_shortens [OF Suc.prems(1,2) False push]
    have u1: "fd_unread d1 = fd_unread d @ take n i"
      using fd.push_law [OF Suc.prems(1) push] by blast
    define w where w: "w = fd_unread d @ i"
    have split: "w = fd_unread d1 @ drop n i" by (simp add: u1 w)
    obtain s2 stop where pr: "process k (fd_unread d1) s = (s2, stop)" by fastforce
    from drain_spec [OF sh(3), of k s] pr obtain d2 where d2: "drain k d1 s = (d2, s2, stop)"
        "stop = Drained \<Longrightarrow> fd_ok d2 \<and> fd_unread d2 = leftover (fd_unread d1)" by auto
    note pa = process_append [of k "fd_unread d1" "drop n i" s, folded split, unfolded pr]
    show ?thesis
    proof (cases stop)
      case Drained
      with d2(2) process_drained [of k _ s s2] pr
      have ok: "fd_ok d2" "split_frame (fd_unread d2) = None" "fd_unread d2 = leftover (fd_unread d1)"
        by auto
      have "length (drop n i) < fuel" using sh(1) Suc.prems(3) by linarith
      from Suc.IH [OF ok(1,2) this, of s2] ok(3) obtain d' where
        "feed fuel k d2 s2 (drop n i) = Some (d', process k (leftover (fd_unread d1) @ drop n i) s2)"
        "snd (process k (leftover (fd_unread d1) @ drop n i) s2) = Drained \<longrightarrow>
           fd_ok d' \<and> fd_unread d' = leftover (leftover (fd_unread d1) @ drop n i)" by auto
      moreover have "leftover w = leftover (leftover (fd_unread d1) @ drop n i)"
        unfolding split by (rule leftover_append [OF pr [unfolded Drained]])
      ultimately show ?thesis
        using False push d2(1) Drained pa unfolding w [symmetric] by simp
    qed (use False push d2(1) pa in \<open>simp_all add: w [symmetric]\<close>)
  qed
qed

lemma feed_chunks_spec:
  assumes "fd_ok d" and "split_frame (fd_unread d) = None"
  shows "\<exists>d'. feed_chunks k d s cs = Some (d', process k (fd_unread d @ concat cs) s) \<and>
    (snd (process k (fd_unread d @ concat cs) s) = Drained \<longrightarrow>
       fd_ok d' \<and> fd_unread d' = leftover (fd_unread d @ concat cs))"
  using assms
proof (induction cs arbitrary: d s)
  case Nil
  with process_none(1) [OF Nil.prems(2), of k s] process_none(2) [OF Nil.prems(2)] show ?case by simp
next
  case (Cons c cs)
  define u w where u: "u = fd_unread d @ c" and w: "w = fd_unread d @ concat (c # cs)"
  have uw: "w = u @ concat cs" by (simp add: u w)
  obtain s2 stop where pr: "process k u s = (s2, stop)" by fastforce
  from feed_spec [OF Cons.prems, of c "Suc (length c)" k s] pr obtain d2 where
    d2: "feed (Suc (length c)) k d s c = Some (d2, s2, stop)"
      "stop = Drained \<Longrightarrow> fd_ok d2 \<and> fd_unread d2 = leftover u" by (auto simp: u)
  note pa = process_append [of k u "concat cs" s, folded uw, unfolded pr]
  show ?case
  proof (cases stop)
    case Drained
    with d2(2) process_drained [of k u s s2] pr
    have ok: "fd_ok d2" "split_frame (fd_unread d2) = None" "fd_unread d2 = leftover u" by auto
    have "leftover w = leftover (leftover u @ concat cs)"
      unfolding uw by (rule leftover_append [OF pr [unfolded Drained]])
    with Cons.IH [OF ok(1,2), of s2] ok(3) d2(1) Drained pa show ?thesis
      unfolding w [symmetric] by (auto simp del: feed.simps)
  qed (use d2(1) pa in \<open>simp_all add: w [symmetric] del: feed.simps concat.simps\<close>)
qed

section \<open>What an encoder puts on the stream\<close>

fun encode_frames :: "(header \<times> bytes) list \<Rightarrow> bytes \<Rightarrow> framed_error + bytes" where
  "encode_frames [] out = Inr out"
| "encode_frames ((h, p) # rest) out =
     (case encode_frame h p out of Inl e \<Rightarrow> Inl e | Inr out' \<Rightarrow> encode_frames rest out')"

definition sent_frame :: "header \<Rightarrow> bytes \<Rightarrow> frame" where
  "sent_frame h p =
     (let h' = h\<lparr>h_payload_len := of_nat (length p)\<rparr>
      in \<lparr>fr_header = h', fr_frame = header_encode h' p\<rparr>)"

lemma encode_frame_Inr:
  "encode_frame h p out = Inr out' \<longleftrightarrow> length p \<le> MUX_MAX_PAYLOAD \<and> out' = out @ fr_frame (sent_frame h p)"
  by (auto simp: encode_frame_def sent_frame_def Let_def encode_append_eq)

lemma unat_payload_len: "length p \<le> MUX_MAX_PAYLOAD \<Longrightarrow> unat (of_nat (length p) :: u32) = length p"
  by (simp add: unat_of_nat MUX_MAX_PAYLOAD_def)

lemma split_frame_sent:
  assumes "length p \<le> MUX_MAX_PAYLOAD"
  shows "split_frame (fr_frame (sent_frame h p) @ rest) = Some (Inr (sent_frame h p, rest))"
proof -
  let ?h = "h\<lparr>h_payload_len := of_nat (length p)\<rparr>"
  have len: "unat (h_payload_len ?h) = length p" using assms by (simp add: unat_payload_len)
  have parse: "header_parse (header_encode ?h p) = Inr (?h, p)" by (rule header_parse_encode [OF len])
  show ?thesis
    using assms by (simp add: split_frame_def sent_frame_def Let_def header_encode_len_field
        unat_payload_len parse)
qed

lemma frame_payload_sent [simp]: "frame_payload (sent_frame h p) = p"
  by (simp add: frame_payload_def sent_frame_def Let_def HEADER_LEN_def header_encode_bytes)

lemma encode_frames_stream:
  "encode_frames hps out = Inr out' \<Longrightarrow> \<exists>w. out' = out @ w \<and>
     stream_frames w = (map (\<lambda>(h, p). sent_frame h p) hps, None, [])"
proof (induction hps arbitrary: out)
  case Nil
  have "split_frame [] = None" by (simp add: split_frame_def HEADER_LEN_def)
  with Nil show ?case by (simp add: stream_frames_None)
next
  case (Cons hp hps)
  obtain h p where hp: "hp = (h, p)" by (cases hp)
  from Cons.prems hp obtain out1 where "encode_frame h p out = Inr out1" and rest: "encode_frames hps out1 = Inr out'"
    by (auto split: sum.splits)
  then have len: "length p \<le> MUX_MAX_PAYLOAD" and out1: "out1 = out @ fr_frame (sent_frame h p)"
    by (simp_all add: encode_frame_Inr)
  from Cons.IH [OF rest] obtain w where "out' = out1 @ w"
      "stream_frames w = (map (\<lambda>(h, p). sent_frame h p) hps, None, [])" by blast
  with hp out1 stream_frames_Cons [OF split_frame_sent [OF len, of h w]] show ?case
    by (intro exI [of _ "fr_frame (sent_frame h p) @ w"]) simp
qed

definition collect :: "frame \<Rightarrow> frame list \<Rightarrow> frame list \<times> bool" where
  "collect f fs = (fs @ [f], True)"

lemma consume_collect: "consume collect fs s = (s @ fs, True)"
  by (induction fs arbitrary: s) (simp_all add: collect_def)

section \<open>Properties\<close>

text \<open>
  C24. Chunking does not matter: whatever the sizes in which a byte stream arrives at a fresh
  decoder, and whatever the reader does with the frames, the read loop ends, and in the state and
  for the reason that splitting the whole stream at once gives, errors and refusals included.
\<close>

theorem feed_refines_split:
  "\<exists>d'. feed_chunks k frame_decoder_new s cs = Some (d', process k (concat cs) s)"
proof -
  have "split_frame (fd_unread frame_decoder_new) = None"
    by (simp add: fd_new_ok(2)) (simp add: split_frame_def HEADER_LEN_def)
  from feed_chunks_spec [OF fd_new_ok(1) this, of k s cs] show ?thesis by (auto simp: fd_new_ok(2))
qed

text \<open>
  Round trip over a stream: frames that the encoder accepts, appended to one buffer and cut
  anywhere in transit, come out of the decoder in order, each with the header and the payload it
  was given, the declared length being that of the payload, and no byte is left over.
\<close>

theorem framed_roundtrip:
  assumes "encode_frames hps [] = Inr (concat cs)"
  shows "\<exists>d' fs. feed_chunks collect frame_decoder_new [] cs = Some (d', fs, Drained) \<and>
    map frame_payload fs = map snd hps \<and>
    map fr_header fs = map (\<lambda>(h, p). h\<lparr>h_payload_len := of_nat (length p)\<rparr>) hps \<and>
    fd_ok d' \<and> fd_unread d' = []"
proof -
  let ?fs = "map (\<lambda>(h, p). sent_frame h p) hps"
  from encode_frames_stream [OF assms] have st: "stream_frames (concat cs) = (?fs, None, [])" by simp
  have none: "split_frame (fd_unread frame_decoder_new) = None"
    by (simp add: fd_new_ok(2)) (simp add: split_frame_def HEADER_LEN_def)
  have "process collect (concat cs) [] = (?fs, Drained)" and "leftover (concat cs) = []"
    by (simp_all add: process_def leftover_def st consume_collect)
  with feed_chunks_spec [OF fd_new_ok(1) none, of collect "[]" cs] obtain d' where
    "feed_chunks collect frame_decoder_new [] cs = Some (d', ?fs, Drained)" "fd_ok d'" "fd_unread d' = []"
    by (auto simp: fd_new_ok(2))
  moreover have "map frame_payload ?fs = map snd hps"
    and "map fr_header ?fs = map (\<lambda>(h, p). h\<lparr>h_payload_len := of_nat (length p)\<rparr>) hps"
    by (auto simp: sent_frame_def Let_def split_def frame_payload_sent [unfolded sent_frame_def Let_def])
  ultimately show ?thesis by blast
qed

theorem framed_roundtrip_witness:
  "\<exists>d' fs. feed_chunks collect frame_decoder_new []
      [take 17 (header_encode (control_header\<lparr>h_payload_len := 2\<rparr>) [7, 8]),
       drop 17 (header_encode (control_header\<lparr>h_payload_len := 2\<rparr>) [7, 8])] = Some (d', fs, Drained) \<and>
     map frame_payload fs = [[7, 8]]"
proof -
  let ?w = "header_encode (control_header\<lparr>h_payload_len := 2\<rparr>) [7, 8]"
  have "encode_frames [(control_header, [7, 8])] [] = Inr (concat [take 17 ?w, drop 17 ?w])"
    by (simp add: encode_frame_def MUX_MAX_PAYLOAD_def encode_append_eq)
  from framed_roundtrip [OF this] show ?thesis by auto
qed

text \<open>
  Errors are terminal: once the decoder has reported a framing error it takes no more input
  and reports nothing but the poisoning, for ever.
\<close>

theorem framing_error_is_terminal:
  assumes "next_frame d = (Inl e, d')"
  shows "next_frame d' = (Inl Poisoned, d') \<and> fd_push i d' = (0, d')"
  using assms by (auto simp: next_frame_def fd_push_def Let_def split: if_splits sum.splits)

theorem framing_error_is_terminal_witness:
  "\<exists>d'. next_frame (frame_decoder_new\<lparr>fd_len := 40\<rparr>) = (Inl (HeaderError BadMagic), d') \<and>
     next_frame d' = (Inl Poisoned, d')"
proof -
  have buf: "byte_slice 36 40 (replicate 4136 (0::u8)) = [0, 0, 0, 0]"
      "byte_slice 0 4 (replicate 40 (0::u8)) = [0, 0, 0, 0]"
    by (simp_all add: byte_slice_def numeral_eq_Suc)
  obtain d' where d': "next_frame (frame_decoder_new\<lparr>fd_len := 40\<rparr>) = (Inl (HeaderError BadMagic), d')"
    by (simp add: next_frame_def frame_decoder_new_def drop_consumed_def frame_consts Let_def buf
        header_parse_def MAGIC_def)
  from framing_error_is_terminal [OF this] d' show ?thesis by blast
qed

end
