(* ===== verification/MuxIo.thy ===== *)
theory MuxIo
  imports Framed
begin

text \<open>
  One connection carrying control and media (core/audiohub-net/src/muxio.rs, and the daemon's
  frame writer and reader in core/audiohubd/src/mux.rs and tcpmedia.rs): the bounded inbox and
  outbox of the control stream, the stream handle that cuts written bytes into control frames,
  the writer that puts one frame on the wire, the demultiplexing reader, and the wake-up protocol
  between the producers and the parked writer.
\<close>

section \<open>The two queues\<close>

definition MAX_PENDING_FRAMES :: nat where
  "MAX_PENDING_FRAMES = 64"

definition MAX_INBOX_BYTES :: nat where
  "MAX_INBOX_BYTES = 2 ^ 20"

record inbox =
  ib_buf :: bytes
  ib_closed :: bool
  ib_overflowed :: bool

record mux_io =
  io_inbox :: inbox
  io_outbox :: "bytes list"

definition mux_io_new :: mux_io where
  "mux_io_new =
     \<lparr>io_inbox = \<lparr>ib_buf = [], ib_closed = False, ib_overflowed = False\<rparr>, io_outbox = []\<rparr>"

definition deliver_control :: "bytes \<Rightarrow> mux_io \<Rightarrow> mux_io \<times> bool" where
  "deliver_control bs io =
     (let ib = io_inbox io
      in if ib_closed ib then (io, False)
         else if MAX_INBOX_BYTES < length (ib_buf ib) + length bs
         then (io\<lparr>io_inbox := ib\<lparr>ib_overflowed := True, ib_closed := True\<rparr>\<rparr>, False)
         else (io\<lparr>io_inbox := ib\<lparr>ib_buf := ib_buf ib @ bs\<rparr>\<rparr>, True))"

definition mux_close :: "mux_io \<Rightarrow> mux_io" where
  "mux_close io = io\<lparr>io_inbox := (io_inbox io)\<lparr>ib_closed := True\<rparr>\<rparr>"

definition mux_is_closed :: "mux_io \<Rightarrow> bool" where
  "mux_is_closed io = ib_closed (io_inbox io)"

definition mux_overflowed :: "mux_io \<Rightarrow> bool" where
  "mux_overflowed io = ib_overflowed (io_inbox io)"

definition control_pending :: "mux_io \<Rightarrow> bool" where
  "control_pending io \<longleftrightarrow> io_outbox io \<noteq> []"

definition take_control_frame :: "mux_io \<Rightarrow> bytes option \<times> mux_io" where
  "take_control_frame io =
     (case io_outbox io of
        [] \<Rightarrow> (None, io)
      | f # fs \<Rightarrow> (Some f, io\<lparr>io_outbox := fs\<rparr>))"

definition requeue_control_frame :: "bytes \<Rightarrow> mux_io \<Rightarrow> mux_io" where
  "requeue_control_frame f io = io\<lparr>io_outbox := f # io_outbox io\<rparr>"

section \<open>The control stream handle\<close>

record mux_control_stream =
  mcs_pending :: bytes
  mcs_read_deadline :: "nat64 option"

definition mux_control_stream_new :: mux_control_stream where
  "mux_control_stream_new = \<lparr>mcs_pending = [], mcs_read_deadline = None\<rparr>"

datatype mux_io_error = ReadDeadline | QueueFull | EncodeFailed framed_error

text \<open>
  One pass of the read loop: \<open>Inr (Some bs)\<close> returns bytes (none at end of stream),
  \<open>Inr None\<close> waits on the condition variable for the next change of the inbox.
\<close>

definition mcs_read ::
  "nat \<Rightarrow> nat64 \<Rightarrow> mux_control_stream \<Rightarrow> mux_io \<Rightarrow> (mux_io_error + bytes option) \<times> mux_io" where
  "mcs_read out_len now st io =
     (if out_len = 0 then (Inr (Some []), io)
      else
        let ib = io_inbox io
        in if ib_buf ib \<noteq> []
           then
             let n = min (length (ib_buf ib)) out_len
             in (Inr (Some (take n (ib_buf ib))), io\<lparr>io_inbox := ib\<lparr>ib_buf := drop n (ib_buf ib)\<rparr>\<rparr>)
           else if ib_closed ib then (Inr (Some []), io)
           else case mcs_read_deadline st of
             None \<Rightarrow> (Inr None, io)
           | Some deadline \<Rightarrow> if deadline \<le> now then (Inl ReadDeadline, io) else (Inr None, io))"

definition mcs_write :: "bytes \<Rightarrow> mux_control_stream \<Rightarrow> nat \<times> mux_control_stream" where
  "mcs_write buf st = (length buf, st\<lparr>mcs_pending := mcs_pending st @ buf\<rparr>)"

fun cut_frames :: "bytes list \<Rightarrow> framed_error + bytes list" where
  "cut_frames [] = Inr []"
| "cut_frames (c # cs) =
     (case encode_frame control_header c [] of
        Inl e \<Rightarrow> Inl e
      | Inr f \<Rightarrow> (case cut_frames cs of Inl e \<Rightarrow> Inl e | Inr fs \<Rightarrow> Inr (f # fs)))"

text \<open>The third component: whether the writer is woken.\<close>

definition mcs_flush ::
  "mux_control_stream \<Rightarrow> mux_io \<Rightarrow> (mux_io_error + unit) \<times> mux_control_stream \<times> mux_io \<times> bool" where
  "mcs_flush st io =
     (if mcs_pending st = [] then (Inr (), st, io, False)
      else case cut_frames (chunks MUX_MAX_PAYLOAD (mcs_pending st)) of
        Inl e \<Rightarrow> (Inl (EncodeFailed e), st, io, False)
      | Inr fs \<Rightarrow>
          if MAX_PENDING_FRAMES < length (io_outbox io) + length fs
          then (Inl QueueFull, st, io, False)
          else (Inr (), st\<lparr>mcs_pending := []\<rparr>, io\<lparr>io_outbox := io_outbox io @ fs\<rparr>, True))"

definition set_read_deadline :: "nat64 option \<Rightarrow> mux_control_stream \<Rightarrow> mux_control_stream" where
  "set_read_deadline d st = st\<lparr>mcs_read_deadline := d\<rparr>"

section \<open>Writing one frame\<close>

datatype write_outcome = Sent | Stale | Revoked | Dead

text \<open>What one call of the sink returns; a blocked call also sees the clock and the shutdown flag.\<close>

datatype sink_event =
    WroteBytes nat
  | Interrupted
  | Blocked bool nat64
  | SinkFailed

text \<open>
  The writer loop over the events of the sink, with the answer of the owner of the frame at each
  pass (\<open>True\<close> when the frame has no owner). \<open>None\<close>: the events ran out while it was
  still trying. The second component is what reached the wire.
\<close>

fun write_owned_frame ::
  "bytes \<Rightarrow> nat64 \<Rightarrow> nat64 \<Rightarrow> (bool \<times> sink_event) list \<Rightarrow> nat \<Rightarrow> write_outcome option \<times> bytes" where
  "write_owned_frame buf stale_at hard_at evs off =
     (if length buf \<le> off then (Some Sent, take off buf)
      else case evs of
        [] \<Rightarrow> (None, take off buf)
      | (may, ev) # evs' \<Rightarrow>
          if off = 0 \<and> \<not> may then (Some Revoked, take off buf)
          else case ev of
            WroteBytes n \<Rightarrow>
              if n = 0 then (Some Dead, take off buf)
              else write_owned_frame buf stale_at hard_at evs' (off + n)
          | Interrupted \<Rightarrow> write_owned_frame buf stale_at hard_at evs' off
          | Blocked shutdown now \<Rightarrow>
              if shutdown then (Some Dead, take off buf)
              else if off = 0 then
                (if stale_at \<le> now then (Some Stale, take off buf)
                 else write_owned_frame buf stale_at hard_at evs' off)
              else if hard_at \<le> now then (Some Dead, take off buf)
              else write_owned_frame buf stale_at hard_at evs' off
          | SinkFailed \<Rightarrow> (Some Dead, take off buf))"

declare write_owned_frame.simps [simp del]

definition write_one_frame ::
  "bytes \<Rightarrow> nat64 \<Rightarrow> nat64 \<Rightarrow> sink_event list \<Rightarrow> write_outcome option \<times> bytes" where
  "write_one_frame buf stale_at hard_at evs =
     write_owned_frame buf stale_at hard_at (map (\<lambda>e. (True, e)) evs) 0"

text \<open>
  The control half of the writer, in the two steps between which other threads run: take the
  head of the outbox, then deal with the outcome of writing it.
\<close>

definition finish_control_frame :: "bytes \<Rightarrow> write_outcome \<Rightarrow> mux_io \<Rightarrow> write_outcome \<times> mux_io" where
  "finish_control_frame f outcome io =
     (case outcome of
        Sent \<Rightarrow> (Sent, io)
      | Stale \<Rightarrow> (Dead, requeue_control_frame f io)
      | Revoked \<Rightarrow> (Dead, io)
      | Dead \<Rightarrow> (Dead, io))"

section \<open>The demultiplexing reader\<close>

record mux_rx =
  rx_io :: mux_io
  rx_datagrams :: "bytes list"
  rx_media_frames :: nat
  rx_control_frames :: nat
  rx_keepalives :: nat
  rx_unexpected :: nat

definition mux_rx_new :: mux_rx where
  "mux_rx_new = \<lparr>rx_io = mux_io_new, rx_datagrams = [], rx_media_frames = 0, rx_control_frames = 0,
     rx_keepalives = 0, rx_unexpected = 0\<rparr>"

text \<open>Datagrams handed to the audio engine are recorded in order.\<close>

definition mux_dispatch :: "frame \<Rightarrow> mux_rx \<Rightarrow> mux_rx \<times> bool" where
  "mux_dispatch f rx =
     (case h_kind (fr_header f) of
        Media \<Rightarrow>
          (rx\<lparr>rx_media_frames := rx_media_frames rx + 1,
              rx_datagrams := rx_datagrams rx @ [frame_bytes f]\<rparr>, True)
      | Control \<Rightarrow>
          (case deliver_control (frame_payload f) (rx_io rx) of
             (io', accepted) \<Rightarrow>
               (rx\<lparr>rx_control_frames := rx_control_frames rx + 1, rx_io := io'\<rparr>, accepted))
      | MuxKeepalive \<Rightarrow> (rx\<lparr>rx_keepalives := rx_keepalives rx + 1\<rparr>, True)
      | _ \<Rightarrow> (rx\<lparr>rx_unexpected := rx_unexpected rx + 1\<rparr>, True))"

definition mux_read_chunks :: "mux_rx \<Rightarrow> bytes list \<Rightarrow> (frame_decoder \<times> mux_rx \<times> loop_end) option" where
  "mux_read_chunks rx cs = feed_chunks mux_dispatch frame_decoder_new rx cs"

section \<open>Cutting and sending\<close>

lemma cut_frames_ok:
  "\<forall>c \<in> set cs. length c \<le> MUX_MAX_PAYLOAD \<Longrightarrow>
   cut_frames cs = Inr (map (\<lambda>c. fr_frame (sent_frame control_header c)) cs)"
proof (induction cs)
  case (Cons c cs)
  then have "encode_frame control_header c [] = Inr (fr_frame (sent_frame control_header c))"
    by (simp add: encode_frame_Inr)
  with Cons show ?case by simp
qed simp

definition control_frames :: "bytes \<Rightarrow> bytes list" where
  "control_frames bs = map (\<lambda>c. fr_frame (sent_frame control_header c)) (chunks MUX_MAX_PAYLOAD bs)"

lemma cut_frames_chunks: "cut_frames (chunks MUX_MAX_PAYLOAD bs) = Inr (control_frames bs)"
  unfolding control_frames_def by (rule cut_frames_ok) (use chunks_bound in blast)

lemma mcs_flush_cases:
  "mcs_flush st io =
     (if mcs_pending st = [] then (Inr (), st, io, False)
      else if MAX_PENDING_FRAMES < length (io_outbox io) + length (control_frames (mcs_pending st))
      then (Inl QueueFull, st, io, False)
      else (Inr (), st\<lparr>mcs_pending := []\<rparr>, io\<lparr>io_outbox := io_outbox io @ control_frames (mcs_pending st)\<rparr>, True))"
  by (simp add: mcs_flush_def cut_frames_chunks)

lemma length_control_frames: "length (control_frames bs) = div_ceil (length bs) MUX_MAX_PAYLOAD"
  by (simp add: control_frames_def length_chunks MUX_MAX_PAYLOAD_def)

lemma control_frames_Nil [simp]: "control_frames [] = []"
  by (simp add: control_frames_def)

text \<open>The control bytes inside a list of encoded frames.\<close>

definition frames_payload :: "bytes list \<Rightarrow> bytes" where
  "frames_payload fs = concat (map (drop HEADER_LEN) fs)"

lemma frames_payload_simps [simp]:
  "frames_payload [] = []" "frames_payload (f # fs) = drop HEADER_LEN f @ frames_payload fs"
  "frames_payload (fs @ gs) = frames_payload fs @ frames_payload gs"
  by (simp_all add: frames_payload_def)

lemma frames_payload_control [simp]: "frames_payload (control_frames bs) = bs"
proof -
  have "frames_payload (map (\<lambda>c. fr_frame (sent_frame control_header c)) cs) = concat cs" for cs
    by (induction cs) (simp_all add: frame_payload_sent [unfolded frame_payload_def])
  then show ?thesis by (simp add: control_frames_def concat_chunks MUX_MAX_PAYLOAD_def)
qed

section \<open>The sending side as a machine\<close>

text \<open>
  The state of the sending side, with the frame the writer has taken and the frames it has put on
  the wire; \<open>tx_written\<close> and \<open>tx_wire\<close> are history.
\<close>

record mux_tx =
  tx_io :: mux_io
  tx_stream :: mux_control_stream
  tx_inflight :: "bytes option"
  tx_written :: bytes
  tx_wire :: "bytes list"
  tx_dead :: bool

definition mux_tx_new :: mux_tx where
  "mux_tx_new = \<lparr>tx_io = mux_io_new, tx_stream = mux_control_stream_new, tx_inflight = None,
     tx_written = [], tx_wire = [], tx_dead = False\<rparr>"

datatype mux_event =
    WriteBytes bytes
  | Flush
  | TakeFrame
  | FinishFrame write_outcome
  | Deliver bytes
  | ReadBytes nat nat64
  | Close

fun mux_step :: "mux_event \<Rightarrow> mux_tx \<Rightarrow> mux_tx" where
  "mux_step (WriteBytes bs) s =
     s\<lparr>tx_stream := snd (mcs_write bs (tx_stream s)), tx_written := tx_written s @ bs\<rparr>"
| "mux_step Flush s =
     (case mcs_flush (tx_stream s) (tx_io s) of
        (_, st, io, _) \<Rightarrow> s\<lparr>tx_stream := st, tx_io := io\<rparr>)"
| "mux_step TakeFrame s =
     (if tx_dead s \<or> tx_inflight s \<noteq> None then s
      else case take_control_frame (tx_io s) of (f, io) \<Rightarrow> s\<lparr>tx_inflight := f, tx_io := io\<rparr>)"
| "mux_step (FinishFrame outcome) s =
     (case tx_inflight s of
        None \<Rightarrow> s
      | Some f \<Rightarrow>
          (case finish_control_frame f outcome (tx_io s) of
             (Sent, io) \<Rightarrow> s\<lparr>tx_inflight := None, tx_io := io, tx_wire := tx_wire s @ [f]\<rparr>
           | (_, io) \<Rightarrow> s\<lparr>tx_inflight := None, tx_io := mux_close io, tx_dead := True\<rparr>))"
| "mux_step (Deliver bs) s = s\<lparr>tx_io := fst (deliver_control bs (tx_io s))\<rparr>"
| "mux_step (ReadBytes n now) s = s\<lparr>tx_io := snd (mcs_read n now (tx_stream s) (tx_io s))\<rparr>"
| "mux_step Close s = s\<lparr>tx_io := mux_close (tx_io s)\<rparr>"

text \<open>
  The invariant: the inbox is bounded, the outbox together with the frame in flight holds at most
  one frame more than the limit (a frame that timed out before its first byte goes back to the
  head), and while the link lives the bytes written are exactly those on the wire, in flight,
  queued and not yet flushed, in this order.
\<close>

definition inflight_payload :: "bytes option \<Rightarrow> bytes" where
  "inflight_payload f = (case f of None \<Rightarrow> [] | Some f \<Rightarrow> drop HEADER_LEN f)"

definition mux_inv :: "mux_tx \<Rightarrow> bool" where
  "mux_inv s \<longleftrightarrow>
     length (ib_buf (io_inbox (tx_io s))) \<le> MAX_INBOX_BYTES \<and>
     length (io_outbox (tx_io s)) + (if tx_inflight s = None then 0 else 1) \<le> MAX_PENDING_FRAMES + 1 \<and>
     (tx_dead s \<longrightarrow> tx_inflight s = None) \<and>
     (\<not> tx_dead s \<longrightarrow>
        tx_written s = frames_payload (tx_wire s) @ inflight_payload (tx_inflight s) @
          frames_payload (io_outbox (tx_io s)) @ mcs_pending (tx_stream s)) \<and>
     (\<exists>rest. tx_written s = frames_payload (tx_wire s) @ rest)"

lemma mux_new_inv: "mux_inv mux_tx_new"
  by (simp add: mux_inv_def mux_tx_new_def mux_io_new_def mux_control_stream_new_def inflight_payload_def)

lemma deliver_io [simp]: "io_outbox (fst (deliver_control bs io)) = io_outbox io"
  by (simp add: deliver_control_def Let_def)

lemma deliver_bound:
  "length (ib_buf (io_inbox io)) \<le> MAX_INBOX_BYTES \<Longrightarrow>
   length (ib_buf (io_inbox (fst (deliver_control bs io)))) \<le> MAX_INBOX_BYTES"
  by (simp add: deliver_control_def Let_def)

lemma read_io [simp]: "io_outbox (snd (mcs_read n now st io)) = io_outbox io"
  by (simp add: mcs_read_def Let_def split: option.split)

lemma read_bound:
  "length (ib_buf (io_inbox io)) \<le> MAX_INBOX_BYTES \<Longrightarrow>
   length (ib_buf (io_inbox (snd (mcs_read n now st io)))) \<le> MAX_INBOX_BYTES"
  by (auto simp: mcs_read_def Let_def split: option.split)

lemma mux_step_inv: "mux_inv s \<Longrightarrow> mux_inv (mux_step e s)"
proof (cases e)
  case (WriteBytes bs)
  then show "mux_inv s \<Longrightarrow> ?thesis" by (auto simp: mux_inv_def mcs_write_def)
next
  case Flush
  then show "mux_inv s \<Longrightarrow> ?thesis" by (auto simp: mux_inv_def mcs_flush_cases)
next
  case TakeFrame
  then show "mux_inv s \<Longrightarrow> ?thesis"
    by (auto simp: mux_inv_def take_control_frame_def inflight_payload_def split: list.splits)
next
  case (FinishFrame outcome)
  then show "mux_inv s \<Longrightarrow> ?thesis"
    by (cases outcome) (auto simp: mux_inv_def finish_control_frame_def requeue_control_frame_def
        mux_close_def inflight_payload_def split: option.splits)
next
  case (Deliver bs)
  then show "mux_inv s \<Longrightarrow> ?thesis" by (simp add: mux_inv_def deliver_bound)
next
  case (ReadBytes n now)
  then show "mux_inv s \<Longrightarrow> ?thesis" by (simp add: mux_inv_def read_bound)
next
  case Close
  then show "mux_inv s \<Longrightarrow> ?thesis" by (simp add: mux_inv_def mux_close_def)
qed

text \<open>The history only grows, so the sending side is a monotone machine in the bytes on the wire.\<close>

interpretation mux: monotone_machine mux_step mux_inv "\<lambda>s. length (tx_wire s)"
proof
  show "mux_inv s \<Longrightarrow> mux_inv (mux_step e s)" for e s by (rule mux_step_inv)
  show "length (tx_wire s) \<le> length (tx_wire (mux_step e s))" for e s
    by (cases e) (auto simp: finish_control_frame_def split: option.splits prod.splits write_outcome.splits)
qed

section \<open>The wake-up protocol\<close>

text \<open>
  The writer thread sleeps on one park while two producers feed it. \<open>ps_armed\<close> is the
  \<open>parked\<close> flag of the control half, \<open>ps_token\<close> the thread's pending unpark,
  \<open>ps_wakers\<close> the producers that have queued their frames and not yet run
  \<open>wake\<close>. All accesses are sequentially consistent, so a run is an interleaving of these
  steps.
\<close>

datatype writer_pc = Running | Armed | Parked | Leaving

record park_state =
  ps_queue :: nat
  ps_armed :: bool
  ps_token :: bool
  ps_pc :: writer_pc
  ps_wakers :: nat

definition park_new :: park_state where
  "park_new = \<lparr>ps_queue = 0, ps_armed = False, ps_token = False, ps_pc = Running, ps_wakers = 0\<rparr>"

inductive park_step :: "park_state \<Rightarrow> park_state \<Rightarrow> bool" where
  flush: "0 < n \<Longrightarrow> park_step s (s\<lparr>ps_queue := ps_queue s + n, ps_wakers := ps_wakers s + 1\<rparr>)"
| wake: "0 < ps_wakers s \<Longrightarrow>
    park_step s (s\<lparr>ps_wakers := ps_wakers s - 1, ps_token := (ps_token s \<or> ps_armed s)\<rparr>)"
| take: "ps_pc s = Running \<Longrightarrow> 0 < ps_queue s \<Longrightarrow> park_step s (s\<lparr>ps_queue := ps_queue s - 1\<rparr>)"
| arm: "ps_pc s = Running \<Longrightarrow> park_step s (s\<lparr>ps_armed := True, ps_pc := Armed\<rparr>)"
| park: "ps_pc s = Armed \<Longrightarrow> ps_queue s = 0 \<Longrightarrow> park_step s (s\<lparr>ps_pc := Parked\<rparr>)"
| skip: "ps_pc s = Armed \<Longrightarrow> 0 < ps_queue s \<Longrightarrow> park_step s (s\<lparr>ps_pc := Leaving\<rparr>)"
| unpark: "ps_pc s = Parked \<Longrightarrow> ps_token s \<Longrightarrow> park_step s (s\<lparr>ps_token := False, ps_pc := Leaving\<rparr>)"
| timeout: "ps_pc s = Parked \<Longrightarrow> park_step s (s\<lparr>ps_pc := Leaving\<rparr>)"
| disarm: "ps_pc s = Leaving \<Longrightarrow> park_step s (s\<lparr>ps_armed := False, ps_pc := Running\<rparr>)"

inductive_cases park_stepE: "park_step s t"

definition park_inv :: "park_state \<Rightarrow> bool" where
  "park_inv s \<longleftrightarrow> (ps_armed s \<longleftrightarrow> ps_pc s \<noteq> Running) \<and>
     (ps_pc s = Parked \<and> 0 < ps_queue s \<longrightarrow> ps_token s \<or> 0 < ps_wakers s)"

lemma park_step_inv: "park_step s t \<Longrightarrow> park_inv s \<Longrightarrow> park_inv t"
  by (erule park_stepE) (auto simp: park_inv_def)

lemma park_reach_inv: "park_step\<^sup>*\<^sup>* s t \<Longrightarrow> park_inv s \<Longrightarrow> park_inv t"
  by (induction rule: rtranclp_induct) (auto intro: park_step_inv)

section \<open>What the writer puts on the wire\<close>

lemma write_owned_frame_spec:
  "case write_owned_frame buf stale_at hard_at evs off of
     (Some Sent, w) \<Rightarrow> w = buf
   | (Some Stale, w) \<Rightarrow> off = 0 \<and> w = []
   | (Some Revoked, w) \<Rightarrow> off = 0 \<and> w = []
   | (_, w) \<Rightarrow> \<exists>n. w = take n buf"
proof (induction evs arbitrary: off)
  case Nil
  then show ?case by (auto simp: write_owned_frame.simps)
next
  case (Cons e evs)
  obtain may ev where e: "e = (may, ev)" by (cases e)
  show ?case
  proof (cases ev)
    case (WroteBytes n)
    from Cons [of "off + n"] show ?thesis
      by (subst write_owned_frame.simps)
        (auto simp: e WroteBytes split: prod.splits option.splits write_outcome.splits)
  next
    case (Blocked shutdown now)
    from Cons [of off] show ?thesis
      by (subst write_owned_frame.simps) (auto simp: e Blocked)
  next
    case Interrupted
    from Cons [of off] show ?thesis
      by (subst write_owned_frame.simps) (auto simp: e Interrupted)
  next
    case SinkFailed
    show ?thesis by (subst write_owned_frame.simps) (auto simp: e SinkFailed)
  qed
qed

section \<open>What the reader makes of a stream\<close>

definition control_bytes :: "(header \<times> bytes) list \<Rightarrow> bytes" where
  "control_bytes hps = concat (map snd (filter (\<lambda>(h, p). h_kind h = Control) hps))"

definition media_datagrams :: "(header \<times> bytes) list \<Rightarrow> bytes list" where
  "media_datagrams hps =
     map (\<lambda>(h, p). fr_frame (sent_frame h p)) (filter (\<lambda>(h, p). h_kind h = Media) hps)"

lemma sent_frame_header [simp]: "h_kind (fr_header (sent_frame h p)) = h_kind h"
  by (simp add: sent_frame_def Let_def)

lemma consume_dispatch:
  assumes "\<not> ib_closed (io_inbox (rx_io rx))"
    and "length (ib_buf (io_inbox (rx_io rx))) + length (control_bytes hps) \<le> MAX_INBOX_BYTES"
  shows "\<exists>rx'. consume mux_dispatch (map (\<lambda>(h, p). sent_frame h p) hps) rx = (rx', True) \<and>
    \<not> ib_closed (io_inbox (rx_io rx')) \<and>
    ib_buf (io_inbox (rx_io rx')) = ib_buf (io_inbox (rx_io rx)) @ control_bytes hps \<and>
    rx_datagrams rx' = rx_datagrams rx @ media_datagrams hps"
  using assms
proof (induction hps arbitrary: rx)
  case Nil
  then show ?case by (simp add: control_bytes_def media_datagrams_def)
next
  case (Cons hp hps)
  obtain h p where hp: "hp = (h, p)" by (cases hp)
  obtain rx1 go where step: "mux_dispatch (sent_frame h p) rx = (rx1, go)" by fastforce
  have cb: "control_bytes (hp # hps) = (if h_kind h = Control then p else []) @ control_bytes hps"
    and md: "media_datagrams (hp # hps) =
      (if h_kind h = Media then [fr_frame (sent_frame h p)] else []) @ media_datagrams hps"
    by (simp_all add: hp control_bytes_def media_datagrams_def)
  have rx1: "go" "\<not> ib_closed (io_inbox (rx_io rx1))"
    "ib_buf (io_inbox (rx_io rx1)) =
      ib_buf (io_inbox (rx_io rx)) @ (if h_kind h = Control then p else [])"
    "rx_datagrams rx1 = rx_datagrams rx @ (if h_kind h = Media then [fr_frame (sent_frame h p)] else [])"
    using step Cons.prems cb
    by (auto simp: mux_dispatch_def deliver_control_def Let_def frame_bytes_def
        split: kind.splits if_splits)
  from rx1(3) Cons.prems(2) cb
  have "length (ib_buf (io_inbox (rx_io rx1))) + length (control_bytes hps) \<le> MAX_INBOX_BYTES" by simp
  from Cons.IH [OF rx1(2) this] step rx1 cb md show ?case by (auto simp: hp)
qed

lemma mux_read_stream:
  assumes "encode_frames hps [] = Inr (concat cs)" and "length (control_bytes hps) \<le> MAX_INBOX_BYTES"
  shows "\<exists>d' rx. mux_read_chunks mux_rx_new cs = Some (d', rx, Drained) \<and>
    ib_buf (io_inbox (rx_io rx)) = control_bytes hps \<and> rx_datagrams rx = media_datagrams hps"
proof -
  from encode_frames_stream [OF assms(1)]
  have st: "stream_frames (concat cs) = (map (\<lambda>(h, p). sent_frame h p) hps, None, [])" by simp
  obtain rx where rx: "consume mux_dispatch (map (\<lambda>(h, p). sent_frame h p) hps) mux_rx_new = (rx, True)"
      "ib_buf (io_inbox (rx_io rx)) = control_bytes hps" "rx_datagrams rx = media_datagrams hps"
    using consume_dispatch [of mux_rx_new hps] assms(2) by (auto simp: mux_rx_new_def mux_io_new_def)
  have none: "split_frame (fd_unread frame_decoder_new) = None"
    by (simp add: fd_new_ok(2)) (simp add: split_frame_def HEADER_LEN_def)
  have "process mux_dispatch (concat cs) mux_rx_new = (rx, Drained)"
    by (simp add: process_def st rx(1))
  with feed_chunks_spec [OF fd_new_ok(1) none, of mux_dispatch mux_rx_new cs] rx(2,3) show ?thesis
    by (auto simp: mux_read_chunks_def fd_new_ok(2))
qed

text \<open>Every frame of the sending side is a control frame of the encoder.\<close>

definition is_control_frame :: "bytes \<Rightarrow> bool" where
  "is_control_frame f \<longleftrightarrow> (\<exists>c. length c \<le> MUX_MAX_PAYLOAD \<and> f = fr_frame (sent_frame control_header c))"

definition tx_frames_ok :: "mux_tx \<Rightarrow> bool" where
  "tx_frames_ok s \<longleftrightarrow> (\<forall>f \<in> set (tx_wire s) \<union> set_option (tx_inflight s) \<union> set (io_outbox (tx_io s)).
     is_control_frame f)"

lemma control_frames_ok: "f \<in> set (control_frames bs) \<Longrightarrow> is_control_frame f"
  by (auto simp: control_frames_def is_control_frame_def dest: chunks_bound)

lemma tx_frames_step: "tx_frames_ok s \<Longrightarrow> tx_frames_ok (mux_step e s)"
proof (cases e)
  case Flush
  then show "tx_frames_ok s \<Longrightarrow> ?thesis"
    using control_frames_ok by (auto simp: tx_frames_ok_def mcs_flush_cases)
next
  case (FinishFrame outcome)
  then show "tx_frames_ok s \<Longrightarrow> ?thesis"
    by (cases outcome) (auto simp: tx_frames_ok_def finish_control_frame_def requeue_control_frame_def
        mux_close_def split: option.splits)
qed (auto simp: tx_frames_ok_def take_control_frame_def mux_close_def split: list.splits)

interpretation mux_frames: state_machine mux_step tx_frames_ok
  by unfold_locales (rule tx_frames_step)

lemma mux_new_frames: "tx_frames_ok mux_tx_new"
  by (simp add: tx_frames_ok_def mux_tx_new_def mux_io_new_def)

section \<open>Properties\<close>

text \<open>
  Flushing is all or nothing: a refused flush changes neither the queue nor the pending bytes
  and wakes nobody; a successful one appends frames that carry exactly the pending bytes, keeps
  the queue within its limit and wakes the writer when it queued something.
\<close>

theorem flush_all_or_nothing:
  "case mcs_flush st io of
     (Inl e, st', io', woken) \<Rightarrow> st' = st \<and> io' = io \<and> \<not> woken \<and> e = QueueFull
   | (Inr _, st', io', woken) \<Rightarrow>
       mcs_pending st' = [] \<and> io_inbox io' = io_inbox io \<and>
       (\<exists>fs. io_outbox io' = io_outbox io @ fs \<and> frames_payload fs = mcs_pending st \<and>
          list_all is_control_frame fs \<and> (woken \<longleftrightarrow> fs \<noteq> []) \<and>
          length fs = div_ceil (length (mcs_pending st)) MUX_MAX_PAYLOAD) \<and>
       length (io_outbox io') \<le> max (length (io_outbox io)) MAX_PENDING_FRAMES"
proof -
  have "div_ceil 0 MUX_MAX_PAYLOAD = 0" by (simp add: div_ceil_def MUX_MAX_PAYLOAD_def)
  moreover have "control_frames bs = [] \<longleftrightarrow> bs = []" for bs
    by (metis frames_payload_control frames_payload_simps(1) control_frames_Nil)
  ultimately show ?thesis
    using control_frames_ok [of _ "mcs_pending st"]
    by (auto simp: mcs_flush_cases length_control_frames list_all_iff
        intro!: exI [of _ "control_frames (mcs_pending st)"])
qed

text \<open>
  C4. The sending side, under every interleaving of control writes, flushes, the writer thread,
  the reader thread and a close: the inbox and the outbox stay bounded; what is on the wire is a
  prefix of the bytes written; and while the link lives no byte is lost, repeated or reordered.
\<close>

theorem mux_sender_integrity:
  "let s = fold mux_step es mux_tx_new
   in length (ib_buf (io_inbox (tx_io s))) \<le> MAX_INBOX_BYTES \<and>
      length (io_outbox (tx_io s)) \<le> MAX_PENDING_FRAMES + 1 \<and>
      (\<exists>rest. tx_written s = frames_payload (tx_wire s) @ rest) \<and>
      (tx_dead s \<or>
         tx_written s = frames_payload (tx_wire s) @ inflight_payload (tx_inflight s) @
           frames_payload (io_outbox (tx_io s)) @ mcs_pending (tx_stream s))"
  using mux.run_inv [OF mux_new_inv, of es] by (auto simp: mux_inv_def Let_def split: if_splits)

text \<open>
  Demultiplexing: from the encoding of any mixture of frames, cut anywhere, the reader puts
  exactly the control payloads into the inbox, in order, and hands exactly the media frames, byte
  for byte, to the audio engine.
\<close>

theorem mux_demultiplexes:
  assumes "encode_frames hps [] = Inr (concat cs)" and "length (control_bytes hps) \<le> MAX_INBOX_BYTES"
  shows "\<exists>d' rx. mux_read_chunks mux_rx_new cs = Some (d', rx, Drained) \<and>
    ib_buf (io_inbox (rx_io rx)) = control_bytes hps \<and> rx_datagrams rx = media_datagrams hps"
  by (rule mux_read_stream [OF assms])

theorem mux_demultiplexes_witness:
  "\<exists>d' rx. mux_read_chunks mux_rx_new
      [take 3 (header_encode (control_header\<lparr>h_payload_len := 2\<rparr>) [7, 8]),
       drop 3 (header_encode (control_header\<lparr>h_payload_len := 2\<rparr>) [7, 8])] = Some (d', rx, Drained) \<and>
     ib_buf (io_inbox (rx_io rx)) = [7, 8]"
proof -
  let ?w = "header_encode (control_header\<lparr>h_payload_len := 2\<rparr>) [7, 8]"
  have e: "encode_frames [(control_header, [7, 8])] [] = Inr (concat [take 3 ?w, drop 3 ?w])"
    by (simp add: encode_frame_def MUX_MAX_PAYLOAD_def encode_append_eq)
  have "control_bytes [(control_header, [7, 8])] = [7, 8]"
    by (simp add: control_bytes_def control_header_def)
  with mux_demultiplexes [OF e] show ?thesis by (simp add: MAX_INBOX_BYTES_def) blast
qed

text \<open>
  A frame is never torn: the writer reports a frame as stale or revoked only when none of it
  reached the wire, as sent only when all of it did, and otherwise the link is dead.
\<close>

theorem frame_write_is_atomic:
  "case write_owned_frame buf stale_at hard_at evs 0 of
     (Some Sent, w) \<Rightarrow> w = buf
   | (Some Stale, w) \<Rightarrow> w = []
   | (Some Revoked, w) \<Rightarrow> w = []
   | (_, w) \<Rightarrow> \<exists>n. w = take n buf"
  using write_owned_frame_spec [where off = 0 and evs = evs and buf = buf and stale_at = stale_at and hard_at = hard_at]
  by (auto split: prod.splits option.splits write_outcome.splits)

text \<open>
  C25. No wake-up is lost: whenever the writer sleeps although frames are queued, either a producer
  is still about to wake it, or its unpark token is already set and the park returns at once.
\<close>

theorem no_lost_wakeup:
  assumes "park_step\<^sup>*\<^sup>* park_new s" and "ps_pc s = Parked" and "0 < ps_queue s" and "ps_wakers s = 0"
  shows "ps_token s"
proof -
  have "park_inv park_new" by (simp add: park_inv_def park_new_def)
  from park_reach_inv [OF assms(1) this] assms(2-4) show ?thesis by (simp add: park_inv_def)
qed

theorem no_lost_wakeup_witness:
  "ps_token \<lparr>ps_queue = 1, ps_armed = True, ps_token = True, ps_pc = Parked, ps_wakers = 0\<rparr>"
proof (rule no_lost_wakeup)
  let ?s = "\<lambda>q t pc w. \<lparr>ps_queue = q, ps_armed = True, ps_token = t, ps_pc = pc, ps_wakers = w\<rparr>"
  have "park_step park_new (?s 0 False Armed 0)"
    using park_step.arm [of park_new] by (simp add: park_new_def)
  moreover have "park_step (?s 0 False Armed 0) (?s 0 False Parked 0)"
    using park_step.park [of "?s 0 False Armed 0"] by simp
  moreover have "park_step (?s 0 False Parked 0) (?s 1 False Parked 1)"
    using park_step.flush [of 1 "?s 0 False Parked 0"] by simp
  moreover have "park_step (?s 1 False Parked 1) (?s 1 True Parked 0)"
    using park_step.wake [of "?s 1 False Parked 1"] by simp
  ultimately show "park_step\<^sup>*\<^sup>* park_new (?s 1 True Parked 0)"
    by (meson converse_rtranclp_into_rtranclp rtranclp.rtrancl_refl)
qed simp_all

end
