(* ===== verification/OpMode.thy ===== *)
theory OpMode
  imports Interfaces OrderedMap
begin

text \<open>
  The three exclusive operating modes (core/audiohub-net/src/mode.rs), the gates that decide what
  may be opened in each and what survives a switch (core/audiohubd/src/haldev.rs), and the session
  table they guard, with its two-phase admission by stream claims (core/audiohubd/src/conn.rs).
  Opening a session is not atomic: a request passes its gate, later claims a stream id, and later
  publishes its entry, and a mode switch may run between these steps; the machine at the end of
  the theory has them as separate events.
\<close>

section \<open>Modes\<close>

datatype mode = Share | ModeA | ModeB

definition MODE_SHARE :: string where
  "MODE_SHARE = ''share''"

definition MODE_A :: string where
  "MODE_A = ''a''"

definition MODE_B :: string where
  "MODE_B = ''b''"

fun mode_as_str :: "mode \<Rightarrow> string" where
  "mode_as_str Share = MODE_SHARE"
| "mode_as_str ModeA = MODE_A"
| "mode_as_str ModeB = MODE_B"

definition mode_parse :: "string \<Rightarrow> mode option" where
  "mode_parse s =
     (if s = MODE_SHARE then Some Share
      else if s = MODE_A then Some ModeA
      else if s = MODE_B then Some ModeB
      else None)"

fun serves_peers :: "mode \<Rightarrow> bool" where
  "serves_peers Share \<longleftrightarrow> True"
| "serves_peers ModeA \<longleftrightarrow> False"
| "serves_peers ModeB \<longleftrightarrow> False"

fun consumes_peers :: "mode \<Rightarrow> bool" where
  "consumes_peers Share \<longleftrightarrow> False"
| "consumes_peers ModeA \<longleftrightarrow> True"
| "consumes_peers ModeB \<longleftrightarrow> True"

interpretation mode_wire: wire_enum mode_as_str mode_parse
proof
  show "mode_parse (mode_as_str m) = Some m" for m
    by (cases m) (simp_all add: mode_parse_def MODE_SHARE_def MODE_A_def MODE_B_def)
  show "mode_parse s = Some m \<Longrightarrow> mode_as_str m = s" for s m
    by (auto simp: mode_parse_def split: if_splits)
qed

section \<open>Gates\<close>

datatype session_origin = User | Hal u8 | Peer

fun origin_label :: "session_origin \<Rightarrow> string" where
  "origin_label User = ''user''"
| "origin_label (Hal _) = ''hal''"
| "origin_label Peer = ''peer''"

fun origin_slot :: "session_origin \<Rightarrow> u8 option" where
  "origin_slot (Hal slot) = Some slot"
| "origin_slot User = None"
| "origin_slot Peer = None"

text \<open>The mode in force: mode B needs the driver bridge and falls back to mode A.\<close>

fun effective_mode :: "mode \<Rightarrow> bool \<Rightarrow> mode" where
  "effective_mode Share hal = Share"
| "effective_mode ModeA hal = ModeA"
| "effective_mode ModeB hal = (if hal then ModeB else ModeA)"

text \<open>The refusal messages, one constructor per text.\<close>

datatype refusal = ShareDoesNotUse | ModeBUsesDevices | CannotServe mode

fun refuse_using_others :: "mode \<Rightarrow> bool \<Rightarrow> refusal option" where
  "refuse_using_others m override_mode =
     (if override_mode then None
      else case m of
        ModeA \<Rightarrow> None
      | Share \<Rightarrow> Some ShareDoesNotUse
      | ModeB \<Rightarrow> Some ModeBUsesDevices)"

fun mode_permits_origin :: "mode \<Rightarrow> session_origin \<Rightarrow> bool" where
  "mode_permits_origin m Peer = serves_peers m"
| "mode_permits_origin m User = (m = ModeA)"
| "mode_permits_origin m (Hal _) = (m = ModeB)"

fun no_device_reason :: "mode \<Rightarrow> string option" where
  "no_device_reason ModeB = None"
| "no_device_reason Share = Some ''mode_share''"
| "no_device_reason ModeA = Some ''mode_a''"

definition refuse_being_used :: "mode \<Rightarrow> refusal option" where
  "refuse_being_used m = (if serves_peers m then None else Some (CannotServe m))"

text \<open>Parameters of a session; floating-point fields are their 32-bit patterns.\<close>

record open_session_params =
  osp_peer :: string
  osp_kind :: string
  osp_source :: "string option"
  osp_freq :: "u32 option"
  osp_backend :: "string option"
  osp_monitor :: bool
  osp_verify_freq :: "u32 option"
  osp_simulate_loss_pct :: "u32 option"
  osp_volume_sync :: bool
  osp_bridge :: "string option"
  osp_hal :: bool
  osp_override_mode :: bool

section \<open>Stream admission\<close>

definition MAX_STREAMS_PER_CONN :: nat where
  "MAX_STREAMS_PER_CONN = 16"

definition MAX_STREAMS_TOTAL :: nat where
  "MAX_STREAMS_TOTAL = 32"

text \<open>A claim has an identity: \<open>sc_serial\<close> stands for the address of its allocation.\<close>

record stream_claim =
  sc_connection_id :: nat
  sc_serial :: nat

datatype admission_error =
    StreamIdInUse nat
  | DaemonLimit
  | ConnectionLimit
  | ConnectionNotCurrent
  | ReservationNotOwned
  | ConnectionChanged
  | AlreadyCommitted nat
  | Refused refusal
  | AirplayNotASource
  | HalNeedsModeB

definition reserve_pending_stream ::
  "stream_claim btree \<Rightarrow> nat \<Rightarrow> nat \<Rightarrow> nat \<Rightarrow> nat \<Rightarrow> nat \<Rightarrow> bool \<Rightarrow>
     admission_error + (stream_claim \<times> stream_claim btree)" where
  "reserve_pending_stream claims serial stream_id connection_id active_total active_mine already_used =
     (if already_used \<or> bt_lookup claims stream_id \<noteq> None then Inl (StreamIdInUse stream_id)
      else if MAX_STREAMS_TOTAL \<le> active_total + length claims then Inl DaemonLimit
      else
        let pending_mine = length (filter (\<lambda>e. sc_connection_id (snd e) = connection_id) claims)
        in if MAX_STREAMS_PER_CONN \<le> active_mine + pending_mine then Inl ConnectionLimit
           else
             let claim = \<lparr>sc_connection_id = connection_id, sc_serial = serial\<rparr>
             in Inr (claim, bt_insert stream_id claim claims))"

definition release_pending_stream :: "stream_claim btree \<Rightarrow> nat \<Rightarrow> stream_claim \<Rightarrow> stream_claim btree" where
  "release_pending_stream claims stream_id claim =
     (if bt_lookup claims stream_id = Some claim then bt_remove stream_id claims else claims)"

record session_entry =
  se_id :: nat
  se_conn :: nat
  se_origin :: session_origin
  se_forced :: bool
  se_straddled :: bool

record stream_reservation =
  sr_conn :: nat
  sr_stream_id :: nat
  sr_claim :: stream_claim

text \<open>
  The daemon's state as far as admission reads it. \<open>ds_conns\<close> are the connections that
  are alive and current for their peer; \<open>ds_serial\<close> is the next allocation.
\<close>

record daemon_state =
  ds_mode :: mode
  ds_hal :: bool
  ds_conns :: "nat list"
  ds_sessions :: "session_entry btree"
  ds_claims :: "stream_claim btree"
  ds_serial :: nat

definition ds_effective :: "daemon_state \<Rightarrow> mode" where
  "ds_effective s = effective_mode (ds_mode s) (ds_hal s)"

definition claim_stream_id ::
  "nat \<Rightarrow> nat \<Rightarrow> bool \<Rightarrow> daemon_state \<Rightarrow> (admission_error + stream_reservation) \<times> daemon_state" where
  "claim_stream_id conn stream_id in_rx_table s =
     (if conn \<notin> set (ds_conns s) then (Inl ConnectionNotCurrent, s)
      else
        let used = bt_lookup (ds_sessions s) stream_id \<noteq> None \<or> in_rx_table;
            mine = length (filter (\<lambda>e. se_conn (snd e) = conn) (ds_sessions s))
        in case reserve_pending_stream (ds_claims s) (ds_serial s) stream_id conn
                  (length (ds_sessions s)) mine used of
             Inl e \<Rightarrow> (Inl e, s)
           | Inr (claim, claims') \<Rightarrow>
               (Inr \<lparr>sr_conn = conn, sr_stream_id = stream_id, sr_claim = claim\<rparr>,
                s\<lparr>ds_claims := claims', ds_serial := ds_serial s + 1\<rparr>))"

definition publish ::
  "stream_reservation \<Rightarrow> session_entry \<Rightarrow> daemon_state \<Rightarrow> (admission_error + unit) \<times> daemon_state" where
  "publish r entry s =
     (if se_id entry \<noteq> sr_stream_id r \<or> se_conn entry \<noteq> sr_conn r \<or>
         bt_lookup (ds_claims s) (sr_stream_id r) \<noteq> Some (sr_claim r)
      then (Inl ReservationNotOwned, s)
      else if sr_conn r \<notin> set (ds_conns s) then (Inl ConnectionChanged, s)
      else if bt_lookup (ds_sessions s) (sr_stream_id r) \<noteq> None
      then (Inl (AlreadyCommitted (sr_stream_id r)), s)
      else (Inr (),
            s\<lparr>ds_sessions := bt_insert (sr_stream_id r) entry (ds_sessions s),
              ds_claims := release_pending_stream (ds_claims s) (sr_stream_id r) (sr_claim r)\<rparr>))"

definition drop_reservation :: "stream_reservation \<Rightarrow> daemon_state \<Rightarrow> daemon_state" where
  "drop_reservation r s =
     s\<lparr>ds_claims := release_pending_stream (ds_claims s) (sr_stream_id r) (sr_claim r)\<rparr>"

definition teardown_stream :: "nat \<Rightarrow> daemon_state \<Rightarrow> daemon_state" where
  "teardown_stream stream_id s = s\<lparr>ds_sessions := bt_remove stream_id (ds_sessions s)\<rparr>"

definition doomed_sessions :: "mode \<Rightarrow> daemon_state \<Rightarrow> nat list" where
  "doomed_sessions m s =
     map (\<lambda>e. se_id (snd e)) (filter (\<lambda>e. \<not> mode_permits_origin m (se_origin (snd e))) (ds_sessions s))"

definition announce_mode :: "mode \<Rightarrow> daemon_state \<Rightarrow> daemon_state" where
  "announce_mode m s = fold teardown_stream (doomed_sessions m s) s"

definition settings_set_mode :: "string \<Rightarrow> daemon_state \<Rightarrow> bool \<times> daemon_state" where
  "settings_set_mode spelling s =
     (case mode_parse spelling of
        None \<Rightarrow> (False, s)
      | Some m \<Rightarrow>
          let s' = s\<lparr>ds_mode := m\<rparr>
          in (True, if m \<noteq> ds_mode s then announce_mode (ds_effective s') s' else s'))"

text \<open>The three ways to ask for a session, each with the gate in front of it.\<close>

datatype open_request =
    UserOpen open_session_params
  | PeerOpen
  | HalOpen u8

fun request_origin :: "open_request \<Rightarrow> session_origin" where
  "request_origin (UserOpen p) = User"
| "request_origin PeerOpen = Peer"
| "request_origin (HalOpen slot) = Hal slot"

fun request_forced :: "open_request \<Rightarrow> bool" where
  "request_forced (UserOpen p) = osp_override_mode p"
| "request_forced PeerOpen = False"
| "request_forced (HalOpen slot) = False"

fun open_gate :: "mode \<Rightarrow> open_request \<Rightarrow> admission_error option" where
  "open_gate m (UserOpen p) =
     (if osp_source p = Some ''airplay'' then Some AirplayNotASource
      else map_option Refused (refuse_using_others m (osp_override_mode p)))"
| "open_gate m PeerOpen = map_option Refused (refuse_being_used m)"
| "open_gate m (HalOpen slot) = (if m = ModeB then None else Some HalNeedsModeB)"

lemma open_gate_permits:
  "open_gate m r = None \<Longrightarrow> request_forced r \<or> mode_permits_origin m (request_origin r)"
  by (cases r; cases m) (auto simp: refuse_being_used_def split: if_splits)

lemma open_gate_complete:
  "mode_permits_origin m (request_origin r) \<Longrightarrow>
   (\<And>p. r = UserOpen p \<Longrightarrow> osp_source p \<noteq> Some ''airplay'') \<Longrightarrow> open_gate m r = None"
  by (cases r; cases m) (auto simp: refuse_being_used_def)

section \<open>The machine of concurrent openers\<close>

text \<open>
  An opener has passed its gate; it may hold a reservation. \<open>op_straddled\<close> is history: a
  mode switch has happened since the gate.
\<close>

record opener =
  op_conn :: nat
  op_origin :: session_origin
  op_forced :: bool
  op_straddled :: bool
  op_reservation :: "stream_reservation option"

record session_machine =
  sm_state :: daemon_state
  sm_openers :: "opener list"

datatype session_event =
    Gate open_request nat
  | Claim nat nat bool
  | Commit nat
  | Abort nat
  | CloseSession nat
  | ConnUp nat
  | ConnDown nat
  | SetMode string

definition remove_nth :: "nat \<Rightarrow> 'a list \<Rightarrow> 'a list" where
  "remove_nth i xs = take i xs @ drop (Suc i) xs"

definition drop_held :: "opener \<Rightarrow> daemon_state \<Rightarrow> daemon_state" where
  "drop_held oper s = (case op_reservation oper of None \<Rightarrow> s | Some r \<Rightarrow> drop_reservation r s)"

definition opener_entry :: "opener \<Rightarrow> stream_reservation \<Rightarrow> session_entry" where
  "opener_entry oper r = \<lparr>se_id = sr_stream_id r, se_conn = sr_conn r, se_origin = op_origin oper,
     se_forced = op_forced oper, se_straddled = op_straddled oper\<rparr>"

fun session_step :: "session_event \<Rightarrow> session_machine \<Rightarrow> session_machine" where
  "session_step (Gate req conn) m =
     (case open_gate (ds_effective (sm_state m)) req of
        Some _ \<Rightarrow> m
      | None \<Rightarrow> m\<lparr>sm_openers := sm_openers m @ [\<lparr>op_conn = conn, op_origin = request_origin req,
          op_forced = request_forced req, op_straddled = False, op_reservation = None\<rparr>]\<rparr>)"
| "session_step (Claim i stream_id in_rx_table) m =
     (if length (sm_openers m) \<le> i then m
      else
        let oper = sm_openers m ! i
        in if op_reservation oper \<noteq> None then m
           else case claim_stream_id (op_conn oper) stream_id in_rx_table (sm_state m) of
             (Inl _, s) \<Rightarrow> m\<lparr>sm_state := s, sm_openers := remove_nth i (sm_openers m)\<rparr>
           | (Inr r, s) \<Rightarrow>
               m\<lparr>sm_state := s, sm_openers := (sm_openers m)[i := oper\<lparr>op_reservation := Some r\<rparr>]\<rparr>)"
| "session_step (Commit i) m =
     (if length (sm_openers m) \<le> i then m
      else
        let oper = sm_openers m ! i
        in case op_reservation oper of
             None \<Rightarrow> m
           | Some r \<Rightarrow>
               m\<lparr>sm_state := drop_held oper (snd (publish r (opener_entry oper r) (sm_state m))),
                 sm_openers := remove_nth i (sm_openers m)\<rparr>)"
| "session_step (Abort i) m =
     (if length (sm_openers m) \<le> i then m
      else m\<lparr>sm_state := drop_held (sm_openers m ! i) (sm_state m),
             sm_openers := remove_nth i (sm_openers m)\<rparr>)"
| "session_step (CloseSession stream_id) m = m\<lparr>sm_state := teardown_stream stream_id (sm_state m)\<rparr>"
| "session_step (ConnUp c) m =
     m\<lparr>sm_state := (sm_state m)\<lparr>ds_conns := c # ds_conns (sm_state m)\<rparr>\<rparr>"
| "session_step (ConnDown c) m =
     (let s = sm_state m
      in m\<lparr>sm_state := s\<lparr>ds_conns := filter (\<lambda>d. d \<noteq> c) (ds_conns s),
                         ds_sessions := filter (\<lambda>e. se_conn (snd e) \<noteq> c) (ds_sessions s)\<rparr>\<rparr>)"
| "session_step (SetMode spelling) m =
     (let s' = snd (settings_set_mode spelling (sm_state m))
      in m\<lparr>sm_state := s',
           sm_openers := (if ds_mode s' \<noteq> ds_mode (sm_state m)
                          then map (\<lambda>oper. oper\<lparr>op_straddled := True\<rparr>) (sm_openers m)
                          else sm_openers m)\<rparr>)"

definition session_machine_new :: "mode \<Rightarrow> bool \<Rightarrow> session_machine" where
  "session_machine_new m hal =
     \<lparr>sm_state = \<lparr>ds_mode = m, ds_hal = hal, ds_conns = [], ds_sessions = [], ds_claims = [], ds_serial = 0\<rparr>,
      sm_openers = []\<rparr>"

section \<open>Admission never exceeds its limits\<close>

definition conn_load :: "nat \<Rightarrow> daemon_state \<Rightarrow> nat" where
  "conn_load c s = length (filter (\<lambda>e. se_conn (snd e) = c) (ds_sessions s)) +
     length (filter (\<lambda>e. sc_connection_id (snd e) = c) (ds_claims s))"

definition ds_inv :: "daemon_state \<Rightarrow> bool" where
  "ds_inv s \<longleftrightarrow>
     bt_ok (ds_sessions s) \<and> bt_ok (ds_claims s) \<and>
     list_all (\<lambda>e. se_id (snd e) = fst e) (ds_sessions s) \<and>
     length (ds_sessions s) + length (ds_claims s) \<le> MAX_STREAMS_TOTAL \<and>
     (\<forall>c. conn_load c s \<le> MAX_STREAMS_PER_CONN)"

lemma bt_insert_filter_length:
  "bt_lookup xs k = None \<Longrightarrow>
   length (filter P (bt_insert k v xs)) = length (filter P xs) + (if P (k, v) then 1 else 0)"
  by (induction k v xs rule: bt_insert.induct) (auto simp: bt_lookup_def split: if_splits)

lemma bt_insert_length: "bt_lookup xs k = None \<Longrightarrow> length (bt_insert k v xs) = Suc (length xs)"
  by (simp add: bt_lookup_None)

lemma bt_remove_length:
  "bt_ok xs \<Longrightarrow> bt_lookup xs k = Some v \<Longrightarrow>
   Suc (length (filter P (bt_remove k xs))) = length (filter P xs) + (if P (k, v) then 0 else 1)"
proof (induction xs)
  case (Cons e xs)
  show ?case
  proof (cases "fst e = k")
    case True
    with Cons.prems have "bt_remove k xs = xs"
      by (auto simp: bt_remove_def filter_id_conv set_bt_keys)
    with True Cons.prems show ?thesis by (cases e) (auto simp: bt_remove_def bt_lookup_def)
  next
    case False
    with Cons show ?thesis by (cases e) (auto simp: bt_remove_def bt_lookup_def)
  qed
qed (simp add: bt_lookup_def)

lemma bt_remove_length_all:
  "bt_ok xs \<Longrightarrow> bt_lookup xs k = Some v \<Longrightarrow> Suc (length (bt_remove k xs)) = length xs"
  using bt_remove_length [of xs k v "\<lambda>_. True"] by simp

lemma filter_filter_le: "length (filter P (filter Q xs)) \<le> length (filter P xs)"
  by (induction xs) auto

lemma release_load:
  "length (release_pending_stream claims k claim) \<le> length claims"
  "length (filter P (release_pending_stream claims k claim)) \<le> length (filter P claims)"
  unfolding release_pending_stream_def bt_remove_def
  using filter_filter_le [of P _ claims] by (simp_all del: filter_filter)

lemma claim_stream_id_inv: "ds_inv s \<Longrightarrow> ds_inv (snd (claim_stream_id c i rx s))"
  by (auto simp: claim_stream_id_def reserve_pending_stream_def Let_def ds_inv_def conn_load_def
      bt_insert_length bt_insert_filter_length not_le split: if_splits)

lemma drop_reservation_inv: "ds_inv s \<Longrightarrow> ds_inv (drop_reservation r s)"
proof -
  assume inv: "ds_inv s"
  let ?c = "release_pending_stream (ds_claims s) (sr_stream_id r) (sr_claim r)"
  have "length ?c \<le> length (ds_claims s)" by (rule release_load)
  moreover have "length (filter (\<lambda>e. sc_connection_id (snd e) = c) ?c) \<le>
      length (filter (\<lambda>e. sc_connection_id (snd e) = c) (ds_claims s))" for c
    by (rule release_load)
  moreover have "bt_ok ?c" using inv by (simp add: release_pending_stream_def ds_inv_def)
  ultimately have "conn_load c (drop_reservation r s) \<le> conn_load c s" for c
    by (simp add: conn_load_def drop_reservation_def)
  then have "conn_load c (drop_reservation r s) \<le> MAX_STREAMS_PER_CONN" for c
    using inv by (meson ds_inv_def order_trans)
  with inv \<open>length ?c \<le> length (ds_claims s)\<close> \<open>bt_ok ?c\<close> show ?thesis
    by (simp add: ds_inv_def) (simp add: drop_reservation_def)
qed

lemma publish_inv:
  assumes "ds_inv s" and "sc_connection_id (sr_claim r) = sr_conn r"
  shows "ds_inv (snd (publish r entry s))"
proof (cases "fst (publish r entry s)")
  case (Inl e)
  then show ?thesis using assms by (auto simp: publish_def split: if_splits)
next
  case (Inr u)
  let ?i = "sr_stream_id r"
  from Inr have f: "se_id entry = ?i" "se_conn entry = sr_conn r"
      "bt_lookup (ds_claims s) ?i = Some (sr_claim r)" "bt_lookup (ds_sessions s) ?i = None"
    and s': "snd (publish r entry s) = s\<lparr>ds_sessions := bt_insert ?i entry (ds_sessions s),
        ds_claims := bt_remove ?i (ds_claims s)\<rparr>"
    by (auto simp: publish_def release_pending_stream_def split: if_splits)
  from assms(1) have ok: "bt_ok (ds_claims s)" by (simp add: ds_inv_def)
  have load: "conn_load c (snd (publish r entry s)) = conn_load c s" for c
    using bt_remove_length [OF ok f(3), of "\<lambda>e. sc_connection_id (snd e) = c"] f assms(2)
    by (simp add: s' conn_load_def bt_insert_filter_length split: if_splits)
  have "length (bt_insert ?i entry (ds_sessions s)) + length (bt_remove ?i (ds_claims s)) =
      length (ds_sessions s) + length (ds_claims s)"
    using bt_remove_length_all [OF ok f(3)] f(4) by (simp add: bt_insert_length)
  moreover have "list_all (\<lambda>e. se_id (snd e) = fst e) (bt_insert ?i entry (ds_sessions s))"
    using assms(1) f(1) bt_set_insert [of ?i entry "ds_sessions s"] by (auto simp: ds_inv_def list_all_iff)
  ultimately show ?thesis
    using assms(1) load by (simp add: ds_inv_def) (simp add: s' ds_inv_def)
qed

section \<open>Every session is accounted for\<close>

lemma fold_teardown:
  "fold teardown_stream ks s = s\<lparr>ds_sessions := filter (\<lambda>e. fst e \<notin> set ks) (ds_sessions s)\<rparr>"
proof (induction ks arbitrary: s)
  case (Cons k ks)
  have "filter (\<lambda>e. fst e \<notin> set ks) (bt_remove k xs) = filter (\<lambda>e. fst e \<notin> set (k # ks)) xs"
    for xs :: "session_entry btree"
    by (auto simp: bt_remove_def intro!: filter_cong)
  with Cons show ?case by (simp add: teardown_stream_def)
qed simp

text \<open>A mode announcement keeps exactly the sessions the mode permits.\<close>

lemma announce_mode_eq:
  assumes "ds_inv s"
  shows "announce_mode m s = s\<lparr>ds_sessions :=
    filter (\<lambda>e. mode_permits_origin m (se_origin (snd e))) (ds_sessions s)\<rparr>"
proof -
  let ?xs = "ds_sessions s"
  from assms have ok: "distinct (bt_keys ?xs)" and ids: "\<forall>e \<in> set ?xs. se_id (snd e) = fst e"
    by (simp_all add: ds_inv_def bt_ok_distinct list_all_iff)
  have "fst e \<in> set (doomed_sessions m s) \<longleftrightarrow> \<not> mode_permits_origin m (se_origin (snd e))"
    if "e \<in> set ?xs" for e
  proof -
    have "f = e" if "f \<in> set ?xs" "fst f = fst e" for f
      using that \<open>e \<in> set ?xs\<close> ok unfolding bt_keys_def by (metis distinct_map inj_onD)
    with that ids show ?thesis unfolding doomed_sessions_def by force
  qed
  then have "filter (\<lambda>e. fst e \<notin> set (doomed_sessions m s)) ?xs =
      filter (\<lambda>e. mode_permits_origin m (se_origin (snd e))) ?xs"
    by (intro filter_cong) auto
  then show ?thesis by (simp add: announce_mode_def fold_teardown)
qed

lemma ds_inv_filter:
  "ds_inv s \<Longrightarrow> ds_inv (s\<lparr>ds_sessions := filter P (ds_sessions s)\<rparr>)"
proof -
  assume inv: "ds_inv s"
  let ?s = "s\<lparr>ds_sessions := filter P (ds_sessions s)\<rparr>"
  have "conn_load c ?s \<le> conn_load c s" for c
    using filter_filter_le [of "\<lambda>e. se_conn (snd e) = c" P "ds_sessions s"]
    by (simp add: conn_load_def del: filter_filter)
  then have "conn_load c ?s \<le> MAX_STREAMS_PER_CONN" for c
    using inv by (meson ds_inv_def order_trans)
  moreover have "length (filter P (ds_sessions s)) + length (ds_claims s) \<le> MAX_STREAMS_TOTAL"
    using inv length_filter_le [of P "ds_sessions s"] unfolding ds_inv_def by linarith
  ultimately show ?thesis using inv by (auto simp: ds_inv_def list_all_iff)
qed

lemma ds_inv_cong [simp]:
  "ds_inv (s\<lparr>ds_mode := m\<rparr>) = ds_inv s" "ds_inv (s\<lparr>ds_conns := cs\<rparr>) = ds_inv s"
  by (simp_all add: ds_inv_def conn_load_def)

lemma settings_set_mode_cases:
  assumes "ds_inv s"
  shows "settings_set_mode w s =
     (case mode_parse w of
        None \<Rightarrow> (False, s)
      | Some m \<Rightarrow>
          (True, if m = ds_mode s then s
           else s\<lparr>ds_mode := m, ds_sessions := filter (\<lambda>e. mode_permits_origin (effective_mode m (ds_hal s))
              (se_origin (snd e))) (ds_sessions s)\<rparr>))"
  using assms
  by (auto simp: settings_set_mode_def announce_mode_eq Let_def ds_effective_def split: option.splits)

definition admitted :: "mode \<Rightarrow> session_origin \<Rightarrow> bool \<Rightarrow> bool \<Rightarrow> bool" where
  "admitted m origin forced straddled \<longleftrightarrow> forced \<or> straddled \<or> mode_permits_origin m origin"

definition entry_admitted :: "daemon_state \<Rightarrow> session_entry \<Rightarrow> bool" where
  "entry_admitted s e \<longleftrightarrow> admitted (ds_effective s) (se_origin e) (se_forced e) (se_straddled e)"

definition opener_ok :: "daemon_state \<Rightarrow> opener \<Rightarrow> bool" where
  "opener_ok s oper \<longleftrightarrow>
     admitted (ds_effective s) (op_origin oper) (op_forced oper) (op_straddled oper) \<and>
     (\<forall>r. op_reservation oper = Some r \<longrightarrow> sc_connection_id (sr_claim r) = sr_conn r)"

definition sm_inv :: "session_machine \<Rightarrow> bool" where
  "sm_inv m \<longleftrightarrow> ds_inv (sm_state m) \<and>
     (\<forall>e \<in> set (ds_sessions (sm_state m)). entry_admitted (sm_state m) (snd e)) \<and>
     (\<forall>oper \<in> set (sm_openers m). opener_ok (sm_state m) oper)"

lemma set_remove_nth: "set (remove_nth i xs) \<subseteq> set xs"
  by (auto simp: remove_nth_def dest: in_set_takeD in_set_dropD)

lemma claim_stream_id_facts:
  assumes "claim_stream_id c i rx s = (res, s')"
  shows "ds_effective s' = ds_effective s" and "ds_sessions s' = ds_sessions s"
    and "res = Inr r \<Longrightarrow> sc_connection_id (sr_claim r) = sr_conn r"
  using assms
  by (auto simp: claim_stream_id_def reserve_pending_stream_def ds_effective_def Let_def split: if_splits)

lemma drop_held_facts [simp]:
  "ds_effective (drop_held oper s) = ds_effective s" "ds_sessions (drop_held oper s) = ds_sessions s"
  by (simp_all add: drop_held_def drop_reservation_def ds_effective_def split: option.split)

lemma drop_held_inv: "ds_inv s \<Longrightarrow> ds_inv (drop_held oper s)"
  by (simp add: drop_held_def drop_reservation_inv split: option.split)

lemma publish_facts:
  shows "ds_effective (snd (publish r e s)) = ds_effective s"
    and "x \<in> set (ds_sessions (snd (publish r e s))) \<Longrightarrow> x \<in> set (ds_sessions s) \<or> snd x = e"
  using bt_set_insert [of "sr_stream_id r" e "ds_sessions s"]
  by (auto simp: publish_def ds_effective_def split: if_splits)

lemma sm_inv_intro:
  assumes "ds_inv s" and "ds_effective s = ds_effective (sm_state m)" and "sm_inv m"
    and "\<And>e. e \<in> set (ds_sessions s) \<Longrightarrow> e \<in> set (ds_sessions (sm_state m)) \<or> entry_admitted (sm_state m) (snd e)"
    and "\<And>oper. oper \<in> set ops \<Longrightarrow> oper \<in> set (sm_openers m) \<or> opener_ok (sm_state m) oper"
  shows "sm_inv (m\<lparr>sm_state := s, sm_openers := ops\<rparr>)"
  using assms unfolding sm_inv_def entry_admitted_def opener_ok_def
  by (simp, meson)

lemma sm_state_same: "m\<lparr>sm_state := s\<rparr> = m\<lparr>sm_state := s, sm_openers := sm_openers m\<rparr>"
  by (cases m) simp

lemma session_step_inv:
  assumes inv: "sm_inv m"
  shows "sm_inv (session_step e m)"
proof (cases e)
  case (Gate req conn)
  then show ?thesis
    using inv open_gate_permits [of "ds_effective (sm_state m)" req]
    by (auto simp: sm_inv_def opener_ok_def admitted_def split: option.split)
next
  case (Claim i stream_id rx)
  show ?thesis
  proof (cases "length (sm_openers m) \<le> i \<or> op_reservation (sm_openers m ! i) \<noteq> None")
    case True
    with Claim inv show ?thesis by (auto simp: Let_def)
  next
    case False
    let ?o = "sm_openers m ! i"
    obtain res s where cl: "claim_stream_id (op_conn ?o) stream_id rx (sm_state m) = (res, s)" by fastforce
    note f = claim_stream_id_facts [OF cl]
    have ds: "ds_inv s" using claim_stream_id_inv [of "sm_state m"] inv cl by (metis sm_inv_def snd_conv)
    have oper: "opener_ok (sm_state m) ?o" using inv False by (simp add: sm_inv_def)
    show ?thesis
    proof (cases res)
      case (Inl x)
      have "sm_inv (m\<lparr>sm_state := s, sm_openers := remove_nth i (sm_openers m)\<rparr>)"
        by (rule sm_inv_intro [OF ds f(1) inv]) (use f(2) in \<open>auto dest: subsetD [OF set_remove_nth]\<close>)
      with Claim False cl Inl show ?thesis by (simp add: Let_def)
    next
      case (Inr r)
      have "opener_ok (sm_state m) (?o\<lparr>op_reservation := Some r\<rparr>)"
        using oper f(3) [OF Inr] by (simp add: opener_ok_def)
      then have "sm_inv (m\<lparr>sm_state := s,
          sm_openers := (sm_openers m)[i := ?o\<lparr>op_reservation := Some r\<rparr>]\<rparr>)"
        by (intro sm_inv_intro [OF ds f(1) inv]) (use f(2) set_update_subset_insert in fastforce)+
      with Claim False cl Inr show ?thesis by (simp add: Let_def)
    qed
  qed
next
  case (Commit i)
  show ?thesis
  proof (cases "length (sm_openers m) \<le> i \<or> op_reservation (sm_openers m ! i) = None")
    case True
    with Commit inv show ?thesis by (auto simp: Let_def)
  next
    case False
    let ?o = "sm_openers m ! i"
    from False obtain r where r: "op_reservation ?o = Some r" by blast
    let ?s = "snd (publish r (opener_entry ?o r) (sm_state m))"
    have oper: "opener_ok (sm_state m) ?o" using inv False by (simp add: sm_inv_def)
    with r have "sc_connection_id (sr_claim r) = sr_conn r" by (simp add: opener_ok_def)
    with inv have "ds_inv ?s" by (simp add: sm_inv_def publish_inv)
    then have ds: "ds_inv (drop_held ?o ?s)" by (rule drop_held_inv)
    have "entry_admitted (sm_state m) (opener_entry ?o r)"
      using oper by (simp add: opener_ok_def entry_admitted_def opener_entry_def)
    then have "x \<in> set (ds_sessions (sm_state m)) \<or> entry_admitted (sm_state m) (snd x)"
      if "x \<in> set (ds_sessions ?s)" for x
      using publish_facts(2) [OF that] by auto
    then have "sm_inv (m\<lparr>sm_state := drop_held ?o ?s, sm_openers := remove_nth i (sm_openers m)\<rparr>)"
      using publish_facts(1) [of r "opener_entry ?o r" "sm_state m"]
      by (intro sm_inv_intro [OF ds _ inv]) (auto dest: subsetD [OF set_remove_nth])
    with Commit False r show ?thesis by (simp add: Let_def)
  qed
next
  case (Abort i)
  have "sm_inv (m\<lparr>sm_state := drop_held (sm_openers m ! i) (sm_state m),
      sm_openers := remove_nth i (sm_openers m)\<rparr>)"
    by (rule sm_inv_intro) (use inv in \<open>auto simp: sm_inv_def drop_held_inv dest: subsetD [OF set_remove_nth]\<close>)
  with Abort inv show ?thesis by simp
next
  case (CloseSession k)
  have "ds_inv (teardown_stream k (sm_state m))"
    using inv ds_inv_filter [of "sm_state m"] by (simp add: sm_inv_def teardown_stream_def bt_remove_def)
  then have "sm_inv (m\<lparr>sm_state := teardown_stream k (sm_state m), sm_openers := sm_openers m\<rparr>)"
    by (rule sm_inv_intro) (use inv in \<open>auto simp: teardown_stream_def ds_effective_def bt_remove_def\<close>)
  with CloseSession show ?thesis by (simp add: sm_state_same [symmetric])
next
  case (ConnUp c)
  with inv show ?thesis by (simp add: sm_inv_def entry_admitted_def opener_ok_def ds_effective_def)
next
  case (ConnDown c)
  let ?s = "(sm_state m)\<lparr>ds_conns := filter (\<lambda>d. d \<noteq> c) (ds_conns (sm_state m)),
    ds_sessions := filter (\<lambda>e. se_conn (snd e) \<noteq> c) (ds_sessions (sm_state m))\<rparr>"
  have "ds_inv ?s"
    using inv ds_inv_filter [of "(sm_state m)\<lparr>ds_conns := filter (\<lambda>d. d \<noteq> c) (ds_conns (sm_state m))\<rparr>"]
    by (simp add: sm_inv_def)
  then have "sm_inv (m\<lparr>sm_state := ?s, sm_openers := sm_openers m\<rparr>)"
    by (rule sm_inv_intro) (use inv in \<open>auto simp: ds_effective_def\<close>)
  with ConnDown show ?thesis by (simp add: sm_state_same [symmetric] Let_def)
next
  case (SetMode w)
  from inv have ds: "ds_inv (sm_state m)" by (simp add: sm_inv_def)
  show ?thesis
  proof (cases "mode_parse w")
    case None
    with SetMode inv ds show ?thesis
      by (simp add: settings_set_mode_cases Let_def)
  next
    case (Some md)
    have "ds_inv ((sm_state m)\<lparr>ds_mode := md, ds_sessions := filter P (ds_sessions (sm_state m))\<rparr>)" for P
      using ds_inv_filter [of "(sm_state m)\<lparr>ds_mode := md\<rparr>" P] ds by simp
    with SetMode inv ds Some show ?thesis
      by (auto simp: settings_set_mode_cases Let_def sm_inv_def entry_admitted_def opener_ok_def
          admitted_def ds_effective_def)
  qed
qed

interpretation sessions: state_machine session_step sm_inv
  by unfold_locales (rule session_step_inv)

lemma session_machine_new_inv: "sm_inv (session_machine_new m hal)"
  by (simp add: sm_inv_def session_machine_new_def ds_inv_def conn_load_def)

text \<open>Every session in the table belongs to a connection that is up.\<close>

definition conns_ok :: "daemon_state \<Rightarrow> bool" where
  "conns_ok s \<longleftrightarrow> (\<forall>e \<in> set (ds_sessions s). se_conn (snd e) \<in> set (ds_conns s))"

lemma conns_ok_publish: "conns_ok s \<Longrightarrow> conns_ok (snd (publish r e s))"
  using bt_set_insert [of "sr_stream_id r" e "ds_sessions s"]
  by (fastforce simp: publish_def conns_ok_def)

lemma conns_ok_release: "conns_ok s \<Longrightarrow> conns_ok (drop_held oper s)"
  by (simp add: conns_ok_def drop_held_def drop_reservation_def split: option.split)

lemma conns_ok_teardown: "conns_ok s \<Longrightarrow> conns_ok (teardown_stream i s)"
  using bt_set_sub(1) by (fastforce simp: conns_ok_def teardown_stream_def)

lemma conns_ok_claim: "conns_ok s \<Longrightarrow> conns_ok (snd (claim_stream_id c i rx s))"
  by (auto simp: conns_ok_def claim_stream_id_def Let_def split: sum.split prod.split)

lemma conns_ok_set_mode: "conns_ok s \<Longrightarrow> conns_ok (snd (settings_set_mode w s))"
proof -
  assume ok: "conns_ok s"
  have "conns_ok (fold teardown_stream ids t)" if "conns_ok t" for ids t
    using that by (induction ids arbitrary: t) (simp_all add: conns_ok_teardown)
  moreover have "conns_ok (s\<lparr>ds_mode := m\<rparr>)" for m using ok by (simp add: conns_ok_def)
  ultimately show ?thesis
    using ok by (simp add: settings_set_mode_def announce_mode_def Let_def split: option.split)
qed

lemma session_step_conns: "conns_ok (sm_state m) \<Longrightarrow> conns_ok (sm_state (session_step e m))"
proof (induction e m rule: session_step.induct)
  case (2 i stream_id rx m)
  then show ?case using conns_ok_claim [of "sm_state m" "op_conn (sm_openers m ! i)" stream_id rx]
    by (auto simp: Let_def split: prod.split sum.split)
next
  case (7 c m)
  then show ?case by (auto simp: Let_def conns_ok_def)
next
  case (6 c m)
  then show ?case by (auto simp: conns_ok_def)
qed (simp_all add: Let_def conns_ok_teardown conns_ok_release conns_ok_publish conns_ok_set_mode
       split: option.split)

lemma session_run_conns: "conns_ok (sm_state m) \<Longrightarrow> conns_ok (sm_state (fold session_step es m))"
  by (induction es arbitrary: m) (simp_all add: session_step_conns)

section \<open>Properties\<close>



text \<open>
  A switch cleans up: when the setting changes, every session left in the table, forced ones
  included, is one that the mode then in force permits; an unknown spelling changes nothing.
\<close>

theorem mode_switch_closes_sessions:
  assumes "sm_inv m" and "settings_set_mode w (sm_state m) = (ok, s')"
  shows "(ok \<longleftrightarrow> mode_parse w \<noteq> None) \<and>
    (if ds_mode s' = ds_mode (sm_state m) then s' = sm_state m
     else \<forall>e \<in> set (ds_sessions s'). mode_permits_origin (ds_effective s') (se_origin (snd e)))"
proof -
  from assms(1) have "ds_inv (sm_state m)" by (simp add: sm_inv_def)
  with assms(2) show ?thesis
    by (auto simp: settings_set_mode_cases ds_effective_def split: option.splits if_splits)
qed

theorem mode_switch_closes_sessions_witness:
  "\<exists>s'. settings_set_mode ''b'' (sm_state (session_machine_new Share True)) = (True, s') \<and> ds_mode s' = ModeB"
proof -
  obtain ok s' where r: "settings_set_mode ''b'' (sm_state (session_machine_new Share True)) = (ok, s')"
    by fastforce
  have p: "mode_parse ''b'' = Some ModeB" by (simp add: mode_parse_def MODE_SHARE_def MODE_A_def MODE_B_def)
  from mode_switch_closes_sessions [OF session_machine_new_inv r] p have "ok" by simp
  moreover have "ds_mode s' = ModeB"
    using r p by (auto simp: settings_set_mode_def session_machine_new_def announce_mode_def
        doomed_sessions_def Let_def split: if_splits)
  ultimately show ?thesis using r by auto
qed

text \<open>
  The exclusion is not enforced at the point of publication: a peer's request that passed the
  gate in share mode is still admitted after the machine has switched to mode B, and stays there,
  next to sessions of mode B.
\<close>

theorem mode_switch_race:
  "\<exists>es. let s = sm_state (fold session_step es (session_machine_new Share True))
     in ds_effective s = ModeB \<and>
        (\<exists>k e. (k, e) \<in> set (ds_sessions s) \<and> se_origin e = Peer \<and> \<not> se_forced e) \<and>
        (\<exists>k e. (k, e) \<in> set (ds_sessions s) \<and> se_origin e = Hal 0 \<and> \<not> se_forced e)"
proof -
  have p: "mode_parse ''b'' = Some ModeB" by (simp add: mode_parse_def MODE_SHARE_def MODE_A_def MODE_B_def)
  let ?es = "[ConnUp 1, Gate PeerOpen 1, Claim 0 7 False, SetMode ''b'', Commit 0,
    Gate (HalOpen 0) 1, Claim 0 8 False, Commit 0]"
  show ?thesis
    by (rule exI [of _ ?es])
      (simp add: session_machine_new_def Let_def ds_effective_def refuse_being_used_def claim_stream_id_def
        reserve_pending_stream_def bt_lookup_def MAX_STREAMS_TOTAL_def MAX_STREAMS_PER_CONN_def
        settings_set_mode_def p announce_mode_def doomed_sessions_def publish_def opener_entry_def
        release_pending_stream_def bt_remove_def drop_held_def drop_reservation_def remove_nth_def conj_disj_distribR ex_disj_distrib)
qed

end
