(* ===== verification/Ladder.thy ===== *)
theory Ladder
  imports WirePacket Complex_Main
begin

text \<open>
  The quality ladder (core/audiohub-net/src/media.rs): the wire formats of its six rungs with
  their sizes and datagram counts, the two maps between rungs and formats, and the sender's
  automatic ladder, a state machine that is fed once per statistics period. Floating point
  values are modelled as far as the code looks at them, by comparisons: a value is a finite
  rational, an infinity or not a number, and every comparison with the latter is false.
\<close>

section \<open>Floating point comparisons\<close>

datatype f64 = NaN | NegInf | Fin rat | PosInf

fun f64_lt :: "f64 \<Rightarrow> f64 \<Rightarrow> bool" where
  "f64_lt (Fin a) (Fin b) = (a < b)"
| "f64_lt (Fin a) PosInf = True"
| "f64_lt NegInf (Fin b) = True"
| "f64_lt NegInf PosInf = True"
| "f64_lt x y = False"

definition f64_le :: "f64 \<Rightarrow> f64 \<Rightarrow> bool" where
  "f64_le x y \<longleftrightarrow> f64_lt x y \<or> (x \<noteq> NaN \<and> x = y)"

section \<open>Wire formats\<close>

fun bytes_per_sample :: "wire_depth \<Rightarrow> nat" where
  "bytes_per_sample S16 = 2"
| "bytes_per_sample S24 = 3"
| "bytes_per_sample F32 = 4"

definition depth_bits :: "wire_depth \<Rightarrow> nat" where
  "depth_bits d = bytes_per_sample d * 8"

fun depth_as_str :: "wire_depth \<Rightarrow> string" where
  "depth_as_str S16 = ''s16''"
| "depth_as_str S24 = ''s24''"
| "depth_as_str F32 = ''f32''"

definition depth_parse :: "string \<Rightarrow> wire_depth option" where
  "depth_parse s =
     (if s = ''s16'' then Some S16 else if s = ''s24'' then Some S24
      else if s = ''f32'' then Some F32 else None)"

interpretation depth_name: wire_enum depth_as_str depth_parse
proof
  show "depth_parse (depth_as_str d) = Some d" for d by (cases d) (simp_all add: depth_parse_def)
  show "depth_as_str d = s" if "depth_parse s = Some d" for s d
    using that by (auto simp: depth_parse_def split: if_splits)
qed

record wire_format =
  rate_hz :: nat
  depth :: wire_depth

definition SINGLE_PACKET_PAYLOAD_MAX :: nat where
  "SINGLE_PACKET_PAYLOAD_MAX = 1200"

definition MAX_MEDIA_CHANNELS :: nat where
  "MAX_MEDIA_CHANNELS = 2"

definition MAX_WIRE_PARTS :: nat where
  "MAX_WIRE_PARTS = 4"

definition clamp_channels :: "nat \<Rightarrow> nat" where
  "clamp_channels channels =
     (if channels = 0 then 1
      else if MAX_MEDIA_CHANNELS < channels then MAX_MEDIA_CHANNELS
      else channels)"

definition frame_bytes_for :: "nat \<Rightarrow> wire_format \<Rightarrow> nat" where
  "frame_bytes_for channels f = (rate_hz f div 100) * bytes_per_sample (depth f) * clamp_channels channels"

definition kbps_for :: "nat \<Rightarrow> wire_format \<Rightarrow> nat" where
  "kbps_for channels f = rate_hz f div 1000 * depth_bits (depth f) * clamp_channels channels"

definition splits_frame_for :: "nat \<Rightarrow> wire_format \<Rightarrow> bool" where
  "splits_frame_for channels f \<longleftrightarrow> SINGLE_PACKET_PAYLOAD_MAX < frame_bytes_for channels f"

definition wire_packets_per_frame_for :: "nat \<Rightarrow> wire_format \<Rightarrow> nat" where
  "wire_packets_per_frame_for channels f =
     (let bytes = frame_bytes_for channels f;
          parts = (bytes + SINGLE_PACKET_PAYLOAD_MAX - 1) div SINGLE_PACKET_PAYLOAD_MAX
      in if parts = 0 then 1 else parts)"

definition LADDER :: "wire_format list" where
  "LADDER =
     [\<lparr>rate_hz = 48000, depth = F32\<rparr>,
      \<lparr>rate_hz = 48000, depth = S24\<rparr>,
      \<lparr>rate_hz = 48000, depth = S16\<rparr>,
      \<lparr>rate_hz = 32000, depth = S16\<rparr>,
      \<lparr>rate_hz = 24000, depth = S16\<rparr>,
      \<lparr>rate_hz = 16000, depth = S16\<rparr>]"

definition AUTO_TOP_RUNG :: nat where
  "AUTO_TOP_RUNG = 2"

definition AUTO_TOP_RUNG_STREAMED :: nat where
  "AUTO_TOP_RUNG_STREAMED = 3"

definition rung_format :: "nat \<Rightarrow> wire_format" where
  "rung_format rung = LADDER ! min rung (length LADDER - 1)"

definition rung_of :: "nat \<Rightarrow> wire_depth \<Rightarrow> nat option" where
  "rung_of rate d = position (\<lambda>f. rate_hz f = rate \<and> depth f = d) LADDER"

section \<open>The automatic ladder\<close>

definition STREAMED_WRITEQ_HOT_MS :: f64 where
  "STREAMED_WRITEQ_HOT_MS = Fin 20"

definition STREAMED_WRITEQ_CLEAN_MS :: f64 where
  "STREAMED_WRITEQ_CLEAN_MS = Fin (20 / 2)"

definition STREAMED_SPREAD_CLEAN_MS :: f64 where
  "STREAMED_SPREAD_CLEAN_MS = Fin (of_nat (40 * 10) / 2)"

definition STREAMED_HOT_PERIODS :: nat where
  "STREAMED_HOT_PERIODS = 3"

definition u32_max :: nat where
  "u32_max = 4294967295"

definition saturating_inc32 :: "nat \<Rightarrow> nat" where
  "saturating_inc32 n = min (n + 1) u32_max"

record auto_ladder =
  al_rung :: nat
  al_clean :: nat
  al_hot :: nat
  al_top_rung :: nat
  al_rung_changes :: u32

definition auto_ladder_new :: auto_ladder where
  "auto_ladder_new = \<lparr>al_rung = AUTO_TOP_RUNG, al_clean = 0, al_hot = 0,
     al_top_rung = AUTO_TOP_RUNG, al_rung_changes = 0\<rparr>"

definition auto_ladder_new_streamed :: auto_ladder where
  "auto_ladder_new_streamed = \<lparr>al_rung = AUTO_TOP_RUNG_STREAMED, al_clean = 0, al_hot = 0,
     al_top_rung = AUTO_TOP_RUNG_STREAMED, al_rung_changes = 0\<rparr>"

definition feed_stats :: "f64 \<Rightarrow> f64 \<Rightarrow> auto_ladder \<Rightarrow> nat option \<times> auto_ladder" where
  "feed_stats loss_pct jitter_ms l =
     (if f64_lt (Fin 5) loss_pct \<or> f64_lt (Fin 15) jitter_ms then
        let l = l\<lparr>al_clean := 0\<rparr> in
        if al_rung l < length LADDER - 1 then
          let l = l\<lparr>al_rung := al_rung l + 1, al_rung_changes := al_rung_changes l + 1\<rparr>
          in (Some (al_rung l), l)
        else (None, l)
      else if f64_lt loss_pct (Fin (1 / 2)) \<and> f64_lt jitter_ms (Fin 5) then
        let l = l\<lparr>al_clean := saturating_inc32 (al_clean l)\<rparr> in
        if 10 \<le> al_clean l \<and> al_top_rung l < al_rung l then
          let l = l\<lparr>al_clean := 0, al_rung := al_rung l - 1, al_rung_changes := al_rung_changes l + 1\<rparr>
          in (Some (al_rung l), l)
        else (None, l)
      else (None, l\<lparr>al_clean := 0\<rparr>))"

definition spread_ok :: "f64 option \<Rightarrow> bool" where
  "spread_ok spread_ms = (case spread_ms of None \<Rightarrow> True | Some s \<Rightarrow> f64_lt s STREAMED_SPREAD_CLEAN_MS)"

definition feed_streamed :: "f64 \<Rightarrow> f64 option \<Rightarrow> bool \<Rightarrow> auto_ladder \<Rightarrow> nat option \<times> auto_ladder" where
  "feed_streamed writeq_ms spread_ms stale_growing l =
     (if f64_lt STREAMED_WRITEQ_HOT_MS writeq_ms then
        let l = l\<lparr>al_clean := 0, al_hot := saturating_inc32 (al_hot l)\<rparr> in
        if STREAMED_HOT_PERIODS \<le> al_hot l then
          let l = l\<lparr>al_hot := 0\<rparr> in
          if al_rung l < length LADDER - 1 then
            let l = l\<lparr>al_rung := al_rung l + 1, al_rung_changes := al_rung_changes l + 1\<rparr>
            in (Some (al_rung l), l)
          else (None, l)
        else (None, l)
      else
        let l = l\<lparr>al_hot := 0\<rparr> in
        if f64_le writeq_ms STREAMED_WRITEQ_CLEAN_MS \<and> spread_ok spread_ms \<and> \<not> stale_growing then
          let l = l\<lparr>al_clean := saturating_inc32 (al_clean l)\<rparr> in
          if 10 \<le> al_clean l \<and> al_top_rung l < al_rung l then
            let l = l\<lparr>al_clean := 0, al_rung := al_rung l - 1, al_rung_changes := al_rung_changes l + 1\<rparr>
            in (Some (al_rung l), l)
          else (None, l)
        else (None, l\<lparr>al_clean := 0\<rparr>))"

section \<open>Runs of the ladder\<close>

text \<open>One statistics period, of either kind of link, and what it says about the link.\<close>

datatype ladder_sample = Stats f64 f64 | Streamed f64 "f64 option" bool

fun ladder_feed :: "ladder_sample \<Rightarrow> auto_ladder \<Rightarrow> nat option \<times> auto_ladder" where
  "ladder_feed (Stats loss jit) l = feed_stats loss jit l"
| "ladder_feed (Streamed q s stale) l = feed_streamed q s stale l"

definition ladder_step :: "ladder_sample \<Rightarrow> auto_ladder \<Rightarrow> auto_ladder" where
  "ladder_step s l = snd (ladder_feed s l)"

fun clean_sample :: "ladder_sample \<Rightarrow> bool" where
  "clean_sample (Stats loss jit) \<longleftrightarrow> f64_lt loss (Fin (1 / 2)) \<and> f64_lt jit (Fin 5)"
| "clean_sample (Streamed q s stale) \<longleftrightarrow>
     f64_le q STREAMED_WRITEQ_CLEAN_MS \<and> spread_ok s \<and> \<not> stale"

fun bad_stats :: "ladder_sample \<Rightarrow> bool" where
  "bad_stats (Stats loss jit) \<longleftrightarrow> f64_lt (Fin 5) loss \<or> f64_lt (Fin 15) jit"
| "bad_stats (Streamed q s stale) \<longleftrightarrow> False"

fun hot_sample :: "ladder_sample \<Rightarrow> bool" where
  "hot_sample (Stats loss jit) \<longleftrightarrow> False"
| "hot_sample (Streamed q s stale) \<longleftrightarrow> f64_lt STREAMED_WRITEQ_HOT_MS q"

fun is_streamed :: "ladder_sample \<Rightarrow> bool" where
  "is_streamed (Stats loss jit) \<longleftrightarrow> False"
| "is_streamed (Streamed q s stale) \<longleftrightarrow> True"

definition trailing :: "('a \<Rightarrow> bool) \<Rightarrow> 'a list \<Rightarrow> nat" where
  "trailing P xs = length (takeWhile P (rev xs))"

lemma trailing_snoc [simp]: "trailing P (xs @ [x]) = (if P x then Suc (trailing P xs) else 0)"
  by (simp add: trailing_def)

lemma trailing_Nil [simp]: "trailing P [] = 0"
  by (simp add: trailing_def)

lemma fin_between: "\<not> (f64_lt (Fin a) x \<and> f64_lt x (Fin b))" if "b \<le> a"
  using that by (cases x) auto

lemma clean_not_bad: "clean_sample s \<Longrightarrow> \<not> bad_stats s \<and> \<not> hot_sample s"
proof (cases s)
  case (Stats loss jit)
  assume "clean_sample s"
  with Stats show ?thesis
    using fin_between [of "1 / 2" 5 loss] fin_between [of 5 15 jit] by simp
next
  case (Streamed q sp stale)
  assume "clean_sample s"
  with Streamed show ?thesis
    using fin_between [of 10 20 q]
    by (auto simp: f64_le_def STREAMED_WRITEQ_HOT_MS_def STREAMED_WRITEQ_CLEAN_MS_def)
qed

text \<open>The three outcomes of a period.\<close>

definition promote :: "auto_ladder \<Rightarrow> auto_ladder" where
  "promote l =
     (let l = l\<lparr>al_clean := saturating_inc32 (al_clean l)\<rparr> in
      if 10 \<le> al_clean l \<and> al_top_rung l < al_rung l
      then l\<lparr>al_clean := 0, al_rung := al_rung l - 1, al_rung_changes := al_rung_changes l + 1\<rparr> else l)"

definition demote :: "auto_ladder \<Rightarrow> auto_ladder" where
  "demote l =
     (if al_rung l < length LADDER - 1
      then l\<lparr>al_rung := al_rung l + 1, al_rung_changes := al_rung_changes l + 1\<rparr> else l)"

lemma ladder_step_cases:
  "ladder_step s l =
     (if bad_stats s then demote (l\<lparr>al_clean := 0\<rparr>)
      else if hot_sample s then
        (if STREAMED_HOT_PERIODS \<le> saturating_inc32 (al_hot l)
         then demote (l\<lparr>al_clean := 0, al_hot := 0\<rparr>)
         else l\<lparr>al_clean := 0, al_hot := saturating_inc32 (al_hot l)\<rparr>)
      else let l = (if is_streamed s then l\<lparr>al_hot := 0\<rparr> else l)
        in if clean_sample s then promote l else l\<lparr>al_clean := 0\<rparr>)"
  by (cases s)
    (simp_all add: ladder_step_def feed_stats_def feed_streamed_def demote_def promote_def Let_def)

lemma ladder_feed_reports:
  "fst (ladder_feed s l) = (if al_rung (ladder_step s l) = al_rung l then None else Some (al_rung (ladder_step s l)))"
  by (cases s) (auto simp: ladder_step_def feed_stats_def feed_streamed_def Let_def)

definition al_inv :: "auto_ladder \<Rightarrow> bool" where
  "al_inv l \<longleftrightarrow> al_top_rung l \<le> al_rung l \<and> al_rung l \<le> length LADDER - 1 \<and>
     al_hot l < STREAMED_HOT_PERIODS \<and> (al_top_rung l < al_rung l \<longrightarrow> al_clean l < 10)"

definition ladder_trace_step :: "ladder_sample \<Rightarrow> ladder_sample list \<times> auto_ladder \<Rightarrow> ladder_sample list \<times> auto_ladder" where
  "ladder_trace_step s t = (fst t @ [s], ladder_step s (snd t))"

definition trace_inv :: "ladder_sample list \<times> auto_ladder \<Rightarrow> bool" where
  "trace_inv t \<longleftrightarrow> al_inv (snd t) \<and> al_clean (snd t) \<le> trailing clean_sample (fst t) \<and>
     al_hot (snd t) \<le> trailing hot_sample (filter is_streamed (fst t))"

lemma LADDER_length [simp]: "length LADDER = 6"
  by (simp add: LADDER_def)

lemma hot_is_streamed: "hot_sample s \<Longrightarrow> is_streamed s"
  by (cases s) simp_all

lemma small_inc [simp]: "n < 10 \<Longrightarrow> saturating_inc32 n = Suc n"
  by (simp add: saturating_inc32_def u32_max_def)

lemma inc_le: "saturating_inc32 n \<le> Suc n"
  by (simp add: saturating_inc32_def)

lemma al_inv_step: "al_inv l \<Longrightarrow> al_inv (ladder_step s l)"
  using inc_le [of "al_clean l"]
  by (auto simp: al_inv_def ladder_step_cases demote_def promote_def Let_def STREAMED_HOT_PERIODS_def)

interpretation ladder: state_machine ladder_step al_inv
  by unfold_locales (rule al_inv_step)


lemma ladder_trace_step_inv:
  assumes "trace_inv t"
  shows "trace_inv (ladder_trace_step s t)"
proof -
  obtain h l where t: "t = (h, l)" by fastforce
  let ?c = "trailing clean_sample h" and ?h = "trailing hot_sample (filter is_streamed h)"
  have inv: "al_inv l" and c: "al_clean l \<le> ?c" and hot: "al_hot l \<le> ?h"
    using assms by (simp_all add: t trace_inv_def)
  have c': "saturating_inc32 (al_clean l) \<le> Suc ?c" using c inc_le [of "al_clean l"] by linarith
  have hot': "saturating_inc32 (al_hot l) \<le> Suc ?h" using hot inc_le [of "al_hot l"] by linarith
  have "al_clean (ladder_step s l) \<le> trailing clean_sample (h @ [s])"
    using c' clean_not_bad [of s] by (auto simp: ladder_step_cases demote_def promote_def Let_def)
  moreover have "al_hot (ladder_step s l) \<le> trailing hot_sample (filter is_streamed (h @ [s]))"
    using hot hot' hot_is_streamed [of s] by (cases s) (auto simp: ladder_step_cases demote_def promote_def Let_def)
  ultimately show ?thesis
    using al_inv_step [OF inv] by (simp add: t trace_inv_def ladder_trace_step_def)
qed

interpretation ladder_trace: state_machine ladder_trace_step trace_inv
  by unfold_locales (rule ladder_trace_step_inv)

lemma trace_fold:
  "fold ladder_trace_step ss (h, l) = (h @ ss, fold ladder_step ss l)"
  by (induction ss arbitrary: h l) (simp_all add: ladder_trace_step_def)

lemma al_inv_new: "al_inv auto_ladder_new" "al_inv auto_ladder_new_streamed"
  by (simp_all add: al_inv_def auto_ladder_new_def auto_ladder_new_streamed_def AUTO_TOP_RUNG_def
      AUTO_TOP_RUNG_STREAMED_def STREAMED_HOT_PERIODS_def)

lemma trace_inv_run:
  assumes "l0 = auto_ladder_new \<or> l0 = auto_ladder_new_streamed"
  shows "trace_inv (ss, fold ladder_step ss l0)"
proof -
  have "trace_inv ([], l0)"
    using assms al_inv_new by (auto simp: trace_inv_def auto_ladder_new_def auto_ladder_new_streamed_def)
  then show ?thesis using ladder_trace.run_inv [of "([], l0)" ss] by (simp add: trace_fold)
qed

lemma top_rung_step [simp]: "al_top_rung (ladder_step s l) = al_top_rung l"
  by (simp add: ladder_step_cases demote_def promote_def Let_def)

lemma top_rung_run [simp]: "al_top_rung (fold ladder_step ss l) = al_top_rung l"
  by (induction ss arbitrary: l) simp_all

lemma step_moves:
  assumes inv: "al_inv l"
  shows "al_rung (ladder_step s l) < al_rung l \<Longrightarrow>
      clean_sample s \<and> 9 \<le> al_clean l \<and> al_rung (ladder_step s l) = al_rung l - 1"
    and "al_rung l < al_rung (ladder_step s l) \<Longrightarrow>
      (bad_stats s \<or> hot_sample s \<and> 2 \<le> al_hot l) \<and> al_rung (ladder_step s l) = Suc (al_rung l)"
  using inc_le [of "al_clean l"] inc_le [of "al_hot l"] clean_not_bad [of s]
  by (auto simp: ladder_step_cases demote_def promote_def Let_def STREAMED_HOT_PERIODS_def split: if_splits)

section \<open>How fast the ladder moves\<close>

definition climb :: "auto_ladder \<Rightarrow> nat" where
  "climb l = (if al_rung l = al_top_rung l then 0 else 10 * (al_rung l - al_top_rung l) - al_clean l)"

lemma climb_step:
  assumes "al_inv l" and "clean_sample s"
  shows "climb (ladder_step s l) \<le> climb l - 1"
proof -
  from clean_not_bad [OF assms(2)] assms(2)
  have st: "ladder_step s l = promote (if is_streamed s then l\<lparr>al_hot := 0\<rparr> else l)"
    by (simp add: ladder_step_cases Let_def)
  show ?thesis
  proof (cases "al_rung l = al_top_rung l")
    case True
    then show ?thesis by (simp add: st climb_def promote_def Let_def)
  next
    case False
    with assms(1) have "al_top_rung l < al_rung l" "al_clean l < 10" by (auto simp: al_inv_def)
    then show ?thesis by (auto simp: st climb_def promote_def Let_def)
  qed
qed

lemma climb_run:
  "al_inv l \<Longrightarrow> list_all clean_sample ss \<Longrightarrow> climb (fold ladder_step ss l) \<le> climb l - length ss"
proof (induction ss arbitrary: l)
  case Nil
  then show ?case by simp
next
  case (Cons s ss)
  then have "climb (fold ladder_step ss (ladder_step s l)) \<le> climb (ladder_step s l) - length ss"
    by (intro Cons.IH) (simp_all add: al_inv_step)
  with climb_step [of l s] Cons.prems show ?case by simp
qed

definition descent :: "auto_ladder \<Rightarrow> nat" where
  "descent l = (if al_rung l = 5 then 0 else 3 * (5 - al_rung l) - al_hot l)"

lemma descent_step:
  assumes "al_inv l" and "bad_stats s \<or> hot_sample s"
  shows "descent (ladder_step s l) \<le> descent l - 1"
proof -
  from assms(1) have "al_rung l \<le> 5" "al_hot l < 3" by (auto simp: al_inv_def STREAMED_HOT_PERIODS_def)
  with assms(2) show ?thesis
    by (auto simp: ladder_step_cases descent_def demote_def Let_def STREAMED_HOT_PERIODS_def)
qed

lemma descent_run:
  "al_inv l \<Longrightarrow> list_all (\<lambda>s. bad_stats s \<or> hot_sample s) ss \<Longrightarrow>
     descent (fold ladder_step ss l) \<le> descent l - length ss"
proof (induction ss arbitrary: l)
  case Nil
  then show ?case by simp
next
  case (Cons s ss)
  then have "descent (fold ladder_step ss (ladder_step s l)) \<le> descent (ladder_step s l) - length ss"
    by (intro Cons.IH) (simp_all add: al_inv_step)
  with descent_step [of l s] Cons.prems show ?case by simp
qed

lemma descent_zero: "al_inv l \<Longrightarrow> descent l = 0 \<Longrightarrow> al_rung l = 5"
  by (auto simp: descent_def al_inv_def STREAMED_HOT_PERIODS_def split: if_splits)

lemma climb_zero: "al_inv l \<Longrightarrow> climb l = 0 \<Longrightarrow> al_rung l = al_top_rung l"
  by (auto simp: climb_def al_inv_def split: if_splits)

section \<open>The rungs\<close>

lemma rung_format_member: "rung_format r \<in> set LADDER"
  unfolding rung_format_def by (rule nth_mem) (simp add: min_def)

lemma clamp_range: "clamp_channels c = 1 \<or> clamp_channels c = 2"
  by (auto simp: clamp_channels_def MAX_MEDIA_CHANNELS_def)

lemma format_fits:
  assumes "f \<in> set LADDER"
  shows "let n = wire_packets_per_frame_for c f; b = frame_bytes_for c f
    in 0 < n \<and> n \<le> MAX_WIRE_PARTS \<and> n * (b div n) = b \<and> b div n \<le> SINGLE_PACKET_PAYLOAD_MAX \<and>
       (b div n) mod (bytes_per_sample (depth f) * clamp_channels c) = 0 \<and>
       (splits_frame_for c f \<longleftrightarrow> 1 < n)"
  using assms clamp_range [of c]
  by (auto simp: LADDER_def wire_packets_per_frame_for_def frame_bytes_for_def splits_frame_for_def
      SINGLE_PACKET_PAYLOAD_MAX_def MAX_WIRE_PARTS_def Let_def)

lemma distinct_LADDER: "distinct LADDER"
  by (simp add: LADDER_def)

lemma rung_of_iff:
  "rung_of rate d = Some r \<longleftrightarrow> r < length LADDER \<and> rung_format r = \<lparr>rate_hz = rate, depth = d\<rparr>"
proof -
  have "(\<lambda>f. rate_hz f = rate \<and> depth f = d) = (\<lambda>f. f = \<lparr>rate_hz = rate, depth = d\<rparr>)"
    by (auto simp: fun_eq_iff)
  then have "rung_of rate d = Some r \<longleftrightarrow> r < length LADDER \<and> LADDER ! r = \<lparr>rate_hz = rate, depth = d\<rparr>"
    unfolding rung_of_def by (simp only: position_unique [OF distinct_LADDER])
  moreover have "r < length LADDER \<Longrightarrow> rung_format r = LADDER ! r" by (simp add: rung_format_def min_def)
  ultimately show ?thesis by auto
qed

section \<open>Properties\<close>

text \<open>
  The ladder's table is coherent for every rung number and every channel count, also those out
  of range: a frame splits into at most four datagrams of equal size, none larger than the payload
  limit and none cutting a sample; the bit rate falls strictly with the rung; and looking a format
  up is the exact inverse of the table.
\<close>

theorem ladder_formats_fit:
  "(let f = rung_format r; n = wire_packets_per_frame_for c f; b = frame_bytes_for c f
    in 0 < n \<and> n \<le> MAX_WIRE_PARTS \<and> n * (b div n) = b \<and> b div n \<le> SINGLE_PACKET_PAYLOAD_MAX \<and>
       (b div n) mod (bytes_per_sample (depth f) * clamp_channels c) = 0 \<and>
       (splits_frame_for c f \<longleftrightarrow> 1 < n)) \<and>
   sorted_wrt (\<lambda>f g. kbps_for c g < kbps_for c f) LADDER \<and>
   (rung_of rate d = Some r \<longleftrightarrow> r < length LADDER \<and> rung_format r = \<lparr>rate_hz = rate, depth = d\<rparr>)"
proof -
  have sorted: "sorted_wrt (\<lambda>f g. kbps_for c g < kbps_for c f) LADDER"
    using clamp_range [of c] by (auto simp: LADDER_def kbps_for_def depth_bits_def)
  from sorted format_fits [OF rung_format_member [of r], of c] rung_of_iff [of rate d r] show ?thesis
    unfolding Let_def by blast
qed

text \<open>
  The automatic ladder never moves without cause, whatever mixture of periods it is fed: the
  rung stays between its ceiling, which never changes, and the lowest rung; one period moves it
  by at most one and reports exactly that; a promotion needs ten clean periods in a row; a
  demotion needs a period of heavy loss or jitter, or three streamed periods in a row with
  a full send queue.
\<close>

theorem ladder_moves_are_earned:
  assumes "l0 = auto_ladder_new \<or> l0 = auto_ladder_new_streamed"
  shows "let l = fold ladder_step ss l0; (rep, l') = ladder_feed s l; h = ss @ [s]
    in al_top_rung l' = al_top_rung l0 \<and> al_top_rung l0 \<le> al_rung l' \<and> al_rung l' < length LADDER \<and>
       rep = (if al_rung l' = al_rung l then None else Some (al_rung l')) \<and>
       (al_rung l' < al_rung l \<longrightarrow> al_rung l' = al_rung l - 1 \<and> 10 \<le> trailing clean_sample h) \<and>
       (al_rung l < al_rung l' \<longrightarrow> al_rung l' = al_rung l + 1 \<and>
          (bad_stats s \<or> 3 \<le> trailing hot_sample (filter is_streamed h)))"
proof -
  let ?l = "fold ladder_step ss l0"
  let ?l' = "ladder_step s ?l"
  from trace_inv_run [OF assms] have t: "trace_inv (ss, ?l)" .
  then have inv: "al_inv ?l" by (simp add: trace_inv_def)
  have "al_rung ?l' < length LADDER" "al_top_rung l0 \<le> al_rung ?l'"
    using al_inv_step [OF inv, of s] by (simp_all add: al_inv_def)
  moreover have "al_rung ?l' < al_rung ?l \<Longrightarrow> al_rung ?l' = al_rung ?l - 1 \<and> 10 \<le> trailing clean_sample (ss @ [s])"
    using step_moves(1) [OF inv, of s] t by (auto simp: trace_inv_def)
  moreover have "al_rung ?l < al_rung ?l' \<Longrightarrow> al_rung ?l' = al_rung ?l + 1 \<and>
      (bad_stats s \<or> 3 \<le> trailing hot_sample (filter is_streamed (ss @ [s])))"
    using step_moves(2) [OF inv, of s] t hot_is_streamed [of s] by (auto simp: trace_inv_def)
  moreover have "ladder_feed s ?l = (fst (ladder_feed s ?l), ?l')" by (simp add: ladder_step_def)
  ultimately show ?thesis
    using ladder_feed_reports [of s ?l] by (simp add: Let_def split: prod.split)
qed

theorem ladder_moves_are_earned_witness:
  "al_rung (fold ladder_step [Stats (Fin 9) (Fin 0)] auto_ladder_new) = 3 \<and>
   al_rung (snd (ladder_feed (Stats NaN (Fin 0)) (fold ladder_step [Stats (Fin 9) (Fin 0)] auto_ladder_new))) < 6"
  using ladder_moves_are_earned [of auto_ladder_new "[Stats (Fin 9) (Fin 0)]" "Stats NaN (Fin 0)"]
  by (simp add: auto_ladder_new_def AUTO_TOP_RUNG_def ladder_step_def feed_stats_def Let_def split_beta)

text \<open>
  The ladder converges in bounded time from every reachable state: ten clean periods per rung
  bring it to its ceiling and keep it there, and three bad ones per rung to the lowest rung.
\<close>

theorem ladder_converges:
  assumes "l0 = auto_ladder_new \<or> l0 = auto_ladder_new_streamed"
  shows "let l = fold ladder_step hs l0
    in (list_all clean_sample ss \<and> 10 * (al_rung l - al_top_rung l) \<le> length ss \<longrightarrow>
          al_rung (fold ladder_step ss l) = al_top_rung l) \<and>
       (list_all (\<lambda>s. bad_stats s \<or> hot_sample s) ss \<and> 3 * (5 - al_rung l) \<le> length ss \<longrightarrow>
          al_rung (fold ladder_step ss l) = 5)"
proof -
  let ?l = "fold ladder_step hs l0"
  have inv: "al_inv ?l" using trace_inv_run [OF assms] by (simp add: trace_inv_def)
  then have run: "al_inv (fold ladder_step ss ?l)" by (rule ladder.run_inv)
  have "al_rung (fold ladder_step ss ?l) = al_top_rung ?l"
    if ss: "list_all clean_sample ss" "10 * (al_rung ?l - al_top_rung ?l) \<le> length ss"
  proof -
    have "climb ?l \<le> 10 * (al_rung ?l - al_top_rung ?l)" by (simp add: climb_def)
    with climb_run [OF inv ss(1)] ss(2) have "climb (fold ladder_step ss ?l) = 0" by linarith
    from climb_zero [OF run this] show ?thesis by simp
  qed
  moreover have "al_rung (fold ladder_step ss ?l) = 5"
    if ss: "list_all (\<lambda>s. bad_stats s \<or> hot_sample s) ss" "3 * (5 - al_rung ?l) \<le> length ss"
  proof -
    have "descent ?l \<le> 3 * (5 - al_rung ?l)" by (simp add: descent_def)
    with descent_run [OF inv ss(1)] ss(2) have "descent (fold ladder_step ss ?l) = 0" by linarith
    from descent_zero [OF run this] show ?thesis .
  qed
  ultimately show ?thesis unfolding Let_def by blast
qed

theorem ladder_converges_witness:
  "al_rung (fold ladder_step (replicate 9 (Stats PosInf (Fin 0))) auto_ladder_new) = 5 \<and>
   al_rung (fold ladder_step (replicate 10 (Streamed (Fin 0) None False)) auto_ladder_new_streamed) = 3"
  using ladder_converges [of auto_ladder_new "[]" "replicate 9 (Stats PosInf (Fin 0))"]
    ladder_converges [of auto_ladder_new_streamed "[]" "replicate 10 (Streamed (Fin 0) None False)"]
  by (simp add: auto_ladder_new_def auto_ladder_new_streamed_def AUTO_TOP_RUNG_def AUTO_TOP_RUNG_STREAMED_def
      list_all_iff f64_le_def STREAMED_WRITEQ_CLEAN_MS_def spread_ok_def Let_def del: fold_replicate replicate_Suc)

end
