(* ===== verification/Targets.thy ===== *)
theory Targets
  imports Ladder RustStr
begin

text \<open>
  The user's choices of latency and quality (core/audiohub-ipc/src/transport.rs): their values,
  the strings in which they are stored and sent, and the sliders that show them.
\<close>

section \<open>Latency\<close>

definition LATENCY_AUTO :: string where
  "LATENCY_AUTO = ''auto''"

definition LATENCY_LEGACY_MIN :: string where
  "LATENCY_LEGACY_MIN = ''min''"

definition LATENCY_STOPS_MS :: "nat list" where
  "LATENCY_STOPS_MS = [0, 10, 20, 30, 50, 75, 100, 150, 200, 300, 500, 750, 1000]"

datatype latency_target = LatAuto | TotalMs nat

fun latency_as_wire :: "latency_target \<Rightarrow> string" where
  "latency_as_wire LatAuto = LATENCY_AUTO"
| "latency_as_wire (TotalMs ms) = show_nat ms"

definition latency_parse :: "string \<Rightarrow> latency_target option" where
  "latency_parse s =
     (if s = LATENCY_AUTO then Some LatAuto
      else if s = LATENCY_LEGACY_MIN then Some (TotalMs 0)
      else case parse_u16 s of
             None \<Rightarrow> None
           | Some ms \<Rightarrow> if ms \<in> set LATENCY_STOPS_MS then Some (TotalMs ms) else None)"

fun latency_slider_index :: "latency_target \<Rightarrow> nat" where
  "latency_slider_index LatAuto = 0"
| "latency_slider_index (TotalMs ms) =
     (case map_option Suc (position (\<lambda>m. m = ms) LATENCY_STOPS_MS) of None \<Rightarrow> 0 | Some i \<Rightarrow> i)"

section \<open>Quality\<close>

definition QUALITY_AUTO :: string where
  "QUALITY_AUTO = ''auto''"

fun depth_tag :: "wire_depth \<Rightarrow> string" where
  "depth_tag S16 = ''16''"
| "depth_tag S24 = ''24''"
| "depth_tag F32 = ''32f''"

definition quality_stop_id :: "wire_format \<Rightarrow> string" where
  "quality_stop_id f = ''pcm'' @ show_nat (rate_hz f div 1000) @ ''k'' @ depth_tag (depth f)"

record quality_stop =
  qs_id :: string
  qs_kbps :: "nat option"
  qs_rate :: "nat option"
  qs_depth :: "string option"
  qs_available :: bool
  qs_blocked_by :: "string option"

definition opus_stop :: "string \<Rightarrow> nat \<Rightarrow> quality_stop" where
  "opus_stop i kbps = \<lparr>qs_id = i, qs_kbps = Some kbps, qs_rate = None, qs_depth = None,
     qs_available = False, qs_blocked_by = Some ''opus''\<rparr>"

definition pcm_stop :: "wire_format \<Rightarrow> quality_stop" where
  "pcm_stop f = \<lparr>qs_id = quality_stop_id f, qs_kbps = Some (kbps_for 1 f), qs_rate = Some (rate_hz f),
     qs_depth = Some (depth_as_str (depth f)), qs_available = True, qs_blocked_by = None\<rparr>"

definition quality_stops :: "quality_stop list" where
  "quality_stops =
     [\<lparr>qs_id = QUALITY_AUTO, qs_kbps = None, qs_rate = None, qs_depth = None,
        qs_available = True, qs_blocked_by = None\<rparr>,
      opus_stop ''opus64'' 64, opus_stop ''opus128'' 128, opus_stop ''opus256'' 256]
     @ map pcm_stop (rev LADDER)"

datatype quality_target = QAuto | Fixed nat

fun quality_as_wire :: "quality_target \<Rightarrow> string" where
  "quality_as_wire QAuto = QUALITY_AUTO"
| "quality_as_wire (Fixed r) = quality_stop_id (rung_format r)"

fun quality_format :: "quality_target \<Rightarrow> wire_format option" where
  "quality_format QAuto = None"
| "quality_format (Fixed r) = Some (rung_format r)"

definition quality_parse :: "string \<Rightarrow> quality_target option" where
  "quality_parse s =
     (if s = QUALITY_AUTO then Some QAuto
      else case find (\<lambda>q. qs_id q = s) quality_stops of
             None \<Rightarrow> None
           | Some stop \<Rightarrow>
               if \<not> qs_available stop then None
               else case (qs_rate stop, qs_depth stop) of
                      (Some rate, Some name) \<Rightarrow>
                        (case depth_parse name of
                           None \<Rightarrow> None
                         | Some d \<Rightarrow> map_option Fixed (rung_of rate d))
                    | _ \<Rightarrow> None)"

definition quality_slider_index :: "quality_target \<Rightarrow> nat" where
  "quality_slider_index t =
     (case position (\<lambda>q. qs_id q = quality_as_wire t) quality_stops of None \<Rightarrow> 0 | Some i \<Rightarrow> i)"

section \<open>Which strings are targets\<close>

definition latency_valid :: "latency_target \<Rightarrow> bool" where
  "latency_valid t = (case t of LatAuto \<Rightarrow> True | TotalMs ms \<Rightarrow> ms \<in> set LATENCY_STOPS_MS)"

definition quality_valid :: "quality_target \<Rightarrow> bool" where
  "quality_valid t = (case t of QAuto \<Rightarrow> True | Fixed r \<Rightarrow> r < length LADDER)"

lemma show_nat_not_word: "show_nat n \<noteq> LATENCY_AUTO" "show_nat n \<noteq> LATENCY_LEGACY_MIN"
  using show_nat_digits [of n]
  by (auto simp: LATENCY_AUTO_def LATENCY_LEGACY_MIN_def)

lemma stop_bound: "ms \<in> set LATENCY_STOPS_MS \<Longrightarrow> ms \<le> 65535"
  by (auto simp: LATENCY_STOPS_MS_def)

lemma latency_parse_wire: "latency_valid t \<Longrightarrow> latency_parse (latency_as_wire t) = Some t"
  by (cases t)
    (auto simp: latency_parse_def latency_valid_def show_nat_not_word parse_show_u16 stop_bound)

lemma latency_parse_valid: "latency_parse s = Some t \<Longrightarrow> latency_valid t"
  by (auto simp: latency_parse_def latency_valid_def LATENCY_STOPS_MS_def split: if_splits option.splits)

text \<open>The identifiers of the rungs, computed once.\<close>

lemma rung_ids:
  "map quality_stop_id LADDER =
     [''pcm48k32f'', ''pcm48k24'', ''pcm48k16'', ''pcm32k16'', ''pcm24k16'', ''pcm16k16'']"
  by (simp add: LADDER_def quality_stop_id_def show_nat.simps)

lemma quality_stop_ids:
  "map qs_id quality_stops =
     [''auto'', ''opus64'', ''opus128'', ''opus256'', ''pcm16k16'', ''pcm24k16'', ''pcm32k16'',
      ''pcm48k16'', ''pcm48k24'', ''pcm48k32f'']"
  by (simp add: quality_stops_def opus_stop_def pcm_stop_def LADDER_def QUALITY_AUTO_def
      quality_stop_id_def show_nat.simps)

lemma slider_by_id:
  "quality_slider_index t =
     (case position (\<lambda>i. i = quality_as_wire t) (map qs_id quality_stops) of None \<Rightarrow> 0 | Some i \<Rightarrow> i)"
  by (simp add: quality_slider_index_def position_map)

lemma distinct_stop_ids: "distinct (map qs_id quality_stops)"
  by (simp add: quality_stop_ids)

lemma find_by_key:
  "distinct (map k xs) \<Longrightarrow> x \<in> set xs \<Longrightarrow> find (\<lambda>y. k y = k x) xs = Some x"
  by (induction xs) force+

lemma quality_parse_wire: "quality_valid t \<Longrightarrow> quality_parse (quality_as_wire t) = Some t"
proof (cases t)
  case QAuto
  then show ?thesis by (simp add: quality_parse_def)
next
  case (Fixed r)
  assume "quality_valid t"
  with Fixed have r: "r < length LADDER" by (simp add: quality_valid_def)
  let ?f = "rung_format r"
  have "pcm_stop ?f \<in> set quality_stops"
    using rung_format_member [of r] by (auto simp: quality_stops_def)
  from find_by_key [OF distinct_stop_ids this]
  have "find (\<lambda>q. qs_id q = quality_stop_id ?f) quality_stops = Some (pcm_stop ?f)"
    by (simp add: pcm_stop_def)
  moreover have "rung_of (rate_hz ?f) (depth ?f) = Some r"
    using r by (simp add: rung_of_iff)
  moreover have "quality_stop_id ?f \<noteq> QUALITY_AUTO"
    by (simp add: quality_stop_id_def QUALITY_AUTO_def)
  ultimately show ?thesis
    by (simp add: Fixed quality_parse_def pcm_stop_def depth_name.dec_enc)
qed

lemma rung_of_stop: "rung_of (rate_hz f) (depth f) = Some r \<Longrightarrow> rung_format r = f \<and> r < length LADDER"
  by (cases f) (simp add: rung_of_iff)

lemma quality_parse_exact:
  assumes "quality_parse s = Some t"
  shows "quality_valid t \<and> quality_as_wire t = s"
proof (cases "s = QUALITY_AUTO")
  case True
  with assms show ?thesis by (auto simp: quality_parse_def quality_valid_def)
next
  case False
  with assms obtain q rate name d where q: "find (\<lambda>q. qs_id q = s) quality_stops = Some q"
      "qs_rate q = Some rate" "qs_depth q = Some name" "depth_parse name = Some d"
      and t: "map_option Fixed (rung_of rate d) = Some t"
    by (auto simp: quality_parse_def split: option.splits if_splits)
  from q(1) have id: "qs_id q = s" "q \<in> set quality_stops"
    by (auto simp: find_Some_iff)
  with q(2) obtain f where f: "q = pcm_stop f"
    by (auto simp: quality_stops_def opus_stop_def)
  then have "rate = rate_hz f" "d = depth f"
    using q by (auto simp: pcm_stop_def depth_name.dec_enc)
  with t obtain r where "t = Fixed r" "rung_of (rate_hz f) (depth f) = Some r" by auto
  with rung_of_stop [of f r] id f show ?thesis
    by (simp add: quality_valid_def pcm_stop_def)
qed

section \<open>Properties\<close>

text \<open>
  The stored strings name the targets: every latency stop and every rung is read back from its
  own spelling, and nothing that is not a stop is ever read. A quality string has one spelling
  only. A latency has others besides the old word: a plus sign and leading zeros are accepted.
  The sliders show different targets at different positions, and the latency slider ascends.
\<close>

theorem target_strings:
  "(latency_parse (latency_as_wire t) = Some t \<longleftrightarrow> latency_valid t) \<and>
   (latency_parse s = Some t \<longrightarrow> latency_valid t) \<and>
   (quality_parse s = Some q \<longleftrightarrow> quality_valid q \<and> s = quality_as_wire q) \<and>
   latency_parse ''+200'' = Some (TotalMs 200) \<and> latency_parse ''0200'' = Some (TotalMs 200) \<and>
   map latency_slider_index (LatAuto # map TotalMs LATENCY_STOPS_MS) = [0..<14] \<and>
   map quality_slider_index [QAuto, Fixed 5, Fixed 4, Fixed 3, Fixed 2, Fixed 1, Fixed 0] = [0, 4, 5, 6, 7, 8, 9]"
proof -
  have "latency_parse ''+200'' = Some (TotalMs 200) \<and> latency_parse ''0200'' = Some (TotalMs 200)"
    by (simp add: latency_parse_def LATENCY_AUTO_def LATENCY_LEGACY_MIN_def parse_u16_def is_digit_def
        digit_val_def LATENCY_STOPS_MS_def)
  moreover have "map latency_slider_index (LatAuto # map TotalMs LATENCY_STOPS_MS) = [0..<14]"
    by (simp add: LATENCY_STOPS_MS_def upt_rec)
  moreover have "map quality_slider_index [QAuto, Fixed 5, Fixed 4, Fixed 3, Fixed 2, Fixed 1, Fixed 0] = [0, 4, 5, 6, 7, 8, 9]"
    using rung_ids by (simp add: slider_by_id quality_stop_ids rung_format_def QUALITY_AUTO_def LADDER_def)
  ultimately show ?thesis
    using latency_parse_wire [of t] latency_parse_valid [of _ t] quality_parse_wire [of q] quality_parse_exact [of s q]
    by blast
qed

theorem target_strings_witness:
  "quality_parse ''pcm48k24'' = Some (Fixed 1) \<and> latency_valid (TotalMs 200)"
proof
  show "quality_parse ''pcm48k24'' = Some (Fixed 1)"
    using target_strings [of LatAuto "''pcm48k24''" "Fixed 1"]
    by (simp add: quality_valid_def quality_stop_id_def rung_format_def LADDER_def show_nat.simps)
  show "latency_valid (TotalMs 200)"
    using target_strings [of "TotalMs 200" "''+200''" QAuto] by simp
qed

end
