(* ===== verification/WsUrl.thy ===== *)
theory WsUrl
  imports RustStr
begin

text \<open>
  The URL form of a peer address (core/audiohubd/src/wsshell.rs): the hand-written parser of
  ws://host[:port][/path], the request line it is turned back into, and the refusal of TLS. The
  main fact is that the request line names the same endpoint as the address it came from.
\<close>

record ws_url =
  ws_tls :: bool
  ws_host :: string
  ws_port :: nat
  ws_path :: string

datatype ws_error = NotWebSocketUrl | NoHost | UserInfo | BadPort | UnterminatedIpv6 | TextAfterIpv6

definition looks_like_url :: "string \<Rightarrow> bool" where
  "looks_like_url s =
     (let low = to_ascii_lowercase (trim s) in prefix ''ws://'' low \<or> prefix ''wss://'' low)"

definition default_port :: "bool \<Rightarrow> nat" where
  "default_port tls = (if tls then 443 else 80)"

definition is_path_start :: "char \<Rightarrow> bool" where
  "is_path_start c \<longleftrightarrow> c = CHR ''/'' \<or> c = CHR ''?'' \<or> c = CHR ''#''"

definition split_scheme :: "string \<Rightarrow> (bool \<times> string) option" where
  "split_scheme s =
     (let low = to_ascii_lowercase s in
      case strip_prefix ''ws://'' low of
        Some r \<Rightarrow> Some (False, drop (length s - length r) s)
      | None \<Rightarrow>
          (case strip_prefix ''wss://'' low of
             Some r \<Rightarrow> Some (True, drop (length s - length r) s)
           | None \<Rightarrow> None))"

definition split_path :: "string \<Rightarrow> string \<times> string" where
  "split_path rest =
     (case position is_path_start rest of
        Some i \<Rightarrow>
          if rest ! i = CHR ''/'' then (take i rest, drop i rest)
          else (take i rest, CHR ''/'' # drop i rest)
      | None \<Rightarrow> (rest, ''/''))"

definition port_of :: "string \<Rightarrow> ws_error + nat" where
  "port_of p = (case parse_u16 p of Some n \<Rightarrow> Inr n | None \<Rightarrow> Inl BadPort)"

definition split_authority :: "bool \<Rightarrow> string \<Rightarrow> ws_error + string \<times> nat" where
  "split_authority tls authority =
     (case strip_prefix ''['' authority of
        Some close \<Rightarrow>
          (case position (\<lambda>c. c = CHR '']'') close of
             None \<Rightarrow> Inl UnterminatedIpv6
           | Some i \<Rightarrow>
               let h = take i close; tail = drop (i + 1) close in
               case strip_prefix '':'' tail of
                 Some p \<Rightarrow> (case port_of p of Inl e \<Rightarrow> Inl e | Inr n \<Rightarrow> Inr (''['' @ h @ '']'', n))
               | None \<Rightarrow> if tail = [] then Inr (''['' @ h @ '']'', default_port tls) else Inl TextAfterIpv6)
      | None \<Rightarrow>
          (case rsplit_once (CHR '':'') authority of
             Some (h, p) \<Rightarrow> (case port_of p of Inl e \<Rightarrow> Inl e | Inr n \<Rightarrow> Inr (h, n))
           | None \<Rightarrow> Inr (authority, default_port tls)))"

definition ws_parse :: "string \<Rightarrow> ws_error + ws_url" where
  "ws_parse s =
     (case split_scheme (trim s) of
        None \<Rightarrow> Inl NotWebSocketUrl
      | Some (tls, rest) \<Rightarrow>
          if rest = [] then Inl NoHost
          else
            let (authority, path) = split_path rest in
            if CHR ''@'' \<in> set authority then Inl UserInfo
            else
              case split_authority tls authority of
                Inl e \<Rightarrow> Inl e
              | Inr (host, port) \<Rightarrow>
                  if host = [] \<or> host = ''[]'' then Inl NoHost
                  else Inr \<lparr>ws_tls = tls, ws_host = host, ws_port = port, ws_path = path\<rparr>)"

definition ws_authority :: "ws_url \<Rightarrow> string" where
  "ws_authority u = ws_host u @ '':'' @ show_nat (ws_port u)"

definition request_uri :: "ws_url \<Rightarrow> string" where
  "request_uri u = ''ws://'' @ ws_host u @ '':'' @ show_nat (ws_port u) @ ws_path u"

definition require_plaintext :: "ws_url \<Rightarrow> bool" where
  "require_plaintext u = (\<not> ws_tls u)"

section \<open>Trimming leaves nothing to trim\<close>

definition trimmed :: "string \<Rightarrow> bool" where
  "trimmed s \<longleftrightarrow> list_all (\<lambda>w. \<not> prefix w s \<and> \<not> suffix w s) WHITE_SPACE"

lemma strip_all_suffix: "suffix (strip_all ws s) s"
proof (induction ws s rule: strip_all.induct)
  case (1 ws s)
  show ?case
  proof (cases "find (\<lambda>w. w \<noteq> [] \<and> prefix w s) ws")
    case None
    then show ?thesis by (simp add: strip_all.simps)
  next
    case (Some w)
    from 1 [OF Some] have "suffix (strip_all ws (drop (length w) s)) s"
      by (rule suffix_order.trans) (rule suffix_drop)
    with Some show ?thesis by (simp add: strip_all.simps [of ws s])
  qed
qed

lemma strip_all_done: "w \<in> set ws \<Longrightarrow> w \<noteq> [] \<Longrightarrow> \<not> prefix w (strip_all ws s)"
proof (induction ws s rule: strip_all.induct)
  case (1 ws s)
  show ?case
  proof (cases "find (\<lambda>w. w \<noteq> [] \<and> prefix w s) ws")
    case None
    with 1 have "\<not> prefix w s" by (auto simp: find_None_iff)
    with None show ?thesis by (simp add: strip_all.simps)
  next
    case (Some v)
    then show ?thesis using 1 by (simp add: strip_all.simps [of ws s])
  qed
qed

lemma strip_all_id: "list_all (\<lambda>w. \<not> prefix w s) ws \<Longrightarrow> strip_all ws s = s"
  by (subst strip_all.simps) (auto simp: find_Some_iff list_all_length split: option.split)

lemma WHITE_SPACE_nonempty: "w \<in> set WHITE_SPACE \<Longrightarrow> w \<noteq> []"
  by (auto simp: WHITE_SPACE_def)

lemma prefix_rev_suffix: "prefix (rev w) (rev s) \<longleftrightarrow> suffix w s"
  by (simp add: suffix_to_prefix)

lemma trim_id: "trimmed s \<Longrightarrow> trim s = s"
  by (simp add: trim_def trim_start_def trim_end_def trimmed_def strip_all_id list_all_iff prefix_rev_suffix)


lemma trimmed_trim: "trimmed (trim s)"
proof -
  let ?t = "trim_start s"
  have "prefix (trim s) ?t"
    using strip_all_suffix [of "map rev WHITE_SPACE" "rev ?t"]
    by (simp add: trim_def trim_end_def suffix_to_prefix)
  moreover have "\<not> prefix w ?t" if "w \<in> set WHITE_SPACE" for w
    using that strip_all_done [of w WHITE_SPACE s] WHITE_SPACE_nonempty by (simp add: trim_start_def)
  moreover have "\<not> suffix w (trim s)" if "w \<in> set WHITE_SPACE" for w
    using that strip_all_done [of "rev w" "map rev WHITE_SPACE" "rev ?t"] WHITE_SPACE_nonempty
    by (auto simp: trim_def trim_end_def suffix_to_prefix)
  ultimately show ?thesis by (auto simp: trimmed_def list_all_iff dest: prefix_order.trans)
qed

lemma suffix_after: "suffix w (xs @ c # ys) \<Longrightarrow> c \<notin> set w \<Longrightarrow> suffix w ys"
proof (induction xs)
  case Nil
  then show ?case by (auto simp: suffix_Cons)
next
  case (Cons x xs)
  then show ?case by (auto simp: suffix_Cons)
qed

lemma white_chars: "w \<in> set WHITE_SPACE \<Longrightarrow> CHR ''/'' \<notin> set w \<and> \<not> prefix w (CHR ''w'' # xs)"
  by (auto simp: WHITE_SPACE_def)

lemma trimmed_url:
  assumes "trimmed t" and "suffix p t"
  shows "trimmed (CHR ''w'' # xs @ CHR ''/'' # p)"
proof -
  have "\<not> suffix w (CHR ''w'' # xs @ CHR ''/'' # p)" if w: "w \<in> set WHITE_SPACE" for w
  proof
    assume "suffix w (CHR ''w'' # xs @ CHR ''/'' # p)"
    then have "suffix w p"
      using white_chars [OF w] suffix_after [of w "CHR ''w'' # xs" "CHR ''/''" p] by simp
    from this assms(2) have "suffix w t" by (rule suffix_order.trans)
    with assms(1) w show False by (simp add: trimmed_def list_all_iff)
  qed
  then show ?thesis using white_chars by (auto simp: trimmed_def list_all_iff)
qed

section \<open>What the parser accepts\<close>

lemma ws_chars [simp]: "ascii_lower CHR ''w'' = CHR ''w''" "ascii_lower CHR ''s'' = CHR ''s''"
    "ascii_lower CHR '':'' = CHR '':''" "ascii_lower CHR ''/'' = CHR ''/''"
  by (simp_all add: ascii_lower_def)

lemma split_scheme_ws: "split_scheme (''ws://'' @ rest) = Some (False, rest)"
  by (simp add: split_scheme_def strip_prefix_def to_ascii_lowercase_def)

lemma split_scheme_suffix: "split_scheme s = Some (tls, rest) \<Longrightarrow> suffix rest s"
  by (auto simp: split_scheme_def Let_def suffix_drop split: option.splits)

lemma split_path_shape:
  assumes "split_path rest = (authority, path)"
  shows "list_all (\<lambda>c. \<not> is_path_start c) authority \<and> (\<exists>p. path = CHR ''/'' # p \<and> suffix p rest)"
proof (cases "position is_path_start rest")
  case None
  with assms show ?thesis by (auto simp: split_path_def position_None)
next
  case (Some i)
  then have i: "i < length rest" "list_all (\<lambda>c. \<not> is_path_start c) (take i rest)" by (auto simp: position_Some)
  show ?thesis
  proof (cases "rest ! i = CHR ''/''")
    case True
    with i have "drop i rest = CHR ''/'' # drop (Suc i) rest" by (metis Cons_nth_drop_Suc)
    with True assms Some i(2) show ?thesis
      by (intro conjI exI [of _ "drop (Suc i) rest"]) (simp_all add: split_path_def suffix_drop)
  next
    case False
    with assms Some i show ?thesis by (auto simp: split_path_def suffix_drop)
  qed
qed

lemma split_path_join:
  assumes "list_all (\<lambda>c. \<not> is_path_start c) authority"
  shows "split_path (authority @ CHR ''/'' # p) = (authority, CHR ''/'' # p)"
proof -
  have "position is_path_start (authority @ CHR ''/'' # p) = Some (length authority)"
    using assms by (simp add: position_append is_path_start_def)
  then show ?thesis by (simp add: split_path_def)
qed

text \<open>The hosts that can come out: a bracketed literal, or text that does not open a bracket.\<close>

definition host_ok :: "string \<Rightarrow> bool" where
  "host_ok h \<longleftrightarrow> (if prefix ''['' h then h \<noteq> ''[]'' \<and> (\<exists>b. h = ''['' @ b @ '']'' \<and> CHR '']'' \<notin> set b) else h \<noteq> [])"

lemma strip_prefix_one: "strip_prefix [c] s = (case s of [] \<Rightarrow> None | d # t \<Rightarrow> if c = d then Some t else None)"
  by (cases s) (simp_all add: strip_prefix_def)

lemma port_of_range: "port_of p = Inr n \<Longrightarrow> n \<le> 65535"
  by (auto simp: port_of_def dest: parse_u16_range split: option.splits)

lemma default_port_range: "default_port tls \<le> 65535"
  by (simp add: default_port_def)

lemma port_of_show: "n \<le> 65535 \<Longrightarrow> port_of (show_nat n) = Inr n"
  by (simp add: port_of_def parse_show_u16)

lemma split_authority_shape:
  assumes "split_authority tls a = Inr (h, n)" and "h \<noteq> []" and "h \<noteq> ''[]''"
  shows "host_ok h \<and> set h \<subseteq> set a \<and> n \<le> 65535"
proof (cases "strip_prefix ''['' a")
  case None
  show ?thesis
  proof (cases "rsplit_once (CHR '':'') a")
    case None
    with \<open>strip_prefix ''['' a = None\<close> assms have "h = a" "n = default_port tls" by (auto simp: split_authority_def)
    with \<open>strip_prefix ''['' a = None\<close> assms show ?thesis
      using default_port_range by (auto simp: host_ok_def strip_prefix_def)
  next
    case (Some hp)
    with \<open>strip_prefix ''['' a = None\<close> assms have "hp = (h, snd hp)" and n: "port_of (snd hp) = Inr n"
      by (auto simp: split_authority_def split: prod.splits sum.splits)
    with Some have a: "a = h @ CHR '':'' # snd hp" using rsplit_once_Some [of "CHR '':''" a] by metis
    then have "\<not> prefix ''['' h" using \<open>strip_prefix ''['' a = None\<close> assms(2)
      by (cases h) (auto simp: strip_prefix_one)
    with assms a port_of_range [OF n] show ?thesis by (auto simp: host_ok_def)
  qed
next
  case (Some close)
  then have a: "a = CHR ''['' # close" by (cases a) (auto simp: strip_prefix_one split: if_splits)
  from Some assms obtain i where i: "position (\<lambda>c. c = CHR '']'') close = Some i"
    by (auto simp: split_authority_def split: option.splits)
  have "h = ''['' @ take i close @ '']'' \<and> n \<le> 65535"
  proof (cases "strip_prefix '':'' (drop (i + 1) close)")
    case None
    with Some i assms(1) show ?thesis
      using default_port_range [of tls] by (simp add: split_authority_def split: if_splits)
  next
    case tail: (Some q)
    with Some i assms(1) show ?thesis
      using port_of_range [of q] by (simp add: split_authority_def split: sum.splits)
  qed
  then have h: "h = ''['' @ take i close @ '']''" and n: "n \<le> 65535" by simp_all
  from i have "i < length close" "close ! i = CHR '']''" and nb: "CHR '']'' \<notin> set (take i close)"
    unfolding position_Some list_all_iff by blast+
  then have "CHR '']'' \<in> set close" by (metis nth_mem)
  with h a have "set h \<subseteq> set a"
    using set_take_subset [of i close] by auto
  moreover from h assms(3) nb have "host_ok h"
  proof -
    from h have "prefix ''['' h" by simp
    with h assms(3) nb show ?thesis unfolding host_ok_def by metis
  qed
  ultimately show ?thesis using n by simp
qed

lemma split_authority_join:
  assumes "host_ok h" and "n \<le> 65535"
  shows "split_authority tls (h @ '':'' @ show_nat n) = Inr (h, n)"
proof (cases "prefix ''['' h")
  case False
  with assms(1) obtain c cs where h: "h = c # cs" "c \<noteq> CHR ''[''" by (cases h) (auto simp: host_ok_def)
  have "CHR '':'' \<notin> set (show_nat n)"
    using show_nat_digits [of n] not_digit(1) by (auto simp: list_all_iff)
  from rsplit_once_last [OF this, of h] h assms(2) show ?thesis
    by (simp add: split_authority_def strip_prefix_one port_of_show)
next
  case True
  with assms(1) obtain b where h: "h = ''['' @ b @ '']''" "CHR '']'' \<notin> set b" by (auto simp: host_ok_def)
  have "position (\<lambda>c. c = CHR '']'') (b @ CHR '']'' # CHR '':'' # show_nat n) = Some (length b)"
    using h(2) by (subst position_append) (auto simp: list_all_iff)
  with h(1) assms(2) show ?thesis
    by (simp add: split_authority_def strip_prefix_one port_of_show)
qed

lemma ws_parse_shape:
  assumes "ws_parse s = Inr u"
  shows "host_ok (ws_host u) \<and> ws_port u \<le> 65535 \<and> CHR ''@'' \<notin> set (ws_host u) \<and>
    list_all (\<lambda>c. \<not> is_path_start c) (ws_host u) \<and> (\<exists>p. ws_path u = CHR ''/'' # p \<and> suffix p (trim s))"
proof -
  from assms obtain tls rest a path h n where sc: "split_scheme (trim s) = Some (tls, rest)"
    and sp: "split_path rest = (a, path)" and at: "CHR ''@'' \<notin> set a"
    and au: "split_authority tls a = Inr (h, n)" and h: "h \<noteq> []" "h \<noteq> ''[]''"
    and u: "u = \<lparr>ws_tls = tls, ws_host = h, ws_port = n, ws_path = path\<rparr>"
    by (auto simp: ws_parse_def split: option.splits prod.splits sum.splits if_splits)
  from split_path_shape [OF sp] obtain p where p: "path = CHR ''/'' # p" "suffix p rest"
    and a: "list_all (\<lambda>c. \<not> is_path_start c) a" by blast
  from p(2) split_scheme_suffix [OF sc] have "suffix p (trim s)" by (rule suffix_order.trans)
  with p(1) a at split_authority_shape [OF au h] u show ?thesis
    by (auto simp: list_all_iff)
qed

section \<open>Properties\<close>

text \<open>
  The request line that is sent names the endpoint of the address: parsing it gives back the
  same host, port and path, with the scheme that the plaintext check allows; and the accepted
  addresses have a host free of path and user characters, a 16-bit port and an absolute path.
\<close>

theorem request_uri_roundtrip:
  assumes "ws_parse s = Inr u"
  shows "ws_parse (request_uri u) = Inr (u\<lparr>ws_tls := False\<rparr>) \<and> looks_like_url s \<and>
    ws_host u \<noteq> [] \<and> ws_port u \<le> 65535 \<and> hd (ws_path u) = CHR ''/'' \<and>
    set (ws_host u) \<inter> {CHR ''@'', CHR ''/'', CHR ''?'', CHR ''#''} = {}"
proof -
  from ws_parse_shape [OF assms] obtain p where host: "host_ok (ws_host u)" and port: "ws_port u \<le> 65535"
    and at: "CHR ''@'' \<notin> set (ws_host u)" and hp: "list_all (\<lambda>c. \<not> is_path_start c) (ws_host u)"
    and p: "ws_path u = CHR ''/'' # p" "suffix p (trim s)" by blast
  let ?a = "ws_host u @ '':'' @ show_nat (ws_port u)"
  have uri: "request_uri u = ''ws://'' @ ?a @ CHR ''/'' # p" by (simp add: request_uri_def p)
  have "trimmed (request_uri u)"
    using trimmed_url [OF trimmed_trim p(2), of "''s://'' @ ?a"] by (simp add: uri)
  then have sc: "split_scheme (trim (request_uri u)) = Some (False, ?a @ CHR ''/'' # p)"
    by (simp only: trim_id) (simp only: uri split_scheme_ws)
  have digits: "list_all (\<lambda>c. \<not> is_path_start c \<and> c \<noteq> CHR ''@'') (show_nat (ws_port u))"
    using show_nat_digits [of "ws_port u"] not_digit by (auto simp: list_all_iff is_path_start_def)
  then have sp: "split_path (?a @ CHR ''/'' # p) = (?a, CHR ''/'' # p)"
    using hp by (intro split_path_join) (auto simp: list_all_iff is_path_start_def)
  have "CHR ''@'' \<notin> set ?a" using at digits by (auto simp: list_all_iff)
  moreover have "ws_host u \<noteq> []" "ws_host u \<noteq> ''[]''" using host by (auto simp: host_ok_def)
  ultimately have "ws_parse (request_uri u) = Inr (u\<lparr>ws_tls := False\<rparr>)"
    using sc sp split_authority_join [OF host port, of False] p by (simp add: ws_parse_def)
  moreover have "looks_like_url s"
    using assms by (auto simp: ws_parse_def looks_like_url_def split_scheme_def strip_prefix_def Let_def
        split: option.splits if_splits)
  ultimately show ?thesis
    using port p \<open>ws_host u \<noteq> []\<close> at hp by (auto simp: list_all_iff is_path_start_def)
qed

theorem request_uri_roundtrip_witness:
  "\<exists>u. ws_parse ''  WS://[fe80::1]:47810?x '' = Inr u \<and> request_uri u = ''ws://[fe80::1]:47810/?x'' \<and>
     ws_parse (request_uri u) = Inr u"
proof -
  have parsed: "ws_parse ''  WS://[fe80::1]:47810?x '' =
      Inr \<lparr>ws_tls = False, ws_host = ''[fe80::1]'', ws_port = 47810, ws_path = ''/?x''\<rparr>"
    by (simp add: ws_parse_def trim_def trim_start_def trim_end_def WHITE_SPACE_def strip_all.simps
        split_scheme_def strip_prefix_def to_ascii_lowercase_def ascii_lower_def char_of_def bit_iff_odd
        split_path_def is_path_start_def split_authority_def port_of_def parse_u16_def is_digit_def digit_val_def)
  from request_uri_roundtrip [OF parsed] show ?thesis
    unfolding parsed by (simp add: request_uri_def show_nat.simps)
qed

end
