(* ===== verification/PeerTransport.thy ===== *)
theory PeerTransport
  imports Interfaces Targets WsUrl
begin

text \<open>
  What is remembered about each peer's transport (core/audiohubd/src/peer_transport.rs): the two
  directions' targets, the connectivity tier the user chose and the one the detector observed,
  the dial policy and the URL address, with the clean-up on load and the table of all peers.
  Reading and parsing the file is the work of the standard library and of serde; the results of
  those calls are parameters of the loading function.
\<close>

section \<open>One direction\<close>

record stored_dir =
  sd_latency :: string
  sd_quality :: string
  sd_quality_reset_from :: "string option"
  sd_latency_reset_from :: "string option"

definition stored_dir_default :: stored_dir where
  "stored_dir_default = \<lparr>sd_latency = LATENCY_AUTO, sd_quality = QUALITY_AUTO,
     sd_quality_reset_from = None, sd_latency_reset_from = None\<rparr>"

definition unwrap_or :: "'a option \<Rightarrow> 'a \<Rightarrow> 'a" where
  "unwrap_or r d = (case r of None \<Rightarrow> d | Some x \<Rightarrow> x)"

definition sd_latency_target :: "stored_dir \<Rightarrow> latency_target" where
  "sd_latency_target d = unwrap_or (latency_parse (sd_latency d)) LatAuto"

definition sd_quality_target :: "stored_dir \<Rightarrow> quality_target" where
  "sd_quality_target d = unwrap_or (quality_parse (sd_quality d)) QAuto"

definition sd_sanitize :: "stored_dir \<Rightarrow> stored_dir" where
  "sd_sanitize d =
     (let d = (if latency_parse (sd_latency d) = None
               then d\<lparr>sd_latency_reset_from := Some (sd_latency d), sd_latency := LATENCY_AUTO\<rparr> else d)
      in if quality_parse (sd_quality d) = None
         then d\<lparr>sd_quality_reset_from := Some (sd_quality d), sd_quality := QUALITY_AUTO\<rparr> else d)"

section \<open>Tiers and dial policies\<close>

datatype transport_tier = TierAuto | Tier0 | Tier1 | Tier2

definition tier_parse :: "string \<Rightarrow> transport_tier option" where
  "tier_parse s =
     (if s = ''auto'' then Some TierAuto
      else if s = ''tier0'' then Some Tier0
      else if s = ''tier1'' then Some Tier1
      else if s = ''tier2'' then Some Tier2
      else None)"

fun tier_as_wire :: "transport_tier \<Rightarrow> string" where
  "tier_as_wire TierAuto = ''auto''"
| "tier_as_wire Tier0 = ''tier0''"
| "tier_as_wire Tier1 = ''tier1''"
| "tier_as_wire Tier2 = ''tier2''"

interpretation tier_wire: wire_enum tier_as_wire tier_parse
proof
  show "tier_parse (tier_as_wire t) = Some t" for t by (cases t) (simp_all add: tier_parse_def)
  show "tier_as_wire t = s" if "tier_parse s = Some t" for s t
    using that by (auto simp: tier_parse_def split: if_splits)
qed

datatype dial_policy = Both | OutboundOnly | InboundOnly

definition dial_parse :: "string \<Rightarrow> dial_policy option" where
  "dial_parse s =
     (if s = ''both'' then Some Both
      else if s = ''outbound_only'' then Some OutboundOnly
      else if s = ''inbound_only'' then Some InboundOnly
      else None)"

fun dial_as_wire :: "dial_policy \<Rightarrow> string" where
  "dial_as_wire Both = ''both''"
| "dial_as_wire OutboundOnly = ''outbound_only''"
| "dial_as_wire InboundOnly = ''inbound_only''"

definition may_dial :: "dial_policy \<Rightarrow> bool" where
  "may_dial p \<longleftrightarrow> p \<noteq> InboundOnly"

interpretation dial_wire: wire_enum dial_as_wire dial_parse
proof
  show "dial_parse (dial_as_wire p) = Some p" for p by (cases p) (simp_all add: dial_parse_def)
  show "dial_as_wire p = s" if "dial_parse s = Some p" for s p
    using that by (auto simp: dial_parse_def split: if_splits)
qed

section \<open>One peer\<close>

record peer_transport =
  pt_recv :: stored_dir
  pt_send :: stored_dir
  pt_transport_tier :: string
  pt_transport_tier_reset_from :: "string option"
  pt_auto_tier :: "string option"
  pt_auto_tier_reason :: "string option"
  pt_auto_tier_since :: "nat option"
  pt_dial_policy :: string
  pt_dial_policy_reset_from :: "string option"
  pt_endpoint :: string
  pt_endpoint_reset_from :: "string option"

definition auto_tier_default :: string where
  "auto_tier_default = tier_as_wire TierAuto"

definition both_dial :: string where
  "both_dial = dial_as_wire Both"

definition peer_transport_default :: peer_transport where
  "peer_transport_default = \<lparr>pt_recv = stored_dir_default, pt_send = stored_dir_default,
     pt_transport_tier = auto_tier_default, pt_transport_tier_reset_from = None,
     pt_auto_tier = None, pt_auto_tier_reason = None, pt_auto_tier_since = None,
     pt_dial_policy = both_dial, pt_dial_policy_reset_from = None,
     pt_endpoint = [], pt_endpoint_reset_from = None\<rparr>"

definition pt_tier :: "peer_transport \<Rightarrow> transport_tier" where
  "pt_tier t = unwrap_or (tier_parse (pt_transport_tier t)) TierAuto"

definition pt_observed_tier :: "peer_transport \<Rightarrow> transport_tier option" where
  "pt_observed_tier t =
     (case pt_auto_tier t of
        None \<Rightarrow> None
      | Some s \<Rightarrow> (case tier_parse s of Some Tier1 \<Rightarrow> Some Tier1 | _ \<Rightarrow> None))"

definition pt_effective_tier :: "peer_transport \<Rightarrow> transport_tier" where
  "pt_effective_tier t =
     (case pt_tier t of
        TierAuto \<Rightarrow> unwrap_or (pt_observed_tier t) Tier0
      | pinned \<Rightarrow> pinned)"

definition pt_dial :: "peer_transport \<Rightarrow> dial_policy" where
  "pt_dial t = unwrap_or (dial_parse (pt_dial_policy t)) Both"

definition pt_set_auto_tier :: "transport_tier \<Rightarrow> string \<Rightarrow> nat \<Rightarrow> peer_transport \<Rightarrow> peer_transport" where
  "pt_set_auto_tier tier reason now_unix t =
     t\<lparr>pt_auto_tier := Some (tier_as_wire tier), pt_auto_tier_reason := Some reason,
       pt_auto_tier_since := Some now_unix\<rparr>"

definition pt_clear_auto_tier :: "peer_transport \<Rightarrow> peer_transport" where
  "pt_clear_auto_tier t = t\<lparr>pt_auto_tier := None, pt_auto_tier_reason := None, pt_auto_tier_since := None\<rparr>"

definition ws_parses :: "string \<Rightarrow> bool" where
  "ws_parses s = (case ws_parse s of Inl e \<Rightarrow> False | Inr u \<Rightarrow> True)"

definition reset_tier :: "peer_transport \<Rightarrow> peer_transport" where
  "reset_tier t =
     (if tier_parse (pt_transport_tier t) = None
      then t\<lparr>pt_transport_tier_reset_from := Some (pt_transport_tier t), pt_transport_tier := auto_tier_default\<rparr>
      else t)"

definition reset_dial :: "peer_transport \<Rightarrow> peer_transport" where
  "reset_dial t =
     (if dial_parse (pt_dial_policy t) = None
      then t\<lparr>pt_dial_policy_reset_from := Some (pt_dial_policy t), pt_dial_policy := both_dial\<rparr>
      else t)"

definition discard_observation :: "peer_transport \<Rightarrow> peer_transport" where
  "discard_observation t =
     (if pt_auto_tier t \<noteq> None \<and> pt_observed_tier t = None then pt_clear_auto_tier t else t)"

definition reset_endpoint :: "peer_transport \<Rightarrow> peer_transport" where
  "reset_endpoint t =
     (if pt_endpoint t \<noteq> [] \<and> \<not> ws_parses (pt_endpoint t)
      then t\<lparr>pt_endpoint_reset_from := Some (pt_endpoint t), pt_endpoint := []\<rparr>
      else t)"

definition pt_sanitize :: "peer_transport \<Rightarrow> peer_transport" where
  "pt_sanitize t =
     (let t = t\<lparr>pt_recv := sd_sanitize (pt_recv t), pt_send := sd_sanitize (pt_send t)\<rparr>
      in reset_endpoint (discard_observation (reset_dial (reset_tier t))))"

section \<open>The table of all peers\<close>

type_synonym transport_store = "string \<Rightarrow> peer_transport option"

definition store_load ::
  "'f option \<Rightarrow> ('f \<Rightarrow> 'v option) \<Rightarrow> ('v \<Rightarrow> (string \<times> 'v) list option) \<Rightarrow>
   ('v \<Rightarrow> peer_transport option) \<Rightarrow> transport_store" where
  "store_load file from_slice peers_of from_value =
     (case file of
        None \<Rightarrow> Map.empty
      | Some bytes \<Rightarrow>
          (case from_slice bytes of
             None \<Rightarrow> Map.empty
           | Some doc \<Rightarrow>
               (case peers_of doc of
                  None \<Rightarrow> Map.empty
                | Some peers \<Rightarrow>
                    fold (\<lambda>(fp, v) m. case from_value v of
                                        Some t \<Rightarrow> m(fp \<mapsto> pt_sanitize t)
                                      | None \<Rightarrow> m) peers Map.empty)))"

definition store_get :: "string \<Rightarrow> transport_store \<Rightarrow> peer_transport" where
  "store_get fp s = unwrap_or (s fp) peer_transport_default"

definition store_peek :: "string \<Rightarrow> transport_store \<Rightarrow> peer_transport option" where
  "store_peek fp s = s fp"

definition store_set :: "string \<Rightarrow> peer_transport \<Rightarrow> transport_store \<Rightarrow> transport_store" where
  "store_set fp t s = s(fp \<mapsto> t)"

definition store_tier :: "string \<Rightarrow> transport_store \<Rightarrow> transport_tier" where
  "store_tier fp s = (case s fp of None \<Rightarrow> TierAuto | Some t \<Rightarrow> pt_tier t)"

definition store_effective_tier :: "string \<Rightarrow> transport_store \<Rightarrow> transport_tier" where
  "store_effective_tier fp s = (case s fp of None \<Rightarrow> Tier0 | Some t \<Rightarrow> pt_effective_tier t)"

definition store_note_auto_tier ::
  "string \<Rightarrow> transport_tier \<Rightarrow> string \<Rightarrow> nat \<Rightarrow> transport_store \<Rightarrow> bool \<times> transport_store" where
  "store_note_auto_tier fp tier reason now_unix s =
     (let e = unwrap_or (s fp) peer_transport_default in
      if pt_observed_tier e = Some tier then (False, s(fp \<mapsto> e))
      else (True, s(fp \<mapsto> pt_set_auto_tier tier reason now_unix e)))"

definition store_clear_auto_tier :: "string \<Rightarrow> transport_store \<Rightarrow> bool \<times> transport_store" where
  "store_clear_auto_tier fp s =
     (case s fp of
        Some e \<Rightarrow> if pt_auto_tier e \<noteq> None then (True, s(fp \<mapsto> pt_clear_auto_tier e)) else (False, s)
      | None \<Rightarrow> (False, s))"

definition store_dial_policy :: "string \<Rightarrow> transport_store \<Rightarrow> dial_policy" where
  "store_dial_policy fp s = (case s fp of None \<Rightarrow> Both | Some t \<Rightarrow> pt_dial t)"

definition store_endpoint :: "string \<Rightarrow> transport_store \<Rightarrow> ws_url option" where
  "store_endpoint fp s =
     (let raw = (case s fp of None \<Rightarrow> [] | Some t \<Rightarrow> pt_endpoint t) in
      if raw = [] then None else case ws_parse raw of Inl e \<Rightarrow> None | Inr u \<Rightarrow> Some u)"

definition store_remove :: "string \<Rightarrow> transport_store \<Rightarrow> bool \<times> transport_store" where
  "store_remove fp s = (s fp \<noteq> None, s(fp := None))"

section \<open>Loading\<close>

lemma unwrap_or_simps [simp]: "unwrap_or None d = d" "unwrap_or (Some x) d = x"
  by (simp_all add: unwrap_or_def)

lemma parse_auto [simp]: "latency_parse LATENCY_AUTO = Some LatAuto" "quality_parse QUALITY_AUTO = Some QAuto"
  "tier_parse auto_tier_default = Some TierAuto" "dial_parse both_dial = Some Both"
  by (simp_all add: latency_parse_def quality_parse_def auto_tier_default_def both_dial_def
      tier_wire.dec_enc dial_wire.dec_enc del: tier_as_wire.simps dial_as_wire.simps)

text \<open>A record in which every stored string means something to this build.\<close>

definition dir_executable :: "stored_dir \<Rightarrow> bool" where
  "dir_executable d \<longleftrightarrow> latency_parse (sd_latency d) \<noteq> None \<and> quality_parse (sd_quality d) \<noteq> None"

definition pt_executable :: "peer_transport \<Rightarrow> bool" where
  "pt_executable t \<longleftrightarrow> dir_executable (pt_recv t) \<and> dir_executable (pt_send t) \<and>
     tier_parse (pt_transport_tier t) \<noteq> None \<and> dial_parse (pt_dial_policy t) \<noteq> None \<and>
     (pt_auto_tier t \<noteq> None \<longrightarrow> pt_observed_tier t = Some Tier1) \<and>
     (pt_endpoint t \<noteq> [] \<longrightarrow> ws_parses (pt_endpoint t))"

lemma observed_range: "pt_observed_tier t \<noteq> None \<Longrightarrow> pt_observed_tier t = Some Tier1"
  by (auto simp: pt_observed_tier_def split: option.splits transport_tier.splits)

lemma observed_cong [simp]:
  "pt_observed_tier (t\<lparr>pt_recv := r\<rparr>) = pt_observed_tier t" "pt_observed_tier (t\<lparr>pt_send := r\<rparr>) = pt_observed_tier t"
  "pt_observed_tier (t\<lparr>pt_transport_tier := x\<rparr>) = pt_observed_tier t"
  "pt_observed_tier (t\<lparr>pt_transport_tier_reset_from := y\<rparr>) = pt_observed_tier t"
  "pt_observed_tier (t\<lparr>pt_dial_policy := x\<rparr>) = pt_observed_tier t"
  "pt_observed_tier (t\<lparr>pt_dial_policy_reset_from := y\<rparr>) = pt_observed_tier t"
  "pt_observed_tier (t\<lparr>pt_endpoint := x\<rparr>) = pt_observed_tier t"
  "pt_observed_tier (t\<lparr>pt_endpoint_reset_from := y\<rparr>) = pt_observed_tier t"
  by (simp_all add: pt_observed_tier_def)

lemma sd_sanitize_executable: "dir_executable (sd_sanitize d)"
  by (simp add: dir_executable_def sd_sanitize_def Let_def)

lemma sd_sanitize_id: "dir_executable d \<Longrightarrow> sd_sanitize d = d"
  by (auto simp: dir_executable_def sd_sanitize_def)

lemma sd_sanitize_behaviour:
  "sd_latency_target (sd_sanitize d) = sd_latency_target d"
  "sd_quality_target (sd_sanitize d) = sd_quality_target d"
  by (simp_all add: sd_sanitize_def sd_latency_target_def sd_quality_target_def Let_def)

lemma cleared [simp]: "pt_observed_tier (pt_clear_auto_tier t) = None" "pt_auto_tier (pt_clear_auto_tier t) = None"
  "pt_recv (pt_clear_auto_tier t) = pt_recv t" "pt_send (pt_clear_auto_tier t) = pt_send t"
  "pt_transport_tier (pt_clear_auto_tier t) = pt_transport_tier t"
  "pt_dial_policy (pt_clear_auto_tier t) = pt_dial_policy t" "pt_endpoint (pt_clear_auto_tier t) = pt_endpoint t"
  by (simp_all add: pt_clear_auto_tier_def pt_observed_tier_def)

lemma ws_parses_empty [simp]: "\<not> ws_parses []"
  by (simp add: ws_parses_def ws_parse_def trim_def trim_start_def trim_end_def WHITE_SPACE_def
      strip_all.simps split_scheme_def strip_prefix_def to_ascii_lowercase_def)

text \<open>The fields after each step of the clean-up.\<close>

lemma reset_fields [simp]:
  "pt_recv (reset_tier t) = pt_recv t" "pt_send (reset_tier t) = pt_send t"
  "pt_auto_tier (reset_tier t) = pt_auto_tier t" "pt_dial_policy (reset_tier t) = pt_dial_policy t"
  "pt_endpoint (reset_tier t) = pt_endpoint t" "pt_observed_tier (reset_tier t) = pt_observed_tier t"
  "pt_recv (reset_dial t) = pt_recv t" "pt_send (reset_dial t) = pt_send t"
  "pt_auto_tier (reset_dial t) = pt_auto_tier t" "pt_transport_tier (reset_dial t) = pt_transport_tier t"
  "pt_endpoint (reset_dial t) = pt_endpoint t" "pt_observed_tier (reset_dial t) = pt_observed_tier t"
  "pt_recv (discard_observation t) = pt_recv t" "pt_send (discard_observation t) = pt_send t"
  "pt_transport_tier (discard_observation t) = pt_transport_tier t"
  "pt_dial_policy (discard_observation t) = pt_dial_policy t" "pt_endpoint (discard_observation t) = pt_endpoint t"
  "pt_recv (reset_endpoint t) = pt_recv t" "pt_send (reset_endpoint t) = pt_send t"
  "pt_transport_tier (reset_endpoint t) = pt_transport_tier t"
  "pt_dial_policy (reset_endpoint t) = pt_dial_policy t" "pt_auto_tier (reset_endpoint t) = pt_auto_tier t"
  "pt_observed_tier (reset_endpoint t) = pt_observed_tier t"
  by (simp_all add: reset_tier_def reset_dial_def discard_observation_def reset_endpoint_def)

lemma reset_values [simp]:
  "pt_transport_tier (reset_tier t) =
     (if tier_parse (pt_transport_tier t) = None then auto_tier_default else pt_transport_tier t)"
  "pt_dial_policy (reset_dial t) = (if dial_parse (pt_dial_policy t) = None then both_dial else pt_dial_policy t)"
  "pt_auto_tier (discard_observation t) = (if pt_observed_tier t = None then None else pt_auto_tier t)"
  "pt_observed_tier (discard_observation t) = pt_observed_tier t"
  "pt_endpoint (reset_endpoint t) = (if ws_parses (pt_endpoint t) then pt_endpoint t else [])"
  by (auto simp: reset_tier_def reset_dial_def discard_observation_def reset_endpoint_def)

text \<open>What the clean-up leaves in each field.\<close>

lemma sanitize_fields [simp]:
  "pt_recv (pt_sanitize t) = sd_sanitize (pt_recv t)"
  "pt_send (pt_sanitize t) = sd_sanitize (pt_send t)"
  "pt_transport_tier (pt_sanitize t) =
     (if tier_parse (pt_transport_tier t) = None then auto_tier_default else pt_transport_tier t)"
  "pt_dial_policy (pt_sanitize t) = (if dial_parse (pt_dial_policy t) = None then both_dial else pt_dial_policy t)"
  "pt_auto_tier (pt_sanitize t) = (if pt_observed_tier t = None then None else pt_auto_tier t)"
  "pt_observed_tier (pt_sanitize t) = pt_observed_tier t"
  "pt_endpoint (pt_sanitize t) = (if ws_parses (pt_endpoint t) then pt_endpoint t else [])"
  by (simp_all add: pt_sanitize_def)

lemma pt_sanitize_executable: "pt_executable (pt_sanitize t)"
  using observed_range [of t] by (auto simp: pt_executable_def sd_sanitize_executable)

lemma reset_ids:
  "tier_parse (pt_transport_tier t) \<noteq> None \<Longrightarrow> reset_tier t = t"
  "dial_parse (pt_dial_policy t) \<noteq> None \<Longrightarrow> reset_dial t = t"
  "(pt_auto_tier t \<noteq> None \<longrightarrow> pt_observed_tier t = Some Tier1) \<Longrightarrow> discard_observation t = t"
  "(pt_endpoint t \<noteq> [] \<longrightarrow> ws_parses (pt_endpoint t)) \<Longrightarrow> reset_endpoint t = t"
  by (auto simp: reset_tier_def reset_dial_def discard_observation_def reset_endpoint_def)

lemma pt_sanitize_id:
  assumes "pt_executable t"
  shows "pt_sanitize t = t"
proof -
  from assms have "t\<lparr>pt_recv := sd_sanitize (pt_recv t), pt_send := sd_sanitize (pt_send t)\<rparr> = t"
    by (simp add: pt_executable_def sd_sanitize_id)
  with assms show ?thesis
    unfolding pt_sanitize_def Let_def pt_executable_def by (metis reset_ids)
qed

lemma load_fold:
  "distinct (map fst peers) \<Longrightarrow>
   fold (\<lambda>(fp, v) m. case from_value v of Some t \<Rightarrow> m(fp \<mapsto> pt_sanitize t) | None \<Rightarrow> m) peers m fp =
     (case map_of peers fp of
        None \<Rightarrow> m fp
      | Some v \<Rightarrow> (case from_value v of None \<Rightarrow> m fp | Some t \<Rightarrow> Some (pt_sanitize t)))"
proof (induction peers arbitrary: m)
  case Nil
  then show ?case by simp
next
  case (Cons p peers)
  obtain k v where p: "p = (k, v)" by fastforce
  from Cons.prems p have "map_of peers k = None" by (simp add: map_of_eq_None_iff)
  with Cons p show ?case by (auto split: option.split)
qed


lemma effective_tier_cases:
  "pt_effective_tier t =
     (if pt_tier t \<noteq> TierAuto then pt_tier t else if pt_observed_tier t = Some Tier1 then Tier1 else Tier0)"
  using observed_range [of t]
  by (cases "pt_observed_tier t") (auto simp: pt_effective_tier_def split: transport_tier.split)

text \<open>A reset is reported together with what was there.\<close>

definition resets_reported :: "peer_transport \<Rightarrow> peer_transport \<Rightarrow> bool" where
  "resets_reported raw t \<longleftrightarrow>
     (pt_transport_tier t \<noteq> pt_transport_tier raw \<longrightarrow> pt_transport_tier_reset_from t = Some (pt_transport_tier raw)) \<and>
     (pt_dial_policy t \<noteq> pt_dial_policy raw \<longrightarrow> pt_dial_policy_reset_from t = Some (pt_dial_policy raw)) \<and>
     (pt_endpoint t \<noteq> pt_endpoint raw \<longrightarrow> pt_endpoint_reset_from t = Some (pt_endpoint raw)) \<and>
     (sd_latency (pt_recv t) \<noteq> sd_latency (pt_recv raw) \<longrightarrow>
        sd_latency_reset_from (pt_recv t) = Some (sd_latency (pt_recv raw))) \<and>
     (sd_quality (pt_send t) \<noteq> sd_quality (pt_send raw) \<longrightarrow>
        sd_quality_reset_from (pt_send t) = Some (sd_quality (pt_send raw)))"

lemma companion_stages [simp]:
  "pt_transport_tier_reset_from (reset_endpoint t) = pt_transport_tier_reset_from t"
  "pt_transport_tier_reset_from (discard_observation t) = pt_transport_tier_reset_from t"
  "pt_transport_tier_reset_from (reset_dial t) = pt_transport_tier_reset_from t"
  "pt_dial_policy_reset_from (reset_endpoint t) = pt_dial_policy_reset_from t"
  "pt_dial_policy_reset_from (discard_observation t) = pt_dial_policy_reset_from t"
  "tier_parse (pt_transport_tier t) = None \<Longrightarrow>
     pt_transport_tier_reset_from (reset_tier t) = Some (pt_transport_tier t)"
  "dial_parse (pt_dial_policy t) = None \<Longrightarrow> pt_dial_policy_reset_from (reset_dial t) = Some (pt_dial_policy t)"
  "pt_endpoint t \<noteq> [] \<Longrightarrow> \<not> ws_parses (pt_endpoint t) \<Longrightarrow>
     pt_endpoint_reset_from (reset_endpoint t) = Some (pt_endpoint t)"
  by (simp_all add: reset_endpoint_def discard_observation_def pt_clear_auto_tier_def reset_dial_def reset_tier_def)

lemma reset_companions:
  "tier_parse (pt_transport_tier t) = None \<Longrightarrow> pt_transport_tier_reset_from (pt_sanitize t) = Some (pt_transport_tier t)"
  "dial_parse (pt_dial_policy t) = None \<Longrightarrow> pt_dial_policy_reset_from (pt_sanitize t) = Some (pt_dial_policy t)"
  "pt_endpoint t \<noteq> [] \<Longrightarrow> \<not> ws_parses (pt_endpoint t) \<Longrightarrow> pt_endpoint_reset_from (pt_sanitize t) = Some (pt_endpoint t)"
  by (simp_all add: pt_sanitize_def)

lemma dir_companions:
  "latency_parse (sd_latency d) = None \<Longrightarrow> sd_latency_reset_from (sd_sanitize d) = Some (sd_latency d)"
  "quality_parse (sd_quality d) = None \<Longrightarrow> sd_quality_reset_from (sd_sanitize d) = Some (sd_quality d)"
  "latency_parse (sd_latency d) \<noteq> None \<Longrightarrow> sd_latency (sd_sanitize d) = sd_latency d"
  "quality_parse (sd_quality d) \<noteq> None \<Longrightarrow> sd_quality (sd_sanitize d) = sd_quality d"
  by (auto simp: sd_sanitize_def Let_def)

lemma sanitize_reports: "resets_reported t (pt_sanitize t)"
  using reset_companions [of t] dir_companions [of "pt_recv t"] dir_companions [of "pt_send t"]
  unfolding resets_reported_def by (auto split: if_splits)

lemma sanitize_behaviour:
  "pt_tier (pt_sanitize t) = pt_tier t" "pt_dial (pt_sanitize t) = pt_dial t"
  "pt_effective_tier (pt_sanitize t) = pt_effective_tier t"
proof -
  show tier: "pt_tier (pt_sanitize t) = pt_tier t" and "pt_dial (pt_sanitize t) = pt_dial t"
    by (simp_all add: pt_tier_def pt_dial_def)
  show "pt_effective_tier (pt_sanitize t) = pt_effective_tier t"
    by (simp add: effective_tier_cases tier)
qed

section \<open>The detector\<close>

datatype detector_event =
    NoteTier string transport_tier string nat
  | ClearTier string

fun detector_step :: "detector_event \<Rightarrow> transport_store \<Rightarrow> transport_store" where
  "detector_step (NoteTier fp tier reason now_unix) s = snd (store_note_auto_tier fp tier reason now_unix s)"
| "detector_step (ClearTier fp) s = snd (store_clear_auto_tier fp s)"

text \<open>The user's part of a record, and the detector's last word about a peer.\<close>

definition user_part :: "peer_transport \<Rightarrow> peer_transport" where
  "user_part t = pt_clear_auto_tier t"

fun verdict_step :: "string \<Rightarrow> detector_event \<Rightarrow> bool \<Rightarrow> bool" where
  "verdict_step fp (NoteTier k tier reason now_unix) v = (if k = fp then tier = Tier1 else v)"
| "verdict_step fp (ClearTier k) v = (if k = fp then False else v)"

definition observed :: "string \<Rightarrow> transport_store \<Rightarrow> bool" where
  "observed fp s \<longleftrightarrow> pt_observed_tier (store_get fp s) = Some Tier1"

lemma observed_set [simp]:
  "pt_observed_tier (pt_set_auto_tier tier reason now_unix t) = (if tier = Tier1 then Some Tier1 else None)"
  by (cases tier) (simp_all add: pt_observed_tier_def pt_set_auto_tier_def tier_parse_def)

lemma user_part_set [simp]:
  "user_part (pt_set_auto_tier tier reason now_unix t) = user_part t"
  "user_part (pt_clear_auto_tier t) = user_part t"
  by (simp_all add: user_part_def pt_set_auto_tier_def pt_clear_auto_tier_def)

lemma not_observed: "pt_auto_tier t = None \<Longrightarrow> pt_observed_tier t = None"
  by (simp add: pt_observed_tier_def)

lemma default_not_observed [simp]: "pt_observed_tier peer_transport_default = None"
  by (simp add: pt_observed_tier_def peer_transport_default_def)

lemma detector_step_effect:
  "user_part (store_get fp (detector_step e s)) = user_part (store_get fp s)"
  "observed fp (detector_step e s) = verdict_step fp e (observed fp s)"
  using not_observed [of "the (s fp)"] observed_range [of "the (s fp)"]
  by (cases e; cases "s fp"; auto simp: store_note_auto_tier_def store_clear_auto_tier_def store_get_def
        observed_def Let_def split: option.split)+

lemma detector_run:
  "user_part (store_get fp (fold detector_step es s)) = user_part (store_get fp s)"
  "observed fp (fold detector_step es s) = fold (verdict_step fp) es (observed fp s)"
  by (induction es arbitrary: s) (simp_all add: detector_step_effect)

lemma user_part_fields:
  assumes "user_part t = user_part u"
  shows "pt_tier t = pt_tier u" "pt_dial t = pt_dial u" "pt_endpoint t = pt_endpoint u"
    "pt_recv t = pt_recv u" "pt_send t = pt_send u"
proof -
  have f: "g (user_part t) = g (user_part u)" for g :: "peer_transport \<Rightarrow> 'a" using assms by simp
  from f [of pt_transport_tier] f [of pt_dial_policy] show "pt_tier t = pt_tier u" "pt_dial t = pt_dial u"
    by (simp_all add: user_part_def pt_tier_def pt_dial_def)
  from f [of pt_endpoint] f [of pt_recv] f [of pt_send] show "pt_endpoint t = pt_endpoint u"
    "pt_recv t = pt_recv u" "pt_send t = pt_send u"
    by (simp_all add: user_part_def)
qed

lemma default_values [simp]: "pt_tier peer_transport_default = TierAuto" "pt_dial peer_transport_default = Both"
    "pt_endpoint peer_transport_default = []"
  by (simp_all add: pt_tier_def pt_dial_def peer_transport_default_def)

lemma store_readers:
  "store_tier fp s = pt_tier (store_get fp s)"
  "store_dial_policy fp s = pt_dial (store_get fp s)"
  "store_effective_tier fp s = pt_effective_tier (store_get fp s)"
  "store_endpoint fp s = (let raw = pt_endpoint (store_get fp s) in
     if raw = [] then None else case ws_parse raw of Inl e \<Rightarrow> None | Inr u \<Rightarrow> Some u)"
  by (auto simp: store_tier_def store_dial_policy_def store_effective_tier_def store_get_def store_endpoint_def
      effective_tier_cases Let_def split: option.split)

section \<open>Properties\<close>

text \<open>
  Loading isolates damage: whatever the file holds, each peer gets the cleaned-up form of its
  own record, or none if that record could not be read, independently of all other records; every
  string left in the table is one this build can execute, every reset is reported with the string
  it replaced, cleaning up again changes nothing, and the tier and dial policy that execute are the ones the raw record stood for.
\<close>

theorem load_isolates_records:
  assumes "from_slice bytes = Some doc" and "peers_of doc = Some peers" and "distinct (map fst peers)"
  shows "let s = store_load (Some bytes) from_slice peers_of from_value; raw = Option.bind (map_of peers fp) from_value
    in s fp = map_option pt_sanitize raw \<and>
       (case s fp of None \<Rightarrow> store_effective_tier fp s = Tier0
        | Some t \<Rightarrow> pt_executable t \<and> pt_sanitize t = t \<and> resets_reported (the raw) t \<and>
            store_effective_tier fp s = pt_effective_tier (the raw) \<and>
            store_dial_policy fp s = pt_dial (the raw) \<and>
            sd_latency_target (pt_recv t) = sd_latency_target (pt_recv (the raw)) \<and>
            sd_quality_target (pt_send t) = sd_quality_target (pt_send (the raw)))"
proof -
  let ?s = "store_load (Some bytes) from_slice peers_of from_value"
  let ?raw = "Option.bind (map_of peers fp) from_value"
  have s: "?s fp = map_option pt_sanitize ?raw"
    using load_fold [OF assms(3), of from_value Map.empty fp] assms(1,2)
    by (simp add: store_load_def split: option.split)
  show ?thesis
  proof (cases ?raw)
    case None
    with s show ?thesis by (simp add: store_effective_tier_def)
  next
    case (Some t)
    with s show ?thesis
      by (simp add: store_effective_tier_def store_dial_policy_def sanitize_behaviour
          pt_sanitize_executable pt_sanitize_id sd_sanitize_behaviour sanitize_reports)
  qed
qed

theorem load_isolates_records_witness:
  "store_load (Some ()) (\<lambda>b. Some False) (\<lambda>d. Some [(''a'', True), (''b'', False)])
     (\<lambda>v. if v then Some (peer_transport_default\<lparr>pt_transport_tier := ''tier9''\<rparr>) else None) ''b'' = None \<and>
   map_option pt_transport_tier (store_load (Some ()) (\<lambda>b. Some False) (\<lambda>d. Some [(''a'', True), (''b'', False)])
     (\<lambda>v. if v then Some (peer_transport_default\<lparr>pt_transport_tier := ''tier9''\<rparr>) else None) ''a'') = Some ''auto''"
proof -
  let ?from = "\<lambda>v. if v then Some (peer_transport_default\<lparr>pt_transport_tier := ''tier9''\<rparr>) else None"
  note r = load_isolates_records [of "\<lambda>b. Some False" "()" False "\<lambda>d. Some [(''a'', True), (''b'', False)]"
      "[(''a'', True), (''b'', False)]" ?from]
  show ?thesis using r [of "''a''"] r [of "''b''"] by (simp add: Let_def tier_parse_def auto_tier_default_def)
qed

text \<open>
  The detector never overrides the user: after any sequence of verdicts and retirements about
  any peers, every field the user sets is what it was; a pinned tier is the tier that runs; without
  a pin the tier that runs is tier 1 exactly if the last word about that peer was a tier 1 verdict,
  and tier 0 otherwise, so tier 2 is never reached without a pin.
\<close>

theorem detector_respects_choice:
  "let s' = fold detector_step es s
   in user_part (store_get fp s') = user_part (store_get fp s) \<and>
      store_tier fp s' = store_tier fp s \<and> store_dial_policy fp s' = store_dial_policy fp s \<and>
      store_endpoint fp s' = store_endpoint fp s \<and>
      store_effective_tier fp s' =
        (if store_tier fp s \<noteq> TierAuto then store_tier fp s
         else if fold (verdict_step fp) es (observed fp s) then Tier1 else Tier0)"
proof -
  let ?s = "fold detector_step es s"
  have u: "user_part (store_get fp ?s) = user_part (store_get fp s)" by (rule detector_run)
  have "observed fp ?s = fold (verdict_step fp) es (observed fp s)" by (rule detector_run)
  then have "store_effective_tier fp ?s =
      (if pt_tier (store_get fp ?s) \<noteq> TierAuto then pt_tier (store_get fp ?s)
       else if fold (verdict_step fp) es (observed fp s) then Tier1 else Tier0)"
    by (simp add: store_readers effective_tier_cases observed_def)
  with u user_part_fields [OF u] show ?thesis
    by (simp add: store_readers Let_def)
qed

end
