(* ===== verification/Reconnect.thy ===== *)
theory Reconnect
  imports OpMode PeerTransport "HOL-Library.AList" "HOL-Library.Multiset"
begin

text \<open>
  Reconnection and session recovery (core/audiohubd/src/reconnect.rs with the callers in
  conn.rs): the backoff ladder, the table of peers to retry, the plan of sessions to open again,
  the three checks of a replay, and the supervisor with its attempt threads as a machine whose
  events interleave freely with connections coming and going. Instants are rational seconds; the
  rounding of the floating point products in the delay is not modelled, its random factor is an
  argument. What happens on the network is an argument too: whether a connect or an open succeeds.
\<close>

section \<open>Backoff\<close>

definition BACKOFF_S :: "rat list" where
  "BACKOFF_S = [1, 2, 5, 10, 30]"

definition JITTER_FRAC :: rat where
  "JITTER_FRAC = 1 / 5"

definition backoff_base_s :: "nat \<Rightarrow> rat" where
  "backoff_base_s attempt = BACKOFF_S ! min attempt (length BACKOFF_S - 1)"

definition apply_jitter :: "rat \<Rightarrow> rat \<Rightarrow> rat" where
  "apply_jitter base r = base * (1 - JITTER_FRAC + 2 * JITTER_FRAC * max 0 (min r 1))"

definition next_delay_s :: "nat \<Rightarrow> rat \<Rightarrow> rat" where
  "next_delay_s attempt r = apply_jitter (backoff_base_s attempt) r"

section \<open>Plans\<close>

record planned_session =
  ps_params :: open_session_params
  ps_origin :: session_origin

record peer_recon =
  pr_addr :: "string option"
  pr_attempts :: nat
  pr_next_at :: "rat option"
  pr_in_flight :: bool
  pr_sessions :: "planned_session list"

definition peer_recon_new :: "string option \<Rightarrow> peer_recon" where
  "peer_recon_new a = \<lparr>pr_addr = a, pr_attempts = 0, pr_next_at = None, pr_in_flight = False, pr_sessions = []\<rparr>"

definition recoverable_by_replay :: "session_origin \<Rightarrow> bool" where
  "recoverable_by_replay origin \<longleftrightarrow> origin = User"

definition same_media_intent :: "open_session_params \<Rightarrow> open_session_params \<Rightarrow> bool" where
  "same_media_intent a b \<longleftrightarrow>
     osp_kind a = osp_kind b \<and> osp_source a = osp_source b \<and> osp_freq a = osp_freq b \<and>
     osp_backend a = osp_backend b \<and> osp_hal a = osp_hal b \<and> osp_bridge a = osp_bridge b \<and>
     osp_monitor a = osp_monitor b"

datatype replay_action = Open session_origin | SkipDuplicate | SkipMode refusal

definition is_hal :: "session_origin \<Rightarrow> bool" where
  "is_hal origin = (case origin of Hal slot \<Rightarrow> True | _ \<Rightarrow> False)"

definition plan_replay :: "planned_session \<Rightarrow> open_session_params list \<Rightarrow> mode \<Rightarrow> replay_action" where
  "plan_replay p live m =
     (if list_ex (\<lambda>l. same_media_intent l (ps_params p)) live then SkipDuplicate
      else if is_hal (ps_origin p) then Open (ps_origin p)
      else case refuse_using_others m (osp_override_mode (ps_params p)) of
             Some why \<Rightarrow> SkipMode why
           | None \<Rightarrow> Open (ps_origin p))"

section \<open>The daemon's part\<close>

record net_conn =
  nc_id :: nat
  nc_fp :: string
  nc_alive :: bool

record live_session =
  ls_id :: nat
  ls_conn :: nat
  ls_fp :: string
  ls_origin :: session_origin
  ls_replay :: "open_session_params option"

record recon_state =
  rs_recon :: "(string \<times> peer_recon) list"
  rs_conns :: "(string \<times> net_conn) list"
  rs_sessions :: "live_session list"
  rs_transport :: transport_store
  rs_mode :: mode
  rs_paired :: "string list"

definition live_intents :: "string \<Rightarrow> recon_state \<Rightarrow> open_session_params list" where
  "live_intents fp s = List.map_filter ls_replay (filter (\<lambda>e. ls_fp e = fp) (rs_sessions s))"

definition recon_may_dial :: "string \<Rightarrow> recon_state \<Rightarrow> bool" where
  "recon_may_dial fp s \<longleftrightarrow> may_dial (store_dial_policy fp (rs_transport s))"

definition set_entry :: "string \<Rightarrow> peer_recon \<Rightarrow> recon_state \<Rightarrow> recon_state" where
  "set_entry fp e s = s\<lparr>rs_recon := AList.update fp e (rs_recon s)\<rparr>"

definition disarm :: "string \<Rightarrow> recon_state \<Rightarrow> recon_state" where
  "disarm fp s = s\<lparr>rs_recon := AList.delete fp (rs_recon s)\<rparr>"

definition note_outbound :: "string \<Rightarrow> string option \<Rightarrow> recon_state \<Rightarrow> planned_session list \<times> recon_state" where
  "note_outbound fp addr s =
     (if \<not> recon_may_dial fp s then ([], s)
      else
        let e = (case map_of (rs_recon s) fp of Some e \<Rightarrow> e | None \<Rightarrow> peer_recon_new addr);
            e = (if addr \<noteq> None then e\<lparr>pr_addr := addr\<rparr> else e);
            e' = e\<lparr>pr_attempts := 0, pr_next_at := None, pr_sessions := []\<rparr>
        in (pr_sessions e, set_entry fp e' s))"

text \<open>
  Arming after a drop, on the first rung or at once. \<open>now\<close> is the clock, \<open>r\<close> the random factor.
\<close>

definition arm_in :: "string \<Rightarrow> planned_session list \<Rightarrow> bool \<Rightarrow> rat \<Rightarrow> rat \<Rightarrow> recon_state \<Rightarrow> recon_state" where
  "arm_in fp sessions immediate now r s =
     (if \<not> recon_may_dial fp s then disarm fp s
      else case map_of (rs_recon s) fp of
             None \<Rightarrow> s
           | Some e \<Rightarrow>
               let e = e\<lparr>pr_sessions := pr_sessions e @ sessions\<rparr> in
               (case pr_next_at e of
                  Some t \<Rightarrow> set_entry fp (if immediate \<and> now < t then e\<lparr>pr_next_at := Some now\<rparr> else e) s
                | None \<Rightarrow>
                    let d = (if immediate then 0 else next_delay_s 0 r)
                    in set_entry fp (e\<lparr>pr_attempts := 0, pr_next_at := Some (now + d)\<rparr>) s))"

definition recon_snapshot :: "rat \<Rightarrow> recon_state \<Rightarrow> (string \<times> bool \<times> rat option) list" where
  "recon_snapshot now s =
     map (\<lambda>(fp, e). (fp, pr_next_at e \<noteq> None, map_option (\<lambda>t. max 0 (t - now)) (pr_next_at e))) (rs_recon s)"

definition is_due :: "rat \<Rightarrow> peer_recon \<Rightarrow> bool" where
  "is_due now e \<longleftrightarrow> \<not> pr_in_flight e \<and> (case pr_next_at e of None \<Rightarrow> False | Some t \<Rightarrow> t \<le> now)"

definition supervise :: "rat \<Rightarrow> recon_state \<Rightarrow> string list \<times> recon_state" where
  "supervise now s =
     (map fst (filter (\<lambda>(fp, e). is_due now e) (rs_recon s)),
      s\<lparr>rs_recon := map (\<lambda>(fp, e). (fp, if is_due now e then e\<lparr>pr_in_flight := True\<rparr> else e)) (rs_recon s)\<rparr>)"

definition attempt_finished :: "string \<Rightarrow> recon_state \<Rightarrow> recon_state" where
  "attempt_finished fp s =
     (case map_of (rs_recon s) fp of
        None \<Rightarrow> s
      | Some e \<Rightarrow> set_entry fp (e\<lparr>pr_in_flight := False\<rparr>) s)"

text \<open>
  The three parts of an attempt: what is checked before dialling, and what follows a connect that
  succeeded or failed. In the first, None is the unpaired or forbidden peer that is disarmed; in
  the second, None is the peer that was disarmed meanwhile, whose connection is dropped again.
\<close>

definition attempt_check :: "string \<Rightarrow> recon_state \<Rightarrow> bool \<times> recon_state" where
  "attempt_check fp s =
     (if fp \<notin> set (rs_paired s) then (False, disarm fp s)
      else if \<not> recon_may_dial fp s then (False, disarm fp s)
      else (True, s))"

definition attempt_connected :: "string \<Rightarrow> recon_state \<Rightarrow> planned_session list option \<times> recon_state" where
  "attempt_connected fp s =
     (case map_of (rs_recon s) fp of
        Some e \<Rightarrow> (Some (pr_sessions e), set_entry fp (e\<lparr>pr_attempts := 0, pr_next_at := None, pr_sessions := []\<rparr>) s)
      | None \<Rightarrow> (None, s))"

definition attempt_failed :: "string \<Rightarrow> rat \<Rightarrow> rat \<Rightarrow> recon_state \<Rightarrow> recon_state" where
  "attempt_failed fp now r s =
     (case map_of (rs_recon s) fp of
        Some e \<Rightarrow>
          if pr_next_at e \<noteq> None then
            let n = saturating_inc32 (pr_attempts e)
            in set_entry fp (e\<lparr>pr_attempts := n, pr_next_at := Some (now + next_delay_s n r)\<rparr>) s
          else s
      | None \<Rightarrow> s)"

section \<open>Losing a connection\<close>

definition captured :: "net_conn \<Rightarrow> recon_state \<Rightarrow> planned_session list" where
  "captured c s =
     List.map_filter
       (\<lambda>e. case ls_replay e of
              Some p \<Rightarrow> if recoverable_by_replay (ls_origin e)
                        then Some \<lparr>ps_params = p, ps_origin = ls_origin e\<rparr> else None
            | None \<Rightarrow> None)
       (sort_key ls_id (filter (\<lambda>e. ls_conn e = nc_id c) (rs_sessions s)))"

definition teardown_conn :: "net_conn \<Rightarrow> rat \<Rightarrow> rat \<Rightarrow> recon_state \<Rightarrow> recon_state" where
  "teardown_conn c now r s =
     (let mine = captured c s;
          s = s\<lparr>rs_sessions := filter (\<lambda>e. ls_conn e \<noteq> nc_id c) (rs_sessions s)\<rparr>;
          s = (case map_of (rs_conns s) (nc_fp c) of
                 Some d \<Rightarrow> if nc_id d = nc_id c then s\<lparr>rs_conns := AList.delete (nc_fp c) (rs_conns s)\<rparr> else s
               | None \<Rightarrow> s);
          replaced = (case map_of (rs_conns s) (nc_fp c) of Some d \<Rightarrow> nc_alive d | None \<Rightarrow> False)
      in arm_in (nc_fp c) mine replaced now r s)"

definition drop_conn :: "string \<Rightarrow> rat \<Rightarrow> rat \<Rightarrow> recon_state \<Rightarrow> recon_state" where
  "drop_conn fp now r s =
     (case map_of (rs_conns s) fp of
        None \<Rightarrow> s
      | Some c \<Rightarrow> teardown_conn c now r s)"

datatype retier = Stored | Reconnecting | AwaitingPeer

definition retier_peer :: "string \<Rightarrow> rat \<Rightarrow> rat \<Rightarrow> recon_state \<Rightarrow> retier \<times> recon_state" where
  "retier_peer fp now r s =
     (if \<not> (case map_of (rs_conns s) fp of Some c \<Rightarrow> nc_alive c | None \<Rightarrow> False) then (Stored, s)
      else
        let s = drop_conn fp now r s
        in (if map_of (rs_recon s) fp \<noteq> None then Reconnecting else AwaitingPeer, s))"

definition disconnect_peer :: "string \<Rightarrow> rat \<Rightarrow> rat \<Rightarrow> recon_state \<Rightarrow> recon_state" where
  "disconnect_peer fp now r s = drop_conn fp now r (disarm fp s)"

definition forget_peer :: "string \<Rightarrow> rat \<Rightarrow> rat \<Rightarrow> recon_state \<Rightarrow> recon_state" where
  "forget_peer fp now r s =
     (let s = s\<lparr>rs_paired := filter (\<lambda>p. p \<noteq> fp) (rs_paired s)\<rparr>;
          s = s\<lparr>rs_transport := snd (store_remove fp (rs_transport s))\<rparr>;
          s = disarm fp s
      in drop_conn fp now r s)"

text \<open>
  One step of a replay: the live sessions and the mode are read again for every planned session.
  \<open>opened\<close> is the outcome of the open, the new stream's id if it succeeded.
\<close>

definition replay_one :: "string \<Rightarrow> planned_session \<Rightarrow> nat option \<Rightarrow> recon_state \<Rightarrow> replay_action \<times> recon_state" where
  "replay_one fp p opened s =
     (let act = plan_replay p (live_intents fp s) (rs_mode s) in
      (act,
       case (act, opened, map_of (rs_conns s) fp) of
         (Open origin, Some sid, Some c) \<Rightarrow>
           s\<lparr>rs_sessions := \<lparr>ls_id = sid, ls_conn = nc_id c, ls_fp = fp, ls_origin = origin,
               ls_replay = Some (ps_params p)\<rparr> # rs_sessions s\<rparr>
       | _ \<Rightarrow> s))"


section \<open>The machine\<close>

text \<open>
  The supervisor's attempt threads, the replays under way, and everything else that changes the
  table: connections registered and lost, sessions opened, the user's commands. Each event is one
  critical section of the code, so all orders of events are all interleavings. The machine keeps
  two histories, the peers it connected out to and the dials the retry threads made.
\<close>

datatype attempt_pc = Scheduled | Dialling | Finishing

record recon_machine =
  rm_state :: recon_state
  rm_threads :: "(string \<times> attempt_pc) list"
  rm_replays :: "(string \<times> planned_session list) list"
  rm_outbound :: "string list"
  rm_dials :: "string list"

datatype recon_event =
    Outbound string "string option"
  | Register string nat
  | ConnLost string nat rat rat
  | OpenLocal string open_session_params session_origin nat
  | Supervise rat
  | StartAttempt string
  | ConnectOk string rat rat
  | ConnectErr string rat rat
  | FinishAttempt string
  | ReplayNext nat "nat option"
  | Disconnect string rat rat
  | Forget string rat rat
  | SetDial string dial_policy
  | SetMode mode

definition conn_of :: "string \<Rightarrow> recon_state \<Rightarrow> net_conn option" where
  "conn_of fp s = map_of (rs_conns s) fp"

definition set_dial :: "string \<Rightarrow> dial_policy \<Rightarrow> recon_state \<Rightarrow> recon_state" where
  "set_dial fp p s =
     s\<lparr>rs_transport := store_set fp ((store_get fp (rs_transport s))\<lparr>pt_dial_policy := dial_as_wire p\<rparr>) (rs_transport s)\<rparr>"

fun recon_step :: "recon_event \<Rightarrow> recon_machine \<Rightarrow> recon_machine" where
  "recon_step (Outbound fp addr) m =
     (let (plan, s) = note_outbound fp addr (rm_state m)
      in m\<lparr>rm_state := s, rm_replays := rm_replays m @ (if plan = [] then [] else [(fp, plan)]),
           rm_outbound := rm_outbound m @ [fp]\<rparr>)"
| "recon_step (Register fp cid) m =
     m\<lparr>rm_state := (rm_state m)\<lparr>rs_conns :=
         AList.update fp \<lparr>nc_id = cid, nc_fp = fp, nc_alive = True\<rparr> (rs_conns (rm_state m))\<rparr>\<rparr>"
| "recon_step (ConnLost fp cid now r) m =
     m\<lparr>rm_state := teardown_conn \<lparr>nc_id = cid, nc_fp = fp, nc_alive = False\<rparr> now r (rm_state m)\<rparr>"
| "recon_step (OpenLocal fp params origin sid) m =
     (case conn_of fp (rm_state m) of
        None \<Rightarrow> m
      | Some c \<Rightarrow> m\<lparr>rm_state := (rm_state m)\<lparr>rs_sessions := \<lparr>ls_id = sid, ls_conn = nc_id c, ls_fp = fp,
          ls_origin = origin, ls_replay = Some params\<rparr> # rs_sessions (rm_state m)\<rparr>\<rparr>)"
| "recon_step (Supervise now) m =
     (let (due, s) = supervise now (rm_state m)
      in m\<lparr>rm_state := s, rm_threads := rm_threads m @ map (\<lambda>fp. (fp, Scheduled)) due\<rparr>)"
| "recon_step (StartAttempt fp) m =
     (if (fp, Scheduled) \<notin> set (rm_threads m) then m
      else
        let (go, s) = attempt_check fp (rm_state m)
        in m\<lparr>rm_state := s,
             rm_threads := remove1 (fp, Scheduled) (rm_threads m) @ [(fp, if go then Dialling else Finishing)],
             rm_dials := rm_dials m @ (if go then [fp] else [])\<rparr>)"
| "recon_step (ConnectOk fp now r) m =
     (if (fp, Dialling) \<notin> set (rm_threads m) then m
      else
        let m = m\<lparr>rm_threads := remove1 (fp, Dialling) (rm_threads m) @ [(fp, Finishing)]\<rparr>
        in (case attempt_connected fp (rm_state m) of
              (None, s) \<Rightarrow> m\<lparr>rm_state := drop_conn fp now r s\<rparr>
            | (Some plan, s) \<Rightarrow> m\<lparr>rm_state := s, rm_replays := rm_replays m @ (if plan = [] then [] else [(fp, plan)])\<rparr>))"
| "recon_step (ConnectErr fp now r) m =
     (if (fp, Dialling) \<notin> set (rm_threads m) then m
      else m\<lparr>rm_threads := remove1 (fp, Dialling) (rm_threads m) @ [(fp, Finishing)],
             rm_state := attempt_failed fp now r (rm_state m)\<rparr>)"
| "recon_step (FinishAttempt fp) m =
     (if (fp, Finishing) \<notin> set (rm_threads m) then m
      else m\<lparr>rm_state := attempt_finished fp (rm_state m),
             rm_threads := remove1 (fp, Finishing) (rm_threads m)\<rparr>)"
| "recon_step (ReplayNext i opened) m =
     (if length (rm_replays m) \<le> i then m
      else case rm_replays m ! i of
             (fp, []) \<Rightarrow> m
           | (fp, p # ps) \<Rightarrow> m\<lparr>rm_state := snd (replay_one fp p opened (rm_state m)),
                               rm_replays := (rm_replays m)[i := (fp, ps)]\<rparr>)"
| "recon_step (Disconnect fp now r) m = m\<lparr>rm_state := disconnect_peer fp now r (rm_state m)\<rparr>"
| "recon_step (Forget fp now r) m = m\<lparr>rm_state := forget_peer fp now r (rm_state m)\<rparr>"
| "recon_step (SetDial fp p) m = m\<lparr>rm_state := set_dial fp p (rm_state m)\<rparr>"
| "recon_step (SetMode md) m = m\<lparr>rm_state := (rm_state m)\<lparr>rs_mode := md\<rparr>\<rparr>"

definition recon_machine_new :: "string list \<Rightarrow> transport_store \<Rightarrow> mode \<Rightarrow> recon_machine" where
  "recon_machine_new paired store md =
     \<lparr>rm_state = \<lparr>rs_recon = [], rs_conns = [], rs_sessions = [], rs_transport = store, rs_mode = md, rs_paired = paired\<rparr>,
      rm_threads = [], rm_replays = [], rm_outbound = [], rm_dials = []\<rparr>"

section \<open>What the operations do to the table\<close>

abbreviation entry :: "string \<Rightarrow> recon_state \<Rightarrow> peer_recon option" where
  "entry fp s \<equiv> map_of (rs_recon s) fp"

lemma entry_set [simp]: "entry fp (set_entry k e s) = (if fp = k then Some e else entry fp s)"
  by (simp add: set_entry_def AList.update_conv)

lemma entry_disarm [simp]: "entry fp (disarm k s) = (if fp = k then None else entry fp s)"
  by (auto simp: disarm_def AList.delete_conv)

lemma set_entry_fields [simp]:
  "rs_conns (set_entry k e s) = rs_conns s" "rs_sessions (set_entry k e s) = rs_sessions s"
  "rs_transport (set_entry k e s) = rs_transport s" "rs_paired (set_entry k e s) = rs_paired s"
  "rs_mode (set_entry k e s) = rs_mode s"
  "rs_conns (disarm k s) = rs_conns s" "rs_sessions (disarm k s) = rs_sessions s"
  "rs_transport (disarm k s) = rs_transport s" "rs_paired (disarm k s) = rs_paired s" "rs_mode (disarm k s) = rs_mode s"
  by (simp_all add: set_entry_def disarm_def)

lemma may_dial_cong [simp]:
  "recon_may_dial fp (set_entry k e s) = recon_may_dial fp s" "recon_may_dial fp (disarm k s) = recon_may_dial fp s"
  "recon_may_dial fp (s\<lparr>rs_conns := cs\<rparr>) = recon_may_dial fp s"
  "recon_may_dial fp (s\<lparr>rs_sessions := ls\<rparr>) = recon_may_dial fp s"
  "recon_may_dial fp (s\<lparr>rs_recon := rc\<rparr>) = recon_may_dial fp s"
  "recon_may_dial fp (s\<lparr>rs_mode := md\<rparr>) = recon_may_dial fp s"
  "recon_may_dial fp (s\<lparr>rs_paired := ps\<rparr>) = recon_may_dial fp s"
  by (simp_all add: recon_may_dial_def)

text \<open>The entry of a peer after it was armed.\<close>

definition armed_entry :: "planned_session list \<Rightarrow> bool \<Rightarrow> rat \<Rightarrow> rat \<Rightarrow> peer_recon \<Rightarrow> peer_recon" where
  "armed_entry sessions immediate now r e =
     (let e = e\<lparr>pr_sessions := pr_sessions e @ sessions\<rparr> in
      case pr_next_at e of
        Some t \<Rightarrow> if immediate \<and> now < t then e\<lparr>pr_next_at := Some now\<rparr> else e
      | None \<Rightarrow> e\<lparr>pr_attempts := 0, pr_next_at := Some (now + (if immediate then 0 else next_delay_s 0 r))\<rparr>)"

lemma entry_arm_in:
  "entry fp (arm_in k sessions imm now r s) =
     (if fp \<noteq> k then entry fp s
      else if recon_may_dial k s then map_option (armed_entry sessions imm now r) (entry k s) else None)"
  by (auto simp: arm_in_def armed_entry_def Let_def split: option.split)

lemma arm_in_fields [simp]:
  "rs_conns (arm_in k sessions imm now r s) = rs_conns s" "rs_sessions (arm_in k sessions imm now r s) = rs_sessions s"
  "rs_transport (arm_in k sessions imm now r s) = rs_transport s" "rs_paired (arm_in k sessions imm now r s) = rs_paired s"
  by (simp_all add: arm_in_def Let_def split: option.split)

lemma armed_entry_fields:
  "pr_sessions (armed_entry ss imm now r e) = pr_sessions e @ ss" "pr_next_at (armed_entry ss imm now r e) \<noteq> None"
  "pr_in_flight (armed_entry ss imm now r e) = pr_in_flight e"
  by (auto simp: armed_entry_def Let_def split: option.split)

text \<open>The connection that is torn down, and whether another one has taken its place.\<close>

definition superseded :: "net_conn \<Rightarrow> recon_state \<Rightarrow> bool" where
  "superseded c s = (case conn_of (nc_fp c) s of Some d \<Rightarrow> nc_id d \<noteq> nc_id c \<and> nc_alive d | None \<Rightarrow> False)"

lemma entry_teardown:
  "entry fp (teardown_conn c now r s) =
     (if fp \<noteq> nc_fp c then entry fp s
      else if recon_may_dial fp s then map_option (armed_entry (captured c s) (superseded c s) now r) (entry fp s)
      else None)"
  by (auto simp: teardown_conn_def Let_def entry_arm_in superseded_def conn_of_def AList.delete_conv split: option.split)

lemma teardown_fields [simp]:
  "rs_transport (teardown_conn c now r s) = rs_transport s" "rs_paired (teardown_conn c now r s) = rs_paired s"
  "rs_sessions (teardown_conn c now r s) = filter (\<lambda>e. ls_conn e \<noteq> nc_id c) (rs_sessions s)"
  by (simp_all add: teardown_conn_def Let_def split: option.split)

lemma entry_supervise:
  "entry fp (snd (supervise now s)) = map_option (\<lambda>e. if is_due now e then e\<lparr>pr_in_flight := True\<rparr> else e) (entry fp s)"
proof -
  have "map_of (map (\<lambda>(k, e). (k, if is_due now e then e\<lparr>pr_in_flight := True\<rparr> else e)) al) fp =
      map_option (\<lambda>e. if is_due now e then e\<lparr>pr_in_flight := True\<rparr> else e) (map_of al fp)"
    for al :: "(string \<times> peer_recon) list"
    by (induction al) auto
  then show ?thesis by (simp add: supervise_def)
qed

lemma supervise_fields [simp]:
  "rs_transport (snd (supervise now s)) = rs_transport s" "rs_paired (snd (supervise now s)) = rs_paired s"
  by (simp_all add: supervise_def)


lemma entry_note_outbound:
  "entry fp (snd (note_outbound k addr s)) =
     (if fp = k \<and> recon_may_dial k s then
        (let e = (case entry k s of Some e \<Rightarrow> e | None \<Rightarrow> peer_recon_new addr);
             e = (if addr \<noteq> None then e\<lparr>pr_addr := addr\<rparr> else e)
         in Some (e\<lparr>pr_attempts := 0, pr_next_at := None, pr_sessions := []\<rparr>))
      else entry fp s)"
  by (simp add: note_outbound_def Let_def)

lemma entry_attempt_connected:
  "entry fp (snd (attempt_connected k s)) =
     (if fp = k then map_option (\<lambda>e. e\<lparr>pr_attempts := 0, pr_next_at := None, pr_sessions := []\<rparr>) (entry k s)
      else entry fp s)"
  by (auto simp: attempt_connected_def split: option.split)

lemma entry_attempt_failed:
  "entry fp (attempt_failed k now r s) =
     (if fp = k then map_option (\<lambda>e. if pr_next_at e \<noteq> None
          then e\<lparr>pr_attempts := saturating_inc32 (pr_attempts e),
                 pr_next_at := Some (now + next_delay_s (saturating_inc32 (pr_attempts e)) r)\<rparr> else e) (entry k s)
      else entry fp s)"
  by (auto simp: attempt_failed_def Let_def split: option.split)

lemma entry_attempt_finished:
  "entry fp (attempt_finished k s) =
     (if fp = k then map_option (\<lambda>e. e\<lparr>pr_in_flight := False\<rparr>) (entry k s) else entry fp s)"
  by (auto simp: attempt_finished_def split: option.split)

lemma entry_attempt_check:
  "entry fp (snd (attempt_check k s)) = (if fp = k \<and> \<not> fst (attempt_check k s) then None else entry fp s)"
  by (simp add: attempt_check_def)

lemma attempt_fields [simp]:
  "rs_conns (snd (note_outbound k addr s)) = rs_conns s" "rs_transport (snd (note_outbound k addr s)) = rs_transport s"
  "rs_paired (snd (note_outbound k addr s)) = rs_paired s"
  "rs_conns (snd (attempt_connected k s)) = rs_conns s" "rs_transport (snd (attempt_connected k s)) = rs_transport s"
  "rs_paired (snd (attempt_connected k s)) = rs_paired s"
  "rs_conns (attempt_failed k now r s) = rs_conns s" "rs_transport (attempt_failed k now r s) = rs_transport s"
  "rs_paired (attempt_failed k now r s) = rs_paired s"
  "rs_conns (attempt_finished k s) = rs_conns s" "rs_transport (attempt_finished k s) = rs_transport s"
  "rs_paired (attempt_finished k s) = rs_paired s"
  "rs_conns (snd (attempt_check k s)) = rs_conns s" "rs_transport (snd (attempt_check k s)) = rs_transport s"
  "rs_paired (snd (attempt_check k s)) = rs_paired s" "rs_conns (snd (supervise now s)) = rs_conns s"
  "rs_transport (snd (replay_one k pl oc s)) = rs_transport s" "rs_paired (snd (replay_one k pl oc s)) = rs_paired s"
  "rs_conns (snd (replay_one k pl oc s)) = rs_conns s" "rs_recon (snd (replay_one k pl oc s)) = rs_recon s"
  by (simp_all add: note_outbound_def attempt_connected_def attempt_failed_def attempt_finished_def
      attempt_check_def supervise_def replay_one_def Let_def split: option.split replay_action.split)

lemma drop_conn_cases:
  "drop_conn k now r s = (case conn_of k s of None \<Rightarrow> s | Some c \<Rightarrow> teardown_conn c now r s)"
  by (simp add: drop_conn_def conn_of_def)

lemma drop_conn_fields [simp]:
  "rs_transport (drop_conn k now r s) = rs_transport s" "rs_paired (drop_conn k now r s) = rs_paired s"
  by (simp_all add: drop_conn_cases split: option.split)

section \<open>The invariant of the machine\<close>

text \<open>One entry per peer.\<close>

definition keys_ok :: "recon_state \<Rightarrow> bool" where
  "keys_ok s \<longleftrightarrow> distinct (map fst (rs_recon s)) \<and> (\<forall>k c. conn_of k s = Some c \<longrightarrow> nc_fp c = k)"

lemma keys_ok_set [simp]: "keys_ok s \<Longrightarrow> keys_ok (set_entry k e s)" "keys_ok s \<Longrightarrow> keys_ok (disarm k s)"
  by (simp_all add: keys_ok_def set_entry_def disarm_def conn_of_def AList.distinct_update AList.distinct_delete)

lemma keys_ok_cong [simp]:
  "keys_ok (s\<lparr>rs_sessions := ls\<rparr>) = keys_ok s" "keys_ok (s\<lparr>rs_transport := ts\<rparr>) = keys_ok s"
  "keys_ok (s\<lparr>rs_mode := md\<rparr>) = keys_ok s" "keys_ok (s\<lparr>rs_paired := ps\<rparr>) = keys_ok s"
  by (simp_all add: keys_ok_def conn_of_def)

lemma keys_ok_arm [simp]: "keys_ok s \<Longrightarrow> keys_ok (arm_in k ss imm now r s)"
  by (simp add: arm_in_def Let_def split: option.split)

lemma keys_ok_teardown [simp]: "keys_ok s \<Longrightarrow> keys_ok (teardown_conn c now r s)"
proof -
  assume ok: "keys_ok s"
  have "keys_ok (s\<lparr>rs_sessions := ls, rs_conns := AList.delete k (rs_conns s)\<rparr>)" for ls k
    using ok by (auto simp: keys_ok_def conn_of_def AList.delete_conv split: if_splits)
  then show ?thesis using ok by (simp add: teardown_conn_def Let_def split: option.split)
qed

lemma keys_ok_ops [simp]:
  assumes "keys_ok s"
  shows "keys_ok (snd (note_outbound k addr s))" "keys_ok (snd (attempt_connected k s))"
    "keys_ok (attempt_failed k now r s)" "keys_ok (attempt_finished k s)" "keys_ok (snd (attempt_check k s))"
    "keys_ok (snd (supervise now s))" "keys_ok (drop_conn k now r s)" "keys_ok (snd (replay_one k pl oc s))"
proof -
  show "keys_ok (snd (note_outbound k addr s))" "keys_ok (snd (attempt_connected k s))"
    "keys_ok (attempt_failed k now r s)" "keys_ok (attempt_finished k s)" "keys_ok (snd (attempt_check k s))"
    "keys_ok (drop_conn k now r s)"
    using assms by (simp_all add: note_outbound_def attempt_connected_def attempt_failed_def attempt_finished_def
        attempt_check_def drop_conn_cases Let_def split: option.split)
  have "map fst (rs_recon (snd (supervise now s))) = map fst (rs_recon s)"
    by (simp add: supervise_def comp_def split_beta)
  then show "keys_ok (snd (supervise now s))" using assms by (simp add: keys_ok_def conn_of_def)
  show "keys_ok (snd (replay_one k pl oc s))" using assms by (simp add: keys_ok_def conn_of_def)
qed

definition rm_inv :: "recon_machine \<Rightarrow> bool" where
  "rm_inv m \<longleftrightarrow> keys_ok (rm_state m) \<and>
     (\<forall>fp. entry fp (rm_state m) \<noteq> None \<longrightarrow> fp \<in> set (rm_outbound m)) \<and>
     fst ` set (rm_threads m) \<subseteq> set (rm_outbound m) \<and> set (rm_dials m) \<subseteq> set (rm_outbound m) \<and>
     (\<forall>fp e. entry fp (rm_state m) = Some e \<longrightarrow> pr_in_flight e \<longrightarrow> fp \<in> fst ` set (rm_threads m))"

lemma count_list_distinct: "distinct xs \<Longrightarrow> x \<in> set xs \<Longrightarrow> count_list xs x = 1"
  by (induction xs) auto

lemma entry_mem: "keys_ok s \<Longrightarrow> (fp, e) \<in> set (rs_recon s) \<longleftrightarrow> entry fp s = Some e"
  by (simp add: keys_ok_def)

lemma supervise_due: "keys_ok s \<Longrightarrow> fp \<in> set (fst (supervise now s)) \<longleftrightarrow> (\<exists>e. entry fp s = Some e \<and> is_due now e)"
  by (force simp: supervise_def entry_mem [symmetric])

lemma thread_moves: "(k, pc) \<in> set ts \<Longrightarrow> fst ` set (remove1 (k, pc) ts @ [(k, pc')]) = fst ` set ts"
proof -
  assume k: "(k, pc) \<in> set ts"
  then have "set (remove1 (k, pc) ts) \<subseteq> set ts" "set ts \<subseteq> insert (k, pc) (set (remove1 (k, pc) ts))"
    using set_remove1_subset in_set_remove1 by fastforce+
  with k show ?thesis by force
qed

lemma thread_leaves:
  "fp \<noteq> k \<Longrightarrow> fp \<in> fst ` set (remove1 (k, pc) ts) \<longleftrightarrow> fp \<in> fst ` set ts"
  by (induction ts) auto


lemma rm_inv_new: "rm_inv (recon_machine_new paired store md)"
  by (simp add: rm_inv_def keys_ok_def recon_machine_new_def conn_of_def)

text \<open>Events that neither create entries nor threads only have to keep the entries' flags.\<close>

lemma rm_inv_weaker:
  assumes "rm_inv m" and "keys_ok s"
    and "\<And>fp e. entry fp s = Some e \<Longrightarrow> \<exists>e'. entry fp (rm_state m) = Some e' \<and> (pr_in_flight e \<longrightarrow> pr_in_flight e')"
  shows "rm_inv (m\<lparr>rm_state := s\<rparr>)"
proof -
  have "fp \<in> set (rm_outbound m)" if "entry fp s \<noteq> None" for fp
    using that assms(1,3) by (force simp: rm_inv_def)
  moreover have "fp \<in> fst ` set (rm_threads m)" if "entry fp s = Some e" "pr_in_flight e" for fp e
    using assms(3) [OF that(1)] that(2) assms(1) unfolding rm_inv_def by blast
  ultimately show ?thesis using assms(1,2) unfolding rm_inv_def by simp
qed

lemma rm_inv_fields [simp]:
  "rm_inv (m\<lparr>rm_replays := rp\<rparr>) = rm_inv m"
  by (simp add: rm_inv_def)

lemma rm_inv_outbound: "rm_inv m \<Longrightarrow> rm_inv (recon_step (Outbound k addr) m)"
proof -
  assume inv: "rm_inv m"
  let ?s = "snd (note_outbound k addr (rm_state m))"
  have known: "fp = k \<or> entry fp (rm_state m) \<noteq> None" if "entry fp ?s \<noteq> None" for fp
    using that by (simp add: entry_note_outbound split: if_splits)
  have flag: "fp \<in> fst ` set (rm_threads m)" if "entry fp ?s = Some e" "pr_in_flight e" for fp e
    using that inv unfolding rm_inv_def
    by (auto simp: entry_note_outbound Let_def peer_recon_new_def split: if_splits option.splits)
  have "fp \<in> set (rm_outbound m @ [k])" if "entry fp ?s \<noteq> None" for fp
    using known [OF that] inv unfolding rm_inv_def by auto
  moreover have "keys_ok ?s" using inv by (simp add: rm_inv_def)
  ultimately show ?thesis
    using inv flag unfolding rm_inv_def by (auto simp: Let_def split_beta)
qed

lemma teardown_entry_weaker:
  "entry fp (teardown_conn c now r s) = Some e \<Longrightarrow>
     \<exists>e'. entry fp s = Some e' \<and> (pr_in_flight e \<longrightarrow> pr_in_flight e')"
  by (auto simp: entry_teardown armed_entry_fields split: if_splits)

lemma drop_entry_weaker:
  "entry fp (drop_conn k now r s) = Some e \<Longrightarrow> \<exists>e'. entry fp s = Some e' \<and> (pr_in_flight e \<longrightarrow> pr_in_flight e')"
  by (auto simp: drop_conn_cases dest: teardown_entry_weaker split: option.splits)

lemma rm_inv_threads:
  "rm_inv m \<Longrightarrow> fst ` set ts = fst ` set (rm_threads m) \<Longrightarrow> rm_inv (m\<lparr>rm_threads := ts\<rparr>)"
  by (simp add: rm_inv_def)

lemma rm_inv_dial: "rm_inv m \<Longrightarrow> k \<in> set (rm_outbound m) \<Longrightarrow> rm_inv (m\<lparr>rm_dials := rm_dials m @ [k]\<rparr>)"
  by (simp add: rm_inv_def)

lemma thread_known: "rm_inv m \<Longrightarrow> (k, pc) \<in> set (rm_threads m) \<Longrightarrow> k \<in> set (rm_outbound m)"
  unfolding rm_inv_def using imageI [of "(k, pc)" "set (rm_threads m)" fst] by auto

lemma rm_inv_start: "rm_inv m \<Longrightarrow> rm_inv (recon_step (StartAttempt k) m)"
proof (cases "(k, Scheduled) \<in> set (rm_threads m)")
  case True
  assume inv: "rm_inv m"
  then have keys: "keys_ok (rm_state m)" by (simp add: rm_inv_def)
  obtain go s where c: "attempt_check k (rm_state m) = (go, s)" by fastforce
  let ?ts = "remove1 (k, Scheduled) (rm_threads m) @ [(k, if go then Dialling else Finishing)]"
  have s: "s = snd (attempt_check k (rm_state m))" using c by simp
  have "entry fp s = Some e \<Longrightarrow> entry fp (rm_state m) = Some e" for fp e
    unfolding s by (simp add: entry_attempt_check split: if_splits)
  moreover have "keys_ok s" unfolding s using keys by simp
  ultimately have "rm_inv (m\<lparr>rm_state := s\<rparr>)"
    using rm_inv_weaker [OF inv, of s] by blast
  then have "rm_inv (m\<lparr>rm_state := s, rm_threads := ?ts\<rparr>)"
    by (rule rm_inv_threads) (use thread_moves [OF True] in simp)
  moreover have "k \<in> set (rm_outbound m)" using thread_known [OF inv True] .
  ultimately have "rm_inv (m\<lparr>rm_state := s, rm_threads := ?ts, rm_dials := rm_dials m @ (if go then [k] else [])\<rparr>)"
    using rm_inv_dial [of "m\<lparr>rm_state := s, rm_threads := ?ts\<rparr>" k] by (cases go) simp_all
  with True c show ?thesis by (simp add: Let_def)
qed simp

lemma rm_inv_connect:
  assumes inv: "rm_inv m"
  shows "rm_inv (recon_step (ConnectOk k now r) m)" "rm_inv (recon_step (ConnectErr k now r) m)"
proof -
  let ?ts = "remove1 (k, Dialling) (rm_threads m) @ [(k, Finishing)]"
  have t: "rm_inv (m\<lparr>rm_threads := ?ts\<rparr>)" if "(k, Dialling) \<in> set (rm_threads m)"
    by (rule rm_inv_threads [OF inv]) (use thread_moves [OF that] in simp)
  have keys: "keys_ok (rm_state m)" using inv by (simp add: rm_inv_def)
  show "rm_inv (recon_step (ConnectOk k now r) m)"
  proof (cases "(k, Dialling) \<in> set (rm_threads m)")
    case True
    let ?m = "m\<lparr>rm_threads := ?ts\<rparr>"
    have "rm_inv (?m\<lparr>rm_state := drop_conn k now r (rm_state m)\<rparr>)"
      by (rule rm_inv_weaker [OF t [OF True]]) (use keys in \<open>auto dest: drop_entry_weaker\<close>)
    moreover have "rm_inv (?m\<lparr>rm_state := snd (attempt_connected k (rm_state m))\<rparr>)"
      by (rule rm_inv_weaker [OF t [OF True]]) (use keys in \<open>auto simp: entry_attempt_connected split: if_splits\<close>)
    ultimately show ?thesis
      using True rm_inv_fields [where m = "?m\<lparr>rm_state := snd (attempt_connected k (rm_state m))\<rparr>"]
      by (auto simp: attempt_connected_def Let_def split: option.split)
  qed (use inv in simp)
  show "rm_inv (recon_step (ConnectErr k now r) m)"
  proof (cases "(k, Dialling) \<in> set (rm_threads m)")
    case True
    have "rm_inv (m\<lparr>rm_threads := ?ts, rm_state := attempt_failed k now r (rm_state m)\<rparr>)"
      by (rule rm_inv_weaker [OF t [OF True]]) (use keys in \<open>auto simp: entry_attempt_failed split: if_splits\<close>)
    with True show ?thesis by simp
  qed (use inv in simp)
qed

lemma rm_inv_finish: "rm_inv m \<Longrightarrow> rm_inv (recon_step (FinishAttempt k) m)"
proof (cases "(k, Finishing) \<in> set (rm_threads m)")
  case True
  assume inv: "rm_inv m"
  let ?s = "attempt_finished k (rm_state m)" and ?ts = "remove1 (k, Finishing) (rm_threads m)"
  have "fp \<in> fst ` set ?ts" if "entry fp ?s = Some e" "pr_in_flight e" for fp e
    using that inv thread_leaves [of fp k Finishing "rm_threads m"] unfolding rm_inv_def
    by (auto simp: entry_attempt_finished split: if_splits)
  moreover have "fst ` set ?ts \<subseteq> set (rm_outbound m)"
    using inv set_remove1_subset [of "(k, Finishing)" "rm_threads m"] unfolding rm_inv_def by blast
  moreover have "entry fp ?s \<noteq> None \<Longrightarrow> fp \<in> set (rm_outbound m)" for fp
    using inv unfolding rm_inv_def by (auto simp: entry_attempt_finished split: if_splits)
  ultimately show ?thesis using inv True unfolding rm_inv_def by simp
qed simp

lemma rm_inv_supervise: "rm_inv m \<Longrightarrow> rm_inv (recon_step (Supervise now) m)"
proof -
  assume inv: "rm_inv m"
  obtain due s where c: "supervise now (rm_state m) = (due, s)" by fastforce
  have keys: "keys_ok (rm_state m)" using inv by (simp add: rm_inv_def)
  have e: "entry fp s = map_option (\<lambda>e. if is_due now e then e\<lparr>pr_in_flight := True\<rparr> else e) (entry fp (rm_state m))" for fp
    using entry_supervise [where fp = fp and now = now and s = "rm_state m"] c by simp
  have d: "fp \<in> set due \<longleftrightarrow> (\<exists>e. entry fp (rm_state m) = Some e \<and> is_due now e)" for fp
    using supervise_due [OF keys, where fp = fp and now = now] c by simp
  have "fp \<in> set due \<or> fp \<in> fst ` set (rm_threads m)" if "entry fp s = Some e'" "pr_in_flight e'" for fp e'
    using that e [of fp] d [of fp] inv unfolding rm_inv_def by (auto split: if_splits)
  moreover have "set due \<subseteq> set (rm_outbound m)"
    using d inv unfolding rm_inv_def by auto
  moreover have "keys_ok s" using keys_ok_ops(6) [OF keys, where now = now] c by simp
  moreover have "entry fp s \<noteq> None \<Longrightarrow> fp \<in> set (rm_outbound m)" for fp
    using e [of fp] inv unfolding rm_inv_def by auto
  ultimately show ?thesis
    using inv c unfolding rm_inv_def by (simp add: image_Un image_image) blast
qed

lemma rm_inv_step: "rm_inv m \<Longrightarrow> rm_inv (recon_step e m)"
proof (cases e)
  case (Outbound k addr)
  then show "rm_inv m \<Longrightarrow> ?thesis" using rm_inv_outbound by blast
next
  case (StartAttempt k)
  then show "rm_inv m \<Longrightarrow> ?thesis" using rm_inv_start by blast
next
  case (FinishAttempt k)
  then show "rm_inv m \<Longrightarrow> ?thesis" using rm_inv_finish by blast
next
  case (Supervise now)
  then show "rm_inv m \<Longrightarrow> ?thesis" using rm_inv_supervise by blast
next
  case (ConnectOk k now r)
  then show "rm_inv m \<Longrightarrow> ?thesis" using rm_inv_connect(1) by blast
next
  case (ConnectErr k now r)
  then show "rm_inv m \<Longrightarrow> ?thesis" using rm_inv_connect(2) by blast
next
  case (Register k c)
  assume inv: "rm_inv m"
  then have "keys_ok ((rm_state m)\<lparr>rs_conns := AList.update k \<lparr>nc_id = c, nc_fp = k, nc_alive = True\<rparr> (rs_conns (rm_state m))\<rparr>)"
    by (auto simp: rm_inv_def keys_ok_def conn_of_def AList.update_conv)
  then show ?thesis unfolding Register recon_step.simps
    by (rule rm_inv_weaker [OF inv]) simp
next
  case (ConnLost k c now r)
  assume inv: "rm_inv m"
  show ?thesis unfolding ConnLost recon_step.simps
    by (rule rm_inv_weaker [OF inv]) (use inv in \<open>auto simp: rm_inv_def dest: teardown_entry_weaker\<close>)
next
  case (OpenLocal k params origin sid)
  assume inv: "rm_inv m"
  have "rm_inv (m\<lparr>rm_state := (rm_state m)\<lparr>rs_sessions := ls\<rparr>\<rparr>)" for ls
    by (rule rm_inv_weaker [OF inv]) (use inv in \<open>auto simp: rm_inv_def\<close>)
  with inv show ?thesis by (simp add: OpenLocal split: option.split)
next
  case (ReplayNext i opened)
  assume inv: "rm_inv m"
  have "rm_inv (m\<lparr>rm_state := snd (replay_one k p opened (rm_state m))\<rparr>)" for k p
    by (rule rm_inv_weaker [OF inv]) (use inv in \<open>auto simp: rm_inv_def\<close>)
  with inv ReplayNext show ?thesis by (simp split: prod.split list.split)
next
  case (Disconnect k now r)
  assume inv: "rm_inv m"
  show ?thesis unfolding Disconnect recon_step.simps disconnect_peer_def
    by (rule rm_inv_weaker [OF inv]) (use inv in \<open>auto simp: rm_inv_def split: if_splits dest!: drop_entry_weaker\<close>)
next
  case (Forget k now r)
  assume inv: "rm_inv m"
  show ?thesis unfolding Forget recon_step.simps forget_peer_def Let_def
    by (rule rm_inv_weaker [OF inv]) (use inv in \<open>auto simp: rm_inv_def split: if_splits dest!: drop_entry_weaker\<close>)
next
  case (SetDial k p)
  assume inv: "rm_inv m"
  show ?thesis unfolding SetDial recon_step.simps set_dial_def
    by (rule rm_inv_weaker [OF inv]) (use inv in \<open>auto simp: rm_inv_def\<close>)
next
  case (SetMode md)
  assume inv: "rm_inv m"
  show ?thesis unfolding SetMode recon_step.simps
    by (rule rm_inv_weaker [OF inv]) (use inv in \<open>auto simp: rm_inv_def\<close>)
qed

interpretation retry: state_machine recon_step rm_inv
  by unfold_locales (rule rm_inv_step)


section \<open>Plans are kept\<close>

definition plan_of :: "string \<Rightarrow> recon_state \<Rightarrow> planned_session list" where
  "plan_of fp s = (case entry fp s of None \<Rightarrow> [] | Some e \<Rightarrow> pr_sessions e)"

definition pending_of :: "string \<Rightarrow> (string \<times> planned_session list) list \<Rightarrow> planned_session multiset" where
  "pending_of fp rp = \<Sum>\<^sub># (mset (map (\<lambda>(k, ps). if k = fp then mset ps else {#}) rp))"

definition held :: "string \<Rightarrow> recon_machine \<Rightarrow> planned_session multiset" where
  "held fp m = mset (plan_of fp (rm_state m)) + pending_of fp (rm_replays m)"

text \<open>The peer is on the retry list and may be dialled.\<close>

definition retried :: "string \<Rightarrow> recon_state \<Rightarrow> bool" where
  "retried fp s \<longleftrightarrow> entry fp s \<noteq> None \<and> recon_may_dial fp s \<and> fp \<in> set (rs_paired s)"

fun releases :: "string \<Rightarrow> recon_event \<Rightarrow> bool" where
  "releases fp (Disconnect k now r) \<longleftrightarrow> k = fp"
| "releases fp (Forget k now r) \<longleftrightarrow> k = fp"
| "releases fp (SetDial k p) \<longleftrightarrow> k = fp"
| "releases fp e \<longleftrightarrow> False"

text \<open>What an event adds to a peer's plan, and what it takes out for replay.\<close>

fun taken_in :: "string \<Rightarrow> recon_event \<Rightarrow> recon_machine \<Rightarrow> planned_session multiset" where
  "taken_in fp (ConnLost k cid now r) m =
     (if k = fp then mset (captured \<lparr>nc_id = cid, nc_fp = k, nc_alive = False\<rparr> (rm_state m)) else {#})"
| "taken_in fp e m = {#}"

fun handed_out :: "string \<Rightarrow> recon_event \<Rightarrow> recon_machine \<Rightarrow> planned_session multiset" where
  "handed_out fp (ReplayNext i opened) m =
     (if length (rm_replays m) \<le> i then {#}
      else case rm_replays m ! i of (k, []) \<Rightarrow> {#} | (k, p # ps) \<Rightarrow> if k = fp then {#p#} else {#})"
| "handed_out fp e m = {#}"

fun run_total :: "(recon_event \<Rightarrow> recon_machine \<Rightarrow> planned_session multiset) \<Rightarrow> recon_event list \<Rightarrow>
    recon_machine \<Rightarrow> planned_session multiset" where
  "run_total f [] m = {#}"
| "run_total f (e # es) m = f e m + run_total f es (recon_step e m)"

lemma pending_append [simp]: "pending_of fp (xs @ ys) = pending_of fp xs + pending_of fp ys"
  by (simp add: pending_of_def)

lemma pending_one [simp]: "pending_of fp [(k, ps)] = (if k = fp then mset ps else {#})" "pending_of fp [] = {#}"
  by (simp_all add: pending_of_def)

lemma pending_update:
  "i < length rp \<Longrightarrow> rp ! i = (k, p # ps) \<Longrightarrow>
     pending_of fp rp = pending_of fp (rp[i := (k, ps)]) + (if k = fp then {#p#} else {#})"
  by (induction rp arbitrary: i) (auto simp: pending_of_def nth_Cons' split: nat.split)

lemma plan_entry: "entry fp s = Some e \<Longrightarrow> plan_of fp s = pr_sessions e"
  by (simp add: plan_of_def)

lemma may_dial_store: "rs_transport s = rs_transport s' \<Longrightarrow> recon_may_dial fp s = recon_may_dial fp s'"
  by (simp add: recon_may_dial_def)

lemma retried_cong:
  "entry fp s' \<noteq> None \<Longrightarrow> rs_transport s' = rs_transport s \<Longrightarrow> rs_paired s' = rs_paired s \<Longrightarrow> retried fp s \<Longrightarrow> retried fp s'"
  by (simp add: retried_def recon_may_dial_def)

lemma drop_other:
  "keys_ok s \<Longrightarrow> fp \<noteq> k \<Longrightarrow> entry fp (drop_conn k now r s) = entry fp s"
  by (auto simp: drop_conn_cases entry_teardown keys_ok_def split: option.split)

lemma store_dial_other [simp]:
  "fp \<noteq> k \<Longrightarrow> store_dial_policy fp (s(k := x)) = store_dial_policy fp s"
  by (simp add: store_dial_policy_def)

lemma note_outbound_plan:
  "fst (note_outbound k addr s) = (if recon_may_dial k s then plan_of k s else [])"
  by (simp add: note_outbound_def Let_def plan_of_def peer_recon_new_def split: option.split)

text \<open>One event on a peer that stays on the list.\<close>

lemma held_step:
  assumes inv: "rm_inv m" and on: "retried fp (rm_state m)" and e: "\<not> releases fp e"
  shows "retried fp (rm_state (recon_step e m)) \<and>
    held fp (recon_step e m) + handed_out fp e m = held fp m + taken_in fp e m"
proof -
  let ?s = "rm_state m"
  have keys: "keys_ok ?s" using inv by (simp add: rm_inv_def)
  from on obtain en where en: "entry fp ?s = Some en" and dial: "recon_may_dial fp ?s" and paired: "fp \<in> set (rs_paired ?s)"
    by (auto simp: retried_def)
  note ret = retried_cong [OF _ _ _ on]
  show ?thesis
  proof (cases e)
    case (Outbound k addr)
    then show ?thesis
      using en dial paired
      by (cases "k = fp") (auto simp: held_def retried_def Let_def split_beta entry_note_outbound note_outbound_plan
          plan_of_def recon_may_dial_def)
  next
    case (Register k c)
    then show ?thesis using on by (simp add: held_def plan_of_def retried_def)
  next
    case (ConnLost k c now r)
    then show ?thesis
      using en dial paired
      by (auto simp: held_def retried_def entry_teardown plan_of_def armed_entry_fields recon_may_dial_def ac_simps)
  next
    case (OpenLocal k params origin sid)
    then show ?thesis using on by (simp add: held_def plan_of_def retried_def split: option.split)
  next
    case (Supervise now)
    then show ?thesis
      using en dial paired by (simp add: held_def retried_def Let_def split_beta entry_supervise plan_of_def recon_may_dial_def)
  next
    case (StartAttempt k)
    have "fp = k \<Longrightarrow> fst (attempt_check k ?s)" using dial paired by (simp add: attempt_check_def)
    then have "entry fp (snd (attempt_check k ?s)) = Some en" using en by (auto simp: entry_attempt_check)
    then show ?thesis
      using StartAttempt en dial paired on
      by (simp add: held_def retried_def Let_def split_beta plan_of_def recon_may_dial_def)
  next
    case (ConnectOk k now r)
    show ?thesis
    proof (cases "k = fp")
      case True
      then show ?thesis
        using ConnectOk en dial paired on
        by (simp add: held_def retried_def Let_def attempt_connected_def plan_of_def ac_simps)
    next
      case False
      have "entry fp (snd (attempt_connected k ?s)) = Some en" using False en by (simp add: entry_attempt_connected)
      moreover have "entry fp (drop_conn k now r ?s) = Some en" using False en drop_other [OF keys] by simp
      ultimately show ?thesis
        using ConnectOk en dial paired on False
        by (auto simp: held_def retried_def Let_def plan_of_def recon_may_dial_def attempt_connected_def split: option.splits)
    qed
  next
    case (ConnectErr k now r)
    then show ?thesis
      using en dial paired by (auto simp: held_def retried_def entry_attempt_failed plan_of_def recon_may_dial_def)
  next
    case (FinishAttempt k)
    then show ?thesis
      using en dial paired by (auto simp: held_def retried_def entry_attempt_finished plan_of_def recon_may_dial_def)
  next
    case (ReplayNext i opened)
    show ?thesis
    proof (cases "i < length (rm_replays m) \<and> snd (rm_replays m ! i) \<noteq> []")
      case True
      then obtain k p ps where r: "rm_replays m ! i = (k, p # ps)" by (metis list.exhaust prod.collapse)
      with True have "pending_of fp (rm_replays m) =
          pending_of fp ((rm_replays m)[i := (k, ps)]) + (if k = fp then {#p#} else {#})"
        by (intro pending_update) simp_all
      with True r show ?thesis
        using ReplayNext on by (simp add: held_def plan_of_def retried_def recon_may_dial_def ac_simps)
    next
      case False
      then show ?thesis using ReplayNext on by (auto simp: held_def split: prod.split list.split)
    qed
  next
    case (Disconnect k now r)
    with e have k: "fp \<noteq> k" by auto
    then have "entry fp (disconnect_peer k now r ?s) = Some en"
      using en drop_other [OF keys_ok_set(2) [OF keys] k] by (simp add: disconnect_peer_def)
    then show ?thesis
      using Disconnect en dial paired
      by (simp add: held_def retried_def plan_of_def recon_may_dial_def disconnect_peer_def)
  next
    case (Forget k now r)
    with e have k: "fp \<noteq> k" by auto
    let ?t = "disarm k (?s\<lparr>rs_paired := filter (\<lambda>p. p \<noteq> k) (rs_paired ?s),
        rs_transport := snd (store_remove k (rs_transport ?s))\<rparr>)"
    have "keys_ok ?t" using keys by simp
    from drop_other [OF this k] have "entry fp (forget_peer k now r ?s) = Some en"
      using en k by (simp add: forget_peer_def Let_def)
    then show ?thesis
      using Forget en dial paired k
      by (simp add: held_def retried_def plan_of_def recon_may_dial_def forget_peer_def Let_def store_remove_def)
  next
    case (SetDial k p)
    with e have "fp \<noteq> k" by auto
    with SetDial en dial paired show ?thesis
      by (simp add: held_def retried_def plan_of_def recon_may_dial_def set_dial_def store_set_def)
  next
    case (SetMode md)
    then show ?thesis using on by (simp add: held_def plan_of_def retried_def)
  qed
qed

lemma held_run:
  "rm_inv m \<Longrightarrow> retried fp (rm_state m) \<Longrightarrow> list_all (\<lambda>e. \<not> releases fp e) es \<Longrightarrow>
     retried fp (rm_state (fold recon_step es m)) \<and>
     held fp (fold recon_step es m) + run_total (handed_out fp) es m = held fp m + run_total (taken_in fp) es m"
proof (induction es arbitrary: m)
  case Nil
  then show ?case by simp
next
  case (Cons e es)
  let ?m = "recon_step e m"
  from Cons.prems held_step [of m fp e] have s: "retried fp (rm_state ?m)"
      "held fp ?m + handed_out fp e m = held fp m + taken_in fp e m" by auto
  with Cons.IH [of ?m] Cons.prems rm_inv_step [of m e]
  have "retried fp (rm_state (fold recon_step es ?m))"
    "held fp (fold recon_step es ?m) + run_total (handed_out fp) es ?m = held fp ?m + run_total (taken_in fp) es ?m"
    by auto
  with s(2) show ?case by (simp add: union_assoc [symmetric]) (metis union_commute union_assoc)
qed


section \<open>Only user sessions are planned\<close>

definition user_plan :: "planned_session list \<Rightarrow> bool" where
  "user_plan ps \<longleftrightarrow> list_all (\<lambda>p. ps_origin p = User) ps"

definition plans_inv :: "recon_machine \<Rightarrow> bool" where
  "plans_inv m \<longleftrightarrow> (\<forall>fp e. entry fp (rm_state m) = Some e \<longrightarrow> user_plan (pr_sessions e)) \<and>
     (\<forall>k ps. (k, ps) \<in> set (rm_replays m) \<longrightarrow> user_plan ps)"

lemma user_plan_append [simp]: "user_plan (a @ b) \<longleftrightarrow> user_plan a \<and> user_plan b" "user_plan []"
  by (simp_all add: user_plan_def)

lemma captured_user: "user_plan (captured c s)"
  by (auto simp: captured_def user_plan_def list_all_iff map_filter_def recoverable_by_replay_def
      split: option.splits if_splits)

lemma teardown_plans:
  "entry fp (teardown_conn c now r s) = Some e \<Longrightarrow> \<forall>e. entry fp s = Some e \<longrightarrow> user_plan (pr_sessions e) \<Longrightarrow>
     user_plan (pr_sessions e)"
  by (auto simp: entry_teardown armed_entry_fields captured_user split: if_splits)

lemma drop_plans:
  "entry fp (drop_conn k now r s) = Some e \<Longrightarrow> \<forall>e. entry fp s = Some e \<longrightarrow> user_plan (pr_sessions e) \<Longrightarrow>
     user_plan (pr_sessions e)"
  by (auto simp: drop_conn_cases dest: teardown_plans split: option.splits)

lemma note_outbound_user:
  assumes "\<forall>e. entry k s = Some e \<longrightarrow> user_plan (pr_sessions e)"
  shows "user_plan (fst (note_outbound k addr s))"
  using assms by (simp add: note_outbound_plan plan_of_def split: option.split)

lemma plans_inv_step:
  assumes "plans_inv m"
  shows "plans_inv (recon_step e m)"
proof -
  let ?s = "rm_state m"
  from assms have en: "entry fp ?s = Some x \<Longrightarrow> user_plan (pr_sessions x)" for fp x by (simp add: plans_inv_def)
  from assms have rp: "(k, ps) \<in> set (rm_replays m) \<Longrightarrow> user_plan ps" for k ps by (auto simp: plans_inv_def)
  have state: "plans_inv (m\<lparr>rm_state := s'\<rparr>)" if "\<And>fp x. entry fp s' = Some x \<Longrightarrow> user_plan (pr_sessions x)" for s'
    using that rp by (auto simp: plans_inv_def)
  show ?thesis
  proof (cases e)
    case (Outbound k addr)
    have "user_plan (pr_sessions x)" if "entry fp (snd (note_outbound k addr ?s)) = Some x" for fp x
      using that en by (auto simp: entry_note_outbound Let_def split: if_splits)
    with Outbound rp note_outbound_user [where k = k and s = ?s and addr = addr] en show ?thesis
      by (auto simp: plans_inv_def Let_def split_beta split: if_splits)
  next
    case (ConnLost k c now r)
    then show ?thesis using en by (auto intro!: state dest: teardown_plans)
  next
    case (Supervise now)
    then show ?thesis using en rp by (auto simp: plans_inv_def Let_def split_beta entry_supervise split: if_splits)
  next
    case (StartAttempt k)
    then show ?thesis using en rp assms
      by (auto simp: plans_inv_def Let_def split_beta entry_attempt_check split: if_splits)
  next
    case (ConnectOk k now r)
    have d: "entry fp (drop_conn k now r ?s) = Some x \<Longrightarrow> user_plan (pr_sessions x)" for fp x
      using drop_plans [of k now r ?s fp x] en by blast
    from ConnectOk en rp assms d show ?thesis
      by (auto simp: plans_inv_def Let_def attempt_connected_def split: option.splits if_splits)
  next
    case (ConnectErr k now r)
    then show ?thesis using en rp assms by (auto simp: plans_inv_def entry_attempt_failed split: if_splits)
  next
    case (FinishAttempt k)
    then show ?thesis using en rp assms by (auto simp: plans_inv_def entry_attempt_finished split: if_splits)
  next
    case (ReplayNext i opened)
    have "user_plan qs" if "i < length (rm_replays m)" "rm_replays m ! i = (k, p # ps)"
        "(k', qs) \<in> set ((rm_replays m)[i := (k, ps)])" for k p ps k' qs
    proof -
      have "(k, p # ps) \<in> set (rm_replays m)" using that(1,2) by (metis nth_mem)
      then have "user_plan ps" using rp [of k "p # ps"] by (simp add: user_plan_def)
      moreover have "(k', qs) = (k, ps) \<or> (k', qs) \<in> set (rm_replays m)"
        using that(3) set_update_subset_insert by fastforce
      ultimately show ?thesis using rp by auto
    qed
    with ReplayNext en assms show ?thesis by (auto simp: plans_inv_def split: prod.split list.split)
  next
    case (Disconnect k now r)
    have "user_plan (pr_sessions x)" if "entry fp (disconnect_peer k now r ?s) = Some x" for fp x
      using that en by (auto simp: disconnect_peer_def dest!: drop_plans split: if_splits)
    with Disconnect show ?thesis by (simp add: state)
  next
    case (Forget k now r)
    have "user_plan (pr_sessions x)" if "entry fp (forget_peer k now r ?s) = Some x" for fp x
      using that en by (auto simp: forget_peer_def Let_def dest!: drop_plans split: if_splits)
    with Forget show ?thesis by (simp add: state)
  qed (use assms in \<open>auto simp: plans_inv_def set_dial_def split: option.split\<close>)
qed

interpretation plans: state_machine recon_step plans_inv
  by unfold_locales (rule plans_inv_step)

lemma plans_inv_new: "plans_inv (recon_machine_new paired store md)"
  by (simp add: plans_inv_def recon_machine_new_def)

text \<open>What a replay opens.\<close>

lemma replay_one_opens:
  assumes "snd (replay_one fp p opened s) = s'" and "rs_sessions s' \<noteq> rs_sessions s"
  shows "\<exists>x. rs_sessions s' = x # rs_sessions s \<and> ls_fp x = fp \<and> ls_origin x = ps_origin p \<and>
    ls_replay x = Some (ps_params p) \<and> plan_replay p (live_intents fp s) (rs_mode s) = Open (ps_origin p)"
  using assms
  by (auto simp: replay_one_def Let_def plan_replay_def split: replay_action.splits option.splits if_splits)

lemma plan_replay_Open:
  "plan_replay p live md = Open origin \<longleftrightarrow>
     origin = ps_origin p \<and> list_all (\<lambda>l. \<not> same_media_intent l (ps_params p)) live \<and>
     (is_hal (ps_origin p) \<or> refuse_using_others md (osp_override_mode (ps_params p)) = None)"
  by (auto simp: plan_replay_def list_ex_iff list_all_iff split: option.splits)

section \<open>Who is dialled\<close>

definition forbidden :: "string \<Rightarrow> recon_machine \<Rightarrow> bool" where
  "forbidden fp m \<longleftrightarrow> \<not> recon_may_dial fp (rm_state m) \<or> fp \<notin> set (rs_paired (rm_state m))"

fun sets_dial :: "string \<Rightarrow> recon_event \<Rightarrow> bool" where
  "sets_dial fp (SetDial k p) \<longleftrightarrow> k = fp"
| "sets_dial fp e \<longleftrightarrow> False"

lemma forbidden_step:
  assumes "forbidden fp m" and "\<not> sets_dial fp e"
  shows "forbidden fp (recon_step e m) \<and> count_list (rm_dials (recon_step e m)) fp = count_list (rm_dials m) fp"
proof (cases e)
  case (StartAttempt k)
  have "\<not> fst (attempt_check fp (rm_state m))" using assms(1) by (auto simp: forbidden_def attempt_check_def)
  with StartAttempt assms show ?thesis
    by (cases "k = fp") (auto simp: forbidden_def Let_def split_beta recon_may_dial_def)
next
  case (SetDial k p)
  with assms show ?thesis
    by (simp add: forbidden_def set_dial_def store_set_def recon_may_dial_def)
next
  case (Forget k now r)
  with assms show ?thesis
    by (cases "k = fp") (auto simp: forbidden_def forget_peer_def Let_def store_remove_def recon_may_dial_def)
qed (use assms in \<open>auto simp: forbidden_def Let_def split_beta recon_may_dial_def disconnect_peer_def
    attempt_connected_def split: option.split prod.split list.split\<close>)

lemma forbidden_run:
  "forbidden fp m \<Longrightarrow> list_all (\<lambda>e. \<not> sets_dial fp e) es \<Longrightarrow>
     count_list (rm_dials (fold recon_step es m)) fp = count_list (rm_dials m) fp"
  by (induction es arbitrary: m) (auto simp: forbidden_step)

section \<open>An armed peer stays armed\<close>

fun settles :: "string \<Rightarrow> recon_event \<Rightarrow> bool" where
  "settles fp (Outbound k addr) \<longleftrightarrow> k = fp"
| "settles fp (ConnectOk k now r) \<longleftrightarrow> k = fp"
| "settles fp e \<longleftrightarrow> releases fp e"

definition armed :: "string \<Rightarrow> recon_state \<Rightarrow> bool" where
  "armed fp s \<longleftrightarrow> (\<exists>e. entry fp s = Some e \<and> pr_next_at e \<noteq> None)"

lemma settles_releases: "\<not> settles fp e \<Longrightarrow> \<not> releases fp e"
  by (cases e) auto

lemma armed_step:
  assumes inv: "rm_inv m" and on: "retried fp (rm_state m)" and arm: "armed fp (rm_state m)" and e: "\<not> settles fp e"
  shows "armed fp (rm_state (recon_step e m))"
proof -
  let ?s = "rm_state m"
  have keys: "keys_ok ?s" using inv by (simp add: rm_inv_def)
  have dial: "recon_may_dial fp ?s" "fp \<in> set (rs_paired ?s)" using on by (simp_all add: retried_def)
  from arm obtain en where en: "entry fp ?s = Some en" "pr_next_at en \<noteq> None" by (auto simp: armed_def)
  have same: "armed fp s'" if "entry fp s' = Some en" for s' using that en(2) by (simp add: armed_def)
  show ?thesis
  proof (cases e)
    case (ConnLost k c now r)
    then show ?thesis
      using en dial by (auto simp: armed_def entry_teardown armed_entry_fields simp del: not_None_eq)
  next
    case (Supervise now)
    then show ?thesis using en by (auto simp: armed_def Let_def split_beta entry_supervise)
  next
    case (StartAttempt k)
    have "fp = k \<Longrightarrow> fst (attempt_check k ?s)" using dial by (simp add: attempt_check_def)
    with StartAttempt en show ?thesis
      by (auto simp: Let_def split_beta entry_attempt_check intro!: same)
  next
    case (ConnectOk k now r)
    with e have k: "fp \<noteq> k" by auto
    with ConnectOk en drop_other [OF keys k] show ?thesis
      by (auto simp: Let_def attempt_connected_def intro!: same split: option.split)
  next
    case (ConnectErr k now r)
    then show ?thesis using en
      by (cases "k = fp") (auto simp: armed_def entry_attempt_failed intro: exI [of _ en])
  next
    case (FinishAttempt k)
    then show ?thesis using en by (auto simp: armed_def entry_attempt_finished)
  next
    case (Disconnect k now r)
    with e have k: "fp \<noteq> k" by auto
    with Disconnect en drop_other [OF keys_ok_set(2) [OF keys] k] show ?thesis
      by (auto simp: disconnect_peer_def intro!: same)
  next
    case (Forget k now r)
    with e have k: "fp \<noteq> k" by auto
    have "keys_ok (disarm k (?s\<lparr>rs_paired := filter (\<lambda>p. p \<noteq> k) (rs_paired ?s),
        rs_transport := snd (store_remove k (rs_transport ?s))\<rparr>))" using keys by simp
    with Forget en drop_other [OF this k] k show ?thesis
      by (auto simp: forget_peer_def Let_def intro!: same)
  qed (use en e in \<open>auto simp: entry_note_outbound Let_def split_beta set_dial_def intro!: same
      split: option.split prod.split list.split\<close>)
qed

lemma armed_run:
  "rm_inv m \<Longrightarrow> retried fp (rm_state m) \<Longrightarrow> armed fp (rm_state m) \<Longrightarrow> list_all (\<lambda>e. \<not> settles fp e) es \<Longrightarrow>
     armed fp (rm_state (fold recon_step es m)) \<and> retried fp (rm_state (fold recon_step es m))"
proof (induction es arbitrary: m)
  case Nil
  then show ?case by simp
next
  case (Cons e es)
  then have "retried fp (rm_state (recon_step e m))" "armed fp (rm_state (recon_step e m))" "rm_inv (recon_step e m)"
    using held_step [of m fp e] armed_step [of m fp e] settles_releases rm_inv_step by auto
  with Cons show ?case by simp
qed

lemma backoff_range: "1 \<le> backoff_base_s n \<and> backoff_base_s n \<le> 30"
proof -
  have "backoff_base_s n \<in> set BACKOFF_S"
    unfolding backoff_base_s_def by (rule nth_mem) (simp add: BACKOFF_S_def)
  then show ?thesis by (auto simp: BACKOFF_S_def)
qed

lemma next_delay_range:
  "4 / 5 * backoff_base_s n \<le> next_delay_s n r \<and> next_delay_s n r \<le> 6 / 5 * backoff_base_s n"
proof -
  let ?c = "max 0 (min r 1)"
  have c: "0 \<le> ?c" "?c \<le> 1" by (simp_all add: max_def min_def)
  have "next_delay_s n r = backoff_base_s n * (4 / 5 + 2 / 5 * ?c)"
    by (simp add: next_delay_s_def apply_jitter_def JITTER_FRAC_def)
  moreover have "backoff_base_s n * (4 / 5) \<le> backoff_base_s n * (4 / 5 + 2 / 5 * ?c)"
    "backoff_base_s n * (4 / 5 + 2 / 5 * ?c) \<le> backoff_base_s n * (6 / 5)"
    by (rule mult_left_mono; use backoff_range [of n] c in simp)+
  ultimately show ?thesis by (simp add: mult.commute)
qed


section \<open>Properties\<close>

lemma reach_inv:
  "rm_inv (fold recon_step es (recon_machine_new paired store md))"
  "plans_inv (fold recon_step es (recon_machine_new paired store md))"
  by (rule retry.run_inv [OF rm_inv_new], rule plans.run_inv [OF plans_inv_new])




text \<open>
  C8. Only peers this machine has connected out to are ever dialled by the retry threads, and a peer
  that is set to inbound-only or unpaired is not dialled again until its policy is changed,
  whatever attempts were armed or scheduled before.
\<close>

theorem retry_dials_only_outbound:
  assumes "m = fold recon_step hs (recon_machine_new paired store md)"
    and "list_all (\<lambda>e. \<not> sets_dial fp e) es"
  shows "set (rm_dials (fold recon_step es m)) \<subseteq> set (rm_outbound (fold recon_step es m)) \<and>
    (\<not> recon_may_dial fp (rm_state m) \<or> fp \<notin> set (rs_paired (rm_state m)) \<longrightarrow>
       count_list (rm_dials (fold recon_step es m)) fp = count_list (rm_dials m) fp)"
proof -
  have "rm_inv (fold recon_step es m)"
    using reach_inv(1) [of hs paired store md] assms(1) by (simp add: retry.run_inv)
  then show ?thesis using forbidden_run [of fp m es] assms(2) by (simp add: rm_inv_def forbidden_def)
qed

theorem retry_dials_only_outbound_witness:
  "count_list (rm_dials (fold recon_step [Supervise 9, StartAttempt ''p'', Supervise 99, StartAttempt ''p'']
     (fold recon_step [Outbound ''p'' None, ConnLost ''p'' 1 0 0, SetDial ''p'' InboundOnly]
       (recon_machine_new [''p''] Map.empty ModeA)))) ''p'' = 0"
  using retry_dials_only_outbound [OF refl, where paired = "[''p'']" and store = Map.empty and md = ModeA and fp = "''p''"
      and hs = "[Outbound ''p'' None, ConnLost ''p'' 1 0 0, SetDial ''p'' InboundOnly]"
      and es = "[Supervise 9, StartAttempt ''p'', Supervise 99, StartAttempt ''p'']"]
  by (simp add: recon_machine_new_def recon_may_dial_def set_dial_def store_set_def store_dial_policy_def
      pt_dial_def dial_parse_def may_dial_def Let_def split_beta)

text \<open>
  C7. An armed retry is not given up: until the connection is made again or the peer is released, it
  stays armed through everything else; it is never stuck in flight without a thread that works on
  it; once due, the next look of the supervisor starts exactly one attempt; and a failed attempt
  arms it again, between 0.8 and 36 seconds later.
\<close>

theorem retry_stays_armed:
  assumes "m = fold recon_step hs (recon_machine_new paired store md)"
    and "retried fp (rm_state m)" and "armed fp (rm_state m)" and "list_all (\<lambda>e. \<not> settles fp e) es"
  shows "\<exists>e t. map_of (rs_recon (rm_state (fold recon_step es m))) fp = Some e \<and> pr_next_at e = Some t \<and>
    (pr_in_flight e \<longrightarrow> fp \<in> fst ` set (rm_threads (fold recon_step es m))) \<and>
    (t \<le> now \<and> \<not> pr_in_flight e \<longrightarrow>
       count_list (fst (supervise now (rm_state (fold recon_step es m)))) fp = 1) \<and>
    (\<exists>e' t'. map_of (rs_recon (attempt_failed fp now r (rm_state (fold recon_step es m)))) fp = Some e' \<and>
       pr_next_at e' = Some t' \<and> now + 4 / 5 \<le> t' \<and> t' \<le> now + 36)"
proof -
  let ?m = "fold recon_step es m"
  let ?s = "rm_state ?m"
  have inv0: "rm_inv m" using reach_inv(1) [of hs paired store md] assms(1) by simp
  then have inv: "rm_inv ?m" by (rule retry.run_inv)
  from armed_run [OF inv0 assms(2-4)] obtain e t where e: "entry fp ?s = Some e" "pr_next_at e = Some t"
    by (auto simp: armed_def)
  have keys: "keys_ok ?s" using inv by (simp add: rm_inv_def)
  have dist: "distinct (fst (supervise now ?s))"
    using keys distinct_map_filter [of fst "rs_recon ?s" "\<lambda>(fp, e). is_due now e"]
    by (simp add: supervise_def keys_ok_def)
  have "count_list (fst (supervise now ?s)) fp = 1" if "t \<le> now" "\<not> pr_in_flight e"
  proof -
    have "fp \<in> set (fst (supervise now ?s))" using e that by (simp add: supervise_due [OF keys] is_due_def)
    with dist show ?thesis by (rule count_list_distinct)
  qed
  moreover have "pr_in_flight e \<longrightarrow> fp \<in> fst ` set (rm_threads ?m)" using inv e unfolding rm_inv_def by blast
  moreover have "\<exists>e' t'. entry fp (attempt_failed fp now r ?s) = Some e' \<and> pr_next_at e' = Some t' \<and>
      now + 4 / 5 \<le> t' \<and> t' \<le> now + 36"
    using e backoff_range [of "saturating_inc32 (pr_attempts e)"]
      next_delay_range [of "saturating_inc32 (pr_attempts e)" r]
    by (auto simp: entry_attempt_failed)
  ultimately show ?thesis using e by blast
qed

theorem retry_stays_armed_witness:
  "\<exists>e t. map_of (rs_recon (rm_state (fold recon_step [Supervise 1, StartAttempt ''p'', ConnectErr ''p'' 2 0]
     (fold recon_step [Outbound ''p'' None, ConnLost ''p'' 1 0 0] (recon_machine_new [''p''] Map.empty ModeA))))) ''p''
       = Some e \<and> pr_next_at e = Some t"
  using retry_stays_armed [OF refl, where paired = "[''p'']" and store = Map.empty and md = ModeA and fp = "''p''"
      and hs = "[Outbound ''p'' None, ConnLost ''p'' 1 0 0]"
      and es = "[Supervise 1, StartAttempt ''p'', ConnectErr ''p'' 2 0]"]
  by (fastforce simp: recon_machine_new_def note_outbound_def recon_may_dial_def store_dial_policy_def may_dial_def
      set_entry_def retried_def armed_def teardown_conn_def arm_in_def peer_recon_new_def captured_def Let_def)

text \<open>
  A retry can be lost: when the new connection drops again before the attempt thread has recorded
  its success, recording it disarms the retry that the drop relied on. The peer is then on the list,
  paired and dialable, without connection, thread or replay, and no later look of the supervisor
  starts an attempt.
\<close>

theorem retry_can_be_lost:
  "\<exists>es. let m = fold recon_step es (recon_machine_new [''p''] Map.empty ModeA); s = rm_state m
     in retried ''p'' s \<and> map_of (rs_conns s) ''p'' = None \<and> rm_threads m = [] \<and> rm_replays m = [] \<and>
        (\<exists>e. map_of (rs_recon s) ''p'' = Some e \<and> pr_next_at e = None \<and> \<not> pr_in_flight e) \<and>
        (\<forall>now. recon_step (Supervise now) m = m)"
proof -
  let ?es = "[Outbound ''p'' None, Register ''p'' 1, ConnLost ''p'' 1 0 0, Supervise 1, StartAttempt ''p'',
    Register ''p'' 2, ConnLost ''p'' 2 2 0, ConnectOk ''p'' 3 0, FinishAttempt ''p'']"
  show ?thesis
    by (rule exI [of _ ?es])
      (simp add: recon_machine_new_def note_outbound_def recon_may_dial_def store_dial_policy_def may_dial_def
        set_entry_def retried_def teardown_conn_def arm_in_def peer_recon_new_def captured_def supervise_def is_due_def
        next_delay_s_def apply_jitter_def backoff_base_s_def BACKOFF_S_def JITTER_FRAC_def attempt_check_def
        attempt_connected_def attempt_finished_def Let_def)
qed

end
