(* ===== verification/AutoTier.thy ===== *)
theory AutoTier
  imports Reconnect
begin

text \<open>
  The automatic downgrade from datagrams to a stream (core/audiohubd/src/autotier.rs): the
  decision for one stream as a pure function of the evidence, the sweep over all streams, and what
  a verdict does: it is recorded and saved, and unless the user pinned the peer's tier it is
  announced and the connection is dropped to be built again. Files, messages and the clock are
  outside; what is saved and sent is recorded in a log, times are arguments.
\<close>

section \<open>The decision\<close>

definition T_UDP_SILENCE_MS :: nat where
  "T_UDP_SILENCE_MS = 600"

definition T_KEEPALIVE_SILENCE_MS :: nat where
  "T_KEEPALIVE_SILENCE_MS = 3000"

definition AUTO_TIER_RETRY_SECS :: nat where
  "AUTO_TIER_RETRY_SECS = 3600"

definition CONTROL_SILENCE_LIMIT_MS :: nat where
  "CONTROL_SILENCE_LIMIT_MS = 5000"

definition REASON_NO_INBOUND :: string where
  "REASON_NO_INBOUND = ''no inbound UDP media on this link''"

definition REASON_NO_KEEPALIVE :: string where
  "REASON_NO_KEEPALIVE = ''the peer's UDP keepalives never arrived''"

definition REASON_PEER_REPORTED :: string where
  "REASON_PEER_REPORTED = ''the peer reported that UDP does not get through''"

record evidence =
  ev_on_udp :: bool
  ev_tier0 :: bool
  ev_age_ms :: nat
  ev_heard_since_arm :: bool
  ev_control_silent_ms :: nat
  ev_media_seen :: "nat option"
  ev_sent_and_ka :: "(nat \<times> nat) option"

datatype look = Quiet | Blocked string

definition look_at :: "evidence \<Rightarrow> look" where
  "look_at e =
     (if \<not> ev_on_udp e \<or> \<not> ev_tier0 e then Quiet
      else if \<not> ev_heard_since_arm e \<or> CONTROL_SILENCE_LIMIT_MS \<le> ev_control_silent_ms e then Quiet
      else if (case ev_media_seen e of Some seen \<Rightarrow> T_UDP_SILENCE_MS \<le> ev_age_ms e \<and> seen = 0 | None \<Rightarrow> False)
           then Blocked REASON_NO_INBOUND
      else if (case ev_sent_and_ka e of
                 Some (sent, ka) \<Rightarrow> T_KEEPALIVE_SILENCE_MS \<le> ev_age_ms e \<and> 0 < sent \<and> ka = 0
               | None \<Rightarrow> False)
           then Blocked REASON_NO_KEEPALIVE
      else Quiet)"

section \<open>The sweep\<close>

text \<open>A session as the sweep sees it, with the connection it runs on.\<close>

record watched_conn =
  wc_fp :: string
  wc_alive :: bool
  wc_on_udp :: bool
  wc_clock_ms :: nat
  wc_last_rx_ms :: nat

record watched =
  wd_conn :: watched_conn
  wd_armed_ms :: nat
  wd_media_seen :: "nat option"
  wd_sent_and_ka :: "(nat \<times> nat) option"

definition silent_for_ms :: "watched_conn \<Rightarrow> nat" where
  "silent_for_ms c = wc_clock_ms c - wc_last_rx_ms c"

definition heard_since_ms :: "nat \<Rightarrow> watched_conn \<Rightarrow> bool" where
  "heard_since_ms mark c \<longleftrightarrow> mark < wc_last_rx_ms c"

definition evidence_of :: "transport_store \<Rightarrow> watched \<Rightarrow> evidence" where
  "evidence_of store w =
     (let c = wd_conn w in
      \<lparr>ev_on_udp = wc_on_udp c,
       ev_tier0 = (store_effective_tier (wc_fp c) store = Tier0),
       ev_age_ms = wc_clock_ms c - wd_armed_ms w,
       ev_heard_since_arm = heard_since_ms (wd_armed_ms w) c,
       ev_control_silent_ms = silent_for_ms c,
       ev_media_seen = wd_media_seen w,
       ev_sent_and_ka = wd_sent_and_ka w\<rparr>)"

fun collect_verdicts :: "transport_store \<Rightarrow> watched list \<Rightarrow> (string \<times> string) list \<Rightarrow> (string \<times> string) list" where
  "collect_verdicts store [] vs = vs"
| "collect_verdicts store (w # ws) vs =
     (if map_of vs (wc_fp (wd_conn w)) \<noteq> None \<or> \<not> wc_alive (wd_conn w) then collect_verdicts store ws vs
      else case look_at (evidence_of store w) of
             Blocked reason \<Rightarrow> collect_verdicts store ws (vs @ [(wc_fp (wd_conn w), reason)])
           | Quiet \<Rightarrow> collect_verdicts store ws vs)"

section \<open>Acting on a verdict\<close>

datatype tier_effect = Saved | SentSwitch string string string | Retiered string retier

record tier_daemon =
  td_state :: recon_state
  td_log :: "tier_effect list"

definition td_store :: "tier_daemon \<Rightarrow> transport_store" where
  "td_store d = rs_transport (td_state d)"

definition downgrade :: "string \<Rightarrow> string \<Rightarrow> bool \<Rightarrow> nat \<Rightarrow> rat \<Rightarrow> rat \<Rightarrow> tier_daemon \<Rightarrow> tier_daemon" where
  "downgrade fp reason announce now_unix now r d =
     (let (changed, store) = store_note_auto_tier fp Tier1 reason now_unix (td_store d);
          d = d\<lparr>td_state := (td_state d)\<lparr>rs_transport := store\<rparr>\<rparr>
      in if \<not> changed then d
         else
           let d = d\<lparr>td_log := td_log d @ [Saved]\<rparr> in
           if store_tier fp store \<noteq> TierAuto then d
           else
             let sends = announce \<and> map_of (rs_conns (td_state d)) fp \<noteq> None;
                 d = (if sends then d\<lparr>td_log := td_log d @ [SentSwitch fp (tier_as_wire Tier1) reason]\<rparr> else d);
                 (applied, s) = retier_peer fp now r (td_state d)
             in d\<lparr>td_state := s, td_log := td_log d @ [Retiered fp applied]\<rparr>)"

definition watchdog_pass :: "watched list \<Rightarrow> nat \<Rightarrow> rat \<Rightarrow> rat \<Rightarrow> tier_daemon \<Rightarrow> tier_daemon" where
  "watchdog_pass ws now_unix now r d =
     fold (\<lambda>(fp, reason) d. downgrade fp reason True now_unix now r d)
       (collect_verdicts (td_store d) ws []) d"

definition on_peer_switch :: "string \<Rightarrow> string \<Rightarrow> string \<Rightarrow> nat \<Rightarrow> rat \<Rightarrow> rat \<Rightarrow> tier_daemon \<Rightarrow> tier_daemon" where
  "on_peer_switch fp tier reason now_unix now r d =
     (if tier_parse tier \<noteq> Some Tier1 then d
      else
        let why = (if reason = [] then REASON_PEER_REPORTED
                   else REASON_PEER_REPORTED @ '' ('' @ reason @ '')'')
        in downgrade fp why False now_unix now r d)"

definition verdict_stale :: "string \<Rightarrow> nat \<Rightarrow> transport_store \<Rightarrow> bool" where
  "verdict_stale fp now_unix store =
     (let t = store_get fp store in
      case (pt_observed_tier t, pt_auto_tier_since t) of
        (Some tier, Some since) \<Rightarrow> now_unix < since \<or> AUTO_TIER_RETRY_SECS \<le> now_unix - since
      | (Some tier, None) \<Rightarrow> True
      | (None, since) \<Rightarrow> False)"

definition retire_stale_verdict :: "string \<Rightarrow> nat \<Rightarrow> tier_daemon \<Rightarrow> tier_daemon" where
  "retire_stale_verdict fp now_unix d =
     (if \<not> verdict_stale fp now_unix (td_store d) then d
      else
        let (changed, store) = store_clear_auto_tier fp (td_store d)
        in d\<lparr>td_state := (td_state d)\<lparr>rs_transport := store\<rparr>,
             td_log := td_log d @ (if changed then [Saved] else [])\<rparr>)"


section \<open>What the sweep finds\<close>

text \<open>A stream that shows that datagrams do not get through, on a connection that does.\<close>

definition blocked_evidence :: "evidence \<Rightarrow> bool" where
  "blocked_evidence e \<longleftrightarrow> ev_on_udp e \<and> ev_tier0 e \<and> ev_heard_since_arm e \<and> ev_control_silent_ms e < 5000 \<and>
     (ev_media_seen e = Some 0 \<and> 600 \<le> ev_age_ms e \<or>
      (\<exists>sent. ev_sent_and_ka e = Some (sent, 0) \<and> 0 < sent \<and> 3000 \<le> ev_age_ms e))"

lemma look_at_blocked: "(\<exists>reason. look_at e = Blocked reason) \<longleftrightarrow> blocked_evidence e"
  by (auto simp: look_at_def blocked_evidence_def CONTROL_SILENCE_LIMIT_MS_def T_UDP_SILENCE_MS_def
      T_KEEPALIVE_SILENCE_MS_def split: option.splits)

lemma look_at_quiet: "look_at e = Quiet \<longleftrightarrow> \<not> blocked_evidence e"
  using look_at_blocked [of e] by (cases "look_at e") auto

definition condemned :: "transport_store \<Rightarrow> watched \<Rightarrow> bool" where
  "condemned store w \<longleftrightarrow> wc_alive (wd_conn w) \<and> blocked_evidence (evidence_of store w)"

lemma collect_verdicts_spec:
  "distinct (map fst vs) \<Longrightarrow>
     distinct (map fst (collect_verdicts store ws vs)) \<and>
     (\<forall>fp. map_of (collect_verdicts store ws vs) fp \<noteq> None \<longleftrightarrow>
        map_of vs fp \<noteq> None \<or> (\<exists>w \<in> set ws. wc_fp (wd_conn w) = fp \<and> condemned store w))"
proof (induction ws arbitrary: vs)
  case Nil
  then show ?case by simp
next
  case (Cons w ws)
  let ?fp = "wc_fp (wd_conn w)"
  show ?case
  proof (cases "map_of vs ?fp \<noteq> None \<or> \<not> wc_alive (wd_conn w)")
    case True
    with Cons.IH [OF Cons.prems] show ?thesis by (auto simp: condemned_def)
  next
    case False
    show ?thesis
    proof (cases "look_at (evidence_of store w)")
      case Quiet
      then have "\<not> condemned store w" by (simp add: condemned_def look_at_quiet)
      with Quiet False Cons.IH [OF Cons.prems] show ?thesis by (auto simp del: not_None_eq)
    next
      case (Blocked reason)
      then have c: "condemned store w" using False look_at_blocked [of "evidence_of store w"] by (auto simp: condemned_def)
      have d: "distinct (map fst (vs @ [(?fp, reason)]))"
        using Cons.prems False by (auto simp: map_of_eq_None_iff)
      have "map_of (vs @ [(?fp, reason)]) fp \<noteq> None \<longleftrightarrow> map_of vs fp \<noteq> None \<or> fp = ?fp" for fp
        by (auto simp: map_add_def split: option.split)
      with Cons.IH [OF d] False Blocked c show ?thesis by (simp del: not_None_eq)
    qed
  qed
qed

lemma collect_distinct: "distinct (map fst (collect_verdicts store ws []))"
  using collect_verdicts_spec [of "[]" store ws] by simp

lemma collect_iff:
  "fp \<in> fst ` set (collect_verdicts store ws []) \<longleftrightarrow> (\<exists>w \<in> set ws. wc_fp (wd_conn w) = fp \<and> condemned store w)"
proof -
  have "fp \<in> fst ` set (collect_verdicts store ws []) \<longleftrightarrow> map_of (collect_verdicts store ws []) fp \<noteq> None"
    by (simp only: map_of_eq_None_iff) simp
  also have "\<dots> \<longleftrightarrow> (\<exists>w \<in> set ws. wc_fp (wd_conn w) = fp \<and> condemned store w)"
    using collect_verdicts_spec [of "[]" store ws] by (simp only: map_of.simps list.map distinct.simps simp_thms)
  finally show ?thesis .
qed

section \<open>What a verdict changes\<close>

lemma retier_transport [simp]: "rs_transport (snd (retier_peer fp now r s)) = rs_transport s"
  by (simp add: retier_peer_def Let_def)

lemma downgrade_store:
  "td_store (downgrade fp reason announce u now r d) = snd (store_note_auto_tier fp Tier1 reason u (td_store d))"
  by (simp add: downgrade_def td_store_def Let_def split_beta)

lemma downgrade_store_step: "td_store (downgrade fp reason announce u now r d) = detector_step (NoteTier fp Tier1 reason u) (td_store d)"
  by (simp add: downgrade_store)

lemma note_same:
  "s fp \<noteq> None \<Longrightarrow> pt_observed_tier (store_get fp s) = Some tier \<Longrightarrow> store_note_auto_tier fp tier reason u s = (False, s)"
  by (auto simp: store_note_auto_tier_def store_get_def Let_def)

lemma observed_present: "observed fp s \<Longrightarrow> s fp \<noteq> None"
  by (cases "s fp") (simp_all add: observed_def store_get_def)

lemma downgrade_again:
  assumes "observed fp (td_store d)"
  shows "downgrade fp reason announce u now r d = d"
proof -
  from assms have "store_note_auto_tier fp Tier1 reason u (td_store d) = (False, td_store d)"
    using note_same [of "td_store d" fp Tier1] observed_present [OF assms] by (simp add: observed_def)
  then show ?thesis by (simp add: downgrade_def td_store_def)
qed

abbreviation downgrades :: "(string \<times> string) list \<Rightarrow> nat \<Rightarrow> rat \<Rightarrow> rat \<Rightarrow> tier_daemon \<Rightarrow> tier_daemon" where
  "downgrades vs u now r d \<equiv> fold (\<lambda>(fp, reason) d. downgrade fp reason True u now r d) vs d"

lemma downgrades_store:
  "td_store (downgrades vs u now r d) = fold detector_step (map (\<lambda>(fp, reason). NoteTier fp Tier1 reason u) vs) (td_store d)"
  by (induction vs arbitrary: d) (auto simp: downgrade_store_step simp del: detector_step.simps)

lemma verdict_fold:
  "fold (verdict_step fp) (map (\<lambda>(k, reason). NoteTier k Tier1 reason u) vs) v \<longleftrightarrow> v \<or> fp \<in> fst ` set vs"
  by (induction vs arbitrary: v) auto

lemma downgrades_observed:
  "observed fp (td_store (downgrades vs u now r d)) \<longleftrightarrow> observed fp (td_store d) \<or> fp \<in> fst ` set vs"
  by (simp add: downgrades_store detector_run verdict_fold)

lemma downgrades_user:
  "user_part (store_get fp (td_store (downgrades vs u now r d))) = user_part (store_get fp (td_store d))"
  by (simp add: downgrades_store detector_run)

lemma downgrades_again:
  "\<forall>(fp, reason) \<in> set vs. observed fp (td_store d) \<Longrightarrow> downgrades vs u now r d = d"
proof (induction vs)
  case Nil
  then show ?case by simp
next
  case (Cons v vs)
  obtain k reason where v: "v = (k, reason)" by fastforce
  with Cons.prems have "downgrade k reason True u now r d = d" by (simp add: downgrade_again)
  with Cons v show ?case by simp
qed

lemma tier_of_user: "user_part (store_get fp s) = user_part (store_get fp t) \<Longrightarrow> store_tier fp s = store_tier fp t"
  unfolding store_readers by (rule user_part_fields(1))

lemma effective_from:
  "store_effective_tier fp s =
     (if store_tier fp s \<noteq> TierAuto then store_tier fp s else if observed fp s then Tier1 else Tier0)"
  by (simp add: store_readers effective_tier_cases observed_def)

text \<open>A verdict about a pinned peer is recorded and nothing else.\<close>

lemma downgrade_pinned:
  assumes "store_tier fp (td_store d) \<noteq> TierAuto"
  shows "rs_conns (td_state (downgrade fp reason announce u now r d)) = rs_conns (td_state d)"
    "rs_sessions (td_state (downgrade fp reason announce u now r d)) = rs_sessions (td_state d)"
    "rs_recon (td_state (downgrade fp reason announce u now r d)) = rs_recon (td_state d)"
    "set (td_log (downgrade fp reason announce u now r d)) \<subseteq> insert Saved (set (td_log d))"
proof -
  let ?n = "store_note_auto_tier fp Tier1 reason u (td_store d)"
  have "user_part (store_get fp (snd ?n)) = user_part (store_get fp (td_store d))"
    using detector_run(1) [of fp "[NoteTier fp Tier1 reason u]" "td_store d"] by simp
  then have "store_tier fp (snd ?n) \<noteq> TierAuto" using assms tier_of_user by metis
  then show "rs_conns (td_state (downgrade fp reason announce u now r d)) = rs_conns (td_state d)"
    "rs_sessions (td_state (downgrade fp reason announce u now r d)) = rs_sessions (td_state d)"
    "rs_recon (td_state (downgrade fp reason announce u now r d)) = rs_recon (td_state d)"
    "set (td_log (downgrade fp reason announce u now r d)) \<subseteq> insert Saved (set (td_log d))"
    by (auto simp: downgrade_def Let_def split_beta)
qed

lemma downgrades_pinned:
  assumes "\<forall>(fp, reason) \<in> set vs. store_tier fp (td_store d) \<noteq> TierAuto"
  shows "rs_conns (td_state (downgrades vs u now r d)) = rs_conns (td_state d) \<and>
    rs_sessions (td_state (downgrades vs u now r d)) = rs_sessions (td_state d) \<and>
    set (td_log (downgrades vs u now r d)) \<subseteq> insert Saved (set (td_log d))"
  using assms
proof (induction vs arbitrary: d)
  case Nil
  then show ?case by auto
next
  case (Cons v vs)
  obtain k reason where v: "v = (k, reason)" by fastforce
  let ?d = "downgrade k reason True u now r d"
  have "store_tier fp (td_store ?d) = store_tier fp (td_store d)" for fp
    by (rule tier_of_user) (simp only: downgrade_store_step detector_step_effect)
  with Cons.prems have "\<forall>(fp, reason) \<in> set vs. store_tier fp (td_store ?d) \<noteq> TierAuto" by auto
  from Cons.IH [OF this] downgrade_pinned [of k d reason True u now r] Cons.prems v show ?case by auto
qed

section \<open>Properties\<close>

text \<open>
  The sweep condemns exactly the peers it should, each at most once: a peer gets a verdict if and
  only if one of its streams, on a live connection over datagrams at effective tier 0, was answered
  on the control channel after it started, within the last five seconds, and has received nothing
  in 600 milliseconds, or has sent for three seconds without one keepalive.
\<close>

theorem sweep_exact:
  "distinct (map fst (collect_verdicts store ws [])) \<and>
   fst ` set (collect_verdicts store ws []) =
     {fp. \<exists>w. w \<in> set ws \<and> wc_fp (wd_conn w) = fp \<and> wc_alive (wd_conn w) \<and> wc_on_udp (wd_conn w) \<and>
        store_effective_tier fp store = Tier0 \<and> wd_armed_ms w < wc_last_rx_ms (wd_conn w) \<and>
        wc_clock_ms (wd_conn w) < wc_last_rx_ms (wd_conn w) + 5000 \<and>
        (wd_media_seen w = Some 0 \<and> wd_armed_ms w + 600 \<le> wc_clock_ms (wd_conn w) \<or>
         (\<exists>sent. wd_sent_and_ka w = Some (sent, 0) \<and> 0 < sent \<and> wd_armed_ms w + 3000 \<le> wc_clock_ms (wd_conn w)))}"
proof -
  have c: "condemned store w \<longleftrightarrow> wc_alive (wd_conn w) \<and> wc_on_udp (wd_conn w) \<and>
      store_effective_tier (wc_fp (wd_conn w)) store = Tier0 \<and> wd_armed_ms w < wc_last_rx_ms (wd_conn w) \<and>
      wc_clock_ms (wd_conn w) < wc_last_rx_ms (wd_conn w) + 5000 \<and>
      (wd_media_seen w = Some 0 \<and> wd_armed_ms w + 600 \<le> wc_clock_ms (wd_conn w) \<or>
       (\<exists>sent. wd_sent_and_ka w = Some (sent, 0) \<and> 0 < sent \<and> wd_armed_ms w + 3000 \<le> wc_clock_ms (wd_conn w)))" for w
    by (auto simp: condemned_def blocked_evidence_def evidence_of_def silent_for_ms_def heard_since_ms_def Let_def)
  have "fst ` set (collect_verdicts store ws []) = {fp. \<exists>w \<in> set ws. wc_fp (wd_conn w) = fp \<and> condemned store w}"
    using collect_iff by blast
  with collect_distinct [of store ws] show ?thesis by (auto simp: c)
qed


text \<open>
  A pin is respected, and a peer cannot push media elsewhere: a verdict about a peer whose tier
  the user pinned leaves connections, sessions and retries alone and only saves the record; what a
  peer reports is acted on only if it names tier 1, never changes what the user set, makes tier 1
  run at most, and is never answered with a message of the same kind.
\<close>

theorem peer_report_is_bounded:
  fixes d :: tier_daemon
  shows "let d' = on_peer_switch fp tier reason u now r d in
    (tier_parse tier \<noteq> Some Tier1 \<longrightarrow> d' = d) \<and>
    user_part (store_get k (td_store d')) = user_part (store_get k (td_store d)) \<and>
    (store_tier k (td_store d) = TierAuto \<longrightarrow> store_effective_tier k (td_store d') \<in> {Tier0, Tier1}) \<and>
    (store_tier fp (td_store d) \<noteq> TierAuto \<longrightarrow>
       rs_conns (td_state d') = rs_conns (td_state d) \<and> rs_sessions (td_state d') = rs_sessions (td_state d) \<and>
       rs_recon (td_state d') = rs_recon (td_state d) \<and> store_effective_tier fp (td_store d') = store_tier fp (td_store d)) \<and>
    filter (\<lambda>x. \<exists>k t w. x = SentSwitch k t w) (td_log d') = filter (\<lambda>x. \<exists>k t w. x = SentSwitch k t w) (td_log d)"
proof (cases "tier_parse tier = Some Tier1")
  case False
  then show ?thesis by (auto simp: on_peer_switch_def effective_from)
next
  case True
  define why where "why = (if reason = [] then REASON_PEER_REPORTED else REASON_PEER_REPORTED @ '' ('' @ reason @ '')'')"
  let ?d' = "downgrade fp why False u now r d"
  have d': "on_peer_switch fp tier reason u now r d = ?d'" using True by (simp add: on_peer_switch_def why_def Let_def)
  have user: "user_part (store_get k (td_store ?d')) = user_part (store_get k (td_store d))" for k
    by (simp only: downgrade_store_step detector_step_effect)
  have tier: "store_tier k (td_store ?d') = store_tier k (td_store d)" for k by (rule tier_of_user [OF user])
  have log: "filter (\<lambda>x. \<exists>k t w. x = SentSwitch k t w) (td_log ?d') = filter (\<lambda>x. \<exists>k t w. x = SentSwitch k t w) (td_log d)"
    by (simp add: downgrade_def Let_def split_beta)
  show ?thesis
    using user tier log True downgrade_pinned [of fp d why False u now r]
    by (simp add: d' effective_from)
qed

theorem peer_report_is_bounded_witness:
  "on_peer_switch ''p'' ''tier2'' [] 5 0 0 \<lparr>td_state = rm_state (recon_machine_new [] Map.empty ModeA), td_log = []\<rparr> =
     \<lparr>td_state = rm_state (recon_machine_new [] Map.empty ModeA), td_log = []\<rparr>"
  using peer_report_is_bounded [of "''p''" "''tier2''" "[]" 5 0 0
      "\<lparr>td_state = rm_state (recon_machine_new [] Map.empty ModeA), td_log = []\<rparr>" "[]"]
  by (simp add: tier_parse_def Let_def)

text \<open>
  A verdict is retired, so that the next connection looks again, exactly if its age is at least an
  hour or cannot be known; retiring it leaves the user's settings alone.
\<close>

theorem retirement:
  "let d' = retire_stale_verdict fp u d in
    user_part (store_get k (td_store d')) = user_part (store_get k (td_store d)) \<and>
    (observed fp (td_store d') \<longleftrightarrow> observed fp (td_store d) \<and>
       (\<exists>since. pt_auto_tier_since (store_get fp (td_store d)) = Some since \<and> since \<le> u \<and> u < since + 3600))"
proof -
  have eff: "user_part (store_get k (snd (store_clear_auto_tier fp s))) = user_part (store_get k s)"
    "\<not> observed fp (snd (store_clear_auto_tier fp s))" for s
    using detector_step_effect [of k "ClearTier fp" s] detector_step_effect(2) [of fp "ClearTier fp" s] by simp_all
  have "verdict_stale fp u s \<longleftrightarrow> observed fp s \<and>
      (\<forall>since. pt_auto_tier_since (store_get fp s) = Some since \<longrightarrow> u < since \<or> since + 3600 \<le> u)" for s
    using observed_range [of "store_get fp s"]
    by (auto simp: verdict_stale_def observed_def Let_def AUTO_TIER_RETRY_SECS_def split: option.split)
  then show ?thesis using eff [of "td_store d"]
    by (auto simp: retire_stale_verdict_def td_store_def Let_def split_beta)
qed

end
