(* ===== verification/Rtsp.thy ===== *)
theory Rtsp
  imports RustStr Interfaces
begin

text \<open>
  The HTTP/RTSP framing of the AirPlay control socket
  (core/audiohub-airplay/src/protocol/rtsp.rs): the request parser, its two drivers (reading a
  socket byte by byte, and the persistent decoder that is fed arbitrary chunks) and the response
  encoder. Texts are byte strings here, as the parser sees them. A reader is the bytes it will
  deliver and how it ends; the callback that chooses the body limit is an argument.
\<close>

section \<open>Limits, values and errors\<close>

definition ascii :: "string \<Rightarrow> bytes" where
  "ascii s = map of_char s"

definition DEFAULT_MAX_REQUEST_LINE_BYTES :: nat where
  "DEFAULT_MAX_REQUEST_LINE_BYTES = 2 * 1024"

definition DEFAULT_MAX_HEADER_BYTES :: nat where
  "DEFAULT_MAX_HEADER_BYTES = 32 * 1024"

record request_limits =
  max_request_line_bytes :: nat
  max_header_bytes :: nat
  max_header_count :: nat
  default_max_body_bytes :: nat

definition request_limits_default :: request_limits where
  "request_limits_default =
     \<lparr>max_request_line_bytes = DEFAULT_MAX_REQUEST_LINE_BYTES, max_header_bytes = DEFAULT_MAX_HEADER_BYTES,
      max_header_count = 128, default_max_body_bytes = 64 * 1024\<rparr>"

record header =
  hd_name :: bytes
  hd_value :: bytes

record request =
  rq_method :: bytes
  rq_target :: bytes
  rq_version :: bytes
  rq_headers :: "header list"
  rq_body :: bytes

datatype io_kind = UnexpectedEof | OtherKind nat

datatype rtsp_error =
    Io io_kind
  | InvalidLimits
  | RequestLineTooLarge nat
  | HeadersTooLarge nat
  | TooManyHeaders nat
  | BodyTooLarge nat nat
  | BufferedDataTooLarge nat nat
  | PoisonedDecoder
  | UnexpectedEofInHeaders
  | UnexpectedEofInBody nat
  | MalformedLineEnding
  | MalformedRequestLine
  | MalformedHeader
  | ObsoleteHeaderFolding
  | InvalidContentLength
  | DuplicateContentLength
  | ConflictingContentLength
  | TransferEncodingUnsupported
  | InvalidResponse
  | ReservedResponseHeader bytes

section \<open>Characters and texts\<close>

definition is_alphanumeric :: "u8 \<Rightarrow> bool" where
  "is_alphanumeric b \<longleftrightarrow> 48 \<le> b \<and> b \<le> 57 \<or> 65 \<le> b \<and> b \<le> 90 \<or> 97 \<le> b \<and> b \<le> 122"

definition is_token :: "u8 \<Rightarrow> bool" where
  "is_token b \<longleftrightarrow> is_alphanumeric b \<or>
     b \<in> set [33, 35, 36, 37, 38, 39, 42, 43, 45, 46, 94, 95, 96, 124, 126]"

definition is_control :: "u8 \<Rightarrow> bool" where
  "is_control b \<longleftrightarrow> b < 32 \<or> b = 127"

definition is_graphic :: "u8 \<Rightarrow> bool" where
  "is_graphic b \<longleftrightarrow> 33 \<le> b \<and> b \<le> 126"

definition lower_byte :: "u8 \<Rightarrow> u8" where
  "lower_byte b = (if 65 \<le> b \<and> b \<le> 90 then b + 32 else b)"

definition eq_ignore_case :: "bytes \<Rightarrow> bytes \<Rightarrow> bool" where
  "eq_ignore_case a b \<longleftrightarrow> map lower_byte a = map lower_byte b"

definition windows :: "nat \<Rightarrow> 'a list \<Rightarrow> 'a list list" where
  "windows n xs = map (\<lambda>i. take n (drop i xs)) [0..<length xs + 1 - n]"

definition find_crlf :: "bytes \<Rightarrow> nat option" where
  "find_crlf bs = position (\<lambda>w. w = [13, 10]) (windows 2 bs)"

definition find_blank_line :: "bytes \<Rightarrow> nat option" where
  "find_blank_line bs = position (\<lambda>w. w = [13, 10, 13, 10]) (windows 4 bs)"

definition is_ows :: "u8 \<Rightarrow> bool" where
  "is_ows b \<longleftrightarrow> b = 32 \<or> b = 9"

definition trim_ows :: "bytes \<Rightarrow> bytes" where
  "trim_ows v = rev (dropWhile is_ows (rev (dropWhile is_ows v)))"

fun split_byte :: "u8 \<Rightarrow> bytes \<Rightarrow> bytes list" where
  "split_byte c [] = [[]]"
| "split_byte c (b # bs) =
     (if b = c then [] # split_byte c bs
      else case split_byte c bs of [] \<Rightarrow> [[b]] | w # ws \<Rightarrow> (b # w) # ws)"

definition decimal :: "bytes \<Rightarrow> nat" where
  "decimal bs = foldl (\<lambda>a d. 10 * a + unat (d - 48)) 0 bs"

definition parse_content_length :: "bytes \<Rightarrow> rtsp_error + nat" where
  "parse_content_length v =
     (if v = [] \<or> \<not> list_all (\<lambda>b. 48 \<le> b \<and> b \<le> 57) v then Inl InvalidContentLength
      else if u64_max < decimal v then Inl InvalidContentLength
      else Inr (decimal v))"

definition valid_header_name :: "bytes \<Rightarrow> bool" where
  "valid_header_name n \<longleftrightarrow> n \<noteq> [] \<and> list_all is_token n"

definition valid_header_value :: "bytes \<Rightarrow> bool" where
  "valid_header_value v \<longleftrightarrow> list_all (\<lambda>b. b = 9 \<or> 32 \<le> b \<and> b \<le> 126 \<or> 128 \<le> b) v"

definition header_new :: "bytes \<Rightarrow> bytes \<Rightarrow> rtsp_error + header" where
  "header_new n v =
     (if \<not> valid_header_name n then Inl MalformedHeader
      else if \<not> valid_header_value v then Inl MalformedHeader
      else Inr \<lparr>hd_name = n, hd_value = v\<rparr>)"

definition rq_header :: "bytes \<Rightarrow> request \<Rightarrow> bytes option" where
  "rq_header n r = map_option hd_value (find (\<lambda>h. eq_ignore_case (hd_name h) n) (rq_headers r))"

definition contains_bytes :: "bytes \<Rightarrow> bytes \<Rightarrow> bool" where
  "contains_bytes needle hay \<longleftrightarrow> sublist needle hay"

definition is_sensitive_header :: "bytes \<Rightarrow> bool" where
  "is_sensitive_header n \<longleftrightarrow>
     list_ex (\<lambda>c. eq_ignore_case n (ascii c))
       [''authorization'', ''proxy-authorization'', ''www-authenticate'', ''proxy-authenticate'',
        ''apple-challenge'', ''apple-response'', ''x-apple-hkp'', ''x-apple-hkdf'', ''active-remote''] \<or>
     list_ex (\<lambda>c. contains_bytes (ascii c) (map lower_byte n)) [''token'', ''secret'', ''key'']"

section \<open>Parsing a head\<close>

definition validate_limits :: "request_limits \<Rightarrow> bool" where
  "validate_limits lim \<longleftrightarrow>
     \<not> (max_request_line_bytes lim = 0 \<or> max_header_bytes lim < 4 \<or>
        max_request_line_bytes lim > max_header_bytes lim \<or> max_header_count lim = 0)"

definition parse_request_line :: "bytes \<Rightarrow> rtsp_error + bytes \<times> bytes \<times> bytes" where
  "parse_request_line line =
     (if \<not> list_all (\<lambda>b. b < 128) line then Inl MalformedRequestLine
      else case split_byte 32 line of
             [m, t, v] \<Rightarrow>
               if m = [] \<or> t = [] \<or> v = [] then Inl MalformedRequestLine
               else if \<not> list_all is_token m \<or> list_ex is_control t \<or>
                       v \<notin> set [ascii ''RTSP/1.0'', ascii ''HTTP/1.0'', ascii ''HTTP/1.1'']
               then Inl MalformedRequestLine
               else Inr (m, t, v)
           | _ \<Rightarrow> Inl MalformedRequestLine)"

text \<open>One header line: the header and, for a Content-Length, its number.\<close>

definition parse_header_line :: "bytes \<Rightarrow> rtsp_error + header \<times> nat option" where
  "parse_header_line line =
     (if line \<noteq> [] \<and> is_ows (hd line) then Inl ObsoleteHeaderFolding
      else case position (\<lambda>b. b = 58) line of
             None \<Rightarrow> Inl MalformedHeader
           | Some colon \<Rightarrow>
               let n = take colon line; v = trim_ows (drop (colon + 1) line) in
               if \<not> valid_header_name n then Inl MalformedHeader
               else if \<not> valid_header_value v then Inl MalformedHeader
               else if eq_ignore_case n (ascii ''transfer-encoding'') then Inl TransferEncodingUnsupported
               else if eq_ignore_case n (ascii ''content-length'') then
                 (case parse_content_length v of
                    Inl e \<Rightarrow> Inl e
                  | Inr k \<Rightarrow> Inr (\<lparr>hd_name = n, hd_value = v\<rparr>, Some k))
               else Inr (\<lparr>hd_name = n, hd_value = v\<rparr>, None))"

function parse_lines :: "request_limits \<Rightarrow> bytes \<Rightarrow> header list \<Rightarrow> nat option \<Rightarrow>
    rtsp_error + header list \<times> nat option" where
  "parse_lines lim rest hs cl =
     (if length rest \<le> 2 then Inr (hs, cl)
      else case find_crlf rest of
             None \<Rightarrow> Inl MalformedHeader
           | Some e \<Rightarrow>
               if e = 0 then Inr (hs, cl)
               else if length hs = max_header_count lim then Inl (TooManyHeaders (max_header_count lim))
               else case parse_header_line (take e rest) of
                      Inl err \<Rightarrow> Inl err
                    | Inr (h, None) \<Rightarrow> parse_lines lim (drop (e + 2) rest) (hs @ [h]) cl
                    | Inr (h, Some k) \<Rightarrow>
                        (case cl of
                           Some p \<Rightarrow> Inl (if p = k then DuplicateContentLength else ConflictingContentLength)
                         | None \<Rightarrow> parse_lines lim (drop (e + 2) rest) (hs @ [h]) (Some k)))"
  by pat_completeness auto
termination
  by (relation "measure (\<lambda>(lim, rest, hs, cl). length rest)") auto

declare parse_lines.simps [simp del]

type_synonym parsed_head = "bytes \<times> bytes \<times> bytes \<times> header list \<times> nat"

definition parse_head :: "bytes \<Rightarrow> request_limits \<Rightarrow> rtsp_error + parsed_head" where
  "parse_head head lim =
     (case find_crlf head of
        None \<Rightarrow> Inl MalformedRequestLine
      | Some e \<Rightarrow>
          if max_request_line_bytes lim < e then Inl (RequestLineTooLarge (max_request_line_bytes lim))
          else case parse_request_line (take e head) of
                 Inl err \<Rightarrow> Inl err
               | Inr (m, t, v) \<Rightarrow>
                   (case parse_lines lim (drop (e + 2) head) [] None of
                      Inl err \<Rightarrow> Inl err
                    | Inr (hs, cl) \<Rightarrow> Inr (m, t, v, hs, case cl of Some k \<Rightarrow> k | None \<Rightarrow> 0)))"

type_synonym body_policy = "bytes \<Rightarrow> bytes \<Rightarrow> header list \<Rightarrow> nat option"

definition body_cap :: "body_policy \<Rightarrow> request_limits \<Rightarrow> bytes \<Rightarrow> bytes \<Rightarrow> header list \<Rightarrow> nat" where
  "body_cap f lim m t hs = (case f m t hs of Some c \<Rightarrow> c | None \<Rightarrow> default_max_body_bytes lim)"

section \<open>Reading one request from a socket\<close>

datatype reader_end = Eof | Fails io_kind

fun read_head :: "request_limits \<Rightarrow> bytes \<Rightarrow> bytes \<Rightarrow> reader_end \<Rightarrow> rtsp_error + (bytes \<times> bytes) option" where
  "read_head lim head [] fin =
     (case fin of
        Fails k \<Rightarrow> Inl (Io k)
      | Eof \<Rightarrow> if head = [] then Inr None else Inl UnexpectedEofInHeaders)"
| "read_head lim head (b # bs) fin =
     (let head = head @ [b] in
      if find_crlf head = None \<and> max_request_line_bytes lim < length head
      then Inl (RequestLineTooLarge (max_request_line_bytes lim))
      else if max_header_bytes lim < length head then Inl (HeadersTooLarge (max_header_bytes lim))
      else if suffix [13, 10, 13, 10] head then Inr (Some (head, bs))
      else if b = 10 \<and> (length head < 2 \<or> head ! (length head - 2) \<noteq> 13) then Inl MalformedLineEnding
      else read_head lim head bs fin)"

text \<open>The result, and what the reader still holds after a request.\<close>

definition read_request :: "bytes \<Rightarrow> reader_end \<Rightarrow> request_limits \<Rightarrow> body_policy \<Rightarrow>
    rtsp_error + (request \<times> bytes) option" where
  "read_request input fin lim f =
     (if \<not> validate_limits lim then Inl InvalidLimits
      else case read_head lim [] input fin of
             Inl e \<Rightarrow> Inl e
           | Inr None \<Rightarrow> Inr None
           | Inr (Some (head, rest)) \<Rightarrow>
               (case parse_head head lim of
                  Inl e \<Rightarrow> Inl e
                | Inr (m, t, v, hs, n) \<Rightarrow>
                    let cap = body_cap f lim m t hs in
                    if cap < n then Inl (BodyTooLarge n cap)
                    else if length rest < n then
                      (case fin of
                         Eof \<Rightarrow> Inl (UnexpectedEofInBody n)
                       | Fails k \<Rightarrow> if k = UnexpectedEof then Inl (UnexpectedEofInBody n) else Inl (Io k))
                    else Inr (Some (\<lparr>rq_method = m, rq_target = t, rq_version = v, rq_headers = hs,
                                      rq_body = take n rest\<rparr>, drop n rest))))"

section \<open>The persistent decoder\<close>

definition bare_lf :: "bytes \<Rightarrow> bool" where
  "bare_lf bs \<longleftrightarrow> list_ex (\<lambda>i. bs ! i = 10 \<and> (i = 0 \<or> bs ! (i - 1) \<noteq> 13)) [0..<length bs]"

definition parse_buffered_request :: "bytes \<Rightarrow> request_limits \<Rightarrow> body_policy \<Rightarrow>
    rtsp_error + (request \<times> nat) option" where
  "parse_buffered_request buffered lim f =
     (case find_blank_line buffered of
        None \<Rightarrow>
          if bare_lf buffered then Inl MalformedLineEnding
          else if find_crlf buffered = None \<and> max_request_line_bytes lim < length buffered
          then Inl (RequestLineTooLarge (max_request_line_bytes lim))
          else if max_header_bytes lim < length buffered then Inl (HeadersTooLarge (max_header_bytes lim))
          else Inr None
      | Some i \<Rightarrow>
          let header_end = i + 4 in
          if max_header_bytes lim < header_end then Inl (HeadersTooLarge (max_header_bytes lim))
          else case parse_head (take header_end buffered) lim of
                 Inl e \<Rightarrow> Inl e
               | Inr (m, t, v, hs, n) \<Rightarrow>
                   let cap = body_cap f lim m t hs in
                   if cap < n then Inl (BodyTooLarge n cap)
                   else case checked_add64 header_end n of
                          None \<Rightarrow> Inl (BodyTooLarge u64_max cap)
                        | Some end_pos \<Rightarrow>
                            if length buffered < end_pos then Inr None
                            else Inr (Some (\<lparr>rq_method = m, rq_target = t, rq_version = v, rq_headers = hs,
                                              rq_body = byte_slice header_end end_pos buffered\<rparr>, end_pos)))"

record request_decoder =
  rd_limits :: request_limits
  rd_buffered :: bytes
  rd_poisoned :: bool

definition request_decoder_new :: "request_limits \<Rightarrow> rtsp_error + request_decoder" where
  "request_decoder_new lim =
     (if \<not> validate_limits lim then Inl InvalidLimits
      else case checked_add64 (max_header_bytes lim) (default_max_body_bytes lim) of
             None \<Rightarrow> Inl InvalidLimits
           | Some _ \<Rightarrow> Inr \<lparr>rd_limits = lim, rd_buffered = [], rd_poisoned = False\<rparr>)"

definition rd_take_buffered :: "request_decoder \<Rightarrow> bytes \<times> request_decoder" where
  "rd_take_buffered d = (rd_buffered d, d\<lparr>rd_buffered := []\<rparr>)"

definition rd_set_max_body :: "nat \<Rightarrow> request_decoder \<Rightarrow> (rtsp_error + unit) \<times> request_decoder" where
  "rd_set_max_body n d =
     (if rd_poisoned d then (Inl PoisonedDecoder, d)
      else
        let lim = (rd_limits d)\<lparr>default_max_body_bytes := n\<rparr> in
        if \<not> validate_limits lim then (Inl InvalidLimits, d)
        else case checked_add64 (max_header_bytes lim) n of
               None \<Rightarrow> (Inl InvalidLimits, d)
             | Some cap \<Rightarrow>
                 if cap < length (rd_buffered d)
                 then (Inl (BufferedDataTooLarge (length (rd_buffered d)) cap), d\<lparr>rd_poisoned := True\<rparr>)
                 else (Inr (), d\<lparr>rd_limits := lim\<rparr>))"

definition rd_feed :: "bytes \<Rightarrow> request_decoder \<Rightarrow> (rtsp_error + unit) \<times> request_decoder" where
  "rd_feed input d =
     (if rd_poisoned d then (Inl PoisonedDecoder, d)
      else case checked_add64 (max_header_bytes (rd_limits d)) (default_max_body_bytes (rd_limits d)) of
             None \<Rightarrow> (Inl InvalidLimits, d)
           | Some cap \<Rightarrow>
               (case checked_add64 (length (rd_buffered d)) (length input) of
                  None \<Rightarrow> (Inl (BufferedDataTooLarge u64_max cap), d)
                | Some n \<Rightarrow>
                    if cap < n then (Inl (BufferedDataTooLarge n cap), d\<lparr>rd_poisoned := True\<rparr>)
                    else (Inr (), d\<lparr>rd_buffered := rd_buffered d @ input\<rparr>)))"

definition rd_next_request :: "body_policy \<Rightarrow> request_decoder \<Rightarrow> (rtsp_error + request option) \<times> request_decoder" where
  "rd_next_request f d =
     (if rd_poisoned d then (Inl PoisonedDecoder, d)
      else case parse_buffered_request (rd_buffered d) (rd_limits d) f of
             Inr (Some (r, consumed)) \<Rightarrow> (Inr (Some r), d\<lparr>rd_buffered := drop consumed (rd_buffered d)\<rparr>)
           | Inr None \<Rightarrow> (Inr None, d)
           | Inl e \<Rightarrow> (Inl e, d\<lparr>rd_poisoned := True\<rparr>))"

section \<open>Responses\<close>

record response =
  rp_version :: bytes
  rp_status :: nat
  rp_reason :: bytes
  rp_headers :: "header list"
  rp_body :: bytes

definition response_new :: "nat \<Rightarrow> bytes \<Rightarrow> response" where
  "response_new status reason =
     \<lparr>rp_version = ascii ''RTSP/1.0'', rp_status = status, rp_reason = reason, rp_headers = [], rp_body = []\<rparr>"

definition CRLF :: bytes where
  "CRLF = [13, 10]"

fun encode_headers :: "header list \<Rightarrow> bytes \<Rightarrow> rtsp_error + bytes" where
  "encode_headers [] out = Inr out"
| "encode_headers (h # hs) out =
     (if \<not> valid_header_name (hd_name h) then Inl MalformedHeader
      else if \<not> valid_header_value (hd_value h) then Inl MalformedHeader
      else if eq_ignore_case (hd_name h) (ascii ''content-length'') \<or>
              eq_ignore_case (hd_name h) (ascii ''transfer-encoding'')
      then Inl (ReservedResponseHeader (hd_name h))
      else encode_headers hs (out @ hd_name h @ [58, 32] @ hd_value h @ CRLF))"

definition response_encode :: "response \<Rightarrow> rtsp_error + bytes" where
  "response_encode r =
     (if rp_version r \<notin> set [ascii ''RTSP/1.0'', ascii ''HTTP/1.0'', ascii ''HTTP/1.1''] \<or>
         \<not> (100 \<le> rp_status r \<and> rp_status r \<le> 999) \<or> rp_reason r = [] \<or>
         \<not> list_all (\<lambda>b. is_graphic b \<or> b = 32) (rp_reason r)
      then Inl InvalidResponse
      else case encode_headers (rp_headers r)
                 (rp_version r @ [32] @ ascii (show_nat (rp_status r)) @ [32] @ rp_reason r @ CRLF) of
             Inl e \<Rightarrow> Inl e
           | Inr out \<Rightarrow>
               Inr (out @ ascii ''Content-Length: '' @ ascii (show_nat (length (rp_body r))) @ CRLF @ CRLF @ rp_body r))"

section \<open>Searching\<close>

lemma windows_shift: "n \<le> length xs \<Longrightarrow> windows n (x # xs) = take n (x # xs) # windows n xs"
proof -
  assume n: "n \<le> length xs"
  then have "[0..<length (x # xs) + 1 - n] = 0 # map Suc [0..<length xs + 1 - n]"
    by (simp add: upt_conv_Cons Suc_diff_le map_Suc_upt del: upt_Suc)
  then show ?thesis by (simp add: windows_def)
qed

lemma windows_short: "length xs < n \<Longrightarrow> windows n xs = []"
  by (simp add: windows_def)

text \<open>The first occurrence of a pattern, for the two searches of the parser.\<close>

definition find_sub :: "bytes \<Rightarrow> bytes \<Rightarrow> nat option" where
  "find_sub p bs = position (\<lambda>w. w = p) (windows (length p) bs)"

lemma find_crlf_sub: "find_crlf bs = find_sub [13, 10] bs"
  by (simp add: find_crlf_def find_sub_def numeral_2_eq_2)

lemma find_blank_sub: "find_blank_line bs = find_sub [13, 10, 13, 10] bs"
  by (simp add: find_blank_line_def find_sub_def numeral_eq_Suc)

lemma windows_nth: "i < length (windows n xs) \<Longrightarrow> windows n xs ! i = take n (drop i xs)"
  by (simp add: windows_def)

lemma length_windows: "length (windows n xs) = length xs + 1 - n"
  by (simp add: windows_def)

lemma prefix_iff_take: "prefix p xs \<longleftrightarrow> take (length p) xs = p"
  by (metis append_eq_conv_conj prefixE take_is_prefix)

lemma find_sub_Some:
  assumes "p \<noteq> []"
  shows "find_sub p bs = Some i \<longleftrightarrow> prefix p (drop i bs) \<and> (\<forall>j < i. \<not> prefix p (drop j bs))"
proof -
  have pre: "prefix p (drop j bs) \<longleftrightarrow> j < length (windows (length p) bs) \<and> windows (length p) bs ! j = p" for j
  proof (cases "j < length (windows (length p) bs)")
    case True
    then show ?thesis by (simp add: windows_nth prefix_iff_take)
  next
    case False
    then have "length (drop j bs) < length p" using assms by (cases p) (auto simp: length_windows)
    with False show ?thesis by (auto dest: prefix_length_le)
  qed
  show ?thesis
  proof
    assume "find_sub p bs = Some i"
    then show "prefix p (drop i bs) \<and> (\<forall>j < i. \<not> prefix p (drop j bs))"
      by (auto simp: find_sub_def position_Some pre list_all_length)
  next
    assume r: "prefix p (drop i bs) \<and> (\<forall>j < i. \<not> prefix p (drop j bs))"
    then have "i < length (windows (length p) bs) \<and> windows (length p) bs ! i = p" using pre by blast
    with r show "find_sub p bs = Some i"
      by (auto simp: find_sub_def position_Some pre list_all_length)
  qed
qed

lemma find_sub_None:
  assumes "p \<noteq> []"
  shows "find_sub p bs = None \<longleftrightarrow> (\<forall>j. \<not> prefix p (drop j bs))"
proof
  assume none: "find_sub p bs = None"
  show "\<forall>j. \<not> prefix p (drop j bs)"
  proof (rule ccontr)
    assume "\<not> (\<forall>j. \<not> prefix p (drop j bs))"
    then have "\<exists>j. prefix p (drop j bs)" by blast
    from this [unfolded exists_least_iff [of "\<lambda>j. prefix p (drop j bs)"]]
    obtain j where "prefix p (drop j bs)" "\<forall>k < j. \<not> prefix p (drop k bs)" by blast
    with none find_sub_Some [OF assms, of bs j] show False by simp
  qed
next
  assume "\<forall>j. \<not> prefix p (drop j bs)"
  then show "find_sub p bs = None" using find_sub_Some [OF assms, of bs] by (metis not_Some_eq)
qed

lemma prefix_drop_append:
  "prefix p (drop j bs) \<Longrightarrow> j \<le> length bs \<Longrightarrow> prefix p (drop j (bs @ cs))"
  by (simp add: prefix_prefix)

lemma prefix_drop_within:
  "prefix p (drop j (bs @ cs)) \<Longrightarrow> j + length p \<le> length bs \<Longrightarrow> prefix p (drop j bs)"
  by (simp add: prefix_iff_take)


lemma find_sub_length: "p \<noteq> [] \<Longrightarrow> find_sub p bs = Some i \<Longrightarrow> i + length p \<le> length bs"
  by (cases p) (auto simp: find_sub_Some dest!: prefix_length_le)

lemma find_sub_append:
  assumes "p \<noteq> []" and "find_sub p bs = Some i"
  shows "find_sub p (bs @ cs) = Some i"
proof -
  have len: "i + length p \<le> length bs" by (rule find_sub_length [OF assms])
  have "prefix p (drop i (bs @ cs))" using assms len by (intro prefix_drop_append) (simp_all add: find_sub_Some)
  moreover have "\<not> prefix p (drop j (bs @ cs))" if "j < i" for j
    using assms that len prefix_drop_within [of p j bs cs] by (auto simp del: drop_append simp: find_sub_Some)
  ultimately show ?thesis using assms(1) by (simp add: find_sub_Some)
qed

lemma find_sub_take:
  assumes "p \<noteq> []" and "find_sub p bs = Some i" and "i + length p \<le> n"
  shows "find_sub p (take n bs) = Some i"
proof -
  have "prefix p (drop i (take n bs))" using assms by (simp add: find_sub_Some prefix_iff_take drop_take min_def)
  moreover have "\<not> prefix p (drop j (take n bs))" if "j < i" for j
    using assms that by (simp add: find_sub_Some prefix_iff_take drop_take min_def)
  ultimately show ?thesis using assms(1) by (simp add: find_sub_Some)
qed

lemma find_sub_take_None:
  assumes "p \<noteq> []" and "find_sub p bs = Some i" and "n < i + length p"
  shows "find_sub p (take n bs) = None"
proof -
  have "\<not> prefix p (drop j (take n bs))" for j
  proof
    assume pre: "prefix p (drop j (take n bs))"
    then have "length p \<le> length (take n bs) - j" using prefix_length_le by fastforce
    with assms have "j < i" by (cases p) auto
    moreover have "prefix p (drop j (take n bs @ drop n bs))"
      using pre \<open>length p \<le> length (take n bs) - j\<close> assms(1) by (intro prefix_drop_append) (cases p; auto)+
    ultimately show False using assms by (simp add: find_sub_Some)
  qed
  then show ?thesis using assms(1) by (simp add: find_sub_None)
qed

lemma find_sub_drop:
  assumes "p \<noteq> []" and "find_sub p bs = Some i" and "k \<le> i"
  shows "find_sub p (drop k bs) = Some (i - k)"
  using assms by (auto simp: find_sub_Some)

lemma find_sub_Cons:
  "p \<noteq> [] \<Longrightarrow> find_sub p (x # xs) = (if prefix p (x # xs) then Some 0 else map_option Suc (find_sub p xs))"
proof -
  assume p: "p \<noteq> []"
  show ?thesis
  proof (cases "length p \<le> length xs")
    case True
    then show ?thesis by (simp add: find_sub_def windows_shift prefix_iff_take)
  next
    case False
    then have "find_sub p xs = None" by (simp add: find_sub_def windows_short)
    moreover have "find_sub p (x # xs) = (if prefix p (x # xs) then Some 0 else None)"
    proof -
      have "\<not> prefix p (drop j (x # xs))" if "0 < j" for j
        using that False p by (cases j) (auto dest!: prefix_length_le)
      then show ?thesis
        using p find_sub_Some [OF p, of "x # xs" 0] find_sub_None [OF p, of "x # xs"]
        by (metis drop0 less_nat_zero_code neq0_conv)
    qed
    ultimately show ?thesis by simp
  qed
qed

lemma find_sub_skip:
  assumes "c \<notin> set line"
  shows "find_sub (c # p) (line @ rest) = map_option ((+) (length line)) (find_sub (c # p) rest)"
  using assms
proof (induction line)
  case Nil
  then show ?case by (simp add: option.map_ident_strong)
next
  case (Cons x line)
  then show ?case by (simp add: find_sub_Cons option.map_comp comp_def)
qed

section \<open>Lines\<close>

definition text_of :: "bytes list \<Rightarrow> bytes" where
  "text_of ls = concat (map (\<lambda>l. l @ CRLF) ls)"

definition clean_line :: "bytes \<Rightarrow> bool" where
  "clean_line l \<longleftrightarrow> l \<noteq> [] \<and> 10 \<notin> set l \<and> 13 \<notin> set l"

lemma text_of_simps [simp]:
  "text_of [] = []" "text_of (l # ls) = l @ CRLF @ text_of ls"
  by (simp_all add: text_of_def)

lemma find_crlf_line: "13 \<notin> set l \<Longrightarrow> find_crlf (l @ CRLF @ rest) = Some (length l)"
  by (simp add: find_crlf_sub find_sub_skip CRLF_def find_sub_Cons)

lemma find_blank_text:
  "list_all clean_line (l # ls) \<Longrightarrow>
     find_blank_line (text_of (l # ls) @ CRLF @ rest) = Some (length (text_of (l # ls)) - 2)"
proof (induction ls arbitrary: l)
  case Nil
  then show ?case
    by (simp add: find_blank_sub clean_line_def find_sub_skip CRLF_def find_sub_Cons)
next
  case (Cons k ls)
  then obtain y ys where k: "k = y # ys" "y \<noteq> 13" by (cases k) (auto simp: clean_line_def)
  have "find_blank_line (text_of (l # k # ls) @ CRLF @ rest) =
      map_option (\<lambda>i. length l + (2 + i)) (find_blank_line (text_of (k # ls) @ CRLF @ rest))"
    using Cons.prems k by (simp add: find_blank_sub clean_line_def find_sub_skip CRLF_def find_sub_Cons option.map_comp comp_def)
  moreover have "find_blank_line (text_of (k # ls) @ CRLF @ rest) = Some (length (text_of (k # ls)) - 2)"
    by (rule Cons.IH) (use Cons.prems in simp)
  ultimately show ?case by (simp add: CRLF_def)
qed

section \<open>The grammar of a line\<close>

lemma split_byte_nonempty [simp]: "split_byte c xs \<noteq> []"
  by (cases xs) (auto split: list.splits)

lemma split_byte_single: "c \<notin> set m \<Longrightarrow> split_byte c m = [m]"
  by (induction m) auto

lemma split_byte_part: "c \<notin> set m \<Longrightarrow> split_byte c (m @ c # r) = m # split_byte c r"
  by (induction m) auto

lemma split_byte_Cons:
  "split_byte c xs = m # ws \<Longrightarrow>
     c \<notin> set m \<and> (if ws = [] then xs = m else \<exists>r. xs = m @ c # r \<and> split_byte c r = ws)"
proof (induction xs arbitrary: m ws)
  case Nil
  then show ?case by auto
next
  case (Cons x xs)
  show ?case
  proof (cases "x = c")
    case True
    with Cons.prems show ?thesis by (auto intro: exI [of _ xs])
  next
    case False
    with Cons.prems obtain w where w: "split_byte c xs = w # ws" "m = x # w"
      by (cases "split_byte c xs") auto
    from Cons.IH [OF w(1)] w(2) False show ?thesis by (auto split: if_splits)
  qed
qed

lemma split_byte_three:
  "split_byte c xs = [m, t, v] \<longleftrightarrow> xs = m @ [c] @ t @ [c] @ v \<and> c \<notin> set m \<and> c \<notin> set t \<and> c \<notin> set v"
  by (auto simp: split_byte_part split_byte_single dest!: split_byte_Cons)

definition is_request_line :: "bytes \<Rightarrow> bytes \<Rightarrow> bytes \<Rightarrow> bytes \<Rightarrow> bool" where
  "is_request_line line m t v \<longleftrightarrow>
     line = m @ [32] @ t @ [32] @ v \<and> m \<noteq> [] \<and> list_all is_token m \<and>
     t \<noteq> [] \<and> list_all is_graphic t \<and> v \<in> set [ascii ''RTSP/1.0'', ascii ''HTTP/1.0'', ascii ''HTTP/1.1'']"

lemma versions: "ascii ''RTSP/1.0'' = [82, 84, 83, 80, 47, 49, 46, 48]" "ascii ''HTTP/1.0'' = [72, 84, 84, 80, 47, 49, 46, 48]"
  "ascii ''HTTP/1.1'' = [72, 84, 84, 80, 47, 49, 46, 49]"
  by (simp_all add: ascii_def)

lemma token_byte: "is_token b \<Longrightarrow> b < 128 \<and> b \<noteq> 32 \<and> b \<noteq> 10 \<and> b \<noteq> 13 \<and> b \<noteq> 58 \<and> b \<noteq> 9"
  by (auto simp: is_token_def is_alphanumeric_def word_less_nat_alt word_le_nat_alt)

lemma graphic_byte: "is_graphic b \<longleftrightarrow> b < 128 \<and> b \<noteq> 32 \<and> \<not> is_control b"
proof -
  have "33 \<le> unat b \<and> unat b \<le> 126 \<longleftrightarrow> unat b < 128 \<and> unat b \<noteq> 32 \<and> \<not> (unat b < 32 \<or> unat b = 127)"
    by auto
  then show ?thesis
    by (simp add: is_graphic_def is_control_def word_less_nat_alt word_le_nat_alt word_unat_eq_iff)
qed

lemma parse_request_line_iff: "parse_request_line line = Inr (m, t, v) \<longleftrightarrow> is_request_line line m t v"
proof
  assume p: "parse_request_line line = Inr (m, t, v)"
  then have "split_byte 32 line = [m, t, v] \<and> list_all (\<lambda>b. b < 128) line \<and> m \<noteq> [] \<and> t \<noteq> [] \<and> list_all is_token m \<and>
      \<not> list_ex is_control t \<and> v \<in> set [ascii ''RTSP/1.0'', ascii ''HTTP/1.0'', ascii ''HTTP/1.1'']"
    by (auto simp: parse_request_line_def split: list.splits if_splits)
  then show "is_request_line line m t v"
    unfolding split_byte_three by (auto simp: is_request_line_def list_all_iff list_ex_iff graphic_byte)
next
  assume r: "is_request_line line m t v"
  then have "split_byte 32 line = [m, t, v]"
    unfolding split_byte_three by (auto simp: is_request_line_def list_all_iff graphic_byte versions dest: token_byte)
  moreover have "list_all (\<lambda>b. b < 128) line"
    using r by (auto simp: is_request_line_def list_all_iff graphic_byte versions dest: token_byte)
  ultimately show "parse_request_line line = Inr (m, t, v)"
    using r by (auto simp: is_request_line_def parse_request_line_def list_all_iff list_ex_iff graphic_byte versions)
qed

definition trimmed_value :: "bytes \<Rightarrow> bool" where
  "trimmed_value v \<longleftrightarrow> v = [] \<or> \<not> is_ows (hd v) \<and> \<not> is_ows (last v)"

lemma trim_ows_split:
  "\<exists>a b. v = a @ trim_ows v @ b \<and> list_all is_ows a \<and> list_all is_ows b \<and> trimmed_value (trim_ows v)"
proof -
  let ?d = "dropWhile is_ows v"
  let ?r = "dropWhile is_ows (rev ?d)"
  have "v = takeWhile is_ows v @ rev ?r @ rev (takeWhile is_ows (rev ?d))"
    by (simp flip: rev_append)
  moreover have "list_all is_ows (takeWhile is_ows v)" "list_all is_ows (rev (takeWhile is_ows (rev ?d)))"
    by (auto simp: list_all_iff dest: set_takeWhileD)
  moreover have "trimmed_value (rev ?r)"
  proof (cases "?r = []")
    case True
    then show ?thesis by (simp only: trimmed_value_def rev.simps simp_thms)
  next
    case False
    then have "\<not> is_ows (hd ?r)" by (rule hd_dropWhile)
    moreover have "hd (rev ?r) = hd ?d"
      using False dropWhile_eq_Cons_conv takeWhile_dropWhile_id [of is_ows "rev ?d"]
      by (metis hd_append2 rev_append rev_is_Nil_conv rev_rev_ident)
    moreover have "?d \<noteq> []" using False by (metis dropWhile.simps(1) rev.simps(1))
    ultimately show ?thesis using hd_dropWhile [of is_ows v] False
      by (simp add: trimmed_value_def last_rev)
  qed
  ultimately show ?thesis unfolding trim_ows_def by blast
qed

lemma trim_ows_all: "list_all is_ows a \<Longrightarrow> list_all is_ows b \<Longrightarrow> trimmed_value w \<Longrightarrow> trim_ows (a @ w @ b) = w"
proof -
  assume a: "list_all is_ows a" and b: "list_all is_ows b" and w: "trimmed_value w"
  then have "dropWhile is_ows (a @ w @ b) = dropWhile is_ows (w @ b)" by (auto simp: list_all_iff)
  also have "\<dots> = (if w = [] then [] else w @ b)"
    using b w by (cases w) (auto simp: list_all_iff trimmed_value_def dropWhile_eq_Nil_conv)
  finally have d: "dropWhile is_ows (a @ w @ b) = (if w = [] then [] else w @ b)" .
  have "dropWhile is_ows (rev b @ rev w) = dropWhile is_ows (rev w)"
    by (rule dropWhile_append2) (use b in \<open>simp add: list_all_iff\<close>)
  also have "dropWhile is_ows (rev w) = rev w"
    using w by (cases w rule: rev_cases) (auto simp: trimmed_value_def)
  finally have e: "dropWhile is_ows (rev b @ rev w) = rev w" .
  then show ?thesis unfolding trim_ows_def d by (simp add: e)
qed

definition is_content_length :: "bytes \<Rightarrow> bool" where
  "is_content_length n \<longleftrightarrow> eq_ignore_case n (ascii ''content-length'')"

text \<open>What a header line may look like, and the number that a Content-Length declares.\<close>

definition is_header_line :: "bytes \<Rightarrow> header \<Rightarrow> bool" where
  "is_header_line line h \<longleftrightarrow>
     (\<exists>a b. line = hd_name h @ [58] @ a @ hd_value h @ b \<and> list_all is_ows a \<and> list_all is_ows b) \<and>
     valid_header_name (hd_name h) \<and> valid_header_value (hd_value h) \<and> trimmed_value (hd_value h) \<and>
     \<not> eq_ignore_case (hd_name h) (ascii ''transfer-encoding'')"

definition declared_length :: "header \<Rightarrow> nat option" where
  "declared_length h = (if is_content_length (hd_name h) then Some (decimal (hd_value h)) else None)"

definition length_ok :: "header \<Rightarrow> bool" where
  "length_ok h \<longleftrightarrow> (is_content_length (hd_name h) \<longrightarrow>
     hd_value h \<noteq> [] \<and> list_all (\<lambda>b. 48 \<le> b \<and> b \<le> 57) (hd_value h) \<and> decimal (hd_value h) \<le> u64_max)"

lemma parse_header_line_iff:
  "parse_header_line line = Inr (h, k) \<longleftrightarrow> is_header_line line h \<and> length_ok h \<and> k = declared_length h"
proof
  assume p: "parse_header_line line = Inr (h, k)"
  then obtain colon where c: "position (\<lambda>b. b = 58) line = Some colon"
    by (auto simp: parse_header_line_def split: if_splits option.splits)
  let ?n = "take colon line" and ?v = "trim_ows (drop (colon + 1) line)"
  have line: "line = ?n @ [58] @ drop (colon + 1) line"
    using c by (metis (mono_tags, lifting) Suc_eq_plus1 append_Cons append_Nil append_take_drop_id Cons_nth_drop_Suc position_Some)
  have h: "h = \<lparr>hd_name = ?n, hd_value = ?v\<rparr>" and val: "valid_header_name ?n" "valid_header_value ?v"
      "\<not> eq_ignore_case ?n (ascii ''transfer-encoding'')"
    using p c by (auto simp: parse_header_line_def Let_def split: if_splits sum.splits)
  obtain a b where ab: "drop (colon + 1) line = a @ ?v @ b" "list_all is_ows a" "list_all is_ows b" "trimmed_value ?v"
    using trim_ows_split by blast
  have "is_header_line line h" using line ab val unfolding is_header_line_def h by (metis header.select_convs)
  moreover have "length_ok h \<and> k = declared_length h"
    using p c unfolding h
    by (auto simp: parse_header_line_def Let_def length_ok_def declared_length_def is_content_length_def
        parse_content_length_def split: if_splits sum.splits)
  ultimately show "is_header_line line h \<and> length_ok h \<and> k = declared_length h" by simp
next
  assume r: "is_header_line line h \<and> length_ok h \<and> k = declared_length h"
  then obtain a b where line: "line = hd_name h @ [58] @ a @ hd_value h @ b" and ab: "list_all is_ows a" "list_all is_ows b"
    by (auto simp: is_header_line_def)
  have n: "valid_header_name (hd_name h)" and v: "trim_ows (a @ hd_value h @ b) = hd_value h"
    using r ab trim_ows_all by (auto simp: is_header_line_def)
  have "list_all (\<lambda>b. b \<noteq> 58) (hd_name h)"
    using n by (auto simp: valid_header_name_def list_all_iff dest: token_byte)
  then have "position (\<lambda>b. b = 58) line = Some (length (hd_name h))" unfolding line by (subst position_append) simp_all
  moreover have "\<not> is_ows (hd line)"
    using n unfolding line by (cases "hd_name h") (auto simp: valid_header_name_def is_ows_def dest: token_byte)
  ultimately show "parse_header_line line = Inr (h, k)"
    using r v unfolding parse_header_line_def
    by (auto simp: line is_header_line_def length_ok_def declared_length_def is_content_length_def parse_content_length_def Let_def)
qed

section \<open>The grammar of a request\<close>

lemma header_line_clean: "is_header_line line h \<Longrightarrow> clean_line line"
proof -
  assume r: "is_header_line line h"
  then obtain a b where line: "line = hd_name h @ [58] @ a @ hd_value h @ b" and ab: "list_all is_ows a" "list_all is_ows b"
    by (auto simp: is_header_line_def)
  have "10 \<notin> set (hd_name h) \<and> 13 \<notin> set (hd_name h)"
    using r by (auto simp: is_header_line_def valid_header_name_def list_all_iff dest: token_byte)
  moreover have "10 \<notin> set (hd_value h) \<and> 13 \<notin> set (hd_value h)"
    using r by (auto simp: is_header_line_def valid_header_value_def list_all_iff)
  moreover have "10 \<notin> set (a @ b) \<and> 13 \<notin> set (a @ b)" using ab by (auto simp: list_all_iff is_ows_def)
  ultimately show ?thesis by (simp add: line clean_line_def)
qed

lemma request_line_clean: "is_request_line line m t v \<Longrightarrow> clean_line line"
  by (auto simp: is_request_line_def clean_line_def list_all_iff graphic_byte is_control_def versions dest: token_byte)

definition opt_list :: "'a option \<Rightarrow> 'a list" where
  "opt_list x = (case x of None \<Rightarrow> [] | Some a \<Rightarrow> [a])"

lemma opt_list_simps [simp]: "opt_list None = []" "opt_list (Some a) = [a]"
  by (simp_all add: opt_list_def)

text \<open>A block of header lines with their headers, declaring at most one length together with \<open>cl\<close>.\<close>

definition header_block :: "bytes list \<Rightarrow> header list \<Rightarrow> nat option \<Rightarrow> nat option \<Rightarrow> bool" where
  "header_block ls hs cl cl' \<longleftrightarrow>
     list_all2 (\<lambda>l h. is_header_line l h \<and> length_ok h) ls hs \<and>
     opt_list cl @ List.map_filter declared_length hs = opt_list cl'"

lemma header_block_Nil [simp]: "header_block [] hs cl cl' \<longleftrightarrow> hs = [] \<and> cl = cl'"
  by (auto simp: header_block_def List.map_filter_simps opt_list_def split: option.splits)

lemma header_block_Cons:
  "header_block (l # ls) hs cl cl' \<longleftrightarrow>
     (\<exists>h hs'. hs = h # hs' \<and> is_header_line l h \<and> length_ok h \<and>
        (case declared_length h of None \<Rightarrow> header_block ls hs' cl cl'
         | Some k \<Rightarrow> cl = None \<and> header_block ls hs' (Some k) cl'))"
  by (cases hs; cases cl; cases cl')
    (auto simp: header_block_def List.map_filter_simps split: option.splits)

lemma parse_lines_block:
  "header_block ls hs' cl cl' \<Longrightarrow> length hs + length ls \<le> max_header_count lim \<Longrightarrow>
     parse_lines lim (text_of ls @ CRLF) hs cl = Inr (hs @ hs', cl')"
proof (induction ls arbitrary: hs hs' cl)
  case Nil
  then show ?case by (simp add: parse_lines.simps CRLF_def)
next
  case (Cons l ls)
  from Cons.prems(1) obtain h hs1 where h: "hs' = h # hs1" "is_header_line l h" "length_ok h"
    and rest: "case declared_length h of None \<Rightarrow> header_block ls hs1 cl cl'
         | Some k \<Rightarrow> cl = None \<and> header_block ls hs1 (Some k) cl'"
    by (auto simp: header_block_Cons)
  have l: "l \<noteq> []" "find_crlf (l @ CRLF @ text_of ls @ CRLF) = Some (length l)"
    using header_line_clean [OF h(2)] by (auto simp: clean_line_def find_crlf_line)
  have p: "parse_header_line l = Inr (h, declared_length h)" using h by (simp add: parse_header_line_iff)
  have d: "drop (length l + 2) (l @ CRLF @ text_of ls @ CRLF) = text_of ls @ CRLF" by (simp add: CRLF_def)
  have "parse_lines lim (l @ CRLF @ text_of ls @ CRLF) hs cl =
      (case declared_length h of
         None \<Rightarrow> parse_lines lim (text_of ls @ CRLF) (hs @ [h]) cl
       | Some k \<Rightarrow> (case cl of
           Some p \<Rightarrow> Inl (if p = k then DuplicateContentLength else ConflictingContentLength)
         | None \<Rightarrow> parse_lines lim (text_of ls @ CRLF) (hs @ [h]) (Some k)))"
    using l p Cons.prems(2) by (subst parse_lines.simps) (simp add: d CRLF_def split: option.splits)
  also have "\<dots> = Inr (hs @ hs', cl')"
    using rest Cons.prems(2) Cons.IH h(1) by (auto split: option.splits)
  finally show ?case by simp
qed

lemma find_sub_split:
  "p \<noteq> [] \<Longrightarrow> find_sub p bs = Some i \<Longrightarrow> bs = take i bs @ p @ drop (i + length p) bs"
  using find_sub_Some [of p bs i] prefix_iff_take [of p "drop i bs"]
  by (metis add.commute append_take_drop_id drop_drop)

text \<open>What follows a line end when the first blank line is at the very end.\<close>

lemma after_line_end:
  assumes blank: "find_blank_line (CRLF @ rest) = Some (length rest - 2)" and len: "2 \<le> length rest" and more: "rest \<noteq> CRLF"
  shows "4 \<le> length rest" and "drop (length rest - 4) rest = CRLF @ CRLF" and "\<not> prefix CRLF rest"
proof -
  let ?i = "length rest - 2"
  have min: "\<forall>j < ?i. \<not> prefix [13, 10, 13, 10] (drop j (CRLF @ rest))"
    using blank by (simp add: find_blank_sub find_sub_Some)
  have "CRLF @ rest = take ?i (CRLF @ rest) @ [13, 10, 13, 10] @ drop (?i + length [13, 10, 13, 10 :: u8]) (CRLF @ rest)"
    by (rule find_sub_split [OF _ blank [unfolded find_blank_sub]]) simp
  moreover have "drop (?i + length [13, 10, 13, 10 :: u8]) (CRLF @ rest) = []" using len by (simp add: CRLF_def)
  ultimately have e: "CRLF @ rest = take ?i (CRLF @ rest) @ CRLF @ CRLF" by (metis CRLF_def append_Cons append_Nil append_Nil2)
  show not: "\<not> prefix CRLF rest"
  proof
    assume pre: "prefix CRLF rest"
    then have "prefix [13, 10, 13, 10] (drop 0 (CRLF @ rest))" by (auto simp: CRLF_def prefix_def)
    with min have "length rest = 2" using len by (metis gr0I le_antisym diff_is_0_eq)
    with pre more show False by (auto simp: CRLF_def prefix_def)
  qed
  have "length rest \<noteq> 2 \<and> length rest \<noteq> 3"
  proof (intro conjI notI)
    assume "length rest = 2"
    with e have "CRLF @ rest = CRLF @ CRLF" by simp
    with more show False by simp
  next
    assume "length rest = 3"
    with e have "CRLF @ rest = 13 # CRLF @ CRLF" by (simp add: CRLF_def)
    then show False by (simp add: CRLF_def)
  qed
  with len show four: "4 \<le> length rest" by simp
  then have "take ?i (CRLF @ rest) = CRLF @ take (length rest - 4) rest" by (simp add: CRLF_def take_Cons')
  with e have "CRLF @ rest = CRLF @ take (length rest - 4) rest @ CRLF @ CRLF" by (metis append.assoc)
  then have "rest = take (length rest - 4) rest @ CRLF @ CRLF" by (simp only: same_append_eq)
  then show "drop (length rest - 4) rest = CRLF @ CRLF" by (metis append_eq_conv_conj append_take_drop_id same_append_eq)
qed

lemma parse_lines_sound:
  assumes "parse_lines lim rest hs cl = Inr (hs2, cl')" and "find_blank_line (CRLF @ rest) = Some (length rest - 2)"
    and "2 \<le> length rest" and "length hs \<le> max_header_count lim"
  shows "\<exists>ls hs'. rest = text_of ls @ CRLF \<and> hs2 = hs @ hs' \<and> header_block ls hs' cl cl' \<and>
    length hs2 \<le> max_header_count lim"
  using assms
proof (induction "length rest" arbitrary: rest hs cl rule: less_induct)
  case less
  show ?case
  proof (cases "rest = CRLF")
    case True
    with less.prems(1,4) show ?thesis by (intro exI [of _ "[]"]) (simp add: parse_lines.simps CRLF_def)
  next
    case False
    note after = after_line_end [OF less.prems(2,3) False]
    from less.prems(1) after(1) obtain e where e: "find_crlf rest = Some e"
      by (subst (asm) parse_lines.simps) (auto split: option.splits)
    have "e \<noteq> 0" using e after(3) by (cases e) (simp_all add: find_crlf_sub find_sub_Some CRLF_def)
    with less.prems(1) after(1) e have count: "length hs \<noteq> max_header_count lim"
      by (subst (asm) parse_lines.simps) (auto split: if_splits)
    from less.prems(1) after(1) e \<open>e \<noteq> 0\<close> count obtain h k where hk: "parse_header_line (take e rest) = Inr (h, k)"
      by (subst (asm) parse_lines.simps) (auto split: sum.splits)
    let ?rest = "drop (e + 2) rest"
    have next_eq: "parse_lines lim rest hs cl =
        (case k of None \<Rightarrow> parse_lines lim ?rest (hs @ [h]) cl
         | Some k \<Rightarrow> (case cl of
             Some p \<Rightarrow> Inl (if p = k then DuplicateContentLength else ConflictingContentLength)
           | None \<Rightarrow> parse_lines lim ?rest (hs @ [h]) (Some k)))"
      using after(1) e hk \<open>e \<noteq> 0\<close> count by (subst parse_lines.simps) (simp split: option.splits)
    have line: "is_header_line (take e rest) h" "length_ok h" "k = declared_length h"
      using hk by (simp_all add: parse_header_line_iff)
    have split: "rest = take e rest @ CRLF @ ?rest"
      using find_sub_split [OF _ e [unfolded find_crlf_sub]] by (simp add: CRLF_def)
    have "prefix [13, 10] (drop (length rest - 4) rest)" using after(2) by (simp add: CRLF_def)
    with e have le: "e \<le> length rest - 4" by (auto simp: find_crlf_sub find_sub_Some not_le [symmetric])
    have "CRLF @ ?rest = drop (e + 2) (CRLF @ rest)" using split le after(1) by (simp add: CRLF_def) (metis append_eq_conv_conj CRLF_def append_Cons append_Nil length_take min.absorb2 le_trans diff_le_self)
    then have blank: "find_blank_line (CRLF @ ?rest) = Some (length ?rest - 2)"
      using find_sub_drop [OF _ less.prems(2) [unfolded find_blank_sub], of "e + 2"] le after(1)
      by (simp add: find_blank_sub)
    have IH: "\<exists>ls hs'. ?rest = text_of ls @ CRLF \<and> hs2 = (hs @ [h]) @ hs' \<and> header_block ls hs' c cl' \<and>
        length hs2 \<le> max_header_count lim" if "parse_lines lim ?rest (hs @ [h]) c = Inr (hs2, cl')" for c
      by (rule less.hyps [OF _ that blank]) (use le after(1) less.prems(4) count in auto)
    have "\<exists>c. parse_lines lim ?rest (hs @ [h]) c = Inr (hs2, cl') \<and>
        (case declared_length h of None \<Rightarrow> c = cl | Some k \<Rightarrow> cl = None \<and> c = Some k)"
      using next_eq less.prems(1) line(3) by (auto split: option.splits)
    then obtain c where c: "parse_lines lim ?rest (hs @ [h]) c = Inr (hs2, cl')"
        "case declared_length h of None \<Rightarrow> c = cl | Some k \<Rightarrow> cl = None \<and> c = Some k" by blast
    from IH [OF c(1)] obtain ls hs' where ls: "?rest = text_of ls @ CRLF" "hs2 = (hs @ [h]) @ hs'"
        "header_block ls hs' c cl'" "length hs2 \<le> max_header_count lim" by blast
    have "header_block (take e rest # ls) (h # hs') cl cl'"
      using line c(2) ls(3) by (auto simp: header_block_Cons split: option.splits)
    moreover have "rest = text_of (take e rest # ls) @ CRLF" using split ls(1) by simp
    ultimately show ?thesis using ls by (metis append.assoc append_Cons append_Nil)
  qed
qed

text \<open>The texts of a request under given limits, in the form every parser of this theory accepts.\<close>

definition request_wire :: "request_limits \<Rightarrow> body_policy \<Rightarrow> request \<Rightarrow> bytes \<Rightarrow> bool" where
  "request_wire lim f r w \<longleftrightarrow>
     (\<exists>line ls cl.
        w = text_of (line # ls) @ CRLF @ rq_body r \<and>
        is_request_line line (rq_method r) (rq_target r) (rq_version r) \<and>
        header_block ls (rq_headers r) None cl \<and>
        length (rq_body r) = (case cl of None \<Rightarrow> 0 | Some k \<Rightarrow> k) \<and>
        length line \<le> max_request_line_bytes lim \<and> length ls \<le> max_header_count lim \<and>
        length (text_of (line # ls) @ CRLF) \<le> max_header_bytes lim \<and>
        length (rq_body r) \<le> body_cap f lim (rq_method r) (rq_target r) (rq_headers r))"

lemma header_block_clean: "header_block ls hs cl cl' \<Longrightarrow> list_all clean_line ls"
  by (auto simp: header_block_def list_all_length list_all2_conv_all_nth dest: header_line_clean)

lemma parse_head_block:
  assumes "is_request_line line m t v" and "header_block ls hs None cl"
    and "length line \<le> max_request_line_bytes lim" and "length ls \<le> max_header_count lim"
  shows "parse_head (text_of (line # ls) @ CRLF) lim = Inr (m, t, v, hs, case cl of None \<Rightarrow> 0 | Some k \<Rightarrow> k)"
proof -
  have "find_crlf (line @ CRLF @ text_of ls @ CRLF) = Some (length line)"
    using request_line_clean [OF assms(1)] by (simp add: clean_line_def find_crlf_line)
  moreover have "parse_lines lim (text_of ls @ CRLF) [] None = Inr ([] @ hs, cl)"
    by (rule parse_lines_block [OF assms(2)]) (use assms(4) in simp)
  moreover have "drop (length line + 2) (line @ CRLF @ text_of ls @ CRLF) = text_of ls @ CRLF" by (simp add: CRLF_def)
  moreover have "parse_request_line line = Inr (m, t, v)" using assms(1) by (simp add: parse_request_line_iff)
  ultimately show ?thesis using assms(3) by (simp add: parse_head_def)
qed

lemma parse_head_sound:
  assumes p: "parse_head head lim = Inr (m, t, v, hs, n)" and blank: "find_blank_line head = Some (length head - 4)"
  shows "\<exists>line ls cl. head = text_of (line # ls) @ CRLF \<and> is_request_line line m t v \<and> header_block ls hs None cl \<and>
    n = (case cl of None \<Rightarrow> 0 | Some k \<Rightarrow> k) \<and> length line \<le> max_request_line_bytes lim \<and> length ls \<le> max_header_count lim"
proof -
  from p obtain e cl where e: "find_crlf head = Some e" "e \<le> max_request_line_bytes lim"
      "parse_request_line (take e head) = Inr (m, t, v)" "parse_lines lim (drop (e + 2) head) [] None = Inr (hs, cl)"
      "n = (case cl of None \<Rightarrow> 0 | Some k \<Rightarrow> k)"
    by (auto simp: parse_head_def not_less split: option.splits if_splits sum.splits)
  have four: "4 \<le> length head" using find_sub_length [OF _ blank [unfolded find_blank_sub]] by simp
  have "prefix [13, 10] (drop (length head - 4) head)"
    using blank by (auto simp: find_blank_sub find_sub_Some prefix_def)
  with e have le: "e \<le> length head - 4" by (auto simp: find_crlf_sub find_sub_Some not_le [symmetric])
  have split: "head = take e head @ CRLF @ drop (e + 2) head"
    using find_sub_split [OF _ e(1) [unfolded find_crlf_sub]] by (simp add: CRLF_def)
  have "CRLF @ drop (e + 2) head = drop e head" using split by (metis append_take_drop_id same_append_eq)
  then have "find_blank_line (CRLF @ drop (e + 2) head) = Some (length (drop (e + 2) head) - 2)"
    using find_sub_drop [OF _ blank [unfolded find_blank_sub] le] four by (simp add: find_blank_sub)
  moreover have "2 \<le> length (drop (e + 2) head)" using le four by simp
  ultimately obtain ls hs' where ls: "drop (e + 2) head = text_of ls @ CRLF" "hs = [] @ hs'" "header_block ls hs' None cl"
      "length hs \<le> max_header_count lim"
    using parse_lines_sound [OF e(4)] by auto
  moreover have "length ls = length hs" using ls by (auto simp: header_block_def dest: list_all2_lengthD)
  ultimately show ?thesis
    using split e by (intro exI [of _ "take e head"] exI [of _ ls] exI [of _ cl])
      (auto simp: parse_request_line_iff split: option.splits)
qed

text \<open>The decoder accepts exactly these texts, each with whatever follows it.\<close>

lemma request_accepted_iff:
  assumes "length bs \<le> u64_max"
  shows "parse_buffered_request bs lim f = Inr (Some (r, n)) \<longleftrightarrow>
    (\<exists>w rest. bs = w @ rest \<and> n = length w \<and> request_wire lim f r w)"
proof
  assume p: "parse_buffered_request bs lim f = Inr (Some (r, n))"
  then obtain i where i: "find_blank_line bs = Some i" by (auto simp: parse_buffered_request_def split: option.splits if_splits)
  let ?head = "take (i + 4) bs"
  have len: "i + 4 \<le> length bs" using find_sub_length [OF _ i [unfolded find_blank_sub]] by simp
  from p i obtain m t v hs k where h: "parse_head ?head lim = Inr (m, t, v, hs, k)"
      "i + 4 \<le> max_header_bytes lim" "k \<le> body_cap f lim m t hs" "i + 4 + k \<le> length bs" "n = i + 4 + k"
      "r = \<lparr>rq_method = m, rq_target = t, rq_version = v, rq_headers = hs, rq_body = byte_slice (i + 4) (i + 4 + k) bs\<rparr>"
    by (auto simp: parse_buffered_request_def Let_def not_less split: sum.splits if_splits option.splits)
  have "find_blank_line ?head = Some (length ?head - 4)"
    using find_sub_take [OF _ i [unfolded find_blank_sub], of "i + 4"] len by (simp add: find_blank_sub)
  from parse_head_sound [OF h(1) this] obtain line ls cl where g:
      "?head = text_of (line # ls) @ CRLF" "is_request_line line m t v" "header_block ls hs None cl"
      "k = (case cl of None \<Rightarrow> 0 | Some k \<Rightarrow> k)" "length line \<le> max_request_line_bytes lim" "length ls \<le> max_header_count lim"
    by blast
  have body: "length (rq_body r) = k" using h by simp
  have "request_wire lim f r (?head @ rq_body r)"
    unfolding request_wire_def
    by (rule exI [of _ line], rule exI [of _ ls], rule exI [of _ cl])
      (use g h body len in \<open>simp add: g(1) [symmetric] del: text_of_simps\<close>)
  moreover have "bs = (?head @ rq_body r) @ drop n bs"
    using h len by (simp add: byte_slice_def) (metis add.commute append_take_drop_id drop_drop)
  ultimately show "\<exists>w rest. bs = w @ rest \<and> n = length w \<and> request_wire lim f r w"
    using h(5) body len by (intro exI [of _ "?head @ rq_body r"] exI [of _ "drop n bs"]) simp
next
  assume "\<exists>w rest. bs = w @ rest \<and> n = length w \<and> request_wire lim f r w"
  then obtain w rest line ls cl where bs: "bs = w @ rest" "n = length w" and w: "w = text_of (line # ls) @ CRLF @ rq_body r"
    and g: "is_request_line line (rq_method r) (rq_target r) (rq_version r)" "header_block ls (rq_headers r) None cl"
      "length (rq_body r) = (case cl of None \<Rightarrow> 0 | Some k \<Rightarrow> k)"
      "length line \<le> max_request_line_bytes lim" "length ls \<le> max_header_count lim"
      "length (text_of (line # ls) @ CRLF) \<le> max_header_bytes lim"
      "length (rq_body r) \<le> body_cap f lim (rq_method r) (rq_target r) (rq_headers r)"
    unfolding request_wire_def by blast
  let ?head = "text_of (line # ls) @ CRLF"
  have "list_all clean_line (line # ls)" using request_line_clean [OF g(1)] header_block_clean [OF g(2)] by simp
  then have "find_blank_line bs = Some (length (text_of (line # ls)) - 2)"
    unfolding bs w using find_blank_text [of line ls "rq_body r @ rest"] by (simp del: text_of_simps)
  moreover have "length (text_of (line # ls)) - 2 + 4 = length ?head" by (simp add: CRLF_def)
  moreover have "take (length ?head) bs = ?head" unfolding bs w by simp
  moreover have "byte_slice (length ?head) (length ?head + length (rq_body r)) bs = rq_body r"
    unfolding bs w by (simp add: byte_slice_def)
  moreover have "length ?head + length (rq_body r) = n" unfolding bs w by simp
  moreover have "n \<le> length bs" unfolding bs by simp
  ultimately show "parse_buffered_request bs lim f = Inr (Some (r, n))"
    using parse_head_block [OF g(1,2,4,5)] g(3,6,7) assms
    unfolding parse_buffered_request_def by (simp add: Let_def checked_add64_def del: text_of_simps)
qed

section \<open>Line feeds\<close>

fun lf_ok :: "bool \<Rightarrow> bytes \<Rightarrow> bool" where
  "lf_ok cr [] = True"
| "lf_ok cr (b # bs) \<longleftrightarrow> (b = 10 \<longrightarrow> cr) \<and> lf_ok (b = 13) bs"

lemma lf_ok_nth: "lf_ok cr bs \<longleftrightarrow> (\<forall>i < length bs. bs ! i = 10 \<longrightarrow> (if i = 0 then cr else bs ! (i - 1) = 13))"
proof (induction bs arbitrary: cr)
  case (Cons b bs)
  have "(b # bs) ! i = 13 \<longleftrightarrow> (if i = 0 then b = 13 else bs ! (i - 1) = 13)" for i by (cases i) simp_all
  then have "(\<forall>i < length (b # bs). (b # bs) ! i = 10 \<longrightarrow> (if i = 0 then cr else (b # bs) ! (i - 1) = 13)) \<longleftrightarrow>
      (b = 10 \<longrightarrow> cr) \<and> (\<forall>i < length bs. bs ! i = 10 \<longrightarrow> (if i = 0 then b = 13 else bs ! (i - 1) = 13))"
    unfolding length_Cons All_less_Suc2 by simp
  then show ?case by (simp only: lf_ok.simps Cons.IH)
qed simp

lemma bare_lf_iff: "bare_lf bs \<longleftrightarrow> \<not> lf_ok False bs"
proof -
  have "bare_lf bs \<longleftrightarrow> (\<exists>i < length bs. bs ! i = 10 \<and> (i = 0 \<or> bs ! (i - 1) \<noteq> 13))"
    by (simp only: bare_lf_def list_ex_iff set_upt Bex_def atLeastLessThan_iff le0 simp_thms)
  also have "\<dots> \<longleftrightarrow> \<not> lf_ok False bs" unfolding lf_ok_nth by metis
  finally show ?thesis .
qed

lemma lf_ok_append: "lf_ok cr (xs @ ys) \<longleftrightarrow> lf_ok cr xs \<and> lf_ok (if xs = [] then cr else last xs = 13) ys"
  by (induction xs arbitrary: cr) auto

lemma lf_ok_take: "lf_ok cr bs \<Longrightarrow> lf_ok cr (take n bs)"
  by (metis append_take_drop_id lf_ok_append)

lemma lf_ok_free: "10 \<notin> set bs \<Longrightarrow> lf_ok cr bs"
  by (induction bs arbitrary: cr) auto

lemma lf_ok_text: "list_all clean_line ls \<Longrightarrow> lf_ok False (text_of ls @ CRLF)"
proof (induction ls)
  case (Cons l ls)
  then have "lf_ok c l" for c by (simp add: clean_line_def lf_ok_free)
  with Cons show ?case by (auto simp: lf_ok_append CRLF_def)
qed (simp add: CRLF_def)

section \<open>Reading byte by byte\<close>

lemma find_sub_snoc:
  "p \<noteq> [] \<Longrightarrow> find_sub p a = None \<Longrightarrow> find_sub p (a @ [x]) = Some i \<Longrightarrow> i + length p = length a + 1"
proof -
  assume p: "p \<noteq> []" and none: "find_sub p a = None" and i: "find_sub p (a @ [x]) = Some i"
  have "i + length p \<le> length a + 1" using find_sub_length [OF p i] by simp
  moreover have "\<not> i + length p \<le> length a"
  proof
    assume "i + length p \<le> length a"
    with find_sub_take [OF p i, of "length a"] none show False by simp
  qed
  ultimately show ?thesis by simp
qed

lemma find_blank_end:
  "find_blank_line a = None \<Longrightarrow> find_blank_line (a @ [x]) =
     (if suffix [13, 10, 13, 10] (a @ [x]) then Some (length (a @ [x]) - 4) else None)"
proof -
  assume none: "find_blank_line a = None"
  show ?thesis
  proof (cases "find_blank_line (a @ [x])")
    case (Some i)
    then have "i + length [13, 10, 13, 10 :: u8] = length a + 1"
      by (intro find_sub_snoc [OF _ none [unfolded find_blank_sub]]) (simp_all add: find_blank_sub)
    then have "i + 4 = length a + 1" by simp
    moreover from this have "suffix [13, 10, 13, 10] (a @ [x])"
      using find_sub_split [OF _ Some [unfolded find_blank_sub]] by (simp add: suffix_def) (metis add.commute)
    ultimately show ?thesis using Some by simp
  next
    case None
    have "\<not> suffix [13, 10, 13, 10] (a @ [x])"
    proof
      assume "suffix [13, 10, 13, 10] (a @ [x])"
      then obtain ys where "a @ [x] = ys @ [13, 10, 13, 10]" by (auto simp: suffix_def)
      then have "prefix [13, 10, 13, 10] (drop (length ys) (a @ [x]))" by simp
      moreover have "\<forall>j. \<not> prefix [13, 10, 13, 10] (drop j (a @ [x]))"
        using None by (simp add: find_blank_sub find_sub_None del: drop_append)
      ultimately show False by blast
    qed
    with None show ?thesis by simp
  qed
qed

definition line_fits :: "request_limits \<Rightarrow> bytes \<Rightarrow> bool" where
  "line_fits lim a \<longleftrightarrow>
     (case find_crlf a of None \<Rightarrow> length a \<le> max_request_line_bytes lim | Some p \<Rightarrow> p < max_request_line_bytes lim)"

lemma line_fits_snoc:
  assumes "line_fits lim a"
  shows "line_fits lim (a @ [x]) \<longleftrightarrow> \<not> (find_crlf (a @ [x]) = None \<and> max_request_line_bytes lim < length (a @ [x]))"
proof (cases "find_crlf a")
  case None
  then have "p + 2 = length a + 1" if "find_crlf (a @ [x]) = Some p" for p
    using find_sub_snoc [of "[13, 10]" a x p] that by (simp add: find_crlf_sub)
  with assms None show ?thesis by (force simp: line_fits_def split: option.splits)
next
  case (Some p)
  then have "find_crlf (a @ [x]) = Some p" by (simp add: find_crlf_sub find_sub_append)
  with assms Some show ?thesis by (simp add: line_fits_def)
qed

lemma read_head_sound:
  assumes "read_head lim a bs fin = Inr (Some (h, rest))" and "find_blank_line a = None" and "line_fits lim a"
  shows "a @ bs = h @ rest \<and> find_blank_line h = Some (length h - 4) \<and> length h \<le> max_header_bytes lim \<and> line_fits lim h"
  using assms
proof (induction bs arbitrary: a)
  case Nil
  then show ?case by (auto split: reader_end.splits if_splits)
next
  case (Cons x bs)
  have fits: "line_fits lim (a @ [x])" and size: "length (a @ [x]) \<le> max_header_bytes lim"
    using Cons.prems(1) by (auto simp: line_fits_snoc [OF Cons.prems(3)] Let_def not_less split: if_splits)
  show ?case
  proof (cases "suffix [13, 10, 13, 10] (a @ [x])")
    case True
    with Cons.prems have "h = a @ [x]" "rest = bs" by (auto simp: Let_def split: if_splits)
    with True fits size show ?thesis using find_blank_end [OF Cons.prems(2), of x] by simp
  next
    case False
    with Cons.prems(1) have "read_head lim (a @ [x]) bs fin = Inr (Some (h, rest))" by (auto simp: Let_def split: if_splits)
    from Cons.IH [OF this _ fits] show ?thesis using False find_blank_end [OF Cons.prems(2), of x] by simp
  qed
qed

lemma read_head_complete:
  assumes "find_blank_line (a @ b) = Some (length (a @ b) - 4)" and "lf_ok False (a @ b)"
    and "length (a @ b) \<le> max_header_bytes lim" and "find_crlf (a @ b) = Some p" and "p < max_request_line_bytes lim"
    and "b \<noteq> []"
  shows "read_head lim a (b @ rest) fin = Inr (Some (a @ b, rest))"
  using assms
proof (induction b arbitrary: a)
  case Nil
  then show ?case by simp
next
  case (Cons x b)
  let ?a = "a @ [x]"
  have whole: "a @ x # b = ?a @ b" by simp
  have fits: "\<not> (find_crlf ?a = None \<and> max_request_line_bytes lim < length ?a)"
  proof
    assume c: "find_crlf ?a = None \<and> max_request_line_bytes lim < length ?a"
    then have "p + 2 \<le> length ?a" using Cons.prems(5) by simp
    with find_sub_take [OF _ Cons.prems(4) [unfolded find_crlf_sub], of "length ?a"] c show False
      by (simp add: find_crlf_sub)
  qed
  have size: "length ?a \<le> max_header_bytes lim" using Cons.prems(3) by simp
  have lf: "\<not> (x = 10 \<and> (length ?a < 2 \<or> ?a ! (length ?a - 2) \<noteq> 13))"
  proof -
    have "lf_ok (if a = [] then False else last a = 13) (x # b)" using Cons.prems(2) by (simp only: lf_ok_append)
    then show ?thesis by (cases a rule: rev_cases) (auto simp: nth_append)
  qed
  have four: "4 \<le> length (a @ x # b)" using find_sub_length [OF _ Cons.prems(1) [unfolded find_blank_sub]] by simp
  show ?case
  proof (cases "b = []")
    case True
    then have "suffix [13, 10, 13, 10] ?a"
      using find_sub_split [OF _ Cons.prems(1) [unfolded find_blank_sub]] four by (simp add: suffix_def) metis
    with True fits size show ?thesis by (simp add: Let_def not_less)
  next
    case False
    have none: "find_blank_line ?a = None"
      using find_sub_take_None [OF _ Cons.prems(1) [unfolded find_blank_sub], of "length ?a"] False four
      by (cases b) (simp_all add: find_blank_sub)
    have "find_blank_line a = None"
    proof (rule ccontr)
      assume "find_blank_line a \<noteq> None"
      then obtain i where "find_blank_line a = Some i" by blast
      with none show False by (simp add: find_blank_sub find_sub_append)
    qed
    with none have "\<not> suffix [13, 10, 13, 10] ?a" using find_blank_end [of a x] by (auto split: if_splits)
    with fits size lf Cons.IH [of ?a] Cons.prems False show ?thesis by (auto simp: Let_def not_less)
  qed
qed

lemma request_wire_head:
  assumes "request_wire lim f r w"
  obtains h line ls where "w = h @ rq_body r" and "h = text_of (line # ls) @ CRLF" and "list_all clean_line (line # ls)"
    and "parse_head h lim = Inr (rq_method r, rq_target r, rq_version r, rq_headers r, length (rq_body r))"
    and "find_blank_line h = Some (length h - 4)" and "find_crlf h = Some (length line)" and "find_crlf w = Some (length line)"
    and "lf_ok False h" and "length h \<le> max_header_bytes lim" and "length line \<le> max_request_line_bytes lim"
    and "length (rq_body r) \<le> body_cap f lim (rq_method r) (rq_target r) (rq_headers r)"
proof -
  from assms obtain line ls cl where w: "w = text_of (line # ls) @ CRLF @ rq_body r"
    and g: "is_request_line line (rq_method r) (rq_target r) (rq_version r)" "header_block ls (rq_headers r) None cl"
      "length (rq_body r) = (case cl of None \<Rightarrow> 0 | Some k \<Rightarrow> k)"
      "length line \<le> max_request_line_bytes lim" "length ls \<le> max_header_count lim"
      "length (text_of (line # ls) @ CRLF) \<le> max_header_bytes lim"
      "length (rq_body r) \<le> body_cap f lim (rq_method r) (rq_target r) (rq_headers r)"
    unfolding request_wire_def by blast
  let ?h = "text_of (line # ls) @ CRLF"
  have clean: "list_all clean_line (line # ls)" using request_line_clean [OF g(1)] header_block_clean [OF g(2)] by simp
  have "find_blank_line ?h = Some (length (text_of (line # ls)) - 2)"
    using find_blank_text [OF clean, of "[]"] by (simp del: text_of_simps)
  then have blank: "find_blank_line ?h = Some (length ?h - 4)" by (simp add: CRLF_def)
  have crlf: "find_crlf (?h @ x) = Some (length line)" for x
    using clean find_crlf_line [of line "text_of ls @ CRLF @ x"] by (simp add: clean_line_def)
  show thesis
    by (rule that [of ?h line ls])
      (use w g clean blank crlf [of "[]"] crlf [of "rq_body r"] lf_ok_text [OF clean] parse_head_block [OF g(1,2,4,5)] in \<open>simp_all del: text_of_simps\<close>)
qed

lemma request_wire_of_head:
  assumes "parse_head h lim = Inr (m, t, v, hs, length body)" and "find_blank_line h = Some (length h - 4)"
    and "length h \<le> max_header_bytes lim" and "length body \<le> body_cap f lim m t hs"
  shows "request_wire lim f \<lparr>rq_method = m, rq_target = t, rq_version = v, rq_headers = hs, rq_body = body\<rparr> (h @ body)"
proof -
  from parse_head_sound [OF assms(1,2)] obtain line ls cl where g:
      "h = text_of (line # ls) @ CRLF" "is_request_line line m t v" "header_block ls hs None cl"
      "length body = (case cl of None \<Rightarrow> 0 | Some k \<Rightarrow> k)" "length line \<le> max_request_line_bytes lim"
      "length ls \<le> max_header_count lim"
    by blast
  show ?thesis
    unfolding request_wire_def
    by (rule exI [of _ line], rule exI [of _ ls], rule exI [of _ cl])
      (use g assms(3,4) in \<open>simp add: g(1) [symmetric] del: text_of_simps\<close>)
qed

lemma read_request_iff:
  "read_request input fin lim f = Inr (Some (r, rest)) \<longleftrightarrow>
     validate_limits lim \<and> (\<exists>w. input = w @ rest \<and> request_wire lim f r w \<and> find_crlf w \<noteq> Some (max_request_line_bytes lim))"
proof
  assume rd: "read_request input fin lim f = Inr (Some (r, rest))"
  then have lim: "validate_limits lim" by (simp add: read_request_def split: if_splits)
  with rd obtain h more where head: "read_head lim [] input fin = Inr (Some (h, more))"
    by (auto simp: read_request_def split: sum.splits option.splits)
  with rd lim obtain m t v hs n where ph: "parse_head h lim = Inr (m, t, v, hs, n)"
    by (cases "parse_head h lim") (auto simp: read_request_def)
  have h: "n \<le> body_cap f lim m t hs" "n \<le> length more" "rest = drop n more"
      "r = \<lparr>rq_method = m, rq_target = t, rq_version = v, rq_headers = hs, rq_body = take n more\<rparr>"
    using rd lim head ph by (auto simp: read_request_def Let_def split: if_split_asm reader_end.split_asm)
  have "find_blank_line [] = None" "line_fits lim []"
    by (simp_all add: find_blank_line_def windows_def line_fits_def find_crlf_def)
  from read_head_sound [OF head this] have g: "input = h @ more" "find_blank_line h = Some (length h - 4)"
      "length h \<le> max_header_bytes lim" "line_fits lim h" by simp_all
  have "n = length (take n more)" using h(2) by simp
  then have w: "request_wire lim f r (h @ take n more)"
    using request_wire_of_head [of h lim m t v hs "take n more" f] ph h(1) g(2,3) unfolding h(4) by simp
  obtain p where p: "find_crlf h = Some p" using ph by (auto simp: parse_head_def split: option.splits)
  have "find_crlf (h @ take n more) \<noteq> Some (max_request_line_bytes lim)"
    using g(4) p find_sub_append [of "[13, 10]" h p] by (simp add: line_fits_def find_crlf_sub)
  with w lim h g show "validate_limits lim \<and> (\<exists>w. input = w @ rest \<and> request_wire lim f r w \<and>
      find_crlf w \<noteq> Some (max_request_line_bytes lim))"
    by (intro conjI exI [of _ "h @ take n more"]) simp_all
next
  assume "validate_limits lim \<and> (\<exists>w. input = w @ rest \<and> request_wire lim f r w \<and>
      find_crlf w \<noteq> Some (max_request_line_bytes lim))"
  then obtain w where v: "validate_limits lim" and w: "input = w @ rest" "request_wire lim f r w"
      "find_crlf w \<noteq> Some (max_request_line_bytes lim)" by blast
  obtain h line ls where h: "w = h @ rq_body r" "h = text_of (line # ls) @ CRLF"
      "list_all clean_line (line # ls)"
      "parse_head h lim = Inr (rq_method r, rq_target r, rq_version r, rq_headers r, length (rq_body r))"
      "find_blank_line h = Some (length h - 4)" "find_crlf h = Some (length line)" "find_crlf w = Some (length line)"
      "lf_ok False h" "length h \<le> max_header_bytes lim" "length line \<le> max_request_line_bytes lim"
      "length (rq_body r) \<le> body_cap f lim (rq_method r) (rq_target r) (rq_headers r)"
    by (rule request_wire_head [OF w(2)])
  have "h \<noteq> []" using h(2) by (simp add: CRLF_def)
  moreover have "length line < max_request_line_bytes lim" using w(3) h(7,10) by (metis le_neq_implies_less)
  ultimately have "read_head lim [] (h @ rq_body r @ rest) fin = Inr (Some ([] @ h, rq_body r @ rest))"
    using h(5,6,8,9) by (intro read_head_complete) (simp_all only: append_Nil simp_thms)
  then have head: "read_head lim [] input fin = Inr (Some (h, rq_body r @ rest))" by (simp only: w(1) h(1) append.assoc append_Nil)
  show "read_request input fin lim f = Inr (Some (r, rest))"
    unfolding read_request_def head using v h(4,11) by (simp add: Let_def)
qed

section \<open>Segmentation\<close>

text \<open>A proper prefix of a request is incomplete, unless its first line is as long as the limit allows.\<close>

lemma request_prefix_incomplete:
  assumes "request_wire lim f r w" and "find_crlf w \<noteq> Some (max_request_line_bytes lim)" and "k < length w"
    and "length w \<le> u64_max"
  shows "parse_buffered_request (take k w) lim f = Inr None"
proof -
  obtain h line ls where h: "w = h @ rq_body r" "h = text_of (line # ls) @ CRLF"
      "list_all clean_line (line # ls)"
      "parse_head h lim = Inr (rq_method r, rq_target r, rq_version r, rq_headers r, length (rq_body r))"
      "find_blank_line h = Some (length h - 4)" "find_crlf h = Some (length line)" "find_crlf w = Some (length line)"
      "lf_ok False h" "length h \<le> max_header_bytes lim" "length line \<le> max_request_line_bytes lim"
      "length (rq_body r) \<le> body_cap f lim (rq_method r) (rq_target r) (rq_headers r)"
    by (rule request_wire_head [OF assms(1)])
  have four: "4 \<le> length h" using find_sub_length [OF _ h(5) [unfolded find_blank_sub]] by simp
  have blank: "find_blank_line w = Some (length h - 4)" using h(1,5) by (simp add: find_blank_sub find_sub_append)
  show ?thesis
  proof (cases "length h \<le> k")
    case True
    then have "find_blank_line (take k w) = Some (length h - 4)"
      using find_sub_take [OF _ blank [unfolded find_blank_sub], of k] four by (simp add: find_blank_sub)
    moreover have "take (length h) (take k w) = h" using True h(1) by simp
    ultimately show ?thesis
      using four h(1,4,9,11) assms(3,4) by (simp add: parse_buffered_request_def Let_def checked_add64_def)
  next
    case False
    then have "find_blank_line (take k w) = None"
      using find_sub_take_None [OF _ blank [unfolded find_blank_sub], of k] four by (simp add: find_blank_sub)
    moreover have "\<not> bare_lf (take k w)" using False h(1,8) by (simp add: bare_lf_iff lf_ok_take)
    moreover have "\<not> (find_crlf (take k w) = None \<and> max_request_line_bytes lim < length (take k w))"
    proof
      assume c: "find_crlf (take k w) = None \<and> max_request_line_bytes lim < length (take k w)"
      then have "k < length line + 2"
        using find_sub_take [OF _ h(7) [unfolded find_crlf_sub], of k] by (auto simp: find_crlf_sub not_less [symmetric])
      with c h(7,10) assms(2) show False by simp
    qed
    moreover have "length (take k w) \<le> max_header_bytes lim" using False h(9) by simp
    ultimately show ?thesis by (auto simp: parse_buffered_request_def)
  qed
qed

text \<open>Polling: requests are taken until none is complete; each takes at least one byte.\<close>

lemma request_wire_nonempty: "request_wire lim f r w \<Longrightarrow> 0 < length w"
  by (auto simp: request_wire_def CRLF_def)

fun rd_poll :: "nat \<Rightarrow> body_policy \<Rightarrow> request_decoder \<Rightarrow> request list \<times> rtsp_error option \<times> request_decoder" where
  "rd_poll 0 f d = ([], None, d)"
| "rd_poll (Suc n) f d =
     (case rd_next_request f d of
        (Inl e, d) \<Rightarrow> ([], Some e, d)
      | (Inr None, d) \<Rightarrow> ([], None, d)
      | (Inr (Some r), d) \<Rightarrow> (case rd_poll n f d of (rs, e, d) \<Rightarrow> (r # rs, e, d)))"

text \<open>A connection: every chunk is fed and all complete requests are taken; the first error ends it.\<close>

fun rd_serve :: "body_policy \<Rightarrow> request_decoder \<Rightarrow> bytes list \<Rightarrow> request list \<times> rtsp_error option \<times> request_decoder" where
  "rd_serve f d [] = ([], None, d)"
| "rd_serve f d (c # cs) =
     (case rd_feed c d of
        (Inl e, d) \<Rightarrow> ([], Some e, d)
      | (Inr _, d) \<Rightarrow>
          (case rd_poll (length (rd_buffered d) + 1) f d of
             (rs, Some e, d) \<Rightarrow> (rs, Some e, d)
           | (rs, None, d) \<Rightarrow> (case rd_serve f d cs of (rs', e, d) \<Rightarrow> (rs @ rs', e, d))))"

definition ready :: "request_limits \<Rightarrow> bytes \<Rightarrow> request_decoder" where
  "ready lim bs = \<lparr>rd_limits = lim, rd_buffered = bs, rd_poisoned = False\<rparr>"

lemma ready_sel [simp]: "rd_limits (ready lim bs) = lim" "rd_buffered (ready lim bs) = bs" "\<not> rd_poisoned (ready lim bs)"
  by (simp_all add: ready_def)

definition request_stream :: "request_limits \<Rightarrow> body_policy \<Rightarrow> request list \<Rightarrow> bytes list \<Rightarrow> bool" where
  "request_stream lim f rs ws \<longleftrightarrow>
     list_all2 (\<lambda>r w. request_wire lim f r w \<and> find_crlf w \<noteq> Some (max_request_line_bytes lim)) rs ws"

text \<open>Polling a buffer that holds whole requests and a proper prefix of the next.\<close>

lemma rd_poll_stream:
  assumes "request_stream lim f rs ws" and "length (concat ws @ p) \<le> u64_max" and "length (concat ws @ p) < n"
    and "p = [] \<or> (\<exists>r w. request_wire lim f r w \<and> find_crlf w \<noteq> Some (max_request_line_bytes lim) \<and> length w \<le> u64_max \<and>
                  strict_prefix p w)"
    and "validate_limits lim"
  shows "rd_poll n f (ready lim (concat ws @ p)) = (rs, None, ready lim p)"
  using assms(1-3)
proof (induction ws arbitrary: rs n)
  case Nil
  then obtain m where n: "n = Suc m" by (cases n) auto
  have "parse_buffered_request p lim f = Inr None"
  proof (cases "p = []")
    case True
    then show ?thesis
      by (simp add: parse_buffered_request_def find_blank_line_def windows_def bare_lf_def)
  next
    case False
    with assms(4) obtain r w where w: "request_wire lim f r w" "find_crlf w \<noteq> Some (max_request_line_bytes lim)"
        "length w \<le> u64_max" "strict_prefix p w" by blast
    from w(4) have "p = take (length p) w" "length p < length w"
      by (auto simp: strict_prefix_def prefix_def)
    with request_prefix_incomplete [OF w(1,2) _ w(3), of "length p"] show ?thesis by simp
  qed
  with Nil n show ?case by (simp add: request_stream_def rd_next_request_def)
next
  case (Cons w ws)
  then obtain r rs' m where rs: "rs = r # rs'" and w: "request_wire lim f r w" "request_stream lim f rs' ws" and n: "n = Suc m"
    by (cases n) (auto simp: request_stream_def list_all2_Cons2)
  let ?bs = "concat (w # ws) @ p"
  have "parse_buffered_request ?bs lim f = Inr (Some (r, length w))"
    using request_accepted_iff [OF Cons.prems(2)] w(1) by (metis append.assoc concat.simps(2))
  then have "rd_next_request f (ready lim ?bs) = (Inr (Some r), ready lim (concat ws @ p))"
    by (simp add: rd_next_request_def ready_def)
  moreover have "length (concat ws @ p) < length ?bs" using request_wire_nonempty [OF w(1)] by simp
  then have "rd_poll m f (ready lim (concat ws @ p)) = (rs', None, ready lim p)"
    by (intro Cons.IH [OF w(2)]) (use Cons.prems(2,3) n in linarith)+
  ultimately show ?case by (simp add: n rs del: concat.simps)
qed

lemma request_stream_nonempty: "request_stream lim f rs ws \<Longrightarrow> \<forall>w \<in> set ws. w \<noteq> []"
  unfolding request_stream_def by (induction rule: list_all2_induct) (auto dest: request_wire_nonempty)

text \<open>Between chunks the decoder holds \<open>p\<close>, a proper prefix of the first word still to come.\<close>

lemma rd_serve_stream:
  assumes lim: "validate_limits lim" "max_header_bytes lim + default_max_body_bytes lim \<le> u64_max"
    and "request_stream lim f rs ws" and "p @ concat cs = concat ws"
    and "p = [] \<or> ws \<noteq> [] \<and> strict_prefix p (hd ws)"
    and "list_all (\<lambda>w. length w \<le> M) ws"
    and "list_all (\<lambda>c. length c + M \<le> max_header_bytes lim + default_max_body_bytes lim) cs"
    and M: "M \<le> max_header_bytes lim + default_max_body_bytes lim"
  shows "rd_serve f (ready lim p) cs = (rs, None, ready lim [])"
  using assms(3-7)
proof (induction cs arbitrary: rs ws p)
  case Nil
  have ne: "\<forall>w \<in> set ws. w \<noteq> []" by (rule request_stream_nonempty [OF Nil(1)])
  have "ws = []"
  proof (cases ws)
    case (Cons w ws')
    with Nil ne have "p = [] \<or> length p < length w" by (auto dest: prefix_length_less)
    moreover have "p = w @ concat ws'" using Nil(2) Cons by simp
    ultimately show ?thesis using ne Cons by auto
  qed
  with Nil show ?case by (simp add: request_stream_def)
next
  case (Cons c cs)
  let ?cap = "max_header_bytes lim + default_max_body_bytes lim"
  note ne = request_stream_nonempty [OF Cons.prems(1)]
  have "prefix (p @ c) (concat ws)" using Cons.prems(2) by (metis append.assoc concat.simps(2) prefixI)
  from split_words [OF this ne] obtain ws1 ws2 q where ws: "ws = ws1 @ ws2" "p @ c = concat ws1 @ q"
      "q = [] \<or> ws2 \<noteq> [] \<and> strict_prefix q (hd ws2)" by blast
  from Cons.prems(1) ws(1) obtain rs1 rs2 where rs: "rs = rs1 @ rs2" "request_stream lim f rs1 ws1" "request_stream lim f rs2 ws2"
    by (auto simp: request_stream_def list_all2_append2)
  have len: "length p \<le> M" using Cons.prems(3,4) by (cases ws) (auto dest!: prefix_length_less)
  then have fits: "length (p @ c) \<le> ?cap" using Cons.prems(5) by auto
  then have feed: "rd_feed c (ready lim p) = (Inr (), ready lim (p @ c))"
    using lim by (simp add: rd_feed_def ready_def checked_add64_def)
  have next_word: "q = [] \<or> (\<exists>r w. request_wire lim f r w \<and> find_crlf w \<noteq> Some (max_request_line_bytes lim) \<and>
      length w \<le> u64_max \<and> strict_prefix q w)"
  proof (cases "q = []")
    case False
    with ws(3) obtain w ws' where w: "ws2 = w # ws'" "strict_prefix q w" by (cases ws2) auto
    with rs(3) obtain r where "request_wire lim f r w \<and> find_crlf w \<noteq> Some (max_request_line_bytes lim)"
      by (auto simp: request_stream_def list_all2_Cons2)
    moreover have "length w \<le> M" using Cons.prems(4) w(1) ws(1) by simp
    then have "length w \<le> u64_max" using M lim(2) by linarith
    ultimately show ?thesis using w(2) by blast
  qed simp
  have "length (concat ws1 @ q) \<le> u64_max" "length (concat ws1 @ q) < length (p @ c) + 1"
    using fits lim(2) unfolding ws(2) by linarith+
  then have "rd_poll (length (p @ c) + 1) f (ready lim (concat ws1 @ q)) = (rs1, None, ready lim q)"
    by (rule rd_poll_stream [OF rs(2) _ _ next_word lim(1)])
  then have poll: "rd_poll (length (rd_buffered (ready lim (p @ c))) + 1) f (ready lim (p @ c)) = (rs1, None, ready lim q)"
    by (simp only: ws(2) ready_sel)
  have "(p @ c) @ concat cs = concat (ws1 @ ws2)" using Cons.prems(2) ws(1) by simp
  then have "q @ concat cs = concat ws2" unfolding ws(2) by simp
  from Cons.IH [OF rs(3) this ws(3)] Cons.prems(4,5) ws(1)
  have "rd_serve f (ready lim q) cs = (rs2, None, ready lim [])" by simp
  with poll rs(1) show ?case by (simp only: rd_serve.simps feed prod.case sum.case option.case)
qed

section \<open>What the decoder holds\<close>

datatype rd_op = Feed bytes | Next body_policy | SetMaxBody nat | TakeBuffered

fun rd_step :: "rd_op \<Rightarrow> request_decoder \<Rightarrow> request_decoder" where
  "rd_step (Feed bs) d = snd (rd_feed bs d)"
| "rd_step (Next f) d = snd (rd_next_request f d)"
| "rd_step (SetMaxBody n) d = snd (rd_set_max_body n d)"
| "rd_step TakeBuffered d = snd (rd_take_buffered d)"

definition rd_cap :: "request_decoder \<Rightarrow> nat" where
  "rd_cap d = max_header_bytes (rd_limits d) + default_max_body_bytes (rd_limits d)"

definition rd_inv :: "request_limits \<Rightarrow> request_decoder \<Rightarrow> bool" where
  "rd_inv lim d \<longleftrightarrow> validate_limits (rd_limits d) \<and> rd_cap d \<le> u64_max \<and> length (rd_buffered d) \<le> rd_cap d \<and>
     rd_limits d = lim\<lparr>default_max_body_bytes := default_max_body_bytes (rd_limits d)\<rparr>"

lemma rd_next_cases:
  "rd_next_request f d = (x, d') \<Longrightarrow>
     rd_limits d' = rd_limits d \<and> (\<exists>n. rd_buffered d' = drop n (rd_buffered d)) \<and>
     (case x of Inl e \<Rightarrow> rd_poisoned d' | Inr _ \<Rightarrow> \<not> rd_poisoned d')"
  by (auto simp: rd_next_request_def split: if_splits sum.splits option.splits prod.splits intro: exI [of _ 0])

lemma set_body_twice: "d = lim\<lparr>default_max_body_bytes := m\<rparr> \<Longrightarrow> d\<lparr>default_max_body_bytes := n\<rparr> = lim\<lparr>default_max_body_bytes := n\<rparr>"
  by simp

lemma rd_inv_step: "rd_inv lim d \<Longrightarrow> rd_inv lim (rd_step op d)"
proof (cases op)
  case (Next f)
  assume inv: "rd_inv lim d"
  obtain x d' where x: "rd_next_request f d = (x, d')" by force
  with rd_next_cases [OF x] inv show ?thesis by (auto simp: Next rd_inv_def rd_cap_def)
qed (auto simp: rd_inv_def rd_cap_def rd_feed_def rd_set_max_body_def rd_take_buffered_def Let_def checked_add64_def
      dest: set_body_twice split: option.splits if_splits)

lemma rd_poisoned_step: "rd_poisoned d \<Longrightarrow> rd_poisoned (rd_step op d)"
  by (cases op) (auto simp: rd_feed_def rd_next_request_def rd_set_max_body_def rd_take_buffered_def)

interpretation decoder: state_machine rd_step "rd_inv lim" for lim
  by unfold_locales (rule rd_inv_step)

interpretation poisoned: state_machine rd_step rd_poisoned
  by unfold_locales (rule rd_poisoned_step)

section \<open>Responses\<close>

lemma encode_headers_iff:
  "encode_headers hs out = Inr out' \<longleftrightarrow>
     out' = out @ text_of (map (\<lambda>h. hd_name h @ [58, 32] @ hd_value h) hs) \<and>
     list_all (\<lambda>h. valid_header_name (hd_name h) \<and> valid_header_value (hd_value h) \<and>
       \<not> is_content_length (hd_name h) \<and> \<not> eq_ignore_case (hd_name h) (ascii ''transfer-encoding'')) hs"
  by (induction hs arbitrary: out) (auto simp: is_content_length_def)

definition response_line :: "response \<Rightarrow> bytes" where
  "response_line r = rp_version r @ [32] @ ascii (show_nat (rp_status r)) @ [32] @ rp_reason r"

definition response_lines :: "response \<Rightarrow> bytes list" where
  "response_lines r =
     response_line r # map (\<lambda>h. hd_name h @ [58, 32] @ hd_value h) (rp_headers r) @
       [ascii ''Content-Length: '' @ ascii (show_nat (length (rp_body r)))]"

lemma ascii_append [simp]: "ascii (xs @ ys) = ascii xs @ ascii ys"
  by (simp add: ascii_def)

lemma text_of_append: "text_of (xs @ ys) = text_of xs @ text_of ys"
  by (simp add: text_of_def)

lemma response_encode_iff:
  "response_encode r = Inr out \<longleftrightarrow>
     out = text_of (response_lines r) @ CRLF @ rp_body r \<and>
     rp_version r \<in> set [ascii ''RTSP/1.0'', ascii ''HTTP/1.0'', ascii ''HTTP/1.1''] \<and>
     100 \<le> rp_status r \<and> rp_status r \<le> 999 \<and> rp_reason r \<noteq> [] \<and> list_all (\<lambda>b. is_graphic b \<or> b = 32) (rp_reason r) \<and>
     list_all (\<lambda>h. valid_header_name (hd_name h) \<and> valid_header_value (hd_value h) \<and>
       \<not> is_content_length (hd_name h) \<and> \<not> eq_ignore_case (hd_name h) (ascii ''transfer-encoding'')) (rp_headers r)"
proof -
  have "encode_headers (rp_headers r)
      (rp_version r @ [32] @ ascii (show_nat (rp_status r)) @ [32] @ rp_reason r @ CRLF) = Inr x \<longleftrightarrow>
    x = response_line r @ CRLF @ text_of (map (\<lambda>h. hd_name h @ [58, 32] @ hd_value h) (rp_headers r)) \<and>
    list_all (\<lambda>h. valid_header_name (hd_name h) \<and> valid_header_value (hd_value h) \<and>
       \<not> is_content_length (hd_name h) \<and> \<not> eq_ignore_case (hd_name h) (ascii ''transfer-encoding'')) (rp_headers r)" for x
    by (simp add: encode_headers_iff response_line_def)
  note e = this
  show ?thesis
  proof (cases "encode_headers (rp_headers r)
      (rp_version r @ [32] @ ascii (show_nat (rp_status r)) @ [32] @ rp_reason r @ CRLF)")
    case (Inl err)
    then show ?thesis using e by (auto simp: response_encode_def)
  next
    case (Inr x)
    then show ?thesis using e [of x] unfolding response_encode_def
      by (auto simp: response_lines_def text_of_append not_le)
  qed
qed

lemma digit_byte: "is_digit c \<Longrightarrow> 48 \<le> unat (of_char c :: u8) \<and> unat (of_char c :: u8) \<le> 57"
proof -
  assume d: "is_digit c"
  have "(of_char c :: u8) = of_nat (of_char c)" by (cases c) (simp add: of_char_def)
  moreover have "48 \<le> (of_char c :: nat) \<and> (of_char c :: nat) \<le> 57" using d by (simp add: is_digit_def Let_def)
  ultimately show ?thesis by (simp add: unat_of_nat)
qed

lemma show_nat_clean: "10 \<notin> set (ascii (show_nat n)) \<and> 13 \<notin> set (ascii (show_nat n))"
proof -
  have "48 \<le> unat b" if "b \<in> set (ascii (show_nat n))" for b
    using that show_nat_digits [of n] digit_byte by (auto simp: ascii_def list_all_iff)
  then show ?thesis by fastforce
qed

lemma response_lines_clean:
  assumes "response_encode r = Inr out"
  shows "list_all clean_line (response_lines r)"
proof -
  note r = assms [unfolded response_encode_iff]
  have "10 \<notin> set (rp_reason r) \<and> 13 \<notin> set (rp_reason r)" using r by (auto simp: list_all_iff is_graphic_def)
  then have "clean_line (response_line r)"
    using r show_nat_clean [of "rp_status r"] by (auto simp: clean_line_def response_line_def versions)
  moreover have "clean_line (hd_name h @ [58, 32] @ hd_value h)" if "h \<in> set (rp_headers r)" for h
  proof -
    have "valid_header_name (hd_name h)" "valid_header_value (hd_value h)" using r that by (auto simp: list_all_iff)
    then show ?thesis
      by (auto simp: clean_line_def valid_header_name_def valid_header_value_def list_all_iff dest: token_byte)
  qed
  moreover have "clean_line (ascii ''Content-Length: '' @ ascii (show_nat (length (rp_body r))))"
    using show_nat_clean [of "length (rp_body r)"] by (auto simp: clean_line_def ascii_def)
  ultimately show ?thesis by (auto simp: response_lines_def list_all_iff)
qed

section \<open>A request to compute with\<close>

definition sample_request :: request where
  "sample_request = \<lparr>rq_method = ascii ''A'', rq_target = ascii ''B'', rq_version = ascii ''HTTP/1.1'',
     rq_headers = [], rq_body = []\<rparr>"

definition sample_text :: bytes where
  "sample_text = ascii ''A B HTTP/1.1'' @ CRLF @ CRLF"

lemma sample_length: "length sample_text = 16"
  by (simp add: sample_text_def ascii_def CRLF_def)

lemma sample_crlf: "find_crlf (sample_text @ x) = Some 12"
proof -
  have "find_crlf (ascii ''A B HTTP/1.1'' @ CRLF @ CRLF @ x) = Some (length (ascii ''A B HTTP/1.1''))"
    by (rule find_crlf_line) (simp add: ascii_def)
  then show ?thesis by (simp add: sample_text_def ascii_def)
qed

lemma sample_wire:
  assumes "12 \<le> max_request_line_bytes lim" and "16 \<le> max_header_bytes lim"
  shows "request_wire lim f sample_request sample_text"
proof -
  have line: "is_request_line (ascii ''A B HTTP/1.1'') (ascii ''A'') (ascii ''B'') (ascii ''HTTP/1.1'')"
    by (simp add: is_request_line_def ascii_def is_token_def is_alphanumeric_def is_graphic_def)
  show ?thesis
    unfolding request_wire_def
    by (rule exI [of _ "ascii ''A B HTTP/1.1''"], rule exI [of _ "[]"], rule exI [of _ None])
      (use line assms in \<open>simp add: sample_text_def sample_request_def CRLF_def ascii_def\<close>)
qed

section \<open>Properties\<close>

text \<open>
  C26. The two ways of reading a request agree: on the same bytes, reading the socket byte by byte
  returns a request exactly when the buffered parser does, with the same contents and the same
  bytes left over, for every grammar, size and body-policy decision, with one exception, request
  lines whose length is exactly the limit. What is returned is the request the bytes spell.
\<close>

theorem socket_reader_agrees_with_decoder:
  assumes "length input \<le> u64_max"
  shows "(read_request input fin lim f = Inr (Some (r, rest)) \<longleftrightarrow>
      validate_limits lim \<and> find_crlf input \<noteq> Some (max_request_line_bytes lim) \<and>
      (\<exists>n. parse_buffered_request input lim f = Inr (Some (r, n)) \<and> rest = drop n input)) \<and>
    (parse_buffered_request input lim f = Inr (Some (r, n)) \<longleftrightarrow>
      (\<exists>w. input = w @ drop n input \<and> n = length w \<and> request_wire lim f r w))"
proof
  have crlf: "find_crlf input = find_crlf w" if "input = w @ x" "request_wire lim f r w" for w x
  proof -
    have "find_crlf w \<noteq> None" by (rule request_wire_head [OF that(2)]) simp
    then show ?thesis using that(1) by (auto simp: find_crlf_sub find_sub_append)
  qed
  show "read_request input fin lim f = Inr (Some (r, rest)) \<longleftrightarrow>
      validate_limits lim \<and> find_crlf input \<noteq> Some (max_request_line_bytes lim) \<and>
      (\<exists>n. parse_buffered_request input lim f = Inr (Some (r, n)) \<and> rest = drop n input)"
    unfolding read_request_iff request_accepted_iff [OF assms] using crlf by fastforce
  show "parse_buffered_request input lim f = Inr (Some (r, n)) \<longleftrightarrow>
      (\<exists>w. input = w @ drop n input \<and> n = length w \<and> request_wire lim f r w)"
    unfolding request_accepted_iff [OF assms] by auto
qed

theorem socket_reader_agrees_with_decoder_witness:
  "read_request (sample_text @ [7]) Eof request_limits_default (\<lambda>_ _ _. None) = Inr (Some (sample_request, [7]))"
proof -
  have lim: "validate_limits request_limits_default" and line: "max_request_line_bytes request_limits_default = 2048"
    and hdr: "max_header_bytes request_limits_default = 32768"
    by (simp_all add: validate_limits_def request_limits_default_def DEFAULT_MAX_HEADER_BYTES_def DEFAULT_MAX_REQUEST_LINE_BYTES_def)
  have wire: "request_wire request_limits_default (\<lambda>_ _ _. None) sample_request sample_text"
    by (rule sample_wire) (simp_all add: line hdr)
  have "find_crlf (sample_text @ [7]) \<noteq> Some (max_request_line_bytes request_limits_default)"
    by (simp add: sample_crlf line)
  moreover have "length (sample_text @ [7]) \<le> u64_max" by (simp add: sample_length u64_max_def)
  ultimately show ?thesis
    using socket_reader_agrees_with_decoder [of "sample_text @ [7]" Eof request_limits_default "\<lambda>_ _ _. None"
        sample_request "[7]" "length sample_text"] lim wire by auto
qed

text \<open>
  However the connection is cut into chunks, the decoder delivers the same requests: any number of
  pipelined requests, each within the limits and with a request line below the limit, sent in any
  segmentation whose chunks leave room for one request in the buffer, come out complete, unchanged
  and in order, without an error and with nothing left over.
\<close>

theorem segmentation_is_irrelevant:
  assumes "validate_limits lim" and "max_header_bytes lim + default_max_body_bytes lim \<le> u64_max"
    and "request_stream lim f rs ws" and "concat cs = concat ws"
    and "list_all (\<lambda>w. length w \<le> M) ws" and "M \<le> max_header_bytes lim + default_max_body_bytes lim"
    and "list_all (\<lambda>c. length c + M \<le> max_header_bytes lim + default_max_body_bytes lim) cs"
  shows "\<exists>d. request_decoder_new lim = Inr d \<and> rd_serve f d cs = (rs, None, d)"
proof -
  have "request_decoder_new lim = Inr (ready lim [])"
    using assms(1,2) by (simp add: request_decoder_new_def ready_def checked_add64_def)
  moreover have "rd_serve f (ready lim []) cs = (rs, None, ready lim [])"
    by (rule rd_serve_stream [OF assms(1,2,3) _ _ assms(5,7,6)]) (simp_all add: assms(4))
  ultimately show ?thesis by simp
qed

theorem segmentation_is_irrelevant_witness:
  "\<exists>d. request_decoder_new request_limits_default = Inr d \<and>
     rd_serve (\<lambda>_ _ _. None) d [take 13 sample_text, drop 13 sample_text @ take 5 sample_text, drop 5 sample_text] =
       ([sample_request, sample_request], None, d)"
proof -
  have lim: "validate_limits request_limits_default" and line: "max_request_line_bytes request_limits_default = 2048"
    and hdr: "max_header_bytes request_limits_default = 32768" and body: "default_max_body_bytes request_limits_default = 65536"
    by (simp_all add: validate_limits_def request_limits_default_def DEFAULT_MAX_HEADER_BYTES_def DEFAULT_MAX_REQUEST_LINE_BYTES_def)
  have "request_wire request_limits_default (\<lambda>_ _ _. None) sample_request sample_text"
    by (rule sample_wire) (simp_all add: line hdr)
  then have stream: "request_stream request_limits_default (\<lambda>_ _ _. None) [sample_request, sample_request] [sample_text, sample_text]"
    using sample_crlf [of "[]"] by (simp add: request_stream_def line)
  show ?thesis
    by (rule segmentation_is_irrelevant [OF lim _ stream, where M = 16])
      (simp_all add: hdr body u64_max_def sample_length)
qed

text \<open>
  Where segmentation matters: a request whose first line is exactly as long as the limit is
  accepted when it arrives whole, but ends the connection when the line and its carriage return
  arrive without the line feed; the byte-by-byte reader always refuses it.
\<close>

theorem segmentation_matters_at_the_limit:
  assumes "request_wire lim f r w" and "find_crlf w = Some (max_request_line_bytes lim)"
    and "validate_limits lim" and "length w \<le> u64_max"
  shows "parse_buffered_request w lim f = Inr (Some (r, length w)) \<and>
    parse_buffered_request (take (max_request_line_bytes lim + 1) w) lim f =
      Inl (RequestLineTooLarge (max_request_line_bytes lim)) \<and>
    (\<forall>r' rest. read_request w Eof lim f \<noteq> Inr (Some (r', rest)))"
proof (intro conjI)
  obtain h line ls where h: "w = h @ rq_body r" "h = text_of (line # ls) @ CRLF"
      "list_all clean_line (line # ls)"
      "parse_head h lim = Inr (rq_method r, rq_target r, rq_version r, rq_headers r, length (rq_body r))"
      "find_blank_line h = Some (length h - 4)" "find_crlf h = Some (length line)" "find_crlf w = Some (length line)"
      "lf_ok False h" "length h \<le> max_header_bytes lim" "length line \<le> max_request_line_bytes lim"
      "length (rq_body r) \<le> body_cap f lim (rq_method r) (rq_target r) (rq_headers r)"
    by (rule request_wire_head [OF assms(1)])
  let ?k = "max_request_line_bytes lim + 1"
  have line: "length line = max_request_line_bytes lim" using h(7) assms(2) by simp
  have four: "4 \<le> length h" using find_sub_length [OF _ h(5) [unfolded find_blank_sub]] by simp
  have k: "?k < length h" using line by (simp add: h(2) CRLF_def)
  have blank: "find_blank_line w = Some (length h - 4)" using h(1,5) by (simp add: find_blank_sub find_sub_append)
  show "parse_buffered_request w lim f = Inr (Some (r, length w))"
    using assms(1) request_accepted_iff [OF assms(4)] by (metis append_Nil2)
  have "find_blank_line (take ?k w) = None"
    using find_sub_take_None [OF _ blank [unfolded find_blank_sub], of ?k] four k by (simp add: find_blank_sub)
  moreover have "\<not> bare_lf (take ?k w)" using k h(1,8) by (simp add: bare_lf_iff lf_ok_take)
  moreover have "find_crlf (take ?k w) = None"
    using find_sub_take_None [OF _ h(7) [unfolded find_crlf_sub], of ?k] line by (simp add: find_crlf_sub)
  moreover have "length (take ?k w) = ?k" using k h(1) by simp
  ultimately show "parse_buffered_request (take ?k w) lim f = Inl (RequestLineTooLarge (max_request_line_bytes lim))"
    by (simp add: parse_buffered_request_def)
  show "\<forall>r' rest. read_request w Eof lim f \<noteq> Inr (Some (r', rest))"
  proof (intro allI notI)
    fix r' rest assume "read_request w Eof lim f = Inr (Some (r', rest))"
    then obtain w' where w': "w = w' @ rest" "request_wire lim f r' w'" "find_crlf w' \<noteq> Some (max_request_line_bytes lim)"
      by (auto simp: read_request_iff)
    have "find_crlf w' \<noteq> None" by (rule request_wire_head [OF w'(2)]) simp
    with w' assms(2) show False by (auto simp: find_crlf_sub find_sub_append)
  qed
qed

theorem segmentation_matters_at_the_limit_witness:
  "parse_buffered_request (take 13 sample_text)
     \<lparr>max_request_line_bytes = 12, max_header_bytes = 64, max_header_count = 8, default_max_body_bytes = 0\<rparr>
     (\<lambda>_ _ _. None) = Inl (RequestLineTooLarge 12)"
proof -
  let ?lim = "\<lparr>max_request_line_bytes = 12, max_header_bytes = 64, max_header_count = 8, default_max_body_bytes = 0\<rparr>"
  have "request_wire ?lim (\<lambda>_ _ _. None) sample_request sample_text" by (rule sample_wire) simp_all
  from segmentation_matters_at_the_limit [OF this] show ?thesis
    using sample_crlf [of "[]"] by (simp add: validate_limits_def sample_length u64_max_def)
qed

text \<open>
  C27. The decoder's memory is bounded and a framing error is final: after any sequence of chunks,
  requests and limit changes the buffer holds at most the header limit plus the body limit in
  force; only the body limit ever changes; the first error of a request leaves a decoder that
  answers every later chunk, request and limit change with the error of a poisoned decoder.
\<close>

theorem decoder_bounded_and_fail_stop:
  assumes "request_decoder_new lim = Inr d0" and "d = fold rd_step ops d0"
  shows "length (rd_buffered d) \<le> max_header_bytes lim + default_max_body_bytes (rd_limits d) \<and>
    max_header_bytes lim + default_max_body_bytes (rd_limits d) \<le> u64_max \<and>
    rd_limits d = lim\<lparr>default_max_body_bytes := default_max_body_bytes (rd_limits d)\<rparr> \<and>
    (\<forall>e. fst (rd_next_request f d) = Inl e \<longrightarrow>
       (let d' = fold rd_step later (snd (rd_next_request f d)) in
        fst (rd_feed bs d') = Inl PoisonedDecoder \<and> fst (rd_next_request g d') = Inl PoisonedDecoder \<and>
        fst (rd_set_max_body n d') = Inl PoisonedDecoder))"
proof -
  from assms(1) have "rd_inv lim d0"
    by (auto simp: request_decoder_new_def rd_inv_def rd_cap_def split: if_splits option.splits)
  then have inv: "rd_inv lim d" unfolding assms(2) by (rule decoder.run_inv)
  then have "max_header_bytes (rd_limits d) = max_header_bytes lim"
    by (metis rd_inv_def request_limits.select_convs(2) request_limits.update_convs(4) request_limits.surjective)
  moreover have "rd_poisoned (fold rd_step later (snd (rd_next_request f d)))" if "fst (rd_next_request f d) = Inl e" for e
    using rd_next_cases [OF prod.collapse [symmetric], of f d] that by (intro poisoned.run_inv) simp
  ultimately show ?thesis
    using inv by (simp add: rd_inv_def rd_cap_def Let_def rd_feed_def rd_next_request_def [of g] rd_set_max_body_def)
qed

theorem decoder_bounded_and_fail_stop_witness:
  "length (rd_buffered (fold rd_step [Feed [10, 10], Next (\<lambda>_ _ _. None), Feed [1]] (ready request_limits_default []))) \<le> 98304"
proof -
  have "request_decoder_new request_limits_default = Inr (ready request_limits_default [])"
    by (simp add: request_decoder_new_def ready_def checked_add64_def u64_max_def validate_limits_def
        request_limits_default_def DEFAULT_MAX_HEADER_BYTES_def DEFAULT_MAX_REQUEST_LINE_BYTES_def)
  from decoder_bounded_and_fail_stop [OF this refl, of "[Feed [10, 10], Next (\<lambda>_ _ _. None), Feed [1]]"]
  show ?thesis
    by (simp add: rd_feed_def rd_next_request_def parse_buffered_request_def find_blank_line_def windows_def bare_lf_def
        checked_add64_def u64_max_def request_limits_default_def DEFAULT_MAX_HEADER_BYTES_def
        DEFAULT_MAX_REQUEST_LINE_BYTES_def)
qed

text \<open>
  A response cannot be split or smuggled into: whatever status, reason, headers and body a handler
  supplies, an encoded response is the status line, the given headers in order and one
  Content-Length line with the size of the body, each a single line free of line breaks, then the
  first blank line, then the body; headers that would contradict this framing are refused.
\<close>

theorem response_framing:
  assumes "response_encode r = Inr out"
  shows "out = text_of (response_lines r) @ CRLF @ rp_body r \<and> list_all clean_line (response_lines r) \<and>
    find_blank_line out = Some (length (text_of (response_lines r)) - 2) \<and>
    list_all (\<lambda>h. \<not> eq_ignore_case (hd_name h) (ascii ''content-length'') \<and>
      \<not> eq_ignore_case (hd_name h) (ascii ''transfer-encoding'')) (rp_headers r)"
proof -
  note r = assms [unfolded response_encode_iff]
  have clean: "list_all clean_line (response_lines r)" by (rule response_lines_clean [OF assms])
  then have "find_blank_line out = Some (length (text_of (response_lines r)) - 2)"
    using r find_blank_text [of "response_line r" "tl (response_lines r)" "rp_body r"] by (simp add: response_lines_def)
  with r clean show ?thesis by (auto simp: list_all_iff is_content_length_def)
qed

theorem response_framing_witness:
  "find_blank_line (ascii ''RTSP/1.0 200 OK'' @ CRLF @ ascii ''Content-Length: 2'' @ CRLF @ CRLF @ [13, 10]) = Some 34"
proof -
  let ?r = "(response_new 200 (ascii ''OK''))\<lparr>rp_body := [13, 10]\<rparr>"
  have s: "show_nat 200 = ''200''" "show_nat (Suc (Suc 0)) = ''2''" by (simp_all add: show_nat.simps)
  have "response_encode ?r = Inr (ascii ''RTSP/1.0 200 OK'' @ CRLF @ ascii ''Content-Length: 2'' @ CRLF @ CRLF @ [13, 10])"
    by (simp add: response_encode_def response_new_def s ascii_def is_graphic_def)
  from response_framing [OF this] show ?thesis
    by (simp add: response_lines_def response_line_def response_new_def s ascii_def CRLF_def)
qed

end
