(* ===== verification/PlayBuffer.thy ===== *)
theory PlayBuffer
  imports Complex_Main OrderedMap RustStr
begin

text \<open>
  The receive-side play buffer of the media path (\<open>JitterBuffer\<close> and \<open>JbTuning\<close> in
  core/audiohub-net/src/media.rs): frames are pushed under their sequence number, one frame is
  popped per 10 ms tick, missing frames are concealed, the depth is steered towards a target by
  merging two frames into one, and the target itself grows with every underrun and decays
  slowly. The theory models the tuning with its environment overrides and every operation of the
  buffer; samples and their arithmetic are an argument, so nothing here depends on rounding.
\<close>

section \<open>Single precision arithmetic\<close>

text \<open>
  The operations of \<open>f32\<close> that the code uses. Literals are given by numerator and denominator.
\<close>

record 'f f32_ops =
  f_lit :: "int \<Rightarrow> nat \<Rightarrow> 'f"
  f_pi :: 'f
  f_of_nat :: "nat \<Rightarrow> 'f"
  f_add :: "'f \<Rightarrow> 'f \<Rightarrow> 'f"
  f_sub :: "'f \<Rightarrow> 'f \<Rightarrow> 'f"
  f_mul :: "'f \<Rightarrow> 'f \<Rightarrow> 'f"
  f_div :: "'f \<Rightarrow> 'f \<Rightarrow> 'f"
  f_powf :: "'f \<Rightarrow> 'f \<Rightarrow> 'f"
  f_sqrt :: "'f \<Rightarrow> 'f"
  f_cos :: "'f \<Rightarrow> 'f"
  f_lt :: "'f \<Rightarrow> 'f \<Rightarrow> bool"
  f_le :: "'f \<Rightarrow> 'f \<Rightarrow> bool"
  f_parse :: "string \<Rightarrow> 'f option"

definition f_clamp :: "'f f32_ops \<Rightarrow> 'f \<Rightarrow> 'f \<Rightarrow> 'f \<Rightarrow> 'f" where
  "f_clamp ops lo hi x = (if f_lt ops x lo then lo else if f_lt ops hi x then hi else x)"

section \<open>Tuning\<close>

text \<open>
  Unsigned integers are natural numbers; sums of 32-bit fields that a tuning from the environment
  could overflow wrap as they do in a release build. Tick counts are not wrapped: at one tick
  per 10 ms the 64-bit counter is out of reach.
\<close>

definition u32_add :: "nat \<Rightarrow> nat \<Rightarrow> nat" where
  "u32_add a b = (a + b) mod 2 ^ 32"

definition u32_saturating_add :: "nat \<Rightarrow> nat \<Rightarrow> nat" where
  "u32_saturating_add a b = min (a + b) (2 ^ 32 - 1)"

definition u32_clamp :: "nat \<Rightarrow> nat \<Rightarrow> nat \<Rightarrow> nat" where
  "u32_clamp lo hi x = (if x < lo then lo else if hi < x then hi else x)"

record 'f jb_tuning =
  min_target :: nat
  max_target :: nat
  slack :: nat
  accel_interval_ticks :: nat
  hard_slack :: nat
  max_frames :: nat
  underrun_step :: nat
  extra_max :: nat
  extra_decay_ticks :: nat
  xfade :: nat
  ncc_floor :: 'f
  ncc_retry_ticks :: nat

definition JB_DEFAULT :: "'f f32_ops \<Rightarrow> 'f jb_tuning" where
  "JB_DEFAULT ops = \<lparr>min_target = 4, max_target = 12, slack = 1, accel_interval_ticks = 100,
     hard_slack = 6, max_frames = 24, underrun_step = 1, extra_max = 2,
     extra_decay_ticks = 30000, xfade = 192, ncc_floor = f_lit ops (-2) 10,
     ncc_retry_ticks = 500\<rparr>"

definition JB_DEGRADED :: "'f f32_ops \<Rightarrow> 'f jb_tuning" where
  "JB_DEGRADED ops = (JB_DEFAULT ops)\<lparr>min_target := 4, max_target := 40, extra_max := 36,
     max_frames := 48\<rparr>"

text \<open>The environment is a partial map from variable names to their values.\<close>

definition env_uint :: "(string \<Rightarrow> string option) \<Rightarrow> string \<Rightarrow> nat \<Rightarrow> string \<Rightarrow> nat \<Rightarrow> nat" where
  "env_uint env pre hi key dv =
     (case env (pre @ key) of
        None \<Rightarrow> dv
      | Some v \<Rightarrow> (case parse_uint hi (trim v) of None \<Rightarrow> dv | Some n \<Rightarrow> n))"

definition env_over :: "'f f32_ops \<Rightarrow> (string \<Rightarrow> string option) \<Rightarrow> 'f jb_tuning \<Rightarrow> string \<Rightarrow>
    'f jb_tuning" where
  "env_over ops env d pre =
     (let u32v = env_uint env pre (2 ^ 32 - 1);
          u64v = env_uint env pre (2 ^ 64 - 1);
          t = \<lparr>min_target = max (u32v ''MIN_TARGET'' (min_target d)) 1,
               max_target = max (u32v ''MAX_TARGET'' (max_target d)) 1,
               slack = u32v ''SLACK'' (slack d),
               accel_interval_ticks = u64v ''ACCEL_INTERVAL_TICKS'' (accel_interval_ticks d),
               hard_slack = u32v ''HARD_SLACK'' (hard_slack d),
               max_frames = max (u32v ''MAX_FRAMES'' (max_frames d)) 2,
               underrun_step = u32v ''UNDERRUN_STEP'' (underrun_step d),
               extra_max = u32v ''EXTRA_MAX'' (extra_max d),
               extra_decay_ticks = max (u64v ''EXTRA_DECAY_TICKS'' (extra_decay_ticks d)) 1,
               xfade = u32v ''XFADE'' (xfade d),
               ncc_floor = f_clamp ops (f_lit ops (-1) 1) (f_lit ops 1 1)
                 (case env (pre @ ''NCC_FLOOR'') of
                    None \<Rightarrow> ncc_floor d
                  | Some v \<Rightarrow> (case f_parse ops (trim v) of None \<Rightarrow> ncc_floor d | Some x \<Rightarrow> x)),
               ncc_retry_ticks = u32v ''NCC_RETRY_TICKS'' (ncc_retry_ticks d)\<rparr>;
          t1 = t\<lparr>max_target := max (max_target t) (min_target t)\<rparr>
      in t1\<lparr>max_frames :=
             max (max_frames t1) (u32_add (u32_add (max_target t1) (hard_slack t1)) 1)\<rparr>)"

definition from_env :: "'f f32_ops \<Rightarrow> (string \<Rightarrow> string option) \<Rightarrow> 'f jb_tuning" where
  "from_env ops env = env_over ops env (JB_DEFAULT ops) ''AUDIOHUB_JB_''"

definition degraded_from_env :: "'f f32_ops \<Rightarrow> (string \<Rightarrow> string option) \<Rightarrow> 'f jb_tuning" where
  "degraded_from_env ops env = env_over ops env (JB_DEGRADED ops) ''AUDIOHUB_JB_DEGRADED_''"

section \<open>State\<close>

record 'f play_buffer =
  pb_frames :: "'f list btree"
  pb_next :: "nat option"
  pb_prebuffering :: bool
  pb_target :: nat
  pb_extra :: nat
  pb_cfg :: "'f jb_tuning"
  pb_tick :: nat
  pb_next_decay :: nat
  pb_last_accel :: nat
  pb_ncc_defer :: nat
  pb_frame_len :: nat
  pb_channels :: nat
  pb_last_frame :: "'f list"
  pb_plc_run :: nat
  pb_popped :: nat
  pb_plc_count :: nat
  pb_silence_count :: nat
  pb_dropped :: nat
  pb_underruns :: nat
  pb_accel_events :: nat
  pb_accel_frames :: nat
  pb_accel_deferred :: nat

definition DEFAULT_FRAME_LEN :: nat where
  "DEFAULT_FRAME_LEN = 480"

definition with_tuning_channels :: "nat \<Rightarrow> 'f jb_tuning \<Rightarrow> nat \<Rightarrow> 'f play_buffer" where
  "with_tuning_channels target cfg ch =
     (let channels = u32_clamp 1 12 ch in
      \<lparr>pb_frames = [], pb_next = None, pb_prebuffering = True,
       pb_target = u32_clamp 1 (max_target cfg) target, pb_extra = 0, pb_cfg = cfg, pb_tick = 0,
       pb_next_decay = extra_decay_ticks cfg, pb_last_accel = 0, pb_ncc_defer = 0,
       pb_frame_len = DEFAULT_FRAME_LEN * channels, pb_channels = channels, pb_last_frame = [],
       pb_plc_run = 0, pb_popped = 0, pb_plc_count = 0, pb_silence_count = 0, pb_dropped = 0,
       pb_underruns = 0, pb_accel_events = 0, pb_accel_frames = 0, pb_accel_deferred = 0\<rparr>)"

definition with_tuning :: "nat \<Rightarrow> 'f jb_tuning \<Rightarrow> 'f play_buffer" where
  "with_tuning target cfg = with_tuning_channels target cfg 1"

section \<open>Sequence numbers and depth\<close>

definition seq_next :: "nat \<Rightarrow> nat" where
  "seq_next s = (s + 1) mod 2 ^ 32"

definition seq_prev :: "nat \<Rightarrow> nat" where
  "seq_prev s = (s + (2 ^ 32 - 1)) mod 2 ^ 32"

definition pb_depth :: "'f play_buffer \<Rightarrow> nat" where
  "pb_depth b = length (pb_frames b)"

fun run_length :: "nat \<Rightarrow> nat list \<Rightarrow> nat" where
  "run_length want [] = 0"
| "run_length want (k # ks) = (if k = want then Suc (run_length (seq_next want) ks) else 0)"

definition first_key :: "'v btree \<Rightarrow> nat option" where
  "first_key m = (case m of [] \<Rightarrow> None | e # _ \<Rightarrow> Some (fst e))"

definition pb_contiguous :: "'f play_buffer \<Rightarrow> nat" where
  "pb_contiguous b =
     (case first_key (pb_frames b) of
        None \<Rightarrow> 0
      | Some first \<Rightarrow>
          (case pb_next b of
             Some n \<Rightarrow> if bt_lookup (pb_frames b) n = None then 0
                       else run_length n (bt_keys (bt_split_off n (pb_frames b)))
           | None \<Rightarrow> run_length first (bt_keys (bt_split_off first (pb_frames b)))))"

definition target_effective :: "'f play_buffer \<Rightarrow> nat" where
  "target_effective b =
     u32_clamp (min_target (pb_cfg b)) (max_target (pb_cfg b)) (u32_add (pb_target b) (pb_extra b))"

section \<open>Splicing two frames\<close>

text \<open>The normalised cross-correlation of the last \<open>x\<close> samples.\<close>

definition ncc_sums :: "'f f32_ops \<Rightarrow> 'f list \<Rightarrow> 'f list \<Rightarrow> nat list \<Rightarrow> 'f \<times> 'f \<times> 'f" where
  "ncc_sums ops a b is =
     fold (\<lambda>i (num, ea, eb).
             (f_add ops num (f_mul ops (a ! i) (b ! i)),
              f_add ops ea (f_mul ops (a ! i) (a ! i)),
              f_add ops eb (f_mul ops (b ! i) (b ! i))))
          is (f_lit ops 0 1, f_lit ops 0 1, f_lit ops 0 1)"

definition ncc_tail :: "'f f32_ops \<Rightarrow> 'f list \<Rightarrow> 'f list \<Rightarrow> nat \<Rightarrow> 'f" where
  "ncc_tail ops a b x =
     (let f = min (length a) (length b);
          s = f - x;
          (num, ea, eb) = ncc_sums ops a b [s..<f];
          den = f_sqrt ops (f_mul ops ea eb)
      in if f_le ops den (f_lit ops 1 1000000000000) then f_lit ops 1 1
         else f_clamp ops (f_lit ops (-1) 1) (f_lit ops 1 1) (f_div ops num den))"

definition fade_gains :: "'f f32_ops \<Rightarrow> nat \<Rightarrow> 'f \<Rightarrow> bool \<Rightarrow> nat \<Rightarrow> 'f \<times> 'f" where
  "fade_gains ops x p equal_gain k =
     (let one = f_lit ops 1 1;
          u = f_mul ops (f_lit ops 5 10)
                (f_sub ops one
                   (f_cos ops (f_div ops (f_mul ops (f_pi ops)
                      (f_add ops (f_of_nat ops k) (f_lit ops 5 10))) (f_of_nat ops x))))
      in if equal_gain then (f_sub ops one u, u)
         else (f_powf ops (f_sub ops one u) p, f_powf ops u p))"

definition splice_two :: "'f f32_ops \<Rightarrow> 'f jb_tuning \<Rightarrow> nat \<Rightarrow> 'f list \<Rightarrow> 'f list \<Rightarrow> 'f list" where
  "splice_two ops cfg chans a b =
     (let channels = max chans 1;
          f = length a div channels
      in if f = 0 \<or> length b \<noteq> length a then b
         else
           let x = min (xfade cfg) f;
               out = take ((f - x) * channels) a
           in if x = 0 then out
              else
                let ncc = ncc_tail ops a b (x * channels);
                    p = f_add ops (f_lit ops 5 10)
                          (f_mul ops (f_lit ops 5 10)
                             (f_clamp ops (f_lit ops 0 1) (f_lit ops 1 1) ncc));
                    equal_gain = f_le ops (f_sub ops (f_lit ops 1 1) (f_lit ops 1 1000000)) p
                in out @ concat (map (\<lambda>k.
                     let frame = f - x + k; (ga, gb) = fade_gains ops x p equal_gain k
                     in map (\<lambda>ch. let i = frame * channels + ch
                                  in f_add ops (f_mul ops ga (a ! i)) (f_mul ops gb (b ! i)))
                          [0..<channels]) [0..<x]))"

section \<open>Operations\<close>

definition pb_push :: "nat \<Rightarrow> 'f list \<Rightarrow> 'f play_buffer \<Rightarrow> 'f play_buffer" where
  "pb_push seq frame b =
     (if (case pb_next b of None \<Rightarrow> False | Some n \<Rightarrow> seq < n)
      then b\<lparr>pb_dropped := pb_dropped b + 1\<rparr>
      else
        let b1 = (if frame = [] then b else b\<lparr>pb_frame_len := length frame\<rparr>)
        in b1\<lparr>pb_frames := bt_insert seq frame (pb_frames b1)\<rparr>)"

definition conceal :: "'f f32_ops \<Rightarrow> 'f play_buffer \<Rightarrow> 'f list \<times> 'f play_buffer" where
  "conceal ops b =
     (let b1 = b\<lparr>pb_plc_run := pb_plc_run b + 1\<rparr>
      in if pb_plc_run b1 \<le> 5 \<and> pb_last_frame b1 \<noteq> []
         then let faded = map (\<lambda>s. f_mul ops s (f_lit ops 7 10)) (pb_last_frame b1)
              in (faded, b1\<lparr>pb_last_frame := faded, pb_plc_count := pb_plc_count b1 + 1\<rparr>)
         else (replicate (pb_frame_len b1) (f_lit ops 0 1),
               b1\<lparr>pb_silence_count := pb_silence_count b1 + 1\<rparr>))"

fun walk_back :: "'v btree \<Rightarrow> nat \<Rightarrow> nat \<Rightarrow> nat" where
  "walk_back m start 0 = start"
| "walk_back m start (Suc k) =
     (if bt_lookup m (seq_prev start) = None then start else walk_back m (seq_prev start) k)"

definition start_playback :: "'f play_buffer \<Rightarrow> 'f play_buffer" where
  "start_playback b =
     (case bt_last_key (pb_frames b) of
        None \<Rightarrow> b\<lparr>pb_next := first_key (pb_frames b)\<rparr>
      | Some last_seq \<Rightarrow>
          (if pb_next b \<noteq> None then b\<lparr>pb_next := first_key (pb_frames b)\<rparr>
           else
             let want = max (target_effective b) 1;
                 start = walk_back (pb_frames b) last_seq (want - 1);
                 stale = filter (\<lambda>k. k < start) (bt_keys (pb_frames b))
             in b\<lparr>pb_frames := fold bt_remove stale (pb_frames b),
                  pb_dropped := pb_dropped b + length stale,
                  pb_next := Some start\<rparr>))"

text \<open>The memory bound: the oldest frames go until at most \<open>max_frames\<close> are held.\<close>

function pb_trim :: "'f play_buffer \<Rightarrow> 'f play_buffer" where
  "pb_trim b =
     (if max (max_frames (pb_cfg b)) 1 < pb_depth b
      then
        let rest = (case first_key (pb_frames b) of
                      None \<Rightarrow> pb_frames b | Some oldest \<Rightarrow> bt_remove oldest (pb_frames b))
        in pb_trim (b\<lparr>pb_frames := rest, pb_dropped := pb_dropped b + 1, pb_next := first_key rest\<rparr>)
      else b)"
  by pat_completeness auto
termination
proof (relation "measure pb_depth", goal_cases)
  case (2 b rest)
  then obtain e m where m: "pb_frames b = e # m" by (cases "pb_frames b") (auto simp: pb_depth_def)
  have "length (bt_remove (fst e) (e # m)) \<le> length m" by (simp add: bt_remove_def)
  with 2 m show ?case by (simp add: pb_depth_def first_key_def)
qed simp

declare pb_trim.simps [simp del]

text \<open>Whether two frames may be merged without cancelling each other, and the merge itself.\<close>

definition splice_allowed :: "'f f32_ops \<Rightarrow> nat \<Rightarrow> 'f play_buffer \<Rightarrow> bool" where
  "splice_allowed ops seq b =
     (case (bt_lookup (pb_frames b) seq, bt_lookup (pb_frames b) (seq_next seq)) of
        (Some fa, Some fb) \<Rightarrow>
          (if 0 < xfade (pb_cfg b) \<and> length fa = length fb \<and> fa \<noteq> []
           then f_le ops (ncc_floor (pb_cfg b))
                  (ncc_tail ops fa fb (min (xfade (pb_cfg b) * pb_channels b) (length fa)))
           else True)
      | _ \<Rightarrow> True)"

definition merge_front :: "'f f32_ops \<Rightarrow> nat \<Rightarrow> 'f play_buffer \<Rightarrow> 'f list option \<times> 'f play_buffer" where
  "merge_front ops seq b =
     (case bt_lookup (pb_frames b) seq of
        None \<Rightarrow> (None, b)
      | Some fa \<Rightarrow>
          let m = bt_remove seq (pb_frames b)
          in case bt_lookup m (seq_next seq) of
               None \<Rightarrow> (None, b\<lparr>pb_frames := bt_insert seq fa m\<rparr>)
             | Some fb \<Rightarrow>
                 let out = splice_two ops (pb_cfg b) (pb_channels b) fa fb
                 in (Some out,
                     b\<lparr>pb_frames := bt_remove (seq_next seq) m,
                       pb_next := Some (seq_next (seq_next seq)),
                       pb_last_accel := pb_tick b,
                       pb_accel_events := pb_accel_events b + 1,
                       pb_accel_frames := pb_accel_frames b + 1,
                       pb_dropped := pb_dropped b + 1,
                       pb_popped := pb_popped b + 1,
                       pb_plc_run := 0,
                       pb_last_frame := out\<rparr>))"

definition try_accelerate :: "'f f32_ops \<Rightarrow> 'f play_buffer \<Rightarrow> 'f list option \<times> 'f play_buffer" where
  "try_accelerate ops b =
     (let d = pb_contiguous b;
          target = target_effective b;
          cfg = pb_cfg b;
          emergency = (u32_saturating_add target (hard_slack cfg) < d);
          over = (u32_saturating_add (u32_saturating_add target 1) (slack cfg) \<le> d)
      in if \<not> over \<and> \<not> emergency then (None, b)
         else if \<not> emergency \<and> pb_tick b - pb_last_accel b < accel_interval_ticks cfg then (None, b)
         else if d < 2 then (None, b)
         else case pb_next b of
           None \<Rightarrow> (None, b)
         | Some seq \<Rightarrow>
             (if \<not> emergency \<and> \<not> splice_allowed ops seq b \<and> pb_ncc_defer b < ncc_retry_ticks cfg
              then (None, b\<lparr>pb_ncc_defer := pb_ncc_defer b + 1,
                            pb_accel_deferred := pb_accel_deferred b + 1\<rparr>)
              else merge_front ops seq (b\<lparr>pb_ncc_defer := 0\<rparr>)))"

text \<open>
  One tick. The outer \<open>None\<close> is the panic of \<open>expect\<close>; the inner one is the pre-buffering
  before the first frame, during which the caller gets nothing.
\<close>

definition pb_tick_step :: "'f play_buffer \<Rightarrow> 'f play_buffer" where
  "pb_tick_step b =
     (let b1 = b\<lparr>pb_tick := pb_tick b + 1\<rparr>
      in if pb_next_decay b1 \<le> pb_tick b1
         then b1\<lparr>pb_next_decay := pb_tick b1 + extra_decay_ticks (pb_cfg b1),
                 pb_extra := pb_extra b1 - 1\<rparr>
         else b1)"

definition take_next :: "'f f32_ops \<Rightarrow> nat \<Rightarrow> 'f play_buffer \<Rightarrow> 'f list \<times> 'f play_buffer" where
  "take_next ops seq b =
     (case bt_lookup (pb_frames b) seq of
        Some frame \<Rightarrow>
          (frame, b\<lparr>pb_frames := bt_remove seq (pb_frames b), pb_next := Some (seq_next seq),
                    pb_plc_run := 0, pb_last_frame := frame, pb_popped := pb_popped b + 1\<rparr>)
      | None \<Rightarrow>
          conceal ops
            (b\<lparr>pb_underruns := pb_underruns b + 1, pb_prebuffering := True,
               pb_extra := min (u32_add (pb_extra b) (underrun_step (pb_cfg b)))
                             (extra_max (pb_cfg b)),
               pb_next_decay := pb_tick b + extra_decay_ticks (pb_cfg b)\<rparr>))"

definition deliver :: "'f f32_ops \<Rightarrow> 'f play_buffer \<Rightarrow> ('f list option \<times> 'f play_buffer) option" where
  "deliver ops b =
     (case try_accelerate ops (pb_trim b) of
        (Some out, b1) \<Rightarrow> Some (Some out, b1)
      | (None, b1) \<Rightarrow>
          (case pb_next b1 of
             None \<Rightarrow> None
           | Some seq \<Rightarrow> Some (apfst Some (take_next ops seq b1))))"

definition pb_pop :: "'f f32_ops \<Rightarrow> 'f play_buffer \<Rightarrow> ('f list option \<times> 'f play_buffer) option" where
  "pb_pop ops b =
     (let b1 = pb_tick_step b
      in if pb_prebuffering b1
         then if pb_depth b1 < target_effective b1
              then (case pb_next b1 of
                      None \<Rightarrow> Some (None, b1)
                    | Some _ \<Rightarrow> Some (apfst Some (conceal ops b1)))
              else deliver ops (start_playback (b1\<lparr>pb_prebuffering := False\<rparr>))
         else deliver ops b1)"

definition set_target_effective :: "nat \<Rightarrow> 'f play_buffer \<Rightarrow> 'f play_buffer" where
  "set_target_effective want b =
     (let baseline = max (want - pb_extra b) 1
      in b\<lparr>pb_target := u32_clamp (min_target (pb_cfg b)) (max_target (pb_cfg b)) baseline\<rparr>)"

text \<open>The quotient is a real number; its ceiling saturates to the range of \<open>i64\<close>.\<close>

definition i64_saturate :: "int \<Rightarrow> int" where
  "i64_saturate z = max (- (2 ^ 63)) (min z (2 ^ 63 - 1))"

definition update_target :: "real \<Rightarrow> real \<Rightarrow> 'f play_buffer \<Rightarrow> 'f play_buffer" where
  "update_target jitter_p95_ms frame_ms b =
     (if frame_ms \<le> 0 then b
      else
        let t = i64_saturate \<lceil>jitter_p95_ms / frame_ms\<rceil> + 1
        in b\<lparr>pb_target := u32_clamp (min_target (pb_cfg b)) (max_target (pb_cfg b))
                           (nat (max t 0) mod 2 ^ 32)\<rparr>)"

section \<open>The invariant\<close>

definition tuning_ok :: "'f jb_tuning \<Rightarrow> bool" where
  "tuning_ok c \<longleftrightarrow> 1 \<le> min_target c \<and> min_target c \<le> max_target c \<and>
     max_target c + hard_slack c + 1 \<le> max_frames c \<and> max_frames c < 2 ^ 32 \<and>
     max_target c + extra_max c < 2 ^ 32 \<and> extra_max c + underrun_step c < 2 ^ 32 \<and>
     1 \<le> extra_decay_ticks c"

definition pb_ok :: "'f play_buffer \<Rightarrow> bool" where
  "pb_ok b \<longleftrightarrow> tuning_ok (pb_cfg b) \<and> bt_ok (pb_frames b) \<and>
     (\<forall>k \<in> set (bt_keys (pb_frames b)). k < 2 ^ 32) \<and>
     (\<forall>n. pb_next b = Some n \<longrightarrow> n < 2 ^ 32 \<and> (\<forall>k \<in> set (bt_keys (pb_frames b)). n \<le> k)) \<and>
     (pb_next b = None \<longrightarrow> pb_prebuffering b) \<and>
     1 \<le> pb_target b \<and> pb_target b \<le> max_target (pb_cfg b) \<and>
     pb_extra b \<le> extra_max (pb_cfg b) \<and> pb_last_accel b \<le> pb_tick b"

lemma u32_clamp_eq: "lo \<le> hi \<Longrightarrow> u32_clamp lo hi x = max lo (min hi x)"
  by (auto simp: u32_clamp_def)

lemma u32_clamp_bounds: "lo \<le> hi \<Longrightarrow> lo \<le> u32_clamp lo hi x \<and> u32_clamp lo hi x \<le> hi"
  by (auto simp: u32_clamp_def)

lemma u32_add_small [simp]: "a + b < 2 ^ 32 \<Longrightarrow> u32_add a b = a + b"
  by (simp add: u32_add_def)

lemma target_effective_eq:
  assumes "pb_ok b"
  shows "target_effective b =
    max (min_target (pb_cfg b)) (min (max_target (pb_cfg b)) (pb_target b + pb_extra b))"
proof -
  have "pb_target b + pb_extra b < 2 ^ 32" and "min_target (pb_cfg b) \<le> max_target (pb_cfg b)"
    using assms by (auto simp: pb_ok_def tuning_ok_def)
  then show ?thesis unfolding target_effective_def by (simp add: u32_clamp_eq)
qed

lemma target_effective_bounds:
  assumes "pb_ok b"
  shows "1 \<le> target_effective b" "min_target (pb_cfg b) \<le> target_effective b"
    "target_effective b \<le> max_target (pb_cfg b)"
  using assms by (auto simp: target_effective_eq pb_ok_def tuning_ok_def)

lemma target_effective_cong:
  "pb_cfg b' = pb_cfg b \<Longrightarrow> pb_target b' = pb_target b \<Longrightarrow> pb_extra b' = pb_extra b \<Longrightarrow>
     target_effective b' = target_effective b"
  by (simp add: target_effective_def)

section \<open>Contiguous depth\<close>

lemma seq_next_eq: "s + 1 < 2 ^ 32 \<Longrightarrow> seq_next s = s + 1"
  by (simp add: seq_next_def)

lemma seq_next_less: "seq_next s < 2 ^ 32"
  by (simp add: seq_next_def)

lemma run_length_spec:
  assumes "sorted_wrt (<) ks" and "\<forall>k \<in> set ks. want \<le> k \<and> k < 2 ^ 32"
  shows "(\<forall>i < run_length want ks. want + i \<in> set ks) \<and> want + run_length want ks \<notin> set ks"
  using assms
proof (induction ks arbitrary: want)
  case (Cons k ks)
  show ?case
  proof (cases "k = want")
    case False
    with Cons.prems have "want < k" by auto
    moreover from this Cons.prems(1) have "\<forall>j \<in> set ks. want < j" by auto
    ultimately show ?thesis by auto
  next
    case True
    show ?thesis
    proof (cases "want + 1 < 2 ^ 32")
      case False
      with Cons.prems True have "\<forall>j \<in> set ks. want < j \<and> j < want + 1" by fastforce
      then have "ks = []" by (cases ks) auto
      with True show ?thesis by simp
    next
      case small: True
      have "\<forall>j \<in> set ks. want + 1 \<le> j \<and> j < 2 ^ 32" using Cons.prems True by auto
      with Cons.IH [of "want + 1"] Cons.prems(1)
      have IH: "\<forall>i < run_length (want + 1) ks. want + 1 + i \<in> set ks"
        "want + 1 + run_length (want + 1) ks \<notin> set ks" by auto
      have "want + i \<in> set (k # ks)" if "i < Suc (run_length (want + 1) ks)" for i
        using that IH(1) True by (cases i) auto
      with IH(2) True small show ?thesis by (auto simp: seq_next_eq)
    qed
  qed
qed simp

lemma run_length_le: "run_length want ks \<le> length ks"
  by (induction want ks rule: run_length.induct) auto

lemma bt_sorted_split: "bt_ok m \<Longrightarrow> sorted_wrt (<) (filter P (bt_keys m))"
  by (simp add: bt_ok_def sorted_wrt_filter)

lemma contiguous_spec:
  assumes "pb_ok b" and "pb_next b = Some n"
  shows "(\<forall>i < pb_contiguous b. n + i \<in> set (bt_keys (pb_frames b))) \<and>
    n + pb_contiguous b \<notin> set (bt_keys (pb_frames b))"
proof (cases "pb_frames b")
  case Nil
  then show ?thesis by (simp add: pb_contiguous_def first_key_def)
next
  case (Cons e m)
  show ?thesis
  proof (cases "bt_lookup (pb_frames b) n = None")
    case True
    then have "pb_contiguous b = 0" by (simp add: pb_contiguous_def assms(2) first_key_def Cons)
    moreover have "n \<notin> set (bt_keys (pb_frames b))" using True bt_lookup_None by blast
    ultimately show ?thesis by simp
  next
    case False
    then have c: "pb_contiguous b = run_length n (filter (\<lambda>k. n \<le> k) (bt_keys (pb_frames b)))"
      using Cons by (auto simp: pb_contiguous_def assms(2) first_key_def simp del: bt_keys_simps)
    let ?ks = "filter (\<lambda>k. n \<le> k) (bt_keys (pb_frames b))"
    have "sorted_wrt (<) ?ks" and "\<forall>k \<in> set ?ks. n \<le> k \<and> k < 2 ^ 32"
      using assms(1) by (simp_all add: pb_ok_def bt_sorted_split)
    from run_length_spec [OF this] show ?thesis unfolding c by (simp only: set_filter) simp
  qed
qed

lemma run_length_unique:
  fixes S :: "nat set"
  assumes "\<forall>i < c. n + i \<in> S" "n + c \<notin> S" "\<forall>i < d. n + i \<in> S" "n + d \<notin> S"
  shows "c = d"
  using assms by (metis linorder_neqE_nat)

lemma contiguous_eqI:
  assumes "pb_ok b" and "pb_next b = Some n"
    and "\<forall>i < c. n + i \<in> set (bt_keys (pb_frames b))" and "n + c \<notin> set (bt_keys (pb_frames b))"
  shows "pb_contiguous b = c"
  using run_length_unique [of "pb_contiguous b" n "set (bt_keys (pb_frames b))" c]
    contiguous_spec [OF assms(1,2)] assms(3,4) by blast

section \<open>The steps of a tick\<close>

lemma tick_step_fields [simp]:
  "pb_frames (pb_tick_step b) = pb_frames b" "pb_next (pb_tick_step b) = pb_next b"
  "pb_prebuffering (pb_tick_step b) = pb_prebuffering b" "pb_cfg (pb_tick_step b) = pb_cfg b"
  "pb_target (pb_tick_step b) = pb_target b" "pb_tick (pb_tick_step b) = pb_tick b + 1"
  "pb_last_accel (pb_tick_step b) = pb_last_accel b"
  "pb_accel_events (pb_tick_step b) = pb_accel_events b" "pb_popped (pb_tick_step b) = pb_popped b"
  "pb_underruns (pb_tick_step b) = pb_underruns b" "pb_ncc_defer (pb_tick_step b) = pb_ncc_defer b"
  "pb_extra (pb_tick_step b) \<le> pb_extra b" "pb_last_frame (pb_tick_step b) = pb_last_frame b"
  "pb_plc_run (pb_tick_step b) = pb_plc_run b" "pb_channels (pb_tick_step b) = pb_channels b"
  by (auto simp: pb_tick_step_def Let_def)

lemma tick_step_ok: "pb_ok b \<Longrightarrow> pb_ok (pb_tick_step b)"
  by (auto simp: pb_ok_def intro: le_trans [OF tick_step_fields(12)])

lemma first_key_simps [simp]: "first_key [] = None" "first_key (e # m) = Some (fst e)"
  by (simp_all add: first_key_def)

lemma first_key_least: "bt_ok m \<Longrightarrow> first_key m = Some n \<Longrightarrow>
    n \<in> set (bt_keys m) \<and> (\<forall>k \<in> set (bt_keys m). n \<le> k)"
  by (cases m) (auto intro: less_imp_le)

lemma first_key_None [simp]: "first_key m = None \<longleftrightarrow> m = []"
  by (cases m) simp_all

lemma bt_remove_first: "bt_ok (e # m) \<Longrightarrow> bt_remove (fst e) (e # m) = m"
  by (auto simp: bt_remove_def filter_id_conv set_bt_keys)

text \<open>Trimming drops the oldest entries and leaves every other field alone.\<close>

lemma pb_trim_ok:
  assumes "pb_ok b" and "pb_next b \<noteq> None"
  shows "pb_ok (pb_trim b) \<and> pb_next (pb_trim b) \<noteq> None \<and>
    pb_depth (pb_trim b) \<le> max_frames (pb_cfg b) \<and>
    (\<exists>k n d. pb_trim b = b\<lparr>pb_frames := drop k (pb_frames b), pb_next := n, pb_dropped := d\<rparr> \<and>
       (k = 0 \<longrightarrow> n = pb_next b))"
  using assms
proof (induction b rule: pb_trim.induct)
  case (1 b)
  have top: "max (max_frames (pb_cfg b)) 1 = max_frames (pb_cfg b)" "1 < max_frames (pb_cfg b)"
    using 1(2) by (auto simp: pb_ok_def tuning_ok_def)
  show ?case
  proof (cases "max_frames (pb_cfg b) < pb_depth b")
    case False
    then have "pb_trim b = b" by (subst pb_trim.simps) (simp add: top)
    moreover have "b = b\<lparr>pb_frames := drop 0 (pb_frames b), pb_next := pb_next b,
      pb_dropped := pb_dropped b\<rparr>" by simp
    ultimately show ?thesis using 1(2,3) False by (metis not_less)
  next
    case True
    have "\<exists>e m. pb_frames b = e # m \<and> m \<noteq> []"
    proof (cases "pb_frames b")
      case (Cons e m)
      then have "m \<noteq> []" using True top(2) by (cases m) (simp_all add: pb_depth_def)
      with Cons show ?thesis by blast
    qed (use True in \<open>simp add: pb_depth_def\<close>)
    then obtain e m where m: "pb_frames b = e # m" "m \<noteq> []" by blast
    let ?b = "b\<lparr>pb_frames := m, pb_dropped := pb_dropped b + 1, pb_next := first_key m\<rparr>"
    from 1(2) have ok: "bt_ok (e # m)" by (simp add: pb_ok_def m)
    have trim: "pb_trim b = pb_trim ?b"
    proof -
      have "max (max_frames (pb_cfg b)) 1 < pb_depth b" using top(1) True by simp
      then show ?thesis by (subst pb_trim.simps) (simp add: m bt_remove_first [OF ok] Let_def)
    qed
    have ok': "pb_ok ?b"
      using 1(2) m first_key_least [of m] ok by (auto simp: pb_ok_def)
    have nn: "pb_next ?b \<noteq> None" using m by simp
    have rest: "(case first_key (pb_frames b) of None \<Rightarrow> pb_frames b
      | Some oldest \<Rightarrow> bt_remove oldest (pb_frames b)) = m"
      by (simp add: m bt_remove_first [OF ok])
    have "max (max_frames (pb_cfg b)) 1 < pb_depth b" using top(1) True by simp
    from 1(1) [OF this refl, unfolded rest] ok' nn
    have IH: "pb_ok (pb_trim ?b) \<and> pb_next (pb_trim ?b) \<noteq> None \<and>
      pb_depth (pb_trim ?b) \<le> max_frames (pb_cfg ?b) \<and>
      (\<exists>k n d. pb_trim ?b = ?b\<lparr>pb_frames := drop k (pb_frames ?b), pb_next := n, pb_dropped := d\<rparr> \<and>
         (k = 0 \<longrightarrow> n = pb_next ?b))"
      by blast
    then obtain k n d where
      "pb_trim ?b = ?b\<lparr>pb_frames := drop k (pb_frames ?b), pb_next := n, pb_dropped := d\<rparr>" by blast
    then have "pb_trim b = b\<lparr>pb_frames := drop (Suc k) (pb_frames b), pb_next := n, pb_dropped := d\<rparr>"
      by (simp add: trim m)
    then have "\<exists>k n d. pb_trim b = b\<lparr>pb_frames := drop k (pb_frames b), pb_next := n, pb_dropped := d\<rparr> \<and>
       (k = 0 \<longrightarrow> n = pb_next b)" by (metis nat.distinct(1))
    with IH show ?thesis by (simp add: trim)
  qed
qed

lemma pb_trim_fields:
  assumes "pb_ok b" and "pb_next b \<noteq> None"
  shows "pb_cfg (pb_trim b) = pb_cfg b" "pb_target (pb_trim b) = pb_target b"
    "pb_extra (pb_trim b) = pb_extra b" "pb_tick (pb_trim b) = pb_tick b"
    "pb_last_accel (pb_trim b) = pb_last_accel b" "pb_accel_events (pb_trim b) = pb_accel_events b"
    "pb_popped (pb_trim b) = pb_popped b" "pb_underruns (pb_trim b) = pb_underruns b"
    "pb_prebuffering (pb_trim b) = pb_prebuffering b" "pb_ncc_defer (pb_trim b) = pb_ncc_defer b"
    "\<exists>k. pb_frames (pb_trim b) = drop k (pb_frames b)"
  using pb_trim_ok [OF assms] by auto

lemma pb_trim_id: "pb_ok b \<Longrightarrow> pb_depth b \<le> max_frames (pb_cfg b) \<Longrightarrow> pb_trim b = b"
  by (subst pb_trim.simps) (auto simp: pb_ok_def tuning_ok_def)

lemma walk_back_mem: "s \<in> set (bt_keys m) \<Longrightarrow> walk_back m s k \<in> set (bt_keys m)"
  by (induction m s k rule: walk_back.induct) (simp_all add: bt_lookup_None)

lemma fold_remove: "fold bt_remove ks m = filter (\<lambda>e. fst e \<notin> set ks) m"
  by (induction ks arbitrary: m) (auto simp: bt_remove_def intro: filter_cong)

lemma remove_stale:
  "fold bt_remove (filter (\<lambda>k. k < s) (bt_keys m)) m = bt_split_off s m"
  unfolding fold_remove bt_split_off_def by (rule filter_cong) (auto simp: set_bt_keys not_less)

lemma last_key_Some: "m \<noteq> [] \<Longrightarrow> \<exists>k. bt_last_key m = Some k"
  by (simp add: bt_last_key_def)

text \<open>Starting or resuming: the queue head becomes a frame that is there.\<close>

lemma start_playback_ok:
  assumes "pb_ok b" and "pb_frames b \<noteq> []"
  defines "b' \<equiv> start_playback (b\<lparr>pb_prebuffering := False\<rparr>)"
  shows "\<exists>s d. b' = b\<lparr>pb_prebuffering := False, pb_frames := bt_split_off s (pb_frames b),
      pb_dropped := d, pb_next := Some s\<rparr> \<and> s \<in> set (bt_keys (pb_frames b)) \<and>
      (pb_next b \<noteq> None \<longrightarrow> first_key (pb_frames b) = Some s)" and "pb_ok b'"
proof -
  obtain l where l: "bt_last_key (pb_frames b) = Some l" using last_key_Some [OF assms(2)] by blast
  obtain f where f: "first_key (pb_frames b) = Some f"
    using assms(2) by (metis first_key_None not_Some_eq)
  have ok: "bt_ok (pb_frames b)" using assms(1) by (simp add: pb_ok_def)
  have all: "bt_split_off f (pb_frames b) = pb_frames b"
    using first_key_least [OF ok f] by (auto simp: bt_split_off_def filter_id_conv set_bt_keys)
  let ?s = "walk_back (pb_frames b) l
    (max (target_effective (b\<lparr>pb_prebuffering := False\<rparr>)) 1 - 1)"
  have "?s \<in> set (bt_keys (pb_frames b))" by (rule walk_back_mem [OF bt_last_mem [OF l]])
  have *: "\<exists>s d. b' = b\<lparr>pb_prebuffering := False, pb_frames := bt_split_off s (pb_frames b),
      pb_dropped := d, pb_next := Some s\<rparr> \<and> s \<in> set (bt_keys (pb_frames b)) \<and>
      (pb_next b \<noteq> None \<longrightarrow> first_key (pb_frames b) = Some s)"
  proof (cases "pb_next b = None")
    case True
    have "b' = b\<lparr>pb_prebuffering := False, pb_frames := bt_split_off ?s (pb_frames b),
      pb_dropped := pb_dropped b + length (filter (\<lambda>k. k < ?s) (bt_keys (pb_frames b))),
      pb_next := Some ?s\<rparr>"
      using True by (simp add: b'_def start_playback_def l Let_def remove_stale)
    with \<open>?s \<in> _\<close> True show ?thesis by blast
  next
    case False
    have "b' = b\<lparr>pb_prebuffering := False, pb_frames := bt_split_off f (pb_frames b),
      pb_dropped := pb_dropped b, pb_next := Some f\<rparr>"
      using False f by (simp add: b'_def start_playback_def l all)
    with f first_key_least [OF ok f] show ?thesis by blast
  qed
  then show "\<exists>s d. b' = b\<lparr>pb_prebuffering := False, pb_frames := bt_split_off s (pb_frames b),
      pb_dropped := d, pb_next := Some s\<rparr> \<and> s \<in> set (bt_keys (pb_frames b)) \<and>
      (pb_next b \<noteq> None \<longrightarrow> first_key (pb_frames b) = Some s)" .
  from * obtain s d where "b' = b\<lparr>pb_prebuffering := False, pb_frames := bt_split_off s (pb_frames b),
      pb_dropped := d, pb_next := Some s\<rparr>" "s \<in> set (bt_keys (pb_frames b))" by blast
  with assms(1) show "pb_ok b'" by (auto simp: pb_ok_def)
qed

section \<open>Accelerating\<close>

definition accel_due :: "'f play_buffer \<Rightarrow> bool" where
  "accel_due b \<longleftrightarrow>
     target_effective b + hard_slack (pb_cfg b) < pb_contiguous b \<or>
     (u32_saturating_add (target_effective b + 1) (slack (pb_cfg b)) \<le> pb_contiguous b \<and>
      accel_interval_ticks (pb_cfg b) \<le> pb_tick b - pb_last_accel b)"

lemma target_slack_small:
  assumes "pb_ok b"
  shows "u32_saturating_add (target_effective b) (hard_slack (pb_cfg b)) =
      target_effective b + hard_slack (pb_cfg b)"
    "u32_saturating_add (target_effective b) 1 = target_effective b + 1"
  using target_effective_bounds [OF assms] assms
  by (auto simp: u32_saturating_add_def pb_ok_def tuning_ok_def)

text \<open>What an acceleration does, and what a refused one changes.\<close>

lemma merge_front_eq:
  assumes "bt_lookup (pb_frames b) n = Some fa" and "bt_lookup (pb_frames b) (n + 1) = Some fb"
    and "n + 1 < 2 ^ 32"
  shows "merge_front ops n b =
    (let out = splice_two ops (pb_cfg b) (pb_channels b) fa fb
     in (Some out,
         b\<lparr>pb_frames := bt_remove (n + 1) (bt_remove n (pb_frames b)),
           pb_next := Some (seq_next (n + 1)), pb_last_accel := pb_tick b,
           pb_accel_events := pb_accel_events b + 1, pb_accel_frames := pb_accel_frames b + 1,
           pb_dropped := pb_dropped b + 1, pb_popped := pb_popped b + 1, pb_plc_run := 0,
           pb_last_frame := out\<rparr>))"
proof -
  have "bt_lookup (bt_remove n (pb_frames b)) (n + 1) = Some fb" using assms(2) by simp
  then show ?thesis
    unfolding merge_front_def assms(1) option.case Let_def seq_next_eq [OF assms(3)] by simp
qed

text \<open>A refused acceleration changes two counters; an accepted one merges the two front frames.\<close>

lemma try_accelerate_refused:
  assumes "pb_ok b" and "\<not> (accel_due b \<and> 2 \<le> pb_contiguous b)"
  shows "try_accelerate ops b = (None, b)"
  using assms(2)
  unfolding try_accelerate_def accel_due_def
  by (simp only: Let_def target_slack_small [OF assms(1)] not_less de_Morgan_disj de_Morgan_conj
      not_le split: if_split) auto

lemma front_frames:
  assumes "pb_ok b" and "pb_next b = Some n" and "i < pb_contiguous b"
  shows "\<exists>fa. bt_lookup (pb_frames b) (n + i) = Some fa" and "n + i < 2 ^ 32"
proof -
  have mem: "n + i \<in> set (bt_keys (pb_frames b))" using contiguous_spec [OF assms(1,2)] assms(3) by blast
  then show "n + i < 2 ^ 32" using assms(1) by (simp add: pb_ok_def)
  from mem have "bt_lookup (pb_frames b) (n + i) \<noteq> None" by (simp add: bt_lookup_None)
  then show "\<exists>fa. bt_lookup (pb_frames b) (n + i) = Some fa" by simp
qed

lemma try_accelerate_due:
  assumes "pb_ok b" and "pb_next b = Some n" and "accel_due b" and "2 \<le> pb_contiguous b"
  shows "try_accelerate ops b =
     (if \<not> target_effective b + hard_slack (pb_cfg b) < pb_contiguous b \<and>
         \<not> splice_allowed ops n b \<and> pb_ncc_defer b < ncc_retry_ticks (pb_cfg b)
      then (None, b\<lparr>pb_ncc_defer := pb_ncc_defer b + 1, pb_accel_deferred := pb_accel_deferred b + 1\<rparr>)
      else merge_front ops n (b\<lparr>pb_ncc_defer := 0\<rparr>))"
proof -
  let ?E = "target_effective b + hard_slack (pb_cfg b) < pb_contiguous b"
  have g: "(\<not> u32_saturating_add (target_effective b + 1) (slack (pb_cfg b)) \<le> pb_contiguous b \<and> \<not> ?E) = False"
    "(\<not> ?E \<and> pb_tick b - pb_last_accel b < accel_interval_ticks (pb_cfg b)) = False"
    "(pb_contiguous b < 2) = False"
    using assms(3,4) by (auto simp: accel_due_def)
  show ?thesis
    unfolding try_accelerate_def Let_def target_slack_small [OF assms(1)] g if_False assms(2)
      option.case by (rule refl)
qed

lemma try_accelerate_cases:
  assumes "pb_ok b" and "pb_next b = Some n"
  obtains (refused) d e where "try_accelerate ops b = (None, b\<lparr>pb_ncc_defer := d, pb_accel_deferred := e\<rparr>)"
  | (merged) fa fb where "accel_due b" "2 \<le> pb_contiguous b" "n + 1 < 2 ^ 32"
      "bt_lookup (pb_frames b) n = Some fa" "bt_lookup (pb_frames b) (n + 1) = Some fb"
      "try_accelerate ops b = merge_front ops n (b\<lparr>pb_ncc_defer := 0\<rparr>)"
proof (cases "accel_due b \<and> 2 \<le> pb_contiguous b")
  case False
  then have "try_accelerate ops b = (None, b\<lparr>pb_ncc_defer := pb_ncc_defer b,
    pb_accel_deferred := pb_accel_deferred b\<rparr>)"
    by (simp add: try_accelerate_refused [OF assms(1)])
  then show ?thesis by (rule refused)
next
  case True
  then have *: "0 < pb_contiguous b" "1 < pb_contiguous b" by simp_all
  note f = front_frames [OF assms *(1)] front_frames [OF assms *(2)]
  from f obtain fa fb where fab: "bt_lookup (pb_frames b) n = Some fa"
    "bt_lookup (pb_frames b) (n + 1) = Some fb" by auto
  show ?thesis
  proof (cases "try_accelerate ops b = merge_front ops n (b\<lparr>pb_ncc_defer := 0\<rparr>)")
    case merges: True
    from True have "accel_due b" "2 \<le> pb_contiguous b" by simp_all
    from merged [OF this f(4) fab merges] show ?thesis .
  next
    case False
    with try_accelerate_due [OF assms] True
    have "try_accelerate ops b = (None, b\<lparr>pb_ncc_defer := pb_ncc_defer b + 1,
      pb_accel_deferred := pb_accel_deferred b + 1\<rparr>)" by metis
    then show ?thesis by (rule refused)
  qed
qed

section \<open>The cases of one tick\<close>

text \<open>Whether a tick only holds the output, and the buffer from which it delivers otherwise.\<close>

definition pb_holds :: "'f play_buffer \<Rightarrow> bool" where
  "pb_holds b \<longleftrightarrow> pb_prebuffering b \<and> pb_depth b < target_effective (pb_tick_step b)"

definition pb_front :: "'f play_buffer \<Rightarrow> 'f play_buffer" where
  "pb_front b =
     pb_trim (if pb_prebuffering b
              then start_playback ((pb_tick_step b)\<lparr>pb_prebuffering := False\<rparr>)
              else pb_tick_step b)"

lemma pb_pop_holds: "pb_holds b \<Longrightarrow> pb_pop ops b =
    (case pb_next b of None \<Rightarrow> Some (None, pb_tick_step b)
     | Some _ \<Rightarrow> Some (apfst Some (conceal ops (pb_tick_step b))))"
  by (simp add: pb_holds_def pb_pop_def Let_def pb_depth_def)

lemma pb_pop_front: "\<not> pb_holds b \<Longrightarrow> pb_pop ops b =
    (case try_accelerate ops (pb_front b) of
        (Some out, b1) \<Rightarrow> Some (Some out, b1)
      | (None, b1) \<Rightarrow>
          (case pb_next b1 of
             None \<Rightarrow> None
           | Some seq \<Rightarrow> Some (apfst Some (take_next ops seq b1))))"
  by (auto simp: pb_holds_def pb_pop_def Let_def pb_depth_def deliver_def pb_front_def)

lemma pb_front_ok:
  assumes "pb_ok b" and "\<not> pb_holds b"
  shows "pb_ok (pb_front b)" "\<exists>n. pb_next (pb_front b) = Some n"
    "pb_depth (pb_front b) \<le> max_frames (pb_cfg b)" "\<not> pb_prebuffering (pb_front b)"
    "pb_cfg (pb_front b) = pb_cfg b" "pb_target (pb_front b) = pb_target b"
    "pb_extra (pb_front b) = pb_extra (pb_tick_step b)" "pb_tick (pb_front b) = pb_tick b + 1"
    "pb_last_accel (pb_front b) = pb_last_accel b" "pb_accel_events (pb_front b) = pb_accel_events b"
    "pb_popped (pb_front b) = pb_popped b" "pb_underruns (pb_front b) = pb_underruns b"
    "pb_ncc_defer (pb_front b) = pb_ncc_defer b"
    "set (pb_frames (pb_front b)) \<subseteq> set (pb_frames b)"
proof -
  let ?t = "pb_tick_step b"
  let ?r = "if pb_prebuffering b then start_playback (?t\<lparr>pb_prebuffering := False\<rparr>) else ?t"
  have t: "pb_ok ?t" by (rule tick_step_ok [OF assms(1)])
  have r: "pb_ok ?r \<and> pb_next ?r \<noteq> None \<and> \<not> pb_prebuffering ?r \<and> pb_cfg ?r = pb_cfg b \<and>
    pb_target ?r = pb_target b \<and> pb_extra ?r = pb_extra ?t \<and> pb_tick ?r = pb_tick b + 1 \<and>
    pb_last_accel ?r = pb_last_accel b \<and> pb_accel_events ?r = pb_accel_events b \<and>
    pb_popped ?r = pb_popped b \<and> pb_underruns ?r = pb_underruns b \<and>
    pb_ncc_defer ?r = pb_ncc_defer b \<and> set (pb_frames ?r) \<subseteq> set (pb_frames b)"
  proof (cases "pb_prebuffering b")
    case False
    with assms(1) t show ?thesis by (auto simp: pb_ok_def)
  next
    case True
    with assms(2) target_effective_bounds(1) [OF t] have ne: "pb_frames ?t \<noteq> []"
      by (auto simp: pb_holds_def pb_depth_def)
    obtain s d where "start_playback (?t\<lparr>pb_prebuffering := False\<rparr>) =
      ?t\<lparr>pb_prebuffering := False, pb_frames := bt_split_off s (pb_frames ?t),
         pb_dropped := d, pb_next := Some s\<rparr>"
      using start_playback_ok(1) [OF t ne] by blast
    then show ?thesis using start_playback_ok(2) [OF t ne] True
      by (simp add: bt_set_sub)
  qed
  then have r': "pb_ok ?r" "pb_next ?r \<noteq> None" by simp_all
  have f: "pb_front b = pb_trim ?r" by (simp add: pb_front_def)
  note o = pb_trim_ok [OF r'] and g = pb_trim_fields [OF r']
  show "pb_ok (pb_front b)" "\<exists>n. pb_next (pb_front b) = Some n" using o by (simp_all add: f)
  show "pb_depth (pb_front b) \<le> max_frames (pb_cfg b)" using o r by (simp add: f)
  show "\<not> pb_prebuffering (pb_front b)" "pb_cfg (pb_front b) = pb_cfg b"
    "pb_target (pb_front b) = pb_target b" "pb_extra (pb_front b) = pb_extra (pb_tick_step b)"
    "pb_tick (pb_front b) = pb_tick b + 1" "pb_last_accel (pb_front b) = pb_last_accel b"
    "pb_accel_events (pb_front b) = pb_accel_events b" "pb_popped (pb_front b) = pb_popped b"
    "pb_underruns (pb_front b) = pb_underruns b" "pb_ncc_defer (pb_front b) = pb_ncc_defer b"
    using r by (simp_all only: f g simp_thms)
  obtain k where "pb_frames (pb_front b) = drop k (pb_frames ?r)" using g(11) f by auto
  then show "set (pb_frames (pb_front b)) \<subseteq> set (pb_frames b)" using r by (metis order_trans set_drop_subset)
qed

text \<open>Every tick is one of five: waiting, holding, merging, playing or an underrun.\<close>

lemma pb_pop_cases:
  assumes "pb_ok b"
  obtains (waits) "pb_holds b" "pb_next b = None" "pb_pop ops b = Some (None, pb_tick_step b)"
  | (conceals) "pb_holds b" "pb_next b \<noteq> None"
      "pb_pop ops b = Some (apfst Some (conceal ops (pb_tick_step b)))"
  | (merges) n fa fb where "\<not> pb_holds b" "pb_next (pb_front b) = Some n" "n + 1 < 2 ^ 32"
      "accel_due (pb_front b)" "2 \<le> pb_contiguous (pb_front b)"
      "bt_lookup (pb_frames (pb_front b)) n = Some fa"
      "bt_lookup (pb_frames (pb_front b)) (n + 1) = Some fb"
      "pb_pop ops b = Some (merge_front ops n ((pb_front b)\<lparr>pb_ncc_defer := 0\<rparr>))"
  | (plays) n fa d e where "\<not> pb_holds b" "pb_next (pb_front b) = Some n"
      "bt_lookup (pb_frames (pb_front b)) n = Some fa"
      "pb_pop ops b = Some (apfst Some
         (take_next ops n ((pb_front b)\<lparr>pb_ncc_defer := d, pb_accel_deferred := e\<rparr>)))"
  | (underrun) n d e where "\<not> pb_holds b" "pb_next (pb_front b) = Some n"
      "bt_lookup (pb_frames (pb_front b)) n = None"
      "pb_pop ops b = Some (apfst Some
         (take_next ops n ((pb_front b)\<lparr>pb_ncc_defer := d, pb_accel_deferred := e\<rparr>)))"
proof (cases "pb_holds b")
  case True
  from pb_pop_holds [OF this, of ops] show ?thesis
    by (cases "pb_next b") (auto intro: waits conceals True)
next
  case False
  obtain n where n: "pb_next (pb_front b) = Some n" using pb_front_ok(2) [OF assms False] by blast
  note pop = pb_pop_front [OF False, of ops]
  show ?thesis
  proof (rule try_accelerate_cases [OF pb_front_ok(1) [OF assms False] n, of ops])
    fix d e
    let ?f = "(pb_front b)\<lparr>pb_ncc_defer := d, pb_accel_deferred := e\<rparr>"
    assume "try_accelerate ops (pb_front b) = (None, ?f)"
    then have *: "pb_pop ops b = Some (apfst Some (take_next ops n ?f))" using n by (simp add: pop)
    show thesis
    proof (cases "bt_lookup (pb_frames (pb_front b)) n")
      case None
      from underrun [OF False n None *] show ?thesis .
    next
      case (Some fa)
      from plays [OF False n Some *] show ?thesis .
    qed
  next
    fix fa fb
    assume m: "accel_due (pb_front b)" "2 \<le> pb_contiguous (pb_front b)" "n + 1 < 2 ^ 32"
      "bt_lookup (pb_frames (pb_front b)) n = Some fa"
      "bt_lookup (pb_frames (pb_front b)) (n + 1) = Some fb"
      "try_accelerate ops (pb_front b) = merge_front ops n ((pb_front b)\<lparr>pb_ncc_defer := 0\<rparr>)"
    have "pb_pop ops b = Some (merge_front ops n ((pb_front b)\<lparr>pb_ncc_defer := 0\<rparr>))"
      unfolding pop m(6) by (subst (1 2) merge_front_eq [of _ n fa fb]) (use m in \<open>simp_all add: Let_def\<close>)
    from merges [OF False n m(3,1,2,4,5) this] show thesis .
  qed
qed

lemma pb_trim_next:
  assumes "pb_ok b" and "pb_next b \<noteq> None"
  shows "pb_next (pb_trim b) = pb_next b \<or>
    (\<exists>n \<in> set (bt_keys (pb_frames b)). pb_next (pb_trim b) = Some n)"
  using assms
proof (induction b rule: pb_trim.induct)
  case (1 b)
  show ?case
  proof (cases "max (max_frames (pb_cfg b)) 1 < pb_depth b")
    case False
    then have "pb_trim b = b" by (subst pb_trim.simps) (rule if_not_P)
    then show ?thesis by simp
  next
    case True
    then obtain e m where m: "pb_frames b = e # m" by (cases "pb_frames b") (auto simp: pb_depth_def)
    with True have "m \<noteq> []" by (cases m) (simp_all add: pb_depth_def)
    from 1(2) have ok: "bt_ok (e # m)" by (simp add: pb_ok_def m)
    have rest: "(case first_key (pb_frames b) of None \<Rightarrow> pb_frames b
      | Some oldest \<Rightarrow> bt_remove oldest (pb_frames b)) = m"
      by (simp add: m bt_remove_first [OF ok])
    let ?b = "b\<lparr>pb_frames := m, pb_dropped := pb_dropped b + 1, pb_next := first_key m\<rparr>"
    have trim: "pb_trim b = pb_trim ?b"
      using True by (subst pb_trim.simps) (simp add: Let_def rest)
    obtain n where n: "first_key m = Some n" using \<open>m \<noteq> []\<close> by (metis first_key_None not_Some_eq)
    have "pb_ok ?b" using 1(2) m first_key_least [of m] ok n by (auto simp: pb_ok_def)
    with 1(1) [OF True refl, unfolded rest] n
    have "pb_next (pb_trim ?b) = Some n \<or> (\<exists>n \<in> set (bt_keys m). pb_next (pb_trim ?b) = Some n)" by simp
    moreover have "n \<in> set (bt_keys m)" using first_key_least [of m n] ok n by simp
    ultimately show ?thesis unfolding trim m by auto
  qed
qed

lemma pb_front_next:
  assumes "pb_ok b" and "\<not> pb_holds b" and "pb_next (pb_front b) = Some n"
  shows "n \<in> set (bt_keys (pb_frames b)) \<or> pb_next b = Some n"
proof (cases "pb_prebuffering b")
  case False
  then have f: "pb_front b = pb_trim (pb_tick_step b)" by (simp add: pb_front_def)
  have "pb_next (pb_tick_step b) \<noteq> None" using assms(1) False by (auto simp: pb_ok_def)
  from pb_trim_next [OF tick_step_ok [OF assms(1)] this] assms(3) show ?thesis by (auto simp: f)
next
  case True
  let ?t = "pb_tick_step b"
  let ?r = "start_playback (?t\<lparr>pb_prebuffering := False\<rparr>)"
  have t: "pb_ok ?t" by (rule tick_step_ok [OF assms(1)])
  from True assms(2) target_effective_bounds(1) [OF t] have ne: "pb_frames ?t \<noteq> []"
    by (auto simp: pb_holds_def pb_depth_def)
  from True have f: "pb_front b = pb_trim ?r" by (simp add: pb_front_def)
  obtain s d where r: "?r = ?t\<lparr>pb_prebuffering := False, pb_frames := bt_split_off s (pb_frames ?t),
       pb_dropped := d, pb_next := Some s\<rparr>" "s \<in> set (bt_keys (pb_frames b))"
    using start_playback_ok(1) [OF t ne] by auto
  have "pb_next ?r \<noteq> None" by (simp add: r)
  from pb_trim_next [OF start_playback_ok(2) [OF t ne] this] assms(3) r(2)
  show ?thesis by (auto simp: f r(1))
qed

section \<open>Every operation preserves the invariant\<close>

lemma conceal_fields [simp]:
  "pb_frames (snd (conceal ops b)) = pb_frames b" "pb_next (snd (conceal ops b)) = pb_next b"
  "pb_prebuffering (snd (conceal ops b)) = pb_prebuffering b"
  "pb_target (snd (conceal ops b)) = pb_target b" "pb_extra (snd (conceal ops b)) = pb_extra b"
  "pb_cfg (snd (conceal ops b)) = pb_cfg b" "pb_tick (snd (conceal ops b)) = pb_tick b"
  "pb_next_decay (snd (conceal ops b)) = pb_next_decay b"
  "pb_last_accel (snd (conceal ops b)) = pb_last_accel b"
  "pb_ncc_defer (snd (conceal ops b)) = pb_ncc_defer b"
  "pb_popped (snd (conceal ops b)) = pb_popped b" "pb_underruns (snd (conceal ops b)) = pb_underruns b"
  "pb_accel_events (snd (conceal ops b)) = pb_accel_events b"
  by (simp_all add: conceal_def Let_def)

lemma pb_ok_conceal: "pb_ok b \<Longrightarrow> pb_ok (snd (conceal ops b))"
  by (simp add: pb_ok_def)

lemma seq_above:
  assumes "\<forall>k \<in> S. n < k \<and> k < 2 ^ 32"
  shows "\<forall>k \<in> S. seq_next n \<le> k"
proof
  fix k assume "k \<in> S"
  with assms have "n < k" "k < 2 ^ 32" by auto
  then show "seq_next n \<le> k" by (simp add: seq_next_eq)
qed

lemma pb_keys_above:
  assumes "pb_ok b" and "pb_next b = Some n"
  shows "\<forall>k \<in> set (bt_keys (bt_remove n (pb_frames b))). n < k \<and> k < 2 ^ 32"
  using assms by (auto simp: pb_ok_def intro: le_neq_implies_less)

lemma pb_ok_merge:
  assumes "pb_ok b" and "pb_next b = Some n" and "bt_lookup (pb_frames b) n = Some fa"
    and "bt_lookup (pb_frames b) (n + 1) = Some fb" and "n + 1 < 2 ^ 32"
  shows "pb_ok (snd (merge_front ops n b))"
proof -
  let ?m = "bt_remove (n + 1) (bt_remove n (pb_frames b))"
  have "\<forall>k \<in> set (bt_keys ?m). n + 1 < k \<and> k < 2 ^ 32"
    using pb_keys_above [OF assms(1,2)] by fastforce
  from seq_above [OF this] assms(1) seq_next_less show ?thesis
    by (simp add: merge_front_eq [OF assms(3-5)] Let_def pb_ok_def)
qed

lemma pb_ok_take:
  assumes "pb_ok b" and "pb_next b = Some n"
  shows "pb_ok (snd (take_next ops n b))"
proof (cases "bt_lookup (pb_frames b) n")
  case None
  with assms show ?thesis unfolding take_next_def None option.case
    by (intro pb_ok_conceal) (simp add: pb_ok_def)
next
  case (Some fa)
  from seq_above [OF pb_keys_above [OF assms]] assms(1) seq_next_less Some assms(2) show ?thesis
    by (simp add: take_next_def pb_ok_def)
qed

lemma pb_ok_counters [simp]:
  "pb_ok (b\<lparr>pb_ncc_defer := d\<rparr>) = pb_ok b" "pb_ok (b\<lparr>pb_accel_deferred := e\<rparr>) = pb_ok b"
  by (simp_all add: pb_ok_def)

lemma pb_ok_pop:
  assumes "pb_ok b"
  obtains r b' where "pb_pop ops b = Some (r, b')" "pb_ok b'"
proof (rule pb_pop_cases [OF assms, of ops])
  assume "pb_pop ops b = Some (None, pb_tick_step b)"
  from that [OF this tick_step_ok [OF assms]] show thesis .
next
  assume p: "pb_pop ops b = Some (apfst Some (conceal ops (pb_tick_step b)))"
  have "pb_ok (snd (conceal ops (pb_tick_step b)))" by (rule pb_ok_conceal [OF tick_step_ok [OF assms]])
  then show thesis using that p by (metis apfst_conv prod.collapse)
next
  fix n fa fb
  assume *: "\<not> pb_holds b" "pb_next (pb_front b) = Some n" "n + 1 < 2 ^ 32"
    "bt_lookup (pb_frames (pb_front b)) n = Some fa" "bt_lookup (pb_frames (pb_front b)) (n + 1) = Some fb"
    "pb_pop ops b = Some (merge_front ops n ((pb_front b)\<lparr>pb_ncc_defer := 0\<rparr>))"
  have "pb_ok (snd (merge_front ops n ((pb_front b)\<lparr>pb_ncc_defer := 0\<rparr>)))"
    by (rule pb_ok_merge) (use * pb_front_ok(1) [OF assms *(1)] in simp_all)
  then show thesis using that *(6) by (metis prod.collapse)
next
  fix n d e
  assume *: "\<not> pb_holds b" "pb_next (pb_front b) = Some n"
    "pb_pop ops b = Some (apfst Some
       (take_next ops n ((pb_front b)\<lparr>pb_ncc_defer := d, pb_accel_deferred := e\<rparr>)))"
  have "pb_ok (snd (take_next ops n ((pb_front b)\<lparr>pb_ncc_defer := d, pb_accel_deferred := e\<rparr>)))"
    by (rule pb_ok_take) (use * pb_front_ok(1) [OF assms *(1)] in simp_all)
  then show thesis using that *(3) by (metis apfst_conv prod.collapse)
next
  fix n d e
  assume *: "\<not> pb_holds b" "pb_next (pb_front b) = Some n"
    "pb_pop ops b = Some (apfst Some
       (take_next ops n ((pb_front b)\<lparr>pb_ncc_defer := d, pb_accel_deferred := e\<rparr>)))"
  have "pb_ok (snd (take_next ops n ((pb_front b)\<lparr>pb_ncc_defer := d, pb_accel_deferred := e\<rparr>)))"
    by (rule pb_ok_take) (use * pb_front_ok(1) [OF assms *(1)] in simp_all)
  then show thesis using that *(3) by (metis apfst_conv prod.collapse)
qed

lemma pb_ok_push: "pb_ok b \<Longrightarrow> s < 2 ^ 32 \<Longrightarrow> pb_ok (pb_push s f b)"
  by (auto simp: pb_push_def pb_ok_def Let_def not_less split: option.splits)

lemma pb_ok_steer: "pb_ok b \<Longrightarrow> pb_ok (set_target_effective w b)"
  using u32_clamp_bounds [of "min_target (pb_cfg b)" "max_target (pb_cfg b)"]
  by (auto simp: set_target_effective_def Let_def pb_ok_def tuning_ok_def intro: le_trans)

lemma pb_ok_update: "pb_ok b \<Longrightarrow> pb_ok (update_target j f b)"
  using u32_clamp_bounds [of "min_target (pb_cfg b)" "max_target (pb_cfg b)"]
  by (auto simp: update_target_def Let_def pb_ok_def tuning_ok_def intro: le_trans)

lemma pb_ok_new: "tuning_ok cfg \<Longrightarrow> pb_ok (with_tuning_channels t cfg ch)"
  using u32_clamp_bounds [of 1 "max_target cfg" t]
  by (auto simp: with_tuning_channels_def Let_def pb_ok_def tuning_ok_def)

lemma tuning_default_ok: "tuning_ok (JB_DEFAULT ops)" "tuning_ok (JB_DEGRADED ops)"
  by (simp_all add: tuning_ok_def JB_DEFAULT_def JB_DEGRADED_def)

end
