(* ===== verification/PlayRuns.thy ===== *)
theory PlayRuns
  imports PlayBuffer
begin

text \<open>
  The play buffer over time: runs of pushes, ticks and retargetings. Nothing panics and the output
  never stalls, frames play in order, merging is rate limited, a stall costs exactly the queued
  depth, steering respects the penalty and the depth converges to the target. The last sections
  are about the tuning read from the environment and about the splice itself.
\<close>

section \<open>Runs\<close>

text \<open>
  What the receive path, the mixer and the latency controllers do to one buffer, in any order.
  The log of a run has one entry per tick: the sequence numbers whose frames the tick consumed,
  read off the buffer's own counters and queue head, and the output.
\<close>

datatype 'f pb_event = PushFrame nat "'f list" | PopTick | Steer nat | Retarget real real

definition pb_taken :: "'f play_buffer \<Rightarrow> 'f play_buffer \<Rightarrow> nat list" where
  "pb_taken b b' =
     (case pb_next b' of
        None \<Rightarrow> []
      | Some n \<Rightarrow>
          if pb_popped b' = pb_popped b then []
          else if pb_accel_events b' = pb_accel_events b then [seq_prev n]
          else [seq_prev (seq_prev n), seq_prev n])"

fun pb_run :: "'f f32_ops \<Rightarrow> 'f pb_event list \<Rightarrow> 'f play_buffer \<Rightarrow>
    ((nat list \<times> 'f list option) list \<times> 'f play_buffer) option" where
  "pb_run ops [] b = Some ([], b)"
| "pb_run ops (PushFrame s f # es) b = pb_run ops es (pb_push s f b)"
| "pb_run ops (Steer w # es) b = pb_run ops es (set_target_effective w b)"
| "pb_run ops (Retarget j f # es) b = pb_run ops es (update_target j f b)"
| "pb_run ops (PopTick # es) b =
     (case pb_pop ops b of
        None \<Rightarrow> None
      | Some (r, b') \<Rightarrow> map_option (apfst (Cons (pb_taken b b', r))) (pb_run ops es b'))"

definition pushed :: "'f pb_event list \<Rightarrow> (nat \<times> 'f list) set" where
  "pushed es = {(s, f). PushFrame s f \<in> set es}"

lemma pushed_simps [simp]:
  "pushed [] = {}" "pushed (PushFrame s f # es) = insert (s, f) (pushed es)"
  "pushed (PopTick # es) = pushed es" "pushed (Steer w # es) = pushed es"
  "pushed (Retarget j g # es) = pushed es"
  by (auto simp: pushed_def)

lemma control_fields [simp]:
  "pb_frames (set_target_effective w b) = pb_frames b" "pb_next (set_target_effective w b) = pb_next b"
  "pb_frames (update_target j g b) = pb_frames b" "pb_next (update_target j g b) = pb_next b"
  "pb_cfg (set_target_effective w b) = pb_cfg b" "pb_cfg (update_target j g b) = pb_cfg b"
  "pb_channels (set_target_effective w b) = pb_channels b" "pb_channels (update_target j g b) = pb_channels b"
  by (simp_all add: set_target_effective_def update_target_def Let_def)

lemma push_fields [simp]:
  "pb_next (pb_push s f b) = pb_next b" "pb_cfg (pb_push s f b) = pb_cfg b"
  "pb_channels (pb_push s f b) = pb_channels b"
  by (simp_all add: pb_push_def Let_def)

lemma push_frames: "set (pb_frames (pb_push s f b)) \<subseteq> insert (s, f) (set (pb_frames b))"
  using bt_set_insert [of s f "pb_frames b"] by (auto simp: pb_push_def Let_def)

lemma start_fields [simp]:
  "pb_channels (start_playback b) = pb_channels b" "pb_cfg (start_playback b) = pb_cfg b"
  by (simp_all add: start_playback_def Let_def split: option.split)

lemma front_channels:
  assumes "pb_ok b" and "\<not> pb_holds b"
  shows "pb_channels (pb_front b) = pb_channels b"
proof -
  have trim: "pb_channels (pb_trim c) = pb_channels c" for c :: "'a play_buffer"
  proof (induction c rule: pb_trim.induct)
    case (1 c)
    then show ?case by (subst pb_trim.simps) (simp add: Let_def)
  qed
  show ?thesis by (simp add: pb_front_def trim)
qed

lemma conceal_channels [simp]: "pb_channels (snd (conceal ops b)) = pb_channels b"
  by (simp add: conceal_def Let_def)

lemma seq_prev_eq: "0 < n \<Longrightarrow> n < 2 ^ 32 \<Longrightarrow> seq_prev n = n - 1"
proof -
  assume "0 < n" "n < 2 ^ 32"
  then have "n + (2 ^ 32 - 1) = (n - 1) + 2 ^ 32" by simp
  with \<open>n < 2 ^ 32\<close> show ?thesis unfolding seq_prev_def by (metis less_imp_diff_less mod_add_self2 mod_less)
qed

lemma merge_front_result:
  assumes "bt_lookup (pb_frames b) n = Some fa" and "bt_lookup (pb_frames b) (n + 1) = Some fb"
    and "n + 1 < 2 ^ 32"
  shows "fst (merge_front ops n b) = Some (splice_two ops (pb_cfg b) (pb_channels b) fa fb)"
    "pb_next (snd (merge_front ops n b)) = Some (seq_next (n + 1))"
    "pb_popped (snd (merge_front ops n b)) = pb_popped b + 1"
    "pb_accel_events (snd (merge_front ops n b)) = pb_accel_events b + 1"
    "pb_frames (snd (merge_front ops n b)) = bt_remove (n + 1) (bt_remove n (pb_frames b))"
    "pb_cfg (snd (merge_front ops n b)) = pb_cfg b"
    "pb_channels (snd (merge_front ops n b)) = pb_channels b"
    "pb_last_accel (snd (merge_front ops n b)) = pb_tick b"
    "pb_tick (snd (merge_front ops n b)) = pb_tick b"
    "pb_target (snd (merge_front ops n b)) = pb_target b"
    "pb_extra (snd (merge_front ops n b)) = pb_extra b"
    "pb_prebuffering (snd (merge_front ops n b)) = pb_prebuffering b"
    "pb_ncc_defer (snd (merge_front ops n b)) = pb_ncc_defer b"
    "pb_underruns (snd (merge_front ops n b)) = pb_underruns b"
    "pb_next_decay (snd (merge_front ops n b)) = pb_next_decay b"
  unfolding merge_front_eq [OF assms] by (simp_all add: Let_def)

text \<open>What one tick consumes and returns, away from the wrap of the sequence number.\<close>

definition entry_ok :: "'f f32_ops \<Rightarrow> 'f jb_tuning \<Rightarrow> nat \<Rightarrow> (nat \<times> 'f list) set \<Rightarrow>
    nat list \<times> 'f list option \<Rightarrow> bool" where
  "entry_ok ops cfg ch F e \<longleftrightarrow>
     fst e = [] \<or>
     (\<exists>n f. e = ([n], Some f) \<and> (n, f) \<in> F) \<or>
     (\<exists>n f g. e = ([n, n + 1], Some (splice_two ops cfg ch f g)) \<and> (n, f) \<in> F \<and> (n + 1, g) \<in> F)"

lemma pop_entry:
  assumes ok: "pb_ok b" and pop: "pb_pop ops b = Some (r, b')"
    and small: "\<forall>k \<in> set (bt_keys (pb_frames b)). k < 2 ^ 32 - 1"
  shows "entry_ok ops (pb_cfg b) (pb_channels b) (set (pb_frames b)) (pb_taken b b', r)"
    and "set (pb_frames b') \<subseteq> set (pb_frames b)" and "pb_cfg b' = pb_cfg b"
    and "pb_channels b' = pb_channels b"
    and "sorted_wrt (<) (pb_taken b b')"
    and "\<forall>m. pb_next b = Some m \<longrightarrow> (\<forall>s \<in> set (pb_taken b b'). m \<le> s)"
    and "\<forall>s \<in> set (pb_taken b b'). \<exists>n. pb_next b' = Some n \<and> s < n"
    and "\<forall>m. pb_next b = Some m \<longrightarrow> (\<exists>n. pb_next b' = Some n \<and> m \<le> n)"
    and "pb_next b' \<noteq> None \<longleftrightarrow> r \<noteq> None"
proof -
  let ?P = "entry_ok ops (pb_cfg b) (pb_channels b) (set (pb_frames b)) (pb_taken b b', r) \<and>
    set (pb_frames b') \<subseteq> set (pb_frames b) \<and> pb_cfg b' = pb_cfg b \<and> pb_channels b' = pb_channels b \<and>
    sorted_wrt (<) (pb_taken b b') \<and>
    (\<forall>m. pb_next b = Some m \<longrightarrow> (\<forall>s \<in> set (pb_taken b b'). m \<le> s)) \<and>
    (\<forall>s \<in> set (pb_taken b b'). \<exists>n. pb_next b' = Some n \<and> s < n) \<and>
    (\<forall>m. pb_next b = Some m \<longrightarrow> (\<exists>n. pb_next b' = Some n \<and> m \<le> n)) \<and>
    (pb_next b' \<noteq> None \<longleftrightarrow> r \<noteq> None)"
  have front: "pb_cfg (pb_front b) = pb_cfg b" "pb_channels (pb_front b) = pb_channels b"
    "set (pb_frames (pb_front b)) \<subseteq> set (pb_frames b)" "pb_popped (pb_front b) = pb_popped b"
    "pb_accel_events (pb_front b) = pb_accel_events b" "pb_ok (pb_front b)"
    if "\<not> pb_holds b"
    using pb_front_ok [OF ok that] front_channels [OF ok that] by simp_all
  have above: "\<forall>m. pb_next b = Some m \<longrightarrow> m \<le> n" if "\<not> pb_holds b" "pb_next (pb_front b) = Some n" for n
    using pb_front_next [OF ok that] ok by (auto simp: pb_ok_def)
  have in_front: "(n, fa) \<in> set (pb_frames b) \<and> n < 2 ^ 32 - 1"
    if "\<not> pb_holds b" "bt_lookup (pb_frames (pb_front b)) n = Some fa" for n fa
    using bt_lookup_mem [OF that(2)] front(3) [OF that(1)] small by (fastforce simp: set_bt_keys)
  have ?P
  proof (rule pb_pop_cases [OF ok, of ops])
    assume "pb_next b = None" "pb_pop ops b = Some (None, pb_tick_step b)"
    with pop have "r = None" "b' = pb_tick_step b" "pb_next b' = None" by auto
    with \<open>pb_next b = None\<close> show ?P by (simp add: pb_taken_def entry_ok_def)
  next
    assume "pb_next b \<noteq> None" "pb_pop ops b = Some (apfst Some (conceal ops (pb_tick_step b)))"
    with pop have "b' = snd (conceal ops (pb_tick_step b))" "r \<noteq> None"
      by (auto simp: apfst_def map_prod_def split_beta)
    with \<open>pb_next b \<noteq> None\<close> show ?P by (auto simp: pb_taken_def entry_ok_def split: option.split)
  next
    fix n fa fb
    assume *: "\<not> pb_holds b" "pb_next (pb_front b) = Some n" "n + 1 < 2 ^ 32"
      "bt_lookup (pb_frames (pb_front b)) n = Some fa" "bt_lookup (pb_frames (pb_front b)) (n + 1) = Some fb"
      "pb_pop ops b = Some (merge_front ops n ((pb_front b)\<lparr>pb_ncc_defer := 0\<rparr>))"
    note f = front [OF *(1)] and i = in_front [OF *(1,4)] in_front [OF *(1,5)]
    have nn: "seq_next (n + 1) = n + 2" using i by (simp add: seq_next_eq)
    have pp: "seq_prev (n + 2) = n + 1" "seq_prev (n + 1) = n" using i by (simp_all add: seq_prev_eq)
    have m: "merge_front ops n ((pb_front b)\<lparr>pb_ncc_defer := 0\<rparr>) = (r, b')" using * pop by simp
    let ?m = "(pb_front b)\<lparr>pb_ncc_defer := 0\<rparr>"
    have mf: "pb_frames ?m = pb_frames (pb_front b)" "pb_cfg ?m = pb_cfg (pb_front b)"
      "pb_channels ?m = pb_channels (pb_front b)" "pb_popped ?m = pb_popped (pb_front b)"
      "pb_accel_events ?m = pb_accel_events (pb_front b)" by simp_all
    have "bt_lookup (pb_frames ?m) n = Some fa" "bt_lookup (pb_frames ?m) (n + 1) = Some fb"
      by (simp_all only: mf *)
    note res = merge_front_result [OF this *(3), of ops]
    have fs: "r = fst (merge_front ops n ((pb_front b)\<lparr>pb_ncc_defer := 0\<rparr>))"
      "b' = snd (merge_front ops n ((pb_front b)\<lparr>pb_ncc_defer := 0\<rparr>))" by (simp_all add: m)
    have "r = Some (splice_two ops (pb_cfg b) (pb_channels b) fa fb)" "pb_next b' = Some (n + 2)"
      "pb_popped b' = pb_popped b + 1" "pb_accel_events b' = pb_accel_events b + 1"
      "pb_frames b' = bt_remove (n + 1) (bt_remove n (pb_frames (pb_front b)))"
      "pb_cfg b' = pb_cfg b" "pb_channels b' = pb_channels b"
      by (simp_all only: fs res mf nn f)
    moreover from this have "pb_taken b b' = [n, n + 1]" using pp by (simp add: pb_taken_def)
    moreover have "set (bt_remove (n + 1) (bt_remove n (pb_frames (pb_front b)))) \<subseteq> set (pb_frames b)"
      using bt_set_sub(1) f(3) by (meson order_trans)
    ultimately show ?P using i above [OF *(1,2)] by (fastforce simp: entry_ok_def)
  next
    fix n fa d e
    assume *: "\<not> pb_holds b" "pb_next (pb_front b) = Some n"
      "bt_lookup (pb_frames (pb_front b)) n = Some fa"
      "pb_pop ops b = Some (apfst Some (take_next ops n ((pb_front b)\<lparr>pb_ncc_defer := d, pb_accel_deferred := e\<rparr>)))"
    note f = front [OF *(1)] and i = in_front [OF *(1,3)]
    have nn: "seq_next n = n + 1" "seq_prev (n + 1) = n" using i by (simp_all add: seq_prev_eq seq_next_eq)
    from * pop have "r = Some fa" "pb_next b' = Some (n + 1)" "pb_popped b' = pb_popped b + 1"
      "pb_accel_events b' = pb_accel_events b" "pb_frames b' = bt_remove n (pb_frames (pb_front b))"
      "pb_cfg b' = pb_cfg b" "pb_channels b' = pb_channels b"
      by (auto simp: take_next_def f nn)
    moreover from this have "pb_taken b b' = [n]" using nn by (simp add: pb_taken_def)
    moreover have "set (bt_remove n (pb_frames (pb_front b))) \<subseteq> set (pb_frames b)"
      using bt_set_sub(1) f(3) by (meson order_trans)
    ultimately show ?P using i above [OF *(1,2)] by (fastforce simp: entry_ok_def)
  next
    fix n d e
    assume *: "\<not> pb_holds b" "pb_next (pb_front b) = Some n"
      "bt_lookup (pb_frames (pb_front b)) n = None"
      "pb_pop ops b = Some (apfst Some (take_next ops n ((pb_front b)\<lparr>pb_ncc_defer := d, pb_accel_deferred := e\<rparr>)))"
    note f = front [OF *(1)]
    from * pop have "r \<noteq> None" "pb_next b' = Some n" "pb_popped b' = pb_popped b"
      "pb_frames b' = pb_frames (pb_front b)" "pb_cfg b' = pb_cfg b" "pb_channels b' = pb_channels b"
      by (auto simp: take_next_def f apfst_def map_prod_def split_beta)
    moreover from this have "pb_taken b b' = []" by (simp add: pb_taken_def)
    ultimately show ?P using f(3) above [OF *(1,2)] by (simp add: entry_ok_def)
  qed
  then show "entry_ok ops (pb_cfg b) (pb_channels b) (set (pb_frames b)) (pb_taken b b', r)"
    "set (pb_frames b') \<subseteq> set (pb_frames b)" "pb_cfg b' = pb_cfg b" "pb_channels b' = pb_channels b"
    "sorted_wrt (<) (pb_taken b b')"
    "\<forall>m. pb_next b = Some m \<longrightarrow> (\<forall>s \<in> set (pb_taken b b'). m \<le> s)"
    "\<forall>s \<in> set (pb_taken b b'). \<exists>n. pb_next b' = Some n \<and> s < n"
    "\<forall>m. pb_next b = Some m \<longrightarrow> (\<exists>n. pb_next b' = Some n \<and> m \<le> n)"
    "pb_next b' \<noteq> None \<longleftrightarrow> r \<noteq> None"
    by blast+
qed

section \<open>The output never stalls\<close>

lemma take_next_next:
  assumes "pb_next b = Some n"
  shows "\<exists>f. fst (apfst Some (take_next ops n b)) = Some f" "pb_next (snd (take_next ops n b)) \<noteq> None"
  using assms by (simp_all add: take_next_def split: option.split)

lemma pop_started:
  assumes ok: "pb_ok b" and pop: "pb_pop ops b = Some (r, b')"
  shows "pb_next b \<noteq> None \<longrightarrow> r \<noteq> None" and "r \<noteq> None \<longrightarrow> pb_next b' \<noteq> None"
proof -
  have "(pb_next b \<noteq> None \<longrightarrow> r \<noteq> None) \<and> (r \<noteq> None \<longrightarrow> pb_next b' \<noteq> None)"
  proof (rule pb_pop_cases [OF ok, of ops])
    assume "pb_next b = None" "pb_pop ops b = Some (None, pb_tick_step b)"
    with pop show ?thesis by simp
  next
    assume "pb_next b \<noteq> None" "pb_pop ops b = Some (apfst Some (conceal ops (pb_tick_step b)))"
    with pop show ?thesis by (auto simp: apfst_def map_prod_def split_beta)
  next
    fix n fa fb
    assume *: "n + 1 < 2 ^ 32" "bt_lookup (pb_frames (pb_front b)) n = Some fa"
      "bt_lookup (pb_frames (pb_front b)) (n + 1) = Some fb"
      "pb_pop ops b = Some (merge_front ops n ((pb_front b)\<lparr>pb_ncc_defer := 0\<rparr>))"
    then have "bt_lookup (pb_frames ((pb_front b)\<lparr>pb_ncc_defer := 0\<rparr>)) n = Some fa"
      "bt_lookup (pb_frames ((pb_front b)\<lparr>pb_ncc_defer := 0\<rparr>)) (n + 1) = Some fb" by simp_all
    note res = merge_front_result [OF this *(1), of ops]
    have m: "merge_front ops n ((pb_front b)\<lparr>pb_ncc_defer := 0\<rparr>) = (r, b')" using * pop by simp
    show ?thesis using res(1,2) unfolding m by simp
  next
    fix n fa d e
    assume "pb_next (pb_front b) = Some n" "pb_pop ops b = Some (apfst Some
      (take_next ops n ((pb_front b)\<lparr>pb_ncc_defer := d, pb_accel_deferred := e\<rparr>)))"
    with pop take_next_next [of "(pb_front b)\<lparr>pb_ncc_defer := d, pb_accel_deferred := e\<rparr>" n ops]
    show ?thesis by (auto simp: apfst_def map_prod_def split_beta)
  next
    fix n d e
    assume "pb_next (pb_front b) = Some n" "pb_pop ops b = Some (apfst Some
      (take_next ops n ((pb_front b)\<lparr>pb_ncc_defer := d, pb_accel_deferred := e\<rparr>)))"
    with pop take_next_next [of "(pb_front b)\<lparr>pb_ncc_defer := d, pb_accel_deferred := e\<rparr>" n ops]
    show ?thesis by (auto simp: apfst_def map_prod_def split_beta)
  qed
  then show "pb_next b \<noteq> None \<longrightarrow> r \<noteq> None" and "r \<noteq> None \<longrightarrow> pb_next b' \<noteq> None" by blast+
qed

lemma run_shape:
  assumes "pb_ok b" and "\<forall>(s, f) \<in> pushed es. s < 2 ^ 32"
  shows "\<exists>tr b' k outs. pb_run ops es b = Some (tr, b') \<and> pb_ok b' \<and>
    map snd tr = replicate k None @ map Some outs \<and>
    length tr = length (filter (\<lambda>e. e = PopTick) es) \<and> (pb_next b \<noteq> None \<longrightarrow> k = 0)"
  using assms
proof (induction ops es b rule: pb_run.induct)
  case (1 ops b)
  then show ?case by auto
next
  case (2 ops s f es b)
  with pb_ok_push [of b s f] show ?case by auto
next
  case (3 ops w es b)
  then show ?case using pb_ok_steer [of b w] by simp
next
  case (4 ops j f es b)
  then show ?case using pb_ok_update [of b j f] by simp
next
  case (5 ops es b)
  obtain r b1 where pop: "pb_pop ops b = Some (r, b1)" "pb_ok b1" using pb_ok_pop [OF 5(2)] by blast
  note started = pop_started [OF 5(2) pop(1)]
  from 5(1) [OF pop(1) refl] pop(2) 5(3)
  obtain tr b' k outs where IH: "pb_run ops es b1 = Some (tr, b')" "pb_ok b'"
    "map snd tr = replicate k None @ map Some outs"
    "length tr = length (filter (\<lambda>e. e = PopTick) es)" "pb_next b1 \<noteq> None \<longrightarrow> k = 0"
    by auto
  have run: "pb_run ops (PopTick # es) b = Some ((pb_taken b b1, r) # tr, b')"
    using pop(1) IH(1) by simp
  have len: "length ((pb_taken b b1, r) # tr) = length (filter (\<lambda>e. e = PopTick) (PopTick # es))"
    using IH(4) by simp
  show ?case
  proof (cases r)
    case None
    with IH(3) have "map snd ((pb_taken b b1, r) # tr) = replicate (Suc k) None @ map Some outs" by simp
    moreover have "pb_next b = None" using started None by blast
    ultimately show ?thesis using run IH(2) len by blast
  next
    case (Some x)
    with started IH(5) have "k = 0" by simp
    with IH(3) Some have "map snd ((pb_taken b b1, r) # tr) = replicate 0 None @ map Some (x # outs)" by simp
    then show ?thesis using run IH(2) len by blast
  qed
qed

text \<open>
  C12. The play buffer never panics and never stalls: whatever is pushed, and however the target
  is moved, every tick succeeds and leaves the invariant intact; there is no output before the
  first frame plays, and from then on every tick yields a frame.
\<close>

theorem playout_never_stalls:
  assumes "pb_ok b" and "\<forall>(s, f) \<in> pushed es. s < 2 ^ 32"
  shows "\<exists>tr b' k outs. pb_run ops es b = Some (tr, b') \<and> pb_ok b' \<and>
    map snd tr = replicate k None @ map Some outs \<and>
    length tr = length (filter (\<lambda>e. e = PopTick) es) \<and> (pb_next b \<noteq> None \<longrightarrow> k = 0)"
  by (rule run_shape [OF assms])

section \<open>The order of playout\<close>

lemma entry_mono: "entry_ok ops c ch F e \<Longrightarrow> F \<subseteq> G \<Longrightarrow> entry_ok ops c ch G e"
  by (fastforce simp: entry_ok_def)

lemma run_in_order:
  assumes "pb_ok b" and "pb_run ops es b = Some (tr, b')"
    and "\<forall>(s, f) \<in> set (pb_frames b) \<union> pushed es. s < 2 ^ 32 - 1"
  shows "sorted_wrt (<) (concat (map fst tr)) \<and>
    (\<forall>m. pb_next b = Some m \<longrightarrow> (\<forall>s \<in> set (concat (map fst tr)). m \<le> s)) \<and>
    (\<forall>e \<in> set tr. entry_ok ops (pb_cfg b) (pb_channels b) (set (pb_frames b) \<union> pushed es) e)"
  using assms
proof (induction ops es b arbitrary: tr rule: pb_run.induct)
  case (1 ops b)
  then show ?case by simp
next
  case (2 ops s f es b)
  have "s < 2 ^ 32" using 2(4) by auto
  then have ok: "pb_ok (pb_push s f b)" by (rule pb_ok_push [OF 2(2)])
  have sub: "set (pb_frames (pb_push s f b)) \<union> pushed es \<subseteq>
      set (pb_frames b) \<union> pushed (PushFrame s f # es)" using push_frames [of s f b] by auto
  then have small: "\<forall>(s, f) \<in> set (pb_frames (pb_push s f b)) \<union> pushed es. s < 2 ^ 32 - 1"
    using 2(4) by blast
  from 2(3) have run: "pb_run ops es (pb_push s f b) = Some (tr, b')" by simp
  note IH = 2(1) [OF ok run small, unfolded push_fields]
  then show ?case using entry_mono [OF _ sub] by blast
next
  case (3 ops w es b)
  from 3(1) [of tr] 3(2-4) pb_ok_steer [of b w] show ?case by simp
next
  case (4 ops j f es b)
  from 4(1) [of tr] 4(2-4) pb_ok_update [of b j f] show ?case by simp
next
  case (5 ops es b)
  obtain r b1 where pop: "pb_pop ops b = Some (r, b1)" "pb_ok b1" using pb_ok_pop [OF 5(2)] by blast
  from 5(3) pop obtain tr1 where run: "pb_run ops es b1 = Some (tr1, b')"
    and tr: "tr = (pb_taken b b1, r) # tr1" by (auto simp: apfst_def map_prod_def split_beta)
  have "\<forall>k \<in> set (bt_keys (pb_frames b)). k < 2 ^ 32 - 1" using 5(4) by (auto simp: set_bt_keys)
  note e = pop_entry [OF 5(2) pop(1) this]
  have sub: "set (pb_frames b1) \<union> pushed es \<subseteq> set (pb_frames b) \<union> pushed (PopTick # es)" using e(2) by auto
  then have "\<forall>(s, f) \<in> set (pb_frames b1) \<union> pushed es. s < 2 ^ 32 - 1" using 5(4) by blast
  from 5(1) [OF pop(1) refl pop(2) run this]
  have IH: "sorted_wrt (<) (concat (map fst tr1))"
    "\<forall>m. pb_next b1 = Some m \<longrightarrow> (\<forall>s \<in> set (concat (map fst tr1)). m \<le> s)"
    "\<forall>e \<in> set tr1. entry_ok ops (pb_cfg b) (pb_channels b) (set (pb_frames b1) \<union> pushed es) e"
    by (simp_all add: e(3,4))
  have "\<forall>s \<in> set (pb_taken b b1). \<forall>t \<in> set (concat (map fst tr1)). s < t"
    using e(7) IH(2) by (meson less_le_trans)
  then have "sorted_wrt (<) (concat (map fst tr))"
    using e(5) IH(1) by (simp add: tr sorted_wrt_append)
  moreover have "\<forall>m. pb_next b = Some m \<longrightarrow> (\<forall>s \<in> set (concat (map fst tr)). m \<le> s)"
    using e(6,8) IH(2) by (fastforce simp: tr)
  moreover have "\<forall>e \<in> set tr1. entry_ok ops (pb_cfg b) (pb_channels b)
      (set (pb_frames b) \<union> pushed (PopTick # es)) e"
    using IH(3) entry_mono [OF _ sub] by blast
  moreover have "entry_ok ops (pb_cfg b) (pb_channels b)
      (set (pb_frames b) \<union> pushed (PopTick # es)) (pb_taken b b1, r)"
    using entry_mono [OF e(1)] by blast
  ultimately show ?case by (simp add: tr)
qed

text \<open>
  C13. What is played is played in order: away from the wrap of the sequence number, the frames
  consumed by the successive ticks of a run have strictly increasing sequence numbers, and every
  tick that consumes something outputs either exactly the frame pushed under that number or the
  splice of two frames pushed under neighbouring numbers. No frame is played twice.
\<close>

theorem playout_in_order:
  assumes "pb_ok b" and "pb_run ops es b = Some (tr, b')"
    and "\<forall>(s, f) \<in> set (pb_frames b) \<union> pushed es. s < 2 ^ 32 - 1"
  shows "sorted_wrt (<) (concat (map fst tr)) \<and>
    (\<forall>e \<in> set tr. fst e = [] \<or>
       (\<exists>n f. e = ([n], Some f) \<and> (n, f) \<in> set (pb_frames b) \<union> pushed es) \<or>
       (\<exists>n f g. e = ([n, n + 1], Some (splice_two ops (pb_cfg b) (pb_channels b) f g)) \<and>
          (n, f) \<in> set (pb_frames b) \<union> pushed es \<and> (n + 1, g) \<in> set (pb_frames b) \<union> pushed es))"
  using run_in_order [OF assms] unfolding entry_ok_def by blast

text \<open>Integer samples with a stand-in arithmetic, for concrete runs.\<close>

definition int_ops :: "int f32_ops" where
  "int_ops = \<lparr>f_lit = (\<lambda>n d. n * 10 div int d), f_pi = 31, f_of_nat = int,
     f_add = (+), f_sub = (-), f_mul = (\<lambda>x y. x * y div 10), f_div = (div), f_powf = (\<lambda>x _. x),
     f_sqrt = id, f_cos = id, f_lt = (<), f_le = (\<le>), f_parse = (\<lambda>_. None)\<rparr>"

definition demo_run :: "int pb_event list" where
  "demo_run = [PopTick, PushFrame 5 [100], PushFrame 7 [300], PushFrame 6 [200], PushFrame 8 [400],
     PopTick, PopTick, PushFrame 5 [900], PopTick, PopTick, PopTick]"

definition demo_trace :: "(nat list \<times> int list option) list" where
  "demo_trace = [([], None), ([5], Some [100]), ([6], Some [200]), ([7], Some [300]),
     ([8], Some [400]), ([], Some [280])]"

text \<open>Evaluation of concrete runs by rewriting.\<close>

lemma walk_back_numeral: "walk_back m s (numeral v) =
    (if bt_lookup m (seq_prev s) = None then s else walk_back m (seq_prev s) (pred_numeral v))"
  by (simp add: numeral_eq_Suc)

lemma pb_trim_skip: "pb_depth b \<le> max_frames (pb_cfg b) \<Longrightarrow> pb_trim b = b"
  by (subst pb_trim.simps) simp

lemmas pb_eval = with_tuning_def with_tuning_channels_def Let_def u32_clamp_def
  JB_DEFAULT_def pb_push_def pb_pop_def pb_tick_step_def pb_depth_def target_effective_def
  u32_add_def start_playback_def bt_last_key_def walk_back_numeral bt_lookup_def seq_prev_def
  seq_next_def deliver_def pb_trim_skip try_accelerate_def u32_saturating_add_def
  pb_contiguous_def bt_split_off_def bt_remove_def take_next_def conceal_def pb_taken_def
  merge_front_def splice_allowed_def int_ops_def DEFAULT_FRAME_LEN_def apfst_def map_prod_def

lemma demo_run_result:
  "map_option fst (pb_run int_ops demo_run (with_tuning 2 (JB_DEFAULT int_ops))) = Some demo_trace"
  by (simp add: demo_run_def demo_trace_def pb_eval)

lemma demo_run_obtain:
  obtains b' where "pb_run int_ops demo_run (with_tuning 2 (JB_DEFAULT int_ops)) = Some (demo_trace, b')"
  using demo_run_result by fastforce

lemma demo_small: "\<forall>(s, f) \<in> set (pb_frames (with_tuning 2 (JB_DEFAULT int_ops))) \<union> pushed demo_run.
    s < 2 ^ 32 - 1"
  by (simp add: demo_run_def with_tuning_def with_tuning_channels_def Let_def)

lemma demo_ok: "pb_ok (with_tuning 2 (JB_DEFAULT int_ops))"
  unfolding with_tuning_def by (rule pb_ok_new [OF tuning_default_ok(1)])

theorem playout_in_order_witness:
  "sorted_wrt (<) (concat (map fst demo_trace)) \<and> concat (map fst demo_trace) = [5, 6, 7, 8]"
proof -
  obtain b' where "pb_run int_ops demo_run (with_tuning 2 (JB_DEFAULT int_ops)) = Some (demo_trace, b')"
    by (rule demo_run_obtain)
  from playout_in_order [OF demo_ok this demo_small] show ?thesis by (simp add: demo_trace_def)
qed

theorem playout_never_stalls_witness:
  "\<exists>tr b' k outs. pb_run int_ops demo_run (with_tuning 2 (JB_DEFAULT int_ops)) = Some (tr, b') \<and>
    map snd tr = replicate k None @ map Some outs \<and> length tr = 6"
proof -
  have "\<forall>(s, f) \<in> pushed demo_run. s < 2 ^ 32" by (simp add: demo_run_def)
  from playout_never_stalls [OF demo_ok this, of int_ops] show ?thesis
    by (elim exE conjE) (intro exI conjI, assumption+, simp add: demo_run_def)
qed

section \<open>How fast the depth may be cut\<close>

lemma front_accel_due:
  assumes "pb_ok b" and "\<not> pb_holds b" and "accel_due (pb_front b)"
    and "\<not> target_effective (pb_front b) + hard_slack (pb_cfg b) < pb_contiguous (pb_front b)"
  shows "accel_interval_ticks (pb_cfg b) \<le> pb_tick b + 1 - pb_last_accel b"
  using assms(3,4) pb_front_ok [OF assms(1,2)] by (auto simp: accel_due_def)

text \<open>A tick is calm if the queue is not past the emergency line when it delivers.\<close>

definition pb_calm :: "'f play_buffer \<Rightarrow> bool" where
  "pb_calm b \<longleftrightarrow> pb_holds b \<or>
     pb_contiguous (pb_front b) \<le> target_effective (pb_front b) + hard_slack (pb_cfg b)"

fun calm_run :: "'f f32_ops \<Rightarrow> 'f pb_event list \<Rightarrow> 'f play_buffer \<Rightarrow> bool" where
  "calm_run ops [] b = True"
| "calm_run ops (PushFrame s f # es) b = calm_run ops es (pb_push s f b)"
| "calm_run ops (Steer w # es) b = calm_run ops es (set_target_effective w b)"
| "calm_run ops (Retarget j f # es) b = calm_run ops es (update_target j f b)"
| "calm_run ops (PopTick # es) b =
     (pb_calm b \<and> (case pb_pop ops b of None \<Rightarrow> True | Some (r, b') \<Rightarrow> calm_run ops es b'))"

text \<open>The fields that only the tick changes.\<close>

lemma pacing_fields [simp]:
  "pb_tick (pb_push s f b) = pb_tick b" "pb_last_accel (pb_push s f b) = pb_last_accel b"
  "pb_accel_events (pb_push s f b) = pb_accel_events b"
  "pb_tick (set_target_effective w b) = pb_tick b"
  "pb_last_accel (set_target_effective w b) = pb_last_accel b"
  "pb_accel_events (set_target_effective w b) = pb_accel_events b"
  "pb_tick (update_target j g b) = pb_tick b" "pb_last_accel (update_target j g b) = pb_last_accel b"
  "pb_accel_events (update_target j g b) = pb_accel_events b"
  by (simp_all add: pb_push_def set_target_effective_def update_target_def Let_def)

lemma take_next_pacing:
  "pb_tick (snd (take_next ops n b)) = pb_tick b" "pb_last_accel (snd (take_next ops n b)) = pb_last_accel b"
  "pb_accel_events (snd (take_next ops n b)) = pb_accel_events b" "pb_cfg (snd (take_next ops n b)) = pb_cfg b"
  "pb_ncc_defer (snd (take_next ops n b)) = pb_ncc_defer b" "pb_target (snd (take_next ops n b)) = pb_target b"
  by (simp_all add: take_next_def split: option.split)

lemma pop_pacing:
  assumes ok: "pb_ok b" and pop: "pb_pop ops b = Some (r, b')"
  shows "pb_tick b' = pb_tick b + 1 \<and> pb_cfg b' = pb_cfg b \<and>
    (pb_accel_events b' = pb_accel_events b \<and> pb_last_accel b' = pb_last_accel b \<or>
     pb_accel_events b' = pb_accel_events b + 1 \<and> pb_last_accel b' = pb_tick b' \<and>
     (pb_calm b \<longrightarrow> accel_interval_ticks (pb_cfg b) \<le> pb_tick b' - pb_last_accel b))"
proof (rule pb_pop_cases [OF ok, of ops])
  assume "pb_pop ops b = Some (None, pb_tick_step b)"
  with pop have "b' = pb_tick_step b" by simp
  then show ?thesis by simp
next
  assume "pb_pop ops b = Some (apfst Some (conceal ops (pb_tick_step b)))"
  with pop have "b' = snd (conceal ops (pb_tick_step b))" by (auto simp: apfst_def map_prod_def split_beta)
  then show ?thesis by simp
next
  fix n fa fb
  assume *: "\<not> pb_holds b" "n + 1 < 2 ^ 32" "accel_due (pb_front b)"
    "bt_lookup (pb_frames (pb_front b)) n = Some fa"
    "bt_lookup (pb_frames (pb_front b)) (n + 1) = Some fb"
    "pb_pop ops b = Some (merge_front ops n ((pb_front b)\<lparr>pb_ncc_defer := 0\<rparr>))"
  then have "bt_lookup (pb_frames ((pb_front b)\<lparr>pb_ncc_defer := 0\<rparr>)) n = Some fa"
    "bt_lookup (pb_frames ((pb_front b)\<lparr>pb_ncc_defer := 0\<rparr>)) (n + 1) = Some fb" by simp_all
  note res = merge_front_result [OF this *(2), of ops]
  have m: "merge_front ops n ((pb_front b)\<lparr>pb_ncc_defer := 0\<rparr>) = (r, b')" using * pop by simp
  note f = pb_front_ok [OF ok *(1)]
  have "accel_interval_ticks (pb_cfg b) \<le> pb_tick b + 1 - pb_last_accel b" if "pb_calm b"
    using that front_accel_due [OF ok *(1,3)] *(1) by (simp add: pb_calm_def not_less)
  with res(4,6,8,9) f show ?thesis unfolding m by simp
next
  fix n d e
  assume "\<not> pb_holds b" "pb_pop ops b = Some (apfst Some
    (take_next ops n ((pb_front b)\<lparr>pb_ncc_defer := d, pb_accel_deferred := e\<rparr>)))"
  with pop have "b' = snd (take_next ops n ((pb_front b)\<lparr>pb_ncc_defer := d, pb_accel_deferred := e\<rparr>))"
    by (auto simp: apfst_def map_prod_def split_beta)
  with pb_front_ok [OF ok \<open>\<not> pb_holds b\<close>] show ?thesis by (simp add: take_next_pacing)
next
  fix n d e
  assume "\<not> pb_holds b" "pb_pop ops b = Some (apfst Some
    (take_next ops n ((pb_front b)\<lparr>pb_ncc_defer := d, pb_accel_deferred := e\<rparr>)))"
  with pop have "b' = snd (take_next ops n ((pb_front b)\<lparr>pb_ncc_defer := d, pb_accel_deferred := e\<rparr>))"
    by (auto simp: apfst_def map_prod_def split_beta)
  with pb_front_ok [OF ok \<open>\<not> pb_holds b\<close>] show ?thesis by (simp add: take_next_pacing)
qed

lemma run_pacing:
  assumes "pb_ok b" and "pb_run ops es b = Some (tr, b')" and "calm_run ops es b"
    and "\<forall>(s, f) \<in> pushed es. s < 2 ^ 32"
  shows "pb_tick b' = pb_tick b + length tr \<and> pb_accel_events b \<le> pb_accel_events b' \<and>
    (pb_accel_events b' - pb_accel_events b) * accel_interval_ticks (pb_cfg b) + pb_last_accel b
      \<le> pb_last_accel b' \<and> pb_ok b'"
  using assms
proof (induction ops es b arbitrary: tr rule: pb_run.induct)
  case (1 ops b)
  then show ?case by simp
next
  case (2 ops s f es b)
  then have "pb_ok (pb_push s f b)" using pb_ok_push [of b s f] by simp
  with 2(1) [of tr] 2(3-5) show ?case by simp
next
  case (3 ops w es b)
  with pb_ok_steer [of b w] show ?case by simp
next
  case (4 ops j f es b)
  with pb_ok_update [of b j f] show ?case by simp
next
  case (5 ops es b)
  obtain r b1 where pop: "pb_pop ops b = Some (r, b1)" "pb_ok b1" using pb_ok_pop [OF 5(2)] by blast
  from 5(3) pop obtain tr1 where run: "pb_run ops es b1 = Some (tr1, b')"
    and tr: "tr = (pb_taken b b1, r) # tr1" by (auto simp: apfst_def map_prod_def split_beta)
  from 5(4) pop have calm: "pb_calm b" "calm_run ops es b1" by simp_all
  have "\<forall>(s, f) \<in> pushed es. s < 2 ^ 32" using 5(5) by simp
  note IH = 5(1) [OF pop(1) refl pop(2) run calm(2) this]
  note p = pop_pacing [OF 5(2) pop(1)]
  have la: "pb_last_accel b \<le> pb_tick b" using 5(2) by (simp add: pb_ok_def)
  show ?case
  proof (cases "pb_accel_events b1 = pb_accel_events b \<and> pb_last_accel b1 = pb_last_accel b")
    case True
    with IH p show ?thesis by (simp add: tr)
  next
    case False
    with p calm(1) have q: "pb_accel_events b1 = pb_accel_events b + 1"
      "accel_interval_ticks (pb_cfg b) + pb_last_accel b \<le> pb_last_accel b1" using la by auto
    from IH obtain k where k: "pb_accel_events b' = pb_accel_events b1 + k" by (auto simp: le_iff_add)
    with IH q p show ?thesis by (simp add: tr)
  qed
qed

text \<open>
  Time compression is bounded. As long as the queue stays below the emergency line, a fresh
  buffer merges at most one pair of frames per \<open>accel_interval_ticks\<close> ticks, for every sequence
  of pushes and retargetings: with the default tuning at most one percent of the audio.
\<close>

theorem compression_is_bounded:
  assumes "tuning_ok cfg" and "pb_run ops es (with_tuning_channels t cfg ch) = Some (tr, b')"
    and "calm_run ops es (with_tuning_channels t cfg ch)" and "\<forall>(s, f) \<in> pushed es. s < 2 ^ 32"
  shows "pb_accel_events b' * accel_interval_ticks cfg \<le> length tr"
proof -
  have "pb_tick (with_tuning_channels t cfg ch) = 0" "pb_accel_events (with_tuning_channels t cfg ch) = 0"
    "pb_last_accel (with_tuning_channels t cfg ch) = 0" "pb_cfg (with_tuning_channels t cfg ch) = cfg"
    by (simp_all add: with_tuning_channels_def Let_def)
  with run_pacing [OF pb_ok_new [OF assms(1)] assms(2-4)] show ?thesis
    by (auto simp: pb_ok_def)
qed

lemma demo_calm: "calm_run int_ops demo_run (with_tuning_channels 2 (JB_DEFAULT int_ops) 1)"
  by (simp add: demo_run_def pb_eval pb_calm_def pb_front_def pb_holds_def)

theorem compression_is_bounded_witness:
  "map_option (\<lambda>(tr, b'). pb_accel_events b' * 100 \<le> length tr)
     (pb_run int_ops demo_run (with_tuning_channels 2 (JB_DEFAULT int_ops) 1)) = Some True"
proof -
  obtain b' where run: "pb_run int_ops demo_run (with_tuning_channels 2 (JB_DEFAULT int_ops) 1) = Some (demo_trace, b')"
    using demo_run_obtain unfolding with_tuning_def by blast
  have "\<forall>(s, f) \<in> pushed demo_run. s < 2 ^ 32" by (simp add: demo_run_def)
  from compression_is_bounded [OF tuning_default_ok(1) run demo_calm this] run show ?thesis
    by (simp add: JB_DEFAULT_def)
qed

section \<open>What a stall costs\<close>

lemma front_playing:
  assumes "pb_ok b" and "\<not> pb_prebuffering b" and "pb_depth b \<le> max_frames (pb_cfg b)"
  shows "\<not> pb_holds b" "pb_front b = pb_tick_step b"
proof -
  show "\<not> pb_holds b" using assms(2) by (simp add: pb_holds_def)
  have "pb_trim (pb_tick_step b) = pb_tick_step b"
    by (rule pb_trim_id [OF tick_step_ok [OF assms(1)]]) (use assms(3) in \<open>simp add: pb_depth_def\<close>)
  then show "pb_front b = pb_tick_step b" using assms(2) by (simp add: pb_front_def)
qed

lemma tick_contiguous [simp]: "pb_contiguous (pb_tick_step b) = pb_contiguous b"
  unfolding pb_contiguous_def tick_step_fields by (rule refl)

lemma contiguous_le_depth:
  assumes "pb_ok b" and "pb_next b = Some n"
  shows "pb_contiguous b \<le> pb_depth b"
proof -
  have "run_length n (bt_keys (bt_split_off n (pb_frames b))) \<le> length (bt_keys (pb_frames b))"
    using run_length_le [of n "bt_keys (bt_split_off n (pb_frames b))"]
    by (simp only: bt_keys_split_off) (rule le_trans [OF _ length_filter_le])
  then show ?thesis
    by (simp add: pb_contiguous_def assms(2) pb_depth_def split: option.split)
qed

text \<open>A tick that merges nothing plays the frame at the head of the queue or is an underrun.\<close>

lemma pop_playing:
  assumes ok: "pb_ok b" and "\<not> pb_prebuffering b" and "pb_depth b \<le> max_frames (pb_cfg b)"
    and n: "pb_next b = Some n" and "\<not> accel_due (pb_tick_step b)"
  shows "pb_pop ops b = Some (apfst Some (take_next ops n (pb_tick_step b)))"
  using pb_pop_front [OF front_playing(1) [OF assms(1-3)], of ops]
    try_accelerate_refused [OF tick_step_ok [OF ok], of ops] assms(5) n
  by (simp add: front_playing(2) [OF assms(1-3)])

lemma contiguous_after_take:
  assumes ok: "pb_ok b" and n: "pb_next b = Some n" and c: "pb_contiguous b = Suc d"
    and small: "n + 1 < 2 ^ 32" and b': "pb_ok b'" "pb_next b' = Some (n + 1)"
    "pb_frames b' = bt_remove n (pb_frames b)"
  shows "pb_contiguous b' = d"
proof (rule contiguous_eqI [OF b'(1,2)])
  have s: "\<forall>i < Suc d. n + i \<in> set (bt_keys (pb_frames b))" "n + Suc d \<notin> set (bt_keys (pb_frames b))"
    using contiguous_spec [OF ok n, unfolded c] by blast+
  show "\<forall>i < d. n + 1 + i \<in> set (bt_keys (pb_frames b'))"
  proof (intro allI impI)
    fix i assume "i < d"
    with s(1) have "n + Suc i \<in> set (bt_keys (pb_frames b))" by blast
    then show "n + 1 + i \<in> set (bt_keys (pb_frames b'))" by (simp add: b'(3))
  qed
  show "n + 1 + d \<notin> set (bt_keys (pb_frames b'))" using s(2) by (simp add: b'(3))
qed

definition stall_run :: "nat \<Rightarrow> 'f pb_event list" where
  "stall_run k = replicate k PopTick"

lemma not_due_below:
  assumes "pb_ok b" and "pb_contiguous b \<le> max (min_target (pb_cfg b)) (pb_target b) +
    min (slack (pb_cfg b)) (hard_slack (pb_cfg b))" and "pb_contiguous b < 2 ^ 32 - 1"
  shows "\<not> accel_due (pb_tick_step b)"
proof -
  let ?t = "pb_tick_step b"
  have "max (min_target (pb_cfg b)) (pb_target b) \<le> target_effective ?t"
    using target_effective_eq [OF tick_step_ok [OF assms(1)]] assms(1)
    by (auto simp: pb_ok_def tuning_ok_def)
  with assms(2) have "pb_contiguous b \<le> target_effective ?t + hard_slack (pb_cfg b)"
    "pb_contiguous b \<le> target_effective ?t + slack (pb_cfg b)" by linarith+
  with assms(3) show ?thesis by (auto simp: accel_due_def u32_saturating_add_def)
qed

lemma stall_plays:
  assumes "pb_ok b" and "\<not> pb_prebuffering b" and "pb_depth b \<le> max_frames (pb_cfg b)"
    and "pb_next b = Some n" and "pb_contiguous b = d" and "k \<le> d" and "n + d < 2 ^ 32 - 1"
    and "d \<le> max (min_target (pb_cfg b)) (pb_target b) + min (slack (pb_cfg b)) (hard_slack (pb_cfg b))"
  shows "\<exists>b'. pb_run ops (stall_run k) b =
      Some (map (\<lambda>i. ([n + i], bt_lookup (pb_frames b) (n + i))) [0..<k], b') \<and>
    pb_ok b' \<and> \<not> pb_prebuffering b' \<and> pb_depth b' \<le> max_frames (pb_cfg b') \<and>
    pb_next b' = Some (n + k) \<and> pb_contiguous b' = d - k \<and> pb_underruns b' = pb_underruns b \<and>
    pb_cfg b' = pb_cfg b \<and> pb_target b' = pb_target b"
  using assms
proof (induction k arbitrary: b n d)
  case 0
  then show ?case by (simp add: stall_run_def)
next
  case (Suc k)
  then obtain d' where d: "d = Suc d'" by (cases d) auto
  have "0 < pb_contiguous b" using Suc.prems d by simp
  from front_frames(1) [OF Suc.prems(1,4) this] obtain fa where
    fa: "bt_lookup (pb_frames b) n = Some fa" by auto
  have nd: "\<not> accel_due (pb_tick_step b)"
    by (rule not_due_below) (use Suc.prems in simp_all)
  note pop = pop_playing [OF Suc.prems(1-4) nd, of ops]
  define b1 where "b1 = snd (take_next ops n (pb_tick_step b))"
  have small: "n + 1 < 2 ^ 32" using Suc.prems(7) d by simp
  have pop1: "pb_pop ops b = Some (Some fa, b1)"
    unfolding pop b1_def by (simp add: take_next_def fa)
  have b1: "pb_frames b1 = bt_remove n (pb_frames b)" "pb_next b1 = Some (n + 1)"
    "pb_cfg b1 = pb_cfg b" "pb_target b1 = pb_target b" "\<not> pb_prebuffering b1"
    "pb_underruns b1 = pb_underruns b" "pb_popped b1 = pb_popped b + 1"
    "pb_accel_events b1 = pb_accel_events b"
    using Suc.prems(2) small by (simp_all add: b1_def take_next_def fa seq_next_eq)
  have ok1: "pb_ok b1" unfolding b1_def
    by (rule pb_ok_take [OF tick_step_ok [OF Suc.prems(1)]]) (simp add: Suc.prems(4))
  have c1: "pb_contiguous b1 = d'"
    by (rule contiguous_after_take [OF Suc.prems(1,4) _ small ok1 b1(2,1)]) (simp add: Suc.prems(5) d)
  have dep: "pb_depth b1 \<le> max_frames (pb_cfg b1)"
    using Suc.prems(3) bt_length_sub(1) [of n "pb_frames b"] b1(1,3)
    by (simp add: pb_depth_def)
  have taken: "pb_taken b b1 = [n]"
    using small by (simp add: pb_taken_def b1 seq_prev_eq)
  from Suc.IH [OF ok1 b1(5) dep b1(2) c1] Suc.prems d b1
  obtain b' where b': "pb_run ops (stall_run k) b1 =
      Some (map (\<lambda>i. ([n + 1 + i], bt_lookup (pb_frames b1) (n + 1 + i))) [0..<k], b')"
    "pb_ok b'" "\<not> pb_prebuffering b'" "pb_depth b' \<le> max_frames (pb_cfg b')"
    "pb_next b' = Some (n + 1 + k)" "pb_contiguous b' = d' - k" "pb_underruns b' = pb_underruns b"
    "pb_cfg b' = pb_cfg b" "pb_target b' = pb_target b"
    by auto
  have look: "bt_lookup (pb_frames b1) (Suc (n + i)) = bt_lookup (pb_frames b) (Suc (n + i))" for i
    by (simp add: b1(1))
  have "pb_run ops (stall_run (Suc k)) b = Some (([n], Some fa) #
      map (\<lambda>i. ([n + Suc i], bt_lookup (pb_frames b) (n + Suc i))) [0..<k], b')"
    using b'(1) by (simp add: stall_run_def pop1 taken look)
  also have "([n], Some fa) # map (\<lambda>i. ([n + Suc i], bt_lookup (pb_frames b) (n + Suc i))) [0..<k] =
      map (\<lambda>i. ([n + i], bt_lookup (pb_frames b) (n + i))) [0..<Suc k]"
    by (simp add: upt_conv_Cons fa map_Suc_upt [symmetric] del: upt_Suc)
  finally have run: "pb_run ops (stall_run (Suc k)) b =
      Some (map (\<lambda>i. ([n + i], bt_lookup (pb_frames b) (n + i))) [0..<Suc k], b')" .
  from b' show ?case
    by (intro exI [of _ b'] conjI) (simp_all add: run d del: upt_Suc)
qed

text \<open>
  The stall tolerance is exactly the queued depth: with no arrivals, a buffer that is playing and
  not above its water line plays the next \<open>d\<close> queued frames in order, one per tick and without
  concealment, where \<open>d\<close> is its contiguous depth; the tick after that is an underrun, which
  conceals, raises the penalty by \<open>underrun_step\<close> up to \<open>extra_max\<close>, and starts rebuilding depth.
\<close>

theorem stall_tolerance_is_the_depth:
  assumes "pb_ok b" and "\<not> pb_prebuffering b" and "pb_depth b \<le> max_frames (pb_cfg b)"
    and "pb_next b = Some n" and "pb_contiguous b = d" and "n + d < 2 ^ 32 - 1"
    and "d \<le> max (min_target (pb_cfg b)) (pb_target b) + min (slack (pb_cfg b)) (hard_slack (pb_cfg b))"
  shows "\<exists>b' r b''.
    pb_run ops (stall_run d) b = Some (map (\<lambda>i. ([n + i], bt_lookup (pb_frames b) (n + i))) [0..<d], b') \<and>
    (\<forall>i < d. bt_lookup (pb_frames b) (n + i) \<noteq> None) \<and> pb_underruns b' = pb_underruns b \<and>
    pb_pop ops b' = Some (r, b'') \<and> r \<noteq> None \<and> pb_underruns b'' = pb_underruns b + 1 \<and>
    pb_prebuffering b'' \<and> pb_next b'' = Some (n + d) \<and>
    pb_extra b'' = min (pb_extra (pb_tick_step b') + underrun_step (pb_cfg b)) (extra_max (pb_cfg b))"
proof -
  from stall_plays [OF assms(1-5) order_refl assms(6,7), of ops]
  obtain b' where run: "pb_run ops (stall_run d) b =
      Some (map (\<lambda>i. ([n + i], bt_lookup (pb_frames b) (n + i))) [0..<d], b')"
    and b': "pb_ok b'" "\<not> pb_prebuffering b'" "pb_depth b' \<le> max_frames (pb_cfg b')"
    "pb_next b' = Some (n + d)" "pb_contiguous b' = 0" "pb_underruns b' = pb_underruns b"
    "pb_cfg b' = pb_cfg b" "pb_target b' = pb_target b" by auto
  have "\<not> accel_due (pb_tick_step b')" by (rule not_due_below [OF b'(1)]) (simp_all add: b'(5))
  note pop = pop_playing [OF b'(1-3,4) this, of ops]
  have "bt_lookup (pb_frames b') (n + d) = None"
    using contiguous_spec [OF b'(1,4)] b'(5) by (simp add: bt_lookup_None)
  moreover have "pb_extra (pb_tick_step b') + underrun_step (pb_cfg b) < 2 ^ 32"
  proof -
    have "extra_max (pb_cfg b) + underrun_step (pb_cfg b) < 2 ^ 32" "pb_extra b' \<le> extra_max (pb_cfg b)"
      using b'(1,7) by (auto simp: pb_ok_def tuning_ok_def)
    then show ?thesis using tick_step_fields(12) [of b'] by linarith
  qed
  ultimately have take: "\<exists>r b''. pb_pop ops b' = Some (r, b'') \<and> r \<noteq> None \<and>
      pb_underruns b'' = pb_underruns b + 1 \<and> pb_prebuffering b'' \<and> pb_next b'' = Some (n + d) \<and>
      pb_extra b'' = min (pb_extra (pb_tick_step b') + underrun_step (pb_cfg b)) (extra_max (pb_cfg b))"
    unfolding pop by (simp add: take_next_def b' apfst_def map_prod_def split_beta)
  have "\<forall>i < d. bt_lookup (pb_frames b) (n + i) \<noteq> None"
    using front_frames(1) [OF assms(1,4)] assms(5) by auto
  with run take b'(6) show ?thesis by blast
qed

section \<open>Steering\<close>

lemma steer_cfg_extra [simp]: "pb_extra (set_target_effective w b) = pb_extra b"
  by (simp add: set_target_effective_def Let_def)

lemma steer_eff:
  assumes "pb_ok b"
  shows "target_effective (set_target_effective w b) =
      min (max_target (pb_cfg b)) (max w (min_target (pb_cfg b) + pb_extra b))"
proof -
  have t: "1 \<le> min_target (pb_cfg b)" "min_target (pb_cfg b) \<le> max_target (pb_cfg b)"
    using assms by (auto simp: pb_ok_def tuning_ok_def)
  have f: "pb_target (set_target_effective w b) =
      max (min_target (pb_cfg b)) (min (max_target (pb_cfg b)) (max (w - pb_extra b) 1))"
    by (simp add: set_target_effective_def Let_def u32_clamp_eq [OF t(2)])
  show ?thesis
    unfolding target_effective_eq [OF pb_ok_steer [OF assms]] control_fields f steer_cfg_extra using t by linarith
qed

text \<open>
  The latency controller speaks in effective depth, penalty included: after it asks for a depth
  the effective target is that depth, as far as the envelope and the learned penalty allow, so
  the penalty is neither erased nor counted twice.
\<close>

theorem steering_keeps_the_penalty:
  assumes "pb_ok b"
  shows "target_effective (set_target_effective w b) =
      min (max_target (pb_cfg b)) (max w (min_target (pb_cfg b) + pb_extra b)) \<and>
    pb_extra (set_target_effective w b) = pb_extra b"
  by (simp add: steer_eff [OF assms])

theorem steering_keeps_the_penalty_witness:
  "target_effective (set_target_effective 9 ((with_tuning 2 (JB_DEFAULT int_ops))\<lparr>pb_extra := 2\<rparr>)) = 9"
proof -
  have "pb_ok ((with_tuning 2 (JB_DEFAULT int_ops))\<lparr>pb_extra := 2\<rparr>)"
    using demo_ok by (simp add: pb_ok_def with_tuning_def with_tuning_channels_def Let_def JB_DEFAULT_def)
  from steering_keeps_the_penalty [OF this, of 9] show ?thesis
    by (simp add: with_tuning_def with_tuning_channels_def Let_def JB_DEFAULT_def)
qed

section \<open>Convergence\<close>

text \<open>
  The queue in steady flow: playing, without a hole and without a penalty. In one cycle the frame
  at the end of the queue arrives and one tick passes.
\<close>

definition flow :: "'f play_buffer \<Rightarrow> nat \<Rightarrow> nat \<Rightarrow> bool" where
  "flow b n d \<longleftrightarrow> pb_ok b \<and> \<not> pb_prebuffering b \<and> pb_next b = Some n \<and>
     set (bt_keys (pb_frames b)) = {n..<n + d} \<and> pb_extra b = 0"

definition water_line :: "'f play_buffer \<Rightarrow> nat" where
  "water_line b = target_effective b + min (slack (pb_cfg b)) (hard_slack (pb_cfg b))"

definition accel_wait :: "'f play_buffer \<Rightarrow> nat" where
  "accel_wait b = (accel_interval_ticks (pb_cfg b) - (pb_tick b - pb_last_accel b)) +
     (ncc_retry_ticks (pb_cfg b) - pb_ncc_defer b)"

definition accel_period :: "'f play_buffer \<Rightarrow> nat" where
  "accel_period b = accel_interval_ticks (pb_cfg b) + ncc_retry_ticks (pb_cfg b)"

lemma flow_depth:
  assumes "flow b n d"
  shows "pb_depth b = d" and "pb_contiguous b = d"
proof -
  have "distinct (bt_keys (pb_frames b))" using assms by (auto simp: flow_def pb_ok_def bt_ok_distinct)
  from distinct_card [OF this] show "pb_depth b = d"
    using assms by (simp add: flow_def pb_depth_def)
  show "pb_contiguous b = d"
    by (rule contiguous_eqI) (use assms in \<open>auto simp: flow_def\<close>)
qed

lemma flow_push:
  assumes "flow b n d" and "n + d < 2 ^ 32"
  shows "flow (pb_push (n + d) f b) n (Suc d)"
proof -
  have "pb_next b = Some n" using assms(1) by (simp add: flow_def)
  then have "set (bt_keys (pb_frames (pb_push (n + d) f b))) = insert (n + d) (set (bt_keys (pb_frames b)))"
    "pb_prebuffering (pb_push (n + d) f b) = pb_prebuffering b" "pb_extra (pb_push (n + d) f b) = pb_extra b"
    by (simp_all add: pb_push_def Let_def)
  with assms pb_ok_push [of b "n + d" f] show ?thesis by (auto simp: flow_def)
qed

lemma flow_tick:
  assumes "flow b n d"
  shows "flow (pb_tick_step b) n d" "target_effective (pb_tick_step b) = target_effective b"
proof -
  have "pb_extra (pb_tick_step b) = 0" using assms tick_step_fields(12) [of b] by (simp add: flow_def)
  with assms tick_step_ok [of b] show "flow (pb_tick_step b) n d"
    "target_effective (pb_tick_step b) = target_effective b"
    by (auto simp: flow_def intro: target_effective_cong)
qed

lemma flow_take:
  assumes "flow b n (Suc d)" and "n + 1 < 2 ^ 32"
  shows "flow (snd (take_next ops n b)) (n + 1) d"
    "pb_underruns (snd (take_next ops n b)) = pb_underruns b"
proof -
  have ok: "pb_ok b" "pb_next b = Some n" using assms(1) by (simp_all add: flow_def)
  have "n \<in> set (bt_keys (pb_frames b))" using assms(1) by (simp add: flow_def)
  then obtain fa where fa: "bt_lookup (pb_frames b) n = Some fa" using bt_lookup_None by fastforce
  have "set (bt_keys (bt_remove n (pb_frames b))) = {n + 1..<n + 1 + d}"
    using assms(1) by (auto simp: flow_def)
  with assms pb_ok_take [OF ok, of ops] fa show "flow (snd (take_next ops n b)) (n + 1) d"
    "pb_underruns (snd (take_next ops n b)) = pb_underruns b"
    by (simp_all add: flow_def take_next_def seq_next_eq)
qed

lemma flow_merge:
  assumes "flow b n (Suc (Suc d))" and "n + 2 < 2 ^ 32"
  shows "flow (snd (merge_front ops n b)) (n + 2) d" "pb_last_accel (snd (merge_front ops n b)) = pb_tick b"
    "pb_tick (snd (merge_front ops n b)) = pb_tick b" "pb_ncc_defer (snd (merge_front ops n b)) = pb_ncc_defer b"
    "pb_underruns (snd (merge_front ops n b)) = pb_underruns b"
    "pb_cfg (snd (merge_front ops n b)) = pb_cfg b" "pb_target (snd (merge_front ops n b)) = pb_target b"
    "\<exists>f. fst (merge_front ops n b) = Some f"
proof -
  have ok: "pb_ok b" "pb_next b = Some n" using assms(1) by (simp_all add: flow_def)
  have "n \<in> set (bt_keys (pb_frames b))" "n + 1 \<in> set (bt_keys (pb_frames b))"
    using assms(1) by (simp_all add: flow_def)
  then obtain fa fb where fab: "bt_lookup (pb_frames b) n = Some fa"
    "bt_lookup (pb_frames b) (n + 1) = Some fb" by (metis bt_lookup_None option.exhaust)
  have small: "n + 1 < 2 ^ 32" using assms(2) by simp
  note res = merge_front_result [OF fab small, of ops]
  have "set (bt_keys (bt_remove (n + 1) (bt_remove n (pb_frames b)))) = {n + 2..<n + 2 + d}"
    using assms(1) by (auto simp: flow_def)
  moreover have "seq_next (n + 1) = n + 2" using assms(2) by (simp add: seq_next_eq)
  ultimately show "flow (snd (merge_front ops n b)) (n + 2) d"
    using assms(1) pb_ok_merge [OF ok fab small, of ops] by (simp only: flow_def res) simp
  show "pb_last_accel (snd (merge_front ops n b)) = pb_tick b"
    "pb_tick (snd (merge_front ops n b)) = pb_tick b" "pb_ncc_defer (snd (merge_front ops n b)) = pb_ncc_defer b"
    "pb_underruns (snd (merge_front ops n b)) = pb_underruns b"
    "pb_cfg (snd (merge_front ops n b)) = pb_cfg b" "pb_target (snd (merge_front ops n b)) = pb_target b"
    "\<exists>f. fst (merge_front ops n b) = Some f" by (simp_all only: res) blast
qed

text \<open>One tick of the flow: above the water line it merges, or its waiting time shrinks.\<close>

lemma flow_counters: "flow (b\<lparr>pb_ncc_defer := i\<rparr>) n d = flow b n d"
    "flow (b\<lparr>pb_accel_deferred := j\<rparr>) n d = flow b n d"
  by (simp_all add: flow_def)

lemma flow_pop:
  assumes fl: "flow b n (Suc d)" and cap: "Suc d \<le> max_frames (pb_cfg b)" and small: "n + Suc d < 2 ^ 32 - 1"
  shows "\<exists>r b'. pb_pop ops b = Some (r, b') \<and> pb_cfg b' = pb_cfg b \<and> pb_target b' = pb_target b \<and>
    pb_underruns b' = pb_underruns b \<and>
    (if Suc d \<le> water_line b then flow b' (n + 1) d
     else flow b' (n + 1) d \<and> accel_wait b' < accel_wait b \<or>
          1 \<le> d \<and> flow b' (n + 2) (d - 1) \<and> accel_wait b' \<le> accel_period b)"
proof -
  let ?t = "pb_tick_step b"
  have ok: "pb_ok b" "\<not> pb_prebuffering b" "pb_depth b \<le> max_frames (pb_cfg b)" "pb_next b = Some n"
    and e: "pb_contiguous b = Suc d" "pb_extra b = 0"
    using fl cap flow_depth [OF fl] by (simp_all add: flow_def)
  note t = flow_tick [OF fl]
  have okt: "pb_ok ?t" "pb_next ?t = Some n" "pb_contiguous ?t = Suc d"
    using t(1) e by (simp_all add: flow_def)
  have la: "pb_last_accel b \<le> pb_tick b" using ok(1) by (simp add: pb_ok_def)
  have tpos: "1 \<le> target_effective b" by (rule target_effective_bounds(1) [OF ok(1)])
  have due: "accel_due ?t \<longleftrightarrow> target_effective b + hard_slack (pb_cfg b) < Suc d \<or>
      target_effective b + slack (pb_cfg b) < Suc d \<and>
      accel_interval_ticks (pb_cfg b) \<le> pb_tick b + 1 - pb_last_accel b"
    using small unfolding accel_due_def t(2) okt(3) u32_saturating_add_def by auto
  have play: ?thesis if "pb_pop ops b = Some (apfst Some (take_next ops n c))" "flow c n (Suc d)"
      "pb_cfg c = pb_cfg b" "pb_target c = pb_target b" "pb_underruns c = pb_underruns b"
      "pb_tick c = pb_tick b + 1" "pb_last_accel c = pb_last_accel b"
      "Suc d \<le> water_line b \<or> accel_wait c < accel_wait b" for c
  proof -
    have s: "n + 1 < 2 ^ 32" using small by simp
    note f = flow_take [OF that(2) s, of ops] and g = take_next_pacing [of ops n c]
    have "accel_wait (snd (take_next ops n c)) = accel_wait c" by (simp add: accel_wait_def g)
    with f g that show ?thesis by (auto simp: apfst_def map_prod_def split_beta)
  qed
  show ?thesis
  proof (cases "accel_due ?t")
    case False
    show ?thesis
    proof (rule play [OF pop_playing [OF ok False] t(1)])
      show "Suc d \<le> water_line b \<or> accel_wait ?t < accel_wait b"
        using False la unfolding due by (auto simp: water_line_def accel_wait_def)
    qed simp_all
  next
    case True
    then have above: "water_line b < Suc d" unfolding due by (auto simp: water_line_def)
    with tpos have d1: "1 \<le> d" by (simp add: water_line_def)
    have two: "2 \<le> pb_contiguous ?t" using d1 okt(3) by simp
    note due' = try_accelerate_due [OF okt(1,2) True two, of ops]
    note pop = pb_pop_front [OF front_playing(1) [OF ok(1-3)], of ops, unfolded front_playing(2) [OF ok(1-3)]]
    let ?refused = "\<not> target_effective ?t + hard_slack (pb_cfg ?t) < pb_contiguous ?t \<and>
        \<not> splice_allowed ops n ?t \<and> pb_ncc_defer ?t < ncc_retry_ticks (pb_cfg ?t)"
    show ?thesis
    proof (cases ?refused)
      case True
      let ?c = "?t\<lparr>pb_ncc_defer := pb_ncc_defer ?t + 1, pb_accel_deferred := pb_accel_deferred ?t + 1\<rparr>"
      have acc: "try_accelerate ops ?t = (None, ?c)" using True due' by simp
      have "pb_next ?c = Some n" using okt(2) by simp
      then have "pb_pop ops b = Some (apfst Some (take_next ops n ?c))" unfolding pop acc by simp
      then show ?thesis
      proof (rule play)
        show "flow ?c n (Suc d)" using t(1) by (simp only: flow_counters)
        have "pb_ncc_defer b < ncc_retry_ticks (pb_cfg b)" using True by simp
        then have "accel_wait ?c < accel_wait b" using la unfolding accel_wait_def by simp
        then show "Suc d \<le> water_line b \<or> accel_wait ?c < accel_wait b" ..
      qed simp_all
    next
      case False
      let ?c = "?t\<lparr>pb_ncc_defer := 0\<rparr>"
      have acc: "try_accelerate ops ?t = merge_front ops n ?c" unfolding due' using False by (rule if_not_P)
      have "flow ?c n (Suc (Suc (d - 1)))" using t(1) d1 by (simp only: flow_counters) simp
      moreover have "n + 2 < 2 ^ 32" using small d1 by simp
      ultimately have m: "flow (snd (merge_front ops n ?c)) (n + 2) (d - 1)"
        "pb_last_accel (snd (merge_front ops n ?c)) = pb_tick ?c" "pb_tick (snd (merge_front ops n ?c)) = pb_tick ?c"
        "pb_ncc_defer (snd (merge_front ops n ?c)) = pb_ncc_defer ?c"
        "pb_underruns (snd (merge_front ops n ?c)) = pb_underruns ?c"
        "pb_cfg (snd (merge_front ops n ?c)) = pb_cfg ?c" "pb_target (snd (merge_front ops n ?c)) = pb_target ?c"
        "\<exists>f. fst (merge_front ops n ?c) = Some f"
        by (rule flow_merge)+
      from m(8) obtain f where f: "merge_front ops n ?c = (Some f, snd (merge_front ops n ?c))"
        by (metis prod.collapse)
      have "pb_pop ops b = Some (Some f, snd (merge_front ops n ?c))" unfolding pop acc by (subst f) simp
      moreover have "accel_wait (snd (merge_front ops n ?c)) \<le> accel_period b"
        by (simp add: accel_wait_def accel_period_def m)
      ultimately show ?thesis using m above d1 by auto
    qed
  qed
qed

fun flow_events :: "nat \<Rightarrow> 'f list list \<Rightarrow> 'f pb_event list" where
  "flow_events k [] = []"
| "flow_events k (f # fs) = PushFrame k f # PopTick # flow_events (k + 1) fs"

definition drain_bound :: "'f play_buffer \<Rightarrow> nat \<Rightarrow> nat" where
  "drain_bound b d = (d + 1 - water_line b) * (accel_period b + 1)"

lemma flow_same:
  assumes "flow b n d" and "flow b' n' d'" and "pb_cfg b' = pb_cfg b" and "pb_target b' = pb_target b"
  shows "water_line b' = water_line b" "accel_period b' = accel_period b"
proof -
  have "target_effective b' = target_effective b"
    using assms by (intro target_effective_cong) (simp_all add: flow_def)
  with assms show "water_line b' = water_line b" "accel_period b' = accel_period b"
    by (simp_all add: water_line_def accel_period_def)
qed

lemma push_same [simp]:
  "pb_target (pb_push s f b) = pb_target b" "pb_underruns (pb_push s f b) = pb_underruns b"
  "pb_ncc_defer (pb_push s f b) = pb_ncc_defer b"
  by (simp_all add: pb_push_def Let_def)

lemma wait_le_period: "accel_wait b \<le> accel_period b"
  by (simp add: accel_wait_def accel_period_def add_mono)

lemma flow_cycle:
  assumes fl: "flow b n d" and cap: "d < max_frames (pb_cfg b)" and small: "n + d + 1 < 2 ^ 32 - 1"
  shows "\<exists>r b' n' d'. pb_pop ops (pb_push (n + d) f b) = Some (r, b') \<and> flow b' n' d' \<and>
    n' + d' = n + d + 1 \<and> d' \<le> d \<and> min d (water_line b - 1) \<le> d' \<and>
    pb_cfg b' = pb_cfg b \<and> pb_target b' = pb_target b \<and> pb_underruns b' = pb_underruns b \<and>
    (d < water_line b \<or> drain_bound b' d' + accel_wait b' < drain_bound b d + accel_wait b)"
proof -
  let ?c = "pb_push (n + d) f b"
  have c: "flow ?c n (Suc d)" using flow_push [OF fl] small by simp
  have same: "water_line ?c = water_line b" "accel_period ?c = accel_period b"
    using flow_same [OF fl c] by simp_all
  have wait: "accel_wait ?c = accel_wait b" by (simp add: accel_wait_def)
  have "Suc d \<le> max_frames (pb_cfg ?c)" and "n + Suc d < 2 ^ 32 - 1" using cap small by simp_all
  from flow_pop [OF c this, of ops] obtain r b' where
    pop: "pb_pop ops ?c = Some (r, b')" "pb_cfg b' = pb_cfg b" "pb_target b' = pb_target b"
      "pb_underruns b' = pb_underruns b"
    and step: "if Suc d \<le> water_line b then flow b' (n + 1) d
     else flow b' (n + 1) d \<and> accel_wait b' < accel_wait b \<or>
          1 \<le> d \<and> flow b' (n + 2) (d - 1) \<and> accel_wait b' \<le> accel_period b"
    by (simp only: same wait push_fields push_same) blast
  consider (below) "Suc d \<le> water_line b" "flow b' (n + 1) d"
    | (waits) "water_line b \<le> d" "flow b' (n + 1) d" "accel_wait b' < accel_wait b"
    | (merges) "water_line b \<le> d" "1 \<le> d" "flow b' (n + 2) (d - 1)" "accel_wait b' \<le> accel_period b"
    using step by (auto split: if_splits)
  then show ?thesis
  proof cases
    case below
    with pop show ?thesis by (intro exI [of _ r] exI [of _ b'] exI [of _ "n + 1"] exI [of _ d]) simp
  next
    case waits
    note s = flow_same [OF fl waits(2) pop(2,3)]
    have "drain_bound b' d + accel_wait b' < drain_bound b d + accel_wait b"
      using waits(3) by (simp add: drain_bound_def s)
    with waits pop show ?thesis
      by (intro exI [of _ r] exI [of _ b'] exI [of _ "n + 1"] exI [of _ d]) simp
  next
    case merges
    note s = flow_same [OF fl merges(3) pop(2,3)]
    have "d + 1 - water_line b = Suc (d - 1 + 1 - water_line b)" using merges(1,2) by simp
    then have "drain_bound b d = drain_bound b' (d - 1) + (accel_period b + 1)"
      by (simp add: drain_bound_def s)
    with merges(4) have "drain_bound b' (d - 1) + accel_wait b' < drain_bound b d + accel_wait b" by simp
    with merges pop show ?thesis
      by (intro exI [of _ r] exI [of _ b'] exI [of _ "n + 2"] exI [of _ "d - 1"]) auto
  qed
qed

lemma flow_drains:
  assumes "flow b n d" and "d < max_frames (pb_cfg b)" and "n + d + length fs < 2 ^ 32 - 1"
  shows "\<exists>tr b' n' d'. pb_run ops (flow_events (n + d) fs) b = Some (tr, b') \<and> flow b' n' d' \<and>
    d' \<le> d \<and> min d (water_line b - 1) \<le> d' \<and> pb_underruns b' = pb_underruns b \<and>
    (d' < water_line b \<or> length fs \<le> drain_bound b d + accel_wait b)"
  using assms
proof (induction fs arbitrary: b n d)
  case Nil
  then show ?case by (intro exI [of _ "[]"] exI [of _ b] exI [of _ n] exI [of _ d]) simp
next
  case (Cons f fs)
  from flow_cycle [OF Cons.prems(1,2), of ops f] Cons.prems(3)
  obtain r b1 n1 d1 where c: "pb_pop ops (pb_push (n + d) f b) = Some (r, b1)" "flow b1 n1 d1"
    "n1 + d1 = n + d + 1" "d1 \<le> d" "min d (water_line b - 1) \<le> d1"
    "pb_cfg b1 = pb_cfg b" "pb_target b1 = pb_target b" "pb_underruns b1 = pb_underruns b"
    "d < water_line b \<or> drain_bound b1 d1 + accel_wait b1 < drain_bound b d + accel_wait b"
    by auto
  note s = flow_same [OF Cons.prems(1) c(2,6,7)]
  from Cons.IH [OF c(2)] Cons.prems(2,3) c(3,4,6)
  obtain tr b' n' d' where IH: "pb_run ops (flow_events (n1 + d1) fs) b1 = Some (tr, b')"
    "flow b' n' d'" "d' \<le> d1" "min d1 (water_line b - 1) \<le> d'" "pb_underruns b' = pb_underruns b1"
    "d' < water_line b \<or> length fs \<le> drain_bound b1 d1 + accel_wait b1"
    by (auto simp: s)
  have run: "\<exists>tr. pb_run ops (flow_events (n + d) (f # fs)) b = Some (tr, b')"
    using c(1,3) IH(1) by simp
  have "d' \<le> d" "min d (water_line b - 1) \<le> d'" using IH(3,4) c(4,5) by simp_all
  moreover have "d' < water_line b \<or> length (f # fs) \<le> drain_bound b d + accel_wait b"
    using IH(6) c(9) IH(3) c(4) by auto
  ultimately show ?case using run IH(2,5) c(8) by auto
qed

text \<open>
  The depth converges to the target instead of staying wherever a burst left it: in steady flow,
  from any depth \<open>d\<close> within the memory bound, after enough cycles the contiguous depth is one
  below the water line (or still \<open>d\<close>, if it was lower), without a single underrun. Each excess
  frame takes at most \<open>accel_interval_ticks + ncc_retry_ticks + 1\<close> ticks, whatever the
  correlation of the frames.
\<close>

theorem depth_converges:
  assumes "flow b n d" and "d < max_frames (pb_cfg b)" and "n + d + length fs < 2 ^ 32 - 1"
    and "(d + 1 - water_line b) * (accel_period b + 1) + accel_period b < length fs"
  shows "\<exists>tr b'. pb_run ops (flow_events (n + d) fs) b = Some (tr, b') \<and>
    pb_contiguous b' = min d (target_effective b + min (slack (pb_cfg b)) (hard_slack (pb_cfg b)) - 1) \<and>
    pb_underruns b' = pb_underruns b"
proof -
  from flow_drains [OF assms(1-3), of ops] obtain tr b' n' d' where
    run: "pb_run ops (flow_events (n + d) fs) b = Some (tr, b')" "flow b' n' d'" "d' \<le> d"
    "min d (water_line b - 1) \<le> d'" "pb_underruns b' = pb_underruns b"
    "d' < water_line b \<or> length fs \<le> drain_bound b d + accel_wait b" by blast
  have "\<not> length fs \<le> drain_bound b d + accel_wait b"
    using assms(4) wait_le_period [of b] by (simp add: drain_bound_def)
  with run have "d' = min d (water_line b - 1)" by auto
  with run flow_depth(2) [OF run(2)] show ?thesis by (simp add: water_line_def)
qed

text \<open>A buffer that is playing, with \<open>d\<close> frames queued.\<close>

definition demo_playing :: "nat \<Rightarrow> int jb_tuning \<Rightarrow> int play_buffer" where
  "demo_playing d cfg = (with_tuning 2 cfg)\<lparr>pb_frames := map (\<lambda>k. (k, [1])) [0..<d],
     pb_next := Some 0, pb_prebuffering := False\<rparr>"

lemma demo_keys: "bt_keys (map (\<lambda>k. (k, v)) ks) = ks"
  by (induction ks) simp_all

lemma demo_flow:
  assumes "tuning_ok cfg" and "d < 2 ^ 32"
  shows "flow (demo_playing d cfg) 0 d"
proof -
  have "bt_ok (map (\<lambda>k. (k, [1 :: int])) [0..<d])" by (simp add: bt_ok_def demo_keys)
  with pb_ok_new [OF assms(1), of 2 1] assms(2) show ?thesis
    by (simp add: flow_def demo_playing_def pb_ok_def demo_keys with_tuning_def with_tuning_channels_def Let_def)
qed

lemma demo_target: "tuning_ok cfg \<Longrightarrow> max_target cfg = 12 \<Longrightarrow> min_target cfg = 4 \<Longrightarrow> d < 2 ^ 32 \<Longrightarrow>
    target_effective (demo_playing d cfg) = 4"
  using target_effective_eq [of "demo_playing d cfg"] demo_flow [of cfg d]
  by (simp add: flow_def demo_playing_def with_tuning_def with_tuning_channels_def Let_def u32_clamp_def)

definition fast_tuning :: "int jb_tuning" where
  "fast_tuning = (JB_DEFAULT int_ops)\<lparr>accel_interval_ticks := 1, ncc_retry_ticks := 1\<rparr>"

lemma fast_tuning_ok: "tuning_ok fast_tuning"
  using tuning_default_ok(1) by (simp add: tuning_ok_def fast_tuning_def)

theorem depth_converges_witness:
  "\<exists>tr b'. pb_run int_ops (flow_events 6 (replicate 9 [1])) (demo_playing 6 fast_tuning) = Some (tr, b') \<and>
     pb_contiguous b' = 4"
proof -
  let ?b = "demo_playing 6 fast_tuning"
  have t: "target_effective ?b = 4"
    by (rule demo_target [OF fast_tuning_ok]) (simp_all add: fast_tuning_def JB_DEFAULT_def)
  have c: "pb_cfg ?b = fast_tuning"
    by (simp add: demo_playing_def with_tuning_def with_tuning_channels_def Let_def)
  have f: "flow ?b 0 6" by (rule demo_flow [OF fast_tuning_ok]) simp
  have v: "slack fast_tuning = 1" "hard_slack fast_tuning = 6" "max_frames fast_tuning = 24"
    "accel_interval_ticks fast_tuning = 1" "ncc_retry_ticks fast_tuning = 1"
    by (simp_all add: fast_tuning_def JB_DEFAULT_def)
  from depth_converges [OF f, of "replicate 9 [1]" int_ops] show ?thesis
    by (auto simp: water_line_def accel_period_def t c v)
qed

theorem stall_tolerance_witness:
  "\<exists>b' r b''. pb_run int_ops (stall_run 5) (demo_playing 5 (JB_DEFAULT int_ops)) =
      Some (map (\<lambda>i. ([i], bt_lookup (map (\<lambda>k. (k, [1])) [0..<5]) i)) [0..<5], b') \<and>
     pb_pop int_ops b' = Some (r, b'') \<and> pb_underruns b'' = 1"
proof -
  let ?b = "demo_playing 5 (JB_DEFAULT int_ops)"
  have f: "flow ?b 0 5" by (rule demo_flow [OF tuning_default_ok(1)]) simp
  have d: "pb_frames ?b = map (\<lambda>k. (k, [1])) [0..<5]" "pb_cfg ?b = JB_DEFAULT int_ops" "pb_underruns ?b = 0"
    by (simp_all add: demo_playing_def with_tuning_def with_tuning_channels_def Let_def)
  have "pb_ok ?b" "\<not> pb_prebuffering ?b" "pb_next ?b = Some 0" using f by (simp_all add: flow_def)
  moreover have "pb_depth ?b \<le> max_frames (pb_cfg ?b)"
    unfolding flow_depth(1) [OF f] d(2) by (simp add: JB_DEFAULT_def)
  moreover have "(5 :: nat) \<le> max (min_target (pb_cfg ?b)) (pb_target ?b) +
      min (slack (pb_cfg ?b)) (hard_slack (pb_cfg ?b))" unfolding d(2) by (simp add: JB_DEFAULT_def)
  ultimately show ?thesis
    using stall_tolerance_is_the_depth [of ?b 0 5 int_ops] flow_depth(2) [OF f] d by auto
qed

section \<open>The tuning\<close>

text \<open>The overridden fields, one by one.\<close>

lemma env_over_fields:
  "min_target (env_over ops env d pre) = max (env_uint env pre (2 ^ 32 - 1) ''MIN_TARGET'' (min_target d)) 1"
  "max_target (env_over ops env d pre) =
     max (max (env_uint env pre (2 ^ 32 - 1) ''MAX_TARGET'' (max_target d)) 1) (min_target (env_over ops env d pre))"
  "hard_slack (env_over ops env d pre) = env_uint env pre (2 ^ 32 - 1) ''HARD_SLACK'' (hard_slack d)"
  "max_frames (env_over ops env d pre) =
     max (max (env_uint env pre (2 ^ 32 - 1) ''MAX_FRAMES'' (max_frames d)) 2)
       (u32_add (u32_add (max_target (env_over ops env d pre)) (hard_slack (env_over ops env d pre))) 1)"
  "extra_decay_ticks (env_over ops env d pre) =
     max (env_uint env pre (2 ^ 64 - 1) ''EXTRA_DECAY_TICKS'' (extra_decay_ticks d)) 1"
  unfolding env_over_def Let_def
  by (simp_all only: jb_tuning.simps jb_tuning.update_convs)

text \<open>
  Whatever the environment says, the tuning has an ordered, non-empty envelope; and unless the
  latency-control line itself overflows 32 bits, the memory bound lies above it, which is what
  keeps the memory protection from cutting audio. The overflow is real: a huge
  \<open>HARD_SLACK\<close> wraps the sum and the bound ends up below the line.
\<close>

theorem tuning_from_env_is_ordered:
  "1 \<le> min_target (env_over ops env d pre) \<and>
   min_target (env_over ops env d pre) \<le> max_target (env_over ops env d pre) \<and>
   2 \<le> max_frames (env_over ops env d pre) \<and> 1 \<le> extra_decay_ticks (env_over ops env d pre) \<and>
   (max_frames (env_over ops env d pre) < max_target (env_over ops env d pre) + hard_slack (env_over ops env d pre) + 1
      \<longrightarrow> 2 ^ 32 \<le> max_target (env_over ops env d pre) + hard_slack (env_over ops env d pre) + 1)"
proof -
  let ?t = "env_over ops env d pre"
  have line: "u32_add (u32_add (max_target ?t) (hard_slack ?t)) 1 \<le> max_frames ?t"
    by (subst env_over_fields(4)) (rule max.cobounded2)
  have "max_target ?t + hard_slack ?t + 1 \<le> max_frames ?t" if "max_target ?t + hard_slack ?t + 1 < 2 ^ 32"
  proof -
    have "u32_add (max_target ?t) (hard_slack ?t) = max_target ?t + hard_slack ?t"
      by (rule u32_add_small) (use that in linarith)
    moreover have "u32_add (max_target ?t + hard_slack ?t) 1 = max_target ?t + hard_slack ?t + 1"
      by (rule u32_add_small [OF that])
    ultimately show ?thesis using line by simp
  qed
  then have "max_frames ?t < max_target ?t + hard_slack ?t + 1 \<longrightarrow>
      2 ^ 32 \<le> max_target ?t + hard_slack ?t + 1" by linarith
  moreover have "1 \<le> min_target ?t" "min_target ?t \<le> max_target ?t" "1 \<le> extra_decay_ticks ?t"
    by (subst env_over_fields, rule max.cobounded2)+
  moreover have "2 \<le> max_frames ?t" by (subst env_over_fields(4)) (simp add: max.coboundedI1)
  ultimately show ?thesis by blast
qed

definition hard_slack_env :: "string \<Rightarrow> string option" where
  "hard_slack_env k = (if k = ''AUDIOHUB_JB_HARD_SLACK'' then Some ''4294967295'' else None)"

lemma hard_slack_parses: "parse_uint (2 ^ 32 - 1) (trim ''4294967295'') = Some 4294967295"
  by (simp add: parse_uint_def is_digit_def digit_val_def Let_def trim_def trim_start_def trim_end_def
      strip_all.simps WHITE_SPACE_def)

lemma hard_slack_values:
  "env_uint hard_slack_env ''AUDIOHUB_JB_'' hi ''MIN_TARGET'' dv = dv"
  "env_uint hard_slack_env ''AUDIOHUB_JB_'' hi ''MAX_TARGET'' dv = dv"
  "env_uint hard_slack_env ''AUDIOHUB_JB_'' hi ''MAX_FRAMES'' dv = dv"
  "env_uint hard_slack_env ''AUDIOHUB_JB_'' (2 ^ 32 - 1) ''HARD_SLACK'' dv = 4294967295"
  unfolding env_uint_def hard_slack_env_def using hard_slack_parses by simp_all

theorem tuning_from_env_is_ordered_witness:
  "max_frames (from_env int_ops hard_slack_env) = 24 \<and> 2 ^ 32 \<le> 12 + hard_slack (from_env int_ops hard_slack_env) + 1"
proof -
  let ?t = "env_over int_ops hard_slack_env (JB_DEFAULT int_ops) ''AUDIOHUB_JB_''"
  have d: "min_target (JB_DEFAULT int_ops) = 4" "max_target (JB_DEFAULT int_ops) = 12"
    "max_frames (JB_DEFAULT int_ops) = 24" by (simp_all add: JB_DEFAULT_def)
  have t: "max_target ?t = 12" "hard_slack ?t = 4294967295"
    by (simp_all only: env_over_fields hard_slack_values d)
  then have "max_frames ?t = 24"
    by (simp only: env_over_fields(4) hard_slack_values d) (simp add: u32_add_def)
  with t tuning_from_env_is_ordered [of int_ops hard_slack_env "JB_DEFAULT int_ops" "''AUDIOHUB_JB_''"]
  show ?thesis by (simp add: from_env_def)
qed

section \<open>The splice\<close>

text \<open>The arithmetic of the samples over the real numbers.\<close>

definition real_ops :: "real f32_ops" where
  "real_ops = \<lparr>f_lit = (\<lambda>n d. of_int n / of_nat d), f_pi = pi, f_of_nat = of_nat,
     f_add = (+), f_sub = (-), f_mul = (*), f_div = (/), f_powf = (powr), f_sqrt = sqrt,
     f_cos = cos, f_lt = (<), f_le = (\<le>), f_parse = (\<lambda>_. None)\<rparr>"

lemma real_ops_simps [simp]:
  "f_lit real_ops n d = of_int n / of_nat d" "f_add real_ops = (+)" "f_sub real_ops = (-)"
  "f_mul real_ops = (*)" "f_div real_ops = (/)" "f_sqrt real_ops = sqrt" "f_lt real_ops = (<)"
  "f_le real_ops = (\<le>)"
  by (simp_all add: real_ops_def)

lemma ncc_self_sums:
  "ncc_sums real_ops a a js = (sum_list (map (\<lambda>i. a ! i * a ! i) js),
     sum_list (map (\<lambda>i. a ! i * a ! i) js), sum_list (map (\<lambda>i. a ! i * a ! i) js))"
proof -
  have "fold (\<lambda>i (num, ea, eb). (num + a ! i * a ! i, ea + a ! i * a ! i, eb + a ! i * a ! i)) js (x, x, x) =
      (x + sum_list (map (\<lambda>i. a ! i * a ! i) js), x + sum_list (map (\<lambda>i. a ! i * a ! i) js),
       x + sum_list (map (\<lambda>i. a ! i * a ! i) js))" for x
    by (induction js arbitrary: x) (simp_all add: add.assoc)
  from this [of 0] show ?thesis by (simp add: ncc_sums_def)
qed

lemma ncc_self: "ncc_tail real_ops a a x = 1"
proof -
  have "0 \<le> sum_list (map (\<lambda>i. a ! i * a ! i) js)" for js
    by (intro sum_list_nonneg) auto
  then show ?thesis by (auto simp: ncc_tail_def ncc_self_sums Let_def f_clamp_def)
qed

lemma chunk_eq: "p + c \<le> length a \<Longrightarrow> map (\<lambda>ch. a ! (p + ch)) [0..<c] = take c (drop p a)"
  by (intro nth_equalityI) simp_all

lemma concat_groups:
  assumes "(s + x) * c \<le> length a"
  shows "concat (map (\<lambda>k. map (\<lambda>ch. a ! ((s + k) * c + ch)) [0..<c]) [0..<x]) = take (x * c) (drop (s * c) a)"
  using assms
proof (induction x)
  case (Suc x)
  have p: "(s + x) * c + c \<le> length a" and q: "(s + x) * c \<le> length a" using Suc.prems by simp_all
  have "(s + x) * c = x * c + s * c" by (simp add: add_mult_distrib)
  then have "take (Suc x * c) (drop (s * c) a) = take (x * c) (drop (s * c) a) @ take c (drop ((s + x) * c) a)"
    by (simp add: take_add add.commute [of c])
  moreover have "concat (map (\<lambda>k. map (\<lambda>ch. a ! ((s + k) * c + ch)) [0..<c]) [0..<Suc x]) =
      concat (map (\<lambda>k. map (\<lambda>ch. a ! ((s + k) * c + ch)) [0..<c]) [0..<x]) @
      map (\<lambda>ch. a ! ((s + x) * c + ch)) [0..<c]" by simp
  ultimately show ?case by (simp only: Suc.IH [OF q] chunk_eq [OF p])
qed simp

text \<open>
  Merging a frame with itself is the identity, up to the samples that do not fill a whole
  interleaved group: where the signal repeats, the splice is inaudible by construction.
\<close>

theorem splice_of_equal_frames:
  "splice_two real_ops cfg ch a a =
     (if length a < max ch 1 then a else take (length a div max ch 1 * max ch 1) a)"
proof (cases "length a < max ch 1")
  case True
  then show ?thesis by (simp add: splice_two_def Let_def)
next
  case False
  define c f x where "c = max ch 1" and "f = length a div c" and "x = min (xfade cfg) f"
  have c: "0 < c" and f0: "f \<noteq> 0" and le: "f * c \<le> length a" and xf: "f - x + x = f"
    using False by (auto simp: c_def f_def x_def div_greater_zero_iff)
  have mix: "(1 - u) * v + u * v = v" for u v :: real by (simp add: algebra_simps)
  have gains: "\<exists>u. fade_gains real_ops x 1 True k = (1 - u, u)" for k
    unfolding fade_gains_def Let_def by (simp only: if_True real_ops_simps of_int_1 of_nat_1 div_by_1) blast
  have "f_add real_ops (f_lit real_ops 5 10) (f_mul real_ops (f_lit real_ops 5 10)
      (f_clamp real_ops (f_lit real_ops 0 1) (f_lit real_ops 1 1) 1)) = 1"
    by (simp add: f_clamp_def)
  moreover have "f_le real_ops (f_sub real_ops (f_lit real_ops 1 1) (f_lit real_ops 1 1000000)) 1 = True"
    by simp
  moreover have "(case fade_gains real_ops x 1 True k of (ga, gb) \<Rightarrow>
      map (\<lambda>ch. f_add real_ops (f_mul real_ops ga (a ! ((f - x + k) * c + ch)))
        (f_mul real_ops gb (a ! ((f - x + k) * c + ch)))) [0..<c]) =
      map (\<lambda>ch. a ! ((f - x + k) * c + ch)) [0..<c]" for k
    using gains [of k] by (auto simp: mix)
  ultimately have "splice_two real_ops cfg ch a a =
      (if x = 0 then take ((f - x) * c) a
       else take ((f - x) * c) a @
         concat (map (\<lambda>k. map (\<lambda>ch. a ! ((f - x + k) * c + ch)) [0..<c]) [0..<x]))"
    using f0 unfolding splice_two_def Let_def c_def [symmetric] f_def [symmetric] x_def [symmetric] ncc_self
    by (simp only: simp_thms if_False)
  then have "splice_two real_ops cfg ch a a = take ((f - x) * c) a @
      concat (map (\<lambda>k. map (\<lambda>ch. a ! ((f - x + k) * c + ch)) [0..<c]) [0..<x])"
    by simp
  also have "\<dots> = take ((f - x) * c) a @ take (x * c) (drop ((f - x) * c) a)"
    using concat_groups [of "f - x" x c a] le xf by simp
  also have "\<dots> = take ((f - x) * c + x * c) a" by (rule take_add [symmetric])
  also have "(f - x) * c + x * c = f * c" using xf by (metis add_mult_distrib)
  finally show ?thesis using False by (simp add: c_def f_def)
qed

end
