(* ===== verification/LatencyLoop.thy ===== *)
theory LatencyLoop
  imports PlayRuns Targets
begin

text \<open>
  The loop that holds the total latency of a receive stream at the value the user chose: the
  servo that computes a buffer depth from a measurement (core/audiohubd/src/servo.rs), the
  lock-free cells between the threads (transport.rs), and the receive path that reshapes the
  envelope of the play buffer and applies the servo's output (engine.rs, lib.rs). Measurements
  are real numbers; rounding of \<open>f64\<close> is not modelled.
\<close>

section \<open>The servo\<close>

definition FRAME_MS :: real where
  "FRAME_MS = 10"

definition DEADBAND_MS :: real where
  "DEADBAND_MS = FRAME_MS / 2"

definition MAX_STEP_FRAMES :: nat where
  "MAX_STEP_FRAMES = 1"

record servo_in =
  si_target :: latency_target
  si_sum_ms :: "real option"
  si_jb_frames :: nat
  si_lo_frames :: nat
  si_hi_frames :: nat

record servo_out =
  so_want_frames :: nat
  so_at_floor :: bool
  so_at_ceiling :: bool

text \<open>Rounding half away from zero, and the saturating conversion of a rounded value.\<close>

definition f64_round :: "real \<Rightarrow> int" where
  "f64_round x = (if 0 \<le> x then \<lfloor>x + 1 / 2\<rfloor> else - \<lfloor>- x + 1 / 2\<rfloor>)"

definition int_as_u32 :: "int \<Rightarrow> nat" where
  "int_as_u32 z = nat (min z (2 ^ 32 - 1))"

definition servo_step :: "servo_in \<Rightarrow> servo_out" where
  "servo_step i =
     (case si_target i of
        LatAuto \<Rightarrow> \<lparr>so_want_frames = si_jb_frames i, so_at_floor = False, so_at_ceiling = False\<rparr>
      | TotalMs target_ms \<Rightarrow>
          let lo = min (si_lo_frames i) (si_hi_frames i);
              hi = max (si_lo_frames i) (si_hi_frames i);
              jb_ms = real (si_jb_frames i) * FRAME_MS;
              floor_ms = (case si_sum_ms i of Some s \<Rightarrow> max (s - jb_ms) 0 | None \<Rightarrow> 0);
              need_ms = real target_ms - floor_ms;
              ideal = f64_round (need_ms / FRAME_MS);
              ideal_frames = (if ideal \<le> 0 then 0 else int_as_u32 ideal);
              want = u32_clamp lo hi ideal_frames;
              measured = (si_sum_ms i \<noteq> None);
              reachable_ms = floor_ms + real want * FRAME_MS;
              at_floor = (measured \<and> want = lo \<and> real target_ms + DEADBAND_MS < reachable_ms);
              at_ceiling = (measured \<and> want = hi \<and> reachable_ms < real target_ms - DEADBAND_MS);
              now_ms = floor_ms + jb_ms
          in if \<bar>now_ms - real target_ms\<bar> \<le> DEADBAND_MS
             then \<lparr>so_want_frames = si_jb_frames i, so_at_floor = at_floor, so_at_ceiling = at_ceiling\<rparr>
             else
               \<lparr>so_want_frames =
                  (if si_jb_frames i < want
                   then min (u32_saturating_add (si_jb_frames i) MAX_STEP_FRAMES) want
                   else if want < si_jb_frames i
                   then max (si_jb_frames i - MAX_STEP_FRAMES) want
                   else si_jb_frames i),
                so_at_floor = at_floor, so_at_ceiling = at_ceiling\<rparr>)"

text \<open>What the servo reports about itself; the time of the last move is left out.\<close>

record servo_sample =
  sv_target :: latency_target
  sv_sum_ms :: "real option"
  sv_jb_frames :: nat
  sv_want_frames :: nat
  sv_lo_frames :: nat
  sv_hi_frames :: nat
  sv_at_floor :: bool
  sv_at_ceiling :: bool
  sv_streams :: nat

record servo_obs =
  ob_ticks :: nat
  ob_moves :: nat
  ob_last :: "servo_sample option"

definition servo_obs_new :: servo_obs where
  "servo_obs_new = \<lparr>ob_ticks = 0, ob_moves = 0, ob_last = None\<rparr>"

definition u64_saturating_inc :: "nat \<Rightarrow> nat" where
  "u64_saturating_inc n = min (n + 1) (2 ^ 64 - 1)"

definition servo_obs_record :: "servo_sample \<Rightarrow> servo_obs \<Rightarrow> servo_obs" where
  "servo_obs_record s ob =
     ob\<lparr>ob_ticks := u64_saturating_inc (ob_ticks ob),
        ob_moves := (if sv_want_frames s \<noteq> sv_jb_frames s then u64_saturating_inc (ob_moves ob) else ob_moves ob),
        ob_last := Some s\<rparr>"

record servo_site =
  st_ticks :: nat
  st_streams :: nat
  st_bad_targets :: nat

definition servo_site_tick :: "nat \<Rightarrow> servo_site \<Rightarrow> servo_site" where
  "servo_site_tick streams s = s\<lparr>st_ticks := u64_saturating_inc (st_ticks s), st_streams := streams\<rparr>"

definition servo_site_bad_target :: "servo_site \<Rightarrow> servo_site" where
  "servo_site_bad_target s = s\<lparr>st_bad_targets := u64_saturating_inc (st_bad_targets s)\<rparr>"

section \<open>The cells between the threads\<close>

text \<open>Each field is one atomic cell with its encoding: zero means automatic or no reading.\<close>

record transport_control =
  tc_quality_rung1 :: nat
  tc_latency_fixed :: bool
  tc_latency_ms :: nat
  tc_generation :: nat
  tc_servo_frames :: nat
  tc_live_ms_x100 :: nat
  tc_live_ms_valid :: bool
  tc_live_at_floor :: bool
  tc_live_at_ceiling :: bool
  tc_live_rung1 :: nat
  tc_live_streams :: nat
  tc_live_tx_streams :: nat

record transport_live =
  tl_achieved_ms :: "real option"
  tl_at_floor :: bool
  tl_at_ceiling :: bool
  tl_rung :: "nat option"
  tl_streams :: nat
  tl_tx_streams :: nat

definition transport_control_new :: transport_control where
  "transport_control_new = \<lparr>tc_quality_rung1 = 0, tc_latency_fixed = False, tc_latency_ms = 0,
     tc_generation = 0, tc_servo_frames = 0, tc_live_ms_x100 = 0, tc_live_ms_valid = False,
     tc_live_at_floor = False, tc_live_at_ceiling = False, tc_live_rung1 = 0, tc_live_streams = 0,
     tc_live_tx_streams = 0\<rparr>"

definition tc_invalidate :: "transport_control \<Rightarrow> transport_control" where
  "tc_invalidate t =
     t\<lparr>tc_generation := (tc_generation t + 1) mod 2 ^ 32, tc_servo_frames := 0,
       tc_live_ms_valid := False, tc_live_at_floor := False, tc_live_at_ceiling := False\<rparr>"

definition publish_latency :: "latency_target \<Rightarrow> transport_control \<Rightarrow> transport_control" where
  "publish_latency lat t =
     (let (fixed, ms) = (case lat of LatAuto \<Rightarrow> (False, 0) | TotalMs m \<Rightarrow> (True, m));
          f_moved = (tc_latency_fixed t \<noteq> fixed);
          m_moved = (tc_latency_ms t \<noteq> ms);
          t = t\<lparr>tc_latency_fixed := fixed, tc_latency_ms := ms\<rparr>
      in if f_moved \<or> fixed \<and> m_moved then tc_invalidate t else t)"

definition publish_quality :: "quality_target \<Rightarrow> transport_control \<Rightarrow> transport_control" where
  "publish_quality qual t =
     (let v = (case qual of QAuto \<Rightarrow> 0 | Fixed r \<Rightarrow> r + 1)
      in if tc_quality_rung1 t \<noteq> v then tc_invalidate (t\<lparr>tc_quality_rung1 := v\<rparr>)
         else t\<lparr>tc_quality_rung1 := v\<rparr>)"

definition tc_quality_rung :: "transport_control \<Rightarrow> nat option" where
  "tc_quality_rung t = (if tc_quality_rung1 t = 0 then None else Some (tc_quality_rung1 t - 1))"

definition tc_latency_target :: "transport_control \<Rightarrow> latency_target" where
  "tc_latency_target t = (if tc_latency_fixed t then TotalMs (tc_latency_ms t mod 2 ^ 16) else LatAuto)"

definition tc_servo :: "transport_control \<Rightarrow> nat option" where
  "tc_servo t = (if tc_servo_frames t = 0 then None else Some (tc_servo_frames t))"

definition set_servo_frames :: "nat option \<Rightarrow> transport_control \<Rightarrow> transport_control" where
  "set_servo_frames f t = t\<lparr>tc_servo_frames := (case f of None \<Rightarrow> 0 | Some n \<Rightarrow> n)\<rparr>"

definition set_live :: "transport_live \<Rightarrow> transport_control \<Rightarrow> transport_control" where
  "set_live live t =
     (let t = (case tl_achieved_ms live of
                 Some ms \<Rightarrow>
                   if 0 \<le> ms
                   then t\<lparr>tc_live_ms_x100 := int_as_u32 (f64_round (ms * 100)), tc_live_ms_valid := True\<rparr>
                   else t\<lparr>tc_live_ms_valid := False\<rparr>
               | None \<Rightarrow> t\<lparr>tc_live_ms_valid := False\<rparr>)
      in t\<lparr>tc_live_at_floor := tl_at_floor live, tc_live_at_ceiling := tl_at_ceiling live,
           tc_live_rung1 := (case tl_rung live of None \<Rightarrow> 0 | Some r \<Rightarrow> r + 1),
           tc_live_streams := tl_streams live, tc_live_tx_streams := tl_tx_streams live\<rparr>)"

definition tc_live :: "transport_control \<Rightarrow> transport_live" where
  "tc_live t =
     \<lparr>tl_achieved_ms = (if tc_live_ms_valid t then Some (real (tc_live_ms_x100 t) / 100) else None),
      tl_at_floor = tc_live_at_floor t, tl_at_ceiling = tc_live_at_ceiling t,
      tl_rung = (if tc_live_rung1 t = 0 then None else Some (tc_live_rung1 t - 1)),
      tl_streams = tc_live_streams t, tl_tx_streams = tc_live_tx_streams t\<rparr>"

section \<open>The receive path\<close>

definition ms_frames :: "nat \<Rightarrow> nat" where
  "ms_frames ms = (ms + 9) div 10"

definition envelope_for :: "latency_target \<Rightarrow> 'f jb_tuning \<Rightarrow> 'f jb_tuning" where
  "envelope_for target base =
     (case target of
        LatAuto \<Rightarrow> base
      | TotalMs ms \<Rightarrow>
          let hi = max (u32_saturating_add (ms_frames ms) 2) (max_target base)
          in base\<lparr>min_target := 1, max_target := hi,
                  max_frames := u32_saturating_add (u32_saturating_add hi (hard_slack base)) 6\<rparr>)"

record 'f rx_latency =
  rl_jb :: "'f play_buffer"
  rl_channels :: nat
  rl_jit_win :: "real list"
  rl_transport :: transport_control
  rl_obs :: servo_obs

definition reshape_jitter_envelope ::
  "latency_target \<Rightarrow> 'f jb_tuning \<Rightarrow> 'f rx_latency \<Rightarrow> bool \<times> 'f rx_latency" where
  "reshape_jitter_envelope target base s =
     (let cfg = envelope_for target base; cur = pb_cfg (rl_jb s)
      in if min_target cfg = min_target cur \<and> max_target cfg = max_target cur \<and>
            max_frames cfg = max_frames cur
         then (False, s)
         else
           let seed = (case target of
                         LatAuto \<Rightarrow> target_effective (rl_jb s)
                       | TotalMs ms \<Rightarrow> max (ms_frames ms) 1)
           in (True, s\<lparr>rl_jb := with_tuning_channels
                          (u32_clamp (min_target cfg) (max_target cfg) seed) cfg (rl_channels s)\<rparr>))"

definition jitter_p95 :: "real list \<Rightarrow> real" where
  "jitter_p95 v = sort v ! min (length v * 95 div 100) (length v - 1)"

text \<open>The pass of the receive path after every hundred frames.\<close>

definition rx_adopt :: "'f jb_tuning \<Rightarrow> 'f rx_latency \<Rightarrow> 'f rx_latency" where
  "rx_adopt base s =
     (let want = tc_servo (rl_transport s);
          target = tc_latency_target (rl_transport s);
          (reseeded, s) = reshape_jitter_envelope target base s;
          s = (if reseeded then s\<lparr>rl_transport := set_servo_frames None (rl_transport s)\<rparr> else s);
          want = (if reseeded then None else want)
      in case want of
           Some w \<Rightarrow> s\<lparr>rl_jb := set_target_effective w (rl_jb s)\<rparr>
         | None \<Rightarrow>
             (case target of
                TotalMs _ \<Rightarrow> s
              | LatAuto \<Rightarrow>
                  if rl_jit_win s = [] then s
                  else s\<lparr>rl_jb := update_target (jitter_p95 (rl_jit_win s)) FRAME_MS (rl_jb s)\<rparr>))"

text \<open>One second of the servo for one receive stream.\<close>

definition servo_pass :: "real option \<Rightarrow> 'f rx_latency \<Rightarrow> 'f rx_latency" where
  "servo_pass sum_ms s =
     (let tuning = pb_cfg (rl_jb s);
          target = tc_latency_target (rl_transport s);
          sin = \<lparr>si_target = target, si_sum_ms = sum_ms, si_jb_frames = target_effective (rl_jb s),
                 si_lo_frames = min_target tuning, si_hi_frames = max_target tuning\<rparr>;
          out = servo_step sin;
          obs = servo_obs_record
            \<lparr>sv_target = target, sv_sum_ms = sum_ms, sv_jb_frames = si_jb_frames sin,
             sv_want_frames = so_want_frames out, sv_lo_frames = si_lo_frames sin,
             sv_hi_frames = si_hi_frames sin, sv_at_floor = so_at_floor out,
             sv_at_ceiling = so_at_ceiling out, sv_streams = 1\<rparr> (rl_obs s);
          t = set_servo_frames
                (case target of LatAuto \<Rightarrow> None | TotalMs _ \<Rightarrow> Some (max (so_want_frames out) 1))
                (rl_transport s)
      in s\<lparr>rl_obs := obs,
           rl_transport := set_live \<lparr>tl_achieved_ms = sum_ms, tl_at_floor = so_at_floor out,
             tl_at_ceiling = so_at_ceiling out, tl_rung = None, tl_streams = 1, tl_tx_streams = 0\<rparr> t\<rparr>)"

section \<open>The servo alone\<close>

text \<open>
  One step against a pipeline whose other stages take \<open>F\<close> milliseconds: the measured total is
  \<open>F\<close> plus the depth of the buffer.
\<close>

definition servo_at :: "nat \<Rightarrow> real \<Rightarrow> nat \<Rightarrow> nat \<Rightarrow> nat \<Rightarrow> servo_out" where
  "servo_at T F lo hi j =
     servo_step \<lparr>si_target = TotalMs T, si_sum_ms = Some (F + real j * FRAME_MS), si_jb_frames = j,
       si_lo_frames = lo, si_hi_frames = hi\<rparr>"

definition on_target :: "nat \<Rightarrow> real \<Rightarrow> nat \<Rightarrow> bool" where
  "on_target T F j \<longleftrightarrow> \<bar>F + real j * FRAME_MS - real T\<bar> \<le> DEADBAND_MS"

text \<open>The depth the servo moves to when nothing limits it but the envelope.\<close>

definition servo_goal :: "nat \<Rightarrow> real \<Rightarrow> nat \<Rightarrow> nat \<Rightarrow> nat" where
  "servo_goal T F lo hi = (let z = f64_round ((real T - F) / FRAME_MS)
     in u32_clamp lo hi (if z \<le> 0 then 0 else int_as_u32 z))"

lemma goal_bounds: "lo \<le> hi \<Longrightarrow> lo \<le> servo_goal T F lo hi \<and> servo_goal T F lo hi \<le> hi"
  by (simp add: servo_goal_def Let_def u32_clamp_bounds)

lemma servo_at_eq:
  assumes "0 \<le> F" and "lo \<le> hi" and "j < 2 ^ 32 - 1"
  shows "servo_at T F lo hi j =
    (let w = servo_goal T F lo hi in
     \<lparr>so_want_frames = (if on_target T F j then j else if j < w then j + 1 else if w < j then j - 1 else j),
      so_at_floor = (w = lo \<and> real T + DEADBAND_MS < F + real w * FRAME_MS),
      so_at_ceiling = (w = hi \<and> F + real w * FRAME_MS < real T - DEADBAND_MS)\<rparr>)"
proof -
  have "max (F + real j * FRAME_MS - real j * FRAME_MS) 0 = F" using assms(1) by simp
  moreover have "min (u32_saturating_add j 1) w = j + 1" if "j < w" for w
    using that assms(3) by (simp add: u32_saturating_add_def)
  moreover have "max (j - 1) w = j - 1" if "w < j" for w using that by simp
  moreover have "min lo hi = lo" "max lo hi = hi" using assms(2) by simp_all
  ultimately show ?thesis
    unfolding servo_at_def servo_step_def servo_goal_def on_target_def MAX_STEP_FRAMES_def
    by (simp add: Let_def)
qed

text \<open>Where the goal is inside the envelope it is on target.\<close>

lemma round_close: "\<bar>real_of_int (f64_round x) - x\<bar> \<le> 1 / 2"
proof -
  have near: "\<bar>real_of_int \<lfloor>y + 1 / 2\<rfloor> - y\<bar> \<le> 1 / 2" for y :: real
    using floor_correct [of "y + 1 / 2"] unfolding abs_le_iff by linarith
  show ?thesis
  proof (cases "0 \<le> x")
    case True
    then have "f64_round x = \<lfloor>x + 1 / 2\<rfloor>" by (simp add: f64_round_def)
    with near [of x] show ?thesis by (simp only:)
  next
    case False
    then have "f64_round x = - \<lfloor>- x + 1 / 2\<rfloor>" by (simp add: f64_round_def)
    then have "real_of_int (f64_round x) - x = - (real_of_int \<lfloor>- x + 1 / 2\<rfloor> - (- x))" by simp
    with near [of "- x"] show ?thesis by (simp only: abs_minus_cancel)
  qed
qed

lemma goal_on_target:
  assumes "0 \<le> F" and "lo \<le> hi" and "T < 2 ^ 32"
  defines "w \<equiv> servo_goal T F lo hi"
  shows "on_target T F w \<or> (w = lo \<and> real T + DEADBAND_MS < F + real w * FRAME_MS) \<or>
    (w = hi \<and> F + real w * FRAME_MS < real T - DEADBAND_MS)"
proof -
  let ?x = "(real T - F) / FRAME_MS"
  let ?z = "f64_round ?x"
  have x: "real T - F = 10 * ?x" by (simp add: FRAME_MS_def)
  have close: "\<bar>real_of_int ?z - ?x\<bar> \<le> 1 / 2" by (rule round_close)
  have "?x \<le> real T / 10" using assms(1) by (simp add: FRAME_MS_def)
  then have "real_of_int ?z \<le> real T / 10 + 1 / 2" using close by linarith
  moreover have "real T \<le> 4294967296" using assms(3) by simp
  ultimately have "real_of_int ?z \<le> real_of_int (2 ^ 32 - 1)" by simp
  then have small: "?z \<le> 2 ^ 32 - 1" by (simp only: of_int_le_iff)
  define n where "n = nat (max ?z 0)"
  have ideal: "(if ?z \<le> 0 then 0 else int_as_u32 ?z) = n"
    using small by (simp add: int_as_u32_def n_def)
  have w: "w = u32_clamp lo hi n" by (simp add: w_def servo_goal_def Let_def ideal)
  have rn: "real n = max (real_of_int ?z) 0" by (simp add: n_def)
  from close have both: "real_of_int ?z - ?x \<le> 1 / 2" "?x - real_of_int ?z \<le> 1 / 2" by linarith+
  have n_low: "?x \<le> real n + 1 / 2" unfolding rn using both by linarith
  have n_high: "n = 0 \<or> real n - 1 / 2 \<le> ?x"
  proof (cases "?z \<le> 0")
    case False
    then have "real n = real_of_int ?z" unfolding rn by simp
    with both show ?thesis by linarith
  qed (simp add: n_def)
  show ?thesis
  proof (cases "n < lo")
    case True
    then have "w = lo" "real n \<le> real w - 1" using assms(2) by (auto simp: w u32_clamp_def)
    with n_low have "F + real w * FRAME_MS \<ge> real T - DEADBAND_MS"
      using x by (simp add: FRAME_MS_def DEADBAND_MS_def)
    with \<open>w = lo\<close> show ?thesis by (auto simp: on_target_def abs_le_iff)
  next
    case False
    note ge = this
    show ?thesis
    proof (cases "hi < n")
      case True
      then have "w = hi" "real w \<le> real n - 1" "n \<noteq> 0" using ge by (auto simp: w u32_clamp_def)
      with n_high have "F + real w * FRAME_MS \<le> real T + DEADBAND_MS"
        using x by (simp add: FRAME_MS_def DEADBAND_MS_def)
      with \<open>w = hi\<close> show ?thesis by (auto simp: on_target_def abs_le_iff)
    next
      case False
      with ge have "w = n" by (simp add: w u32_clamp_def)
      show ?thesis
      proof (cases "n = 0")
        case True
        with \<open>w = n\<close> ge have "w = 0" "lo = 0" by simp_all
        with n_low x True show ?thesis by (auto simp: on_target_def FRAME_MS_def DEADBAND_MS_def abs_le_iff)
      next
        case False
        with n_high n_low \<open>w = n\<close> x show ?thesis
          by (simp add: on_target_def FRAME_MS_def DEADBAND_MS_def abs_le_iff)
      qed
    qed
  qed
qed

section \<open>The closed loop\<close>

text \<open>One second: the servo measures and publishes, then the receive path adopts.\<close>

definition loop_round :: "real \<Rightarrow> 'f jb_tuning \<Rightarrow> 'f rx_latency \<Rightarrow> 'f rx_latency" where
  "loop_round F base s =
     rx_adopt base (servo_pass (Some (F + real (target_effective (rl_jb s)) * FRAME_MS)) s)"

text \<open>A stream whose user chose \<open>T\<close> and whose buffer has the envelope for it.\<close>

definition loop_ok :: "nat \<Rightarrow> 'f jb_tuning \<Rightarrow> 'f rx_latency \<Rightarrow> bool" where
  "loop_ok T base s \<longleftrightarrow> pb_ok (rl_jb s) \<and> tc_latency_target (rl_transport s) = TotalMs T \<and>
     min_target (pb_cfg (rl_jb s)) = min_target (envelope_for (TotalMs T) base) \<and>
     max_target (pb_cfg (rl_jb s)) = max_target (envelope_for (TotalMs T) base) \<and>
     max_frames (pb_cfg (rl_jb s)) = max_frames (envelope_for (TotalMs T) base)"

lemma loop_ok_target: "loop_ok T base s \<Longrightarrow> T < 2 ^ 16"
  by (auto simp: loop_ok_def tc_latency_target_def split: if_splits)

lemma loop_ok_min: "loop_ok T base s \<Longrightarrow> min_target (pb_cfg (rl_jb s)) = 1"
  by (simp add: loop_ok_def envelope_for_def Let_def)

lemma loop_ok_max: "loop_ok T base s \<Longrightarrow> 1 \<le> max_target (pb_cfg (rl_jb s)) \<and> max_target (pb_cfg (rl_jb s)) < 2 ^ 32 - 1"
  by (auto simp: loop_ok_def pb_ok_def tuning_ok_def)

lemma tc_target_kept [simp]:
  "tc_latency_target (set_servo_frames f t) = tc_latency_target t"
  "tc_latency_target (set_live l t) = tc_latency_target t"
  "tc_servo (set_live l t) = tc_servo t"
  by (simp_all add: tc_latency_target_def set_servo_frames_def set_live_def tc_servo_def Let_def split: option.split)

lemma tc_servo_set: "tc_servo (set_servo_frames (Some n) t) = (if n = 0 then None else Some n)"
  by (simp add: tc_servo_def set_servo_frames_def)

text \<open>The penalty of the buffer sets a floor of its own.\<close>

definition depth_floor :: "'f play_buffer \<Rightarrow> nat" where
  "depth_floor b = min (max_target (pb_cfg b)) (min_target (pb_cfg b) + pb_extra b)"

lemma depth_floor_le: "pb_ok b \<Longrightarrow> min_target (pb_cfg b) \<le> pb_target b \<Longrightarrow> depth_floor b \<le> target_effective b"
  by (simp add: target_effective_eq depth_floor_def)

lemma servo_pass_fields [simp]:
  "rl_jb (servo_pass m s) = rl_jb s" "rl_channels (servo_pass m s) = rl_channels s"
  "rl_jit_win (servo_pass m s) = rl_jit_win s"
  "tc_latency_target (rl_transport (servo_pass m s)) = tc_latency_target (rl_transport s)"
  by (simp_all add: servo_pass_def Let_def)

lemma adopt_with_servo:
  assumes "loop_ok T base s" and "tc_servo (rl_transport s) = Some w"
  shows "rx_adopt base s = s\<lparr>rl_jb := set_target_effective w (rl_jb s)\<rparr>"
proof -
  have "reshape_jitter_envelope (TotalMs T) base s = (False, s)"
    using assms(1) by (simp add: reshape_jitter_envelope_def loop_ok_def Let_def)
  with assms show ?thesis by (simp add: rx_adopt_def loop_ok_def Let_def)
qed

definition loop_servo :: "nat \<Rightarrow> real \<Rightarrow> 'f rx_latency \<Rightarrow> servo_out" where
  "loop_servo T F s = servo_at T F (min_target (pb_cfg (rl_jb s))) (max_target (pb_cfg (rl_jb s)))
     (target_effective (rl_jb s))"

lemma servo_want_bounds:
  assumes "0 \<le> F" and "lo \<le> hi" and "j < 2 ^ 32 - 1" and "lo \<le> j" and "j \<le> hi"
  shows "lo \<le> so_want_frames (servo_at T F lo hi j) \<and> so_want_frames (servo_at T F lo hi j) \<le> hi"
  using goal_bounds [OF assms(2), of T F] assms(4,5)
  by (auto simp: servo_at_eq [OF assms(1-3)] Let_def)

lemma loop_round_effect:
  assumes ok: "loop_ok T base s" and F: "0 \<le> F"
  defines "k \<equiv> target_effective (rl_jb s)" and "hi \<equiv> max_target (pb_cfg (rl_jb s))"
  shows "loop_ok T base (loop_round F base s)"
    and "pb_cfg (rl_jb (loop_round F base s)) = pb_cfg (rl_jb s)"
    and "pb_extra (rl_jb (loop_round F base s)) = pb_extra (rl_jb s)"
    and "target_effective (rl_jb (loop_round F base s)) =
      max (so_want_frames (servo_at T F 1 hi k)) (depth_floor (rl_jb s))"
    and "tl_at_floor (tc_live (rl_transport (loop_round F base s))) = so_at_floor (servo_at T F 1 hi k)"
    and "tl_at_ceiling (tc_live (rl_transport (loop_round F base s))) = so_at_ceiling (servo_at T F 1 hi k)"
proof -
  let ?m = "Some (F + real k * FRAME_MS)"
  let ?p = "servo_pass ?m s"
  let ?w = "so_want_frames (servo_at T F 1 hi k)"
  note lo = loop_ok_min [OF ok] and h = loop_ok_max [OF ok, folded hi_def]
  have pb: "pb_ok (rl_jb s)" and tgt: "tc_latency_target (rl_transport s) = TotalMs T"
    using ok by (simp_all add: loop_ok_def)
  have k: "1 \<le> k" "k \<le> hi" using target_effective_bounds [OF pb] by (simp_all add: k_def hi_def)
  have small: "k < 2 ^ 32 - 1" using k h by linarith
  have w: "1 \<le> ?w" "?w \<le> hi"
    using servo_want_bounds [OF F conjunct1 [OF h] small k] by blast+
  have out: "servo_step \<lparr>si_target = TotalMs T, si_sum_ms = ?m, si_jb_frames = target_effective (rl_jb s),
      si_lo_frames = min_target (pb_cfg (rl_jb s)), si_hi_frames = max_target (pb_cfg (rl_jb s))\<rparr> = servo_at T F 1 hi k"
    by (simp add: servo_at_def k_def hi_def lo)
  have pt: "rl_transport ?p = set_live \<lparr>tl_achieved_ms = ?m, tl_at_floor = so_at_floor (servo_at T F 1 hi k),
      tl_at_ceiling = so_at_ceiling (servo_at T F 1 hi k), tl_rung = None, tl_streams = 1, tl_tx_streams = 0\<rparr>
        (set_servo_frames (Some (max ?w 1)) (rl_transport s))"
    unfolding servo_pass_def Let_def tgt using out by simp
  have "tc_servo (rl_transport ?p) = Some ?w" using w by (simp add: pt tc_servo_set max_def)
  moreover have okp: "loop_ok T base ?p" using ok by (simp add: loop_ok_def)
  ultimately have r: "loop_round F base s = ?p\<lparr>rl_jb := set_target_effective ?w (rl_jb s)\<rparr>"
    unfolding loop_round_def k_def [symmetric] by (simp add: adopt_with_servo)
  show "loop_ok T base (loop_round F base s)"
    using okp pb_ok_steer [OF pb] by (simp add: r loop_ok_def)
  show "pb_cfg (rl_jb (loop_round F base s)) = pb_cfg (rl_jb s)"
    "pb_extra (rl_jb (loop_round F base s)) = pb_extra (rl_jb s)" by (simp_all add: r)
  show "target_effective (rl_jb (loop_round F base s)) = max ?w (depth_floor (rl_jb s))"
    using steer_eff [OF pb] w by (simp add: r depth_floor_def hi_def [symmetric])
  show "tl_at_floor (tc_live (rl_transport (loop_round F base s))) = so_at_floor (servo_at T F 1 hi k)"
    "tl_at_ceiling (tc_live (rl_transport (loop_round F base s))) = so_at_ceiling (servo_at T F 1 hi k)"
    by (simp_all add: r pt tc_live_def set_live_def Let_def)
qed

definition depth_gap :: "nat \<Rightarrow> nat \<Rightarrow> nat" where
  "depth_gap j g = (if j < g then g - j else j - g)"

definition loop_goal :: "nat \<Rightarrow> real \<Rightarrow> 'f rx_latency \<Rightarrow> nat" where
  "loop_goal T F s = max (servo_goal T F 1 (max_target (pb_cfg (rl_jb s)))) (depth_floor (rl_jb s))"

lemma loop_depth_bounds:
  assumes "loop_ok T base s"
  shows "1 \<le> target_effective (rl_jb s)" "depth_floor (rl_jb s) \<le> target_effective (rl_jb s)"
    "target_effective (rl_jb s) \<le> max_target (pb_cfg (rl_jb s))"
proof -
  have pb: "pb_ok (rl_jb s)" using assms by (simp add: loop_ok_def)
  have "min_target (pb_cfg (rl_jb s)) \<le> pb_target (rl_jb s)"
    using loop_ok_min [OF assms] pb by (simp add: pb_ok_def)
  with pb show "depth_floor (rl_jb s) \<le> target_effective (rl_jb s)" by (rule depth_floor_le)
  show "1 \<le> target_effective (rl_jb s)" "target_effective (rl_jb s) \<le> max_target (pb_cfg (rl_jb s))"
    using target_effective_bounds [OF pb] by simp_all
qed

text \<open>A round leaves a depth on target alone and otherwise closes the gap by one frame.\<close>

lemma loop_round_gap:
  assumes ok: "loop_ok T base s" and F: "0 \<le> F"
  defines "k \<equiv> target_effective (rl_jb s)" and "k' \<equiv> target_effective (rl_jb (loop_round F base s))"
  shows "on_target T F k \<Longrightarrow> k' = k"
    and "\<not> on_target T F k \<Longrightarrow> depth_gap k' (loop_goal T F s) = depth_gap k (loop_goal T F s) - 1"
    and "depth_gap k (loop_goal T F s) = 0 \<Longrightarrow> k' = k"
    and "loop_goal T F (loop_round F base s) = loop_goal T F s"
proof -
  note b = loop_depth_bounds [OF ok, folded k_def] and h = loop_ok_max [OF ok]
  have small: "k < 2 ^ 32 - 1" using b h by linarith
  have k': "k' = max (if on_target T F k then k
      else if k < servo_goal T F 1 (max_target (pb_cfg (rl_jb s))) then k + 1
      else if servo_goal T F 1 (max_target (pb_cfg (rl_jb s))) < k then k - 1 else k) (depth_floor (rl_jb s))"
    unfolding k'_def loop_round_effect(4) [OF ok F] k_def [symmetric]
      servo_at_eq [OF F conjunct1 [OF h] small] Let_def by simp
  show "on_target T F k \<Longrightarrow> k' = k" using b by (simp add: k')
  show "\<not> on_target T F k \<Longrightarrow> depth_gap k' (loop_goal T F s) = depth_gap k (loop_goal T F s) - 1"
    using b unfolding k' loop_goal_def depth_gap_def by auto
  show "depth_gap k (loop_goal T F s) = 0 \<Longrightarrow> k' = k"
    using b unfolding k' loop_goal_def depth_gap_def by (auto split: if_splits)
  show "loop_goal T F (loop_round F base s) = loop_goal T F s"
    by (simp add: loop_goal_def depth_floor_def loop_round_effect(2,3) [OF ok F])
qed

lemma loop_rounds:
  assumes ok: "loop_ok T base s" and F: "0 \<le> F"
  shows "let s' = (loop_round F base ^^ N) s in
    loop_ok T base s' \<and> pb_cfg (rl_jb s') = pb_cfg (rl_jb s) \<and> pb_extra (rl_jb s') = pb_extra (rl_jb s) \<and>
    loop_goal T F s' = loop_goal T F s \<and>
    (on_target T F (target_effective (rl_jb s')) \<or>
     depth_gap (target_effective (rl_jb s')) (loop_goal T F s) =
       depth_gap (target_effective (rl_jb s)) (loop_goal T F s) - N)"
  unfolding Let_def
proof (induction N)
  case 0
  with ok show ?case by simp
next
  case (Suc N)
  let ?t = "(loop_round F base ^^ N) s"
  have t: "loop_ok T base ?t" using Suc by blast
  note e = loop_round_effect [OF t F] and g = loop_round_gap [OF t F]
  have "on_target T F (target_effective (rl_jb (loop_round F base ?t))) \<or>
      depth_gap (target_effective (rl_jb (loop_round F base ?t))) (loop_goal T F s) =
        depth_gap (target_effective (rl_jb s)) (loop_goal T F s) - Suc N"
  proof (cases "on_target T F (target_effective (rl_jb ?t))")
    case True
    with g(1) show ?thesis by simp
  next
    case False
    with g(2) Suc show ?thesis by simp
  qed
  with Suc e(1-3) g(4) show ?case by simp
qed

lemma gap_le: "depth_floor b \<le> k \<Longrightarrow> k \<le> hi \<Longrightarrow> g \<le> hi \<Longrightarrow> depth_gap k g \<le> hi"
  unfolding depth_gap_def by (cases "k < g") simp_all


text \<open>A stream on the degraded tuning, with \<open>e\<close> frames of penalty, for concrete runs.\<close>

definition demo_stream :: "nat \<Rightarrow> nat \<Rightarrow> int rx_latency" where
  "demo_stream T e =
     \<lparr>rl_jb = (with_tuning_channels 1 (envelope_for (TotalMs T) (JB_DEGRADED int_ops)) 2)\<lparr>pb_extra := e\<rparr>,
      rl_channels = 2, rl_jit_win = [], rl_transport = publish_latency (TotalMs T) transport_control_new,
      rl_obs = servo_obs_new\<rparr>"

lemma demo_envelope:
  "envelope_for (TotalMs 100) (JB_DEGRADED int_ops) =
     (JB_DEGRADED int_ops)\<lparr>min_target := 1, max_target := 40, max_frames := 52\<rparr>"
  by (simp add: envelope_for_def Let_def JB_DEGRADED_def JB_DEFAULT_def ms_frames_def u32_saturating_add_def)

lemma demo_stream_ok: "e \<le> 36 \<Longrightarrow> loop_ok 100 (JB_DEGRADED int_ops) (demo_stream 100 e)"
proof -
  assume e: "e \<le> 36"
  have t: "tuning_ok (envelope_for (TotalMs 100) (JB_DEGRADED int_ops))"
    unfolding demo_envelope by (simp add: tuning_ok_def JB_DEGRADED_def JB_DEFAULT_def)
  have "extra_max (envelope_for (TotalMs 100) (JB_DEGRADED int_ops)) = 36"
    unfolding demo_envelope by (simp add: JB_DEGRADED_def JB_DEFAULT_def)
  with e pb_ok_new [OF t, of 1 2]
  have "pb_ok ((with_tuning_channels 1 (envelope_for (TotalMs 100) (JB_DEGRADED int_ops)) 2)\<lparr>pb_extra := e\<rparr>)"
    by (simp add: pb_ok_def with_tuning_channels_def Let_def)
  moreover have "tc_latency_target (publish_latency (TotalMs 100) transport_control_new) = TotalMs 100"
    by (simp add: publish_latency_def tc_latency_target_def tc_invalidate_def transport_control_new_def Let_def)
  ultimately show ?thesis
    by (simp add: loop_ok_def demo_stream_def with_tuning_channels_def Let_def)
qed

lemma demo_stream_fields:
  "max_target (pb_cfg (rl_jb (demo_stream 100 e))) = 40" "pb_extra (rl_jb (demo_stream 100 e)) = e"
  "min_target (pb_cfg (rl_jb (demo_stream 100 e))) = 1" "pb_target (rl_jb (demo_stream 100 e)) = 1"
  by (simp_all add: demo_stream_def with_tuning_channels_def Let_def demo_envelope u32_clamp_def)

lemma round_half: "f64_round 5 = 5" "f64_round 0 = 0"
  by (simp_all add: f64_round_def)


text \<open>
  The penalty floor is not reported. The servo compares its goal with the lower end of the
  envelope, not with the floor that the penalty adds: when the goal lies between the two, the
  depth does not move any more and the total stays above the choice, but neither limit is
  reported, and the servo counts a move every second.
\<close>

theorem penalty_floor_is_silent:
  assumes "loop_ok T base s" and "0 \<le> F" and "target_effective (rl_jb s) = depth_floor (rl_jb s)"
    and "servo_goal T F 1 (max_target (pb_cfg (rl_jb s))) < target_effective (rl_jb s)"
    and "1 < servo_goal T F 1 (max_target (pb_cfg (rl_jb s)))"
    and "real T + DEADBAND_MS < F + real (target_effective (rl_jb s)) * FRAME_MS"
  shows "let s' = loop_round F base s; live = tc_live (rl_transport s')
    in target_effective (rl_jb s') = target_effective (rl_jb s) \<and> \<not> tl_at_floor live \<and> \<not> tl_at_ceiling live \<and>
       ob_moves (rl_obs s') = u64_saturating_inc (ob_moves (rl_obs s))"
proof -
  let ?k = "target_effective (rl_jb s)" and ?hi = "max_target (pb_cfg (rl_jb s))"
  let ?w = "servo_goal T F 1 ?hi"
  note h = loop_ok_max [OF assms(1)] and b = loop_depth_bounds [OF assms(1)] and e = loop_round_effect [OF assms(1,2)]
  have small: "?k < 2 ^ 32 - 1" using b h by linarith
  have off: "\<not> on_target T F ?k" using assms(6) by (simp add: on_target_def)
  note sv = servo_at_eq [OF assms(2) conjunct1 [OF h] small, of T]
  have want: "so_want_frames (servo_at T F 1 ?hi ?k) = ?k - 1"
    using off assms(4) by (simp only: sv Let_def servo_out.simps) simp
  have flags: "\<not> so_at_floor (servo_at T F 1 ?hi ?k)" "\<not> so_at_ceiling (servo_at T F 1 ?hi ?k)"
    using assms(4,5) b(3) by (simp_all only: sv Let_def servo_out.simps) simp_all
  have "target_effective (rl_jb (loop_round F base s)) = ?k"
    unfolding e(4) want using assms(3) b(1) by simp
  moreover have "ob_moves (rl_obs (loop_round F base s)) = u64_saturating_inc (ob_moves (rl_obs s))"
  proof -
    have obs: "rl_obs (rx_adopt base c) = rl_obs c" for c :: "'a rx_latency"
      by (auto simp: rx_adopt_def reshape_jitter_envelope_def Let_def split: option.split latency_target.split)
    have tgt: "tc_latency_target (rl_transport s) = TotalMs T" using assms(1) by (simp add: loop_ok_def)
    have "servo_step \<lparr>si_target = TotalMs T, si_sum_ms = Some (F + real ?k * FRAME_MS), si_jb_frames = ?k,
        si_lo_frames = min_target (pb_cfg (rl_jb s)), si_hi_frames = ?hi\<rparr> = servo_at T F 1 ?hi ?k"
      by (simp add: servo_at_def loop_ok_min [OF assms(1)])
    moreover have "?k - 1 \<noteq> ?k" using b(1) by simp
    ultimately show ?thesis
      unfolding loop_round_def obs servo_pass_def Let_def tgt servo_obs_record_def using want by simp
  qed
  ultimately show ?thesis using flags e(5,6) by (simp add: Let_def)
qed

theorem penalty_floor_is_silent_witness:
  "let s' = loop_round 50 (JB_DEGRADED int_ops) (demo_stream 100 10)
   in target_effective (rl_jb s') = 11 \<and> \<not> tl_at_floor (tc_live (rl_transport s'))"
proof -
  let ?s = "demo_stream 100 10"
  have ok: "loop_ok 100 (JB_DEGRADED int_ops) ?s" by (rule demo_stream_ok) simp
  have k: "target_effective (rl_jb ?s) = 11" "depth_floor (rl_jb ?s) = 11"
    using target_effective_eq [of "rl_jb ?s"] ok
    by (simp_all add: loop_ok_def demo_stream_fields depth_floor_def)
  have g: "servo_goal 100 50 1 40 = 5"
    by (simp add: servo_goal_def FRAME_MS_def round_half int_as_u32_def u32_clamp_def Let_def)
  have "\<not> 11 \<le> (5 :: nat)" by simp
  with penalty_floor_is_silent [OF ok, of 50] show ?thesis
    by (simp only: k g demo_stream_fields Let_def) (simp add: DEADBAND_MS_def FRAME_MS_def)
qed

section \<open>A new choice\<close>

lemma envelope_ok:
  assumes "tuning_ok base" and "max_target base < 2 ^ 30" and "hard_slack base < 2 ^ 30"
    and "extra_max base < 2 ^ 30" and "ms < 2 ^ 16"
  shows "tuning_ok (envelope_for (TotalMs ms) base)"
proof -
  have "ms_frames ms < 2 ^ 13" using assms(5) by (simp add: ms_frames_def)
  then have hi: "u32_saturating_add (ms_frames ms) 2 < 2 ^ 30"
    by (simp add: u32_saturating_add_def)
  let ?h = "max (u32_saturating_add (ms_frames ms) 2) (max_target base)"
  have h: "?h < 2 ^ 30" "1 \<le> ?h" using hi assms(2) by (simp_all add: u32_saturating_add_def)
  have f: "u32_saturating_add (u32_saturating_add ?h (hard_slack base)) 6 = ?h + hard_slack base + 6"
  proof -
    have "a + b + 6 \<le> 2 ^ 32 - 1" if "a < 2 ^ 30" "b < 2 ^ 30" for a b :: nat using that by simp
    from this [OF h(1) assms(3)] show ?thesis unfolding u32_saturating_add_def by linarith
  qed
  have e: "envelope_for (TotalMs ms) base =
      base\<lparr>min_target := 1, max_target := ?h, max_frames := ?h + hard_slack base + 6\<rparr>"
    unfolding envelope_for_def latency_target.case Let_def f by (rule refl)
  have sums: "a + b + 6 < 2 ^ 32 \<and> a + b < 2 ^ 32" if "a < 2 ^ 30" "b < 2 ^ 30" for a b :: nat
    using that by simp
  show ?thesis
    using assms(1) h(2) sums [OF h(1) assms(3)] sums [OF h(1) assms(4)]
    unfolding e tuning_ok_def by simp
qed

lemma publish_target: "ms < 2 ^ 16 \<Longrightarrow> tc_latency_target (publish_latency (TotalMs ms) t) = TotalMs ms"
  by (simp add: publish_latency_def tc_latency_target_def tc_invalidate_def Let_def)

lemma publish_voids:
  assumes "ms < 2 ^ 16" and "tc_latency_target t \<noteq> TotalMs ms"
  shows "tc_servo (publish_latency (TotalMs ms) t) = None"
proof -
  have "\<not> tc_latency_fixed t \<or> tc_latency_ms t \<noteq> ms"
    using assms by (auto simp: tc_latency_target_def)
  then show ?thesis by (auto simp: publish_latency_def tc_invalidate_def tc_servo_def Let_def)
qed

text \<open>
  A new choice takes effect at once and from a clean state: after it is published, one pass of
  the receive path leaves the stream in the state from which the loop settles, and no depth
  computed for the old choice is applied: the buffer is either untouched, because its envelope
  already fits, or a fresh one seeded with the whole of the chosen latency.
\<close>

theorem new_choice_takes_effect:
  assumes "pb_ok (rl_jb s)" and "tuning_ok base" and "max_target base < 2 ^ 30"
    and "hard_slack base < 2 ^ 30" and "extra_max base < 2 ^ 30" and "ms < 2 ^ 16"
    and "tc_latency_target (rl_transport s) \<noteq> TotalMs ms"
  shows "let s' = rx_adopt base (s\<lparr>rl_transport := publish_latency (TotalMs ms) (rl_transport s)\<rparr>)
    in loop_ok ms base s' \<and>
       (rl_jb s' = rl_jb s \<or>
        rl_jb s' = with_tuning_channels (max (ms_frames ms) 1) (envelope_for (TotalMs ms) base) (rl_channels s))"
proof -
  let ?c = "envelope_for (TotalMs ms) base"
  let ?p = "s\<lparr>rl_transport := publish_latency (TotalMs ms) (rl_transport s)\<rparr>"
  let ?same = "min_target ?c = min_target (pb_cfg (rl_jb s)) \<and> max_target ?c = max_target (pb_cfg (rl_jb s)) \<and>
      max_frames ?c = max_frames (pb_cfg (rl_jb s))"
  have ok: "tuning_ok ?c" by (rule envelope_ok [OF assms(2-6)])
  have t: "tc_latency_target (rl_transport ?p) = TotalMs ms" "tc_servo (rl_transport ?p) = None"
    using publish_target [OF assms(6)] publish_voids [OF assms(6,7)] by simp_all
  show ?thesis
  proof (cases ?same)
    case True
    then have "rx_adopt base ?p = ?p"
      using t by (simp add: rx_adopt_def reshape_jitter_envelope_def Let_def)
    with assms(1) t True show ?thesis by (simp add: loop_ok_def Let_def)
  next
    case False
    have seed: "u32_clamp (min_target ?c) (max_target ?c) (max (ms_frames ms) 1) = max (ms_frames ms) 1"
    proof -
      have "ms_frames ms < 2 ^ 13" using assms(6) by (simp add: ms_frames_def)
      then have "max (ms_frames ms) 1 \<le> max_target ?c"
        by (auto simp: envelope_for_def Let_def u32_saturating_add_def le_max_iff_disj)
      then have "\<not> max_target ?c < max (ms_frames ms) 1" by (rule leD)
      moreover have "\<not> max (ms_frames ms) 1 < min_target ?c" by (simp add: envelope_for_def Let_def)
      ultimately show ?thesis unfolding u32_clamp_def by (simp only: if_False)
    qed
    let ?b = "with_tuning_channels (max (ms_frames ms) 1) ?c (rl_channels s)"
    have "rx_adopt base ?p = ?p\<lparr>rl_jb := ?b, rl_transport := set_servo_frames None (rl_transport ?p)\<rparr>"
      using t False seed by (auto simp: rx_adopt_def reshape_jitter_envelope_def Let_def simp del: One_nat_def)
    moreover have "pb_cfg ?b = ?c" by (simp add: with_tuning_channels_def Let_def)
    ultimately show ?thesis using t pb_ok_new [OF ok] by (simp add: loop_ok_def Let_def)
  qed
qed

theorem new_choice_takes_effect_witness:
  "loop_ok 200 (JB_DEFAULT int_ops)
     (rx_adopt (JB_DEFAULT int_ops)
        ((demo_stream 100 0)\<lparr>rl_transport := publish_latency (TotalMs 200) (rl_transport (demo_stream 100 0))\<rparr>))"
proof -
  have ok: "loop_ok 100 (JB_DEGRADED int_ops) (demo_stream 100 0)" by (rule demo_stream_ok) simp
  then have "pb_ok (rl_jb (demo_stream 100 0))" "tc_latency_target (rl_transport (demo_stream 100 0)) = TotalMs 100"
    by (simp_all add: loop_ok_def)
  moreover have "max_target (JB_DEFAULT int_ops) < 2 ^ 30" "hard_slack (JB_DEFAULT int_ops) < 2 ^ 30"
    "extra_max (JB_DEFAULT int_ops) < 2 ^ 30" by (simp_all add: JB_DEFAULT_def)
  ultimately show ?thesis
    using new_choice_takes_effect [OF _ tuning_default_ok(1), of "demo_stream 100 0" int_ops 200]
    by (simp add: Let_def)
qed

end
