(* ===== verification/SpscRing.thy ===== *)
theory SpscRing
  imports Interfaces
begin

text \<open>
  The lock-free hand-over between one producer and one consumer (core/audiohubd/src/rtsafe.rs): a
  fixed array of slots and two counters that only grow, wrapping at the width of \<open>usize\<close>. The
  operations are given first as the code has them, for a thread that runs alone; then the two threads
  are interleaved load by load and store by store, a load of the other side's counter being allowed to
  return any value that counter has had since the last one seen.
\<close>

section \<open>The operations\<close>

record 'a ring =
  rg_slots :: "'a list"
  rg_mask :: u64
  rg_write :: u64
  rg_read :: u64
  rg_rejected :: u64

text \<open>None is the panic of the constructor's assertion.\<close>

definition is_power_of_two :: "nat \<Rightarrow> bool" where
  "is_power_of_two n \<longleftrightarrow> list_ex (\<lambda>k. n = 2 ^ k) [0..<64]"

definition ring_new :: "nat \<Rightarrow> (nat \<Rightarrow> 'a) \<Rightarrow> 'a ring option" where
  "ring_new cap init =
     (if is_power_of_two cap \<and> 2 \<le> cap
      then Some \<lparr>rg_slots = map init [0..<cap], rg_mask = of_nat cap - 1, rg_write = 0, rg_read = 0, rg_rejected = 0\<rparr>
      else None)"

definition ring_capacity :: "('a, 'm) ring_scheme \<Rightarrow> u64" where
  "ring_capacity r = rg_mask r + 1"

definition slot_of :: "('a, 'm) ring_scheme \<Rightarrow> u64 \<Rightarrow> nat" where
  "slot_of r i = unat (and i (rg_mask r))"

text \<open>\<open>fill\<close> rewrites the slot and says whether the entry counts.\<close>

definition produce :: "('a \<Rightarrow> bool \<times> 'a) \<Rightarrow> 'a ring \<Rightarrow> bool \<times> 'a ring" where
  "produce fill r =
     (if ring_capacity r \<le> rg_write r - rg_read r then (False, r\<lparr>rg_rejected := rg_rejected r + 1\<rparr>)
      else
        let j = slot_of r (rg_write r) in
        case fill (rg_slots r ! j) of
          (ok, x) \<Rightarrow>
            let r = r\<lparr>rg_slots := (rg_slots r)[j := x]\<rparr> in
            if \<not> ok then (False, r) else (True, r\<lparr>rg_write := rg_write r + 1\<rparr>))"

text \<open>\<open>drain\<close> reads the slot and may leave something else in it.\<close>

definition consume :: "('a \<Rightarrow> 'b \<times> 'a) \<Rightarrow> 'a ring \<Rightarrow> 'b option \<times> 'a ring" where
  "consume drain r =
     (if rg_read r = rg_write r then (None, r)
      else
        let j = slot_of r (rg_read r) in
        case drain (rg_slots r ! j) of
          (y, x) \<Rightarrow> (Some y, r\<lparr>rg_slots := (rg_slots r)[j := x], rg_read := rg_read r + 1\<rparr>))"

definition ring_len :: "('a, 'm) ring_scheme \<Rightarrow> u64" where
  "ring_len r = rg_write r - rg_read r"

section \<open>Counters, slots and wrap-around\<close>

text \<open>
  \<open>W\<close> and \<open>R\<close> count all entries ever published and consumed; the code keeps them modulo the width.
\<close>

definition ring_shape :: "('a, 'm) ring_scheme \<Rightarrow> nat \<Rightarrow> bool" where
  "ring_shape r k \<longleftrightarrow> 0 < k \<and> k < 64 \<and> length (rg_slots r) = 2 ^ k \<and> rg_mask r = mask k"

lemma unat_count: "n < 2 ^ 64 \<Longrightarrow> unat (of_nat n :: u64) = n"
  by (simp add: unat_of_nat take_bit_eq_mod)

lemma ring_shape_capacity: "ring_shape r k \<Longrightarrow> unat (ring_capacity r) = 2 ^ k"
proof -
  assume k: "ring_shape r k"
  then have "ring_capacity r = of_nat (2 ^ k)" by (simp add: ring_shape_def ring_capacity_def mask_eq_exp_minus_1)
  moreover have "(2 :: nat) ^ k < 2 ^ 64" using k by (intro power_strict_increasing) (simp_all add: ring_shape_def)
  ultimately show ?thesis by (simp only: unat_count)
qed

lemma slot_of_count: "ring_shape r k \<Longrightarrow> slot_of r (of_nat n) = n mod 2 ^ k"
proof -
  assume k: "ring_shape r k"
  then have "slot_of r (of_nat n) = unat (take_bit k (of_nat n :: u64))"
    by (simp add: slot_of_def ring_shape_def take_bit_eq_mask)
  also have "\<dots> = take_bit k (take_bit 64 n)"
    by (simp only: unsigned_take_bit_eq) (simp add: unat_of_nat take_bit_eq_mod)
  also have "\<dots> = n mod 2 ^ k" using k by (simp only: take_bit_take_bit) (simp add: min_def take_bit_eq_mod ring_shape_def)
  finally show ?thesis .
qed

lemma count_gap: "m \<le> n \<Longrightarrow> n - m < 2 ^ 64 \<Longrightarrow> unat (of_nat n - of_nat m :: u64) = n - m"
  by (metis of_nat_diff unat_count)

section \<open>One thread: a bounded queue\<close>

definition ring_items :: "('a, 'm) ring_scheme \<Rightarrow> nat \<Rightarrow> nat \<Rightarrow> 'a list" where
  "ring_items r R W = map (\<lambda>n. rg_slots r ! (n mod length (rg_slots r))) [R..<W]"

definition ring_rel :: "('a, 'm) ring_scheme \<Rightarrow> nat \<Rightarrow> nat \<Rightarrow> bool" where
  "ring_rel r R W \<longleftrightarrow> (\<exists>k. ring_shape r k) \<and> rg_write r = of_nat W \<and> rg_read r = of_nat R \<and>
     R \<le> W \<and> W \<le> R + length (rg_slots r)"

lemma two_power_small: "k < 64 \<Longrightarrow> (2 :: nat) ^ k < 2 ^ 64"
  by (rule power_strict_increasing) simp_all

lemma ring_shape_len: "ring_shape r k \<Longrightarrow> length (rg_slots r) = 2 ^ k \<and> length (rg_slots r) < 2 ^ 64 \<and> 0 < length (rg_slots r)"
  using two_power_small [of k] by (simp add: ring_shape_def)

lemma ring_relE:
  assumes "ring_rel r R W"
  obtains k where "ring_shape r k" and "unat (rg_write r - rg_read r) = W - R" and "slot_of r (rg_write r) = W mod length (rg_slots r)"
    and "slot_of r (rg_read r) = R mod length (rg_slots r)" and "unat (ring_capacity r) = length (rg_slots r)"
    and "rg_read r = rg_write r \<longleftrightarrow> R = W" and "length (rg_slots r) < 2 ^ 64" and "0 < length (rg_slots r)"
proof -
  from assms obtain k where k: "ring_shape r k" by (auto simp: ring_rel_def)
  note len = ring_shape_len [OF k]
  have gap: "unat (rg_write r - rg_read r) = W - R"
    using assms len by (auto simp: ring_rel_def intro!: count_gap)
  have "rg_read r = rg_write r \<longleftrightarrow> unat (rg_write r - rg_read r) = 0" by (auto simp: unat_eq_0)
  with gap assms have "rg_read r = rg_write r \<longleftrightarrow> R = W" by (auto simp: ring_rel_def)
  with that [OF k gap] len assms slot_of_count [OF k] ring_shape_capacity [OF k] show thesis by (simp add: ring_rel_def)
qed

lemma mod_apart: "R \<le> n \<Longrightarrow> n < W \<Longrightarrow> W < R + c \<Longrightarrow> n mod c \<noteq> W mod (c :: nat)"
proof
  assume a: "R \<le> n" "n < W" "W < R + c" "n mod c = W mod c"
  then have "c dvd W - n" by (metis mod_eq_dvd_iff_nat nless_le)
  moreover have "0 < W - n" "W - n < c" using a by auto
  ultimately show False by (auto dest: dvd_imp_le)
qed

lemma ring_new_rel: "ring_new cap init = Some r \<Longrightarrow> ring_rel r 0 0 \<and> length (rg_slots r) = cap \<and> rg_rejected r = 0"
proof -
  assume r: "ring_new cap init = Some r"
  then obtain k where k: "cap = 2 ^ k" "k < 64" "2 \<le> cap" by (auto simp: ring_new_def is_power_of_two_def list_ex_iff split: if_splits)
  then have "0 < k" by (cases k) auto
  with r k have "ring_shape r k" by (auto simp: ring_new_def ring_shape_def mask_eq_exp_minus_1 split: if_splits)
  with r show ?thesis by (auto simp: ring_rel_def ring_new_def split: if_splits)
qed

lemma ring_produce_spec:
  assumes "ring_rel r R W"
  shows "case produce fill r of (ok, r') \<Rightarrow>
       let x = fill (rg_slots r ! (W mod length (rg_slots r))); full = (length (ring_items r R W) = length (rg_slots r)) in
       ring_rel r' R (if ok then W + 1 else W) \<and> (ok \<longleftrightarrow> \<not> full \<and> fst x) \<and>
       ring_items r' R (if ok then W + 1 else W) = ring_items r R W @ (if ok then [snd x] else []) \<and>
       length (rg_slots r') = length (rg_slots r) \<and>
       rg_rejected r' = (if full then rg_rejected r + 1 else rg_rejected r)"
proof -
  obtain k where k: "ring_shape r k" and len: "unat (rg_write r - rg_read r) = W - R"
    and sw: "slot_of r (rg_write r) = W mod length (rg_slots r)" and sr: "slot_of r (rg_read r) = R mod length (rg_slots r)"
    and cap: "unat (ring_capacity r) = length (rg_slots r)" and emp: "rg_read r = rg_write r \<longleftrightarrow> R = W"
    and pos: "0 < length (rg_slots r)" by (rule ring_relE [OF assms])
  have RW: "R \<le> W" "W \<le> R + length (rg_slots r)" and w: "rg_write r = of_nat W" "rg_read r = of_nat R"
    using assms by (auto simp: ring_rel_def)
  let ?c = "length (rg_slots r)"
  have full: "ring_capacity r \<le> rg_write r - rg_read r \<longleftrightarrow> ?c \<le> W - R" by (simp add: word_le_nat_alt len cap)
  obtain ok x where f: "fill (rg_slots r ! (W mod ?c)) = (ok, x)" by fastforce
  have keep: "map (\<lambda>n. (rg_slots r)[W mod ?c := x] ! (n mod ?c)) [R..<W] = ring_items r R W" if "W < R + ?c" for x
    using that pos mod_apart [of R _ W ?c] by (fastforce simp: ring_items_def nth_list_update)
  show ?thesis
  proof (cases "?c \<le> W - R")
    case True
    then have "W - R = ?c" using RW by simp
    with True full show ?thesis
      using assms by (simp add: produce_def Let_def ring_items_def ring_rel_def ring_shape_def)
  next
    case False
    then have lt: "W < R + ?c" by simp
    let ?r1 = "r\<lparr>rg_slots := (rg_slots r)[W mod ?c := x]\<rparr>"
    let ?r2 = "?r1\<lparr>rg_write := rg_write r + 1\<rparr>"
    have p: "produce fill r = (ok, if ok then ?r2 else ?r1)"
      using False f by (simp add: produce_def full sw)
    have i1: "ring_items ?r1 R W = ring_items r R W" using keep [OF lt, of x] by (simp add: ring_items_def)
    have i2: "ring_items ?r2 R (W + 1) = ring_items r R W @ [x]"
      using keep [OF lt, of x] RW pos by (simp add: ring_items_def)
    have "ring_rel ?r1 R W" using assms by (simp add: ring_rel_def ring_shape_def)
    moreover have "ring_rel ?r2 R (W + 1)" using assms lt by (simp add: ring_rel_def ring_shape_def)
    moreover have "length (ring_items r R W) \<noteq> ?c" using False by (simp add: ring_items_def)
    ultimately show ?thesis using p i1 i2 f by (simp add: Let_def)
  qed
qed

lemma ring_consume_spec:
  assumes "ring_rel r R W"
  shows "case consume drain r of (res, r') \<Rightarrow>
       length (rg_slots r') = length (rg_slots r) \<and>
       (case ring_items r R W of
          [] \<Rightarrow> res = None \<and> r' = r
        | x # xs \<Rightarrow> res = Some (fst (drain x)) \<and> ring_rel r' (R + 1) W \<and> ring_items r' (R + 1) W = xs)"
proof -
  obtain k where k: "ring_shape r k" and len: "unat (rg_write r - rg_read r) = W - R"
    and sw: "slot_of r (rg_write r) = W mod length (rg_slots r)" and sr: "slot_of r (rg_read r) = R mod length (rg_slots r)"
    and cap: "unat (ring_capacity r) = length (rg_slots r)" and emp: "rg_read r = rg_write r \<longleftrightarrow> R = W"
    and pos: "0 < length (rg_slots r)" by (rule ring_relE [OF assms])
  have RW: "R \<le> W" "W \<le> R + length (rg_slots r)" and w: "rg_write r = of_nat W" "rg_read r = of_nat R"
    using assms by (auto simp: ring_rel_def)
  let ?c = "length (rg_slots r)"
  show ?thesis
  proof (cases "R = W")
    case True
    then show ?thesis by (simp add: consume_def emp ring_items_def)
  next
    case False
    then have lt: "R < W" using RW by simp
    obtain y x where d: "drain (rg_slots r ! (R mod ?c)) = (y, x)" by fastforce
    have split: "ring_items r R W = rg_slots r ! (R mod ?c) # ring_items r (R + 1) W"
      using lt by (simp add: ring_items_def upt_conv_Cons)
    have "map (\<lambda>n. (rg_slots r)[R mod ?c := x] ! (n mod ?c)) [Suc R..<W] = ring_items r (R + 1) W"
      using pos RW(2) mod_apart [of R R _ ?c] by (fastforce simp: ring_items_def nth_list_update)
    then have "ring_items (r\<lparr>rg_slots := (rg_slots r)[R mod ?c := x], rg_read := rg_read r + 1\<rparr>) (R + 1) W = ring_items r (R + 1) W"
      by (simp add: ring_items_def)
    moreover have "ring_rel (r\<lparr>rg_slots := (rg_slots r)[R mod ?c := x], rg_read := rg_read r + 1\<rparr>) (R + 1) W"
      using assms lt by (simp add: ring_rel_def ring_shape_def)
    moreover have "consume drain r = (Some y, r\<lparr>rg_slots := (rg_slots r)[R mod ?c := x], rg_read := rg_read r + 1\<rparr>)"
      using False d by (simp add: consume_def emp sr)
    ultimately show ?thesis using split d by simp
  qed
qed

text \<open>
  For a thread that runs alone the ring is a bounded queue, at any point of the counters'
  wrap-around: producing appends what was filled in, unless the fill is void or the queue is full,
  which is counted; consuming takes the oldest entry; the length is exact.
\<close>

theorem ring_refines_bounded_queue:
  assumes "ring_rel r R W"
  shows "unat (ring_len r) = length (ring_items r R W) \<and>
    (case produce fill r of (ok, r') \<Rightarrow>
       let x = fill (rg_slots r ! (W mod length (rg_slots r))); full = (length (ring_items r R W) = length (rg_slots r)) in
       ring_rel r' R (if ok then W + 1 else W) \<and> (ok \<longleftrightarrow> \<not> full \<and> fst x) \<and>
       ring_items r' R (if ok then W + 1 else W) = ring_items r R W @ (if ok then [snd x] else []) \<and>
       length (rg_slots r') = length (rg_slots r) \<and>
       rg_rejected r' = (if full then rg_rejected r + 1 else rg_rejected r)) \<and>
    (case consume drain r of (res, r') \<Rightarrow>
       length (rg_slots r') = length (rg_slots r) \<and>
       (case ring_items r R W of
          [] \<Rightarrow> res = None \<and> r' = r
        | x # xs \<Rightarrow> res = Some (fst (drain x)) \<and> ring_rel r' (R + 1) W \<and> ring_items r' (R + 1) W = xs))"
proof (intro conjI)
  show "unat (ring_len r) = length (ring_items r R W)"
    using assms by (elim ring_relE) (simp add: ring_len_def ring_items_def)
qed (rule ring_produce_spec [OF assms] ring_consume_spec [OF assms])+

text \<open>The contract the users of the ring rely on.\<close>

definition ring_holds :: "nat \<Rightarrow> 'a ring \<Rightarrow> 'a list \<Rightarrow> bool" where
  "ring_holds c r xs \<longleftrightarrow> length (rg_slots r) = c \<and> (\<exists>R W. ring_rel r R W \<and> ring_items r R W = xs)"

interpretation ring_queue: reject_newest "ring_holds c" c produce consume
proof
  fix r r' :: "'a ring" and xs and f :: "'a \<Rightarrow> bool \<times> 'a" and d :: "'a \<Rightarrow> 'b \<times> 'a" and x
  show "length xs \<le> c" if "ring_holds c r xs"
    using that by (auto simp: ring_holds_def ring_items_def ring_rel_def)
  show "length xs < c \<and> (\<exists>x. fst (f x) \<and> ring_holds c r' (xs @ [snd (f x)]))"
    if "ring_holds c r xs" "produce f r = (True, r')"
  proof -
    from that(1) obtain R W where rel: "ring_rel r R W" "ring_items r R W = xs" "length (rg_slots r) = c" by (auto simp: ring_holds_def)
    have "length xs \<le> c" using rel by (auto simp: ring_items_def ring_rel_def)
    then show ?thesis using ring_produce_spec [OF rel(1), of f] rel that(2) by (auto simp: ring_holds_def Let_def)
  qed
  show "ring_holds c r' xs \<and> (length xs = c \<or> (\<exists>x. \<not> fst (f x)))"
    if "ring_holds c r xs" "produce f r = (False, r')"
  proof -
    from that(1) obtain R W where rel: "ring_rel r R W" "ring_items r R W = xs" "length (rg_slots r) = c" by (auto simp: ring_holds_def)
    then show ?thesis using ring_produce_spec [OF rel(1), of f] that(2) by (auto simp: ring_holds_def Let_def)
  qed
  show "consume d r = (None, r)" if "ring_holds c r []"
  proof -
    from that obtain R W where rel: "ring_rel r R W" "ring_items r R W = []" by (auto simp: ring_holds_def)
    then show ?thesis using ring_consume_spec [OF rel(1), of d] by (auto split: prod.splits)
  qed
  show "\<exists>q'. consume d r = (Some (fst (d x)), q') \<and> ring_holds c q' xs" if "ring_holds c r (x # xs)"
  proof -
    from that obtain R W where rel: "ring_rel r R W" "ring_items r R W = x # xs" "length (rg_slots r) = c" by (auto simp: ring_holds_def)
    then show ?thesis using ring_consume_spec [OF rel(1), of d] by (auto simp: ring_holds_def split: prod.splits)
  qed
qed

section \<open>Two threads, load by load and store by store\<close>

datatype 'a producer_pc = PIdle | PLoaded u64 | PFilling nat | PFilled 'a

datatype consumer_pc = CIdle | CTaking nat | CTaken

text \<open>
  The ring with the position of each thread. The counts of published and consumed entries, the last
  value each thread has seen of the other's count, and the entries published and taken are history.
\<close>

record 'a shared = "'a ring" +
  sh_ppc :: "'a producer_pc"
  sh_cpc :: consumer_pc
  sh_published :: nat
  sh_consumed :: nat
  sh_seen_consumed :: nat
  sh_seen_published :: nat
  sh_in :: "'a list"
  sh_out :: "'a list"

inductive spsc_step :: "'a shared \<Rightarrow> 'a shared \<Rightarrow> bool" where
  p_load: "sh_ppc s = PIdle \<Longrightarrow> sh_seen_consumed s \<le> n \<Longrightarrow> n \<le> sh_consumed s \<Longrightarrow>
    spsc_step s (s\<lparr>sh_seen_consumed := n, sh_ppc := PLoaded (of_nat n)\<rparr>)"
| p_full: "sh_ppc s = PLoaded v \<Longrightarrow> ring_capacity s \<le> rg_write s - v \<Longrightarrow>
    spsc_step s (s\<lparr>rg_rejected := rg_rejected s + 1, sh_ppc := PIdle\<rparr>)"
| p_enter: "sh_ppc s = PLoaded v \<Longrightarrow> \<not> ring_capacity s \<le> rg_write s - v \<Longrightarrow>
    spsc_step s (s\<lparr>sh_ppc := PFilling (slot_of s (rg_write s))\<rparr>)"
| p_fill: "sh_ppc s = PFilling j \<Longrightarrow>
    spsc_step s (s\<lparr>rg_slots := (rg_slots s)[j := x], sh_ppc := (if ok then PFilled x else PIdle)\<rparr>)"
| p_store: "sh_ppc s = PFilled x \<Longrightarrow>
    spsc_step s (s\<lparr>rg_write := rg_write s + 1, sh_published := sh_published s + 1, sh_in := sh_in s @ [x], sh_ppc := PIdle\<rparr>)"
| c_load: "sh_cpc s = CIdle \<Longrightarrow> sh_seen_published s \<le> n \<Longrightarrow> n \<le> sh_published s \<Longrightarrow>
    spsc_step s (s\<lparr>sh_seen_published := n,
      sh_cpc := (if rg_read s = of_nat n then CIdle else CTaking (slot_of s (rg_read s)))\<rparr>)"
| c_take: "sh_cpc s = CTaking j \<Longrightarrow>
    spsc_step s (s\<lparr>sh_out := sh_out s @ [rg_slots s ! j], rg_slots := (rg_slots s)[j := y], sh_cpc := CTaken\<rparr>)"
| c_store: "sh_cpc s = CTaken \<Longrightarrow>
    spsc_step s (s\<lparr>rg_read := rg_read s + 1, sh_consumed := sh_consumed s + 1, sh_cpc := CIdle\<rparr>)"

definition sh_new :: "'a ring \<Rightarrow> 'a shared" where
  "sh_new r = ring.extend r \<lparr>sh_ppc = PIdle, sh_cpc = CIdle, sh_published = 0, sh_consumed = 0, sh_seen_consumed = 0,
     sh_seen_published = 0, sh_in = [], sh_out = []\<rparr>"

definition sh_taken :: "'a shared \<Rightarrow> nat" where
  "sh_taken s = sh_consumed s + (if sh_cpc s = CTaken then 1 else 0)"

definition spsc_data :: "'a shared \<Rightarrow> bool" where
  "spsc_data s \<longleftrightarrow> (\<forall>n. sh_taken s \<le> n \<and> n < sh_published s \<longrightarrow> rg_slots s ! (n mod length (rg_slots s)) = sh_in s ! n)"

definition spsc_inv :: "'a shared \<Rightarrow> bool" where
  "spsc_inv s \<longleftrightarrow>
     (let c = length (rg_slots s); W = sh_published s; R = sh_consumed s; A = sh_seen_consumed s; B = sh_seen_published s in
      (\<exists>k. ring_shape s k) \<and> rg_write s = of_nat W \<and> rg_read s = of_nat R \<and>
      A \<le> R \<and> R \<le> B \<and> B \<le> W \<and> W \<le> A + c \<and> length (sh_in s) = W \<and> sh_out s = take (sh_taken s) (sh_in s) \<and> sh_taken s \<le> B \<and>
      (case sh_ppc s of
         PIdle \<Rightarrow> True
       | PLoaded v \<Rightarrow> v = of_nat A
       | PFilling j \<Rightarrow> j = W mod c \<and> W < A + c
       | PFilled x \<Rightarrow> rg_slots s ! (W mod c) = x \<and> W < A + c) \<and>
      (case sh_cpc s of CIdle \<Rightarrow> True | CTaking j \<Rightarrow> j = R mod c \<and> R < B | CTaken \<Rightarrow> R < B) \<and> spsc_data s)"

lemma spsc_inv_new: "ring_new cap init = Some r \<Longrightarrow> spsc_inv (sh_new r)"
  using ring_new_rel [of cap init r]
  by (auto simp: spsc_inv_def spsc_data_def sh_new_def ring.extend_def sh_taken_def ring_rel_def ring_shape_def Let_def)

lemma mod_apart2: "R < n \<Longrightarrow> n < R + c \<Longrightarrow> n mod c \<noteq> R mod (c :: nat)"
  using mod_apart [of R R n c] by auto

lemma spsc_step_inv:
  assumes "spsc_step s t" and "spsc_inv s"
  shows "spsc_inv t"
  using assms
proof (cases rule: spsc_step.cases)
  case (p_enter v)
  from assms(2) obtain k where k: "ring_shape s k" by (auto simp: spsc_inv_def Let_def)
  note len = ring_shape_len [OF k]
  have gap: "unat (rg_write s - v) = sh_published s - sh_seen_consumed s"
    using assms(2) p_enter(2) len by (auto simp: spsc_inv_def Let_def intro!: count_gap)
  have "slot_of s (rg_write s) = sh_published s mod length (rg_slots s)"
    using assms(2) slot_of_count [OF k] len by (simp add: spsc_inv_def Let_def ring_shape_len [OF k, THEN conjunct1])
  moreover have "sh_published s < sh_seen_consumed s + length (rg_slots s)"
    using p_enter(3) gap ring_shape_capacity [OF k] len by (simp add: word_le_nat_alt)
  ultimately show ?thesis using assms(2) p_enter by (simp add: spsc_inv_def spsc_data_def Let_def ring_shape_def sh_taken_def)
next
  case (p_fill j ok x)
  let ?c = "length (rg_slots s)"
  have pos: "0 < ?c" using assms(2) by (auto simp: spsc_inv_def Let_def dest: ring_shape_len)
  have W: "j = sh_published s mod ?c" "sh_published s < sh_taken s + ?c"
    using assms(2) p_fill(2) by (auto simp: spsc_inv_def Let_def sh_taken_def)
  have same: "(rg_slots s)[j := x] ! (n mod ?c) = rg_slots s ! (n mod ?c)" if "sh_taken s \<le> n" "n < sh_published s" for n
    using mod_apart [OF that W(2)] W(1) pos by (simp add: nth_list_update)
  have taken: "sh_taken t = sh_taken s" using p_fill by (simp add: sh_taken_def)
  moreover have "spsc_data t" using assms(2) same taken p_fill by (simp add: spsc_inv_def spsc_data_def Let_def)
  ultimately show ?thesis using assms(2) p_fill W pos
    by (cases ok) (simp_all add: spsc_inv_def Let_def ring_shape_def)
next
  case (p_store x)
  then show ?thesis using assms(2)
    by (auto simp: spsc_inv_def spsc_data_def Let_def ring_shape_def sh_taken_def nth_append less_Suc_eq split: if_splits)
next
  case (c_load n)
  from assms(2) obtain k where k: "ring_shape s k" by (auto simp: spsc_inv_def Let_def)
  note len = ring_shape_len [OF k]
  have "unat (of_nat n - rg_read s) = n - sh_consumed s"
    using assms(2) c_load len by (auto simp: spsc_inv_def Let_def intro!: count_gap)
  then have "rg_read s = of_nat n \<longleftrightarrow> sh_consumed s = n"
    using assms(2) c_load by (auto simp: spsc_inv_def Let_def)
  moreover have "slot_of s (rg_read s) = sh_consumed s mod length (rg_slots s)"
    using assms(2) slot_of_count [OF k] len by (simp add: spsc_inv_def Let_def)
  ultimately show ?thesis using assms(2) c_load
    by (cases "sh_ppc s"; cases "sh_consumed s = n") (simp_all add: spsc_inv_def spsc_data_def Let_def ring_shape_def sh_taken_def)
next
  case (c_take j y)
  let ?c = "length (rg_slots s)"
  let ?R = "sh_consumed s"
  have pos: "0 < ?c" using assms(2) by (auto simp: spsc_inv_def Let_def dest: ring_shape_len)
  have R: "j = ?R mod ?c" "?R < sh_seen_published s" "sh_seen_published s \<le> sh_published s" "sh_published s \<le> ?R + ?c"
    "length (sh_in s) = sh_published s" "sh_taken s = ?R" "sh_taken t = Suc ?R"
    using assms(2) c_take by (auto simp: spsc_inv_def Let_def sh_taken_def)
  have same: "(rg_slots s)[j := y] ! (n mod ?c) = rg_slots s ! (n mod ?c)" if "?R < n" "n < ?R + ?c" for n
    using mod_apart2 [OF that] R(1) pos by (simp add: nth_list_update)
  have "spsc_data t" using assms(2) same R(4,6,7) c_take by (simp add: spsc_inv_def spsc_data_def Let_def)
  moreover have "sh_out s @ [rg_slots s ! j] = take (sh_taken t) (sh_in s)"
    using assms(2) R by (simp add: spsc_inv_def spsc_data_def Let_def take_Suc_conv_app_nth)
  moreover have "sh_published s < sh_seen_consumed s + ?c \<Longrightarrow> (rg_slots s)[j := y] ! (sh_published s mod ?c) = rg_slots s ! (sh_published s mod ?c)"
    using assms(2) R by (intro same) (auto simp: spsc_inv_def Let_def)
  moreover have "\<exists>k. ring_shape t k" using assms(2) c_take by (auto simp: spsc_inv_def Let_def ring_shape_def)
  moreover have fields: "sh_out t = sh_out s @ [rg_slots s ! j]" "rg_slots t = (rg_slots s)[j := y]" "sh_cpc t = CTaken"
    "rg_write t = rg_write s" "rg_read t = rg_read s" "sh_ppc t = sh_ppc s" "sh_published t = sh_published s"
    "sh_consumed t = ?R" "sh_seen_consumed t = sh_seen_consumed s" "sh_seen_published t = sh_seen_published s" "sh_in t = sh_in s"
    by (simp_all add: c_take(1))
  ultimately show ?thesis using assms(2) R(2,3,7)
    unfolding spsc_inv_def Let_def fields by (cases "sh_ppc s") simp_all
next
  case c_store
  then show ?thesis using assms(2)
    by (cases "sh_ppc s") (simp_all add: spsc_inv_def spsc_data_def Let_def ring_shape_def sh_taken_def)
qed (use assms(2) in \<open>simp_all add: spsc_inv_def spsc_data_def Let_def ring_shape_def sh_taken_def\<close>)

lemma spsc_reach_inv: "spsc_step\<^sup>*\<^sup>* s t \<Longrightarrow> spsc_inv s \<Longrightarrow> spsc_inv t"
  by (induction rule: rtranclp_induct) (auto intro: spsc_step_inv)

text \<open>
  C32. The ring is safe between its two threads: however their loads and stores interleave, with each
  load of the other side's counter possibly late, they never work on the same slot at the same time,
  what has been taken is exactly the beginning of what was published, in order, nothing lost or
  repeated, and never more entries than the capacity are outstanding, at any point of the wrap-around.
\<close>

theorem ring_is_race_free_fifo:
  assumes "ring_new cap init = Some r" and "spsc_step\<^sup>*\<^sup>* (sh_new r) s"
  shows "\<not> (\<exists>j. sh_ppc s = PFilling j \<and> sh_cpc s = CTaking j) \<and>
    sh_out s = take (length (sh_out s)) (sh_in s) \<and> length (sh_in s) \<le> length (sh_out s) + cap \<and>
    (\<forall>j. sh_cpc s = CTaking j \<longrightarrow> rg_slots s ! j = sh_in s ! length (sh_out s))"
proof -
  have inv: "spsc_inv s" by (rule spsc_reach_inv [OF assms(2) spsc_inv_new [OF assms(1)]])
  have keep: "length (rg_slots t) = length (rg_slots s')" if "spsc_step s' t" for s' t :: "'a shared"
    using that by (cases rule: spsc_step.cases) auto
  have "length (rg_slots s) = length (rg_slots (sh_new r))"
    using assms(2) by (induction rule: rtranclp_induct) (auto dest: keep)
  then have cap: "length (rg_slots s) = cap" using ring_new_rel [OF assms(1)] by (simp add: sh_new_def ring.extend_def)
  have len: "length (sh_out s) = sh_taken s" using inv by (auto simp: spsc_inv_def Let_def)
  have "sh_published s mod length (rg_slots s) \<noteq> sh_consumed s mod length (rg_slots s)"
    if "sh_consumed s < sh_published s" "sh_published s < sh_consumed s + length (rg_slots s)"
    using mod_apart2 [OF that] .
  then have "\<not> (\<exists>j. sh_ppc s = PFilling j \<and> sh_cpc s = CTaking j)"
    using inv by (auto simp: spsc_inv_def Let_def)
  then show ?thesis using inv cap len by (auto simp: spsc_inv_def spsc_data_def Let_def sh_taken_def split: consumer_pc.splits)
qed

theorem ring_is_race_free_fifo_witness:
  "\<exists>r s. ring_new 2 (\<lambda>_. 0 :: nat) = Some r \<and> spsc_step\<^sup>*\<^sup>* (sh_new r) s \<and> sh_in s = [7] \<and> sh_out s = []"
proof -
  have two: "is_power_of_two 2" by (auto simp: is_power_of_two_def list_ex_iff intro!: bexI [of _ 1])
  obtain r where r: "ring_new 2 (\<lambda>_. 0 :: nat) = Some r" and "r = \<lparr>rg_slots = [0, 0], rg_mask = 1, rg_write = 0, rg_read = 0, rg_rejected = 0\<rparr>"
    using two by (simp add: ring_new_def upt_rec numeral_2_eq_2)
  then have e: "sh_new r = \<lparr>rg_slots = [0, 0], rg_mask = 1, rg_write = 0, rg_read = 0, rg_rejected = 0, sh_ppc = PIdle, sh_cpc = CIdle,
      sh_published = 0, sh_consumed = 0, sh_seen_consumed = 0, sh_seen_published = 0, sh_in = [], sh_out = []\<rparr>"
    by (simp add: sh_new_def ring.extend_def)
  let ?a = "(sh_new r)\<lparr>sh_ppc := PLoaded 0\<rparr>" and ?b = "(sh_new r)\<lparr>sh_ppc := PFilling 0\<rparr>"
  let ?c = "(sh_new r)\<lparr>rg_slots := [7, 0], sh_ppc := PFilled 7\<rparr>"
  let ?d = "?c\<lparr>rg_write := 1, sh_published := 1, sh_in := [7], sh_ppc := PIdle\<rparr>"
  have "spsc_step (sh_new r) ?a" using p_load [of "sh_new r" 0] by (simp add: e)
  moreover have "spsc_step ?a ?b" using p_enter [of ?a 0] by (simp add: e ring_capacity_def slot_of_def)
  moreover have "spsc_step ?b ?c" using p_fill [of ?b 0 True 7] by (simp add: e)
  moreover have "spsc_step ?c ?d" using p_store [of ?c 7] by (simp add: e)
  ultimately have run: "spsc_step\<^sup>*\<^sup>* (sh_new r) ?d" by (meson converse_rtranclp_into_rtranclp rtranclp.rtrancl_refl)
  from ring_is_race_free_fifo [OF r run] r run show ?thesis by (intro exI [of _ r] exI [of _ ?d]) (simp add: e)
qed

theorem ring_refines_bounded_queue_witness:
  "\<exists>r. ring_new 2 (\<lambda>i. i) = Some r \<and> unat (ring_len (snd (produce (\<lambda>_. (True, 7)) r))) = 1 \<and> ring_rel r 0 0"
proof -
  have "is_power_of_two 2" by (auto simp: is_power_of_two_def list_ex_iff intro!: bexI [of _ 1])
  then obtain r where r: "ring_new 2 (\<lambda>i. i) = Some r" by (auto simp: ring_new_def)
  then have rel: "ring_rel r 0 0" and len: "length (rg_slots r) = 2" using ring_new_rel [of 2 "\<lambda>i. i" r] by auto
  obtain ok r' where p: "produce (\<lambda>_. (True, 7)) r = (ok, r')" by fastforce
  have "ok" and "ring_rel r' 0 1"
    using ring_refines_bounded_queue [OF rel, of "\<lambda>_. (True, 7)" "\<lambda>x. (x, x)"] len
    by (auto simp: p Let_def ring_items_def split: if_splits)
  then show ?thesis using r rel p by (auto elim!: ring_relE simp: ring_len_def)
qed

end
