(* ===== verification/MediaLink.thy ===== *)
theory MediaLink
  imports SpscRing MuxIo Ladder PeerTransport
begin

text \<open>
  The media queue of a byte-stream connection and the thread that writes it
  (core/audiohubd/src/tcpmedia.rs). Time is a number of microseconds that passes inside
  calls of the sink, in sleeps and while the writer is parked; statements in between take none.
  What a frame's owner permits, and the shutdown flag, are functions of time; the sink is the list of
  the answers its calls will give, each with its duration.
\<close>

section \<open>Constants\<close>

definition STALE_BUDGET :: nat where
  "STALE_BUDGET = 440000"

definition WRITE_SLICE :: nat where
  "WRITE_SLICE = 20000"

definition FRAME_COMPLETION_LIMIT :: nat where
  "FRAME_COMPLETION_LIMIT = 5000000"

definition CONTROL_CREDIT :: nat where
  "CONTROL_CREDIT = 100000"

definition SEND_SLOTS :: nat where
  "SEND_SLOTS = 128 * MAX_WIRE_PARTS"

section \<open>The environment\<close>

datatype sink_answer = Took nat | Again | WouldBlock | Broken

text \<open>
  \<open>en_cost\<close> is the time the test-only rate limit charges for a number of bytes (a division of
  binary floating-point numbers in the code).
\<close>

record env =
  en_may :: "nat \<Rightarrow> nat \<Rightarrow> bool"
  en_shutdown :: "nat \<Rightarrow> bool"
  en_cost :: "nat \<Rightarrow> nat \<Rightarrow> nat"

definition owner_may :: "env \<Rightarrow> nat option \<Rightarrow> nat \<Rightarrow> bool" where
  "owner_may e o' now = (case o' of None \<Rightarrow> True | Some i \<Rightarrow> en_may e i now)"

section \<open>Writing one frame against the clock\<close>

text \<open>
  The outcome, the bytes of the frame that reached the sink, the time and what is left of the sink's
  answers; no outcome means that the sink still owes an answer.
\<close>

function write_timed ::
  "env \<Rightarrow> nat option \<Rightarrow> bytes \<Rightarrow> nat \<Rightarrow> nat \<Rightarrow> nat \<Rightarrow> nat \<Rightarrow> (nat \<times> sink_answer) list \<Rightarrow>
   write_outcome option \<times> nat \<times> nat \<times> (nat \<times> sink_answer) list" where
  "write_timed e o' buf stale_at hard_at off now sc =
     (if length buf \<le> off then (Some Sent, off, now, sc)
      else if off = 0 \<and> \<not> owner_may e o' now then (Some Revoked, off, now, sc)
      else case sc of
        [] \<Rightarrow> (None, off, now, [])
      | (d, a) # sc' \<Rightarrow>
          let now' = now + d in
          case a of
            Took n \<Rightarrow>
              if n = 0 then (Some Dead, off, now', sc')
              else write_timed e o' buf stale_at hard_at (off + n) now' sc'
          | Again \<Rightarrow> write_timed e o' buf stale_at hard_at off now' sc'
          | WouldBlock \<Rightarrow>
              if en_shutdown e now' then (Some Dead, off, now', sc')
              else if off = 0 then
                (if stale_at \<le> now' then (Some Stale, off, now', sc')
                 else write_timed e o' buf stale_at hard_at off now' sc')
              else if hard_at \<le> now' then (Some Dead, off, now', sc')
              else write_timed e o' buf stale_at hard_at off now' sc'
          | Broken \<Rightarrow> (Some Dead, off, now', sc'))"
  by pat_completeness auto

termination by (relation "measure (\<lambda>(e, o', buf, stale_at, hard_at, off, now, sc). length sc)") auto

declare write_timed.simps [simp del]

section \<open>The test-only rate limit\<close>

record token_bucket =
  tb_bps :: nat
  tb_next_at :: "nat option"

definition token_bucket_new :: "nat \<Rightarrow> token_bucket" where
  "token_bucket_new bps = \<lparr>tb_bps = bps, tb_next_at = None\<rparr>"

function gate_until :: "env \<Rightarrow> nat option \<Rightarrow> nat \<Rightarrow> nat \<Rightarrow> bool \<times> nat" where
  "gate_until e o' t now =
     (if \<not> owner_may e o' now then (False, now)
      else if t \<le> now \<or> en_shutdown e now then (True, now)
      else gate_until e o' t (now + min (t - now) WRITE_SLICE))"
  by pat_completeness auto

termination by (relation "measure (\<lambda>(e, o', t, now). t - now)") (auto simp: WRITE_SLICE_def)

declare gate_until.simps [simp del]

definition gate_owned :: "env \<Rightarrow> nat option \<Rightarrow> token_bucket \<Rightarrow> nat \<Rightarrow> bool \<times> nat" where
  "gate_owned e o' b now =
     (if tb_bps b = 0 then (owner_may e o' now, now)
      else case tb_next_at b of
        None \<Rightarrow> (owner_may e o' now, now)
      | Some t \<Rightarrow> gate_until e o' t now)"

definition charge :: "env \<Rightarrow> nat \<Rightarrow> nat \<Rightarrow> token_bucket \<Rightarrow> token_bucket" where
  "charge e n now b =
     (if tb_bps b = 0 then b
      else b\<lparr>tb_next_at := Some (max (case tb_next_at b of None \<Rightarrow> now | Some t \<Rightarrow> t) now + en_cost e n (tb_bps b))\<rparr>)"

section \<open>The queue and its counters\<close>

record send_slot =
  ss_buf :: bytes
  ss_queued_at :: nat
  ss_payload_len :: nat
  ss_owner :: "nat option"

record media_link =
  lk_fp :: "string option"
  lk_q :: "send_slot ring"
  lk_alive :: bool
  lk_stale_dropped :: nat
  lk_revoked_dropped :: nat
  lk_frames_written :: nat
  lk_frames_read :: nat
  lk_unexpected_kind :: nat
  lk_wait_last :: nat
  lk_wait_peak :: nat
  lk_wait_window :: nat
  lk_wait_taken :: nat
  lk_tx_bps :: nat

definition media_link_new :: "string \<Rightarrow> nat \<Rightarrow> nat \<Rightarrow> media_link" where
  "media_link_new fp bps now =
     \<lparr>lk_fp = (if fp = [] then None else Some fp),
      lk_q = the (ring_new SEND_SLOTS (\<lambda>_. \<lparr>ss_buf = [], ss_queued_at = now, ss_payload_len = 0, ss_owner = None\<rparr>)),
      lk_alive = True, lk_stale_dropped = 0, lk_revoked_dropped = 0, lk_frames_written = 0, lk_frames_read = 0,
      lk_unexpected_kind = 0, lk_wait_last = 0, lk_wait_peak = 0, lk_wait_window = 0, lk_wait_taken = 0, lk_tx_bps = bps\<rparr>"

text \<open>\<open>fill\<close> rewrites the buffer of the slot and says whether the frame counts.\<close>

definition fill_slot :: "nat \<Rightarrow> nat \<Rightarrow> nat \<Rightarrow> (bytes \<Rightarrow> bool \<times> bytes) \<Rightarrow> send_slot \<Rightarrow> bool \<times> send_slot" where
  "fill_slot queued_at owner payload_len fill s =
     (case fill (ss_buf s) of
        (False, b) \<Rightarrow> (False, s\<lparr>ss_buf := b\<rparr>)
      | (True, b) \<Rightarrow> (True, \<lparr>ss_buf = b, ss_queued_at = queued_at, ss_payload_len = payload_len, ss_owner = Some owner\<rparr>))"

definition link_enqueue ::
  "env \<Rightarrow> nat \<Rightarrow> nat \<Rightarrow> nat \<Rightarrow> nat \<Rightarrow> (bytes \<Rightarrow> bool \<times> bytes) \<Rightarrow> media_link \<Rightarrow> bool \<times> media_link" where
  "link_enqueue e now queued_at owner payload_len fill l =
     (if \<not> lk_alive l \<or> \<not> en_may e owner now then (False, l)
      else case produce (fill_slot queued_at owner payload_len fill) (lk_q l) of
        (ok, q) \<Rightarrow> (ok, l\<lparr>lk_q := q\<rparr>))"

definition note_wait :: "nat \<Rightarrow> media_link \<Rightarrow> media_link" where
  "note_wait waited l =
     (let us = min waited u64_max in
      l\<lparr>lk_wait_last := us, lk_wait_peak := max (lk_wait_peak l) us, lk_wait_window := max (lk_wait_window l) us\<rparr>)"

definition take_writeq_peak :: "media_link \<Rightarrow> nat \<times> media_link" where
  "take_writeq_peak l = (lk_wait_window l, l\<lparr>lk_wait_window := 0, lk_wait_taken := lk_wait_window l\<rparr>)"

definition note_frame_read :: "media_link \<Rightarrow> media_link" where
  "note_frame_read l = l\<lparr>lk_frames_read := lk_frames_read l + 1\<rparr>"

definition note_unexpected_kind :: "media_link \<Rightarrow> media_link" where
  "note_unexpected_kind l = l\<lparr>lk_unexpected_kind := lk_unexpected_kind l + 1\<rparr>"

definition link_kill :: "media_link \<Rightarrow> media_link" where
  "link_kill l = l\<lparr>lk_alive := False\<rparr>"

definition link_fp :: "media_link \<Rightarrow> string" where
  "link_fp l = (case lk_fp l of None \<Rightarrow> [] | Some fp \<Rightarrow> fp)"

definition name_peer :: "string \<Rightarrow> media_link \<Rightarrow> media_link" where
  "name_peer fp l = (case lk_fp l of None \<Rightarrow> l\<lparr>lk_fp := Some fp\<rparr> | Some _ \<Rightarrow> l)"

section \<open>Where a stream's media goes\<close>

datatype ('a, 'l) media_path = MpUdp 'a | MpTcp 'l | MpFramed 'l

fun auto_top_rung :: "('a, 'l) media_path \<Rightarrow> nat" where
  "auto_top_rung (MpUdp _) = AUTO_TOP_RUNG"
| "auto_top_rung (MpTcp _) = AUTO_TOP_RUNG_STREAMED"
| "auto_top_rung (MpFramed _) = AUTO_TOP_RUNG_STREAMED"

fun udp_dest :: "('a, 'l) media_path \<Rightarrow> 'a option" where
  "udp_dest (MpUdp a) = Some a"
| "udp_dest _ = None"

fun path_link :: "('a, 'l) media_path \<Rightarrow> 'l option" where
  "path_link (MpUdp _) = None"
| "path_link (MpTcp l) = Some l"
| "path_link (MpFramed l) = Some l"

fun tier_wire :: "('a, 'l) media_path \<Rightarrow> string" where
  "tier_wire (MpUdp _) = tier_as_wire Tier0"
| "tier_wire (MpTcp _) = tier_as_wire Tier1"
| "tier_wire (MpFramed _) = tier_as_wire Tier2"

section \<open>One queued frame\<close>

record write_report =
  wp_outcome :: "write_outcome option"
  wp_off :: nat
  wp_now :: nat
  wp_sink :: "(nat \<times> sink_answer) list"
  wp_waited :: "nat option"

text \<open>What the writer does with the slot it has taken: \<open>cap\<close> is the instant from which the frame
  must not start, where there is one.\<close>

definition write_slot ::
  "env \<Rightarrow> token_bucket \<Rightarrow> nat \<Rightarrow> (nat \<times> sink_answer) list \<Rightarrow> nat option \<Rightarrow> send_slot \<Rightarrow> write_report" where
  "write_slot e b now sc cap s =
     (if \<not> owner_may e (ss_owner s) now
      then \<lparr>wp_outcome = Some Revoked, wp_off = 0, wp_now = now, wp_sink = sc, wp_waited = None\<rparr>
      else case gate_owned e (ss_owner s) b now of
        (False, now1) \<Rightarrow> \<lparr>wp_outcome = Some Revoked, wp_off = 0, wp_now = now1, wp_sink = sc, wp_waited = None\<rparr>
      | (True, now1) \<Rightarrow>
          let waited = now1 - ss_queued_at s;
              stale_at = (case cap of None \<Rightarrow> ss_queued_at s + STALE_BUDGET
                          | Some c \<Rightarrow> min c (ss_queued_at s + STALE_BUDGET)) in
          if STALE_BUDGET < waited \<or> stale_at \<le> now1
          then \<lparr>wp_outcome = Some Stale, wp_off = 0, wp_now = now1, wp_sink = sc, wp_waited = Some waited\<rparr>
          else case write_timed e (ss_owner s) (ss_buf s) stale_at (ss_queued_at s + FRAME_COMPLETION_LIMIT) 0 now1 sc of
            (res, off, now2, sc2) \<Rightarrow>
              \<lparr>wp_outcome = res, wp_off = off, wp_now = now2, wp_sink = sc2, wp_waited = Some waited\<rparr>)"

record tx_counters =
  txc_packets :: nat
  txc_bytes :: nat
  txc_payload :: nat

text \<open>
  The writer with its link: the clock, what the sink will answer, the rate limit, the counters of the
  owners. The bytes on the wire are history, and so are the frames accepted by the queue and the frames
  taken, each with its class (media or control), its outcome and how much of it moved.
\<close>

record writer =
  wr_link :: media_link
  wr_now :: nat
  wr_sink :: "(nat \<times> sink_answer) list"
  wr_bucket :: token_bucket
  wr_tx :: "nat \<Rightarrow> tx_counters"
  wr_wire :: bytes
  wr_accepted :: "bytes list"
  wr_log :: "(bool \<times> bytes \<times> write_outcome \<times> nat) list"

definition count_sent :: "send_slot \<Rightarrow> (nat \<Rightarrow> tx_counters) \<Rightarrow> nat \<Rightarrow> tx_counters" where
  "count_sent s tx =
     (case ss_owner s of
        None \<Rightarrow> tx
      | Some i \<Rightarrow> tx(i := \<lparr>txc_packets = txc_packets (tx i) + 1, txc_bytes = txc_bytes (tx i) + length (ss_buf s),
                          txc_payload = txc_payload (tx i) + ss_payload_len s\<rparr>))"

definition settle :: "env \<Rightarrow> send_slot \<Rightarrow> write_outcome \<Rightarrow> ('m) writer_scheme \<Rightarrow> ('m) writer_scheme" where
  "settle e s out w =
     (case out of
        Sent \<Rightarrow>
          w\<lparr>wr_bucket := charge e (length (ss_buf s)) (wr_now w) (wr_bucket w),
            wr_link := (wr_link w)\<lparr>lk_frames_written := lk_frames_written (wr_link w) + 1\<rparr>,
            wr_tx := count_sent s (wr_tx w)\<rparr>
      | Stale \<Rightarrow> w\<lparr>wr_link := (wr_link w)\<lparr>lk_stale_dropped := lk_stale_dropped (wr_link w) + 1\<rparr>\<rparr>
      | Revoked \<Rightarrow> w\<lparr>wr_link := (wr_link w)\<lparr>lk_revoked_dropped := lk_revoked_dropped (wr_link w) + 1\<rparr>\<rparr>
      | Dead \<Rightarrow> w)"

text \<open>The call has returned nothing yet, found the queue empty, or dealt with one frame.\<close>

datatype one_result = Waiting | QueueEmpty | Took_one write_outcome

definition write_one_queued ::
  "env \<Rightarrow> nat option \<Rightarrow> ('m) writer_scheme \<Rightarrow> one_result \<times> ('m) writer_scheme" where
  "write_one_queued e cap w =
     (case SpscRing.consume (\<lambda>s. ((s, write_slot e (wr_bucket w) (wr_now w) (wr_sink w) cap s), s\<lparr>ss_owner := None\<rparr>)) (lk_q (wr_link w)) of
        (None, _) \<Rightarrow> (QueueEmpty, w)
      | (Some (s, r), q) \<Rightarrow>
          (case wp_outcome r of
             None \<Rightarrow> (Waiting, w)
           | Some out \<Rightarrow>
               let l = (case wp_waited r of None \<Rightarrow> wr_link w | Some d \<Rightarrow> note_wait d (wr_link w)) in
               (Took_one out, settle e s out
                  (w\<lparr>wr_link := l\<lparr>lk_q := q\<rparr>, wr_now := wp_now r, wr_sink := wp_sink r,
                     wr_wire := wr_wire w @ take (wp_off r) (ss_buf s), wr_log := wr_log w @ [(True, ss_buf s, out, wp_off r)]\<rparr>))))"

section \<open>The writer of a media connection\<close>

text \<open>Where the pass ends: it waits inside a call, the thread returns, or it parks.\<close>

datatype pass_end = InCall | Returned | Parked

text \<open>The inner loop; the number of entries queued bounds its rounds.\<close>

fun drain_queue :: "nat \<Rightarrow> env \<Rightarrow> ('m) writer_scheme \<Rightarrow> (bool option) \<times> ('m) writer_scheme" where
  "drain_queue 0 e w = (Some False, w)"
| "drain_queue (Suc n) e w =
     (case write_one_queued e None w of
        (Waiting, w') \<Rightarrow> (None, w')
      | (QueueEmpty, w') \<Rightarrow> (Some False, w')
      | (Took_one out, w') \<Rightarrow>
          if out = Dead then (Some True, w')
          else if \<not> lk_alive (wr_link w') then (Some False, w')
          else drain_queue n e w')"

definition write_loop_pass :: "env \<Rightarrow> ('m) writer_scheme \<Rightarrow> pass_end \<times> ('m) writer_scheme" where
  "write_loop_pass e w =
     (case drain_queue (Suc (unat (ring_len (lk_q (wr_link w))))) e w of
        (None, w') \<Rightarrow> (InCall, w')
      | (Some fatal, w') \<Rightarrow>
          let w2 = (if fatal then w'\<lparr>wr_link := link_kill (wr_link w')\<rparr> else w') in
          if \<not> lk_alive (wr_link w2) \<or> en_shutdown e (wr_now w2) then (Returned, w2) else (Parked, w2))"

section \<open>What one write can do\<close>

lemmas write_timed_Nil = write_timed.simps [where sc = "[]", unfolded list.case]
lemmas write_timed_Cons = write_timed.simps [where sc = "(d, a) # sc" for d a sc, unfolded list.case prod.case Let_def]

lemma write_timed_facts:
  "write_timed e o' buf stale_at hard_at off now sc = (res, off', now', sc') \<Longrightarrow>
   now \<le> now' \<and> off \<le> off' \<and>
   (res = Some Sent \<longleftrightarrow> length buf \<le> off') \<and> (res = Some Stale \<or> res = Some Revoked \<longrightarrow> off' = 0) \<and>
   (res = Some Revoked \<longrightarrow> o' \<noteq> None)"
proof (induction sc arbitrary: off now)
  case Nil
  then show ?case by (auto simp: write_timed_Nil owner_may_def split: if_splits option.splits)
next
  case (Cons x sc)
  obtain d a where x: "x = (d, a)" by (cases x)
  show ?case
  proof (cases "off < length buf \<and> (off = 0 \<longrightarrow> owner_may e o' now)")
    case False
    then show ?thesis using Cons.prems by (auto simp: x write_timed_Cons owner_may_def split: if_splits option.splits)
  next
    case True
    note prems = Cons.prems [unfolded x write_timed_Cons] and IH = Cons.IH
    show ?thesis
    proof (cases a)
      case (Took n)
      then show ?thesis using prems True IH [of "off + n" "now + d"] by (auto split: if_splits)
    qed (use prems True IH [of off "now + d"] in \<open>auto split: if_splits\<close>)
  qed
qed

text \<open>The frame writer without the clock is the same routine on the answers as events.\<close>

lemma write_timed_refines:
  "write_timed e o' buf stale_at hard_at off now sc = (res, off', now', sc') \<Longrightarrow>
   \<exists>evs. write_owned_frame buf stale_at hard_at evs off = (res, take off' buf)"
proof (induction sc arbitrary: off now)
  case Nil
  then show ?case
  proof (cases "off = 0 \<and> \<not> owner_may e o' now")
    case True
    with Nil show ?thesis
      by (intro exI [of _ "[(False, Interrupted)]"]) (auto simp: write_timed_Nil write_owned_frame.simps split: if_splits)
  next
    case False
    with Nil show ?thesis
      by (intro exI [of _ "[]"]) (auto simp: write_timed_Nil write_owned_frame.simps split: if_splits)
  qed
next
  case (Cons x sc)
  obtain d a where x: "x = (d, a)" by (cases x)
  note prems = Cons.prems [unfolded x write_timed_Cons]
  have step: "\<exists>evs. write_owned_frame buf stale_at hard_at evs off = (res, take off' buf)"
    if "write_owned_frame buf stale_at hard_at evs off2 = (res, take off' buf)"
      "\<And>evs. write_owned_frame buf stale_at hard_at (ev # evs) off = write_owned_frame buf stale_at hard_at evs off2" for ev evs off2
    using that by metis
  show ?case
  proof (cases "off < length buf \<and> (off = 0 \<longrightarrow> owner_may e o' now)")
    case False
    then show ?thesis using prems
      by (intro exI [of _ "[(False, Interrupted)]"]) (auto simp: write_owned_frame.simps split: if_splits)
  next
    case live: True
    show ?thesis
    proof (cases a)
      case (Took n)
      show ?thesis
      proof (cases "n = 0")
        case True
        then show ?thesis using prems live Took
          by (intro exI [of _ "[(True, WroteBytes 0)]"]) (auto simp: write_owned_frame.simps)
      next
        case False
        then obtain evs where "write_owned_frame buf stale_at hard_at evs (off + n) = (res, take off' buf)"
          using prems live Took Cons.IH [of "off + n" "now + d"] by auto
        then show ?thesis
          by (rule step [where ev = "(True, WroteBytes n)"]) (use live False in \<open>simp add: write_owned_frame.simps [of _ _ _ "_ # _"]\<close>)
      qed
    next
      case Again
      then obtain evs where "write_owned_frame buf stale_at hard_at evs off = (res, take off' buf)"
        using prems live Cons.IH [of off "now + d"] by auto
      then show ?thesis
        by (rule step [where ev = "(True, Interrupted)"]) (use live in \<open>simp add: write_owned_frame.simps [of _ _ _ "_ # _"]\<close>)
    next
      case WouldBlock
      show ?thesis
      proof (cases "en_shutdown e (now + d) \<or> (if off = 0 then stale_at else hard_at) \<le> now + d")
        case True
        then show ?thesis using prems live WouldBlock
          by (intro exI [of _ "[(True, Blocked (en_shutdown e (now + d)) (now + d))]"])
            (auto simp: write_owned_frame.simps split: if_splits)
      next
        case False
        then obtain evs where "write_owned_frame buf stale_at hard_at evs off = (res, take off' buf)"
          using prems live WouldBlock Cons.IH [of off "now + d"] by (auto split: if_splits)
        then show ?thesis
          by (rule step [where ev = "(True, Blocked False (now + d))"])
            (use live False in \<open>auto simp: write_owned_frame.simps [of _ _ _ "_ # _"]\<close>)
      qed
    next
      case Broken
      then show ?thesis using prems live
        by (intro exI [of _ "[(True, SinkFailed)]"]) (auto simp: write_owned_frame.simps)
    qed
  qed
qed

text \<open>How long it takes: every call at most \<open>D\<close>, none interrupted.\<close>

definition sink_ok :: "nat \<Rightarrow> (nat \<times> sink_answer) list \<Rightarrow> bool" where
  "sink_ok D sc \<longleftrightarrow> list_all (\<lambda>(d, a). d \<le> D \<and> a \<noteq> Again) sc"

lemma sink_ok_simps [simp]: "sink_ok D []" "sink_ok D ((d, a) # sc) \<longleftrightarrow> d \<le> D \<and> a \<noteq> Again \<and> sink_ok D sc"
  by (auto simp: sink_ok_def)

lemma write_timed_bound:
  "write_timed e o' buf stale_at hard_at off now sc = (res, off', now', sc') \<Longrightarrow> sink_ok D sc \<Longrightarrow> stale_at \<le> hard_at \<Longrightarrow>
   now' \<le> max now (hard_at + D) + D * (length buf - off) \<and> sink_ok D sc' \<and>
   (off' = 0 \<longrightarrow> now' \<le> max now stale_at + D)"
proof (induction sc arbitrary: off now)
  case Nil
  then show ?case by (auto simp: write_timed_Nil split: if_splits)
next
  case (Cons x sc)
  obtain d a where x: "x = (d, a)" by (cases x)
  note prems = Cons.prems(1) [unfolded x write_timed_Cons] and sink = Cons.prems(2) [unfolded x sink_ok_simps]
  note IH = Cons.IH [OF _ _ Cons.prems(3)]
  show ?case
  proof (cases "off < length buf \<and> (off = 0 \<longrightarrow> owner_may e o' now)")
    case False
    then show ?thesis using prems sink by (auto simp: x split: if_splits)
  next
    case live: True
    then obtain k where k: "length buf - off = Suc k" by (metis Suc_diff_Suc)
    have one: "D \<le> D * (length buf - off)" by (simp add: k)
    show ?thesis
    proof (cases "\<exists>n. a = Took n \<and> n \<noteq> 0")
      case True
      then obtain n where n: "a = Took n" "n \<noteq> 0" by blast
      with prems live have rec: "write_timed e o' buf stale_at hard_at (off + n) (now + d) sc = (res, off', now', sc')"
        by (auto split: if_splits)
      have "length buf - (off + n) \<le> k" using k n by auto
      then have "D * (length buf - (off + n)) \<le> D * k" by (rule mult_le_mono2)
      moreover have "0 < off'" using write_timed_facts [OF rec] n by linarith
      moreover have "max (now + d) (hard_at + D) \<le> max now (hard_at + D) + D" using sink by auto
      moreover have "D * (length buf - off) = D + D * k" by (simp add: k)
      ultimately show ?thesis using IH [OF rec] sink by linarith
    next
      case False
      show ?thesis
      proof (cases "a = WouldBlock \<and> \<not> en_shutdown e (now + d) \<and> now + d < (if off = 0 then stale_at else hard_at)")
        case True
        with prems live have rec: "write_timed e o' buf stale_at hard_at off (now + d) sc = (res, off', now', sc')"
          by (auto split: if_splits)
        have "off' = 0 \<longrightarrow> off = 0" using write_timed_facts [OF rec] by simp
        then show ?thesis using IH [OF rec] sink True Cons.prems(3) by (auto split: if_splits)
      next
        case stop: False
        then have "now' = now + d \<and> off' = off \<and> sc' = sc"
          using prems live False sink by (cases a) (auto split: if_splits)
        moreover have "now + d \<le> max now (hard_at + D) + D * (length buf - off)" using sink one by linarith
        ultimately show ?thesis using sink by auto
      qed
    qed
  qed
qed

section \<open>The log of frames\<close>

type_synonym log_entry = "bool \<times> bytes \<times> write_outcome \<times> nat"

fun moved :: "log_entry \<Rightarrow> bytes" where
  "moved (_, f, _, off) = take off f"

definition media_taken :: "log_entry list \<Rightarrow> bytes list" where
  "media_taken lg = map (\<lambda>(_, f, _). f) (filter fst lg)"

definition with_outcome :: "bool \<Rightarrow> write_outcome \<Rightarrow> log_entry list \<Rightarrow> bytes list" where
  "with_outcome media out lg = map (\<lambda>(_, f, _). f) (filter (\<lambda>(c, _, x, _). c = media \<and> x = out) lg)"

fun entry_ok :: "log_entry \<Rightarrow> bool" where
  "entry_ok (c, f, out, off) \<longleftrightarrow> (out = Sent \<longrightarrow> length f \<le> off) \<and> (out = Stale \<or> out = Revoked \<longrightarrow> off = 0) \<and>
     (\<not> c \<longrightarrow> out \<noteq> Revoked)"

text \<open>The outcomes after which the writer ends the connection.\<close>

fun entry_fatal :: "log_entry \<Rightarrow> bool" where
  "entry_fatal (c, _, out, _) \<longleftrightarrow> out = Dead \<or> \<not> c \<and> out \<noteq> Sent"

lemma log_simps [simp]:
  "media_taken [] = []" "media_taken (lg @ [(c, f, out, off)]) = media_taken lg @ (if c then [f] else [])"
  "with_outcome m x [] = []"
  "with_outcome m x (lg @ [(c, f, out, off)]) = with_outcome m x lg @ (if c = m \<and> out = x then [f] else [])"
  by (auto simp: media_taken_def with_outcome_def)

definition link_inv :: "writer \<Rightarrow> send_slot list \<Rightarrow> bool" where
  "link_inv w xs \<longleftrightarrow>
     ring_holds SEND_SLOTS (lk_q (wr_link w)) xs \<and>
     wr_accepted w = media_taken (wr_log w) @ map ss_buf xs \<and>
     lk_frames_written (wr_link w) = length (with_outcome True Sent (wr_log w)) \<and>
     lk_stale_dropped (wr_link w) = length (with_outcome True Stale (wr_log w)) \<and>
     lk_revoked_dropped (wr_link w) = length (with_outcome True Revoked (wr_log w)) \<and>
     wr_wire w = concat (map moved (wr_log w)) \<and> list_all entry_ok (wr_log w)"

text \<open>The part of a writer that it shares with the plain one.\<close>

definition plain :: "('m) writer_scheme \<Rightarrow> writer" where
  "plain w = writer.truncate w"

lemma plain_simps [simp]:
  "wr_link (plain w) = wr_link w" "wr_now (plain w) = wr_now w" "wr_sink (plain w) = wr_sink w" "wr_bucket (plain w) = wr_bucket w"
  "wr_tx (plain w) = wr_tx w" "wr_wire (plain w) = wr_wire w" "wr_accepted (plain w) = wr_accepted w" "wr_log (plain w) = wr_log w"
  by (simp_all add: plain_def writer.truncate_def)

lemma send_slots_ring: "ring_new SEND_SLOTS init \<noteq> None"
proof -
  have "SEND_SLOTS = 2 ^ 9" by (simp add: SEND_SLOTS_def MAX_WIRE_PARTS_def)
  then show ?thesis by (auto simp: ring_new_def is_power_of_two_def list_ex_iff intro!: bexI [of _ 9])
qed

lemma new_link_holds: "ring_holds SEND_SLOTS (lk_q (media_link_new fp bps now)) []"
proof -
  let ?init = "\<lambda>_ :: nat. \<lparr>ss_buf = [], ss_queued_at = now, ss_payload_len = 0, ss_owner = None\<rparr>"
  obtain r where r: "ring_new SEND_SLOTS ?init = Some r" using send_slots_ring by blast
  then show ?thesis using ring_new_rel [OF r]
    by (auto simp: media_link_new_def ring_holds_def ring_items_def intro!: exI [of _ "0 :: nat"])
qed

lemma gate_until_now: "now \<le> snd (gate_until e o' t now)"
proof (induction e o' t now rule: gate_until.induct)
  case (1 e o' t now)
  then show ?case by (subst gate_until.simps) (auto intro: order_trans [rotated])
qed

lemma gate_owned_now: "now \<le> snd (gate_owned e o' b now)"
  by (auto simp: gate_owned_def gate_until_now split: option.splits)

lemma gate_owned_off: "tb_bps b = 0 \<Longrightarrow> gate_owned e o' b now = (owner_may e o' now, now)"
  by (simp add: gate_owned_def)

text \<open>What becomes of a slot, in one rule.\<close>

lemma write_slot_cases:
  obtains (revoked) now' where "write_slot e b now sc cap s = \<lparr>wp_outcome = Some Revoked, wp_off = 0, wp_now = now', wp_sink = sc, wp_waited = None\<rparr>"
      and "now \<le> now'" and "tb_bps b = 0 \<longrightarrow> now' = now"
    | (late) now' where "write_slot e b now sc cap s =
        \<lparr>wp_outcome = Some Stale, wp_off = 0, wp_now = now', wp_sink = sc, wp_waited = Some (now' - ss_queued_at s)\<rparr>"
      and "now \<le> now'" and "tb_bps b = 0 \<longrightarrow> now' = now" and "ss_queued_at s + STALE_BUDGET \<le> now' \<or> (\<exists>c. cap = Some c \<and> c \<le> now')"
    | (tried) now1 stale_at res off now2 sc2 where
      "write_timed e (ss_owner s) (ss_buf s) stale_at (ss_queued_at s + FRAME_COMPLETION_LIMIT) 0 now1 sc = (res, off, now2, sc2)"
      and "write_slot e b now sc cap s = \<lparr>wp_outcome = res, wp_off = off, wp_now = now2, wp_sink = sc2, wp_waited = Some (now1 - ss_queued_at s)\<rparr>"
      and "now \<le> now1" and "now1 < stale_at"
      and "stale_at = (case cap of None \<Rightarrow> ss_queued_at s + STALE_BUDGET | Some c \<Rightarrow> min c (ss_queued_at s + STALE_BUDGET))"
      and "fst (gate_owned e (ss_owner s) b now)" and "now1 = snd (gate_owned e (ss_owner s) b now)"
proof (cases "owner_may e (ss_owner s) now \<and> fst (gate_owned e (ss_owner s) b now)")
  case False
  have "now \<le> snd (gate_owned e (ss_owner s) b now)" by (rule gate_owned_now)
  moreover have "tb_bps b = 0 \<longrightarrow> snd (gate_owned e (ss_owner s) b now) = now" by (simp add: gate_owned_off)
  ultimately show ?thesis using False
    by (cases "owner_may e (ss_owner s) now"; cases "gate_owned e (ss_owner s) b now")
      (auto simp: write_slot_def intro: revoked)
next
  case True
  then obtain now1 where g: "gate_owned e (ss_owner s) b now = (True, now1)" by (metis prod.collapse)
  then have le: "now \<le> now1" using gate_owned_now [of now e "ss_owner s" b] by simp
  let ?stale = "case cap of None \<Rightarrow> ss_queued_at s + STALE_BUDGET | Some c \<Rightarrow> min c (ss_queued_at s + STALE_BUDGET)"
  show ?thesis
  proof (cases "STALE_BUDGET < now1 - ss_queued_at s \<or> ?stale \<le> now1")
    case stale: True
    show ?thesis
    proof (rule late [OF _ le])
      show "tb_bps b = 0 \<longrightarrow> now1 = now" using g by (auto simp: gate_owned_off)
      show "write_slot e b now sc cap s =
        \<lparr>wp_outcome = Some Stale, wp_off = 0, wp_now = now1, wp_sink = sc, wp_waited = Some (now1 - ss_queued_at s)\<rparr>"
        using True g stale by (simp add: write_slot_def Let_def)
      show "ss_queued_at s + STALE_BUDGET \<le> now1 \<or> (\<exists>c. cap = Some c \<and> c \<le> now1)"
        using stale by (auto split: option.splits simp: min_def split: if_splits)
    qed
  next
    case fresh: False
    obtain res off now2 sc2 where
      w: "write_timed e (ss_owner s) (ss_buf s) ?stale (ss_queued_at s + FRAME_COMPLETION_LIMIT) 0 now1 sc = (res, off, now2, sc2)"
      by (metis prod_cases4)
    show ?thesis
      by (rule tried [OF w]) (use True g fresh w le in \<open>simp_all add: write_slot_def Let_def not_le\<close>)
  qed
qed


lemma write_slot_facts:
  assumes "wp_outcome (write_slot e b now sc cap s) = Some out"
  shows "entry_ok (True, ss_buf s, out, wp_off (write_slot e b now sc cap s)) \<and> now \<le> wp_now (write_slot e b now sc cap s)"
proof (cases rule: write_slot_cases [of e b now sc cap s])
  case (tried now1 stale_at res off now2 sc2)
  then show ?thesis using assms write_timed_facts [OF tried(1)] by auto
qed (use assms in auto)

lemma settle_simps [simp]:
  "wr_now (settle e s out w) = wr_now w" "wr_sink (settle e s out w) = wr_sink w" "wr_wire (settle e s out w) = wr_wire w"
  "wr_accepted (settle e s out w) = wr_accepted w" "wr_log (settle e s out w) = wr_log w"
  "lk_q (wr_link (settle e s out w)) = lk_q (wr_link w)" "lk_alive (wr_link (settle e s out w)) = lk_alive (wr_link w)"
  "lk_frames_written (wr_link (settle e s out w)) = lk_frames_written (wr_link w) + (if out = Sent then 1 else 0)"
  "lk_stale_dropped (wr_link (settle e s out w)) = lk_stale_dropped (wr_link w) + (if out = Stale then 1 else 0)"
  "lk_revoked_dropped (wr_link (settle e s out w)) = lk_revoked_dropped (wr_link w) + (if out = Revoked then 1 else 0)"
  "writer.more (settle e s out w) = writer.more w" "tb_bps (wr_bucket (settle e s out w)) = tb_bps (wr_bucket w)"
  by (cases out; simp add: settle_def charge_def)+

lemma note_wait_simps [simp]:
  "lk_q (note_wait d l) = lk_q l" "lk_alive (note_wait d l) = lk_alive l" "lk_frames_written (note_wait d l) = lk_frames_written l"
  "lk_stale_dropped (note_wait d l) = lk_stale_dropped l" "lk_revoked_dropped (note_wait d l) = lk_revoked_dropped l"
  by (simp_all add: note_wait_def Let_def)

text \<open>One frame taken from the queue.\<close>

lemma write_one_cases:
  assumes "ring_holds SEND_SLOTS (lk_q (wr_link w)) xs"
  obtains (empty) "xs = []" and "write_one_queued e cap w = (QueueEmpty, w)"
    | (waits) s ys where "xs = s # ys" and "write_one_queued e cap w = (Waiting, w)"
    | (took) s ys out r w' where "xs = s # ys" and "r = write_slot e (wr_bucket w) (wr_now w) (wr_sink w) cap s"
      and "wp_outcome r = Some out" and "write_one_queued e cap w = (Took_one out, w')"
      and "ring_holds SEND_SLOTS (lk_q (wr_link w')) ys" and "wr_now w' = wp_now r" and "wr_sink w' = wp_sink r"
      and "wr_log w' = wr_log w @ [(True, ss_buf s, out, wp_off r)]" and "wr_wire w' = wr_wire w @ take (wp_off r) (ss_buf s)"
      and "wr_accepted w' = wr_accepted w" and "lk_alive (wr_link w') = lk_alive (wr_link w)"
      and "lk_frames_written (wr_link w') = lk_frames_written (wr_link w) + (if out = Sent then 1 else 0)"
      and "lk_stale_dropped (wr_link w') = lk_stale_dropped (wr_link w) + (if out = Stale then 1 else 0)"
      and "lk_revoked_dropped (wr_link w') = lk_revoked_dropped (wr_link w) + (if out = Revoked then 1 else 0)"
      and "writer.more w' = writer.more w" and "tb_bps (wr_bucket w') = tb_bps (wr_bucket w)"
proof (cases rule: ring_queue.get_cases [OF assms, of "\<lambda>s. ((s, write_slot e (wr_bucket w) (wr_now w) (wr_sink w) cap s), s\<lparr>ss_owner := None\<rparr>)"])
  case 1
  then show ?thesis by (intro empty) (simp_all add: write_one_queued_def)
next
  case (2 s ys q')
  let ?r = "write_slot e (wr_bucket w) (wr_now w) (wr_sink w) cap s"
  show ?thesis
  proof (cases "wp_outcome ?r")
    case None
    then show ?thesis using 2 by (intro waits [of s ys]) (simp_all add: write_one_queued_def)
  next
    case (Some out)
    let ?l = "case wp_waited ?r of None \<Rightarrow> wr_link w | Some d \<Rightarrow> note_wait d (wr_link w)"
    let ?w = "settle e s out (w\<lparr>wr_link := ?l\<lparr>lk_q := q'\<rparr>, wr_now := wp_now ?r, wr_sink := wp_sink ?r,
                     wr_wire := wr_wire w @ take (wp_off ?r) (ss_buf s), wr_log := wr_log w @ [(True, ss_buf s, out, wp_off ?r)]\<rparr>)"
    have "write_one_queued e cap w = (Took_one out, ?w)" using 2 Some by (simp add: write_one_queued_def Let_def)
    from took [OF 2(1) refl Some this] 2(3) show ?thesis by (simp split: option.splits)
  qed
qed

section \<open>Deadlines\<close>

lemma write_timed_returns:
  "write_timed e o' buf stale_at hard_at off now sc = (res, off', now', sc') \<Longrightarrow> list_all (\<lambda>(d, a). 0 < d \<and> a \<noteq> Again) sc \<Longrightarrow>
   stale_at \<le> hard_at \<Longrightarrow> (length buf - off) + (hard_at - now) < length sc \<Longrightarrow> res \<noteq> None"
proof (induction sc arbitrary: off now)
  case (Cons x sc)
  obtain d a where x: "x = (d, a)" by (cases x)
  note prems = Cons.prems(1) [unfolded x write_timed_Cons]
  have d: "0 < d" and sc: "list_all (\<lambda>(d, a). 0 < d \<and> a \<noteq> Again) sc" and a: "a \<noteq> Again" using Cons.prems(2) by (auto simp: x)
  note IH = Cons.IH [OF _ sc Cons.prems(3)]
  show ?case
  proof (cases "off < length buf \<and> (off = 0 \<longrightarrow> owner_may e o' now)")
    case False
    then show ?thesis using prems by (auto split: if_splits)
  next
    case live: True
    show ?thesis
    proof (cases a)
      case (Took n)
      then show ?thesis using prems live IH [of "off + n" "now + d"] Cons.prems(4) d by (auto split: if_splits)
    next
      case WouldBlock
      then show ?thesis using prems live IH [of off "now + d"] Cons.prems(3,4) d by (auto split: if_splits)
    qed (use prems live a in \<open>auto split: if_splits\<close>)
  qed
qed simp

lemma write_timed_stale:
  "write_timed e o' buf stale_at hard_at off now sc = (res, off', now', sc') \<Longrightarrow> res = Some Stale \<Longrightarrow> stale_at \<le> now'"
proof (induction sc arbitrary: off now)
  case Nil
  then show ?case by (auto simp: write_timed_Nil split: if_splits)
next
  case (Cons x sc)
  obtain d a where x: "x = (d, a)" by (cases x)
  show ?case using Cons.prems Cons.IH by (cases a) (auto simp: x write_timed_Cons split: if_splits)
qed

definition cap_or :: "nat option \<Rightarrow> nat \<Rightarrow> nat" where
  "cap_or cap t = (case cap of None \<Rightarrow> t | Some c \<Rightarrow> min c t)"

lemma write_slot_bound:
  assumes "sink_ok D sc" and "tb_bps b = 0" and "wp_outcome (write_slot e b now sc cap s) = Some out"
  shows "wp_now (write_slot e b now sc cap s) \<le> max now (ss_queued_at s + FRAME_COMPLETION_LIMIT + D) + D * length (ss_buf s)"
    and "wp_off (write_slot e b now sc cap s) = 0 \<Longrightarrow>
      wp_now (write_slot e b now sc cap s) \<le> max now (cap_or cap (ss_queued_at s + STALE_BUDGET)) + D"
    and "sink_ok D (wp_sink (write_slot e b now sc cap s))"
proof -
  have "wp_now r \<le> max now (ss_queued_at s + FRAME_COMPLETION_LIMIT + D) + D * length (ss_buf s) \<and>
      (wp_off r = 0 \<longrightarrow> wp_now r \<le> max now (cap_or cap (ss_queued_at s + STALE_BUDGET)) + D) \<and> sink_ok D (wp_sink r)"
    if "r = write_slot e b now sc cap s" for r
  proof (cases rule: write_slot_cases [of e b now sc cap s])
    case (revoked now')
    then show ?thesis using revoked assms(2) that assms(1) by (auto intro: trans_le_add1)
  next
    case (late now')
    then show ?thesis using late assms(2) that assms(1) by (auto intro: trans_le_add1)
  next
    case (tried now1 stale_at res off now2 sc2)
    have st: "stale_at = cap_or cap (ss_queued_at s + STALE_BUDGET)" using tried(5) by (simp add: cap_or_def)
    have "stale_at \<le> ss_queued_at s + FRAME_COMPLETION_LIMIT"
      by (auto simp: tried(5) STALE_BUDGET_def FRAME_COMPLETION_LIMIT_def split: option.splits)
    moreover have "now1 = now" using tried(7) by (simp add: gate_owned_off [OF assms(2)])
    ultimately show ?thesis
      using write_timed_bound [OF tried(1) assms(1)] tried(2) that by (simp add: st)
  qed
  from this [OF refl] show "wp_now (write_slot e b now sc cap s) \<le> max now (ss_queued_at s + FRAME_COMPLETION_LIMIT + D) + D * length (ss_buf s)"
    and "wp_off (write_slot e b now sc cap s) = 0 \<Longrightarrow>
      wp_now (write_slot e b now sc cap s) \<le> max now (cap_or cap (ss_queued_at s + STALE_BUDGET)) + D"
    and "sink_ok D (wp_sink (write_slot e b now sc cap s))" by auto
qed

text \<open>
  C33. The deadlines of a queued media frame, on a sink whose calls take at most \<open>D\<close> and are not
  interrupted: a frame is dropped as late only if it has waited for the stale budget or control is due,
  and then not a byte of it was written; a frame is begun only before both instants and given up at most
  one call after them; and a frame begun ends, one way or the other, by the completion limit plus one
  call for the blocked sink and one for each of its bytes.
\<close>

theorem media_frame_deadlines:
  assumes "sink_ok D sc" and "tb_bps b = 0" and "r = write_slot e b now sc cap s" and "wp_outcome r = Some out"
  shows "(out = Stale \<longrightarrow> wp_off r = 0 \<and> cap_or cap (ss_queued_at s + STALE_BUDGET) \<le> wp_now r) \<and>
    (0 < wp_off r \<longrightarrow> now < cap_or cap (ss_queued_at s + STALE_BUDGET)) \<and>
    (wp_off r = 0 \<longrightarrow> wp_now r \<le> max now (cap_or cap (ss_queued_at s + STALE_BUDGET)) + D) \<and>
    wp_now r \<le> max now (ss_queued_at s + FRAME_COMPLETION_LIMIT + D) + D * length (ss_buf s)"
proof -
  have stale: "out = Stale \<longrightarrow> wp_off r = 0 \<and> cap_or cap (ss_queued_at s + STALE_BUDGET) \<le> wp_now r"
    and begun: "0 < wp_off r \<longrightarrow> now < cap_or cap (ss_queued_at s + STALE_BUDGET)"
  proof (atomize (full), cases rule: write_slot_cases [of e b now sc cap s])
    case (tried now1 stale_at res off now2 sc2)
    then show "(out = Stale \<longrightarrow> wp_off r = 0 \<and> cap_or cap (ss_queued_at s + STALE_BUDGET) \<le> wp_now r) \<and>
        (0 < wp_off r \<longrightarrow> now < cap_or cap (ss_queued_at s + STALE_BUDGET))"
      using assms(3,4) write_timed_facts [OF tried(1)] write_timed_stale [OF tried(1)] by (auto simp: cap_or_def)
  qed (use assms(3,4) in \<open>auto simp: cap_or_def split: option.splits\<close>)
  with write_slot_bound [OF assms(1,2) assms(4) [unfolded assms(3)]] show ?thesis by (simp add: assms(3))
qed

definition demo_env :: env where
  "demo_env = \<lparr>en_may = \<lambda>_ _. True, en_shutdown = \<lambda>_. False, en_cost = \<lambda>_ _. 0\<rparr>"

theorem media_frame_deadlines_witness:
  "wp_outcome (write_slot demo_env (token_bucket_new 0) 5 [(20000, WouldBlock), (20000, WouldBlock)] (Some 30000)
     \<lparr>ss_buf = [1, 2], ss_queued_at = 5, ss_payload_len = 0, ss_owner = None\<rparr>) = Some Stale \<and>
   wp_now (write_slot demo_env (token_bucket_new 0) 5 [(20000, WouldBlock), (20000, WouldBlock)] (Some 30000)
     \<lparr>ss_buf = [1, 2], ss_queued_at = 5, ss_payload_len = 0, ss_owner = None\<rparr>) \<le> 50000"
proof -
  let ?s = "\<lparr>ss_buf = [1, 2], ss_queued_at = 5, ss_payload_len = 0, ss_owner = None\<rparr>"
  let ?sc = "[(20000, WouldBlock), (20000, WouldBlock)]"
  have out: "wp_outcome (write_slot demo_env (token_bucket_new 0) 5 ?sc (Some 30000) ?s) = Some Stale"
    by (simp add: write_slot_def owner_may_def gate_owned_def token_bucket_new_def Let_def STALE_BUDGET_def
        FRAME_COMPLETION_LIMIT_def write_timed_Cons write_timed_Nil demo_env_def)
  have "sink_ok 20000 ?sc" "tb_bps (token_bucket_new 0) = 0" by (simp_all add: token_bucket_new_def)
  from media_frame_deadlines [OF this refl out] out show ?thesis by (simp add: cap_or_def STALE_BUDGET_def)
qed

section \<open>A pass of the media writer\<close>

lemma plain_unit [simp]: "plain w = (w :: writer)"
  by (cases w) (simp add: plain_def writer.truncate_def)

lemma one_queued_inv:
  assumes "link_inv w (s # ys)" and "write_one_queued e cap (w :: writer) = (Took_one out, v)"
  shows "link_inv v ys \<and> lk_alive (wr_link v) = lk_alive (wr_link w) \<and> (\<exists>off. wr_log v = wr_log w @ [(True, ss_buf s, out, off)])"
proof -
  have holds: "ring_holds SEND_SLOTS (lk_q (wr_link w)) (s # ys)" using assms(1) by (simp add: link_inv_def)
  show ?thesis
  proof (cases rule: write_one_cases [OF holds, of e cap])
    case (3 s' ys' out' rep u)
    have u: "u = v" "out' = out" using 3(4) assms(2) by simp_all
    have "entry_ok (True, ss_buf s, out, wp_off rep)" using write_slot_facts 3(1-3) u(2) by auto
    then show ?thesis using assms(1) 3 by (cases out) (auto simp: link_inv_def u)
  qed (use assms(2) in simp_all)
qed

lemma drain_queue_inv:
  "link_inv w xs \<Longrightarrow> length xs < n \<Longrightarrow> drain_queue n e (w :: writer) = (Some fatal, v) \<Longrightarrow>
   \<exists>ys zs. link_inv v ys \<and> wr_log v = wr_log w @ zs \<and> lk_alive (wr_link v) = lk_alive (wr_link w) \<and>
     (fatal \<longleftrightarrow> zs \<noteq> [] \<and> entry_fatal (last zs)) \<and> list_all (\<lambda>x. \<not> entry_fatal x) (butlast zs) \<and>
     (\<not> fatal \<and> lk_alive (wr_link w) \<longrightarrow> ys = [])"
proof (induction n arbitrary: w xs)
  case (Suc n)
  have holds: "ring_holds SEND_SLOTS (lk_q (wr_link w)) xs" using Suc.prems(1) by (simp add: link_inv_def)
  obtain r u where u: "write_one_queued e None w = (r, u)" by fastforce
  show ?case
  proof (cases rule: write_one_cases [OF holds, of e None])
    case 1
    with Suc.prems u have v: "v = w" "\<not> fatal" by auto
    show ?thesis by (rule exI [of _ "[]"], rule exI [of _ "[]"]) (use Suc.prems(1) 1 v in simp)
  next
    case (2 s ys)
    with Suc.prems show ?thesis by simp
  next
    case (3 s ys out rep u')
    have u: "write_one_queued e None w = (Took_one out, u')" by (rule 3(4))
    from one_queued_inv [OF Suc.prems(1) [unfolded 3(1)] u] obtain off
      where inv: "link_inv u' ys" "lk_alive (wr_link u') = lk_alive (wr_link w)" "wr_log u' = wr_log w @ [(True, ss_buf s, out, off)]"
      by blast
    show ?thesis
    proof (cases "out = Dead \<or> \<not> lk_alive (wr_link u')")
      case True
      with Suc.prems u have "v = u'" "fatal \<longleftrightarrow> out = Dead" by (auto split: if_splits)
      with inv True show ?thesis
        by (intro exI [of _ ys] exI [of _ "[(True, ss_buf s, out, off)]"]) auto
    next
      case False
      with Suc.prems u have d: "drain_queue n e u' = (Some fatal, v)" by simp
      from Suc.IH [OF inv(1) _ d] Suc.prems(2) obtain zs ws where
        rest: "link_inv v zs" "wr_log v = wr_log u' @ ws" "lk_alive (wr_link v) = lk_alive (wr_link u')"
          "fatal \<longleftrightarrow> ws \<noteq> [] \<and> entry_fatal (last ws)" "list_all (\<lambda>x. \<not> entry_fatal x) (butlast ws)"
          "\<not> fatal \<and> lk_alive (wr_link u') \<longrightarrow> zs = []"
        by (auto simp: 3(1))
      show ?thesis
        by (intro exI [of _ zs] exI [of _ "(True, ss_buf s, out, off) # ws"]) (use rest inv False in auto)
    qed
  qed
qed simp

text \<open>
  C34. A pass of the writer of a media connection whose sink answers every call deals with everything
  that was queued, in order: it parks only with an empty queue on a live link, and otherwise returns,
  because the link died (of a frame that could not be completed, or killed from outside) or the daemon
  shuts down; only the last frame it tried can be incomplete, and then the link is dead.
\<close>

theorem media_pass_drains:
  assumes "link_inv w xs" and "write_loop_pass e (w :: writer) = (res, v)" and "res \<noteq> InCall"
  shows "\<exists>ys zs. link_inv v ys \<and> wr_log v = wr_log w @ zs \<and> list_all (\<lambda>x. \<not> entry_fatal x) (butlast zs) \<and>
    (zs \<noteq> [] \<and> entry_fatal (last zs) \<longrightarrow> res = Returned \<and> \<not> lk_alive (wr_link v)) \<and>
    (if res = Parked then ys = [] \<and> lk_alive (wr_link v) \<and> \<not> en_shutdown e (wr_now v)
     else \<not> lk_alive (wr_link v) \<or> en_shutdown e (wr_now v))"
proof -
  let ?n = "unat (ring_len (lk_q (wr_link w)))"
  have holds: "ring_holds SEND_SLOTS (lk_q (wr_link w)) xs" using assms(1) by (simp add: link_inv_def)
  then obtain R W where rel: "ring_rel (lk_q (wr_link w)) R W" "ring_items (lk_q (wr_link w)) R W = xs" by (auto simp: ring_holds_def)
  then have n: "?n = length xs" by (elim ring_relE) (simp add: ring_len_def rel(2) [symmetric] ring_items_def)
  obtain f u where d: "drain_queue (Suc ?n) e w = (f, u)" by fastforce
  then obtain fatal where f: "f = Some fatal" using assms(2,3) by (cases f) (auto simp: write_loop_pass_def simp del: drain_queue.simps)
  from drain_queue_inv [OF assms(1) _ d [unfolded f]] n obtain ys zs where
    r: "link_inv u ys" "wr_log u = wr_log w @ zs" "lk_alive (wr_link u) = lk_alive (wr_link w)"
      "fatal \<longleftrightarrow> zs \<noteq> [] \<and> entry_fatal (last zs)" "list_all (\<lambda>x. \<not> entry_fatal x) (butlast zs)"
      "\<not> fatal \<and> lk_alive (wr_link w) \<longrightarrow> ys = []" by auto
  have kill: "link_inv (u\<lparr>wr_link := link_kill (wr_link u)\<rparr>) ys" using r(1) by (simp add: link_inv_def link_kill_def)
  from assms(2,3) d f have v: "v = (if fatal then u\<lparr>wr_link := link_kill (wr_link u)\<rparr> else u)"
    "res = (if \<not> lk_alive (wr_link v) \<or> en_shutdown e (wr_now v) then Returned else Parked)"
    by (auto simp: write_loop_pass_def Let_def simp del: drain_queue.simps split: if_splits)
  show ?thesis
    by (rule exI [of _ ys], rule exI [of _ zs]) (use r kill v in \<open>auto simp: link_kill_def\<close>)
qed

theorem media_pass_drains_witness:
  "\<exists>w v. link_inv w [] \<and> write_loop_pass demo_env (w :: writer) = (Parked, v) \<and> link_inv v []"
proof -
  let ?w = "\<lparr>wr_link = media_link_new [] 0 0, wr_now = 0, wr_sink = [], wr_bucket = token_bucket_new 0,
    wr_tx = \<lambda>_. \<lparr>txc_packets = 0, txc_bytes = 0, txc_payload = 0\<rparr>, wr_wire = [], wr_accepted = [], wr_log = []\<rparr> :: writer"
  have inv: "link_inv ?w []" using new_link_holds [of "[]" 0 0] by (simp add: link_inv_def media_link_new_def)
  then have holds: "ring_holds SEND_SLOTS (lk_q (wr_link ?w)) []" by (simp add: link_inv_def)
  have "write_one_queued demo_env None ?w = (QueueEmpty, ?w)"
    by (cases rule: write_one_cases [OF holds, of demo_env None]) auto
  then have pass: "write_loop_pass demo_env ?w = (Parked, ?w)"
    by (simp add: write_loop_pass_def Let_def demo_env_def media_link_new_def)
  from media_pass_drains [OF inv pass] inv pass show ?thesis by blast
qed

section \<open>The reader of a media connection\<close>

definition tcp_dispatch :: "frame \<Rightarrow> media_link \<times> bytes list \<Rightarrow> (media_link \<times> bytes list) \<times> bool" where
  "tcp_dispatch f s =
     (case s of
        (l, ds) \<Rightarrow>
          (if h_kind (fr_header f) = Media then ((note_frame_read l, ds @ [frame_bytes f]), True)
           else ((note_unexpected_kind l, ds), True)))"

definition tcp_read_chunks :: "media_link \<Rightarrow> bytes list \<Rightarrow> (frame_decoder \<times> (media_link \<times> bytes list) \<times> loop_end) option" where
  "tcp_read_chunks l cs = feed_chunks tcp_dispatch frame_decoder_new (l, []) cs"

lemma consume_tcp:
  "Framed.consume tcp_dispatch (map (\<lambda>(h, p). sent_frame h p) hps) (l, ds) =
     ((l\<lparr>lk_frames_read := lk_frames_read l + length (media_datagrams hps),
         lk_unexpected_kind := lk_unexpected_kind l + length (filter (\<lambda>(h, p). h_kind h \<noteq> Media) hps)\<rparr>, ds @ media_datagrams hps), True)"
proof (induction hps arbitrary: l ds)
  case (Cons hp hps)
  obtain h p where hp: "hp = (h, p)" by (cases hp)
  have step: "tcp_dispatch (sent_frame h p) (l, ds) =
      (if h_kind h = Media then ((note_frame_read l, ds @ [fr_frame (sent_frame h p)]), True) else ((note_unexpected_kind l, ds), True))"
    by (simp add: tcp_dispatch_def frame_bytes_def)
  show ?case
    by (simp add: hp step Cons) (simp add: note_frame_read_def note_unexpected_kind_def media_datagrams_def)
qed (simp add: media_datagrams_def)

lemma tcp_read_stream:
  assumes "encode_frames hps [] = Inr (concat cs)"
  shows "\<exists>d l'. tcp_read_chunks l cs = Some (d, (l', media_datagrams hps), Drained) \<and>
    lk_frames_read l' = lk_frames_read l + length (media_datagrams hps) \<and>
    lk_unexpected_kind l' + length (media_datagrams hps) = lk_unexpected_kind l + length hps"
proof -
  from encode_frames_stream [OF assms]
  have st: "stream_frames (concat cs) = (map (\<lambda>(h, p). sent_frame h p) hps, None, [])" by simp
  have none: "split_frame (fd_unread frame_decoder_new) = None"
    by (simp add: fd_new_ok(2)) (simp add: split_frame_def HEADER_LEN_def)
  have "length (filter (\<lambda>(h, p). h_kind h \<noteq> Media) hps) + length (media_datagrams hps) = length hps"
    by (induction hps) (auto simp: media_datagrams_def)
  then show ?thesis
    using feed_chunks_spec [OF fd_new_ok(1) none, of tcp_dispatch "(l, [])" cs]
    by (auto simp: tcp_read_chunks_def fd_new_ok(2) process_def st consume_tcp)
qed

end
