(* ===== verification/MuxWriter.thy ===== *)
theory MuxWriter
  imports MediaLink
begin

text \<open>
  The writer of the multiplexed connection (core/audiohubd/src/mux.rs): strict priority to media, with
  a credit for control; the frames it puts on the wire and how long control can wait.
\<close>

section \<open>The writer of a multiplexed connection\<close>

record mux_writer = writer +
  mw_io :: mux_io
  mw_alive :: bool
  mw_last_control :: nat
  mw_control_written :: nat
  mw_flushed :: "bytes list"
  mw_returned :: bool

definition control_may_go :: "mux_writer \<Rightarrow> bool" where
  "control_may_go w \<longleftrightarrow>
     control_pending (mw_io w) \<and>
     (ring_len (lk_q (wr_link w)) = 0 \<or> CONTROL_CREDIT \<le> wr_now w - mw_last_control w)"

definition mux_kill :: "mux_writer \<Rightarrow> mux_writer" where
  "mux_kill w =
     (if \<not> mw_alive w then w
      else w\<lparr>mw_alive := False, wr_link := link_kill (wr_link w), mw_io := mux_close (mw_io w)\<rparr>)"

text \<open>No outcome: the sink still owes an answer. The frame was at the head of the outbox.\<close>

definition write_control_frame :: "env \<Rightarrow> bytes \<Rightarrow> mux_io \<Rightarrow> mux_writer \<Rightarrow> write_outcome option \<times> mux_writer" where
  "write_control_frame e frame io w =
     (let now = snd (gate_owned e None (wr_bucket w) (wr_now w));
          hard_at = now + FRAME_COMPLETION_LIMIT in
      case write_timed e None frame hard_at hard_at 0 now (wr_sink w) of
        (None, _) \<Rightarrow> (None, w)
      | (Some out, off, now', sc) \<Rightarrow>
          (case finish_control_frame frame out io of
             (res, io') \<Rightarrow>
               let w' = w\<lparr>mw_io := io', wr_now := now', wr_sink := sc, wr_wire := wr_wire w @ take off frame,
                          wr_log := wr_log w @ [(False, frame, out, off)]\<rparr> in
               (Some res,
                if out = Sent
                then w'\<lparr>wr_bucket := charge e (length frame) now' (wr_bucket w), mw_control_written := mw_control_written w + 1\<rparr>
                else w')))"

datatype round_end = RoundWaits | RoundAgain | RoundFatal | RoundOver

definition media_round :: "env \<Rightarrow> mux_writer \<Rightarrow> round_end \<times> mux_writer" where
  "media_round e w =
     (case write_one_queued e (if control_pending (mw_io w) then Some (mw_last_control w + CONTROL_CREDIT) else None) w of
        (Waiting, w') \<Rightarrow> (RoundWaits, w')
      | (QueueEmpty, w') \<Rightarrow> (RoundOver, w')
      | (Took_one out, w') \<Rightarrow>
          if out = Dead then (RoundFatal, w')
          else if \<not> lk_alive (wr_link w') \<or> en_shutdown e (wr_now w') then (RoundOver, w')
          else (RoundAgain, w'))"

definition mux_round :: "env \<Rightarrow> mux_writer \<Rightarrow> round_end \<times> mux_writer" where
  "mux_round e w =
     (if control_may_go w
      then case take_control_frame (mw_io w) of
        (None, _) \<Rightarrow> media_round e w
      | (Some frame, io) \<Rightarrow>
          (case write_control_frame e frame io w of
             (None, _) \<Rightarrow> (RoundWaits, w)
           | (Some Sent, w') \<Rightarrow> (RoundAgain, w'\<lparr>mw_last_control := wr_now w'\<rparr>)
           | (Some _, w') \<Rightarrow> (RoundFatal, w'))
      else media_round e w)"

text \<open>What follows the inner loop; \<open>beat\<close> is whether the carrier's heartbeat succeeds.\<close>

definition after_rounds :: "env \<Rightarrow> bool \<Rightarrow> bool \<Rightarrow> mux_writer \<Rightarrow> pass_end \<times> mux_writer" where
  "after_rounds e fatal beat w =
     (let w = (if fatal then mux_kill w else w) in
      if \<not> lk_alive (wr_link w) \<or> en_shutdown e (wr_now w) \<or> mux_is_closed (mw_io w) then (Returned, w)
      else if \<not> beat then (Returned, mux_kill w)
      else (Parked, w))"

text \<open>
  The writer thread with the threads that feed it, interleaved round by round: a media frame is
  queued (with the instant its tick began), control frames are flushed into the outbox, the writer goes round its loop once and, where
  that ends a pass, parks for a time; the reader may kill the link. A frame that could not be sealed voids its slot.
\<close>

datatype mux_stimulus =
    ActEnqueue nat nat nat "bytes option"
  | ActFlush "bytes list"
  | ActRound bool nat
  | ActKill

definition finish_pass :: "nat \<Rightarrow> pass_end \<times> mux_writer \<Rightarrow> mux_writer" where
  "finish_pass park r =
     (case r of
        (Returned, w) \<Rightarrow> w\<lparr>mw_returned := True\<rparr>
      | (_, w) \<Rightarrow> w\<lparr>wr_now := wr_now w + park\<rparr>)"

fun act_step :: "env \<Rightarrow> mux_stimulus \<Rightarrow> mux_writer \<Rightarrow> mux_writer" where
  "act_step e (ActEnqueue age owner payload_len sealed) w =
     (let b = (case sealed of None \<Rightarrow> [] | Some b \<Rightarrow> b) in
      case link_enqueue e (wr_now w) (wr_now w - age) owner payload_len (\<lambda>_. (sealed \<noteq> None, b)) (wr_link w) of
        (ok, l) \<Rightarrow> w\<lparr>wr_link := l, wr_accepted := wr_accepted w @ (if ok then [b] else [])\<rparr>)"
| "act_step e (ActFlush fs) w = w\<lparr>mw_io := (mw_io w)\<lparr>io_outbox := io_outbox (mw_io w) @ fs\<rparr>, mw_flushed := mw_flushed w @ fs\<rparr>"
| "act_step e (ActRound beat park) w =
     (if mw_returned w then w
      else case mux_round e w of
        (RoundWaits, _) \<Rightarrow> w
      | (RoundAgain, w') \<Rightarrow> w'
      | (RoundFatal, w') \<Rightarrow> finish_pass park (after_rounds e True beat w')
      | (RoundOver, w') \<Rightarrow> finish_pass park (after_rounds e False beat w'))"
| "act_step e ActKill w = mux_kill w"

section \<open>The connection carries whole frames\<close>

definition mux_core :: "mux_writer \<Rightarrow> bool" where
  "mux_core w \<longleftrightarrow> (\<exists>xs. link_inv (plain w) xs) \<and> (\<not> mw_alive w \<longrightarrow> \<not> lk_alive (wr_link w)) \<and>
     mw_control_written w = length (with_outcome False Sent (wr_log w))"

definition mux_flow :: "mux_writer \<Rightarrow> bool" where
  "mux_flow w \<longleftrightarrow> list_all (\<lambda>x. \<not> entry_fatal x) (wr_log w) \<and>
     mw_flushed w = with_outcome False Sent (wr_log w) @ io_outbox (mw_io w)"

definition mux_end :: "mux_writer \<Rightarrow> bool" where
  "mux_end w \<longleftrightarrow> list_all (\<lambda>x. \<not> entry_fatal x) (butlast (wr_log w)) \<and>
     prefix (with_outcome False Sent (wr_log w)) (mw_flushed w)"

definition mux_writer_inv :: "mux_writer \<Rightarrow> bool" where
  "mux_writer_inv w \<longleftrightarrow> mux_core w \<and> mux_end w \<and> (\<not> mw_returned w \<longrightarrow> mux_flow w)"

definition mux_writer_new :: "mux_io \<Rightarrow> string \<Rightarrow> nat \<Rightarrow> nat \<Rightarrow> (nat \<times> sink_answer) list \<Rightarrow> (nat \<Rightarrow> tx_counters) \<Rightarrow> mux_writer" where
  "mux_writer_new io fp bps now sc tx =
     \<lparr>wr_link = media_link_new fp bps now, wr_now = now, wr_sink = sc, wr_bucket = token_bucket_new bps, wr_tx = tx,
      wr_wire = [], wr_accepted = [], wr_log = [], mw_io = io, mw_alive = True, mw_last_control = now,
      mw_control_written = 0, mw_flushed = io_outbox io, mw_returned = False\<rparr>"

lemma mux_writer_new_inv: "mux_writer_inv (mux_writer_new io fp bps now sc tx)"
  using new_link_holds [of fp bps now]
  by (auto simp: mux_writer_inv_def mux_core_def mux_end_def mux_flow_def link_inv_def mux_writer_new_def media_link_new_def)

lemma more_fields:
  assumes "writer.more w' = writer.more w"
  shows "mw_io w' = mw_io w" "mw_alive w' = mw_alive w" "mw_last_control w' = mw_last_control w"
    "mw_control_written w' = mw_control_written w" "mw_flushed w' = mw_flushed w" "mw_returned w' = mw_returned w"
  using assms by (cases w; cases w'; simp)+

lemma mux_flow_end: "mux_flow w \<Longrightarrow> mux_end w"
  by (auto simp: mux_flow_def mux_end_def list_all_iff dest: in_set_butlastD)

lemma media_round_inv:
  assumes "mux_core w" and "mux_flow w" and "media_round e w = (r, w')"
  shows "mux_core w' \<and> mux_end w' \<and> (r \<noteq> RoundFatal \<longrightarrow> mux_flow w') \<and> mw_returned w' = mw_returned w"
proof -
  let ?cap = "if control_pending (mw_io w) then Some (mw_last_control w + CONTROL_CREDIT) else None"
  from assms(1) obtain xs where inv: "link_inv (plain w) xs" by (auto simp: mux_core_def)
  then have holds: "ring_holds SEND_SLOTS (lk_q (wr_link w)) xs" by (simp add: link_inv_def)
  note same = assms(1,2) mux_flow_end [OF assms(2)]
  show ?thesis
  proof (cases rule: write_one_cases [OF holds, of e ?cap])
    case 1
    then show ?thesis using assms(3) same by (auto simp: media_round_def)
  next
    case (2 s ys)
    then show ?thesis using assms(3) same by (auto simp: media_round_def)
  next
    case (3 s ys out rep v)
    have v: "w' = v" and r: "r = RoundFatal \<longleftrightarrow> out = Dead"
      using assms(3) 3(4) by (auto simp: media_round_def split: if_splits)
    have ok: "entry_ok (True, ss_buf s, out, wp_off rep)" using write_slot_facts 3(2,3) by blast
    have "link_inv (plain v) ys"
      using inv 3 ok by (cases out) (simp_all add: link_inv_def)
    moreover have "mux_end v" and "out \<noteq> Dead \<longrightarrow> mux_flow v"
      using assms(2) 3(8) by (auto simp: mux_flow_def mux_end_def more_fields [OF 3(15)])
    ultimately show ?thesis
      using assms(1) 3(8,11) by (auto simp: v r mux_core_def more_fields [OF 3(15)])
  qed
qed

lemma charge_bps [simp]: "tb_bps (charge e n now b) = tb_bps b"
  by (simp add: charge_def)

lemma write_control_frame_cases:
  assumes "write_control_frame e frame io w = (res, w')"
  obtains (waits) "res = None" and "w' = w"
    | (finished) out off io' where "entry_ok (False, frame, out, off)" and "res = Some (if out = Sent then Sent else Dead)"
      and "wr_link w' = wr_link w" and "wr_accepted w' = wr_accepted w"
      and "wr_log w' = wr_log w @ [(False, frame, out, off)]" and "wr_wire w' = wr_wire w @ take off frame"
      and "mw_io w' = io'" and "out = Sent \<longrightarrow> io' = io" and "mw_alive w' = mw_alive w" and "mw_flushed w' = mw_flushed w"
      and "mw_returned w' = mw_returned w" and "mw_control_written w' = mw_control_written w + (if out = Sent then 1 else 0)"
      and "mw_last_control w' = mw_last_control w" and "wr_now w \<le> wr_now w'"
      and "\<forall>D. sink_ok D (wr_sink w) \<longrightarrow> sink_ok D (wr_sink w')" and "tb_bps (wr_bucket w') = tb_bps (wr_bucket w)"
proof -
  let ?now = "snd (gate_owned e None (wr_bucket w) (wr_now w))"
  obtain r off now' sc where t: "write_timed e None frame (?now + FRAME_COMPLETION_LIMIT) (?now + FRAME_COMPLETION_LIMIT) 0 ?now (wr_sink w) = (r, off, now', sc)"
    by (metis prod_cases4)
  note facts = write_timed_facts [OF t]
  have le: "wr_now w \<le> now'" using facts gate_owned_now [of "wr_now w" e None "wr_bucket w"] by linarith
  have sink: "\<forall>D. sink_ok D (wr_sink w) \<longrightarrow> sink_ok D sc" using write_timed_bound [OF t] by blast
  show ?thesis
  proof (cases r)
    case None
    then show ?thesis using assms t by (intro waits) (simp_all add: write_control_frame_def Let_def)
  next
    case (Some out)
    show ?thesis
    proof (rule finished [of out off "snd (finish_control_frame frame out io)"])
      have "wr_sink w' = sc" using assms t Some
        by (cases out) (auto simp: write_control_frame_def Let_def finish_control_frame_def)
      with sink show "\<forall>D. sink_ok D (wr_sink w) \<longrightarrow> sink_ok D (wr_sink w')" by simp
    qed (use assms t facts Some le in \<open>cases out; auto simp: write_control_frame_def Let_def finish_control_frame_def\<close>)+
  qed
qed

lemma mux_round_inv:
  assumes "mux_core w" and "mux_flow w" and "mux_round e w = (r, w')"
  shows "mux_core w' \<and> mux_end w' \<and> (r \<noteq> RoundFatal \<longrightarrow> mux_flow w') \<and> mw_returned w' = mw_returned w"
proof (cases "control_may_go w \<and> io_outbox (mw_io w) \<noteq> []")
  case False
  then have "media_round e w = (r, w')" using assms(3)
    by (auto simp: mux_round_def take_control_frame_def split: list.splits if_splits)
  then show ?thesis by (rule media_round_inv [OF assms(1,2)])
next
  case True
  then obtain frame fs where fs: "io_outbox (mw_io w) = frame # fs" by (cases "io_outbox (mw_io w)") auto
  let ?io = "(mw_io w)\<lparr>io_outbox := fs\<rparr>"
  obtain res v where v: "write_control_frame e frame ?io w = (res, v)" by fastforce
  have r: "(r, w') = (case res of None \<Rightarrow> (RoundWaits, w) | Some Sent \<Rightarrow> (RoundAgain, v\<lparr>mw_last_control := wr_now v\<rparr>) | Some _ \<Rightarrow> (RoundFatal, v))"
    using assms(3) True by (simp add: mux_round_def take_control_frame_def fs v)
  show ?thesis
  proof (cases rule: write_control_frame_cases [OF v])
    case 1
    then show ?thesis using r assms(1,2) mux_flow_end [OF assms(2)] by auto
  next
    case (2 out off io')
    from assms(1) obtain xs where inv: "link_inv (plain w) xs" by (auto simp: mux_core_def)
    have "link_inv (plain v) xs" using inv 2 by (simp add: link_inv_def)
    then have "mux_core v" using assms(1) 2 by (auto simp: mux_core_def)
    moreover have "mux_end v" and "out = Sent \<longrightarrow> mux_flow v"
      using assms(2) 2 fs by (auto simp: mux_flow_def mux_end_def)
    ultimately show ?thesis using r 2(2,11)
      by (cases "out = Sent") (auto simp: mux_core_def mux_flow_def mux_end_def link_inv_def)
  qed
qed

lemma mux_kill_simps [simp]:
  "lk_q (wr_link (mux_kill w)) = lk_q (wr_link w)" "wr_log (mux_kill w) = wr_log w" "wr_wire (mux_kill w) = wr_wire w"
  "wr_accepted (mux_kill w) = wr_accepted w" "wr_now (mux_kill w) = wr_now w"
  "lk_frames_written (wr_link (mux_kill w)) = lk_frames_written (wr_link w)"
  "lk_stale_dropped (wr_link (mux_kill w)) = lk_stale_dropped (wr_link w)"
  "lk_revoked_dropped (wr_link (mux_kill w)) = lk_revoked_dropped (wr_link w)"
  "io_outbox (mw_io (mux_kill w)) = io_outbox (mw_io w)" "mw_flushed (mux_kill w) = mw_flushed w"
  "mw_returned (mux_kill w) = mw_returned w" "mw_control_written (mux_kill w) = mw_control_written w"
  "mw_last_control (mux_kill w) = mw_last_control w" "\<not> mw_alive (mux_kill w)"
  "lk_alive (wr_link (mux_kill w)) \<longleftrightarrow> \<not> mw_alive w \<and> lk_alive (wr_link w)"
  by (simp_all add: mux_kill_def link_kill_def mux_close_def)

lemma mux_kill_inv: "mux_core w \<Longrightarrow> mux_core (mux_kill w)" "mux_end (mux_kill w) = mux_end w" "mux_flow (mux_kill w) = mux_flow w"
proof -
  show "mux_core (mux_kill w)" if "mux_core w"
    using that by (auto simp: mux_core_def link_inv_def)
qed (simp_all add: mux_end_def mux_flow_def)

lemma after_fatal: "mux_core w \<Longrightarrow> after_rounds e True beat w = (Returned, mux_kill w)"
  by (auto simp: after_rounds_def Let_def mux_core_def)

lemma after_rounds_inv:
  assumes "mux_core w" and "mux_flow w"
  shows "mux_core (snd (after_rounds e False beat w)) \<and> mux_flow (snd (after_rounds e False beat w)) \<and>
    mw_returned (snd (after_rounds e False beat w)) = mw_returned w"
  using assms mux_kill_inv [of w] by (simp add: after_rounds_def)

lemma enqueue_holds:
  assumes "ring_holds SEND_SLOTS (lk_q l) xs" and "link_enqueue e now queued_at owner payload_len (\<lambda>_. (sealed, b)) l = (ok, l')"
  obtains q where "l' = l\<lparr>lk_q := q\<rparr>" and "ok \<longrightarrow> sealed"
    and "ring_holds SEND_SLOTS q
      (xs @ (if ok then [\<lparr>ss_buf = b, ss_queued_at = queued_at, ss_payload_len = payload_len, ss_owner = Some owner\<rparr>] else []))"
proof (cases "\<not> lk_alive l \<or> \<not> en_may e owner now")
  case True
  then show ?thesis using assms that [of "lk_q l"] by (auto simp: link_enqueue_def)
next
  case False
  let ?fill = "fill_slot queued_at owner payload_len (\<lambda>_. (sealed, b))"
  obtain q where q: "produce ?fill (lk_q l) = (ok, q)" "l' = l\<lparr>lk_q := q\<rparr>"
    using assms(2) False by (auto simp: link_enqueue_def split: prod.splits)
  show ?thesis
  proof (rule that [OF q(2)])
    show "ok \<longrightarrow> sealed"
      using ring_queue.put_accepted [OF assms(1), of ?fill q] q(1) by (cases ok; cases sealed) (auto simp: fill_slot_def)
    show "ring_holds SEND_SLOTS q
      (xs @ (if ok then [\<lparr>ss_buf = b, ss_queued_at = queued_at, ss_payload_len = payload_len, ss_owner = Some owner\<rparr>] else []))"
      using ring_queue.put_accepted [OF assms(1), of ?fill q] ring_queue.put_refused [OF assms(1), of ?fill q] q(1)
      by (cases ok; cases sealed) (auto simp: fill_slot_def)
  qed
qed

lemma act_step_inv:
  assumes "mux_writer_inv w"
  shows "mux_writer_inv (act_step e a w)"
proof (cases a)
  case (ActEnqueue age owner payload_len sealed)
  let ?at = "wr_now w - age"
  let ?b = "case sealed of None \<Rightarrow> [] | Some b \<Rightarrow> b"
  from assms obtain xs where inv: "link_inv (plain w) xs" by (auto simp: mux_writer_inv_def mux_core_def)
  then have holds: "ring_holds SEND_SLOTS (lk_q (wr_link w)) xs" by (simp add: link_inv_def)
  obtain ok l where enq: "link_enqueue e (wr_now w) ?at owner payload_len (\<lambda>_. (sealed \<noteq> None, ?b)) (wr_link w) = (ok, l)" by fastforce
  let ?slot = "\<lparr>ss_buf = ?b, ss_queued_at = ?at, ss_payload_len = payload_len, ss_owner = Some owner\<rparr>"
  obtain q where l: "l = (wr_link w)\<lparr>lk_q := q\<rparr>" and "ring_holds SEND_SLOTS q (xs @ (if ok then [?slot] else []))"
    by (rule enqueue_holds [OF holds enq])
  moreover have st: "act_step e a w = w\<lparr>wr_link := l, wr_accepted := wr_accepted w @ (if ok then [?b] else [])\<rparr>"
    by (simp only: ActEnqueue act_step.simps Let_def enq prod.case)
  ultimately have "link_inv (plain (act_step e a w)) (xs @ (if ok then [?slot] else []))"
    using inv by (cases ok) (simp_all add: link_inv_def)
  then show ?thesis using assms
    unfolding st l by (auto simp: mux_writer_inv_def mux_core_def mux_end_def mux_flow_def)
next
  case (ActFlush fs)
  then show ?thesis using assms
    by (auto simp: mux_writer_inv_def mux_core_def mux_end_def mux_flow_def link_inv_def)
next
  case (ActRound beat park)
  show ?thesis
  proof (cases "mw_returned w")
    case True
    then show ?thesis using assms by (simp add: ActRound)
  next
    case False
    obtain r v where v: "mux_round e w = (r, v)" by fastforce
    from assms False have core: "mux_core w" "mux_flow w" by (auto simp: mux_writer_inv_def)
    note inv = mux_round_inv [OF core v]
    have timed: "mux_core (u\<lparr>wr_now := n\<rparr>) = mux_core u" "mux_end (u\<lparr>wr_now := n\<rparr>) = mux_end u" "mux_flow (u\<lparr>wr_now := n\<rparr>) = mux_flow u"
      "mux_core (u\<lparr>mw_returned := b\<rparr>) = mux_core u" "mux_end (u\<lparr>mw_returned := b\<rparr>) = mux_end u" "mux_flow (u\<lparr>mw_returned := b\<rparr>) = mux_flow u"
      for u n b by (simp_all add: mux_core_def mux_end_def mux_flow_def link_inv_def)
    show ?thesis
    proof (cases r)
      case RoundFatal
      then show ?thesis using inv False v mux_kill_inv(1) [of v]
        by (simp add: ActRound after_fatal finish_pass_def mux_writer_inv_def timed mux_kill_inv(2))
    next
      case RoundOver
      then show ?thesis using inv False v after_rounds_inv [of v e beat]
        by (auto simp: ActRound finish_pass_def mux_writer_inv_def timed mux_flow_end split: pass_end.splits prod.splits)
    qed (use inv False v assms in \<open>simp_all add: ActRound mux_writer_inv_def\<close>)
  qed
next
  case ActKill
  then show ?thesis using assms mux_kill_inv [of w] by (simp add: mux_writer_inv_def)
qed

interpretation mux_run: state_machine "act_step e" mux_writer_inv for e
  by unfold_locales (rule act_step_inv)

text \<open>
  C6. The wire of a multiplexed connection carries whole frames: whatever is queued, flushed and
  answered, what was written is the frames sent, each complete and in the order taken, and at most the
  beginning of one more after which the writer has returned; media frames leave the queue in the order
  accepted, each either written, late, revoked or the last one tried, and counted as such; control
  frames are never dropped or reordered, and none is missing while the writer runs.
\<close>

theorem connection_carries_whole_frames:
  assumes w_def: "w = fold (act_step e) as (mux_writer_new io fp bps now sc tx)"
  shows "(\<exists>tail. wr_wire w = concat (map (\<lambda>(_, f, _). f) (filter (\<lambda>(_, _, out, _). out = Sent) (wr_log w))) @ tail \<and>
      (tail = [] \<or> mw_returned w)) \<and>
    (\<exists>xs dead. ring_holds SEND_SLOTS (lk_q (wr_link w)) xs \<and> wr_accepted w = media_taken (wr_log w) @ map ss_buf xs \<and>
      length (media_taken (wr_log w)) = lk_frames_written (wr_link w) + lk_stale_dropped (wr_link w) +
        lk_revoked_dropped (wr_link w) + dead \<and> dead \<le> (if mw_returned w then 1 else 0)) \<and>
    prefix (with_outcome False Sent (wr_log w)) (mw_flushed w) \<and>
    (\<not> mw_returned w \<longrightarrow> mw_flushed w = with_outcome False Sent (wr_log w) @ io_outbox (mw_io w)) \<and>
    mw_control_written w = length (with_outcome False Sent (wr_log w))"
proof -
  have inv: "mux_writer_inv w" unfolding w_def by (rule mux_run.run_inv [OF mux_writer_new_inv])
  then obtain xs where link: "link_inv (plain w) xs" by (auto simp: mux_writer_inv_def mux_core_def)
  let ?sent = "\<lambda>lg :: log_entry list. concat (map (\<lambda>(_, f, _). f) (filter (\<lambda>(_, _, out, _). out = Sent) lg))"
  have body: "concat (map moved lg) = ?sent lg" if "list_all entry_ok lg" "list_all (\<lambda>x. \<not> entry_fatal x) lg" for lg
    using that
  proof (induction lg)
    case (Cons x lg)
    obtain c f out off where "x = (c, f, out, off)" by (cases x)
    with Cons show ?case by (cases out) auto
  qed simp
  have count: "length (media_taken lg) = length (with_outcome True Sent lg) + length (with_outcome True Stale lg) +
      length (with_outcome True Revoked lg) + length (with_outcome True Dead lg)" for lg
  proof (induction lg rule: rev_induct)
    case (snoc x lg)
    obtain c f out off where "x = (c, f, out, off)" by (cases x)
    with snoc show ?case by (cases out) simp_all
  qed simp
  have dead: "with_outcome True Dead lg = []" if "list_all (\<lambda>x. \<not> entry_fatal x) lg" for lg
    using that by (induction lg) (auto simp: with_outcome_def)
  have all: "list_all entry_ok (wr_log w)" "wr_wire w = concat (map moved (wr_log w))" using link by (auto simp: link_inv_def)
  have ends: "list_all (\<lambda>x. \<not> entry_fatal x) (butlast (wr_log w))" "mw_returned w \<or> list_all (\<lambda>x. \<not> entry_fatal x) (wr_log w)"
    using inv by (auto simp: mux_writer_inv_def mux_end_def mux_flow_def)
  obtain tail n where t: "wr_wire w = ?sent (wr_log w) @ tail" "tail = [] \<or> mw_returned w"
    "length (with_outcome True Dead (wr_log w)) = n" "n \<le> (if mw_returned w then 1 else 0)"
  proof (cases "list_all (\<lambda>x. \<not> entry_fatal x) (wr_log w)")
    case True
    then show ?thesis using that [of "[]" 0] all body dead by simp
  next
    case False
    then obtain lg x where lg: "wr_log w = lg @ [x]" and ret: "mw_returned w"
      using ends by (cases "wr_log w" rule: rev_cases) auto
    obtain c f out off where x: "x = (c, f, out, off)" by (cases x)
    have ok: "list_all entry_ok lg" "list_all (\<lambda>x. \<not> entry_fatal x) lg" "entry_ok x" using all ends lg by simp_all
    have "with_outcome True Dead (wr_log w) = (if c \<and> out = Dead then [f] else [])" using dead [OF ok(2)] by (simp add: lg x)
    moreover have "wr_wire w = ?sent (wr_log w) @ (if out = Sent then [] else take off f)"
      using all(2) body [OF ok(1,2)] ok(3) by (auto simp: lg x)
    ultimately show ?thesis using that ret by simp
  qed
  have queue: "\<exists>xs dead. ring_holds SEND_SLOTS (lk_q (wr_link w)) xs \<and> wr_accepted w = media_taken (wr_log w) @ map ss_buf xs \<and>
      length (media_taken (wr_log w)) = lk_frames_written (wr_link w) + lk_stale_dropped (wr_link w) +
        lk_revoked_dropped (wr_link w) + dead \<and> dead \<le> (if mw_returned w then 1 else 0)"
    using link t(3,4) count [of "wr_log w"] by (intro exI [of _ xs] exI [of _ n]) (simp add: link_inv_def)
  show ?thesis
  proof (intro conjI)
    show "\<exists>tail. wr_wire w = ?sent (wr_log w) @ tail \<and> (tail = [] \<or> mw_returned w)" using t(1,2) by blast
  qed (use inv queue in \<open>simp_all add: mux_writer_inv_def mux_core_def mux_flow_def mux_end_def\<close>)
qed

theorem connection_carries_whole_frames_witness:
  "\<exists>w. w = fold (act_step demo_env) [ActFlush [[1, 2]], ActRound True 0]
      (mux_writer_new mux_io_new [] 0 0 [(3, Took 1), (3, Took 1)] (\<lambda>_. \<lparr>txc_packets = 0, txc_bytes = 0, txc_payload = 0\<rparr>)) \<and>
    wr_wire w = [1, 2] \<and> wr_log w = [(False, [1, 2], Sent, 2)] \<and> \<not> mw_returned w \<and>
    prefix (with_outcome False Sent (wr_log w)) (mw_flushed w)"
proof -
  let ?tx = "\<lambda>_ :: nat. \<lparr>txc_packets = 0, txc_bytes = 0, txc_payload = 0\<rparr>"
  let ?w0 = "mux_writer_new mux_io_new [] 0 0 [(3, Took 1), (3, Took 1)] ?tx"
  obtain w where w: "w = fold (act_step demo_env) [ActFlush [[1, 2]], ActRound True 0] ?w0" by blast
  have idle: "ring_len (lk_q (media_link_new [] 0 0)) = 0"
  proof -
    have "ring_holds SEND_SLOTS (lk_q (media_link_new [] 0 0)) []" by (rule new_link_holds)
    then obtain R W where "ring_rel (lk_q (media_link_new [] 0 0)) R W" "R = W"
      by (auto simp: ring_holds_def ring_items_def ring_rel_def)
    then show ?thesis by (simp add: ring_rel_def ring_len_def)
  qed
  have "wr_wire w = [1, 2] \<and> wr_log w = [(False, [1, 2], Sent, 2)] \<and> \<not> mw_returned w"
    unfolding w
    by (simp add: mux_writer_new_def mux_io_new_def mux_round_def control_may_go_def control_pending_def idle take_control_frame_def
        write_control_frame_def gate_owned_def token_bucket_new_def owner_may_def write_timed_Cons write_timed_Nil
        finish_control_frame_def charge_def Let_def)
  moreover have "prefix (with_outcome False Sent (wr_log w)) (mw_flushed w)"
    using connection_carries_whole_frames [OF w] by blast
  ultimately show ?thesis using w by blast
qed

section \<open>Control is never starved\<close>

definition queue_ok :: "nat \<Rightarrow> mux_writer \<Rightarrow> bool" where
  "queue_ok L w \<longleftrightarrow> tb_bps (wr_bucket w) = 0 \<and>
     (\<exists>xs. ring_holds SEND_SLOTS (lk_q (wr_link w)) xs \<and>
       list_all (\<lambda>s. length (ss_buf s) \<le> L \<and> ss_queued_at s \<le> wr_now w) xs)"

definition stimulus_ok :: "nat \<Rightarrow> mux_stimulus \<Rightarrow> bool" where
  "stimulus_ok L a = (case a of ActEnqueue _ _ _ (Some b) \<Rightarrow> length b \<le> L | _ \<Rightarrow> True)"

text \<open>The latest instant at which control may still wait.\<close>

definition control_by :: "nat \<Rightarrow> nat \<Rightarrow> mux_writer \<Rightarrow> nat" where
  "control_by D L w = mw_last_control w + CONTROL_CREDIT + FRAME_COMPLETION_LIMIT + D * (L + 1)"

lemma ring_len_items: "ring_holds c r xs \<Longrightarrow> ring_len r = 0 \<longleftrightarrow> xs = []"
proof -
  assume "ring_holds c r xs"
  then obtain R W where rel: "ring_rel r R W" and items: "ring_items r R W = xs" by (auto simp: ring_holds_def)
  from rel have "unat (ring_len r) = length xs" by (elim ring_relE) (simp add: ring_len_def items [symmetric] ring_items_def)
  then show ?thesis by (metis length_0_conv unat_eq_0)
qed

text \<open>A round with control pending either takes a control frame or ends in time.\<close>

lemma pending_round:
  assumes "mux_round e w = (r, v)" and "r \<noteq> RoundWaits" and "control_pending (mw_io w)"
    and "queue_ok L w" and "sink_ok D (wr_sink w)"
  shows "queue_ok L v \<and> sink_ok D (wr_sink v) \<and> mw_returned v = mw_returned w \<and> mw_alive v = mw_alive w \<and>
    lk_alive (wr_link v) = lk_alive (wr_link w) \<and>
    ((\<exists>f out off. wr_log v = wr_log w @ [(False, f, out, off)]) \<or>
     (\<exists>f out off. wr_log v = wr_log w @ [(True, f, out, off)]) \<and> wr_now v \<le> control_by D L w \<and>
       mw_last_control v = mw_last_control w \<and> mw_io v = mw_io w \<and> (r = RoundOver \<longrightarrow> \<not> lk_alive (wr_link v) \<or> en_shutdown e (wr_now v)))"
proof -
  from assms(4) obtain xs where holds: "ring_holds SEND_SLOTS (lk_q (wr_link w)) xs"
    and xs: "list_all (\<lambda>s. length (ss_buf s) \<le> L \<and> ss_queued_at s \<le> wr_now w) xs" and bps: "tb_bps (wr_bucket w) = 0"
    by (auto simp: queue_ok_def)
  obtain frame fs where fs: "io_outbox (mw_io w) = frame # fs"
    using assms(3) by (cases "io_outbox (mw_io w)") (auto simp: control_pending_def)
  show ?thesis
  proof (cases "control_may_go w")
    case True
    let ?io = "(mw_io w)\<lparr>io_outbox := fs\<rparr>"
    obtain res u where u: "write_control_frame e frame ?io w = (res, u)" by fastforce
    have r: "(r, v) = (case res of None \<Rightarrow> (RoundWaits, w) | Some Sent \<Rightarrow> (RoundAgain, u\<lparr>mw_last_control := wr_now u\<rparr>) | Some _ \<Rightarrow> (RoundFatal, u))"
      using assms(1) True by (simp add: mux_round_def take_control_frame_def fs u)
    show ?thesis
    proof (cases rule: write_control_frame_cases [OF u])
      case 1
      then show ?thesis using r assms(2) by simp
    next
      case (2 out off io')
      have "list_all (\<lambda>s. length (ss_buf s) \<le> L \<and> ss_queued_at s \<le> wr_now u) xs"
        using xs 2(14) by (auto simp: list_all_iff intro: order_trans)
      with holds have "queue_ok L u" by (auto simp: queue_ok_def 2 bps)
      moreover have "queue_ok L (u\<lparr>mw_last_control := wr_now u\<rparr>) = queue_ok L u" by (simp add: queue_ok_def)
      ultimately show ?thesis using r 2 assms(5) by (cases "out = Sent") auto
    qed
  next
    case False
    then have r: "media_round e w = (r, v)" using assms(1) by (simp add: mux_round_def)
    let ?C = "mw_last_control w + CONTROL_CREDIT"
    have C: "xs \<noteq> []" "wr_now w < ?C"
      using False assms(3) ring_len_items [OF holds] by (auto simp: control_may_go_def)
    show ?thesis
    proof (cases rule: write_one_cases [OF holds, of e "Some ?C"])
      case 1
      with C show ?thesis by simp
    next
      case (2 s ys)
      with r assms(2,3) show ?thesis by (simp add: media_round_def)
    next
      case (3 s ys out rep u)
      have v: "v = u" and over: "r = RoundOver \<longrightarrow> \<not> lk_alive (wr_link u) \<or> en_shutdown e (wr_now u)"
        using r 3(4) assms(3) by (auto simp: media_round_def split: if_splits)
      note bound = write_slot_bound [OF assms(5) bps 3(3) [unfolded 3(2)]]
      have s: "length (ss_buf s) \<le> L" "ss_queued_at s \<le> wr_now w" and ys: "list_all (\<lambda>s. length (ss_buf s) \<le> L \<and> ss_queued_at s \<le> wr_now w) ys"
        using xs by (simp_all add: 3(1))
      have le: "wr_now w \<le> wr_now u" using write_slot_facts [OF 3(3) [unfolded 3(2)]] by (simp add: 3(2,6))
      have "list_all (\<lambda>s. length (ss_buf s) \<le> L \<and> ss_queued_at s \<le> wr_now u) ys"
        using ys le by (auto simp: list_all_iff intro: order_trans)
      then have q: "queue_ok L u" using 3(5) by (auto simp: queue_ok_def 3(16) bps)
      have "D * length (ss_buf s) \<le> D * L" using s(1) by (rule mult_le_mono2)
      moreover have "control_by D L w = ?C + FRAME_COMPLETION_LIMIT + D + D * L" by (simp add: control_by_def)
      moreover have "max (wr_now w) (ss_queued_at s + FRAME_COMPLETION_LIMIT + D) \<le> ?C + FRAME_COMPLETION_LIMIT + D"
        using s(2) C(2) by simp
      ultimately have "wr_now u \<le> control_by D L w" using bound(1) unfolding 3(2,6) by linarith
      with q bound(3) over show ?thesis by (auto simp: v 3(2,7,8,11) more_fields [OF 3(15)])
    qed
  qed
qed

definition control_since :: "nat \<Rightarrow> mux_writer \<Rightarrow> bool" where
  "control_since k w \<longleftrightarrow> (\<exists>x \<in> set (drop k (wr_log w)). \<not> fst x)"

definition waits_ok :: "nat \<Rightarrow> nat \<Rightarrow> nat \<Rightarrow> nat \<Rightarrow> mux_writer \<Rightarrow> bool" where
  "waits_ok D L t0 t1 w \<longleftrightarrow> queue_ok L w \<and> sink_ok D (wr_sink w) \<and> control_pending (mw_io w) \<and>
     (mw_alive w \<or> \<not> lk_alive (wr_link w)) \<and> mw_last_control w = t0 \<and> wr_now w \<le> t1"

lemma one_log: "\<exists>xs. wr_log (snd (write_one_queued e cap w)) = wr_log w @ xs"
proof -
  obtain res q where c: "SpscRing.consume (\<lambda>s. ((s, write_slot e (wr_bucket w) (wr_now w) (wr_sink w) cap s), s\<lparr>ss_owner := None\<rparr>)) (lk_q (wr_link w)) = (res, q)"
    by fastforce
  show ?thesis
  proof (cases res)
    case None
    then show ?thesis by (simp add: write_one_queued_def c)
  next
    case (Some p)
    obtain s r where "p = (s, r)" by (cases p)
    then show ?thesis by (cases "wp_outcome r") (simp_all add: write_one_queued_def c Some Let_def)
  qed
qed

lemma media_round_log: "\<exists>xs. wr_log (snd (media_round e w)) = wr_log w @ xs"
proof -
  let ?cap = "if control_pending (mw_io w) then Some (mw_last_control w + CONTROL_CREDIT) else None"
  obtain r v where v: "write_one_queued e ?cap w = (r, v)" by fastforce
  then show ?thesis using one_log [of e ?cap w] by (cases r) (simp_all add: media_round_def v)
qed

lemma mux_round_log: "\<exists>xs. wr_log (snd (mux_round e w)) = wr_log w @ xs"
proof (cases "control_may_go w \<and> io_outbox (mw_io w) \<noteq> []")
  case False
  then have "mux_round e w = media_round e w"
    by (auto simp: mux_round_def take_control_frame_def split: list.splits)
  then show ?thesis by (simp add: media_round_log)
next
  case True
  then obtain frame fs where fs: "io_outbox (mw_io w) = frame # fs" by (cases "io_outbox (mw_io w)") auto
  obtain res u where u: "write_control_frame e frame ((mw_io w)\<lparr>io_outbox := fs\<rparr>) w = (res, u)" by fastforce
  have r: "mux_round e w = (case res of None \<Rightarrow> (RoundWaits, w) | Some Sent \<Rightarrow> (RoundAgain, u\<lparr>mw_last_control := wr_now u\<rparr>) | Some _ \<Rightarrow> (RoundFatal, u))"
    using True by (simp add: mux_round_def take_control_frame_def fs u)
  show ?thesis
  proof (cases rule: write_control_frame_cases [OF u])
    case 1
    then show ?thesis by (simp add: r)
  next
    case (2 out off io')
    then show ?thesis by (cases "out = Sent") (simp_all add: r)
  qed
qed

lemma finish_pass_log: "wr_log (finish_pass park (after_rounds e fatal beat w)) = wr_log w"
  by (simp add: finish_pass_def after_rounds_def Let_def)

lemma log_grows: "\<exists>xs. wr_log (act_step e a w) = wr_log w @ xs"
proof (cases a)
  case (ActRound beat park)
  obtain r v where v: "mux_round e w = (r, v)" by fastforce
  then show ?thesis using mux_round_log [of e w] by (cases r) (simp_all add: ActRound finish_pass_log)
qed (auto simp: Let_def split: prod.splits)

lemma pending_step:
  assumes "waits_ok D L t0 t1 w" and "stimulus_ok L a" and "t0 + CONTROL_CREDIT + FRAME_COMPLETION_LIMIT + D * (L + 1) \<le> t1"
  shows "waits_ok D L t0 t1 (act_step e a w) \<or> (\<exists>f out off. wr_log (act_step e a w) = wr_log w @ [(False, f, out, off)])"
proof (cases a)
  case (ActEnqueue age owner payload_len sealed)
  let ?b = "case sealed of None \<Rightarrow> [] | Some b \<Rightarrow> b"
  from assms(1) obtain xs where xs: "ring_holds SEND_SLOTS (lk_q (wr_link w)) xs"
      "list_all (\<lambda>s. length (ss_buf s) \<le> L \<and> ss_queued_at s \<le> wr_now w) xs"
    by (auto simp: waits_ok_def queue_ok_def)
  obtain ok l where enq: "link_enqueue e (wr_now w) (wr_now w - age) owner payload_len (\<lambda>_. (sealed \<noteq> None, ?b)) (wr_link w) = (ok, l)" by fastforce
  obtain q where q: "l = (wr_link w)\<lparr>lk_q := q\<rparr>" "ring_holds SEND_SLOTS q
      (xs @ (if ok then [\<lparr>ss_buf = ?b, ss_queued_at = wr_now w - age, ss_payload_len = payload_len, ss_owner = Some owner\<rparr>] else []))"
    by (rule enqueue_holds [OF xs(1) enq])
  have "length ?b \<le> L" using assms(2) by (simp add: stimulus_ok_def ActEnqueue split: option.splits)
  then have "queue_ok L (act_step e a w)"
    using assms(1) q xs by (cases ok) (auto simp: ActEnqueue enq Let_def queue_ok_def waits_ok_def simp del: not_None_eq)
  then show ?thesis using assms(1) q(1) by (auto simp: ActEnqueue enq Let_def waits_ok_def simp del: not_None_eq)
next
  case (ActFlush fs)
  then show ?thesis using assms(1) by (auto simp: waits_ok_def queue_ok_def control_pending_def)
next
  case ActKill
  then show ?thesis using assms(1) by (auto simp: waits_ok_def queue_ok_def control_pending_def mux_kill_def mux_close_def link_kill_def)
next
  case (ActRound beat park)
  show ?thesis
  proof (cases "mw_returned w \<or> fst (mux_round e w) = RoundWaits")
    case True
    then show ?thesis using assms(1) by (auto simp: ActRound split: prod.splits round_end.splits)
  next
    case False
    then obtain r v where v: "mux_round e w = (r, v)" "r \<noteq> RoundWaits" by (cases "mux_round e w") auto
    from assms(1) have now: "control_pending (mw_io w)" "queue_ok L w" "sink_ok D (wr_sink w)" by (auto simp: waits_ok_def)
    note pr = pending_round [OF v now]
    have keep: "queue_ok L (u\<lparr>mw_returned := b\<rparr>) = queue_ok L u" "queue_ok L (mux_kill u) = queue_ok L u"
      "control_pending (mw_io (mux_kill u)) = control_pending (mw_io u)"  "wr_sink (mux_kill u) = wr_sink u" for u b
      by (simp_all add: queue_ok_def control_pending_def) (simp_all add: mux_kill_def)
    have fatal: "r = RoundFatal \<Longrightarrow> act_step e a w = (mux_kill v)\<lparr>mw_returned := True\<rparr>"
      using False v pr assms(1) by (simp add: ActRound finish_pass_def after_rounds_def Let_def waits_ok_def) blast
    show ?thesis
    proof (cases "\<exists>f out off. wr_log v = wr_log w @ [(False, f, out, off)]")
      case True
      then show ?thesis using False v fatal pr
        by (cases r) (auto simp: ActRound finish_pass_def after_rounds_def Let_def split: pass_end.splits)
    next
      case media: False
      with pr have m: "wr_now v \<le> t1" "mw_last_control v = t0" "mw_io v = mw_io w"
        "r = RoundOver \<longrightarrow> \<not> lk_alive (wr_link v) \<or> en_shutdown e (wr_now v)"
        using assms(1,3) by (auto simp: control_by_def waits_ok_def)
      have ok: "waits_ok D L t0 t1 v" using pr m assms(1) by (auto simp: waits_ok_def)
      have "r = RoundOver \<Longrightarrow> act_step e a w = v\<lparr>mw_returned := True\<rparr>"
        using False v m(4) by (auto simp: ActRound finish_pass_def after_rounds_def Let_def)
      with ok fatal show ?thesis using False v
        by (cases r) (auto simp: ActRound waits_ok_def keep)
    qed
  qed
qed

lemma fold_log: "\<exists>xs. wr_log (fold (act_step e) as w) = wr_log w @ xs"
proof (induction as arbitrary: w)
  case (Cons a as)
  obtain xs where xs: "wr_log (act_step e a w) = wr_log w @ xs" using log_grows by blast
  show ?case using Cons [of "act_step e a w"] by (auto simp: xs)
qed simp

lemma pending_run:
  assumes "waits_ok D L t0 t1 w" and "list_all (stimulus_ok L) as" and "t0 + CONTROL_CREDIT + FRAME_COMPLETION_LIMIT + D * (L + 1) \<le> t1"
  shows "waits_ok D L t0 t1 (fold (act_step e) as w) \<or> control_since (length (wr_log w)) (fold (act_step e) as w)"
  using assms(1,2)
proof (induction as arbitrary: w)
  case (Cons a as)
  have a: "stimulus_ok L a" "list_all (stimulus_ok L) as" using Cons.prems(2) by simp_all
  let ?w = "act_step e a w"
  obtain xs where xs: "wr_log ?w = wr_log w @ xs" using log_grows by blast
  obtain ys where ys: "wr_log (fold (act_step e) as ?w) = wr_log ?w @ ys" using fold_log by blast
  from pending_step [OF Cons.prems(1) a(1) assms(3)] show ?case
  proof
    assume "waits_ok D L t0 t1 ?w"
    from Cons.IH [OF this a(2)] show ?thesis
      by (auto simp: control_since_def xs ys)
  next
    assume "\<exists>f out off. wr_log ?w = wr_log w @ [(False, f, out, off)]"
    then show ?thesis by (auto simp: control_since_def ys)
  qed
qed simp

lemma due_round:
  assumes "control_pending (mw_io w)" and "CONTROL_CREDIT \<le> wr_now w - mw_last_control w"
  shows "fst (mux_round e w) = RoundWaits \<or> (\<exists>f out off. wr_log (snd (mux_round e w)) = wr_log w @ [(False, f, out, off)])"
proof -
  obtain frame fs where fs: "io_outbox (mw_io w) = frame # fs"
    using assms(1) by (cases "io_outbox (mw_io w)") (auto simp: control_pending_def)
  obtain res u where u: "write_control_frame e frame ((mw_io w)\<lparr>io_outbox := fs\<rparr>) w = (res, u)" by fastforce
  have r: "mux_round e w = (case res of None \<Rightarrow> (RoundWaits, w) | Some Sent \<Rightarrow> (RoundAgain, u\<lparr>mw_last_control := wr_now u\<rparr>) | Some _ \<Rightarrow> (RoundFatal, u))"
    using assms by (simp add: mux_round_def control_may_go_def take_control_frame_def fs u)
  show ?thesis
  proof (cases rule: write_control_frame_cases [OF u])
    case 1
    then show ?thesis by (simp add: r)
  next
    case (2 out off io')
    then show ?thesis by (cases "out = Sent") (simp_all add: r)
  qed
qed

text \<open>
  C5. Media cannot starve control: on a sink whose calls take at most \<open>D\<close> and are not interrupted, a
  control frame that is pending is taken by the instant its credit falls due plus the longest that one
  media frame already begun can last, whatever is queued and flushed meanwhile; and from the instant the
  credit is due, the writer's next round takes it.
\<close>

theorem control_is_never_starved:
  assumes "mux_writer_inv w" and "control_pending (mw_io w)" and "queue_ok L w" and "sink_ok D (wr_sink w)"
    and "list_all (stimulus_ok L) as"
  shows "(control_since (length (wr_log w)) (fold (act_step e) as w) \<or>
      wr_now (fold (act_step e) as w) \<le> max (wr_now w) (control_by D L w)) \<and>
    (CONTROL_CREDIT \<le> wr_now w - mw_last_control w \<longrightarrow>
      fst (mux_round e w) = RoundWaits \<or> (\<exists>f out off. wr_log (snd (mux_round e w)) = wr_log w @ [(False, f, out, off)]))"
proof -
  have "mw_alive w \<or> \<not> lk_alive (wr_link w)" using assms(1) by (auto simp: mux_writer_inv_def mux_core_def)
  then have "waits_ok D L (mw_last_control w) (max (wr_now w) (control_by D L w)) w"
    using assms(2-4) by (simp add: waits_ok_def)
  then have "waits_ok D L (mw_last_control w) (max (wr_now w) (control_by D L w)) (fold (act_step e) as w) \<or>
      control_since (length (wr_log w)) (fold (act_step e) as w)"
    by (rule pending_run [OF _ assms(5)]) (simp add: control_by_def)
  then show ?thesis using due_round [OF assms(2)] by (auto simp: waits_ok_def)
qed

lemma new_writer_ok: "queue_ok L (mux_writer_new io fp 0 now sc tx)"
  using new_link_holds [of fp 0 now] by (force simp: queue_ok_def mux_writer_new_def token_bucket_new_def)

theorem control_is_never_starved_witness:
  "\<exists>w. mux_writer_inv w \<and> control_pending (mw_io w) \<and> wr_now w = 7 \<and>
     (control_since 0 (fold (act_step demo_env) [ActEnqueue 0 1 0 (Some [9]), ActRound True 0] w) \<or>
      wr_now (fold (act_step demo_env) [ActEnqueue 0 1 0 (Some [9]), ActRound True 0] w) \<le> 5100007 + 20000 * 2)"
proof -
  let ?io = "mux_io_new\<lparr>io_outbox := [[1, 2]]\<rparr>"
  let ?w = "mux_writer_new ?io [] 0 7 [(3, WouldBlock), (3, Took 2)] (\<lambda>_. \<lparr>txc_packets = 0, txc_bytes = 0, txc_payload = 0\<rparr>)"
  have f: "wr_log ?w = []" "wr_now ?w = 7" "mw_last_control ?w = 7" "mw_io ?w = ?io" "wr_sink ?w = [(3, WouldBlock), (3, Took 2)]"
    by (simp_all add: mux_writer_new_def)
  have hyps: "mux_writer_inv ?w" "control_pending (mw_io ?w)" "queue_ok 1 ?w" "sink_ok 20000 (wr_sink ?w)"
      "list_all (stimulus_ok 1) [ActEnqueue 0 1 0 (Some [9]), ActRound True 0]"
    by (simp_all add: mux_writer_new_inv new_writer_ok f control_pending_def stimulus_ok_def)
  from control_is_never_starved [OF hyps, of demo_env] hyps(1,2) show ?thesis
    by (intro exI [of _ ?w]) (simp add: f control_by_def CONTROL_CREDIT_def FRAME_COMPLETION_LIMIT_def del: act_step.simps)
qed

end
