(* ===== verification/MediaAttach.thy ===== *)
theory MediaAttach
  imports MediaLink "HOL-Library.Multiset"
begin

text \<open>
  How a media connection is attached to a control connection (core/audiohubd/src/tcpmedia.rs): the
  tickets and how they are minted, offered and spent, the latch that admits one link at a time, the two
  sides of the attachment as tasks that run next to each other, and the negotiation that waits for it.
  Base64 is a parameter; addresses are numbers; time is in microseconds.
\<close>

section \<open>Tickets\<close>

definition TICKET_TTL :: nat where
  "TICKET_TTL = 10000000"

definition TICKET_LEN :: nat where
  "TICKET_LEN = 32"

record media_ticket =
  mt_bytes :: bytes
  mt_fp :: string
  mt_expires :: nat

definition live_tickets :: "nat \<Rightarrow> media_ticket list \<Rightarrow> media_ticket list" where
  "live_tickets now ts = filter (\<lambda>t. now < mt_expires t) ts"

definition new_ticket :: "nat \<Rightarrow> string \<Rightarrow> bytes \<Rightarrow> media_ticket" where
  "new_ticket now fp rnd = \<lparr>mt_bytes = rnd, mt_fp = fp, mt_expires = now + TICKET_TTL\<rparr>"

definition mint_ticket :: "nat \<Rightarrow> string \<Rightarrow> bytes \<Rightarrow> media_ticket list \<Rightarrow> media_ticket list" where
  "mint_ticket now fp rnd ts = live_tickets now ts @ [new_ticket now fp rnd]"

text \<open>\<open>Vec::swap_remove\<close>: the last element takes the place of the removed one.\<close>

definition swap_remove :: "nat \<Rightarrow> 'a list \<Rightarrow> 'a list" where
  "swap_remove i xs = (if Suc i = length xs then butlast xs else (butlast xs)[i := last xs])"

definition claim_ticket :: "(string \<Rightarrow> bytes option) \<Rightarrow> nat \<Rightarrow> string \<Rightarrow> media_ticket list \<Rightarrow> media_ticket option \<times> media_ticket list" where
  "claim_ticket dec now b64 ts =
     (case dec b64 of
        None \<Rightarrow> (None, ts)
      | Some raw \<Rightarrow>
          if length raw \<noteq> TICKET_LEN then (None, ts)
          else
            let ts = live_tickets now ts in
            case position (\<lambda>t. mt_bytes t = raw) ts of
              None \<Rightarrow> (None, ts)
            | Some i \<Rightarrow> (Some (ts ! i), swap_remove i ts))"

section \<open>Connections and their latch\<close>

record attach_conn =
  ac_fp :: string
  ac_ip :: nat
  ac_port :: nat
  ac_we_dialled :: bool
  ac_alive :: bool
  ac_path :: "(nat \<times> nat, nat) media_path"
  ac_claimed :: bool
  ac_attaching :: bool

text \<open>
  The tasks around an attachment. \<open>Installing\<close> and \<open>Serving\<close> hold the claim of their connection,
  and so does a dial that waits for its answer; the flag says whether this machine dialled.
\<close>

datatype attach_task =
    Dialing nat string
  | Connecting nat
  | Installing nat bool
  | Serving nat nat

datatype attach_msg = AttachRequest | AttachTicket string | AttachRefused string

record attach_state =
  as_tickets :: "media_ticket list"
  as_conns :: "nat \<Rightarrow> attach_conn option"
  as_table :: "string \<Rightarrow> nat option"
  as_tasks :: "attach_task list"
  as_sent :: "(nat \<times> attach_msg) list"
  as_minted :: "media_ticket list"
  as_accepted :: "(media_ticket \<times> nat \<times> nat \<times> nat) list"

definition attach_new :: attach_state where
  "attach_new = \<lparr>as_tickets = [], as_conns = \<lambda>_. None, as_table = \<lambda>_. None, as_tasks = [], as_sent = [], as_minted = [], as_accepted = []\<rparr>"

definition on_conn :: "nat \<Rightarrow> (attach_conn \<Rightarrow> attach_conn) \<Rightarrow> attach_state \<Rightarrow> attach_state" where
  "on_conn c f st = st\<lparr>as_conns := (as_conns st)(c := map_option f (as_conns st c))\<rparr>"

definition claim_take :: "attach_conn \<Rightarrow> attach_conn option" where
  "claim_take k = (if ac_claimed k then None else Some (k\<lparr>ac_claimed := True\<rparr>))"

definition claim_drop :: "attach_conn \<Rightarrow> attach_conn" where
  "claim_drop k = k\<lparr>ac_claimed := False\<rparr>"

section \<open>Offering and spending\<close>

definition offer_ticket :: "(bytes \<Rightarrow> string) \<Rightarrow> nat \<Rightarrow> nat \<Rightarrow> bytes \<Rightarrow> attach_state \<Rightarrow> attach_state" where
  "offer_ticket enc now c rnd st =
     (case as_conns st c of
        None \<Rightarrow> st
      | Some k \<Rightarrow>
          (case ac_path k of
             MpTcp _ \<Rightarrow> st
           | MpFramed _ \<Rightarrow> st
           | MpUdp _ \<Rightarrow>
               if list_ex (\<lambda>t. mt_fp t = ac_fp k \<and> now < mt_expires t) (as_tickets st) then st
               else st\<lparr>as_tickets := mint_ticket now (ac_fp k) rnd (as_tickets st), as_minted := as_minted st @ [new_ticket now (ac_fp k) rnd],
                       as_sent := as_sent st @ [(c, AttachTicket (enc rnd))]\<rparr>))"

definition on_request :: "(bytes \<Rightarrow> string) \<Rightarrow> transport_tier \<Rightarrow> nat \<Rightarrow> nat \<Rightarrow> bytes \<Rightarrow> attach_state \<Rightarrow> attach_state" where
  "on_request enc tier now c rnd st =
     (if tier = Tier0 then st\<lparr>as_sent := as_sent st @ [(c, AttachRefused ''this peer is pinned to tier 0'')]\<rparr>
      else offer_ticket enc now c rnd st)"

definition on_ticket :: "transport_tier \<Rightarrow> nat \<Rightarrow> string \<Rightarrow> attach_state \<Rightarrow> attach_state" where
  "on_ticket tier c b64 st =
     (case as_conns st c of
        None \<Rightarrow> st
      | Some k \<Rightarrow>
          if tier = Tier0 then st
          else if (case ac_path k of MpFramed _ \<Rightarrow> True | _ \<Rightarrow> False) then st
          else if \<not> ac_we_dialled k then st
          else if ac_attaching k then st
          else (on_conn c (\<lambda>k. k\<lparr>ac_attaching := True\<rparr>) st)\<lparr>as_tasks := Dialing c b64 # as_tasks st\<rparr>)"

text \<open>The inbound side: \<open>Inl\<close> is the refusal written to the socket.\<close>

definition attach_claim :: "(string \<Rightarrow> bytes option) \<Rightarrow> nat \<Rightarrow> nat option \<Rightarrow> string \<Rightarrow> attach_state \<Rightarrow> (string + nat) \<times> attach_state" where
  "attach_claim dec now peer_ip b64 st =
     (case claim_ticket dec now b64 (as_tickets st) of
        (None, ts) \<Rightarrow> (Inl ''unknown or expired media attach ticket'', st\<lparr>as_tickets := ts\<rparr>)
      | (Some t, ts) \<Rightarrow>
          let st = st\<lparr>as_tickets := ts\<rparr> in
          case Option.bind (as_table st (mt_fp t)) (\<lambda>c. Option.bind (as_conns st c) (\<lambda>k. if ac_alive k then Some (c, k) else None)) of
            None \<Rightarrow> (Inl ''no live control connection for that ticket'', st)
          | Some (c, k) \<Rightarrow>
              (case peer_ip of
                 None \<Rightarrow> (Inl ''media attach socket has no peer address'', st)
               | Some ip \<Rightarrow>
                   if ip \<noteq> ac_ip k then (Inl ''media attach from an address that is not the control peer'', st)
                   else case claim_take k of
                     None \<Rightarrow> (Inl ''a media link is already attached'', st)
                   | Some k' \<Rightarrow> (Inr c, (on_conn c (\<lambda>_. k') st)\<lparr>as_accepted := as_accepted st @ [(t, c, ip, now)]\<rparr>)))"

section \<open>The tasks\<close>

definition end_task :: "attach_task \<Rightarrow> attach_state \<Rightarrow> attach_state" where
  "end_task t st = st\<lparr>as_tasks := remove1 t (as_tasks st)\<rparr>"

definition dial_failed :: "attach_conn \<Rightarrow> attach_conn" where
  "dial_failed k = k\<lparr>ac_attaching := False\<rparr>"

text \<open>The dial up to the connect, then what came back.\<close>

definition dial_start :: "nat \<Rightarrow> string \<Rightarrow> attach_state \<Rightarrow> attach_state" where
  "dial_start c b64 st =
     (case as_conns st c of
        None \<Rightarrow> st
      | Some k \<Rightarrow>
          let st' = end_task (Dialing c b64) st in
          if ac_port k = 0 then on_conn c dial_failed st'
          else case claim_take k of
            None \<Rightarrow> on_conn c dial_failed st'
          | Some k' \<Rightarrow> (on_conn c (\<lambda>_. k') st')\<lparr>as_tasks := Connecting c # as_tasks st'\<rparr>)"

definition dial_answer :: "bool \<Rightarrow> nat \<Rightarrow> attach_state \<Rightarrow> attach_state" where
  "dial_answer ok c st =
     (let st' = end_task (Connecting c) st in
      if ok then st'\<lparr>as_tasks := Installing c True # as_tasks st'\<rparr>
      else on_conn c (\<lambda>k. dial_failed (claim_drop k)) st')"

text \<open>The socket options and the writer thread; no link when one of them fails.\<close>

definition serve_install :: "nat option \<Rightarrow> nat \<Rightarrow> bool \<Rightarrow> attach_state \<Rightarrow> attach_state" where
  "serve_install link c dialled st =
     (let st' = end_task (Installing c dialled) st in
      case link of
        None \<Rightarrow> on_conn c (\<lambda>k. (if dialled then dial_failed (claim_drop k) else claim_drop k)) st'
      | Some l \<Rightarrow> (on_conn c (\<lambda>k. k\<lparr>ac_path := MpTcp l\<rparr>) st')\<lparr>as_tasks := Serving c l # as_tasks st'\<rparr>)"

definition serve_end :: "bool \<Rightarrow> nat \<Rightarrow> nat \<Rightarrow> attach_state \<Rightarrow> attach_state" where
  "serve_end shutdown c l st =
     on_conn c (\<lambda>k. claim_drop (k\<lparr>ac_path := MpUdp (ac_ip k, ac_port k), ac_attaching := False,
                      ac_alive := (if shutdown then ac_alive k else False)\<rparr>)) (end_task (Serving c l) st)"

text \<open>A new connection to a peer ends the one before it.\<close>

definition replace_conn :: "string \<Rightarrow> attach_state \<Rightarrow> attach_state" where
  "replace_conn fp st =
     (case as_table st fp of None \<Rightarrow> st | Some c \<Rightarrow> on_conn c (\<lambda>k. k\<lparr>ac_alive := False\<rparr>) st)"

text \<open>Everything that can happen, in any order; a task takes part only while it exists.\<close>

datatype attach_event =
    ConnUp nat string nat nat bool "(nat \<times> nat, nat) media_path"
  | ConnDown nat
  | Offer nat nat bytes
  | Request transport_tier nat nat bytes
  | TicketArrives transport_tier nat string
  | Inbound nat "nat option" string bool
  | DialStart nat string
  | DialAnswer bool nat
  | Install "nat option" nat bool
  | ServeEnd bool nat nat

fun attach_step :: "(string \<Rightarrow> bytes option) \<Rightarrow> (bytes \<Rightarrow> string) \<Rightarrow> attach_event \<Rightarrow> attach_state \<Rightarrow> attach_state" where
  "attach_step dec enc (ConnUp c fp ip port dialled path) st =
     (if as_conns st c \<noteq> None \<or> (case path of MpTcp _ \<Rightarrow> True | _ \<Rightarrow> False) then st
      else
        let st = replace_conn fp st in
        st\<lparr>as_conns := (as_conns st)(c \<mapsto> \<lparr>ac_fp = fp, ac_ip = ip, ac_port = port, ac_we_dialled = dialled, ac_alive = True,
             ac_path = path, ac_claimed = False, ac_attaching = False\<rparr>),
           as_table := (as_table st)(fp \<mapsto> c)\<rparr>)"
| "attach_step dec enc (ConnDown c) st =
     (case as_conns st c of
        None \<Rightarrow> st
      | Some k \<Rightarrow>
          (on_conn c (\<lambda>k. k\<lparr>ac_alive := False\<rparr>) st)
            \<lparr>as_table := (if as_table st (ac_fp k) = Some c then (as_table st)(ac_fp k := None) else as_table st)\<rparr>)"
| "attach_step dec enc (Offer now c rnd) st = offer_ticket enc now c rnd st"
| "attach_step dec enc (Request tier now c rnd) st = on_request enc tier now c rnd st"
| "attach_step dec enc (TicketArrives tier c b64) st = on_ticket tier c b64 st"
| "attach_step dec enc (Inbound now peer_ip b64 acked) st =
     (case attach_claim dec now peer_ip b64 st of
        (Inl _, st') \<Rightarrow> st'
      | (Inr c, st') \<Rightarrow>
          if acked then st'\<lparr>as_tasks := Installing c False # as_tasks st'\<rparr> else on_conn c claim_drop st')"
| "attach_step dec enc (DialStart c b64) st = (if Dialing c b64 \<in> set (as_tasks st) then dial_start c b64 st else st)"
| "attach_step dec enc (DialAnswer ok c) st = (if Connecting c \<in> set (as_tasks st) then dial_answer ok c st else st)"
| "attach_step dec enc (Install link c dialled) st =
     (if Installing c dialled \<in> set (as_tasks st) then serve_install link c dialled st else st)"
| "attach_step dec enc (ServeEnd shutdown c l) st = (if Serving c l \<in> set (as_tasks st) then serve_end shutdown c l st else st)"

section \<open>Waiting for the attachment\<close>

text \<open>
  What a wait on the control channel brings, and what it sees of the connection before it: the path,
  whether the connection lives, the clock, the shutdown flag.
\<close>

datatype 'm pumped = PumpTicket string | PumpRefused | PumpOther 'm | PumpNothing | PumpError

record pump_view =
  pv_now :: nat
  pv_attached :: bool
  pv_stop :: bool

text \<open>None: the wait goes on. The ticket to dial with, and the messages parked for the reader.\<close>

fun pump_for_ticket :: "nat \<Rightarrow> (pump_view \<times> 'm pumped) list \<Rightarrow> (bool \<times> string option) option \<times> 'm list" where
  "pump_for_ticket deadline [] = (None, [])"
| "pump_for_ticket deadline ((v, p) # ps) =
     (if deadline \<le> pv_now v then (Some (False, None), [])
      else if pv_attached v then (Some (True, None), [])
      else if pv_stop v then (Some (False, None), [])
      else case p of
        PumpTicket b64 \<Rightarrow> (Some (True, Some b64), [])
      | PumpRefused \<Rightarrow> (Some (False, None), [])
      | PumpOther m \<Rightarrow> (case pump_for_ticket deadline ps of (r, ms) \<Rightarrow> (r, m # ms))
      | PumpNothing \<Rightarrow> pump_for_ticket deadline ps
      | PumpError \<Rightarrow> (Some (False, None), []))"

record await_view =
  aw_now :: nat
  aw_attached :: bool
  aw_attaching :: bool
  aw_alive :: bool

fun await_attach :: "nat \<Rightarrow> bool \<Rightarrow> await_view list \<Rightarrow> bool option" where
  "await_attach deadline dialling [] = None"
| "await_attach deadline dialling (v # vs) =
     (if aw_attached v then Some True
      else if dialling \<and> \<not> aw_attaching v then Some False
      else if \<not> aw_alive v then Some False
      else if deadline \<le> aw_now v then Some False
      else await_attach deadline dialling vs)"

section \<open>Invariants\<close>

lemma mset_swap_remove: "i < length xs \<Longrightarrow> add_mset (xs ! i) (mset (swap_remove i xs)) = mset xs"
proof (cases xs rule: rev_cases)
  case (snoc ys y)
  assume "i < length xs"
  then show ?thesis
    by (cases "i = length ys") (auto simp: snoc swap_remove_def nth_append mset_update)
qed simp

lemma mset_live: "mset (live_tickets now ts) \<subseteq># mset ts"
  by (simp add: live_tickets_def)

lemma claim_ticket_spends:
  assumes "claim_ticket dec now b64 ts = (r, ts')"
  shows "mset ts' + (case r of None \<Rightarrow> {#} | Some t \<Rightarrow> {#t#}) \<subseteq># mset ts"
    and "r = Some t \<Longrightarrow> now < mt_expires t \<and> dec b64 = Some (mt_bytes t)"
proof -
  show "mset ts' + (case r of None \<Rightarrow> {#} | Some t \<Rightarrow> {#t#}) \<subseteq># mset ts"
  proof (cases r)
    case None
    then show ?thesis using assms mset_live [of now ts]
      by (auto simp: claim_ticket_def Let_def split: option.splits if_splits)
  next
    case (Some t)
    with assms obtain raw i where "position (\<lambda>t. mt_bytes t = raw) (live_tickets now ts) = Some i"
        "t = live_tickets now ts ! i" "ts' = swap_remove i (live_tickets now ts)"
      by (auto simp: claim_ticket_def Let_def split: option.splits if_splits)
    then have "add_mset t (mset ts') = mset (live_tickets now ts)" using position_Some mset_swap_remove by metis
    then show ?thesis using mset_live [of now ts] by (simp add: Some)
  qed
  show "now < mt_expires t \<and> dec b64 = Some (mt_bytes t)" if "r = Some t"
  proof -
    from that assms obtain raw i where raw: "dec b64 = Some raw" "position (\<lambda>t. mt_bytes t = raw) (live_tickets now ts) = Some i"
        "t = live_tickets now ts ! i"
      by (auto simp: claim_ticket_def Let_def split: option.splits if_splits)
    note pos = raw(2) [unfolded position_Some]
    have "t \<in> set (live_tickets now ts)" using pos raw(3) by simp
    then show ?thesis using pos raw by (auto simp: live_tickets_def)
  qed
qed

fun holds_claim :: "nat \<Rightarrow> attach_task \<Rightarrow> bool" where
  "holds_claim c (Dialing _ _) \<longleftrightarrow> False"
| "holds_claim c (Connecting d) \<longleftrightarrow> d = c"
| "holds_claim c (Installing d _) \<longleftrightarrow> d = c"
| "holds_claim c (Serving d _) \<longleftrightarrow> d = c"

definition holders :: "nat \<Rightarrow> attach_task list \<Rightarrow> nat" where
  "holders c ts = length (filter (holds_claim c) ts)"

lemma holders_simps [simp]:
  "holders c [] = 0" "holders c (t # ts) = (if holds_claim c t then Suc (holders c ts) else holders c ts)"
  by (simp_all add: holders_def)

lemma holders_remove1: "t \<in> set ts \<Longrightarrow> holders c ts = holders c (remove1 t ts) + (if holds_claim c t then 1 else 0)"
  by (induction ts) auto

definition conn_ok :: "attach_task list \<Rightarrow> nat \<Rightarrow> attach_conn option \<Rightarrow> bool" where
  "conn_ok ts c k \<longleftrightarrow>
     (case k of
        None \<Rightarrow> holders c ts = 0
      | Some k \<Rightarrow> holders c ts = (if ac_claimed k then 1 else 0) \<and> (\<forall>l. ac_path k = MpTcp l \<longleftrightarrow> Serving c l \<in> set ts))"

definition attach_inv :: "attach_state \<Rightarrow> bool" where
  "attach_inv st \<longleftrightarrow> (\<forall>c. conn_ok (as_tasks st) c (as_conns st c)) \<and>
     (\<forall>fp c. as_table st fp = Some c \<longrightarrow> (\<exists>k. as_conns st c = Some k \<and> ac_fp k = fp)) \<and>
     mset (map fst (as_accepted st)) + mset (as_tickets st) \<subseteq># mset (as_minted st) \<and>
     (\<forall>(t, c, ip, now) \<in> set (as_accepted st). now < mt_expires t \<and>
        (\<exists>k. as_conns st c = Some k \<and> ac_fp k = mt_fp t \<and> ac_ip k = ip))"

lemma on_conn_simps [simp]:
  "as_tickets (on_conn c f st) = as_tickets st" "as_table (on_conn c f st) = as_table st" "as_tasks (on_conn c f st) = as_tasks st"
  "as_minted (on_conn c f st) = as_minted st" "as_accepted (on_conn c f st) = as_accepted st" "as_sent (on_conn c f st) = as_sent st"
  "as_conns (on_conn c f st) d = (if d = c then map_option f (as_conns st c) else as_conns st d)"
  "as_tickets (end_task t st) = as_tickets st" "as_table (end_task t st) = as_table st" "as_tasks (end_task t st) = remove1 t (as_tasks st)"
  "as_minted (end_task t st) = as_minted st" "as_accepted (end_task t st) = as_accepted st" "as_conns (end_task t st) = as_conns st"
  by (auto simp: on_conn_def end_task_def)

lemma claim_simps [simp]:
  "ac_fp (claim_drop k) = ac_fp k" "ac_ip (claim_drop k) = ac_ip k" "ac_path (claim_drop k) = ac_path k" "\<not> ac_claimed (claim_drop k)"
  "ac_fp (dial_failed k) = ac_fp k" "ac_ip (dial_failed k) = ac_ip k" "ac_path (dial_failed k) = ac_path k"
  "ac_claimed (dial_failed k) = ac_claimed k"
  by (simp_all add: claim_drop_def dial_failed_def)

lemma claim_take_Some: "claim_take k = Some k' \<longleftrightarrow> \<not> ac_claimed k \<and> k' = k\<lparr>ac_claimed := True\<rparr>"
  by (auto simp: claim_take_def)

text \<open>
  How a step changes one connection and the list of tasks: the others are untouched if no task of
  theirs comes or goes.
\<close>

lemma attach_inv_conn:
  assumes "attach_inv st" and "as_conns st c = Some k"
    and "as_conns st' = (as_conns st)(c \<mapsto> k')" and "ac_fp k' = ac_fp k" and "ac_ip k' = ac_ip k"
    and "\<And>d. d \<noteq> c \<Longrightarrow> holders d (as_tasks st') = holders d (as_tasks st) \<and> (\<forall>l. Serving d l \<in> set (as_tasks st') \<longleftrightarrow> Serving d l \<in> set (as_tasks st))"
    and "conn_ok (as_tasks st') c (Some k')"
    and "\<And>fp d. as_table st' fp = Some d \<Longrightarrow> as_table st fp = Some d" and "as_minted st' = as_minted st"
    and "mset (map fst (as_accepted st')) + mset (as_tickets st') \<subseteq># mset (as_minted st)"
    and "\<forall>(t, c', ip, now) \<in> set (as_accepted st'). (t, c', ip, now) \<in> set (as_accepted st) \<or>
      c' = c \<and> now < mt_expires t \<and> ac_fp k = mt_fp t \<and> ac_ip k = ip"
  shows "attach_inv st'"
  unfolding attach_inv_def
proof (intro conjI allI impI)
  fix d
  show "conn_ok (as_tasks st') d (as_conns st' d)"
  proof (cases "d = c")
    case False
    have "conn_ok (as_tasks st) d (as_conns st d)" using assms(1) by (simp add: attach_inv_def)
    then show ?thesis using False assms(6) [OF False] assms(3) by (simp add: conn_ok_def split: option.splits)
  qed (use assms(3,7) in simp)
next
  fix fp d
  assume "as_table st' fp = Some d"
  then obtain j where "as_conns st d = Some j" "ac_fp j = fp" using assms(1,8) unfolding attach_inv_def by metis
  then show "\<exists>k. as_conns st' d = Some k \<and> ac_fp k = fp" using assms(2-4) by auto
next
  show "mset (map fst (as_accepted st')) + mset (as_tickets st') \<subseteq># mset (as_minted st')" using assms(9,10) by simp
next
  show "\<forall>(t, c, ip, now)\<in>set (as_accepted st'). now < mt_expires t \<and> (\<exists>k. as_conns st' c = Some k \<and> ac_fp k = mt_fp t \<and> ac_ip k = ip)"
  proof (clarify, intro conjI)
    fix t c' ip now
    assume "(t, c', ip, now) \<in> set (as_accepted st')"
    then have *: "(t, c', ip, now) \<in> set (as_accepted st) \<or> c' = c \<and> now < mt_expires t \<and> ac_fp k = mt_fp t \<and> ac_ip k = ip"
      using assms(11) by blast
    then show "now < mt_expires t" and "\<exists>k. as_conns st' c' = Some k \<and> ac_fp k = mt_fp t \<and> ac_ip k = ip"
      using assms(1-5) by (fastforce simp: attach_inv_def)+
  qed
qed

lemma conn_okD: "attach_inv st \<Longrightarrow> as_conns st c = Some k \<Longrightarrow> conn_ok (as_tasks st) c (Some k)"
  by (metis attach_inv_def)

lemma holders_0: "holders c ts = 0 \<Longrightarrow> t \<in> set ts \<Longrightarrow> \<not> holds_claim c t"
  by (induction ts) (auto split: if_splits)

lemma serving_remove1:
  "t \<noteq> Serving d l \<Longrightarrow> Serving d l \<in> set (remove1 t ts) \<longleftrightarrow> Serving d l \<in> set ts"
  by (metis in_set_remove1)

lemma accepted_inv: "attach_inv st \<Longrightarrow> mset (map fst (as_accepted st)) + mset (as_tickets st) \<subseteq># mset (as_minted st)"
  by (simp add: attach_inv_def)


text \<open>Tasks that hold no claim do not matter, and a task of one connection matters to that one only.\<close>

lemma task_of_conn:
  assumes "t \<in> set ts" and "\<And>d. holds_claim d t \<Longrightarrow> d = c" and "d \<noteq> c" and "\<And>l. t \<noteq> Serving d l"
  shows "holders d (remove1 t ts) = holders d ts \<and> (\<forall>l. Serving d l \<in> set (remove1 t ts) \<longleftrightarrow> Serving d l \<in> set ts)"
proof -
  have "\<not> holds_claim d t" using assms(2,3) by blast
  then show ?thesis using holders_remove1 [OF assms(1), of d] assms(4) by (simp add: serving_remove1)
qed

lemma offer_inv:
  assumes "attach_inv st"
  shows "attach_inv (offer_ticket enc now c rnd st)"
proof -
  have "mset (map fst (as_accepted st)) + mset (live_tickets now (as_tickets st)) \<subseteq># mset (as_minted st)"
    using accepted_inv [OF assms] mset_live [of now "as_tickets st"] subset_mset.add_left_mono subset_mset.order_trans by blast
  then have "attach_inv (st\<lparr>as_tickets := mint_ticket now fp rnd (as_tickets st), as_minted := as_minted st @ [new_ticket now fp rnd],
      as_sent := sent\<rparr>)" for fp sent
    using assms by (simp add: attach_inv_def mint_ticket_def)
  then show ?thesis using assms by (simp add: offer_ticket_def split: option.splits media_path.splits)
qed

text \<open>A step that changes one connection and replaces one task of its own by others of its own.\<close>

lemma attach_inv_tasks:
  assumes "attach_inv st" and "as_conns st c = Some k"
    and "as_conns st' = (as_conns st)(c \<mapsto> k')" and "ac_fp k' = ac_fp k" and "ac_ip k' = ac_ip k"
    and "as_tasks st' = new @ (case old of None \<Rightarrow> as_tasks st | Some t \<Rightarrow> remove1 t (as_tasks st))"
    and "\<And>t d. t \<in> set new \<Longrightarrow> holds_claim d t \<Longrightarrow> d = c"
    and "\<And>t. old = Some t \<Longrightarrow> t \<in> set (as_tasks st) \<and> (\<forall>d. holds_claim d t \<longrightarrow> d = c)"
    and "conn_ok (as_tasks st') c (Some k')"
    and "\<And>fp d. as_table st' fp = Some d \<Longrightarrow> as_table st fp = Some d" and "as_minted st' = as_minted st"
    and "mset (map fst (as_accepted st')) + mset (as_tickets st') \<subseteq># mset (as_minted st)"
    and "\<forall>(t, c', ip, now) \<in> set (as_accepted st'). (t, c', ip, now) \<in> set (as_accepted st) \<or>
      c' = c \<and> now < mt_expires t \<and> ac_fp k = mt_fp t \<and> ac_ip k = ip"
  shows "attach_inv st'"
proof (rule attach_inv_conn [OF assms(1-5) _ assms(9-13)])
  fix d
  assume d: "d \<noteq> c"
  have none: "holders d new = 0 \<and> (\<forall>l. Serving d l \<notin> set new)"
    using assms(7) d by (fastforce simp: holders_def filter_empty_conv)
  have app: "holders d (new @ ts) = holders d new + holders d ts" for ts by (simp add: holders_def)
  show "holders d (as_tasks st') = holders d (as_tasks st) \<and> (\<forall>l. Serving d l \<in> set (as_tasks st') \<longleftrightarrow> Serving d l \<in> set (as_tasks st))"
  proof (cases old)
    case (Some t)
    have t: "t \<in> set (as_tasks st)" "\<And>d. holds_claim d t \<Longrightarrow> d = c" using assms(8) [OF Some] by auto
    then have "t \<noteq> Serving d l" for l using d by auto
    from task_of_conn [OF t d this] none show ?thesis by (simp add: assms(6) Some app)
  qed (use none in \<open>simp add: assms(6) app\<close>)
qed

lemma spent_inv:
  assumes "attach_inv st" and "claim_ticket dec now b64 (as_tickets st) = (r, ts)"
  shows "attach_inv (st\<lparr>as_tickets := ts\<rparr>)"
    and "r = Some t \<Longrightarrow> mset (map fst (as_accepted st)) + {#t#} + mset ts \<subseteq># mset (as_minted st)"
proof -
  have "mset (map fst (as_accepted st)) + (mset ts + (case r of None \<Rightarrow> {#} | Some t \<Rightarrow> {#t#})) \<subseteq># mset (as_minted st)"
    using accepted_inv [OF assms(1)] claim_ticket_spends(1) [OF assms(2)]
      subset_mset.add_left_mono subset_mset.order_trans by blast
  then have all: "mset (map fst (as_accepted st)) + mset ts + (case r of None \<Rightarrow> {#} | Some t \<Rightarrow> {#t#}) \<subseteq># mset (as_minted st)"
    by (simp only: add.assoc)
  then show "mset (map fst (as_accepted st)) + {#t#} + mset ts \<subseteq># mset (as_minted st)" if "r = Some t"
    using that by (simp add: ac_simps)
  have "mset (map fst (as_accepted st)) + mset ts \<subseteq># mset (as_minted st)"
    using all subset_mset.order_trans mset_subset_eq_add_left by blast
  then show "attach_inv (st\<lparr>as_tickets := ts\<rparr>)" using assms(1) by (simp add: attach_inv_def)
qed

lemma claim_holder:
  assumes "attach_inv st" and "t \<in> set (as_tasks st)" and "holds_claim c t"
  obtains k where "as_conns st c = Some k" and "ac_claimed k" and "holders c (remove1 t (as_tasks st)) = 0"
    and "\<And>l. ac_path k = MpTcp l \<longleftrightarrow> Serving c l \<in> set (as_tasks st)"
proof -
  have pos: "holders c (as_tasks st) = Suc (holders c (remove1 t (as_tasks st)))" using holders_remove1 [OF assms(2), of c] assms(3) by simp
  have ok: "conn_ok (as_tasks st) c (as_conns st c)" using assms(1) by (simp add: attach_inv_def)
  then obtain k where "as_conns st c = Some k" using pos by (cases "as_conns st c") (auto simp: conn_ok_def)
  with ok pos that show ?thesis by (auto simp: conn_ok_def split: if_splits)
qed

lemma no_serving: "holders c ts = 0 \<Longrightarrow> Serving c l \<notin> set ts"
  using holders_0 [of c ts "Serving c l"] by auto

lemma unclaimed_conn:
  assumes "attach_inv st" and "as_conns st c = Some k" and "\<not> ac_claimed k"
  shows "holders c (as_tasks st) = 0" and "ac_path k \<noteq> MpTcp l"
  using conn_okD [OF assms(1,2)] assms(3) no_serving [of c "as_tasks st" l] by (auto simp: conn_ok_def)

lemma same_accepted: "\<forall>(t, c', ip, now) \<in> set (as_accepted st). (t, c', ip, now) \<in> set (as_accepted st) \<or> P t c' ip now"
  by auto

lemma task_step_inv:
  assumes "attach_inv st" and "t \<in> set (as_tasks st)" and "holds_claim c t" and "\<And>d. holds_claim d t \<Longrightarrow> d = c"
    and "\<And>k. as_conns st c = Some k \<Longrightarrow> as_conns st' = (as_conns st)(c \<mapsto> f k)"
    and "\<And>k. as_conns st c = Some k \<Longrightarrow> ac_fp (f k) = ac_fp k \<and> ac_ip (f k) = ac_ip k"
    and "as_tasks st' = new @ remove1 t (as_tasks st)" and "\<And>u d. u \<in> set new \<Longrightarrow> holds_claim d u \<Longrightarrow> d = c"
    and "\<And>k. as_conns st c = Some k \<Longrightarrow> ac_claimed k \<Longrightarrow> (\<And>l. ac_path k = MpTcp l \<longleftrightarrow> t = Serving c l) \<Longrightarrow>
      holders c new = (if ac_claimed (f k) then 1 else 0) \<and> (\<forall>l. ac_path (f k) = MpTcp l \<longleftrightarrow> Serving c l \<in> set new)"
    and "as_table st' = as_table st" and "as_minted st' = as_minted st" and "as_tickets st' = as_tickets st" and "as_accepted st' = as_accepted st"
  shows "attach_inv st'"
proof -
  obtain k where k: "as_conns st c = Some k" "ac_claimed k" "holders c (remove1 t (as_tasks st)) = 0"
    and path: "\<And>l. ac_path k = MpTcp l \<longleftrightarrow> Serving c l \<in> set (as_tasks st)"
    using claim_holder [OF assms(1-3)] by metis
  have tcp: "ac_path k = MpTcp l \<longleftrightarrow> t = Serving c l" for l
    using path [of l] assms(2) no_serving [OF k(3), of l] serving_remove1 [of t c l "as_tasks st"] by metis
  have app: "holders c (new @ ts) = holders c new + holders c ts" for ts by (simp add: holders_def)
  have ok: "conn_ok (as_tasks st') c (Some (f k))"
    using assms(9) [OF k(1,2) tcp] k(3) no_serving [OF k(3)] by (simp add: conn_ok_def assms(7) app)
  show ?thesis
    by (rule attach_inv_tasks [OF assms(1) k(1) assms(5) [OF k(1)], where old = "Some t" and new = new])
      (use assms(2,4,6-8,10-13) k(1) ok accepted_inv [OF assms(1)] in auto)
qed

lemma dead_conn_inv:
  assumes "attach_inv st" and "\<And>fp d. as_table st' fp = Some d \<Longrightarrow> as_table st fp = Some d"
    and "as_conns st' = as_conns (on_conn c (\<lambda>k. k\<lparr>ac_alive := False\<rparr>) st)" and "as_tasks st' = as_tasks st"
    and "as_minted st' = as_minted st" and "as_tickets st' = as_tickets st" and "as_accepted st' = as_accepted st"
  shows "attach_inv st'"
proof (cases "as_conns st c")
  case (Some k)
  have ok: "conn_ok (as_tasks st) c (Some (k\<lparr>ac_alive := False\<rparr>))" using conn_okD [OF assms(1) Some] by (simp add: conn_ok_def)
  have conns: "as_conns st' = (as_conns st)(c \<mapsto> k\<lparr>ac_alive := False\<rparr>)" by (rule ext) (simp add: assms(3) Some)
  show ?thesis
    by (rule attach_inv_tasks [OF assms(1) Some conns, where old = None and new = "[]"])
      (use ok accepted_inv [OF assms(1)] assms(2,4-7) in auto)
next
  case None
  then have "as_conns st' = as_conns st" by (intro ext) (simp add: assms(3))
  then show ?thesis using assms(1,2,4-7) by (simp add: attach_inv_def)
qed

lemma replace_conn_inv: "attach_inv st \<Longrightarrow> attach_inv (replace_conn fp st)"
  by (auto simp: replace_conn_def split: option.splits intro: dead_conn_inv)

lemma conn_up_inv:
  assumes inv: "attach_inv st"
  shows "attach_inv (attach_step dec enc (ConnUp c fp ip port dialled path) st)"
proof (cases "as_conns st c \<noteq> None \<or> (case path of MpTcp _ \<Rightarrow> True | _ \<Rightarrow> False)")
  case True
  then show ?thesis using inv by auto
next
  case False
  let ?s = "replace_conn fp st"
  have assms: "attach_inv ?s" by (rule replace_conn_inv [OF inv])
  from False have new: "as_conns ?s c = None" and path: "\<And>l. path \<noteq> MpTcp l"
    by (auto simp: replace_conn_def split: media_path.splits option.splits)
  have ok: "conn_ok (as_tasks ?s) d (as_conns ?s d)" for d using assms by (simp add: attach_inv_def)
  have h: "holders c (as_tasks ?s) = 0" using ok [of c] by (simp add: new conn_ok_def)
  let ?k = "\<lparr>ac_fp = fp, ac_ip = ip, ac_port = port, ac_we_dialled = dialled, ac_alive = True, ac_path = path, ac_claimed = False, ac_attaching = False\<rparr>"
  have "Serving c l \<notin> set (as_tasks ?s)" for l using holders_0 [OF h, of "Serving c l"] by auto
  then have "conn_ok (as_tasks ?s) c (Some ?k)" using h path by (simp add: conn_ok_def)
  moreover have "\<forall>(t, c', ip', now) \<in> set (as_accepted ?s). c' \<noteq> c" using assms new by (auto simp: attach_inv_def)
  ultimately have parts: "conn_ok (as_tasks ?s) c (Some ?k)" "\<forall>(t, c', ip', now) \<in> set (as_accepted ?s). c' \<noteq> c" .
  let ?st = "?s\<lparr>as_conns := (as_conns ?s)(c \<mapsto> ?k), as_table := (as_table ?s)(fp \<mapsto> c)\<rparr>"
  have "attach_inv ?st"
    unfolding attach_inv_def
  proof (intro conjI allI impI)
    show "conn_ok (as_tasks ?st) d (as_conns ?st d)" for d using ok [of d] parts(1) by simp
    show "\<exists>k. as_conns ?st d = Some k \<and> ac_fp k = fp'" if "as_table ?st fp' = Some d" for fp' d
    proof (cases "fp' = fp")
      case False
      with that have "as_table ?s fp' = Some d" by simp
      with assms obtain k where "as_conns ?s d = Some k" "ac_fp k = fp'" unfolding attach_inv_def by metis
      then show ?thesis using new by (cases "d = c") auto
    qed (use that in simp)
    show "mset (map fst (as_accepted ?st)) + mset (as_tickets ?st) \<subseteq># mset (as_minted ?st)" using accepted_inv [OF assms] by simp
    have "\<forall>(t, c', ip, now) \<in> set (as_accepted ?s). now < mt_expires t \<and> (\<exists>k. as_conns ?s c' = Some k \<and> ac_fp k = mt_fp t \<and> ac_ip k = ip)"
      using assms by (simp add: attach_inv_def)
    with parts(2) show "\<forall>(t, c', ip, now) \<in> set (as_accepted ?st). now < mt_expires t \<and> (\<exists>k. as_conns ?st c' = Some k \<and> ac_fp k = mt_fp t \<and> ac_ip k = ip)"
      by fastforce
  qed
  moreover have "attach_step dec enc (ConnUp c fp ip port dialled path) st = ?st" using False by (simp add: Let_def del: not_None_eq)
  ultimately show ?thesis by simp
qed

lemma attach_step_inv:
  assumes inv: "attach_inv st"
  shows "attach_inv (attach_step dec enc a st)"
proof (cases a)
  case (ConnUp c fp ip port dialled path)
  then show ?thesis using conn_up_inv [OF inv] by simp
next
  case (ConnDown c)
  show ?thesis
    by (rule dead_conn_inv [OF inv, where c = c])
      (use inv in \<open>auto simp: ConnDown on_conn_def fun_eq_iff split: option.splits if_splits\<close>)
next
  case (Offer now c rnd)
  then show ?thesis using offer_inv [OF inv] by simp
next
  case (Request tier now c rnd)
  have "attach_inv (st\<lparr>as_sent := x\<rparr>)" for x using inv by (simp add: attach_inv_def)
  then show ?thesis using offer_inv [OF inv] by (simp add: Request on_request_def)
next
  case (TicketArrives tier c b64)
  show ?thesis
  proof (cases "as_conns st c")
    case (Some k)
    have ok: "conn_ok (Dialing c b64 # as_tasks st) c (Some (k\<lparr>ac_attaching := True\<rparr>))" using conn_okD [OF inv Some] by (simp add: conn_ok_def)
    have "attach_inv ((on_conn c (\<lambda>k. k\<lparr>ac_attaching := True\<rparr>) st)\<lparr>as_tasks := Dialing c b64 # as_tasks st\<rparr>)"
      by (rule attach_inv_tasks [OF inv Some, where old = None and new = "[Dialing c b64]" and k' = "k\<lparr>ac_attaching := True\<rparr>"])
        (use ok accepted_inv [OF inv] Some in auto)
    then show ?thesis using inv by (simp add: TicketArrives on_ticket_def Some)
  qed (use inv in \<open>simp add: TicketArrives on_ticket_def\<close>)
next
  case (Inbound now peer_ip b64 acked)
  obtain r ts where spent: "claim_ticket dec now b64 (as_tickets st) = (r, ts)" by fastforce
  note sp = spent_inv [OF inv spent]
  show ?thesis
  proof (cases "\<exists>c st1. attach_claim dec now peer_ip b64 st = (Inr c, st1)")
    case False
    then have "snd (attach_claim dec now peer_ip b64 st) = st\<lparr>as_tickets := ts\<rparr>"
      by (auto simp: attach_claim_def spent Let_def split: option.splits prod.splits if_splits)
    moreover obtain e where "fst (attach_claim dec now peer_ip b64 st) = Inl e" using False by (metis prod.collapse sum.exhaust)
    ultimately show ?thesis using sp(1) by (cases "attach_claim dec now peer_ip b64 st") (simp add: Inbound)
  next
    case True
    then obtain c st1 where cl: "attach_claim dec now peer_ip b64 st = (Inr c, st1)" by blast
    then obtain t k where t: "r = Some t" and k: "as_table st (mt_fp t) = Some c" "as_conns st c = Some k" "\<not> ac_claimed k"
      and ip: "peer_ip = Some (ac_ip k)"
      and st1: "st1 = (on_conn c (\<lambda>_. k\<lparr>ac_claimed := True\<rparr>) (st\<lparr>as_tickets := ts\<rparr>))\<lparr>as_accepted := as_accepted st @ [(t, c, ac_ip k, now)]\<rparr>"
      by (auto simp: attach_claim_def spent Let_def claim_take_Some split: option.splits prod.splits if_splits bind_splits)
    have fp: "ac_fp k = mt_fp t" using inv k(1,2) unfolding attach_inv_def by force
    have live: "now < mt_expires t" using claim_ticket_spends(2) [OF spent t] by simp
    note free = unclaimed_conn [OF inv k(2,3)]
    have ms: "mset (map fst (as_accepted st @ [(t, c, ac_ip k, now)])) + mset ts \<subseteq># mset (as_minted st)"
      using sp(2) [OF t] by simp
    show ?thesis
    proof (cases acked)
      case True
      have ok: "conn_ok (Installing c False # as_tasks st) c (Some (k\<lparr>ac_claimed := True\<rparr>))"
        using free no_serving [OF free(1)] by (simp add: conn_ok_def)
      have "attach_inv (st1\<lparr>as_tasks := Installing c False # as_tasks st1\<rparr>)"
        by (rule attach_inv_tasks [OF inv k(2), where old = None and new = "[Installing c False]" and k' = "k\<lparr>ac_claimed := True\<rparr>"])
          (use ok k(2) fp live ms in \<open>auto simp: st1\<close>)
      then show ?thesis using True by (simp add: Inbound cl)
    next
      case False
      have ok: "conn_ok (as_tasks st) c (Some (claim_drop (k\<lparr>ac_claimed := True\<rparr>)))"
        using free no_serving [OF free(1)] by (simp add: conn_ok_def)
      have "attach_inv (on_conn c claim_drop st1)"
        by (rule attach_inv_tasks [OF inv k(2), where old = None and new = "[]" and k' = "claim_drop (k\<lparr>ac_claimed := True\<rparr>)"])
          (use ok k(2) fp live ms in \<open>auto simp: st1 on_conn_def\<close>)
      then show ?thesis using False by (simp add: Inbound cl)
    qed
  qed
next
  case (DialStart c b64)
  show ?thesis
  proof (cases "Dialing c b64 \<in> set (as_tasks st)")
    case t: True
    show ?thesis
    proof (cases "as_conns st c")
      case (Some k)
      have same: "holders c (remove1 (Dialing c b64) (as_tasks st)) = holders c (as_tasks st)" using holders_remove1 [OF t, of c] by simp
      have serv: "Serving c l \<in> set (remove1 (Dialing c b64) (as_tasks st)) \<longleftrightarrow> Serving c l \<in> set (as_tasks st)" for l
        by (rule serving_remove1) simp
      let ?st = "end_task (Dialing c b64) st"
      have ok: "conn_ok (as_tasks ?st) c (Some (dial_failed k))" using conn_okD [OF inv Some] by (simp add: conn_ok_def same serv)
      have fail: "attach_inv (on_conn c dial_failed ?st)"
        by (rule attach_inv_tasks [OF inv Some, where old = "Some (Dialing c b64)" and new = "[]" and k' = "dial_failed k"])
          (use ok t Some accepted_inv [OF inv] in auto)
      have go: "attach_inv ((on_conn c (\<lambda>_. k\<lparr>ac_claimed := True\<rparr>) ?st)\<lparr>as_tasks := Connecting c # as_tasks ?st\<rparr>)" if "\<not> ac_claimed k"
      proof -
        have ok': "conn_ok (Connecting c # as_tasks ?st) c (Some (k\<lparr>ac_claimed := True\<rparr>))"
          using conn_okD [OF inv Some] that by (simp add: conn_ok_def same serv)
        show ?thesis
          by (rule attach_inv_tasks [OF inv Some, where old = "Some (Dialing c b64)" and new = "[Connecting c]" and k' = "k\<lparr>ac_claimed := True\<rparr>"])
            (use ok' t Some accepted_inv [OF inv] in auto)
      qed
      show ?thesis using t fail go by (simp add: DialStart dial_start_def Some claim_take_def Let_def)
    qed (use inv in \<open>simp add: DialStart dial_start_def\<close>)
  qed (use inv in \<open>simp add: DialStart\<close>)
next
  case (DialAnswer ok c)
  show ?thesis
  proof (cases "Connecting c \<in> set (as_tasks st)")
    case t: True
    let ?f = "if ok then id else (\<lambda>k. dial_failed (claim_drop k))"
    have "attach_inv (dial_answer ok c st)"
      by (rule task_step_inv [OF inv t, where c = c and f = ?f and new = "if ok then [Installing c True] else []"])
        (use t in \<open>auto simp: dial_answer_def Let_def fun_upd_idem on_conn_def end_task_def dest: claim_holder [OF inv t] split: if_splits\<close>)
    then show ?thesis using t by (simp add: DialAnswer)
  qed (use inv in \<open>simp add: DialAnswer\<close>)
next
  case (Install link c dialled)
  show ?thesis
  proof (cases "Installing c dialled \<in> set (as_tasks st)")
    case t: True
    let ?f = "case link of None \<Rightarrow> (\<lambda>k. if dialled then dial_failed (claim_drop k) else claim_drop k) | Some l \<Rightarrow> (\<lambda>k. k\<lparr>ac_path := MpTcp l\<rparr>)"
    have "attach_inv (serve_install link c dialled st)"
      by (rule task_step_inv [OF inv t, where c = c and f = ?f and new = "case link of None \<Rightarrow> [] | Some l \<Rightarrow> [Serving c l]"])
        (use t in \<open>auto simp: serve_install_def Let_def on_conn_def end_task_def split: option.splits if_splits\<close>)
    then show ?thesis using t by (simp add: Install)
  qed (use inv in \<open>simp add: Install\<close>)
next
  case (ServeEnd shutdown c l)
  show ?thesis
  proof (cases "Serving c l \<in> set (as_tasks st)")
    case t: True
    let ?f = "\<lambda>k. claim_drop (k\<lparr>ac_path := MpUdp (ac_ip k, ac_port k), ac_attaching := False, ac_alive := (if shutdown then ac_alive k else False)\<rparr>)"
    have "attach_inv (serve_end shutdown c l st)"
      by (rule task_step_inv [OF inv t, where c = c and f = ?f and new = "[]"])
        (use t in \<open>auto simp: serve_end_def on_conn_def end_task_def\<close>)
    then show ?thesis using t by (simp add: ServeEnd)
  qed (use inv in \<open>simp add: ServeEnd\<close>)
qed

interpretation attach_run: state_machine "attach_step dec enc" attach_inv for dec enc
  by unfold_locales (rule attach_step_inv)

lemma attach_new_inv: "attach_inv attach_new"
  by (simp add: attach_inv_def attach_new_def conn_ok_def)

lemma holders_pos: "0 < holders c ts \<longleftrightarrow> (\<exists>t \<in> set ts. holds_claim c t)"
  by (induction ts) auto

lemma holders_one:
  assumes "holders c ts \<le> 1" and "t \<in> set ts" and "u \<in> set ts" and "holds_claim c t" and "holds_claim c u"
  shows "t = u"
proof (rule ccontr)
  assume "t \<noteq> u"
  then have "u \<in> set (remove1 t ts)" using assms(3) by simp
  then have "0 < holders c (remove1 t ts)" using assms(5) holders_pos by blast
  then show False using holders_remove1 [OF assms(2), of c] assms(1,4) by simp
qed

text \<open>
  C18. At most one media link per connection: whatever requests, tickets, dials and inbound attachments
  run next to each other, at most one task at a time holds the connection's latch, the media path names
  a link exactly while that link is being served, and the latch is never left held by nobody.
\<close>

theorem one_link_per_connection:
  assumes "st = fold (attach_step dec enc) es attach_new" and "as_conns st c = Some k"
  shows "(\<forall>t \<in> set (as_tasks st). \<forall>u \<in> set (as_tasks st). holds_claim c t \<and> holds_claim c u \<longrightarrow> t = u) \<and>
    (\<forall>l. ac_path k = MpTcp l \<longleftrightarrow> Serving c l \<in> set (as_tasks st)) \<and>
    (ac_claimed k \<longleftrightarrow> (\<exists>t \<in> set (as_tasks st). holds_claim c t))"
proof -
  have "attach_inv st" using attach_run.run_inv [OF attach_new_inv] assms(1) by simp
  then have ok: "conn_ok (as_tasks st) c (Some k)" using conn_okD assms(2) by blast
  then have "holders c (as_tasks st) \<le> 1" and "ac_claimed k \<longleftrightarrow> 0 < holders c (as_tasks st)" by (auto simp: conn_ok_def)
  then show ?thesis using ok holders_one [of c "as_tasks st"] by (auto simp: conn_ok_def holders_pos)
qed

text \<open>
  C19. An inbound attachment is admitted only for a ticket: every one admitted spent a ticket that this
  machine minted for the fingerprint of that connection and that had not expired, came from the address
  the control handshake proved, and no ticket admits two.
\<close>

theorem attachment_spends_a_ticket:
  assumes "st = fold (attach_step dec enc) es attach_new"
  shows "mset (map fst (as_accepted st)) \<subseteq># mset (as_minted st) \<and>
    (\<forall>(t, c, ip, now) \<in> set (as_accepted st). now < mt_expires t \<and>
       (\<exists>k. as_conns st c = Some k \<and> ac_fp k = mt_fp t \<and> ac_ip k = ip))"
proof -
  have inv: "attach_inv st" using attach_run.run_inv [OF attach_new_inv] assms by simp
  have "mset (map fst (as_accepted st)) \<subseteq># mset (as_minted st)"
    using accepted_inv [OF inv] subset_mset.order_trans mset_subset_eq_add_left by blast
  with inv show ?thesis by (simp add: attach_inv_def)
qed

definition zero_ticket :: bytes where
  "zero_ticket = replicate 32 0"

definition demo_attach :: "attach_event list" where
  "demo_attach = [ConnUp 0 ''ab'' 7 9000 False (MpUdp (7, 9000)), Offer 5 0 zero_ticket, Inbound 6 (Some 7) ''x'' True, Install (Some 3) 0 False]"

lemma demo_attach_ends:
  "as_tasks (fold (attach_step (\<lambda>_. Some zero_ticket) (\<lambda>_. ''x'')) demo_attach attach_new) = [Serving 0 3] \<and>
   map (fst \<circ> snd) (as_accepted (fold (attach_step (\<lambda>_. Some zero_ticket) (\<lambda>_. ''x'')) demo_attach attach_new)) = [0] \<and>
   as_conns (fold (attach_step (\<lambda>_. Some zero_ticket) (\<lambda>_. ''x'')) demo_attach attach_new) 0 \<noteq> None"
  by (simp add: demo_attach_def replace_conn_def attach_new_def offer_ticket_def mint_ticket_def live_tickets_def new_ticket_def attach_claim_def
      claim_ticket_def TICKET_LEN_def TICKET_TTL_def zero_ticket_def Let_def swap_remove_def claim_take_def on_conn_def
      serve_install_def end_task_def)

theorem one_link_per_connection_witness:
  "\<exists>st k. st = fold (attach_step (\<lambda>_. Some zero_ticket) (\<lambda>_. ''x'')) demo_attach attach_new \<and> as_conns st 0 = Some k \<and>
     ac_path k = MpTcp 3 \<and> ac_claimed k"
proof -
  let ?st = "fold (attach_step (\<lambda>_. Some zero_ticket) (\<lambda>_. ''x'')) demo_attach attach_new"
  note ends = demo_attach_ends
  then obtain k where k: "as_conns ?st 0 = Some k" by blast
  from one_link_per_connection [OF refl k] ends have "ac_path k = MpTcp 3" "ac_claimed k" by simp_all
  with k show ?thesis by blast
qed

theorem attachment_spends_a_ticket_witness:
  "\<exists>st t. st = fold (attach_step (\<lambda>_. Some zero_ticket) (\<lambda>_. ''x'')) demo_attach attach_new \<and>
     t \<in> set (as_minted st) \<and> t \<in> fst ` set (as_accepted st)"
proof -
  let ?st = "fold (attach_step (\<lambda>_. Some zero_ticket) (\<lambda>_. ''x'')) demo_attach attach_new"
  have "as_accepted ?st \<noteq> []" using demo_attach_ends by auto
  then obtain t where t: "t \<in> set (map fst (as_accepted ?st))" by (cases "as_accepted ?st") auto
  have "mset (map fst (as_accepted ?st)) \<subseteq># mset (as_minted ?st)" using attachment_spends_a_ticket [OF refl] by blast
  then have "t \<in> set (as_minted ?st)" using t by (metis mset_subset_eqD set_mset_mset)
  with t show ?thesis by auto
qed



text \<open>Messages that arrive while the ticket is awaited are parked in order, none lost, until the wait ends.\<close>

definition parked_of :: "(pump_view \<times> 'm pumped) list \<Rightarrow> 'm list" where
  "parked_of ps = concat (map (\<lambda>(_, p). case p of PumpOther m \<Rightarrow> [m] | _ \<Rightarrow> []) ps)"

lemma pump_parks_in_order:
  "pump_for_ticket deadline ps = (r, ms) \<Longrightarrow>
   \<exists>n \<le> length ps. ms = parked_of (take n ps) \<and> (r = None \<longleftrightarrow> n = length ps) \<and> list_all (\<lambda>(v, _). pv_now v < deadline) (take n ps)"
proof (induction ps arbitrary: ms)
  case (Cons x ps)
  obtain v p where x: "x = (v, p)" by (cases x)
  obtain r' ms' where rec: "pump_for_ticket deadline ps = (r', ms')" by fastforce
  show ?case
  proof (cases "deadline \<le> pv_now v \<or> pv_attached v \<or> pv_stop v \<or> \<not> ((\<exists>m. p = PumpOther m) \<or> p = PumpNothing)")
    case True
    with Cons.prems have "r \<noteq> None" "ms = []" by (auto simp: x split: if_splits pumped.splits)
    then show ?thesis by (intro exI [of _ 0]) (simp add: parked_of_def)
  next
    case False
    with Cons.prems rec have "r = r'" "ms = parked_of [x] @ ms'" by (auto simp: x parked_of_def split: if_splits)
    moreover obtain n where "n \<le> length ps" "ms' = parked_of (take n ps)" "r' = None \<longleftrightarrow> n = length ps" "list_all (\<lambda>(v, _). pv_now v < deadline) (take n ps)"
      using Cons.IH rec \<open>r = r'\<close> by blast
    ultimately show ?thesis using False by (intro exI [of _ "Suc n"]) (auto simp: x parked_of_def)
  qed
qed (simp add: parked_of_def)

end
