(* ===== verification/SpatialMedia.thy ===== *)
theory SpatialMedia
  imports Ladder Utf8
begin

text \<open>
  Spatial audio on the wire (core/audiohub-net/src/spatial_media.rs): a frame of 480 samples per channel
  is cut into fragments that fit one datagram, and put together again by a reassembler that keeps at most
  two frames, gives up frames in order and says what it had to conceal. Samples are 32-bit floating-point
  numbers, kept as the words that carry them.
\<close>

section \<open>Layouts and fragments\<close>

datatype speaker_layout = Surround51 | Surround71 | Immersive714

fun layout_channels :: "speaker_layout \<Rightarrow> nat" where
  "layout_channels Surround51 = 6"
| "layout_channels Surround71 = 8"
| "layout_channels Immersive714 = 12"

definition SPATIAL_VERSION :: u8 where
  "SPATIAL_VERSION = 1"

definition FRAME_FRAMES :: nat where
  "FRAME_FRAMES = 480"

definition FRAGMENT_HEADER_LEN :: nat where
  "FRAGMENT_HEADER_LEN = 12"

definition SAMPLE_BYTES :: nat where
  "SAMPLE_BYTES = 4"

definition frames_per_part :: "speaker_layout \<Rightarrow> nat" where
  "frames_per_part l = (SINGLE_PACKET_PAYLOAD_MAX - FRAGMENT_HEADER_LEN) div (layout_channels l * SAMPLE_BYTES)"

definition fragment_count :: "speaker_layout \<Rightarrow> nat" where
  "fragment_count l = (FRAME_FRAMES + frames_per_part l - 1) div frames_per_part l"

text \<open>A number is finite unless all bits of its exponent are set.\<close>

definition is_finite :: "u32 \<Rightarrow> bool" where
  "is_finite w \<longleftrightarrow> w AND 0x7F800000 \<noteq> 0x7F800000"

datatype spatial_error = BadSampleCount | NonFinite | BadPart | TooShort | TooLong | BadVersion | BadReserved | BadPartCount | Misaligned | BadLength

definition encode_fragment :: "speaker_layout \<Rightarrow> u64 \<Rightarrow> nat \<Rightarrow> u32 list \<Rightarrow> spatial_error + bytes" where
  "encode_fragment l frame_seq part samples =
     (let channels = layout_channels l; expected = FRAME_FRAMES * channels in
      if length samples \<noteq> expected then Inl BadSampleCount
      else if list_ex (\<lambda>s. \<not> is_finite s) samples then Inl NonFinite
      else if fragment_count l \<le> part then Inl BadPart
      else
        let start = part * frames_per_part l * channels; stop = min ((part + 1) * frames_per_part l * channels) expected in
        Inr ([SPATIAL_VERSION, of_nat part, of_nat (fragment_count l), 0] @ le_bytes 8 frame_seq @
             concat (map (le_bytes 4) (byte_slice start stop samples))))"

record parsed_fragment =
  pf_seq :: u64
  pf_part :: nat
  pf_samples :: "u32 list"

definition parse_fragment :: "speaker_layout \<Rightarrow> bytes \<Rightarrow> spatial_error + parsed_fragment" where
  "parse_fragment l pt =
     (if length pt < FRAGMENT_HEADER_LEN then Inl TooShort
      else if SINGLE_PACKET_PAYLOAD_MAX < length pt then Inl TooLong
      else if pt ! 0 \<noteq> SPATIAL_VERSION then Inl BadVersion
      else if pt ! 3 \<noteq> 0 then Inl BadReserved
      else
        let part = unat (pt ! 1); count = unat (pt ! 2); frame_bytes = layout_channels l * SAMPLE_BYTES;
            payload = drop FRAGMENT_HEADER_LEN pt in
        if count \<noteq> fragment_count l then Inl BadPartCount
        else if count \<le> part then Inl BadPart
        else if length payload mod frame_bytes \<noteq> 0 then Inl Misaligned
        else
          let expected = min (frames_per_part l) (FRAME_FRAMES - part * frames_per_part l) in
          if length payload \<noteq> expected * frame_bytes then Inl BadLength
          else
            let samples = map of_le (chunks SAMPLE_BYTES payload) in
            if list_ex (\<lambda>s. \<not> is_finite s) samples then Inl NonFinite
            else Inr \<lparr>pf_seq = of_le (byte_slice 4 FRAGMENT_HEADER_LEN pt), pf_part = part, pf_samples = samples\<rparr>)"

section \<open>The reassembler\<close>

record pending_frame =
  pd_seq :: u64
  pd_samples :: "u32 list"
  pd_received :: "bool list"
  pd_count :: nat
  pd_frames :: nat

record reassembled_frame =
  rf_seq :: u64
  rf_samples :: "u32 list"
  rf_concealed_fragments :: nat
  rf_concealed_frames :: nat

definition requires_whole_frame_concealment :: "reassembled_frame \<Rightarrow> bool" where
  "requires_whole_frame_concealment f \<longleftrightarrow> FRAME_FRAMES div 2 < rf_concealed_frames f"

datatype sequence_cursor = Uninitialized | Next u64 | Exhausted

record reassembler =
  ra_layout :: speaker_layout
  ra_cursor :: sequence_cursor
  ra_pending :: "pending_frame list"

definition reassembler_new :: "speaker_layout \<Rightarrow> reassembler" where
  "reassembler_new l = \<lparr>ra_layout = l, ra_cursor = Uninitialized, ra_pending = []\<rparr>"

definition pending_new :: "speaker_layout \<Rightarrow> u64 \<Rightarrow> pending_frame" where
  "pending_new l s = \<lparr>pd_seq = s, pd_samples = replicate (FRAME_FRAMES * layout_channels l) 0,
     pd_received = replicate (fragment_count l) False, pd_count = 0, pd_frames = 0\<rparr>"

text \<open>Writing a slice in place; the code panics when it does not fit.\<close>

definition splice_at :: "nat \<Rightarrow> 'a list \<Rightarrow> 'a list \<Rightarrow> 'a list" where
  "splice_at start ys xs = take start xs @ ys @ drop (start + length ys) xs"

definition pending_accept :: "speaker_layout \<Rightarrow> nat \<Rightarrow> u32 list \<Rightarrow> pending_frame \<Rightarrow> pending_frame" where
  "pending_accept l part samples p =
     (if pd_received p ! part then p
      else p\<lparr>pd_samples := splice_at (part * frames_per_part l * layout_channels l) samples (pd_samples p),
             pd_received := (pd_received p)[part := True], pd_count := pd_count p + 1,
             pd_frames := pd_frames p + length samples div layout_channels l\<rparr>)"

definition pending_complete :: "pending_frame \<Rightarrow> bool" where
  "pending_complete p \<longleftrightarrow> pd_count p = length (pd_received p)"

definition pending_finish :: "pending_frame \<Rightarrow> reassembled_frame" where
  "pending_finish p = \<lparr>rf_seq = pd_seq p, rf_samples = pd_samples p,
     rf_concealed_fragments = length (pd_received p) - pd_count p, rf_concealed_frames = FRAME_FRAMES - pd_frames p\<rparr>"

text \<open>The cursor past a sequence number; there is none past the last.\<close>

definition cursor_after :: "u64 \<Rightarrow> sequence_cursor" where
  "cursor_after s = (if s = - 1 then Exhausted else Next (s + 1))"

fun drain_ready :: "sequence_cursor \<Rightarrow> pending_frame list \<Rightarrow> sequence_cursor \<times> pending_frame list \<times> reassembled_frame list" where
  "drain_ready c [] = (c, [], [])"
| "drain_ready c (p # ps) =
     (case c of
        Next s \<Rightarrow>
          if pd_seq p \<noteq> s \<or> \<not> pending_complete p then (c, p # ps, [])
          else (case drain_ready (cursor_after s) ps of (c', ps', out) \<Rightarrow> (c', ps', pending_finish p # out))
      | _ \<Rightarrow> (c, p # ps, []))"

text \<open>The first pending frame of a sequence number, and the ordered insertion of a new one.\<close>

fun retire :: "u64 \<Rightarrow> pending_frame list \<Rightarrow> pending_frame list \<times> reassembled_frame list" where
  "retire s [] = ([], [])"
| "retire s (p # ps) =
     (if pd_seq p = s then (ps, [pending_finish p]) else (case retire s ps of (ps', out) \<Rightarrow> (p # ps', out)))"

fun accept_into :: "speaker_layout \<Rightarrow> parsed_fragment \<Rightarrow> pending_frame list \<Rightarrow> pending_frame list" where
  "accept_into l f [] = [pending_accept l (pf_part f) (pf_samples f) (pending_new l (pf_seq f))]"
| "accept_into l f (p # ps) =
     (if pd_seq p = pf_seq f then pending_accept l (pf_part f) (pf_samples f) p # ps
      else if pf_seq f < pd_seq p then pending_accept l (pf_part f) (pf_samples f) (pending_new l (pf_seq f)) # p # ps
      else p # accept_into l f ps)"

definition ra_accept :: "parsed_fragment \<Rightarrow> sequence_cursor \<Rightarrow> pending_frame list \<Rightarrow> reassembled_frame list \<Rightarrow> reassembler \<Rightarrow>
    reassembled_frame list \<times> reassembler" where
  "ra_accept f c ps out r =
     (case drain_ready c (accept_into (ra_layout r) f ps) of
        (c', ps', out') \<Rightarrow> (out @ out', r\<lparr>ra_cursor := c', ra_pending := ps'\<rparr>))"

definition ra_push :: "bytes \<Rightarrow> reassembler \<Rightarrow> (spatial_error + reassembled_frame list) \<times> reassembler" where
  "ra_push pt r =
     (case parse_fragment (ra_layout r) pt of
        Inl e \<Rightarrow> (Inl e, r)
      | Inr f \<Rightarrow>
          (case ra_cursor r of
             Uninitialized \<Rightarrow> (case ra_accept f (Next (pf_seq f)) (ra_pending r) [] r of (out, r') \<Rightarrow> (Inr out, r'))
           | Exhausted \<Rightarrow> (Inr [], r)
           | Next s \<Rightarrow>
               if pf_seq f < s then (Inr [], r)
               else
                 let distance = pf_seq f - s in
                 if distance = 2 then
                   (case retire s (ra_pending r) of
                      (ps, out) \<Rightarrow>
                        (case drain_ready (Next (s + 1)) ps of
                           (c, ps', out') \<Rightarrow> (case ra_accept f c ps' (out @ out') r of (o', r') \<Rightarrow> (Inr o', r'))))
                 else if 2 < distance then
                   (case ra_accept f (Next (pf_seq f)) [] (map pending_finish (ra_pending r)) r of (o', r') \<Rightarrow> (Inr o', r'))
                 else (case ra_accept f (Next s) (ra_pending r) [] r of (o', r') \<Rightarrow> (Inr o', r'))))"

definition ra_flush :: "reassembler \<Rightarrow> reassembled_frame list \<times> reassembler" where
  "ra_flush r =
     (if ra_pending r = [] then ([], r)
      else (map pending_finish (ra_pending r), r\<lparr>ra_pending := [], ra_cursor := cursor_after (pd_seq (last (ra_pending r)))\<rparr>))"

section \<open>The contract of a spatial stream\<close>

record spatial_contract =
  sc_version :: u8
  sc_provider_revision :: u64
  sc_endpoint_id :: string
  sc_active_format :: string
  sc_layout :: speaker_layout

record spatial_output_config =
  so_endpoint_id :: string
  so_active_format :: string
  so_layout :: speaker_layout

datatype contract_error = ContractVersion | ContractRate | ZeroRevision | EmptyText string | LongText string | ControlText string

definition SPATIAL_SAMPLE_RATE :: u32 where
  "SPATIAL_SAMPLE_RATE = 48000"

definition validate_text :: "string \<Rightarrow> string \<Rightarrow> nat \<Rightarrow> contract_error option" where
  "validate_text field value max_bytes =
     (if value = [] then Some (EmptyText field)
      else if max_bytes < length value then Some (LongText field)
      else if list_ex is_control (str_chars value) then Some (ControlText field)
      else None)"

definition contract_validate :: "spatial_contract \<Rightarrow> contract_error option" where
  "contract_validate c =
     (if sc_version c \<noteq> SPATIAL_VERSION then Some ContractVersion
      else if SPATIAL_SAMPLE_RATE \<noteq> 48000 then Some ContractRate
      else if sc_provider_revision c = 0 then Some ZeroRevision
      else case validate_text ''endpoint_id'' (sc_endpoint_id c) 1024 of
             Some e \<Rightarrow> Some e
           | None \<Rightarrow> validate_text ''active_format'' (sc_active_format c) 128)"

definition contract_channels :: "spatial_contract \<Rightarrow> u8" where
  "contract_channels c = of_nat (layout_channels (sc_layout c))"

definition contract_output_config :: "spatial_contract \<Rightarrow> spatial_output_config" where
  "contract_output_config c = \<lparr>so_endpoint_id = sc_endpoint_id c, so_active_format = sc_active_format c, so_layout = sc_layout c\<rparr>"

lemma contract_validate_iff:
  "contract_validate c = None \<longleftrightarrow> sc_version c = SPATIAL_VERSION \<and> sc_provider_revision c \<noteq> 0 \<and>
     sc_endpoint_id c \<noteq> [] \<and> length (sc_endpoint_id c) \<le> 1024 \<and> list_all (Not \<circ> is_control) (str_chars (sc_endpoint_id c)) \<and>
     sc_active_format c \<noteq> [] \<and> length (sc_active_format c) \<le> 128 \<and> list_all (Not \<circ> is_control) (str_chars (sc_active_format c))"
  by (auto simp: contract_validate_def validate_text_def SPATIAL_SAMPLE_RATE_def list_ex_iff list_all_iff split: option.splits if_splits)

lemma contract_channels_exact: "unat (contract_channels c) = layout_channels (sc_layout c)"
  by (cases "sc_layout c") (simp_all add: contract_channels_def)

section \<open>The geometry of the fragments\<close>

lemma layout_facts:
  "0 < layout_channels l" "0 < frames_per_part l" "0 < fragment_count l" "fragment_count l < 256"
  "(fragment_count l - 1) * frames_per_part l < FRAME_FRAMES" "FRAME_FRAMES \<le> fragment_count l * frames_per_part l"
  "FRAGMENT_HEADER_LEN + frames_per_part l * (layout_channels l * SAMPLE_BYTES) \<le> SINGLE_PACKET_PAYLOAD_MAX"
  by (cases l; simp add: frames_per_part_def fragment_count_def FRAME_FRAMES_def SINGLE_PACKET_PAYLOAD_MAX_def FRAGMENT_HEADER_LEN_def SAMPLE_BYTES_def)+

definition part_frames :: "speaker_layout \<Rightarrow> nat \<Rightarrow> nat" where
  "part_frames l k = min (frames_per_part l) (FRAME_FRAMES - k * frames_per_part l)"

definition part_of :: "speaker_layout \<Rightarrow> nat \<Rightarrow> 'a list \<Rightarrow> 'a list" where
  "part_of l k xs = byte_slice (k * frames_per_part l * layout_channels l)
     (min ((k + 1) * frames_per_part l * layout_channels l) (FRAME_FRAMES * layout_channels l)) xs"

lemma part_start: "k < fragment_count l \<Longrightarrow> k * frames_per_part l < FRAME_FRAMES"
proof -
  assume "k < fragment_count l"
  then have "k \<le> fragment_count l - 1" by simp
  then have "k * frames_per_part l \<le> (fragment_count l - 1) * frames_per_part l" by (rule mult_le_mono1)
  then show ?thesis using layout_facts(5) [of l] by linarith
qed

lemma part_end: "min ((k + 1) * frames_per_part l * c) (FRAME_FRAMES * c) = min ((k + 1) * frames_per_part l) FRAME_FRAMES * c"
  by (simp add: min_def mult_le_cancel2)

lemma part_frames_end: "k * frames_per_part l \<le> FRAME_FRAMES \<Longrightarrow>
    k * frames_per_part l + part_frames l k = min ((k + 1) * frames_per_part l) FRAME_FRAMES"
  by (simp add: part_frames_def min_def le_diff_conv2)

lemma length_part_of:
  assumes "k < fragment_count l" and "length xs = FRAME_FRAMES * layout_channels l"
  shows "length (part_of l k xs) = part_frames l k * layout_channels l"
proof -
  have "min ((k + 1) * frames_per_part l) FRAME_FRAMES - k * frames_per_part l = part_frames l k"
    using part_frames_end [of k l] part_start [OF assms(1)] by simp
  then have "min ((k + 1) * frames_per_part l) FRAME_FRAMES * layout_channels l - k * frames_per_part l * layout_channels l
      = part_frames l k * layout_channels l" by (metis diff_mult_distrib)
  moreover have "part_frames l k * layout_channels l \<le> FRAME_FRAMES * layout_channels l - k * frames_per_part l * layout_channels l"
    by (simp add: part_frames_def diff_mult_distrib [symmetric])
  moreover have "length (part_of l k xs) = min (min ((k + 1) * frames_per_part l) FRAME_FRAMES * layout_channels l - k * frames_per_part l * layout_channels l)
      (FRAME_FRAMES * layout_channels l - k * frames_per_part l * layout_channels l)"
    by (simp only: part_of_def part_end length_byte_slice assms(2))
  ultimately show ?thesis by simp
qed

lemma part_frames_full: "Suc k < fragment_count l \<Longrightarrow> part_frames l k = frames_per_part l"
  using part_start [of "Suc k" l] by (simp add: part_frames_def)

lemma concat_parts_upto:
  "n \<le> fragment_count l \<Longrightarrow> concat (map (\<lambda>k. part_of l k xs) [0..<n]) =
     byte_slice 0 (min (n * frames_per_part l) FRAME_FRAMES * layout_channels l) xs"
proof (induction n)
  case (Suc n)
  have "min (n * frames_per_part l) FRAME_FRAMES = n * frames_per_part l" using part_start [of n l] Suc.prems by simp
  with Suc show ?case
    using byte_slice_join [of 0 "n * frames_per_part l * layout_channels l" "min ((n + 1) * frames_per_part l) FRAME_FRAMES * layout_channels l" xs]
      part_start [of n l]
    by (simp add: part_of_def part_end [unfolded Suc_eq_plus1 [symmetric]] Suc_eq_plus1 [symmetric] del: mult_Suc)
qed simp

lemma concat_parts:
  assumes "length xs = FRAME_FRAMES * layout_channels l"
  shows "concat (map (\<lambda>k. part_of l k xs) [0..<fragment_count l]) = xs"
proof -
  have "min (fragment_count l * frames_per_part l) FRAME_FRAMES = FRAME_FRAMES" using layout_facts(6) [of l] by simp
  then show ?thesis using concat_parts_upto [OF order_refl, of l xs] assms by simp
qed

section \<open>Encoding and parsing\<close>

lemma chunks_words: "map of_le (chunks 4 (concat (map (le_bytes 4) ws))) = (ws :: u32 list)"
proof (induction ws)
  case (Cons w ws)
  have "le_bytes 4 w @ concat (map (le_bytes 4) ws) \<noteq> []" by (metis append_is_Nil_conv length_le_bytes list.size(3) numeral_neq_zero)
  then show ?case using Cons by (simp add: chunks_Cons)
qed simp

lemma length_words: "length (concat (map (le_bytes 4) (ws :: u32 list))) = 4 * length ws"
  by (induction ws) simp_all

lemma encode_parses:
  assumes "length samples = FRAME_FRAMES * layout_channels l" and "list_all is_finite samples" and "part < fragment_count l"
  shows "\<exists>pt. encode_fragment l s part samples = Inr pt \<and> length pt \<le> SINGLE_PACKET_PAYLOAD_MAX \<and>
    parse_fragment l pt = Inr \<lparr>pf_seq = s, pf_part = part, pf_samples = part_of l part samples\<rparr>"
proof -
  let ?ws = "part_of l part samples"
  let ?pt = "[SPATIAL_VERSION, of_nat part, of_nat (fragment_count l), 0] @ le_bytes 8 s @ concat (map (le_bytes 4) ?ws)"
  have fin: "\<not> list_ex (\<lambda>s. \<not> is_finite s) samples" using assms(2) by (auto simp: list_ex_iff list_all_iff)
  have enc: "encode_fragment l s part samples = Inr ?pt"
    using assms(1,3) fin by (simp add: encode_fragment_def Let_def part_of_def)
  have lw: "length ?ws = part_frames l part * layout_channels l" by (rule length_part_of [OF assms(3,1)])
  have lp: "length (concat (map (le_bytes 4) ?ws)) = part_frames l part * (layout_channels l * SAMPLE_BYTES)"
    by (simp add: length_words lw SAMPLE_BYTES_def)
  have "part_frames l part * (layout_channels l * SAMPLE_BYTES) \<le> frames_per_part l * (layout_channels l * SAMPLE_BYTES)"
    by (rule mult_le_mono1) (simp add: part_frames_def)
  then have len: "length ?pt \<le> SINGLE_PACKET_PAYLOAD_MAX" and len2: "\<not> length ?pt < FRAGMENT_HEADER_LEN"
    using layout_facts(7) [of l] lp
    unfolding FRAGMENT_HEADER_LEN_def length_append length_le_bytes list.size by linarith+
  have nums: "unat (of_nat part :: u8) = part" "unat (of_nat (fragment_count l) :: u8) = fragment_count l"
    using assms(3) layout_facts(4) [of l] by (simp_all add: unat_of_nat take_bit_eq_mod)
  have pay: "drop FRAGMENT_HEADER_LEN ?pt = concat (map (le_bytes 4) ?ws)" by (simp add: FRAGMENT_HEADER_LEN_def)
  have sq: "byte_slice 4 FRAGMENT_HEADER_LEN ?pt = le_bytes 8 s" by (simp add: FRAGMENT_HEADER_LEN_def byte_slice_def)
  have "list_all is_finite ?ws" using assms(2) by (auto simp: part_of_def byte_slice_def list_all_iff dest: in_set_takeD in_set_dropD)
  then have fin2: "\<not> list_ex (\<lambda>s. \<not> is_finite s) ?ws" by (auto simp: list_ex_iff list_all_iff)
  have four: "chunks SAMPLE_BYTES = (chunks 4 :: u8 list \<Rightarrow> _)" by (simp add: SAMPLE_BYTES_def)
  have head: "?pt ! 0 = SPATIAL_VERSION" "?pt ! 1 = of_nat part" "?pt ! 2 = of_nat (fragment_count l)" "?pt ! 3 = 0" by simp_all
  have "parse_fragment l ?pt = Inr \<lparr>pf_seq = s, pf_part = part, pf_samples = ?ws\<rparr>"
    unfolding parse_fragment_def Let_def pay sq head nums four chunks_words lp
    using len len2 assms(3) fin2 by (simp add: part_frames_def [symmetric] not_less del: append.simps append_Cons)
  with enc len show ?thesis by blast
qed

text \<open>
  A fragment carries its part of the frame: for a frame of the right length with finite samples,
  every fragment encodes into one datagram payload, parses back to its sequence number, its index and
  exactly its samples, and the parts together are the frame.
\<close>

theorem spatial_fragment_roundtrip:
  assumes "length samples = FRAME_FRAMES * layout_channels l" and "list_all is_finite samples" and "part < fragment_count l"
  shows "(\<exists>pt. encode_fragment l s part samples = Inr pt \<and> length pt \<le> SINGLE_PACKET_PAYLOAD_MAX \<and>
      parse_fragment l pt = Inr \<lparr>pf_seq = s, pf_part = part, pf_samples = part_of l part samples\<rparr>) \<and>
    concat (map (\<lambda>k. part_of l k samples) [0..<fragment_count l]) = samples"
  using encode_parses [OF assms] concat_parts [OF assms(1)] by blast

theorem spatial_fragment_roundtrip_witness:
  "\<exists>pt. encode_fragment Surround51 7 9 (replicate 2880 0x3F800000) = Inr pt \<and>
     parse_fragment Surround51 pt = Inr \<lparr>pf_seq = 7, pf_part = 9, pf_samples = part_of Surround51 9 (replicate 2880 0x3F800000)\<rparr>"
proof -
  have "length (replicate 2880 (0x3F800000 :: u32)) = FRAME_FRAMES * layout_channels Surround51"
    by (simp add: FRAME_FRAMES_def)
  moreover have "list_all is_finite (replicate 2880 0x3F800000)" by (simp add: list_all_iff is_finite_def)
  moreover have "9 < fragment_count Surround51"
    by (simp add: fragment_count_def frames_per_part_def FRAME_FRAMES_def SINGLE_PACKET_PAYLOAD_MAX_def FRAGMENT_HEADER_LEN_def SAMPLE_BYTES_def)
  ultimately show ?thesis using spatial_fragment_roundtrip [of "replicate 2880 0x3F800000" Surround51 9 7] by blast
qed

section \<open>What a pending frame holds\<close>

text \<open>
  The specification of a frame under assembly: the parts that have arrived, silence for the others, and
  the count of what is missing.
\<close>

definition held_part :: "speaker_layout \<Rightarrow> u32 list \<Rightarrow> bool list \<Rightarrow> nat \<Rightarrow> u32 list" where
  "held_part l x got k = (if got ! k then part_of l k x else replicate (part_frames l k * layout_channels l) 0)"

definition held_samples :: "speaker_layout \<Rightarrow> u32 list \<Rightarrow> bool list \<Rightarrow> u32 list" where
  "held_samples l x got = concat (map (held_part l x got) [0..<fragment_count l])"

definition frames_held :: "speaker_layout \<Rightarrow> bool list \<Rightarrow> nat" where
  "frames_held l got = (\<Sum>k\<leftarrow>[0..<fragment_count l]. if got ! k then part_frames l k else 0)"

definition parts_held :: "bool list \<Rightarrow> nat" where
  "parts_held got = length (filter id got)"

definition holding :: "speaker_layout \<Rightarrow> u64 \<Rightarrow> u32 list \<Rightarrow> bool list \<Rightarrow> pending_frame" where
  "holding l s x got = \<lparr>pd_seq = s, pd_samples = held_samples l x got, pd_received = got,
     pd_count = parts_held got, pd_frames = frames_held l got\<rparr>"

lemma part_frames_sum_upto: "n \<le> fragment_count l \<Longrightarrow> (\<Sum>k\<leftarrow>[0..<n]. part_frames l k) = min (n * frames_per_part l) FRAME_FRAMES"
proof (induction n)
  case (Suc n)
  have "n * frames_per_part l < FRAME_FRAMES" using part_start [of n l] Suc.prems by simp
  then show ?case using Suc part_frames_end [of n l] by simp
qed simp

lemma part_frames_sum: "(\<Sum>k\<leftarrow>[0..<fragment_count l]. part_frames l k) = FRAME_FRAMES"
  using part_frames_sum_upto [of "fragment_count l" l] layout_facts(6) [of l] by simp

lemma length_concat_map: "length (concat (map f xs)) = (\<Sum>x\<leftarrow>xs. length (f x))"
  by (induction xs) simp_all

lemma length_held_part:
  "k < fragment_count l \<Longrightarrow> length x = FRAME_FRAMES * layout_channels l \<Longrightarrow>
    length (held_part l x got k) = part_frames l k * layout_channels l"
  by (simp add: held_part_def length_part_of)

lemma length_held_upto:
  assumes "length x = FRAME_FRAMES * layout_channels l" and "n \<le> fragment_count l"
  shows "length (concat (map (held_part l x got) [0..<n])) = min (n * frames_per_part l) FRAME_FRAMES * layout_channels l"
proof -
  have "(\<Sum>k\<leftarrow>[0..<n]. length (held_part l x got k)) = (\<Sum>k\<leftarrow>[0..<n]. part_frames l k * layout_channels l)"
    by (intro arg_cong [where f = sum_list] map_cong refl) (use assms in \<open>simp add: length_held_part\<close>)
  then have "length (concat (map (held_part l x got) [0..<n])) = (\<Sum>k\<leftarrow>[0..<n]. part_frames l k * layout_channels l)"
    unfolding length_concat_map .
  also have "\<dots> = (\<Sum>k\<leftarrow>[0..<n]. part_frames l k) * layout_channels l" by (rule sum_list_mult_const)
  finally show ?thesis using part_frames_sum_upto [OF assms(2)] by simp
qed

lemma held_split:
  assumes "k < fragment_count l"
  shows "held_samples l x got = concat (map (held_part l x got) [0..<k]) @ held_part l x got k @
    concat (map (held_part l x got) [Suc k..<fragment_count l])"
proof -
  have "[0..<fragment_count l] = [0..<k] @ k # [Suc k..<fragment_count l]"
    using assms upt_add_eq_append [of 0 k "fragment_count l - k"] upt_conv_Cons [of k "fragment_count l"] by simp
  then show ?thesis by (simp add: held_samples_def)
qed

lemma held_part_update:
  "length got = fragment_count l \<Longrightarrow> k < fragment_count l \<Longrightarrow>
    held_part l x (got[j := True]) k = (if k = j then part_of l k x else held_part l x got k)"
  by (auto simp: held_part_def nth_list_update)

lemma held_update:
  assumes "length got = fragment_count l" and "j < fragment_count l" and "length x = FRAME_FRAMES * layout_channels l"
  shows "held_samples l x (got[j := True]) = splice_at (j * frames_per_part l * layout_channels l) (part_of l j x) (held_samples l x got)"
proof -
  let ?a = "concat (map (held_part l x got) [0..<j])" and ?b = "concat (map (held_part l x got) [Suc j..<fragment_count l])"
  have la: "length ?a = j * frames_per_part l * layout_channels l"
    using length_held_upto [OF assms(3), of j got] assms(2) part_start [OF assms(2)] by simp
  have lb: "length (held_part l x got j) = length (part_of l j x)"
    using length_held_part [OF assms(2,3)] length_part_of [OF assms(2,3)] by simp
  have "map (held_part l x (got[j := True])) [0..<j] = map (held_part l x got) [0..<j]"
    "map (held_part l x (got[j := True])) [Suc j..<fragment_count l] = map (held_part l x got) [Suc j..<fragment_count l]"
    "held_part l x (got[j := True]) j = part_of l j x"
    using assms(1,2) by (simp_all add: held_part_update)
  then have "held_samples l x (got[j := True]) = ?a @ part_of l j x @ ?b" using held_split [OF assms(2)] by metis
  moreover have "held_samples l x got = ?a @ held_part l x got j @ ?b" by (rule held_split [OF assms(2)])
  ultimately show ?thesis unfolding splice_at_def using la lb by simp
qed

lemma parts_held_update: "j < length got \<Longrightarrow> \<not> got ! j \<Longrightarrow> parts_held (got[j := True]) = parts_held got + 1"
proof -
  assume a: "j < length got" "\<not> got ! j"
  have "parts_held (take j got @ b # drop (Suc j) got) = parts_held (take j got) + of_bool b + parts_held (drop (Suc j) got)" for b
    by (simp add: parts_held_def)
  then show ?thesis using a id_take_nth_drop [OF a(1)] upd_conv_take_nth_drop [OF a(1), of True] by (metis (full_types) add.assoc add.commute add_0 of_bool_eq(1) of_bool_eq(2))
qed

lemma frames_held_update:
  assumes "length got = fragment_count l" and "j < fragment_count l" and "\<not> got ! j"
  shows "frames_held l (got[j := True]) = frames_held l got + part_frames l j"
proof -
  have s: "[0..<fragment_count l] = [0..<j] @ j # [Suc j..<fragment_count l]"
    using assms(2) upt_add_eq_append [of 0 j "fragment_count l - j"] upt_conv_Cons [of j "fragment_count l"] by simp
  have same: "(\<Sum>k\<leftarrow>ks. if got[j := True] ! k then part_frames l k else 0) = (\<Sum>k\<leftarrow>ks. if got ! k then part_frames l k else 0)"
    if "j \<notin> set ks" for ks
    by (intro arg_cong [where f = sum_list] map_cong refl) (use that in \<open>metis nth_list_update_neq\<close>)
  show ?thesis using assms same [of "[0..<j]"] same [of "[Suc j..<fragment_count l]"] unfolding frames_held_def s by simp
qed

lemma holding_new: "length x = FRAME_FRAMES * layout_channels l \<Longrightarrow> pending_new l s = holding l s x (replicate (fragment_count l) False)"
proof -
  assume lx: "length x = FRAME_FRAMES * layout_channels l"
  let ?got = "replicate (fragment_count l) False"
  have h: "map (held_part l x ?got) [0..<fragment_count l] = map (\<lambda>k. replicate (part_frames l k * layout_channels l) 0) [0..<fragment_count l]"
    by (simp add: held_part_def)
  have "set (held_samples l x ?got) \<subseteq> {0}" unfolding held_samples_def h by auto
  moreover have "length (held_samples l x ?got) = FRAME_FRAMES * layout_channels l"
    using length_held_upto [OF lx order_refl, of ?got] layout_facts(6) [of l] by (simp add: held_samples_def min_absorb2)
  ultimately have "held_samples l x ?got = replicate (FRAME_FRAMES * layout_channels l) 0"
    by (intro replicate_eqI) auto
  moreover have "frames_held l ?got = 0" unfolding frames_held_def by (simp cong: map_cong)
  ultimately show ?thesis by (simp add: pending_new_def holding_def parts_held_def)
qed

lemma holding_accept:
  assumes "length got = fragment_count l" and "j < fragment_count l" and "length x = FRAME_FRAMES * layout_channels l"
  shows "pending_accept l j (part_of l j x) (holding l s x got) = holding l s x (got[j := True])"
proof (cases "got ! j")
  case True
  then have "got[j := True] = got" by (metis list_update_id)
  then show ?thesis using True by (simp add: pending_accept_def holding_def)
next
  case False
  have "length (part_of l j x) div layout_channels l = part_frames l j"
    using length_part_of [OF assms(2,3)] layout_facts(1) [of l] by simp
  then show ?thesis using False assms
    by (simp add: pending_accept_def holding_def held_update parts_held_update frames_held_update)
qed

lemma parts_held_le: "parts_held got \<le> length got" by (simp add: parts_held_def)

lemma parts_held_all: "parts_held got = length got \<longleftrightarrow> (\<forall>k < length got. got ! k)"
  by (metis (no_types, lifting) filter_True filter_id_conv id_apply in_set_conv_nth length_filter_less nat_neq_iff parts_held_def)

section \<open>Any traffic\<close>

text \<open>
  The traffic of a stream: datagrams and the expiry of the deadline. A datagram is authentic when, if it
  parses at all, it carries a part of the frame the sender numbered so; packet authentication gives that.
\<close>

datatype spatial_event = Datagram bytes | Deadline

definition authentic :: "speaker_layout \<Rightarrow> (u64 \<Rightarrow> u32 list) \<Rightarrow> spatial_event \<Rightarrow> bool" where
  "authentic l src e \<longleftrightarrow> (case e of Deadline \<Rightarrow> True | Datagram pt \<Rightarrow>
     (case parse_fragment l pt of Inl _ \<Rightarrow> True
      | Inr f \<Rightarrow> pf_part f < fragment_count l \<and> pf_samples f = part_of l (pf_part f) (src (pf_seq f))))"

definition ra_step :: "spatial_event \<Rightarrow> reassembler \<Rightarrow> reassembled_frame list \<times> reassembler" where
  "ra_step e r = (case e of Deadline \<Rightarrow> ra_flush r
     | Datagram pt \<Rightarrow> (case ra_push pt r of (Inl _, r') \<Rightarrow> ([], r') | (Inr out, r') \<Rightarrow> (out, r')))"

fun ra_run :: "spatial_event list \<Rightarrow> reassembler \<Rightarrow> reassembled_frame list \<times> reassembler" where
  "ra_run [] r = ([], r)"
| "ra_run (e # es) r = (case ra_step e r of (out, r') \<Rightarrow> (case ra_run es r' of (out', r'') \<Rightarrow> (out @ out', r'')))"

text \<open>Where the cursor stands, as a number past every frame given up so far.\<close>

fun cursor_position :: "sequence_cursor \<Rightarrow> nat" where
  "cursor_position Uninitialized = 0"
| "cursor_position (Next s) = unat s"
| "cursor_position Exhausted = 2 ^ 64"

definition sound_pending :: "speaker_layout \<Rightarrow> (u64 \<Rightarrow> u32 list) \<Rightarrow> pending_frame \<Rightarrow> bool" where
  "sound_pending l src p \<longleftrightarrow> (\<exists>got. length got = fragment_count l \<and> p = holding l (pd_seq p) (src (pd_seq p)) got)"

definition sound_frame :: "speaker_layout \<Rightarrow> (u64 \<Rightarrow> u32 list) \<Rightarrow> reassembled_frame \<Rightarrow> bool" where
  "sound_frame l src f \<longleftrightarrow> (\<exists>got. length got = fragment_count l \<and> rf_samples f = held_samples l (src (rf_seq f)) got \<and>
     rf_concealed_fragments f = fragment_count l - parts_held got \<and> rf_concealed_frames f = FRAME_FRAMES - frames_held l got)"

definition in_order :: "nat \<Rightarrow> nat \<Rightarrow> u64 list \<Rightarrow> bool" where
  "in_order lo hi ss \<longleftrightarrow> sorted_wrt (<) (map unat ss) \<and> (\<forall>s \<in> set ss. lo \<le> unat s \<and> unat s < hi) \<and> lo \<le> hi"

definition ra_ok :: "(u64 \<Rightarrow> u32 list) \<Rightarrow> reassembler \<Rightarrow> bool" where
  "ra_ok src r \<longleftrightarrow> (ra_cursor r = Uninitialized \<longrightarrow> ra_pending r = []) \<and>
     in_order (cursor_position (ra_cursor r)) (cursor_position (ra_cursor r) + 2) (map pd_seq (ra_pending r)) \<and>
     list_all (sound_pending (ra_layout r) src) (ra_pending r)"

lemma in_order_append: "in_order a b xs \<Longrightarrow> in_order b c ys \<Longrightarrow> in_order a c (xs @ ys)"
  by (fastforce simp: in_order_def sorted_wrt_append)

lemma in_order_nil [simp]: "in_order a b [] \<longleftrightarrow> a \<le> b" by (simp add: in_order_def)

lemma in_order_cons: "in_order a b (s # ss) \<longleftrightarrow> a \<le> unat s \<and> unat s < b \<and> in_order (Suc (unat s)) b ss"
  by (auto simp: in_order_def)

lemma in_order_widen: "in_order a b xs \<Longrightarrow> a' \<le> a \<Longrightarrow> b \<le> b' \<Longrightarrow> in_order a' b' xs"
  by (fastforce simp: in_order_def)

lemma unat_u64_bound: "unat (s :: u64) < 2 ^ 64"
  using unsigned_less [of s, where ?'a = nat] by simp

lemma cursor_after_position: "cursor_position (cursor_after s) = Suc (unat s)"
proof (cases "s = - 1")
  case True
  then show ?thesis by (simp add: cursor_after_def unsigned_minus_1_eq_mask mask_eq_exp_minus_1)
next
  case False
  then have "unat (s + 1) = Suc (unat s)" by (metis add.commute add.left_neutral eq_neg_iff_add_eq_0 unatSuc Suc_eq_plus1)
  then show ?thesis using False by (simp add: cursor_after_def)
qed

lemma sound_finish: "sound_pending l src p \<Longrightarrow> sound_frame l src (pending_finish p) \<and> rf_seq (pending_finish p) = pd_seq p"
  unfolding sound_pending_def sound_frame_def pending_finish_def holding_def by (metis pending_frame.select_convs reassembled_frame.select_convs)

lemma drain_ready_sound:
  "drain_ready c ps = (c', ps', out) \<Longrightarrow> in_order (cursor_position c) b (map pd_seq ps) \<Longrightarrow> list_all (sound_pending l src) ps \<Longrightarrow>
    in_order (cursor_position c) (cursor_position c') (map rf_seq out) \<and> in_order (cursor_position c') (max b (cursor_position c')) (map pd_seq ps') \<and>
    list_all (sound_pending l src) ps' \<and> list_all (sound_frame l src) out \<and> (c' = Uninitialized \<longrightarrow> c = Uninitialized) \<and>
    cursor_position c' \<le> max b (cursor_position c)"
proof (induction c ps arbitrary: c' ps' out rule: drain_ready.induct)
  case (1 c)
  then show ?case by auto
next
  case (2 c p ps)
  show ?case
  proof (cases "\<exists>s. c = Next s \<and> pd_seq p = s \<and> pending_complete p")
    case False
    then have "(c', ps', out) = (c, p # ps, [])" using 2(2) by (auto split: sequence_cursor.splits if_splits)
    then show ?thesis using 2(3,4) by (auto intro: in_order_widen)
  next
    case True
    then obtain s where s: "c = Next s" "pd_seq p = s" "pending_complete p" by blast
    obtain d qs o' where d: "drain_ready (cursor_after s) ps = (d, qs, o')" by (metis prod_cases3)
    have e: "c' = d" "ps' = qs" "out = pending_finish p # o'" using 2(2) s d by simp_all
    have "in_order (cursor_position (cursor_after s)) b (map pd_seq ps)" using 2(3) s by (simp add: in_order_cons cursor_after_position)
    from 2(1) [OF s(1) _ d this] have "in_order (Suc (unat s)) (cursor_position d) (map rf_seq o')"
      "in_order (cursor_position d) (max b (cursor_position d)) (map pd_seq qs)" "list_all (sound_pending l src) qs"
      "list_all (sound_frame l src) o'" "d = Uninitialized \<longrightarrow> cursor_after s = Uninitialized"
      "cursor_position d \<le> max b (Suc (unat s))" "unat s < b"
      using 2(3,4) s by (auto simp: cursor_after_position in_order_cons max_def split: if_splits)
    moreover have "unat s < cursor_position d" using calculation(1) by (auto simp: in_order_def)
    ultimately show ?thesis using sound_finish [of l src p] 2(4) e s by (auto simp: in_order_cons cursor_after_def split: if_splits)
  qed
qed

lemma accept_into_order:
  "in_order a b (map pd_seq ps) \<Longrightarrow> a \<le> unat (pf_seq f) \<Longrightarrow> unat (pf_seq f) < b \<Longrightarrow> in_order a b (map pd_seq (accept_into l f ps))"
proof (induction ps arbitrary: a)
  case Nil
  then show ?case by (simp add: in_order_cons pending_accept_def pending_new_def)
next
  case (Cons p ps)
  have sq: "pd_seq (pending_accept l k xs q) = pd_seq q" for k xs q by (simp add: pending_accept_def)
  consider "pd_seq p = pf_seq f" | "pf_seq f < pd_seq p" | "pd_seq p < pf_seq f" by fastforce
  then show ?case
  proof cases
    case 3
    then have "unat (pd_seq p) < unat (pf_seq f)" by (simp add: word_less_nat_alt)
    then show ?thesis using 3 Cons by (auto simp: in_order_cons)
  next
    case 2
    then have "pd_seq p \<noteq> pf_seq f" by auto
    then show ?thesis using 2 Cons.prems by (simp add: in_order_cons sq pending_new_def word_less_nat_alt)
  qed (use Cons.prems in \<open>simp_all add: in_order_cons sq pending_new_def word_less_nat_alt\<close>)
qed

lemma accept_sound:
  assumes "sound_pending l src p" and "pf_part f < fragment_count l" and "pf_samples f = part_of l (pf_part f) (src (pd_seq p))"
    and "length (src (pd_seq p)) = FRAME_FRAMES * layout_channels l"
  shows "sound_pending l src (pending_accept l (pf_part f) (pf_samples f) p)"
proof -
  obtain got where g: "length got = fragment_count l" "p = holding l (pd_seq p) (src (pd_seq p)) got"
    using assms(1) by (auto simp: sound_pending_def)
  have "pending_accept l (pf_part f) (pf_samples f) p = holding l (pd_seq p) (src (pd_seq p)) (got[pf_part f := True])"
    using holding_accept [OF g(1) assms(2,4), of "pd_seq p"] g(2) assms(3) by metis
  moreover have "pd_seq (holding l (pd_seq p) (src (pd_seq p)) (got[pf_part f := True])) = pd_seq p" by (simp add: holding_def)
  ultimately show ?thesis unfolding sound_pending_def using g(1) by (metis length_list_update)
qed

lemma new_sound: "length (src s) = FRAME_FRAMES * layout_channels l \<Longrightarrow> sound_pending l src (pending_new l s)"
  unfolding sound_pending_def using holding_new [of "src s" l s] by (metis length_replicate pending_frame.select_convs(1) pending_new_def)

lemma accept_into_sound:
  assumes "list_all (sound_pending l src) ps" and "pf_part f < fragment_count l" and "pf_samples f = part_of l (pf_part f) (src (pf_seq f))"
    and "length (src (pf_seq f)) = FRAME_FRAMES * layout_channels l"
  shows "list_all (sound_pending l src) (accept_into l f ps)"
proof -
  have new: "sound_pending l src (pending_accept l (pf_part f) (pf_samples f) (pending_new l (pf_seq f)))"
    using accept_sound [OF new_sound [where s = "pf_seq f" and src = src, OF assms(4)] assms(2)] assms(3,4) by (simp add: pending_new_def)
  have old: "sound_pending l src (pending_accept l (pf_part f) (pf_samples f) p)" if "sound_pending l src p" "pd_seq p = pf_seq f" for p
    by (rule accept_sound [OF that(1) assms(2)]) (use that(2) assms(3,4) in simp_all)
  show ?thesis using assms(1) by (induction ps) (auto simp: new old)
qed

lemma retire_sound:
  "retire s ps = (ps', out) \<Longrightarrow> in_order a b (map pd_seq ps) \<Longrightarrow> a = unat s \<Longrightarrow> list_all (sound_pending l src) ps \<Longrightarrow>
    in_order (Suc a) (max b (Suc a)) (map pd_seq ps') \<and> in_order a (Suc a) (map rf_seq out) \<and>
    list_all (sound_pending l src) ps' \<and> list_all (sound_frame l src) out"
proof (cases ps)
  case (Cons p qs)
  assume a: "retire s ps = (ps', out)" "in_order a b (map pd_seq ps)" "a = unat s" "list_all (sound_pending l src) ps"
  show ?thesis
  proof (cases "pd_seq p = s")
    case True
    then show ?thesis using a Cons sound_finish [of l src p] by (auto simp: in_order_cons intro: in_order_widen)
  next
    case False
    then have gt: "Suc a \<le> unat (pd_seq p)" using a(2,3) Cons by (auto simp: in_order_cons word_unat_eq_iff)
    have "retire s rs = (rs, [])" if "\<forall>q \<in> set rs. unat s < unat (pd_seq q)" for rs
      using that by (induction rs) auto
    moreover have "\<forall>q \<in> set ps. unat s < unat (pd_seq q)" using gt a(2,3) Cons by (auto simp: in_order_cons in_order_def)
    ultimately have "ps' = ps" "out = []" using a(1) by auto
    then show ?thesis using a gt Cons by (auto simp: in_order_cons intro: in_order_widen)
  qed
qed (auto)

lemma ra_accept_sound:
  assumes "ra_accept f c ps out0 r = (out, r')" and "c \<noteq> Uninitialized"
    and "in_order (cursor_position c) (cursor_position c + 2) (map pd_seq ps)" and "list_all (sound_pending (ra_layout r) src) ps"
    and "cursor_position c \<le> unat (pf_seq f)" and "unat (pf_seq f) < cursor_position c + 2"
    and "pf_part f < fragment_count (ra_layout r)" and "pf_samples f = part_of (ra_layout r) (pf_part f) (src (pf_seq f))"
    and "length (src (pf_seq f)) = FRAME_FRAMES * layout_channels (ra_layout r)"
  obtains out' where "out = out0 @ out'" and "ra_ok src r'" and "ra_layout r' = ra_layout r"
    and "in_order (cursor_position c) (cursor_position (ra_cursor r')) (map rf_seq out')" and "list_all (sound_frame (ra_layout r) src) out'"
proof -
  obtain d qs o' where d: "drain_ready c (accept_into (ra_layout r) f ps) = (d, qs, o')" by (metis prod_cases3)
  note s = drain_ready_sound [OF d accept_into_order [OF assms(3,5,6)] accept_into_sound [OF assms(4,7,8,9)]]
  have "cursor_position c \<le> cursor_position d" using s by (simp add: in_order_def)
  then have "in_order (cursor_position d) (cursor_position d + 2) (map pd_seq qs)" using s by (auto intro: in_order_widen)
  moreover have "out = out0 @ o'" "r' = r\<lparr>ra_cursor := d, ra_pending := qs\<rparr>" using assms(1) d by (simp_all add: ra_accept_def)
  ultimately show ?thesis using that s assms(2) by (simp add: ra_ok_def)
qed

lemma finish_all_sound:
  "in_order a b (map pd_seq ps) \<Longrightarrow> list_all (sound_pending l src) ps \<Longrightarrow>
    in_order a b (map rf_seq (map pending_finish ps)) \<and> list_all (sound_frame l src) (map pending_finish ps)"
  by (induction ps arbitrary: a) (auto simp: in_order_cons sound_finish)

lemma flush_sound:
  assumes "ra_flush r = (out, r')" and "ra_ok src r"
  shows "ra_ok src r' \<and> ra_layout r' = ra_layout r \<and> in_order (cursor_position (ra_cursor r)) (cursor_position (ra_cursor r')) (map rf_seq out) \<and>
    list_all (sound_frame (ra_layout r) src) out"
proof (cases "ra_pending r = []")
  case True
  then show ?thesis using assms by (auto simp: ra_flush_def)
next
  case False
  let ?top = "pd_seq (last (ra_pending r))"
  have o: "in_order (cursor_position (ra_cursor r)) (cursor_position (ra_cursor r) + 2) (map pd_seq (ra_pending r))"
    "list_all (sound_pending (ra_layout r) src) (ra_pending r)" using assms(2) by (simp_all add: ra_ok_def)
  have split: "map pd_seq (ra_pending r) = map pd_seq (butlast (ra_pending r)) @ [?top]"
    using False by (metis append_butlast_last_id list.simps(8,9) map_append)
  have "in_order (cursor_position (ra_cursor r)) (Suc (unat ?top)) (map pd_seq (ra_pending r))"
    using o(1) unfolding split by (auto simp: in_order_def sorted_wrt_append)
  then have "in_order (cursor_position (ra_cursor r)) (Suc (unat ?top)) (map rf_seq (map pending_finish (ra_pending r)))"
    "list_all (sound_frame (ra_layout r) src) (map pending_finish (ra_pending r))"
    using finish_all_sound o(2) by blast+
  moreover have "out = map pending_finish (ra_pending r)" "r' = r\<lparr>ra_pending := [], ra_cursor := cursor_after ?top\<rparr>"
    using assms(1) False by (simp_all add: ra_flush_def)
  ultimately show ?thesis by (simp add: ra_ok_def cursor_after_position)
qed

lemma push_sound:
  assumes "ra_push pt r = (Inr out, r')" and "ra_ok src r" and "authentic (ra_layout r) src (Datagram pt)"
    and src: "\<And>s. length (src s) = FRAME_FRAMES * layout_channels (ra_layout r)"
  shows "ra_ok src r' \<and> ra_layout r' = ra_layout r \<and> in_order (cursor_position (ra_cursor r)) (cursor_position (ra_cursor r')) (map rf_seq out) \<and>
    list_all (sound_frame (ra_layout r) src) out"
proof -
  let ?l = "ra_layout r" and ?c = "ra_cursor r" and ?ps = "ra_pending r"
  obtain f where f: "parse_fragment ?l pt = Inr f" using assms(1) by (auto simp: ra_push_def split: sum.splits)
  have au: "pf_part f < fragment_count ?l" "pf_samples f = part_of ?l (pf_part f) (src (pf_seq f))"
    using assms(3) f by (simp_all add: authentic_def)
  have ok: "?c = Uninitialized \<longrightarrow> ?ps = []" "in_order (cursor_position ?c) (cursor_position ?c + 2) (map pd_seq ?ps)"
    "list_all (sound_pending ?l src) ?ps" using assms(2) by (simp_all add: ra_ok_def)
  note acc = ra_accept_sound [where src = src and f = f and r = r, OF _ _ _ _ _ _ au src]
  show ?thesis
  proof (cases ?c)
    case Uninitialized
    then have a: "ra_accept f (Next (pf_seq f)) ?ps [] r = (out, r')" using assms(1) f by (simp add: ra_push_def split: prod.splits)
    show ?thesis by (rule acc [OF a]) (use ok Uninitialized in \<open>auto intro: in_order_widen\<close>)
  next
    case Exhausted
    then show ?thesis using assms(1,2) f by (simp add: ra_push_def)
  next
    case (Next s)
    let ?d = "pf_seq f - s"
    consider "pf_seq f < s" | "s \<le> pf_seq f" "?d = 2" | "s \<le> pf_seq f" "2 < ?d" | "s \<le> pf_seq f" "?d < 2" by fastforce
    then show ?thesis
    proof cases
      case 1
      then show ?thesis using assms(1,2) f Next by (simp add: ra_push_def)
    next
      case 2
      have n2: "unat (pf_seq f) = unat s + 2" using 2 unat_sub [OF 2(1)] by (simp add: word_le_nat_alt)
      have n1: "unat (s + 1) = Suc (unat s)" using n2 unat_u64_bound [of "pf_seq f"] by (simp add: unat_word_ariths(1))
      obtain qs o1 where r1: "retire s ?ps = (qs, o1)" by fastforce
      obtain c' qs' o2 where r2: "drain_ready (Next (s + 1)) qs = (c', qs', o2)" by (metis prod_cases3)
      have a: "ra_accept f c' qs' (o1 @ o2) r = (out, r')"
        using assms(1) f Next 2 r1 r2 by (simp add: ra_push_def leD [OF 2(1)] Let_def split: prod.splits)
      have s1: "in_order (Suc (unat s)) (unat s + 2) (map pd_seq qs)" "in_order (unat s) (Suc (unat s)) (map rf_seq o1)"
        "list_all (sound_pending ?l src) qs" "list_all (sound_frame ?l src) o1"
        using retire_sound [OF r1 _ refl ok(3), of "unat s + 2"] ok(2) Next by simp_all
      have s2: "in_order (Suc (unat s)) (cursor_position c') (map rf_seq o2)" "in_order (cursor_position c') (max (unat s + 2) (cursor_position c')) (map pd_seq qs')"
        "list_all (sound_pending ?l src) qs'" "list_all (sound_frame ?l src) o2" "c' \<noteq> Uninitialized"
        using drain_ready_sound [OF r2, of "unat s + 2" ?l src] s1 n1 by (simp_all add: max_def split: if_splits)
      have top: "cursor_position c' \<le> unat s + 2"
        using drain_ready_sound [OF r2, of "unat s + 2" ?l src] s1 n1 by simp
      have "in_order (cursor_position c') (cursor_position c' + 2) (map pd_seq qs')" using s2 by (auto intro: in_order_widen simp: in_order_def)
      from acc [OF a s2(5) this s2(3)] obtain o3 where o3: "out = (o1 @ o2) @ o3" "ra_ok src r'" "ra_layout r' = ?l"
        "in_order (cursor_position c') (cursor_position (ra_cursor r')) (map rf_seq o3)" "list_all (sound_frame ?l src) o3"
        using top n2 s2(1) by (auto simp: in_order_def)
      then show ?thesis using s1 s2 in_order_append [OF in_order_append [OF s1(2) s2(1)] o3(4)] Next by simp
    next
      case 3
      have ne: "?d \<noteq> 2" using 3 by auto
      have a: "ra_accept f (Next (pf_seq f)) [] (map pending_finish ?ps) r = (out, r')"
        using assms(1) f Next 3 ne by (auto simp: ra_push_def leD [OF 3(1)] Let_def split: prod.splits)
      have "unat s + 2 < unat (pf_seq f)" using 3 unat_sub [OF 3(1)] by (simp add: word_less_nat_alt word_le_nat_alt)
      then have "in_order (unat s) (unat (pf_seq f)) (map rf_seq (map pending_finish ?ps))" "list_all (sound_frame ?l src) (map pending_finish ?ps)"
        using finish_all_sound [OF ok(2,3)] Next by (auto intro: in_order_widen)
      moreover obtain o3 where "out = map pending_finish ?ps @ o3" "ra_ok src r'" "ra_layout r' = ?l"
        "in_order (unat (pf_seq f)) (cursor_position (ra_cursor r')) (map rf_seq o3)" "list_all (sound_frame ?l src) o3"
        by (rule acc [OF a]) auto
      ultimately show ?thesis using Next by (auto intro: in_order_append)
    next
      case 4
      have ne: "?d \<noteq> 2" "\<not> 2 < ?d" using 4 by auto
      have a: "ra_accept f (Next s) ?ps [] r = (out, r')"
        using assms(1) f Next 4 ne by (auto simp: ra_push_def leD [OF 4(1)] Let_def split: prod.splits)
      have "unat ?d < 2" using 4(2) by (simp add: word_less_nat_alt)
      then have "unat (pf_seq f) - unat s < 2" using unat_sub [OF 4(1)] by simp
      moreover have le: "unat s \<le> unat (pf_seq f)" using 4(1) by (simp add: word_le_nat_alt)
      ultimately have up: "unat (pf_seq f) < unat s + 2" by linarith
      show ?thesis
      proof (rule acc [OF a])
        show "in_order (cursor_position (Next s)) (cursor_position (Next s) + 2) (map pd_seq ?ps)" using ok(2) Next by simp
      qed (use ok(3) Next up le in simp_all)
    qed
  qed
qed

lemma step_sound:
  assumes "ra_step e r = (out, r')" and "ra_ok src r" and "authentic (ra_layout r) src e"
    and "\<And>s. length (src s) = FRAME_FRAMES * layout_channels (ra_layout r)"
  shows "ra_ok src r' \<and> ra_layout r' = ra_layout r \<and> in_order (cursor_position (ra_cursor r)) (cursor_position (ra_cursor r')) (map rf_seq out) \<and>
    list_all (sound_frame (ra_layout r) src) out"
proof (cases e)
  case Deadline
  then show ?thesis using flush_sound [OF _ assms(2)] assms(1) by (simp add: ra_step_def)
next
  case (Datagram pt)
  show ?thesis
  proof (cases "fst (ra_push pt r)")
    case (Inl x)
    then have "ra_push pt r = (Inl x, r)" by (auto simp: ra_push_def Let_def split: sum.splits sequence_cursor.splits prod.splits if_splits)
    then show ?thesis using assms(1,2) Datagram by (auto simp: ra_step_def)
  next
    case (Inr o')
    then have "ra_push pt r = (Inr out, r')" using assms(1) Datagram by (auto simp: ra_step_def split: prod.splits sum.splits)
    then show ?thesis using push_sound assms Datagram by blast
  qed
qed

lemma run_sound:
  "ra_run es r = (out, r') \<Longrightarrow> ra_ok src r \<Longrightarrow> list_all (authentic (ra_layout r) src) es \<Longrightarrow>
    (\<And>s. length (src s) = FRAME_FRAMES * layout_channels (ra_layout r)) \<Longrightarrow>
    ra_ok src r' \<and> ra_layout r' = ra_layout r \<and> in_order (cursor_position (ra_cursor r)) (cursor_position (ra_cursor r')) (map rf_seq out) \<and>
    list_all (sound_frame (ra_layout r) src) out"
proof (induction es r arbitrary: out r' rule: ra_run.induct)
  case (2 e es r)
  obtain o1 r1 o2 where s: "ra_step e r = (o1, r1)" "ra_run es r1 = (o2, r')" "out = o1 @ o2"
    using 2(2) by (auto split: prod.splits)
  note a = step_sound [where src = src, OF s(1) 2(3) _ 2(5)]
  have "ra_ok src r' \<and> ra_layout r' = ra_layout r1 \<and> in_order (cursor_position (ra_cursor r1)) (cursor_position (ra_cursor r')) (map rf_seq o2) \<and>
    list_all (sound_frame (ra_layout r1) src) o2"
    using 2(1) [OF s(1) [symmetric], OF s(2)] a 2(4,5) by simp
  then show ?case using a 2(4) s(3) by (auto intro: in_order_append)
qed (simp add: in_order_def)

lemma ra_ok_new: "ra_ok src (reassembler_new l)"
  by (simp add: ra_ok_def reassembler_new_def)

lemma held_all:
  assumes "length x = FRAME_FRAMES * layout_channels l" and "\<forall>k < fragment_count l. got ! k"
  shows "held_samples l x got = x"
proof -
  have "map (held_part l x got) [0..<fragment_count l] = map (\<lambda>k. part_of l k x) [0..<fragment_count l]"
    using assms(2) by (simp add: held_part_def)
  then show ?thesis unfolding held_samples_def using concat_parts [OF assms(1)] by metis
qed

lemma held_samples_at:
  assumes "length x = FRAME_FRAMES * layout_channels l" and "k < fragment_count l"
  shows "part_of l k (held_samples l x got) = held_part l x got k"
proof -
  let ?a = "concat (map (held_part l x got) [0..<k])" and ?c = "layout_channels l"
  have la: "length ?a = k * frames_per_part l * ?c"
    using length_held_upto [OF assms(1), of k got] assms(2) part_start [OF assms(2)] by simp
  have lp: "length (held_part l x got k) = part_frames l k * ?c" by (rule length_held_part [OF assms(2,1)])
  have "min ((k + 1) * frames_per_part l * ?c) (FRAME_FRAMES * ?c) = length ?a + length (held_part l x got k)"
    using part_end [of k l ?c] part_frames_end [of k l] part_start [OF assms(2)] la lp by (metis add_mult_distrib less_imp_le_nat)
  then show ?thesis unfolding part_of_def held_split [OF assms(2)] la [symmetric]
    by (simp add: byte_slice_def)
qed

lemma faithful_run:
  assumes "ra_run es (reassembler_new l) = (out, r)" and "list_all (authentic l src) es"
    and "\<And>s. length (src s) = FRAME_FRAMES * layout_channels l"
  shows "sorted_wrt (<) (map rf_seq out)"
    and "\<And>f. f \<in> set out \<Longrightarrow> \<exists>got. length got = fragment_count l \<and>
      (\<forall>k < fragment_count l. part_of l k (rf_samples f) =
         (if got ! k then part_of l k (src (rf_seq f)) else replicate (part_frames l k * layout_channels l) 0)) \<and>
      rf_concealed_fragments f + parts_held got = fragment_count l \<and>
      rf_concealed_frames f + frames_held l got = FRAME_FRAMES \<and>
      (rf_concealed_fragments f = 0 \<longrightarrow> rf_samples f = src (rf_seq f))"
    and "length (ra_pending r) \<le> 2"
proof -
  have lay: "ra_layout (reassembler_new l) = l" by (simp add: reassembler_new_def)
  have run: "ra_ok src r" "in_order 0 (cursor_position (ra_cursor r)) (map rf_seq out)" "list_all (sound_frame l src) out"
    using run_sound [OF assms(1) ra_ok_new] assms(2,3) lay by (simp_all add: reassembler_new_def)
  show "sorted_wrt (<) (map rf_seq out)"
    using run(2) by (simp add: in_order_def sorted_wrt_map word_less_nat_alt)
  show "\<exists>got. length got = fragment_count l \<and>
      (\<forall>k < fragment_count l. part_of l k (rf_samples f) =
         (if got ! k then part_of l k (src (rf_seq f)) else replicate (part_frames l k * layout_channels l) 0)) \<and>
      rf_concealed_fragments f + parts_held got = fragment_count l \<and>
      rf_concealed_frames f + frames_held l got = FRAME_FRAMES \<and>
      (rf_concealed_fragments f = 0 \<longrightarrow> rf_samples f = src (rf_seq f))" if "f \<in> set out" for f
  proof -
    have "sound_frame l src f" using run(3) that by (simp add: list_all_iff)
    then obtain got where g: "length got = fragment_count l" "rf_samples f = held_samples l (src (rf_seq f)) got"
      "rf_concealed_fragments f = fragment_count l - parts_held got" "rf_concealed_frames f = FRAME_FRAMES - frames_held l got"
      unfolding sound_frame_def by blast
    have "frames_held l got \<le> FRAME_FRAMES"
      using sum_list_mono [of "[0..<fragment_count l]" "\<lambda>k. if got ! k then part_frames l k else 0" "part_frames l"]
      by (simp add: frames_held_def part_frames_sum)
    moreover have "rf_concealed_fragments f = 0 \<longrightarrow> rf_samples f = src (rf_seq f)"
    proof
      assume "rf_concealed_fragments f = 0"
      then have "\<forall>k < fragment_count l. got ! k" using g(1,3) parts_held_le [of got] parts_held_all [of got] by auto
      then show "rf_samples f = src (rf_seq f)" using held_all [OF assms(3)] g(2) by simp
    qed
    ultimately show ?thesis
      by (intro exI [of _ got]) (use g parts_held_le [of got] held_samples_at [OF assms(3)] in \<open>simp add: held_part_def\<close>)
  qed
  have o: "in_order (cursor_position (ra_cursor r)) (cursor_position (ra_cursor r) + 2) (map pd_seq (ra_pending r))"
    using run(1) by (simp add: ra_ok_def)
  show "length (ra_pending r) \<le> 2"
  proof (rule ccontr)
    assume "\<not> length (ra_pending r) \<le> 2"
    then obtain p q t ps where "ra_pending r = p # q # t # ps"
      by (metis One_nat_def Suc_1 le_SucI length_Cons list.size(3) neq_Nil_conv not_less_eq_eq zero_le)
    then show False using o by (auto simp: in_order_cons)
  qed
qed

text \<open>
  C36. Whatever datagrams and deadlines come, in whatever order, the reassembler gives up frames in strictly
  increasing order of their numbers, and of each frame every part is the sender's or silence, with exact
  counts of the parts and of the sample frames concealed: a frame that conceals nothing is the sender's
  frame. At most two frames wait at any time.
\<close>

theorem reassembler_is_faithful:
  assumes "ra_run es (reassembler_new l) = (out, r)" and "list_all (authentic l src) es"
    and "\<And>s. length (src s) = FRAME_FRAMES * layout_channels l"
  shows "sorted_wrt (<) (map rf_seq out) \<and>
    (\<forall>f \<in> set out. \<exists>got. length got = fragment_count l \<and>
      (\<forall>k < fragment_count l. part_of l k (rf_samples f) =
         (if got ! k then part_of l k (src (rf_seq f)) else replicate (part_frames l k * layout_channels l) 0)) \<and>
      rf_concealed_fragments f + parts_held got = fragment_count l \<and>
      rf_concealed_frames f + frames_held l got = FRAME_FRAMES \<and>
      (rf_concealed_fragments f = 0 \<longrightarrow> rf_samples f = src (rf_seq f))) \<and>
    length (ra_pending r) \<le> 2"
  using faithful_run [OF assms] by blast

definition tone :: "u64 \<Rightarrow> u32 list" where
  "tone s = replicate 2880 0x3F800000"

lemma tone_fragment:
  assumes "k < fragment_count Surround51"
  obtains pt where "encode_fragment Surround51 s k (tone s) = Inr pt" and
    "parse_fragment Surround51 pt = Inr \<lparr>pf_seq = s, pf_part = k, pf_samples = part_of Surround51 k (tone s)\<rparr>"
  using encode_parses [of "tone s" Surround51 k s] assms by (auto simp: tone_def FRAME_FRAMES_def list_all_iff is_finite_def)

theorem reassembler_is_faithful_witness:
  "\<exists>pt out r. encode_fragment Surround51 5 0 (tone 5) = Inr pt \<and>
     ra_run [Datagram pt, Deadline] (reassembler_new Surround51) = (out, r) \<and> map rf_seq out = [5] \<and> sorted_wrt (<) (map rf_seq out)"
proof -
  obtain pt where pt: "encode_fragment Surround51 5 0 (tone 5) = Inr pt"
    "parse_fragment Surround51 pt = Inr \<lparr>pf_seq = 5, pf_part = 0, pf_samples = part_of Surround51 0 (tone 5)\<rparr>"
    using tone_fragment [of 0 5] layout_facts(3) [of Surround51] by blast
  have many: "1 < fragment_count Surround51"
    by (simp add: fragment_count_def frames_per_part_def FRAME_FRAMES_def SINGLE_PACKET_PAYLOAD_MAX_def FRAGMENT_HEADER_LEN_def SAMPLE_BYTES_def)
  obtain out r where run: "ra_run [Datagram pt, Deadline] (reassembler_new Surround51) = (out, r)" by fastforce
  then have "map rf_seq out = [5]" using pt(2) many
    by (auto simp: ra_step_def ra_push_def ra_flush_def ra_accept_def reassembler_new_def pending_new_def pending_accept_def pending_complete_def
        pending_finish_def)
  moreover have "sorted_wrt (<) (map rf_seq out)"
    by (rule reassembler_is_faithful [of _ Surround51 _ _ tone, OF run, THEN conjunct1])
      (use pt(2) layout_facts(3) [of Surround51] in \<open>auto simp: authentic_def tone_def FRAME_FRAMES_def\<close>)
  ultimately show ?thesis using pt(1) run by (intro exI [of _ pt] exI [of _ out] exI [of _ r]) simp
qed

section \<open>Frames that arrive whole\<close>

definition whole_frame :: "u64 \<Rightarrow> u32 list \<Rightarrow> reassembled_frame" where
  "whole_frame s x = \<lparr>rf_seq = s, rf_samples = x, rf_concealed_fragments = 0, rf_concealed_frames = 0\<rparr>"

lemma finish_whole:
  assumes "length x = FRAME_FRAMES * layout_channels l" and "length got = fragment_count l" and "\<forall>k < fragment_count l. got ! k"
  shows "pending_finish (holding l s x got) = whole_frame s x"
proof -
  have "frames_held l got = (\<Sum>k\<leftarrow>[0..<fragment_count l]. part_frames l k)"
    unfolding frames_held_def by (intro arg_cong [where f = sum_list] map_cong refl) (use assms(3) in simp)
  moreover have "parts_held got = length got" using assms(2,3) parts_held_all [of got] by metis
  ultimately show ?thesis using held_all [OF assms(1,3)] assms(2) part_frames_sum [of l]
    by (simp add: pending_finish_def holding_def whole_frame_def)
qed

text \<open>
  The state after some of the fragments of the frames 0, 1, ... of a stretch have arrived: G is the set of
  frame and part numbers that have.
\<close>

definition got_parts :: "speaker_layout \<Rightarrow> (nat \<times> nat) set \<Rightarrow> nat \<Rightarrow> bool list" where
  "got_parts l G i = map (\<lambda>k. (i, k) \<in> G) [0..<fragment_count l]"

definition slot :: "speaker_layout \<Rightarrow> u64 \<Rightarrow> (nat \<Rightarrow> u32 list) \<Rightarrow> (nat \<times> nat) set \<Rightarrow> nat \<Rightarrow> pending_frame list" where
  "slot l s src G i = (if True \<in> set (got_parts l G i) then [holding l (s + of_nat i) (src i) (got_parts l G i)] else [])"

definition arrived :: "speaker_layout \<Rightarrow> (nat \<times> nat) set \<Rightarrow> nat \<Rightarrow> bool" where
  "arrived l G i \<longleftrightarrow> (\<forall>k < fragment_count l. (i, k) \<in> G)"

definition cursor_at :: "u64 \<Rightarrow> nat \<Rightarrow> sequence_cursor" where
  "cursor_at s c = (if c = 0 then Next s else cursor_after (s + of_nat (c - 1)))"

lemma length_got_parts [simp]: "length (got_parts l G i) = fragment_count l"
  by (simp add: got_parts_def)

lemma got_parts_insert:
  "k < fragment_count l \<Longrightarrow> got_parts l (insert (i, k) G) i = (got_parts l G i)[k := True]"
  "j \<noteq> i \<Longrightarrow> got_parts l (insert (i, k) G) j = got_parts l G j"
  by (rule nth_equalityI) (auto simp: got_parts_def nth_list_update)

lemma slot_other: "j \<noteq> i \<Longrightarrow> slot l s src (insert (i, k) G) j = slot l s src G j"
  by (simp add: slot_def got_parts_insert)

lemma slot_seq: "p \<in> set (slot l s src G i) \<Longrightarrow> pd_seq p = s + of_nat i"
  by (auto simp: slot_def holding_def split: if_splits)

lemma slot_empty: "\<forall>k. (i, k) \<notin> G \<Longrightarrow> slot l s src G i = []"
  by (auto simp: slot_def got_parts_def)

lemma accept_slot:
  assumes "length (src i) = FRAME_FRAMES * layout_channels l" and "k < fragment_count l" and "\<forall>p \<in> set ps. s + of_nat i < pd_seq p"
  shows "accept_into l \<lparr>pf_seq = s + of_nat i, pf_part = k, pf_samples = part_of l k (src i)\<rparr> (slot l s src G i @ ps) =
    slot l s src (insert (i, k) G) i @ ps"
proof -
  have now: "True \<in> set (got_parts l (insert (i, k) G) i)"
    unfolding got_parts_insert(1) [OF assms(2)] by (rule set_update_memI) (simp add: assms(2))
  show ?thesis
  proof (cases "True \<in> set (got_parts l G i)")
    case True
    then show ?thesis using now holding_accept [OF length_got_parts assms(2,1), of "s + of_nat i" G i]
      by (simp add: slot_def holding_def got_parts_insert(1) [OF assms(2)])
  next
    case False
    then have "got_parts l G i = replicate (fragment_count l) False"
      by (metis (full_types) length_got_parts replicate_eqI)
    then have "pending_accept l k (part_of l k (src i)) (pending_new l (s + of_nat i)) =
        holding l (s + of_nat i) (src i) (got_parts l (insert (i, k) G) i)"
      using holding_accept [OF length_got_parts assms(2,1), of "s + of_nat i" G i] holding_new [OF assms(1), of "s + of_nat i"]
      by (simp add: got_parts_insert(1) [OF assms(2)])
    then show ?thesis using False now assms(3) by (cases ps) (auto simp: slot_def)
  qed
qed

lemma accept_past: "\<forall>p \<in> set qs. pd_seq p < pf_seq f \<Longrightarrow> accept_into l f (qs @ ps) = qs @ accept_into l f ps"
  by (induction qs) auto

lemma drain_slot:
  assumes "length (src i) = FRAME_FRAMES * layout_channels l" and "\<forall>p \<in> set ps. pd_seq p \<noteq> s + of_nat i"
  shows "drain_ready (Next (s + of_nat i)) (slot l s src G i @ ps) =
    (if arrived l G i then (case drain_ready (cursor_after (s + of_nat i)) ps of (c, ps', out) \<Rightarrow> (c, ps', whole_frame (s + of_nat i) (src i) # out))
     else (Next (s + of_nat i), slot l s src G i @ ps, []))"
proof (cases "True \<in> set (got_parts l G i)")
  case False
  then have "\<not> arrived l G i" using layout_facts(3) [of l] by (auto simp: arrived_def got_parts_def)
  then show ?thesis using False assms(2) by (cases ps) (auto simp: slot_def)
next
  case True
  let ?p = "holding l (s + of_nat i) (src i) (got_parts l G i)"
  have comp: "pending_complete ?p \<longleftrightarrow> arrived l G i"
    using parts_held_all [of "got_parts l G i"] by (auto simp: pending_complete_def holding_def arrived_def got_parts_def)
  have seq: "pd_seq ?p = s + of_nat i" by (simp add: holding_def)
  have "pending_finish ?p = whole_frame (s + of_nat i) (src i)" if "arrived l G i"
    using that finish_whole [OF assms(1) length_got_parts, of G i] by (simp add: arrived_def got_parts_def)
  then show ?thesis using True comp seq by (auto simp: slot_def)
qed

text \<open>A stretch of n frames from the number s: the numbers do not wrap, and every fragment parses to its part.\<close>

definition stretch :: "speaker_layout \<Rightarrow> u64 \<Rightarrow> nat \<Rightarrow> (nat \<Rightarrow> u32 list) \<Rightarrow> (nat \<Rightarrow> nat \<Rightarrow> bytes) \<Rightarrow> bool" where
  "stretch l s n src frag \<longleftrightarrow> unat s + n \<le> 2 ^ 64 \<and>
     (\<forall>i < n. length (src i) = FRAME_FRAMES * layout_channels l \<and>
       (\<forall>k < fragment_count l. parse_fragment l (frag i k) =
          Inr \<lparr>pf_seq = s + of_nat i, pf_part = k, pf_samples = part_of l k (src i)\<rparr>))"

lemma stretch_number: "stretch l s n src frag \<Longrightarrow> i < n \<Longrightarrow> unat (s + of_nat i) = unat s + i"
  using unat_u64_bound [of s] by (simp add: stretch_def unat_word_ariths unat_of_nat take_bit_eq_mod)

lemma cursor_at_next: "stretch l s n src frag \<Longrightarrow> c < n \<Longrightarrow> cursor_at s c = Next (s + of_nat c)"
proof -
  assume st: "stretch l s n src frag" and c: "c < n"
  show ?thesis
  proof (cases c)
    case (Suc m)
    have "s + of_nat m \<noteq> - 1"
    proof
      assume "s + of_nat m = - 1"
      then have "Suc (unat (s + of_nat m)) = 2 ^ 64"
        using cursor_after_position [of "s + of_nat m"] by (simp add: cursor_after_def)
      then show False using stretch_number [OF st, of m] st c Suc by (simp add: stretch_def)
    qed
    then show ?thesis using Suc by (simp add: cursor_at_def cursor_after_def algebra_simps)
  qed (simp add: cursor_at_def)
qed

lemma late_fragment:
  assumes "stretch l s n src frag" and "ra_layout r = l" and "ra_cursor r = cursor_at s c" and "j < c" and "c \<le> n" and "k < fragment_count l"
  shows "ra_step (Datagram (frag j k)) r = ([], r)"
proof -
  have parse: "parse_fragment l (frag j k) = Inr \<lparr>pf_seq = s + of_nat j, pf_part = k, pf_samples = part_of l k (src j)\<rparr>"
    using assms by (simp add: stretch_def)
  obtain m where m: "c = Suc m" using assms(4) by (cases c) auto
  have "s + of_nat j < t" if "cursor_at s c = Next t" for t
  proof -
    have "unat t = cursor_position (cursor_after (s + of_nat m))" using that m by (simp add: cursor_at_def)
    then show ?thesis using cursor_after_position [of "s + of_nat m"] stretch_number [OF assms(1), of j]
        stretch_number [OF assms(1), of m] assms(4,5) m by (simp add: word_less_nat_alt)
  qed
  moreover have "cursor_at s c \<noteq> Uninitialized" by (simp add: cursor_at_def cursor_after_def)
  ultimately show ?thesis using parse assms(2,3) by (cases "cursor_at s c") (auto simp: ra_step_def ra_push_def)
qed

definition assembling :: "speaker_layout \<Rightarrow> u64 \<Rightarrow> nat \<Rightarrow> (nat \<Rightarrow> u32 list) \<Rightarrow> (nat \<times> nat) set \<Rightarrow> nat \<Rightarrow> reassembler \<Rightarrow> bool" where
  "assembling l s n src G c r \<longleftrightarrow> ra_layout r = l \<and> c \<le> n \<and> ra_cursor r = cursor_at s c \<and>
     ra_pending r = slot l s src G c @ slot l s src G (Suc c) \<and>
     (\<forall>i < c. arrived l G i) \<and> \<not> arrived l G c \<and> (\<forall>(i, k) \<in> G. i < n \<and> i \<le> Suc c \<and> k < fragment_count l)"

lemma none_past: "assembling l s n src G c r \<Longrightarrow> n \<le> i \<Longrightarrow> slot l s src G i = []"
  by (rule slot_empty) (auto simp: assembling_def)

lemma arrived_insert: "arrived l G i \<Longrightarrow> arrived l (insert x G) i"
  by (auto simp: arrived_def)

lemma advance:
  assumes "stretch l s n src frag" and "c < n" and "\<forall>i < c. arrived l G i" and "\<forall>(i, k) \<in> G. i < n \<and> i \<le> Suc c \<and> k < fragment_count l"
  shows "\<exists>c' \<ge> c. c' \<le> n \<and> drain_ready (Next (s + of_nat c)) (slot l s src G c @ slot l s src G (Suc c)) =
      (cursor_at s c', slot l s src G c' @ slot l s src G (Suc c'), map (\<lambda>i. whole_frame (s + of_nat i) (src i)) [c..<c']) \<and>
    (\<forall>i < c'. arrived l G i) \<and> \<not> arrived l G c'"
proof -
  have len: "length (src i) = FRAME_FRAMES * layout_channels l" if "i < n" for i using assms(1) that by (simp add: stretch_def)
  have apart: "s + of_nat (Suc c) \<noteq> s + of_nat c" if "Suc c < n"
    using stretch_number [OF assms(1) that] stretch_number [OF assms(1) assms(2)] by (metis n_not_Suc_n add_Suc_right)
  have none: "slot l s src G i = []" if "n \<le> i \<or> Suc c < i" for i
    by (rule slot_empty) (use assms(4) that in auto)
  have seqs: "\<forall>p \<in> set (slot l s src G (Suc c)). pd_seq p \<noteq> s + of_nat c"
    using apart slot_seq none [of "Suc c"] by (metis empty_iff empty_set not_le)
  have never: "\<not> arrived l G i" if "n \<le> i \<or> Suc c < i" for i
    using assms(4) that layout_facts(3) [of l] unfolding arrived_def by (metis (no_types, lifting) case_prodD not_le)
  note first = drain_slot [of src c l "slot l s src G (Suc c)" s G, OF len [OF assms(2)] seqs]
  show ?thesis
  proof (cases "arrived l G c")
    case False
    then show ?thesis using first assms(2,3) cursor_at_next [OF assms(1,2)] by (intro exI [of _ c]) simp
  next
    case True
    have past: "cursor_after (s + of_nat c) = cursor_at s (Suc c)" by (simp add: cursor_at_def)
    show ?thesis
    proof (cases "Suc c < n \<and> arrived l G (Suc c)")
      case both: True
      then have n2: "Suc c < n" by simp
      have "drain_ready (Next (s + of_nat (Suc c))) (slot l s src G (Suc c) @ []) =
          (cursor_at s (Suc (Suc c)), [], [whole_frame (s + of_nat (Suc c)) (src (Suc c))])"
        using drain_slot [of src "Suc c" l "[]" s G, OF len [OF n2]] both by (simp add: cursor_at_def)
      then have "drain_ready (cursor_after (s + of_nat c)) (slot l s src G (Suc c)) =
          (cursor_at s (Suc (Suc c)), [], [whole_frame (s + of_nat (Suc c)) (src (Suc c))])"
        using cursor_at_next [OF assms(1) n2] past by simp
      then show ?thesis using first True both assms(3) none never
        by (intro exI [of _ "Suc (Suc c)"]) (auto simp: less_Suc_eq)
    next
      case one: False
      have "drain_ready (cursor_after (s + of_nat c)) (slot l s src G (Suc c)) = (cursor_at s (Suc c), slot l s src G (Suc c), [])"
      proof (cases "Suc c < n")
        case n2: True
        then have "\<not> arrived l G (Suc c)" using one by simp
        then show ?thesis using drain_slot [of src "Suc c" l "[]" s G, OF len [OF n2]] cursor_at_next [OF assms(1) n2] past by simp
      qed (use none [of "Suc c"] past in simp)
      moreover have "\<not> arrived l G (Suc c)" using one never [of "Suc c"] by fastforce
      ultimately show ?thesis using first True assms(2,3) none [of "Suc (Suc c)"]
        by (intro exI [of _ "Suc c"]) (auto simp: less_Suc_eq)
    qed
  qed
qed

lemma arrival_step:
  assumes "stretch l s n src frag" and "assembling l s n src G c r" and "j < n" and "k < fragment_count l" and "j \<le> Suc c"
  shows "\<exists>c' r'. ra_step (Datagram (frag j k)) r = (map (\<lambda>i. whole_frame (s + of_nat i) (src i)) [c..<c'], r') \<and> c \<le> c' \<and>
    assembling l s n src (insert (j, k) G) c' r'"
proof (cases "j < c")
  case True
  have "insert (j, k) G = G" using assms(2,4) True by (auto simp: assembling_def arrived_def)
  then show ?thesis using late_fragment [OF assms(1) _ _ True _ assms(4), of r] assms(2)
    by (intro exI [of _ c] exI [of _ r]) (simp add: assembling_def)
next
  case False
  let ?f = "\<lparr>pf_seq = s + of_nat j, pf_part = k, pf_samples = part_of l k (src j)\<rparr>" and ?G = "insert (j, k) G"
  note inv = assms(2) [unfolded assembling_def]
  have c: "c < n" using False assms(3) by simp
  have len: "length (src j) = FRAME_FRAMES * layout_channels l" using assms(1,3) by (simp add: stretch_def)
  have num: "unat (s + of_nat i) = unat s + i" if "i < n" for i by (rule stretch_number [OF assms(1) that])
  have below: "s + of_nat i < s + of_nat i'" if "i < i'" "i' < n" for i i'
    using num [of i] num [of i'] that by (simp add: word_less_nat_alt)
  have ord: "\<forall>p \<in> set (slot l s src G (Suc c)). s + of_nat c < pd_seq p"
    using slot_seq below [of c "Suc c"] none_past [OF assms(2), of "Suc c"] by (metis empty_iff empty_set lessI not_le)
  have into: "accept_into l ?f (ra_pending r) = slot l s src ?G c @ slot l s src ?G (Suc c)"
  proof (cases "j = c")
    case True
    have "accept_into l ?f (slot l s src G c @ slot l s src G (Suc c)) = slot l s src ?G c @ slot l s src G (Suc c)"
      using accept_slot [of src c l k "slot l s src G (Suc c)" s G] len assms(4) ord True by simp
    then show ?thesis using inv True by (simp add: slot_other)
  next
    case no: False
    then have j: "j = Suc c" using False assms(5) by simp
    have "accept_into l ?f (slot l s src G c @ slot l s src G (Suc c)) = slot l s src G c @ accept_into l ?f (slot l s src G (Suc c))"
      by (rule accept_past) (use slot_seq below [of c "Suc c"] j assms(3) in fastforce)
    also have "accept_into l ?f (slot l s src G (Suc c)) = slot l s src ?G (Suc c)"
      using accept_slot [of src "Suc c" l k "[]" s G] len assms(4) j by simp
    finally show ?thesis using inv j by (simp add: slot_other)
  qed
  have parse: "parse_fragment l (frag j k) = Inr ?f" using assms(1,3,4) by (simp add: stretch_def)
  have near: "\<not> s + of_nat j < s + of_nat c" "s + of_nat j - (s + of_nat c) \<noteq> 2" "\<not> 2 < s + of_nat j - (s + of_nat c)"
  proof -
    have "s + of_nat j - (s + of_nat c) = (0 :: u64) \<or> s + of_nat j - (s + of_nat c) = (1 :: u64)"
      using False assms(5) by (cases "j = c") (auto simp: le_Suc_eq)
    then show "s + of_nat j - (s + of_nat c) \<noteq> 2" "\<not> 2 < s + of_nat j - (s + of_nat c)" by auto
    show "\<not> s + of_nat j < s + of_nat c" using num [OF assms(3)] num [OF c] False by (simp add: word_less_nat_alt)
  qed
  have step: "ra_step (Datagram (frag j k)) r = ra_accept ?f (Next (s + of_nat c)) (ra_pending r) [] r"
    using parse inv near cursor_at_next [OF assms(1) c] by (simp add: ra_step_def ra_push_def Let_def split: prod.splits)
  have G: "\<forall>(i, k) \<in> ?G. i < n \<and> i \<le> Suc c \<and> k < fragment_count l" using inv assms(3-5) by auto
  obtain c' where c': "c \<le> c'" "c' \<le> n" "drain_ready (Next (s + of_nat c)) (slot l s src ?G c @ slot l s src ?G (Suc c)) =
      (cursor_at s c', slot l s src ?G c' @ slot l s src ?G (Suc c'), map (\<lambda>i. whole_frame (s + of_nat i) (src i)) [c..<c'])"
    "\<forall>i < c'. arrived l ?G i" "\<not> arrived l ?G c'"
    using advance [OF assms(1) c _ G] inv arrived_insert [of l G _ "(j, k)"] by blast
  have "ra_step (Datagram (frag j k)) r = (map (\<lambda>i. whole_frame (s + of_nat i) (src i)) [c..<c'],
      r\<lparr>ra_cursor := cursor_at s c', ra_pending := slot l s src ?G c' @ slot l s src ?G (Suc c')\<rparr>)"
    unfolding step ra_accept_def using inv into c'(3) by simp
  moreover have "\<forall>(i, k) \<in> ?G. i < n \<and> i \<le> Suc c' \<and> k < fragment_count l" using G c'(1) by fastforce
  ultimately show ?thesis using inv c' by (intro exI [of _ c'] exI) (auto simp: assembling_def)
qed

lemma arrivals_run:
  assumes "stretch l s n src frag"
  shows "assembling l s n src G c r \<Longrightarrow> set as \<subseteq> {..<n} \<times> {..<fragment_count l} \<Longrightarrow> {..<n} \<times> {..<fragment_count l} \<subseteq> G \<union> set as \<Longrightarrow>
    (\<And>xs i j k k' ys. as = xs @ (j, k) # ys \<Longrightarrow> i + 2 \<le> j \<Longrightarrow> k' < fragment_count l \<Longrightarrow> (i, k') \<in> G \<union> set xs) \<Longrightarrow>
    ra_run (map (\<lambda>(i, k). Datagram (frag i k)) as) r =
      (map (\<lambda>i. whole_frame (s + of_nat i) (src i)) [c..<n], \<lparr>ra_layout = l, ra_cursor = cursor_at s n, ra_pending = []\<rparr>)"
proof (induction as arbitrary: G c r)
  case Nil
  have "\<not> c < n" using Nil(1,3) by (auto simp: assembling_def arrived_def)
  then have "c = n" using Nil(1) by (simp add: assembling_def)
  then show ?case using Nil(1) none_past [OF Nil(1), of n] none_past [OF Nil(1), of "Suc n"]
    by (cases r) (simp add: assembling_def)
next
  case (Cons a as)
  obtain j k where a: "a = (j, k)" by fastforce
  have jk: "j < n" "k < fragment_count l" using Cons.prems(2) a by auto
  have "j \<le> Suc c"
  proof (rule ccontr)
    assume "\<not> j \<le> Suc c"
    then have "arrived l G c" using Cons.prems(4) [of "[]" j k as c] a by (auto simp: arrived_def)
    then show False using Cons.prems(1) by (simp add: assembling_def)
  qed
  then obtain c' r' where step: "ra_step (Datagram (frag j k)) r = (map (\<lambda>i. whole_frame (s + of_nat i) (src i)) [c..<c'], r')"
    "c \<le> c'" "assembling l s n src (insert (j, k) G) c' r'"
    using arrival_step [OF assms Cons.prems(1) jk] by blast
  have "ra_run (map (\<lambda>(i, k). Datagram (frag i k)) as) r' =
      (map (\<lambda>i. whole_frame (s + of_nat i) (src i)) [c'..<n], \<lparr>ra_layout = l, ra_cursor = cursor_at s n, ra_pending = []\<rparr>)"
  proof (rule Cons.IH [OF step(3)])
    show "set as \<subseteq> {..<n} \<times> {..<fragment_count l}" using Cons.prems(2) by simp
    show "{..<n} \<times> {..<fragment_count l} \<subseteq> insert (j, k) G \<union> set as" using Cons.prems(3) a by auto
    show "(i, k'') \<in> insert (j, k) G \<union> set xs" if "as = xs @ (j', k') # ys" "i + 2 \<le> j'" "k'' < fragment_count l" for xs i j' k' k'' ys
      using Cons.prems(4) [of "a # xs" j' k' ys i k''] that a by auto
  qed
  moreover have "c' \<le> n" using step(3) by (simp add: assembling_def)
  moreover have "[c..<n] = [c..<c'] @ [c'..<n]" using \<open>c' \<le> n\<close> step(2) by (metis le_add_diff_inverse upt_add_eq_append)
  ultimately show ?case using step(1) a by simp
qed

text \<open>
  C37. Frames that arrive whole are given back exactly, however the network reorders and repeats their
  fragments within a window: when the fragments of consecutive frames, beginning with the frame due next
  (or, in a fresh reassembler, with a fragment of the first), arrive in any order and with any repetitions
  such that no fragment comes before a frame two or more places earlier is complete, and no deadline
  expires among them, the reassembler gives up these frames in order, each with the sender's samples and
  nothing concealed, and expects the frame after the last.
\<close>

theorem frames_survive_reordering:
  assumes "unat s + n \<le> 2 ^ 64" and "0 < n"
    and "\<And>i. i < n \<Longrightarrow> length (src i) = FRAME_FRAMES * layout_channels (ra_layout r) \<and> list_all is_finite (src i)"
    and "\<And>i k. i < n \<Longrightarrow> k < fragment_count (ra_layout r) \<Longrightarrow> encode_fragment (ra_layout r) (s + of_nat i) k (src i) = Inr (frag i k)"
    and "set as = {..<n} \<times> {..<fragment_count (ra_layout r)}"
    and "\<And>xs i j k k' ys. as = xs @ (j, k) # ys \<Longrightarrow> i + 2 \<le> j \<Longrightarrow> k' < fragment_count (ra_layout r) \<Longrightarrow> (i, k') \<in> set xs"
    and "ra_pending r = []" and "ra_cursor r = Next s \<or> ra_cursor r = Uninitialized \<and> fst (hd as) = 0"
  shows "ra_run (map (\<lambda>(i, k). Datagram (frag i k)) as) r =
    (map (\<lambda>i. whole_frame (s + of_nat i) (src i)) [0..<n], r\<lparr>ra_cursor := cursor_after (s + of_nat (n - 1))\<rparr>)"
proof -
  let ?l = "ra_layout r" and ?r = "r\<lparr>ra_cursor := Next s\<rparr>"
  have st: "stretch ?l s n src frag"
    using assms(1,3,4) encode_parses [of "src _" ?l] unfolding stretch_def by (metis sum.inject(2))
  have pos: "0 < fragment_count ?l" by (rule layout_facts(3))
  have "assembling ?l s n src {} 0 ?r"
    using assms(7) pos slot_empty [of _ "{}"] by (auto simp: assembling_def cursor_at_def arrived_def)
  then have run: "ra_run (map (\<lambda>(i, k). Datagram (frag i k)) as) ?r =
      (map (\<lambda>i. whole_frame (s + of_nat i) (src i)) [0..<n], \<lparr>ra_layout = ?l, ra_cursor = cursor_at s n, ra_pending = []\<rparr>)"
  proof (rule arrivals_run [OF st])
    show "(i, k') \<in> {} \<union> set xs" if "as = xs @ (j, k) # ys" "i + 2 \<le> j" "k' < fragment_count ?l" for xs i j k k' ys
      using assms(6) [OF that] by simp
  qed (simp_all add: assms(5))
  have fin: "\<lparr>ra_layout = ?l, ra_cursor = cursor_at s n, ra_pending = []\<rparr> = r\<lparr>ra_cursor := cursor_after (s + of_nat (n - 1))\<rparr>"
    using assms(2,7) by (cases r) (simp add: cursor_at_def)
  have "(0, 0) \<in> set as" unfolding assms(5) using assms(2) pos by simp
  then have "as \<noteq> []" by auto
  then obtain j k as' where as: "as = (j, k) # as'" by (metis list.exhaust surj_pair)
  have "(j, k) \<in> set as" using as by simp
  then have jk: "j < n" "k < fragment_count ?l" unfolding assms(5) by simp_all
  have "ra_step (Datagram (frag j k)) r = ra_step (Datagram (frag j k)) ?r" if "ra_cursor r = Uninitialized" "j = 0"
  proof -
    have "parse_fragment ?l (frag j k) = Inr \<lparr>pf_seq = s, pf_part = k, pf_samples = part_of ?l k (src j)\<rparr>"
      using st jk that(2) by (simp add: stretch_def)
    then show ?thesis using that(1) by (simp add: ra_step_def ra_push_def ra_accept_def split: prod.splits)
  qed
  moreover have "r = ?r" if "ra_cursor r = Next s" using that by (cases r) simp
  ultimately have "ra_step (Datagram (frag j k)) r = ra_step (Datagram (frag j k)) ?r \<or> r = ?r" using assms(8) as by auto
  then have "ra_run (map (\<lambda>(i, k). Datagram (frag i k)) as) r = ra_run (map (\<lambda>(i, k). Datagram (frag i k)) as) ?r"
    using as by auto
  then show ?thesis using run fin by simp
qed

text \<open>Three frames of surround sound: two arrive interleaved backwards, with a repetition, and then the third.\<close>

definition shuffled :: "(nat \<times> nat) list" where
  "shuffled = (0, 0) # rev (List.product [0..<2] [0..<fragment_count Surround51]) @ map (Pair 2) [0..<fragment_count Surround51]"

theorem frames_survive_reordering_witness:
  "\<exists>frag. (\<forall>i < 3. \<forall>k < fragment_count Surround51. encode_fragment Surround51 (7 + of_nat i) k (tone (7 + of_nat i)) = Inr (frag i k)) \<and>
     ra_run (map (\<lambda>(i, k). Datagram (frag i k)) shuffled) (reassembler_new Surround51) =
     (map (\<lambda>i. whole_frame (7 + of_nat i) (tone (7 + of_nat i))) [0..<3], (reassembler_new Surround51)\<lparr>ra_cursor := Next 10\<rparr>)"
proof -
  let ?n = "fragment_count Surround51" and ?src = "\<lambda>i. tone (7 + of_nat i)"
  let ?frag = "\<lambda>i k. case encode_fragment Surround51 (7 + of_nat i) k (?src i) of Inr pt \<Rightarrow> pt | Inl _ \<Rightarrow> []"
  have enc: "encode_fragment Surround51 (7 + of_nat i) k (?src i) = Inr (?frag i k)" if k: "k < ?n" for i k
  proof -
    obtain pt where "encode_fragment Surround51 (7 + of_nat i) k (?src i) = Inr pt" using tone_fragment [OF k, of "7 + of_nat i"] by blast
    then show ?thesis by simp
  qed
  have lay: "ra_layout (reassembler_new Surround51) = Surround51" by (simp add: reassembler_new_def)
  have pos: "0 < ?n" by (rule layout_facts(3))
  have "ra_run (map (\<lambda>(i, k). Datagram (?frag i k)) shuffled) (reassembler_new Surround51) =
     (map (\<lambda>i. whole_frame (7 + of_nat i) (?src i)) [0..<3], (reassembler_new Surround51)\<lparr>ra_cursor := cursor_after (7 + of_nat (3 - 1))\<rparr>)"
  proof (rule frames_survive_reordering, unfold lay)
    show "set shuffled = {..<3} \<times> {..<?n}"
      using pos by (auto simp: shuffled_def numeral_3_eq_3 numeral_2_eq_2 less_Suc_eq)
    show "(i, k') \<in> set xs" if as: "shuffled = xs @ (j, k) # ys" and w: "i + 2 \<le> j" and k': "k' < ?n" for xs i j k k' ys
    proof -
      let ?P = "(0, 0) # rev (List.product [0..<2] [0..<?n])" and ?T = "map (Pair 2) [0..<?n]"
      have split: "?P @ ?T = xs @ (j, k) # ys" using as by (simp add: shuffled_def)
      have "(j, k) \<in> set (?P @ ?T)" unfolding split by simp
      then have j: "j = 2" "i = 0" using w by auto
      have "set ?P \<subseteq> set xs"
      proof -
        obtain us where "?P = xs @ us \<and> us @ ?T = (j, k) # ys \<or> ?P @ us = xs \<and> ?T = us @ (j, k) # ys"
          using split unfolding append_eq_append_conv2 by blast
        moreover have "us = []" if "?P = xs @ us" "us @ ?T = (j, k) # ys"
        proof (cases us)
          case (Cons u us')
          then have "(2, k) \<in> set ?P" using that j by simp
          then show ?thesis by auto
        qed simp
        ultimately show ?thesis by (metis append.right_neutral set_append sup_ge1 subset_refl)
      qed
      then show ?thesis using j k' by auto
    qed
  qed (use enc in \<open>auto simp: reassembler_new_def tone_def FRAME_FRAMES_def list_all_iff is_finite_def shuffled_def\<close>)
  then show ?thesis using enc by (intro exI [of _ ?frag]) (simp add: cursor_after_def)
qed

end
