(* ===== verification/WsShell.thy ===== *)
theory WsShell
  imports MuxWriter WsUrl "HOL-Library.Sublist"
begin

text \<open>
  The WebSocket carrier of the multiplexed connection (core/audiohubd/src/wsshell.rs): the upgrade with
  the reader that stops at the end of the HTTP header, the reading half, which gives a byte stream and
  hands the peer's pings over, and the writing half, which turns one write into one message and keeps
  the connection alive. The WebSocket library itself (tungstenite) is not part of the repository: what
  its reading side returns is a list of results, its writing side a record of functions with the
  documented laws \<open>framer_lawful\<close>.
\<close>

section \<open>The end of the HTTP header\<close>

definition UPGRADE_TIMEOUT :: nat where
  "UPGRADE_TIMEOUT = 10000000"

definition MAX_HEADER_BYTES :: nat where
  "MAX_HEADER_BYTES = 16 * 1024"

definition PING_INTERVAL :: nat where
  "PING_INTERVAL = 20000000"

datatype io_kind = IoWouldBlock | IoTimedOut | IoInterrupted | IoBrokenPipe | IoInvalidData | IoOther

definition io_blocked :: "io_kind \<Rightarrow> bool" where
  "io_blocked k \<longleftrightarrow> k = IoWouldBlock \<or> k = IoTimedOut"

definition header_state :: "nat \<Rightarrow> u8 \<Rightarrow> nat" where
  "header_state m b =
     (if m = 0 \<and> b = 13 then 1
      else if m = 1 \<and> b = 10 then 2
      else if m = 2 \<and> b = 13 then 3
      else if m = 3 \<and> b = 10 then 4
      else if b = 13 then 1
      else 0)"

fun scan_header_end :: "nat \<Rightarrow> bytes \<Rightarrow> nat \<times> nat \<times> bool" where
  "scan_header_end m [] = (0, m, False)"
| "scan_header_end m (b # bs) =
     (let m' = header_state m b in
      if m' = 4 then (1, 4, True)
      else (case scan_header_end m' bs of (n, m2, d) \<Rightarrow> (n + 1, m2, d)))"

text \<open>\<open>ho_sock\<close> is what the socket has received and nobody has taken yet.\<close>

record header_only =
  ho_sock :: bytes
  ho_matched :: nat
  ho_done :: bool
  ho_total :: nat

definition header_only_new :: "bytes \<Rightarrow> header_only" where
  "header_only_new sock = \<lparr>ho_sock = sock, ho_matched = 0, ho_done = False, ho_total = 0\<rparr>"

text \<open>
  A read into a buffer of \<open>cap\<close> bytes; \<open>pk\<close> is the answer of the socket's peek, an error or the number
  of bytes it shows, of which there are at most those it has.
\<close>

definition header_read :: "nat \<Rightarrow> io_kind + nat \<Rightarrow> header_only \<Rightarrow> (io_kind + bytes) \<times> header_only" where
  "header_read cap pk h =
     (if ho_done h then (Inl IoWouldBlock, h)
      else if cap = 0 then (Inr [], h)
      else case pk of
        Inl k \<Rightarrow> (Inl k, h)
      | Inr n \<Rightarrow>
          let shown = take (min n cap) (ho_sock h) in
          if shown = [] then (Inr [], h)
          else case scan_header_end (ho_matched h) shown of
            (tk, m, d) \<Rightarrow>
              let h' = h\<lparr>ho_sock := drop tk (ho_sock h), ho_matched := m, ho_done := d, ho_total := ho_total h + tk\<rparr> in
              if MAX_HEADER_BYTES < ho_total h' then (Inl IoInvalidData, h') else (Inr (take tk shown), h'))"

section \<open>The upgrade\<close>

definition DEFLATE :: string where
  "DEFLATE = ''permessage-deflate''"

text \<open>The values of the extension header, decoded.\<close>

definition assert_no_deflate :: "string list \<Rightarrow> bool" where
  "assert_no_deflate vals \<longleftrightarrow> \<not> list_ex (\<lambda>v. sublist DEFLATE (to_ascii_lowercase v)) vals"

text \<open>The server's answer to an offer: the response it was about to send, or a refusal.\<close>

definition decline_extensions :: "string list \<Rightarrow> string list \<Rightarrow> string list option" where
  "decline_extensions offered response = (if assert_no_deflate response then Some response else None)"

text \<open>
  The attempts of the library's handshake, each with the time it takes; an interrupted one is resumed
  until the deadline. The response is the value of the extension header of the peer's answer.
\<close>

datatype attempt = AttemptDone "string list" | AttemptInterrupted | AttemptFailed

datatype upgrade_error = TlsUnsupported | OffersDeflate | UpgradeTimedOut | UpgradeFailed

fun upgrade_loop :: "nat \<Rightarrow> nat \<Rightarrow> (nat \<times> attempt) list \<Rightarrow> (upgrade_error + string list) option \<times> nat" where
  "upgrade_loop deadline now [] = (None, now)"
| "upgrade_loop deadline now ((d, a) # as) =
     (case a of
        AttemptDone resp \<Rightarrow> (Some (Inr resp), now + d)
      | AttemptInterrupted \<Rightarrow>
          if deadline \<le> now + d then (Some (Inl UpgradeTimedOut), now + d) else upgrade_loop deadline (now + d) as
      | AttemptFailed \<Rightarrow> (Some (Inl UpgradeFailed), now + d))"

datatype ws_role = RoleClient | RoleServer

definition ws_connect :: "ws_url \<Rightarrow> string list \<Rightarrow> nat \<Rightarrow> (nat \<times> attempt) list \<Rightarrow> (upgrade_error + ws_role) option \<times> nat" where
  "ws_connect url request now as =
     (if ws_tls url then (Some (Inl TlsUnsupported), now)
      else if \<not> assert_no_deflate request then (Some (Inl OffersDeflate), now)
      else case upgrade_loop (now + UPGRADE_TIMEOUT) now as of
        (None, t) \<Rightarrow> (None, t)
      | (Some (Inl e), t) \<Rightarrow> (Some (Inl e), t)
      | (Some (Inr resp), t) \<Rightarrow> (Some (if assert_no_deflate resp then Inr RoleClient else Inl OffersDeflate), t))"

definition ws_accept :: "nat \<Rightarrow> (nat \<times> attempt) list \<Rightarrow> (upgrade_error + ws_role) option \<times> nat" where
  "ws_accept now as =
     (case upgrade_loop (now + UPGRADE_TIMEOUT) now as of
        (None, t) \<Rightarrow> (None, t)
      | (Some (Inl e), t) \<Rightarrow> (Some (Inl e), t)
      | (Some (Inr _), t) \<Rightarrow> (Some (Inr RoleServer), t))"

section \<open>What the halves share\<close>

record ws_shared =
  sh_pongs_due :: "bytes list"
  sh_pings_written :: nat
  sh_pongs_written :: nat
  sh_pings_read :: nat
  sh_pongs_read :: nat
  sh_messages_read :: nat
  sh_messages_written :: nat

definition ws_shared_new :: ws_shared where
  "ws_shared_new = \<lparr>sh_pongs_due = [], sh_pings_written = 0, sh_pongs_written = 0, sh_pings_read = 0, sh_pongs_read = 0,
     sh_messages_read = 0, sh_messages_written = 0\<rparr>"

definition owe_pong :: "bytes \<Rightarrow> ws_shared \<Rightarrow> ws_shared" where
  "owe_pong p s =
     (let q = sh_pongs_due s; q' = (if 4 \<le> length q then tl q else q) in s\<lparr>sh_pongs_due := q' @ [p]\<rparr>)"

definition take_pongs :: "ws_shared \<Rightarrow> bytes list \<times> ws_shared" where
  "take_pongs s = (sh_pongs_due s, s\<lparr>sh_pongs_due := []\<rparr>)"

section \<open>What the library says\<close>

datatype ws_message = MsgText bytes | MsgBinary bytes | MsgPing bytes | MsgPong bytes | MsgClose | MsgFrame

datatype ws_failure = FailIo io_kind | FailConnectionClosed | FailAlreadyClosed | FailWriteBufferFull | FailProtocol

definition ws_blocked :: "ws_failure \<Rightarrow> bool" where
  "ws_blocked e = (case e of FailIo k \<Rightarrow> io_blocked k | _ \<Rightarrow> False)"

definition to_io :: "ws_failure \<Rightarrow> io_kind" where
  "to_io e = (case e of FailIo k \<Rightarrow> k | _ \<Rightarrow> IoOther)"

section \<open>The two halves\<close>

text \<open>
  The reader, the writer and what they share, as one state on which the operations of both halves act:
  \<open>rd_incoming\<close> are the results the library's reads will give, in order, \<open>rd_rem\<close> and \<open>rd_off\<close> the message
  being given out; \<open>ww_ws\<close> is the framer of the writer.
\<close>

record 'w ws_halves =
  rd_incoming :: "(ws_failure + ws_message) list"
  rd_rem :: bytes
  rd_off :: nat
  ww_ws :: 'w
  ww_interval :: nat
  ww_next_ping :: nat
  hv_shared :: ws_shared

definition ws_split :: "(ws_failure + ws_message) list \<Rightarrow> 'w \<Rightarrow> nat \<Rightarrow> 'w ws_halves" where
  "ws_split incoming framer now =
     \<lparr>rd_incoming = incoming, rd_rem = [], rd_off = 0, ww_ws = framer, ww_interval = PING_INTERVAL,
      ww_next_ping = now + PING_INTERVAL, hv_shared = ws_shared_new\<rparr>"

section \<open>The reading half\<close>

definition give_rest :: "nat \<Rightarrow> 'w ws_halves \<Rightarrow> (io_kind + bytes) option \<times> 'w ws_halves" where
  "give_rest cap r =
     (let n = min cap (length (rd_rem r) - rd_off r) in
      (Some (Inr (byte_slice (rd_off r) (rd_off r + n) (rd_rem r))), r\<lparr>rd_off := rd_off r + n\<rparr>))"

text \<open>
  One read; the loop of the code goes round a second time only to give out a message it has just
  received. No result: the library still waits.
\<close>

definition ws_read :: "nat \<Rightarrow> 'w ws_halves \<Rightarrow> (io_kind + bytes) option \<times> 'w ws_halves" where
  "ws_read cap r =
     (if rd_off r < length (rd_rem r) then give_rest cap r
      else case rd_incoming r of
        [] \<Rightarrow> (None, r)
      | x # xs \<Rightarrow>
          let r = r\<lparr>rd_incoming := xs\<rparr>; s = hv_shared r in
          case x of
            Inr (MsgBinary b) \<Rightarrow>
              let r = r\<lparr>hv_shared := s\<lparr>sh_messages_read := sh_messages_read s + 1\<rparr>, rd_rem := b, rd_off := 0\<rparr> in
              if b = [] then (Some (Inl IoWouldBlock), r) else give_rest cap r
          | Inr (MsgPing p) \<Rightarrow> (Some (Inl IoWouldBlock), r\<lparr>hv_shared := owe_pong p (s\<lparr>sh_pings_read := sh_pings_read s + 1\<rparr>)\<rparr>)
          | Inr (MsgPong _) \<Rightarrow> (Some (Inl IoWouldBlock), r\<lparr>hv_shared := s\<lparr>sh_pongs_read := sh_pongs_read s + 1\<rparr>\<rparr>)
          | Inr MsgClose \<Rightarrow> (Some (Inr []), r)
          | Inr (MsgText _) \<Rightarrow> (Some (Inl IoInvalidData), r)
          | Inr MsgFrame \<Rightarrow> (Some (Inl IoInvalidData), r)
          | Inl e \<Rightarrow>
              if e = FailConnectionClosed \<or> e = FailAlreadyClosed then (Some (Inr []), r)
              else if ws_blocked e then (Some (Inl IoWouldBlock), r)
              else (Some (Inl (to_io e)), r))"

section \<open>The writing half\<close>

text \<open>
  The writing side of the library: it takes a message or refuses it, and flushes what it holds;
  \<open>fr_taken\<close> tells the messages it has taken, in order.
\<close>

record 'w framer =
  fr_write :: "ws_message \<Rightarrow> 'w \<Rightarrow> ws_failure option \<times> 'w"
  fr_flush :: "'w \<Rightarrow> ws_failure option \<times> 'w"
  fr_taken :: "'w \<Rightarrow> ws_message list"

text \<open>
  What is documented of it: a message is stored before the library tries to send it, so a write that
  succeeds or meets an error of the socket has taken it; a full buffer and a closed connection have not;
  any other error may have. Flushing neither adds nor removes a message.
\<close>

definition framer_lawful :: "'w framer \<Rightarrow> bool" where
  "framer_lawful F \<longleftrightarrow>
     (\<forall>w. fr_taken F (snd (fr_flush F w)) = fr_taken F w) \<and>
     (\<forall>m w. case fr_write F m w of
        (None, w') \<Rightarrow> fr_taken F w' = fr_taken F w @ [m]
      | (Some (FailIo k), w') \<Rightarrow> fr_taken F w' = fr_taken F w @ [m]
      | (Some FailProtocol, w') \<Rightarrow> fr_taken F w' = fr_taken F w \<or> fr_taken F w' = fr_taken F w @ [m]
      | (Some _, w') \<Rightarrow> fr_taken F w' = fr_taken F w)"

definition ws_pump :: "'w framer \<Rightarrow> 'w ws_halves \<Rightarrow> io_kind option \<times> 'w ws_halves" where
  "ws_pump F w =
     (case fr_flush F (ww_ws w) of
        (None, s) \<Rightarrow> (None, w\<lparr>ww_ws := s\<rparr>)
      | (Some e, s) \<Rightarrow>
          (Some (if ws_blocked e then IoWouldBlock
                 else if e = FailConnectionClosed \<or> e = FailAlreadyClosed then IoBrokenPipe
                 else to_io e), w\<lparr>ww_ws := s\<rparr>))"

definition ws_enqueue :: "'w framer \<Rightarrow> ws_message \<Rightarrow> 'w ws_halves \<Rightarrow> io_kind option \<times> 'w ws_halves" where
  "ws_enqueue F m w =
     (case fr_write F m (ww_ws w) of
        (None, s) \<Rightarrow> (None, w\<lparr>ww_ws := s\<rparr>)
      | (Some e, s) \<Rightarrow>
          (if ws_blocked e then None
           else Some (if e = FailWriteBufferFull then IoWouldBlock
                      else if e = FailConnectionClosed \<or> e = FailAlreadyClosed then IoBrokenPipe
                      else to_io e), w\<lparr>ww_ws := s\<rparr>))"

text \<open>The pongs owed; an error leaves the loop, and the pongs not yet sent are gone.\<close>

fun send_pongs :: "'w framer \<Rightarrow> bytes list \<Rightarrow> 'w ws_halves \<Rightarrow> io_kind option \<times> 'w ws_halves" where
  "send_pongs F [] w = (None, w)"
| "send_pongs F (p # ps) w =
     (case ws_enqueue F (MsgPong p) w of
        (Some k, w') \<Rightarrow> (Some k, w')
      | (None, w') \<Rightarrow>
          send_pongs F ps (w'\<lparr>hv_shared := (hv_shared w')\<lparr>sh_pongs_written := sh_pongs_written (hv_shared w') + 1\<rparr>\<rparr>))"

text \<open>\<open>now\<close> is the time of the check, \<open>now'\<close> the time after the ping is in the framer.\<close>

definition ws_tick :: "'w framer \<Rightarrow> nat \<Rightarrow> nat \<Rightarrow> 'w ws_halves \<Rightarrow> io_kind option \<times> 'w ws_halves" where
  "ws_tick F now now' w =
     (case take_pongs (hv_shared w) of
        (ps, s) \<Rightarrow>
          (case send_pongs F ps (w\<lparr>hv_shared := s\<rparr>) of
             (Some k, w1) \<Rightarrow> (Some k, w1)
           | (None, w1) \<Rightarrow>
               (case (if ww_next_ping w1 \<le> now
                      then case ws_enqueue F (MsgPing []) w1 of
                        (Some k, w2) \<Rightarrow> (Some k, w2)
                      | (None, w2) \<Rightarrow>
                          (None, w2\<lparr>hv_shared := (hv_shared w2)\<lparr>sh_pings_written := sh_pings_written (hv_shared w2) + 1\<rparr>,
                                    ww_next_ping := now' + ww_interval w2\<rparr>)
                      else (None, w1)) of
                  (Some k, w2) \<Rightarrow> (Some k, w2)
                | (None, w2) \<Rightarrow>
                    (case ws_pump F w2 of
                       (r, w3) \<Rightarrow> (if r = Some IoWouldBlock then None else r, w3)))))"

definition ws_write :: "'w framer \<Rightarrow> bytes \<Rightarrow> 'w ws_halves \<Rightarrow> (io_kind + nat) \<times> 'w ws_halves" where
  "ws_write F buf w =
     (case ws_pump F w of
        (Some k, w1) \<Rightarrow> (Inl k, w1)
      | (None, w1) \<Rightarrow>
          (case ws_enqueue F (MsgBinary buf) w1 of
             (Some k, w2) \<Rightarrow> (Inl k, w2)
           | (None, w2) \<Rightarrow>
               let w3 = w2\<lparr>hv_shared := (hv_shared w2)\<lparr>sh_messages_written := sh_messages_written (hv_shared w2) + 1\<rparr>\<rparr> in
               (Inr (length buf), snd (ws_pump F w3))))"

definition ws_flush :: "'w framer \<Rightarrow> 'w ws_halves \<Rightarrow> io_kind option \<times> 'w ws_halves" where
  "ws_flush F w = (case ws_pump F w of (r, w') \<Rightarrow> (if r = Some IoWouldBlock then None else r, w'))"

section \<open>Nothing past the header is taken\<close>

definition HEADER_END :: bytes where
  "HEADER_END = [13, 10, 13, 10]"

lemma suffix_snoc2: "suffix (xs @ [x]) (ys @ [y]) \<longleftrightarrow> x = y \<and> suffix xs ys"
  by (auto simp: suffix_def)

text \<open>How much of the terminator a byte string ends with.\<close>

definition header_progress :: "bytes \<Rightarrow> nat" where
  "header_progress u =
     (if suffix [13, 10, 13, 10] u then 4 else if suffix [13, 10, 13] u then 3
      else if suffix [13, 10] u then 2 else if suffix [13] u then 1 else 0)"

lemma header_progress_Nil [simp]: "header_progress [] = 0" by (simp add: header_progress_def)

lemma suffix_single: "suffix [x] (u @ [y]) \<longleftrightarrow> x = y"
  using suffix_snoc2 [of "[]" x u y] by simp

lemma suffix_terminators:
  "suffix [13, 10] (u @ [b]) \<longleftrightarrow> b = (10 :: u8) \<and> suffix [13] u"
  "suffix [13, 10, 13] (u @ [b]) \<longleftrightarrow> b = (13 :: u8) \<and> suffix [13, 10] u"
  "suffix [13, 10, 13, 10] (u @ [b]) \<longleftrightarrow> b = (10 :: u8) \<and> suffix [13, 10, 13] u"
  using suffix_snoc2 [of "[13]" 10 u b] suffix_snoc2 [of "[13, 10]" 13 u b] suffix_snoc2 [of "[13, 10, 13]" 10 u b] by auto

lemma suffix_last_byte:
  "suffix [13, 10, 13] u \<Longrightarrow> suffix [13 :: u8] u" "suffix [13, 10] u \<Longrightarrow> \<not> suffix [13 :: u8] u"
  by (auto simp: suffix_def)

lemma header_state_step: "header_progress u \<noteq> 4 \<Longrightarrow> header_progress (u @ [b]) = header_state (header_progress u) b"
  using suffix_last_byte [of u]
  by (auto simp: header_progress_def header_state_def suffix_terminators suffix_single split: if_splits)

lemma header_progress_4: "header_progress u = 4 \<longleftrightarrow> suffix HEADER_END u"
  by (auto simp: header_progress_def HEADER_END_def)

lemma header_progress_le: "header_progress u \<le> 4" by (auto simp: header_progress_def)

lemma scan_header_end_correct:
  "scan_header_end m d = (tk, m', fin) \<Longrightarrow> m = header_progress u \<Longrightarrow> m \<noteq> 4 \<Longrightarrow>
    tk \<le> length d \<and> m' = header_progress (u @ take tk d) \<and> (fin \<longleftrightarrow> m' = 4) \<and> (\<not> fin \<longrightarrow> tk = length d) \<and>
    (\<forall>j < tk. header_progress (u @ take j d) \<noteq> 4)"
proof (induction d arbitrary: m u tk m' fin)
  case (Cons b bs)
  have step: "header_state m b = header_progress (u @ [b])" using Cons.prems header_state_step by simp
  show ?case
  proof (cases "header_state m b = 4")
    case True
    then show ?thesis using Cons.prems step by auto
  next
    case False
    then obtain n where n: "scan_header_end (header_state m b) bs = (n, m', fin)" "tk = n + 1"
      using Cons.prems(1) by (auto simp: Let_def split: prod.splits)
    have ih: "n \<le> length bs \<and> m' = header_progress ((u @ [b]) @ take n bs) \<and> (fin \<longleftrightarrow> m' = 4) \<and> (\<not> fin \<longrightarrow> n = length bs) \<and>
        (\<forall>j < n. header_progress ((u @ [b]) @ take j bs) \<noteq> 4)"
      by (rule Cons.IH [OF n(1) step False])
    have before: "header_progress (u @ take j (b # bs)) \<noteq> 4" if "j < tk" for j
    proof (cases j)
      case 0
      then show ?thesis using Cons.prems(2,3) by simp
    next
      case (Suc i)
      then have "i < n" using that n(2) by simp
      then have "header_progress ((u @ [b]) @ take i bs) \<noteq> 4" using ih by blast
      then show ?thesis using Suc by simp
    qed
    have e: "u @ take tk (b # bs) = (u @ [b]) @ take n bs" "tk \<le> length (b # bs) \<longleftrightarrow> n \<le> length bs"
      "tk = length (b # bs) \<longleftrightarrow> n = length bs" using n(2) by simp_all
    have "\<forall>j < tk. header_progress (u @ take j (b # bs)) \<noteq> 4" using before by simp
    moreover have "m' = header_progress ((u @ [b]) @ take n bs)" using ih by blast
    moreover have "fin \<longleftrightarrow> m' = 4" using ih by blast
    moreover have "\<not> fin \<longrightarrow> n = length bs" "n \<le> length bs" using ih by blast+
    ultimately show ?thesis unfolding e by (intro conjI)
  qed
qed simp

text \<open>The peer sends, and the handshake reads.\<close>

datatype header_event = HeaderArrives bytes | HeaderRead nat "io_kind + nat"

fun header_run :: "header_event list \<Rightarrow> header_only \<Rightarrow> (io_kind + bytes) list \<times> header_only" where
  "header_run [] h = ([], h)"
| "header_run (HeaderArrives bs # es) h = header_run es (h\<lparr>ho_sock := ho_sock h @ bs\<rparr>)"
| "header_run (HeaderRead cap pk # es) h =
     (case header_read cap pk h of (r, h') \<Rightarrow> (case header_run es h' of (rs, h'') \<Rightarrow> (r # rs, h'')))"

definition header_sent :: "header_event list \<Rightarrow> bytes" where
  "header_sent es = concat (map (\<lambda>e. case e of HeaderArrives bs \<Rightarrow> bs | HeaderRead _ _ \<Rightarrow> []) es)"

definition header_given :: "(io_kind + bytes) list \<Rightarrow> bytes" where
  "header_given rs = concat (map (\<lambda>r. case r of Inl _ \<Rightarrow> [] | Inr b \<Rightarrow> b) rs)"

definition header_ok :: "bytes \<Rightarrow> header_only \<Rightarrow> bool" where
  "header_ok used h \<longleftrightarrow> ho_matched h = header_progress used \<and> (ho_done h \<longleftrightarrow> header_progress used = 4) \<and> ho_total h = length used \<and>
     (\<forall>j < length used. header_progress (take j used) \<noteq> 4)"

lemma header_read_ok:
  assumes "header_read cap pk h = (r, h')" and "header_ok used h"
  obtains more where "header_ok (used @ more) h'" and "ho_sock h = more @ ho_sock h'"
    and "r = Inr more \<or> r \<noteq> Inl IoInvalidData \<and> more = [] \<and> (\<exists>k. r = Inl k) \<or> r = Inl IoInvalidData \<and> (more = [] \<or> MAX_HEADER_BYTES < length (used @ more))"
proof -
  let ?n = "case pk of Inr n \<Rightarrow> n | Inl _ \<Rightarrow> 0"
  let ?shown = "take (min ?n cap) (ho_sock h)"
  show ?thesis
  proof (cases "ho_done h \<or> cap = 0 \<or> (\<exists>k. pk = Inl k) \<or> ?shown = []")
    case True
    have "h' = h" using True assms(1) by (auto simp: header_read_def Let_def split: sum.splits if_splits)
    moreover have "(\<exists>k. r = Inl k) \<or> r = Inr []" using True assms(1) by (auto simp: header_read_def Let_def split: sum.splits if_splits)
    ultimately show ?thesis using that [of "[]"] assms(2) by auto
  next
    case False
    define shown where "shown = ?shown"
    obtain tk m d where s: "scan_header_end (ho_matched h) shown = (tk, m, d)" by (metis prod_cases3)
    obtain n where n: "pk = Inr n" using False by (cases pk) auto
    have "header_progress used \<noteq> 4" "ho_matched h = header_progress used" "ho_total h = length used"
      and old: "\<forall>j < length used. header_progress (take j used) \<noteq> 4"
      using assms(2) False by (auto simp: header_ok_def)
    note c = scan_header_end_correct [OF s this(2)]
    let ?more = "take tk shown"
    have tk: "tk \<le> length shown" and pr: "m = header_progress (used @ ?more)" "d \<longleftrightarrow> m = 4"
      and before: "\<forall>j < tk. header_progress (used @ take j shown) \<noteq> 4"
      using c \<open>ho_matched h = header_progress used\<close> \<open>header_progress used \<noteq> 4\<close> by metis+
    have more: "?more = take tk (ho_sock h)" using tk unfolding shown_def by (simp add: min_absorb1)
    have h': "h' = h\<lparr>ho_sock := drop tk (ho_sock h), ho_matched := m, ho_done := d, ho_total := ho_total h + tk\<rparr>"
      "r = (if MAX_HEADER_BYTES < ho_total h + tk then Inl IoInvalidData else Inr ?more)"
      using assms(1) False s n unfolding shown_def by (auto simp: header_read_def Let_def split: if_splits)
    have "header_progress (take j (used @ ?more)) \<noteq> 4" if "j < length (used @ ?more)" for j
    proof (cases "j < length used")
      case True
      then show ?thesis using old by simp
    next
      case False
      then have "take j (used @ ?more) = used @ take (j - length used) shown" "j - length used < tk"
        using that tk by auto
      then show ?thesis using before by metis
    qed
    then have "header_ok (used @ ?more) h'"
      unfolding header_ok_def using h'(1) pr tk \<open>ho_total h = length used\<close> by simp
    moreover have "ho_sock h = ?more @ ho_sock h'" unfolding more using h'(1) by simp
    moreover have "length ?more = tk" using tk by simp
    ultimately show ?thesis using that [of ?more] h'(2) \<open>ho_total h = length used\<close> by (auto simp del: take_take)
  qed
qed

lemma header_run_ok:
  "header_run es h = (rs, h') \<Longrightarrow> header_ok used h \<Longrightarrow>
    \<exists>more. header_ok (used @ more) h' \<and> ho_sock h @ header_sent es = more @ ho_sock h' \<and>
      (Inl IoInvalidData \<notin> set rs \<longrightarrow> header_given rs = more)"
proof (induction es h arbitrary: rs used rule: header_run.induct)
  case (1 h)
  then show ?case by (intro exI [of _ "[]"]) (auto simp: header_sent_def header_given_def)
next
  case (2 bs es h)
  have "header_ok used (h\<lparr>ho_sock := ho_sock h @ bs\<rparr>)" using 2(3) by (simp add: header_ok_def)
  from 2(1) [OF _ this] 2(2) show ?case by (simp add: header_sent_def)
next
  case (3 cap pk es h)
  obtain r h1 rs1 where s: "header_read cap pk h = (r, h1)" "header_run es h1 = (rs1, h')" "rs = r # rs1"
    using 3(2) by (auto split: prod.splits)
  obtain m1 where m1: "header_ok (used @ m1) h1" "ho_sock h = m1 @ ho_sock h1" "r = Inr m1 \<or> (m1 = [] \<and> (\<exists>k. r = Inl k)) \<or> r = Inl IoInvalidData"
    using header_read_ok [OF s(1) 3(3)] by metis
  obtain m2 where m2: "header_ok ((used @ m1) @ m2) h'" "ho_sock h1 @ header_sent es = m2 @ ho_sock h'"
    "Inl IoInvalidData \<notin> set rs1 \<longrightarrow> header_given rs1 = m2"
    using 3(1) [OF s(1) [symmetric] s(2) m1(1)] by blast
  show ?case
    by (intro exI [of _ "m1 @ m2"]) (use m1 m2 s(3) in \<open>auto simp: header_sent_def header_given_def\<close>)
qed

text \<open>
  C38. The upgrade takes the HTTP header and nothing else: however the peer's bytes arrive and whatever the
  reads ask for, what the handshake has been given is a prefix of what the peer sent, it is told that the
  header is complete exactly when that prefix ends with the empty line, and no byte after the first
  empty line is taken from the socket, where the first frame of the connection may already wait.
\<close>

theorem upgrade_leaves_frames:
  assumes "header_run es (header_only_new []) = (rs, h)"
  shows "\<exists>used. header_sent es = used @ ho_sock h \<and> (ho_done h \<longleftrightarrow> suffix HEADER_END used) \<and>
    (\<forall>p. strict_prefix p used \<longrightarrow> \<not> suffix HEADER_END p) \<and> ho_total h = length used \<and>
    (Inl IoInvalidData \<notin> set rs \<longrightarrow> header_given rs = used)"
proof -
  have "header_ok [] (header_only_new [])" by (simp add: header_ok_def header_only_new_def)
  then obtain used where u: "header_ok used h" "header_sent es = used @ ho_sock h" "Inl IoInvalidData \<notin> set rs \<longrightarrow> header_given rs = used"
    using header_run_ok [OF assms, of "[]"] by (auto simp: header_only_new_def)
  have "\<not> suffix HEADER_END p" if "strict_prefix p used" for p
  proof -
    have sp: "strict_prefix p used" by (rule that)
    obtain q where "used = p @ q" "q \<noteq> []" using sp unfolding strict_prefix_def prefix_def by fastforce
    then have "p = take (length p) used" "length p < length used" by auto
    then show ?thesis using u(1) header_progress_4 [of p] unfolding header_ok_def by metis
  qed
  then show ?thesis using u by (intro exI [of _ used]) (auto simp: header_ok_def header_progress_4)
qed

theorem upgrade_leaves_frames_witness:
  "header_run [HeaderArrives [65, 13, 10, 13], HeaderRead 4096 (Inr 4), HeaderArrives [10, 7, 8], HeaderRead 4096 (Inr 3), HeaderRead 4096 (Inr 2)]
     (header_only_new []) =
     ([Inr [65, 13, 10, 13], Inr [10], Inl IoWouldBlock], \<lparr>ho_sock = [7, 8], ho_matched = 4, ho_done = True, ho_total = 5\<rparr>) \<and>
   (\<exists>used. header_sent [HeaderArrives [65, 13, 10, 13], HeaderRead 4096 (Inr 4), HeaderArrives [10, 7, 8], HeaderRead 4096 (Inr 3), HeaderRead 4096 (Inr 2)]
     = used @ [7, 8] \<and> suffix HEADER_END used)"
proof -
  have run: "header_run [HeaderArrives [65, 13, 10, 13], HeaderRead 4096 (Inr 4), HeaderArrives [10, 7, 8], HeaderRead 4096 (Inr 3), HeaderRead 4096 (Inr 2)]
     (header_only_new []) =
     ([Inr [65, 13, 10, 13], Inr [10], Inl IoWouldBlock], \<lparr>ho_sock = [7, 8], ho_matched = 4, ho_done = True, ho_total = 5\<rparr>)"
    by (simp add: header_only_new_def header_read_def header_state_def MAX_HEADER_BYTES_def)
  with upgrade_leaves_frames [OF run] show ?thesis by auto
qed

section \<open>The reading half is a byte stream\<close>

definition ws_ends :: "ws_failure + ws_message \<Rightarrow> bool" where
  "ws_ends x \<longleftrightarrow> x = Inr MsgClose \<or> x = Inl FailConnectionClosed \<or> x = Inl FailAlreadyClosed"

definition ws_payloads :: "(ws_failure + ws_message) list \<Rightarrow> bytes" where
  "ws_payloads xs = concat (map (\<lambda>x. case x of Inr (MsgBinary b) \<Rightarrow> b | _ \<Rightarrow> []) xs)"

definition ws_pings :: "(ws_failure + ws_message) list \<Rightarrow> bytes list" where
  "ws_pings xs = concat (map (\<lambda>x. case x of Inr (MsgPing p) \<Rightarrow> [p] | _ \<Rightarrow> []) xs)"

definition newest :: "nat \<Rightarrow> 'a list \<Rightarrow> 'a list" where
  "newest n xs = drop (length xs - n) xs"

lemma newest_short [simp]: "length xs \<le> n \<Longrightarrow> newest n xs = xs" by (simp add: newest_def)

lemma length_newest [simp]: "length (newest n xs) \<le> n" by (simp add: newest_def)

lemma newest_newest: "newest n (newest n xs @ ys) = newest n (xs @ ys)"
proof (cases "length xs \<le> n")
  case False
  let ?a = "length xs - n"
  have "newest n xs @ ys = drop ?a (xs @ ys)" "length (newest n xs) = n" using False by (simp_all add: newest_def)
  then have "newest n (newest n xs @ ys) = drop (length ys) (drop ?a (xs @ ys))" unfolding newest_def [of n "newest n xs @ ys"] by simp
  also have "\<dots> = newest n (xs @ ys)" using False by (simp add: newest_def add.commute del: drop_append)
  finally show ?thesis .
qed simp

lemma owe_pong_due: "length (sh_pongs_due s) \<le> 4 \<Longrightarrow> sh_pongs_due (owe_pong p s) = newest 4 (sh_pongs_due s @ [p])"
  by (cases "sh_pongs_due s") (auto simp: owe_pong_def newest_def Let_def drop_Suc)

lemma owe_pong_rest:
  "sh_pings_read (owe_pong p s) = sh_pings_read s" "sh_messages_read (owe_pong p s) = sh_messages_read s"
  "sh_pongs_read (owe_pong p s) = sh_pongs_read s"
  by (simp_all add: owe_pong_def Let_def)

definition unread :: "'w ws_halves \<Rightarrow> bytes" where
  "unread r = drop (rd_off r) (rd_rem r)"

definition given :: "(io_kind + bytes) option \<Rightarrow> bytes" where
  "given x = (case x of Some (Inr b) \<Rightarrow> b | _ \<Rightarrow> [])"

lemma give_rest_unread:
  assumes "give_rest cap r = (x, r')" and "rd_off r < length (rd_rem r)" and "0 < cap"
  shows "unread r = given x @ unread r' \<and> x \<noteq> Some (Inr []) \<and> rd_off r' \<le> length (rd_rem r') \<and>
    rd_incoming r' = rd_incoming r \<and> hv_shared r' = hv_shared r \<and> ww_ws r' = ww_ws r"
proof -
  let ?n = "min cap (length (rd_rem r) - rd_off r)"
  have "byte_slice (rd_off r) (rd_off r + ?n) (rd_rem r) @ drop (rd_off r + ?n) (rd_rem r) = drop (rd_off r) (rd_rem r)"
    by (simp only: byte_slice_def drop_take [symmetric] diff_add_inverse) (metis add.commute append_take_drop_id drop_drop)
  moreover have "byte_slice (rd_off r) (rd_off r + ?n) (rd_rem r) \<noteq> []"
    using assms(2,3) by (metis (no_types, lifting) add_diff_cancel_left' length_byte_slice length_greater_0_conv min_def zero_less_diff)
  ultimately show ?thesis using assms by (auto simp: give_rest_def Let_def unread_def given_def)
qed

lemma ws_read_step:
  assumes "ws_read cap r = (x, r')" and "0 < cap" and "length (sh_pongs_due (hv_shared r)) \<le> 4"
  obtains taken where "rd_incoming r = taken @ rd_incoming r'" and "unread r @ ws_payloads taken = given x @ unread r'"
    and "x = Some (Inr []) \<longleftrightarrow> list_ex ws_ends taken" and "sh_pongs_due (hv_shared r') = newest 4 (sh_pongs_due (hv_shared r) @ ws_pings taken)"
    and "ww_ws r' = ww_ws r"
proof (cases "rd_off r < length (rd_rem r)")
  case True
  then have g: "give_rest cap r = (x, r')" using assms(1) by (simp add: ws_read_def)
  show ?thesis by (rule that [of "[]"]) (use give_rest_unread [OF g True assms(2)] assms(3) in \<open>simp_all add: ws_payloads_def ws_pings_def\<close>)
next
  case False
  then have un: "unread r = []" by (simp add: unread_def)
  show ?thesis
  proof (cases "rd_incoming r")
    case Nil
    then show ?thesis using that [of "[]"] assms False un
      by (simp add: ws_read_def ws_payloads_def ws_pings_def given_def)
  next
    case (Cons y ys)
    show ?thesis
    proof (cases "\<exists>b. y = Inr (MsgBinary b) \<and> b \<noteq> []")
      case True
      then obtain b where b: "y = Inr (MsgBinary b)" "b \<noteq> []" by blast
      define r1 where "r1 = r\<lparr>rd_incoming := ys,
        hv_shared := (hv_shared r)\<lparr>sh_messages_read := sh_messages_read (hv_shared r) + 1\<rparr>, rd_rem := b, rd_off := 0\<rparr>"
      have g: "give_rest cap r1 = (x, r')" using assms(1) False Cons b by (simp add: ws_read_def r1_def Let_def)
      have "rd_off r1 < length (rd_rem r1)" using b by (simp add: r1_def)
      note f = give_rest_unread [OF g this assms(2)]
      have "unread r1 = b" by (simp add: unread_def r1_def)
      then show ?thesis using that [of "[y]"] f b Cons un assms(3)
        by (simp add: ws_payloads_def ws_pings_def ws_ends_def) (simp add: r1_def)
    next
      case other: False
      then show ?thesis using that [of "[y]"] assms(1,3) False Cons un
        by (cases y; cases "projr y"; cases "projl y")
          (auto simp: ws_read_def ws_payloads_def ws_pings_def ws_ends_def given_def unread_def owe_pong_due Let_def
            split: if_splits ws_message.splits)
    qed
  qed
qed

fun reader_run :: "nat list \<Rightarrow> 'w ws_halves \<Rightarrow> (io_kind + bytes) option list \<times> 'w ws_halves" where
  "reader_run [] r = ([], r)"
| "reader_run (cap # caps) r = (case ws_read cap r of (x, r') \<Rightarrow> (case reader_run caps r' of (xs, r'') \<Rightarrow> (x # xs, r'')))"

lemma ws_lists_append:
  "ws_payloads (xs @ ys) = ws_payloads xs @ ws_payloads ys" "ws_pings (xs @ ys) = ws_pings xs @ ws_pings ys"
  by (simp_all add: ws_payloads_def ws_pings_def)

lemma reader_run_stream:
  "reader_run caps r = (xs, r') \<Longrightarrow> \<forall>cap \<in> set caps. 0 < cap \<Longrightarrow> length (sh_pongs_due (hv_shared r)) \<le> 4 \<Longrightarrow>
    \<exists>taken. rd_incoming r = taken @ rd_incoming r' \<and> unread r @ ws_payloads taken = concat (map given xs) @ unread r' \<and>
      (Some (Inr []) \<in> set xs \<longleftrightarrow> list_ex ws_ends taken) \<and>
      sh_pongs_due (hv_shared r') = newest 4 (sh_pongs_due (hv_shared r) @ ws_pings taken)"
proof (induction caps r arbitrary: xs rule: reader_run.induct)
  case (1 r)
  then show ?case by (intro exI [of _ "[]"]) (simp add: ws_payloads_def ws_pings_def)
next
  case (2 cap caps r)
  obtain x r1 ys where s: "ws_read cap r = (x, r1)" "reader_run caps r1 = (ys, r')" "xs = x # ys"
    using 2(2) by (auto split: prod.splits)
  have "0 < cap" using 2(3) by simp
  from ws_read_step [OF s(1) this 2(4)] obtain t1 where t1: "rd_incoming r = t1 @ rd_incoming r1" "unread r @ ws_payloads t1 = given x @ unread r1"
    "x = Some (Inr []) \<longleftrightarrow> list_ex ws_ends t1" "sh_pongs_due (hv_shared r1) = newest 4 (sh_pongs_due (hv_shared r) @ ws_pings t1)" by metis
  have "length (sh_pongs_due (hv_shared r1)) \<le> 4" using t1(4) by simp
  moreover have "\<forall>cap \<in> set caps. 0 < cap" using 2(3) by simp
  ultimately obtain t2 where t2: "rd_incoming r1 = t2 @ rd_incoming r'" "unread r1 @ ws_payloads t2 = concat (map given ys) @ unread r'"
    "Some (Inr []) \<in> set ys \<longleftrightarrow> list_ex ws_ends t2" "sh_pongs_due (hv_shared r') = newest 4 (sh_pongs_due (hv_shared r1) @ ws_pings t2)"
    using 2(1) [OF s(1) [symmetric] s(2)] by blast
  have "unread r @ ws_payloads (t1 @ t2) = concat (map given xs) @ unread r'"
    unfolding ws_lists_append append_assoc [symmetric] t1(2) using t2(2) s(3) by simp
  then show ?case
    by (intro exI [of _ "t1 @ t2"]) (use t1 t2 s(3) in \<open>auto simp: ws_lists_append newest_newest simp flip: append_assoc\<close>)
qed

text \<open>
  C40. The WebSocket carrier reads as a byte stream: whatever the sizes of the reads, the bytes given out,
  with what is left of the current message, are the payloads of the binary messages in order; pings,
  pongs and empty messages between them give no bytes, an end of stream is reported exactly when the
  connection closes, and of the pings the newest four, in order, are owed an answer.
\<close>

theorem carrier_reads_byte_stream:
  assumes "reader_run caps (ws_split incoming f now) = (xs, r')" and "\<forall>cap \<in> set caps. 0 < cap"
  shows "\<exists>taken. incoming = taken @ rd_incoming r' \<and> ws_payloads taken = concat (map given xs) @ unread r' \<and>
    (Some (Inr []) \<in> set xs \<longleftrightarrow> list_ex ws_ends taken) \<and>
    sh_pongs_due (hv_shared r') = newest 4 (ws_pings taken)"
  using reader_run_stream [OF assms] by (simp add: ws_split_def ws_shared_new_def unread_def)

theorem carrier_reads_byte_stream_witness:
  "\<exists>r'. reader_run [2, 8, 8, 8] (ws_split [Inr (MsgBinary [1, 2, 3]), Inr (MsgPing [9]), Inr MsgClose] () 0) =
     ([Some (Inr [1, 2]), Some (Inr [3]), Some (Inl IoWouldBlock), Some (Inr [])], r') \<and> sh_pongs_due (hv_shared r') = [[9]] \<and>
   (\<exists>taken. [Inr (MsgBinary [1, 2, 3]), Inr (MsgPing [9]), Inr MsgClose] = taken @ rd_incoming r' \<and> ws_payloads taken = [1, 2, 3] @ unread r')"
proof -
  obtain xs r' where run: "reader_run [2, 8, 8, 8] (ws_split [Inr (MsgBinary [1, 2, 3]), Inr (MsgPing [9]), Inr MsgClose] () 0) = (xs, r')"
    by fastforce
  then have "xs = [Some (Inr [1, 2]), Some (Inr [3]), Some (Inl IoWouldBlock), Some (Inr [])] \<and> sh_pongs_due (hv_shared r') = [[9]]"
    by (auto simp: ws_split_def ws_read_def give_rest_def ws_shared_new_def owe_pong_def byte_slice_def Let_def)
  then show ?thesis using run carrier_reads_byte_stream [OF run] by (auto simp: given_def)
qed

section \<open>The writing half\<close>

text \<open>A framer that answers writes and flushes from scripts, and then always accepts.\<close>

definition scripted :: "(ws_failure option list \<times> ws_failure option list \<times> ws_message list) framer" where
  "scripted = \<lparr>
     fr_write = (\<lambda>m (ws, fs, t). case ws of
         [] \<Rightarrow> (None, ([], fs, t @ [m]))
       | a # ws' \<Rightarrow> (a, (ws', fs, case a of None \<Rightarrow> t @ [m] | Some (FailIo k) \<Rightarrow> t @ [m] | Some _ \<Rightarrow> t))),
     fr_flush = (\<lambda>(ws, fs, t). case fs of [] \<Rightarrow> (None, (ws, [], t)) | a # fs' \<Rightarrow> (a, (ws, fs', t))),
     fr_taken = (\<lambda>(ws, fs, t). t)\<rparr>"

lemma scripted_lawful: "framer_lawful scripted"
  by (auto simp: framer_lawful_def scripted_def split: list.splits option.splits ws_failure.splits)

abbreviation taken_by :: "'w framer \<Rightarrow> 'w ws_halves \<Rightarrow> ws_message list" where
  "taken_by F w \<equiv> fr_taken F (ww_ws w)"

lemma pump_facts:
  "ws_pump F w = (r, w') \<Longrightarrow> framer_lawful F \<Longrightarrow> taken_by F w' = taken_by F w \<and> hv_shared w' = hv_shared w \<and>
    rd_incoming w' = rd_incoming w \<and> ww_interval w' = ww_interval w \<and> ww_next_ping w' = ww_next_ping w \<and> r \<noteq> Some IoTimedOut"
proof -
  assume p: "ws_pump F w = (r, w')" and F: "framer_lawful F"
  obtain a s where a: "fr_flush F (ww_ws w) = (a, s)" by fastforce
  have "fr_taken F s = taken_by F w" using F a unfolding framer_lawful_def by (metis snd_conv)
  then show ?thesis using p a
    by (cases a) (auto simp: ws_pump_def io_blocked_def ws_blocked_def to_io_def split: ws_failure.splits if_splits)
qed

lemma enqueue_facts:
  assumes "ws_enqueue F m w = (r, w')" and "framer_lawful F"
  shows "(r = None \<longrightarrow> taken_by F w' = taken_by F w @ [m]) \<and> (r = Some IoWouldBlock \<longrightarrow> taken_by F w' = taken_by F w) \<and>
    (taken_by F w' = taken_by F w \<or> taken_by F w' = taken_by F w @ [m]) \<and> hv_shared w' = hv_shared w \<and>
    rd_incoming w' = rd_incoming w \<and> r \<noteq> Some IoTimedOut"
proof -
  obtain a s where a: "fr_write F m (ww_ws w) = (a, s)" by fastforce
  note law = spec [OF spec [OF conjunct2 [OF assms(2) [unfolded framer_lawful_def]], of m], of "ww_ws w", unfolded a]
  show ?thesis
  proof (cases a)
    case None
    then show ?thesis using assms(1) a law by (auto simp: ws_enqueue_def)
  next
    case (Some e)
    then show ?thesis using assms(1) a law
      by (cases e) (auto simp: ws_enqueue_def ws_blocked_def io_blocked_def to_io_def split: if_splits)
  qed
qed

lemma ws_write_facts:
  assumes "ws_write F buf w = (r, w')" and "framer_lawful F"
  shows "(\<forall>n. r = Inr n \<longrightarrow> n = length buf \<and> taken_by F w' = taken_by F w @ [MsgBinary buf]) \<and>
    (r = Inl IoWouldBlock \<longrightarrow> taken_by F w' = taken_by F w) \<and>
    (taken_by F w' = taken_by F w \<or> taken_by F w' = taken_by F w @ [MsgBinary buf]) \<and>
    sh_pongs_due (hv_shared w') = sh_pongs_due (hv_shared w) \<and> rd_incoming w' = rd_incoming w \<and> r \<noteq> Inl IoTimedOut"
proof -
  obtain p w1 where p: "ws_pump F w = (p, w1)" by fastforce
  note f1 = pump_facts [OF p assms(2)]
  show ?thesis
  proof (cases p)
    case (Some k)
    then show ?thesis using assms(1) p f1 by (auto simp: ws_write_def)
  next
    case None
    obtain q w2 where q: "ws_enqueue F (MsgBinary buf) w1 = (q, w2)" by fastforce
    note f2 = enqueue_facts [OF q assms(2)]
    show ?thesis
    proof (cases q)
      case (Some k)
      then show ?thesis using assms(1) p q None f1 f2 by (auto simp: ws_write_def)
    next
      case n2: None
      let ?w3 = "w2\<lparr>hv_shared := (hv_shared w2)\<lparr>sh_messages_written := sh_messages_written (hv_shared w2) + 1\<rparr>\<rparr>"
      have "r = Inr (length buf)" "w' = snd (ws_pump F ?w3)"
        using assms(1) p q None n2 by (simp_all add: ws_write_def Let_def)
      moreover have "taken_by F (snd (ws_pump F ?w3)) = taken_by F w2 \<and> hv_shared (snd (ws_pump F ?w3)) = hv_shared ?w3 \<and>
          rd_incoming (snd (ws_pump F ?w3)) = rd_incoming w2"
        using pump_facts [of F ?w3] assms(2) by (metis (no_types, lifting) prod.collapse ws_halves.select_convs(1,4) ws_halves.surjective ws_halves.update_convs(7))
      ultimately show ?thesis using f1 f2 n2 by simp
    qed
  qed
qed

text \<open>
  The carrier as the sink of the frame writer: what each attempt to write the frame answers. No attempt
  takes a part of a frame, so every one hands over the whole.
\<close>

definition sink_says :: "io_kind + nat \<Rightarrow> sink_answer" where
  "sink_says r =
     (case r of
        Inr n \<Rightarrow> Took n
      | Inl k \<Rightarrow> if k = IoInterrupted then Again else if io_blocked k then WouldBlock else Broken)"

fun carrier :: "'w framer \<Rightarrow> bytes \<Rightarrow> nat list \<Rightarrow> 'w ws_halves \<Rightarrow> (nat \<times> sink_answer) list" where
  "carrier F buf [] w = []"
| "carrier F buf (d # ds) w = (case ws_write F buf w of (r, w') \<Rightarrow> (d, sink_says r) # carrier F buf ds w')"

fun carrier_after :: "'w framer \<Rightarrow> bytes \<Rightarrow> nat \<Rightarrow> 'w ws_halves \<Rightarrow> 'w ws_halves" where
  "carrier_after F buf 0 w = w"
| "carrier_after F buf (Suc k) w = carrier_after F buf k (snd (ws_write F buf w))"

lemma length_carrier [simp]: "length (carrier F buf ds w) = length ds"
  by (induction ds arbitrary: w) (auto split: prod.splits)

lemma write_timed_shrinks: "write_timed e o' buf stale hard off now sc = (res, off', now', sc') \<Longrightarrow> length sc' \<le> length sc"
proof (induction sc arbitrary: off now)
  case Nil
  then show ?case by (auto simp: write_timed_Nil split: if_splits)
next
  case (Cons x sc)
  obtain d a where x: "x = (d, a)" by fastforce
  have "sc' = (d, a) # sc \<or> sc' = sc \<or> (\<exists>off2 now2. write_timed e o' buf stale hard off2 now2 sc = (res, off', now', sc'))"
    using Cons.prems [unfolded x write_timed_Cons] by (cases a) (auto split: if_splits)
  then show ?case using Cons.IH x by fastforce
qed

lemma write_timed_done: "write_timed e o' buf stale hard (length buf) now sc = (Some Sent, length buf, now, sc)"
  by (subst write_timed.simps) simp

text \<open>The calls the socket interrupted among the attempts a write made.\<close>

definition interruptions :: "(nat \<times> sink_answer) list \<Rightarrow> nat" where
  "interruptions xs = length (filter (\<lambda>x. snd x = Again) xs)"

lemma interruptions_simps [simp]:
  "interruptions [] = 0"
  "interruptions ((d, a) # xs) = (if a = Again then Suc (interruptions xs) else interruptions xs)"
  by (simp_all add: interruptions_def)

lemma carrier_writes_whole:
  assumes "framer_lawful F" and "buf \<noteq> []"
  shows "write_timed e o' buf stale hard 0 now (carrier F buf ds w) = (Some out, off, now', sc') \<Longrightarrow>
    let k = length ds - length sc'; w' = carrier_after F buf k w in
    \<exists>c \<le> interruptions (take k (carrier F buf ds w)).
      (out = Sent \<longrightarrow> off = length buf \<and> taken_by F w' = taken_by F w @ replicate (Suc c) (MsgBinary buf)) \<and>
      (out \<in> {Stale, Revoked} \<longrightarrow> off = 0 \<and> taken_by F w' = taken_by F w @ replicate c (MsgBinary buf)) \<and>
      (out = Dead \<longrightarrow> off = 0 \<and> (taken_by F w' = taken_by F w @ replicate c (MsgBinary buf) \<or>
        taken_by F w' = taken_by F w @ replicate (Suc c) (MsgBinary buf)))"
proof (induction ds arbitrary: now w)
  case Nil
  then show ?case using assms(2) by (auto simp: write_timed_Nil split: if_splits)
next
  case (Cons d ds)
  obtain r w1 where r: "ws_write F buf w = (r, w1)" by fastforce
  note f = ws_write_facts [OF r assms(1)]
  have run: "write_timed e o' buf stale hard 0 now ((d, sink_says r) # carrier F buf ds w1) = (Some out, off, now', sc')"
    using Cons.prems r by auto
  show ?case
  proof (cases "owner_may e o' now")
    case False
    then have "out = Revoked" "off = 0" "sc' = (d, sink_says r) # carrier F buf ds w1"
      using run assms(2) by (auto simp: write_timed_Cons)
    then show ?thesis by simp
  next
    case may: True
    have after: "carrier_after F buf (length (d # ds) - length sc') w = carrier_after F buf (length ds - length sc') w1"
      "take (length (d # ds) - length sc') (carrier F buf (d # ds) w) =
         (d, sink_says r) # take (length ds - length sc') (carrier F buf ds w1)" if "length sc' \<le> length ds"
      using that r by (simp_all add: Suc_diff_le)
    have again: ?thesis
      if rest: "write_timed e o' buf stale hard 0 n1 (carrier F buf ds w1) = (Some out, off, now', sc')"
        and t: "taken_by F w1 = taken_by F w @ replicate j (MsgBinary buf)" and j: "j \<le> (if sink_says r = Again then 1 else 0)" for n1 j
    proof -
      have "length sc' \<le> length ds" using write_timed_shrinks [OF rest] by simp
      note af = after [OF this]
      let ?k = "length ds - length sc'"
      have grow: "taken_by F w1 @ replicate n (MsgBinary buf) = taken_by F w @ replicate (j + n) (MsgBinary buf)" for n
        unfolding t by (simp add: replicate_add)
      obtain c where c: "c \<le> interruptions (take ?k (carrier F buf ds w1))"
        "(out = Sent \<longrightarrow> off = length buf \<and> taken_by F (carrier_after F buf ?k w1) = taken_by F w1 @ replicate (Suc c) (MsgBinary buf)) \<and>
         (out \<in> {Stale, Revoked} \<longrightarrow> off = 0 \<and> taken_by F (carrier_after F buf ?k w1) = taken_by F w1 @ replicate c (MsgBinary buf)) \<and>
         (out = Dead \<longrightarrow> off = 0 \<and> (taken_by F (carrier_after F buf ?k w1) = taken_by F w1 @ replicate c (MsgBinary buf) \<or>
           taken_by F (carrier_after F buf ?k w1) = taken_by F w1 @ replicate (Suc c) (MsgBinary buf)))"
        using Cons.IH [OF rest] unfolding Let_def by blast
      have "j + c \<le> interruptions (take (length (d # ds) - length sc') (carrier F buf (d # ds) w))"
        unfolding af(2) using c(1) j by (simp split: if_splits)
      then show ?thesis using c(2) unfolding Let_def af(1) grow add_Suc_right by blast
    qed
    show ?thesis
    proof (cases "sink_says r")
      case (Took n)
      have rn: "r = Inr n" using Took by (simp add: sink_says_def split: sum.splits if_splits)
      then have n: "n = length buf" using f by blast
      have "out = Sent \<and> off = length buf \<and> sc' = carrier F buf ds w1"
        using run [unfolded write_timed_Cons Took sink_answer.case n add_0] may assms(2) by (simp add: write_timed_done)
      then show ?thesis using f rn r by auto
    next
      case Again
      have "write_timed e o' buf stale hard 0 (now + d) (carrier F buf ds w1) = (Some out, off, now', sc')"
        using run may assms(2) Again by (simp add: write_timed_Cons)
      moreover have "taken_by F w1 = taken_by F w @ replicate 0 (MsgBinary buf) \<or> taken_by F w1 = taken_by F w @ replicate 1 (MsgBinary buf)"
        using f by simp
      ultimately show ?thesis using again [of _ 0] again [of _ 1] Again by fastforce
    next
      case Broken
      then have "out = Dead \<and> off = 0 \<and> sc' = carrier F buf ds w1"
        using run may assms(2) by (auto simp: write_timed_Cons)
      then show ?thesis using f r by auto
    next
      case WouldBlock
      then have "r = Inl IoWouldBlock \<or> r = Inl IoTimedOut" by (auto simp: sink_says_def io_blocked_def split: sum.splits if_splits)
      moreover have "r \<noteq> Inl IoTimedOut" using f by blast
      ultimately have t: "taken_by F w1 = taken_by F w" using f by blast
      consider "out = Dead \<or> out = Stale" "off = 0" "sc' = carrier F buf ds w1"
        | "write_timed e o' buf stale hard 0 (now + d) (carrier F buf ds w1) = (Some out, off, now', sc')"
        using run may assms(2) WouldBlock by (auto simp: write_timed_Cons Let_def split: if_splits)
      then show ?thesis
      proof cases
        case 1
        then show ?thesis using t r by auto
      next
        case 2
        then show ?thesis using again [of "now + d" 0] t by simp
      qed
    qed
  qed
qed

text \<open>
  C39. A frame goes out on the WebSocket carrier whole and as often as it must: when the frame writer
  writes a frame to it, against any clock and with any answers of a lawful framer, a frame reported as
  sent has been taken as one binary message, plus at most one more for each attempt that the socket
  interrupted; a stale or revoked frame has been taken at most once for each interrupted attempt, so not
  at all when none was; and no outcome leaves a part of a frame on the connection.
\<close>

theorem frame_goes_out_once:
  assumes "framer_lawful F" and "buf \<noteq> []"
    and "write_timed e o' buf stale hard 0 now (carrier F buf ds w) = (Some out, off, now', sc')"
    and "k = length ds - length sc'" and "w' = carrier_after F buf k w"
  shows "\<exists>c \<le> interruptions (take k (carrier F buf ds w)).
    (out = Sent \<longrightarrow> off = length buf \<and> taken_by F w' = taken_by F w @ replicate (Suc c) (MsgBinary buf)) \<and>
    (out \<in> {Stale, Revoked} \<longrightarrow> off = 0 \<and> taken_by F w' = taken_by F w @ replicate c (MsgBinary buf)) \<and>
    (out = Dead \<longrightarrow> off = 0 \<and> (taken_by F w' = taken_by F w @ replicate c (MsgBinary buf) \<or>
      taken_by F w' = taken_by F w @ replicate (Suc c) (MsgBinary buf)))"
  using carrier_writes_whole [OF assms(1,2,3)] assms(4,5) by (simp add: Let_def)

definition quiet_env :: env where
  "quiet_env = \<lparr>en_may = \<lambda>_ _. True, en_shutdown = \<lambda>_. False, en_cost = \<lambda>_ _. 0\<rparr>"

definition full_then_free :: "(ws_failure option list \<times> ws_failure option list \<times> ws_message list) ws_halves" where
  "full_then_free = ws_split [] ([Some FailWriteBufferFull, None], [], []) 0"

lemma full_then_free_carrier: "carrier scripted [1, 2] [1, 1] full_then_free = [(1, WouldBlock), (1, Took 2)]"
  by (simp add: full_then_free_def ws_split_def ws_write_def ws_pump_def ws_enqueue_def scripted_def sink_says_def
      io_blocked_def ws_blocked_def to_io_def Let_def)

theorem frame_goes_out_once_witness:
  "write_timed quiet_env None [1, 2] 100 200 0 0 (carrier scripted [1, 2] [1, 1] full_then_free) = (Some Sent, 2, 2, []) \<and>
   taken_by scripted (carrier_after scripted [1, 2] 2 full_then_free) = [MsgBinary [1, 2]]"
proof -
  have run: "write_timed quiet_env None [1, 2] 100 200 0 0 (carrier scripted [1, 2] [1, 1] full_then_free) = (Some Sent, 2, 2, [])"
    unfolding full_then_free_carrier by (simp add: write_timed_Cons write_timed_Nil quiet_env_def owner_may_def)
  have "taken_by scripted full_then_free = []" by (simp add: full_then_free_def ws_split_def scripted_def)
  have no: "interruptions (take 2 (carrier scripted [1, 2] [1, 1] full_then_free)) = 0"
    unfolding full_then_free_carrier by simp
  have "\<exists>c \<le> interruptions (take 2 (carrier scripted [1, 2] [1, 1] full_then_free)).
      taken_by scripted (carrier_after scripted [1, 2] 2 full_then_free) = [] @ replicate (Suc c) (MsgBinary [1, 2])"
    using frame_goes_out_once [OF scripted_lawful _ run, of 2 "carrier_after scripted [1, 2] 2 full_then_free"] \<open>taken_by scripted full_then_free = []\<close>
    by (simp del: carrier.simps)
  then show ?thesis using run no by simp
qed

text \<open>
  An interrupted call sends a frame twice: when the socket interrupts the library while it sends a
  message it has stored, the carrier reports the interruption, the frame writer tries the frame again
  from its start, and the connection carries it as two messages although one was sent.
\<close>

theorem interrupted_write_repeats:
  assumes "framer_lawful F" and "buf \<noteq> []"
    and "fr_flush F (ww_ws w) = (None, s0)" and "fr_write F (MsgBinary buf) s0 = (Some (FailIo IoInterrupted), s1)"
    and "fr_flush F s1 = (None, s2)" and "fr_write F (MsgBinary buf) s2 = (None, s3)"
  shows "write_timed e None buf stale hard 0 now (carrier F buf [d1, d2] w) = (Some Sent, length buf, now + d1 + d2, []) \<and>
    taken_by F (carrier_after F buf 2 w) = taken_by F w @ [MsgBinary buf, MsgBinary buf]"
proof -
  have w1: "ws_write F buf w = (Inl IoInterrupted, w\<lparr>ww_ws := s1\<rparr>)"
    using assms(3,4) by (simp add: ws_write_def ws_pump_def ws_enqueue_def ws_blocked_def io_blocked_def to_io_def)
  obtain n w2 where w2: "ws_write F buf (w\<lparr>ww_ws := s1\<rparr>) = (Inr n, w2)"
    using assms(5,6) by (simp add: ws_write_def ws_pump_def ws_enqueue_def Let_def)
  have n: "n = length buf" and t2: "taken_by F w2 = fr_taken F s1 @ [MsgBinary buf]"
    using ws_write_facts [OF w2 assms(1)] by simp_all
  have t0: "fr_taken F s0 = taken_by F w"
    using spec [OF conjunct1 [OF assms(1) [unfolded framer_lawful_def]], of "ww_ws w"] assms(3) by simp
  have "fr_taken F s1 = fr_taken F s0 @ [MsgBinary buf]"
    using spec [OF spec [OF conjunct2 [OF assms(1) [unfolded framer_lawful_def]], of "MsgBinary buf"], of s0] assms(4) by simp
  moreover have "carrier F buf [d1, d2] w = [(d1, Again), (d2, Took (length buf))]"
    using w1 w2 n by (simp add: sink_says_def)
  moreover have "write_timed e None buf stale hard 0 now [(d1, Again), (d2, Took (length buf))] = (Some Sent, length buf, now + d1 + d2, [])"
    using assms(2) by (simp add: write_timed_Cons write_timed_done owner_may_def)
  moreover have "carrier_after F buf 2 w = w2" using w1 w2 by (simp add: numeral_2_eq_2)
  ultimately show ?thesis using t0 t2 by simp
qed

theorem interrupted_write_repeats_witness:
  "taken_by scripted (carrier_after scripted [7] 2 (ws_split [] ([Some (FailIo IoInterrupted)], [], []) 0)) = [MsgBinary [7], MsgBinary [7]]"
  using interrupted_write_repeats [OF scripted_lawful, of "[7]" "ws_split [] ([Some (FailIo IoInterrupted)], [], []) 0"]
  by (simp add: scripted_def ws_split_def)

section \<open>The heartbeat\<close>

definition ws_pongs :: "ws_message list \<Rightarrow> bytes list" where
  "ws_pongs ms = concat (map (\<lambda>m. case m of MsgPong p \<Rightarrow> [p] | _ \<Rightarrow> []) ms)"

lemma ws_pongs_append [simp]: "ws_pongs (xs @ ys) = ws_pongs xs @ ws_pongs ys"
  by (simp add: ws_pongs_def)

lemma ws_pongs_simps [simp]:
  "ws_pongs [] = []" "ws_pongs [MsgPong p] = [p]" "ws_pongs [MsgPing p] = []" "ws_pongs [MsgBinary p] = []"
  by (simp_all add: ws_pongs_def)

lemma send_pongs_facts:
  "send_pongs F ps w = (r, w') \<Longrightarrow> framer_lawful F \<Longrightarrow>
    (\<exists>qs rest. ps = qs @ rest \<and> ws_pongs (taken_by F w') = ws_pongs (taken_by F w) @ qs \<and> (r = None \<longrightarrow> rest = [])) \<and>
    sh_pongs_due (hv_shared w') = sh_pongs_due (hv_shared w) \<and> rd_incoming w' = rd_incoming w"
proof (induction F ps w arbitrary: r w' rule: send_pongs.induct)
  case (2 F p ps w)
  obtain q w1 where q: "ws_enqueue F (MsgPong p) w = (q, w1)" by fastforce
  note f = enqueue_facts [OF q 2(3)]
  show ?case
  proof (cases q)
    case (Some k)
    then have "r = Some k" "w' = w1" using 2(2) q by simp_all
    moreover have "ws_pongs (taken_by F w1) = ws_pongs (taken_by F w) @ [p] \<or> ws_pongs (taken_by F w1) = ws_pongs (taken_by F w)"
      using f by auto
    ultimately show ?thesis using f by (metis append_Cons append_Nil append_Nil2 option.distinct(1))
  next
    case None
    let ?w1 = "w1\<lparr>hv_shared := (hv_shared w1)\<lparr>sh_pongs_written := sh_pongs_written (hv_shared w1) + 1\<rparr>\<rparr>"
    have "send_pongs F ps ?w1 = (r, w')" using 2(2) q None by simp
    from 2(1) [OF q [symmetric] None this 2(3)] obtain qs rest where
      "ps = qs @ rest" "ws_pongs (taken_by F w') = ws_pongs (taken_by F ?w1) @ qs" "r = None \<longrightarrow> rest = []"
      "sh_pongs_due (hv_shared w') = sh_pongs_due (hv_shared ?w1)" "rd_incoming w' = rd_incoming ?w1" by blast
    then show ?thesis using f None by (intro conjI exI [of _ "p # qs"] exI [of _ rest]) simp_all
  qed
qed auto

lemma ws_tick_facts:
  assumes "ws_tick F now now' w = (r, w')" and "framer_lawful F"
  shows "(\<exists>qs rest. sh_pongs_due (hv_shared w) = qs @ rest \<and> ws_pongs (taken_by F w') = ws_pongs (taken_by F w) @ qs \<and>
      (r = None \<longrightarrow> rest = [])) \<and> sh_pongs_due (hv_shared w') = [] \<and> rd_incoming w' = rd_incoming w"
proof -
  let ?w0 = "w\<lparr>hv_shared := (hv_shared w)\<lparr>sh_pongs_due := []\<rparr>\<rparr>"
  obtain a w1 where a: "send_pongs F (sh_pongs_due (hv_shared w)) ?w0 = (a, w1)" by fastforce
  obtain qs rest where f1: "sh_pongs_due (hv_shared w) = qs @ rest" "ws_pongs (taken_by F w1) = ws_pongs (taken_by F w) @ qs"
    "a = None \<longrightarrow> rest = []" "sh_pongs_due (hv_shared w1) = []" "rd_incoming w1 = rd_incoming w"
    using send_pongs_facts [OF a assms(2)] by auto
  show ?thesis
  proof (cases a)
    case (Some k)
    then have "r = Some k" "w' = w1" using assms(1) a by (simp_all add: ws_tick_def take_pongs_def)
    then show ?thesis using f1 by auto
  next
    case None
    obtain b w2 where b: "(if ww_next_ping w1 \<le> now
        then case ws_enqueue F (MsgPing []) w1 of (Some k, w2) \<Rightarrow> (Some k, w2)
          | (None, w2) \<Rightarrow> (None, w2\<lparr>hv_shared := (hv_shared w2)\<lparr>sh_pings_written := sh_pings_written (hv_shared w2) + 1\<rparr>,
                ww_next_ping := now' + ww_interval w2\<rparr>)
        else (None, w1)) = (b, w2)" by (meson surj_pair)
    have f2: "ws_pongs (taken_by F w2) = ws_pongs (taken_by F w1) \<and> sh_pongs_due (hv_shared w2) = sh_pongs_due (hv_shared w1) \<and>
        rd_incoming w2 = rd_incoming w1"
    proof (cases "ww_next_ping w1 \<le> now")
      case True
      obtain c w3 where c: "ws_enqueue F (MsgPing []) w1 = (c, w3)" by fastforce
      have "ws_pongs (taken_by F w3) = ws_pongs (taken_by F w1)" using enqueue_facts [OF c assms(2)] by auto
      then show ?thesis using b c True enqueue_facts [OF c assms(2)] by (cases c) auto
    qed (use b in auto)
    obtain d w4 where d: "ws_pump F w2 = (d, w4)" by fastforce
    note f3 = pump_facts [OF d assms(2)]
    have "w' = (if b = None then w4 else w2)"
      using assms(1) a None b d unfolding ws_tick_def take_pongs_def by (cases b) auto
    then show ?thesis using f1 f2 f3 None by (auto split: if_splits)
  qed
qed

text \<open>
  A pong that is refused ends the connection: when the framer's buffer is full and has no room for a
  pong that is owed, the heartbeat reports a blocked write, all the pongs owed are forgotten, and the
  writer of the connection, which gives up on any failed heartbeat, kills the link although nothing was lost.
\<close>

theorem refused_pong_ends_connection:
  assumes "sh_pongs_due (hv_shared w) = p # ps" and "fr_write F (MsgPong p) (ww_ws w) = (Some FailWriteBufferFull, s)"
    and "mw_alive m" and "lk_alive (wr_link m)" and "\<not> en_shutdown e (wr_now m)" and "\<not> mux_is_closed (mw_io m)"
  shows "fst (ws_tick F now now' w) = Some IoWouldBlock \<and> sh_pongs_due (hv_shared (snd (ws_tick F now now' w))) = [] \<and>
    after_rounds e False (fst (ws_tick F now now' w) = None) m = (Returned, mux_kill m) \<and> \<not> mw_alive (mux_kill m)"
proof -
  have "ws_tick F now now' w = (Some IoWouldBlock, w\<lparr>hv_shared := (hv_shared w)\<lparr>sh_pongs_due := []\<rparr>, ww_ws := s\<rparr>)"
    using assms(1,2) by (simp add: ws_tick_def take_pongs_def ws_enqueue_def ws_blocked_def)
  then show ?thesis using assms(3-6) by (simp add: after_rounds_def mux_kill_def)
qed

definition owing :: "(ws_failure option list \<times> ws_failure option list \<times> ws_message list) ws_halves" where
  "owing = (ws_split [] ([Some FailWriteBufferFull], [], []) 0)\<lparr>hv_shared := owe_pong [5] (owe_pong [4] ws_shared_new)\<rparr>"

theorem refused_pong_ends_connection_witness:
  "after_rounds quiet_env False (fst (ws_tick scripted 0 0 owing) = None) (mux_writer_new mux_io_new ''p'' 0 0 [] (\<lambda>_. \<lparr>txc_packets = 0, txc_bytes = 0, txc_payload = 0\<rparr>)) =
   (Returned, mux_kill (mux_writer_new mux_io_new ''p'' 0 0 [] (\<lambda>_. \<lparr>txc_packets = 0, txc_bytes = 0, txc_payload = 0\<rparr>)))"
proof -
  let ?m = "mux_writer_new mux_io_new ''p'' 0 0 [] (\<lambda>_. \<lparr>txc_packets = 0, txc_bytes = 0, txc_payload = 0\<rparr>)"
  have due: "sh_pongs_due (hv_shared owing) = [4] # [[5]]" by (simp add: owing_def owe_pong_def ws_shared_new_def)
  have full: "fr_write scripted (MsgPong [4]) (ww_ws owing) = (Some FailWriteBufferFull, ([], [], []))"
    by (simp add: owing_def scripted_def ws_split_def)
  have live: "mw_alive ?m" "lk_alive (wr_link ?m)" "\<not> en_shutdown quiet_env (wr_now ?m)" "\<not> mux_is_closed (mw_io ?m)"
    by (simp_all add: mux_writer_new_def media_link_new_def quiet_env_def mux_is_closed_def mux_io_new_def)
  show ?thesis using refused_pong_ends_connection [OF due full live] by blast
qed

text \<open>Both halves at work, in any order.\<close>

datatype half_event = HalfRead nat | HalfWrite bytes | HalfTick nat nat | HalfFlush

definition half_step :: "'w framer \<Rightarrow> half_event \<Rightarrow> 'w ws_halves \<Rightarrow> 'w ws_halves" where
  "half_step F e w =
     (case e of
        HalfRead cap \<Rightarrow> snd (ws_read cap w)
      | HalfWrite buf \<Rightarrow> snd (ws_write F buf w)
      | HalfTick now now' \<Rightarrow> snd (ws_tick F now now' w)
      | HalfFlush \<Rightarrow> snd (ws_flush F w))"

fun half_run :: "'w framer \<Rightarrow> half_event list \<Rightarrow> 'w ws_halves \<Rightarrow> 'w ws_halves" where
  "half_run F [] w = w"
| "half_run F (e # es) w = half_run F es (half_step F e w)"

definition answers_ok :: "'w framer \<Rightarrow> bytes list \<Rightarrow> (ws_failure + ws_message) list \<Rightarrow> 'w ws_halves \<Rightarrow> bool" where
  "answers_ok F base incoming w \<longleftrightarrow>
     (\<exists>seen sent. incoming = seen @ rd_incoming w \<and> ws_pongs (taken_by F w) = base @ sent \<and>
        subseq (sent @ sh_pongs_due (hv_shared w)) (ws_pings seen)) \<and> length (sh_pongs_due (hv_shared w)) \<le> 4"

lemma subseq_newest: "subseq (newest n xs) xs"
  unfolding newest_def by (intro suffix_imp_subseq suffix_drop)

lemma half_step_ok:
  assumes "framer_lawful F" and "\<forall>cap. e = HalfRead cap \<longrightarrow> 0 < cap" and "answers_ok F base incoming w"
  shows "answers_ok F base incoming (half_step F e w)"
proof -
  obtain seen sent where i: "incoming = seen @ rd_incoming w" "ws_pongs (taken_by F w) = base @ sent"
    "subseq (sent @ sh_pongs_due (hv_shared w)) (ws_pings seen)" "length (sh_pongs_due (hv_shared w)) \<le> 4"
    using assms(3) by (auto simp: answers_ok_def)
  show ?thesis
  proof (cases e)
    case (HalfRead cap)
    obtain x w' where x: "ws_read cap w = (x, w')" by fastforce
    from ws_read_step [OF x _ i(4)] assms(2) HalfRead obtain tk where tk: "rd_incoming w = tk @ rd_incoming w'"
      "sh_pongs_due (hv_shared w') = newest 4 (sh_pongs_due (hv_shared w) @ ws_pings tk)" "ww_ws w' = ww_ws w" by metis
    have "subseq (sent @ newest 4 (sh_pongs_due (hv_shared w) @ ws_pings tk)) (sent @ sh_pongs_due (hv_shared w) @ ws_pings tk)"
      by (intro list_emb_append_mono subseq_order.order_refl subseq_newest)
    also have "subseq (sent @ sh_pongs_due (hv_shared w) @ ws_pings tk) (ws_pings (seen @ tk))"
      using list_emb_append_mono [OF i(3) subseq_order.order_refl [of "ws_pings tk"]] by (simp add: ws_lists_append)
    finally show ?thesis unfolding answers_ok_def using i tk x HalfRead
      by (intro conjI exI [of _ "seen @ tk"] exI [of _ sent]) (simp_all add: half_step_def)
  next
    case (HalfWrite buf)
    obtain r w' where r: "ws_write F buf w = (r, w')" by fastforce
    have "ws_pongs (taken_by F w') = ws_pongs (taken_by F w)" using ws_write_facts [OF r assms(1)] by auto
    then show ?thesis unfolding answers_ok_def using i ws_write_facts [OF r assms(1)] r HalfWrite
      by (intro conjI exI [of _ seen] exI [of _ sent]) (simp_all add: half_step_def)
  next
    case (HalfTick now now')
    obtain r w' where r: "ws_tick F now now' w = (r, w')" by fastforce
    obtain qs rest where q: "sh_pongs_due (hv_shared w) = qs @ rest" "ws_pongs (taken_by F w') = ws_pongs (taken_by F w) @ qs"
      "sh_pongs_due (hv_shared w') = []" "rd_incoming w' = rd_incoming w"
      using ws_tick_facts [OF r assms(1)] by blast
    have "subseq (sent @ qs) (ws_pings seen)"
    proof (rule subseq_order.order_trans)
      show "subseq (sent @ qs) ((sent @ qs) @ rest)" by (intro prefix_imp_subseq prefixI [OF refl])
      show "subseq ((sent @ qs) @ rest) (ws_pings seen)" using i(3) q(1) by simp
    qed
    then show ?thesis unfolding answers_ok_def using i q r HalfTick
      by (intro conjI exI [of _ seen] exI [of _ "sent @ qs"]) (simp_all add: half_step_def)
  next
    case HalfFlush
    obtain r w' where r: "ws_pump F w = (r, w')" by fastforce
    then show ?thesis unfolding answers_ok_def using i pump_facts [OF r assms(1)] HalfFlush
      by (intro conjI exI [of _ seen] exI [of _ sent]) (simp_all add: half_step_def ws_flush_def)
  qed
qed

lemma half_run_ok:
  "framer_lawful F \<Longrightarrow> \<forall>cap. HalfRead cap \<in> set es \<longrightarrow> 0 < cap \<Longrightarrow> answers_ok F base incoming w \<Longrightarrow> answers_ok F base incoming (half_run F es w)"
proof (induction es arbitrary: w)
  case (Cons e es)
  have "answers_ok F base incoming (half_step F e w)" by (rule half_step_ok [OF Cons.prems(1) _ Cons.prems(3)]) (use Cons.prems(2) in auto)
  then show ?case using Cons.IH [OF Cons.prems(1)] Cons.prems(2) by simp
qed simp

text \<open>
  Every pong answers a ping: however reads, writes, heartbeats and flushes of the two halves are
  interleaved, the pongs put on the connection together with those still owed are some of the peer's
  pings, in their order and none twice, and at most four are owed.
\<close>

theorem pongs_answer_pings:
  assumes "framer_lawful F" and "\<forall>cap. HalfRead cap \<in> set es \<longrightarrow> 0 < cap" and "fr_taken F f = []"
    and "w = half_run F es (ws_split incoming f now)"
  shows "(\<exists>seen. incoming = seen @ rd_incoming w \<and> subseq (ws_pongs (taken_by F w) @ sh_pongs_due (hv_shared w)) (ws_pings seen)) \<and>
    length (sh_pongs_due (hv_shared w)) \<le> 4"
proof -
  have "answers_ok F [] incoming (ws_split incoming f now)"
    using assms(3) by (auto simp: answers_ok_def ws_split_def ws_shared_new_def)
  from half_run_ok [OF assms(1,2) this] show ?thesis using assms(4) by (auto simp: answers_ok_def)
qed

theorem pongs_answer_pings_witness:
  "\<exists>w. w = half_run scripted [HalfRead 8, HalfTick 1 1] (ws_split [Inr (MsgPing [9])] ([], [], []) 0) \<and>
     taken_by scripted w = [MsgPong [9]] \<and> length (sh_pongs_due (hv_shared w)) \<le> 4"
proof -
  obtain w where w: "w = half_run scripted [HalfRead 8, HalfTick 1 1] (ws_split [Inr (MsgPing [9])] ([], [], []) 0)" by blast
  have "taken_by scripted w = [MsgPong [9]]" unfolding w
    by (simp add: half_step_def ws_split_def ws_read_def owe_pong_def ws_shared_new_def Let_def ws_tick_def take_pongs_def ws_enqueue_def
        scripted_def ws_pump_def PING_INTERVAL_def)
  moreover have "length (sh_pongs_due (hv_shared w)) \<le> 4"
    using pongs_answer_pings [OF scripted_lawful _ _ w] by (simp add: scripted_def)
  ultimately show ?thesis using w by blast
qed

section \<open>The upgrade ends\<close>

lemma upgrade_loop_ends:
  "upgrade_loop deadline now as = (r, t) \<Longrightarrow> \<forall>x \<in> set as. fst x \<le> D \<Longrightarrow> now \<le> deadline \<Longrightarrow> t \<le> deadline + D"
  by (induction deadline now as rule: upgrade_loop.induct) (fastforce split: attempt.splits if_splits)+

lemma upgrade_deflate_refused:
  "ws_connect url req now as = (Some (Inr RoleClient), t) \<Longrightarrow> \<not> ws_tls url \<and> assert_no_deflate req \<and>
    (\<exists>resp. upgrade_loop (now + UPGRADE_TIMEOUT) now as = (Some (Inr resp), t) \<and> assert_no_deflate resp)"
  by (auto simp: ws_connect_def split: if_splits option.splits sum.splits prod.splits)

end
