(* ===== verification/Spec2Isabelle.thy ===== *)
theory Spec2Isabelle
  imports Utf8 Identity Pairing Tlv8 RtpSequence Jitter TimingClock WirePacket Framed MuxIo OpMode Ladder Targets WsUrl
    PeerTransport Reconnect AutoTier Rtsp Secure PlayBuffer PlayRuns LatencyLoop SpscRing MediaLink MuxWriter MediaAttach
    SpatialMedia WsShell
begin

text \<open>
  AudioHub: a verification library for the program's protocol and control core.

  AudioHub is a daemon (core/audiohubd) that carries live audio between machines on a local network
  or through tunnels, with a desktop front end and virtual audio drivers around it. The library models
  the parts that decide what goes over the network, to whom, in which order and when: the wire formats
  and their decoders, the encrypted control channel, pairing, the connections of three tiers (datagrams,
  a media connection beside the control connection, and one multiplexed connection), the table of
  sessions, the machinery that brings them back, and the buffers that turn arriving packets into steady
  audio. A second front door, the AirPlay receiver (core/audiohub-airplay), contributes its wire formats,
  packet numbering, packet buffer and clock arithmetic.

  How the parts interact. A peer is found by its fingerprint (Identity), paired once by PIN and verified
  on every connection (Pairing); both run in plain frames, after which the control channel is encrypted
  (Secure). On a multiplexed connection the channel's bytes travel in control frames (MuxIo, MuxWriter)
  cut and recovered by the frame codec (Framed) whose frames are media packets with their header
  (WirePacket). On the middle tier a media connection is attached to the control connection by a ticket
  (MediaAttach) and written by its own thread (MediaLink) from a lock-free ring (SpscRing). Which tier a
  peer uses is remembered per peer (PeerTransport, WsUrl) and lowered by a watchdog (AutoTier); what may
  be opened depends on the operating mode (OpMode); a lost connection and its sessions are opened again
  by the supervisor (Reconnect). On the receiving side frames wait in the play buffer (PlayBuffer,
  PlayRuns), whose depth follows the user's latency choice (Targets, LatencyLoop), while the sender's
  quality follows the link (Ladder).

  The theories and the code they model, bottom up.

  Prelude, Interfaces, OrderedMap, RustStr, Utf8: machine types, byte order, chunks; the contracts that
  several components share as locales (a closed enumeration with a wire spelling, a state machine with an
  invariant and one with a level no step lowers, bounded queues that drop their oldest or reject their
  newest element), each interpreted in the theory of the component that provides it; Rust's ordered map
  and string operations as far as the code uses them.

  Tlv8 (protocol/tlv8.rs), RtpSequence (protocol/media/packet.rs), Jitter (media/jitter.rs), TimingClock
  (media/clock.rs, buffered_clock.rs), Rtsp (protocol/rtsp.rs): the AirPlay side. Round trips between
  encoders and decoders, the recovery of 64-bit counters from wrapping ones, delivery in order with exact
  gaps, the error bound of the clock offset, and the agreement of the two drivers of the request parser.

  WirePacket (packet.rs), Framed (framed.rs), MuxIo (muxio.rs, mux.rs, tcpmedia.rs), MuxWriter (mux.rs),
  MediaLink and MediaAttach (tcpmedia.rs), SpscRing (rtsafe.rs), SpatialMedia (spatial_media.rs),
  WsShell (wsshell.rs): the transports. The frame decoder refines a function on the byte string that
  ignores segmentation; bytes written into the multiplexed control stream come out in order; frames on a
  connection are whole; media can delay control only by its credit and one frame; at most one media link
  is attached to a connection; a spatial frame comes back exactly or says
  what it lacks; the WebSocket upgrade leaves the frames behind it, and a frame goes out on it once and whole.

  Secure (secure.rs, control.rs, part of media.rs), Identity (identity.rs), Pairing (pairing.rs, conn.rs):
  keys, handshakes and what an attacker can make of them. Signatures, ciphers, the key agreement, hashes
  and base64 are fields of records of primitives, with what is documented of them as named hypotheses
  (a lawful record; a message that was not forged); each theory has a concrete record that satisfies them.

  OpMode (mode.rs, haldev.rs, conn.rs), PeerTransport (peer_transport.rs), WsUrl (wsshell.rs), Targets
  (transport.rs of the IPC crate), Ladder (media.rs), AutoTier (autotier.rs), Reconnect (reconnect.rs,
  conn.rs): the control core, as machines whose events interleave; invariants by induction over runs.

  PlayBuffer and PlayRuns (media.rs), LatencyLoop (servo.rs, transport.rs, engine.rs): the play buffer
  operation by operation, then over time, and the loop that steers its depth.

  Conventions. A struct is a record with a prefix per type, an enumeration a datatype, a Result a sum with
  the error on the left, an Option an option; a panic or an assertion that can fail is None. Integers that
  only travel are words; counters on which the code computes are natural numbers, with the checks,
  saturation and wrap-around of the code written out where they can matter. Instants are natural numbers
  or rationals. Code that runs on several threads is a machine whose steps are what happens under one lock
  or in one atomic operation; a property about it holds for every order of the steps. Loops are structural
  recursions, functions with a measure, or functions on the list of what the environment will answer; the
  list running out means that the code is still waiting. The only fuel is in the reader of a request
  (the bytes the reader holds bound it) and in the drain of a send queue (its length bounds it); in both
  cases enough is proved to be enough.

  Not modelled, and why. Rounding of floating-point numbers: samples and gains are elements of a record of
  operations, measurements are real or rational numbers. The audio engine, mixer, sample conversion and
  the device and driver bridges work on shared memory and operating-system interfaces. Counters of 64 bits
  that cannot wrap in practice are unbounded, and atomics other than those of the ring are sequentially
  consistent. Files, sockets, threads and processes are arguments, events or logs of effects. The AirPlay
  server's sessions, its cryptography and its decoders, the command-line client, the IPC server's
  dispatch beyond pairing, discovery, autostart, permissions and installers, and the front end are outside;
  the manifest lists them one by one.
\<close>

section \<open>The control stream from end to end\<close>

text \<open>
  C1. Control bytes survive the multiplexed connection: if the control frames that the sending side
  has put on the wire, interleaved with any media frames, reach the other side in any segmentation,
  the receiving side's inbox holds a prefix of what was written there, in order and without gaps,
  and all of it once nothing is pending, queued or in flight; the media frames come out unchanged.
\<close>

theorem control_stream_end_to_end:
  assumes "s = fold mux_step es mux_tx_new"
    and "map (\<lambda>(h, p). fr_frame (sent_frame h p)) (filter (\<lambda>(h, p). h_kind h = Control) hps) = tx_wire s"
    and "encode_frames hps [] = Inr (concat cs)"
    and "length (frames_payload (tx_wire s)) \<le> MAX_INBOX_BYTES"
  shows "\<exists>d rx rest. mux_read_chunks mux_rx_new cs = Some (d, rx, Drained) \<and>
    tx_written s = ib_buf (io_inbox (rx_io rx)) @ rest \<and> rx_datagrams rx = media_datagrams hps \<and>
    (\<not> tx_dead s \<and> tx_inflight s = None \<and> io_outbox (tx_io s) = [] \<and> mcs_pending (tx_stream s) = [] \<longrightarrow> rest = [])"
proof -
  have inv: "mux_inv s" using mux.run_inv [OF mux_new_inv, of es] assms(1) by simp
  have "frames_payload (map (\<lambda>(h, p). fr_frame (sent_frame h p)) (filter (\<lambda>(h, p). h_kind h = Control) hps)) =
      control_bytes hps"
    by (induction hps) (auto simp: control_bytes_def frame_payload_sent [unfolded frame_payload_def])
  then have bytes: "frames_payload (tx_wire s) = control_bytes hps" using assms(2) by simp
  with assms(3,4) obtain d rx where rx: "mux_read_chunks mux_rx_new cs = Some (d, rx, Drained)"
      "ib_buf (io_inbox (rx_io rx)) = frames_payload (tx_wire s)" "rx_datagrams rx = media_datagrams hps"
    using mux_read_stream [OF assms(3)] by auto
  from inv obtain rest where rest: "tx_written s = frames_payload (tx_wire s) @ rest" by (auto simp: mux_inv_def)
  have "rest = []" if "\<not> tx_dead s" "tx_inflight s = None" "io_outbox (tx_io s) = []" "mcs_pending (tx_stream s) = []"
    using inv rest that by (simp add: mux_inv_def inflight_payload_def)
  with rx rest show ?thesis by fastforce
qed

theorem control_stream_end_to_end_witness:
  "\<exists>d rx. mux_read_chunks mux_rx_new [fr_frame (sent_frame control_header [1, 2])] = Some (d, rx, Drained) \<and>
     ib_buf (io_inbox (rx_io rx)) = [1, 2]"
proof -
  let ?es = "[WriteBytes [1, 2], Flush, TakeFrame, FinishFrame Sent]" and ?hps = "[(control_header, [1, 2])]"
  let ?s = "fold mux_step ?es mux_tx_new"
  have "div_ceil 2 MUX_MAX_PAYLOAD = 1" by (simp add: div_ceil_def MUX_MAX_PAYLOAD_def)
  then have s: "tx_wire ?s = [fr_frame (sent_frame control_header [1, 2])]" "tx_written ?s = [1, 2]" "\<not> tx_dead ?s"
      "tx_inflight ?s = None" "io_outbox (tx_io ?s) = []" "mcs_pending (tx_stream ?s) = []"
    by (simp_all add: mux_tx_new_def mux_io_new_def mux_control_stream_new_def mcs_write_def mcs_flush_cases
        control_frames_def chunks_Cons MUX_MAX_PAYLOAD_def MAX_PENDING_FRAMES_def take_control_frame_def finish_control_frame_def)
  have "encode_frame control_header [1, 2] [] = Inr ([] @ fr_frame (sent_frame control_header [1, 2]))"
    by (subst encode_frame_Inr) (simp add: MUX_MAX_PAYLOAD_def)
  then have enc: "encode_frames ?hps [] = Inr (concat [fr_frame (sent_frame control_header [1, 2])])" by simp
  have payload: "frames_payload [fr_frame (sent_frame control_header [1, 2])] = [1, 2]"
    by (simp add: frame_payload_sent [unfolded frame_payload_def])
  have "map (\<lambda>(h, p). fr_frame (sent_frame h p)) (filter (\<lambda>(h, p). h_kind h = Control) ?hps) = tx_wire ?s"
    unfolding s(1) by (simp add: control_header_def)
  moreover have "length (frames_payload (tx_wire ?s)) \<le> MAX_INBOX_BYTES"
    unfolding s(1) payload by (simp add: MAX_INBOX_BYTES_def)
  ultimately obtain d rx rest where "mux_read_chunks mux_rx_new [fr_frame (sent_frame control_header [1, 2])] = Some (d, rx, Drained)"
      "tx_written ?s = ib_buf (io_inbox (rx_io rx)) @ rest" "rest = []"
    using control_stream_end_to_end [OF refl _ enc, of ?es] s by metis
  with s(2) show ?thesis by auto
qed

end
